(* ===== verification/Prelude.thy ===== *)
theory Prelude
  imports Main "HOL-Library.Word"
begin

text \<open>
  Shared vocabulary of the development: the machine types of the wasm32 target, the
  alignment macros the C sources repeat (\<open>ALIGN_UP\<close>, \<open>ALIGN_DOWN\<close>, \<open>HAS_ALIGNMENT\<close>,
  \<open>IS_POWER_OF_2\<close>, \<open>ROUND_UP\<close>), the wasm \<open>clz\<close> and \<open>ctz\<close> instructions, the errno values
  of Emscripten's libc, and the lemmas on words, lists and maps that several components use.
  A \<open>size_t\<close>, a pointer and a \<open>uintptr_t\<close> are \<^typ>\<open>32 word\<close>; an \<open>int\<close> is a \<^typ>\<open>32 word\<close> read with
  \<^const>\<open>sint\<close> where its width matters and an \<^typ>\<open>int\<close> where it does not.
\<close>

unbundle bit_operations_syntax

type_synonym u8 = "8 word"
type_synonym u16 = "16 word"
type_synonym u32 = "32 word"
type_synonym u64 = "64 word"

named_theorems arith_words \<open>readings of word operations as natural numbers\<close>
named_theorems frame \<open>what an operation leaves unchanged\<close>

section \<open>Errno values\<close>

text \<open>The numbers of \<open>bits/errno.h\<close>: the WASI numbering of \<open>system/include/wasi/api.h\<close>.\<close>

abbreviation EPERM :: int where "EPERM \<equiv> 63"
abbreviation EACCES :: int where "EACCES \<equiv> 2"
abbreviation EAGAIN :: int where "EAGAIN \<equiv> 6"
abbreviation EBUSY :: int where "EBUSY \<equiv> 10"
abbreviation ECANCELED :: int where "ECANCELED \<equiv> 11"
abbreviation ECHILD :: int where "ECHILD \<equiv> 12"
abbreviation EFAULT :: int where "EFAULT \<equiv> 21"
abbreviation EINTR :: int where "EINTR \<equiv> 27"
abbreviation EINVAL :: int where "EINVAL \<equiv> 28"
abbreviation EIO :: int where "EIO \<equiv> 29"
abbreviation EMLINK :: int where "EMLINK \<equiv> 34"
abbreviation ENOENT :: int where "ENOENT \<equiv> 44"
abbreviation ENOEXEC :: int where "ENOEXEC \<equiv> 45"
abbreviation ENOMEM :: int where "ENOMEM \<equiv> 48"
abbreviation ENOPROTOOPT :: int where "ENOPROTOOPT \<equiv> 50"
abbreviation ENOSYS :: int where "ENOSYS \<equiv> 52"
abbreviation ENOTSUP :: int where "ENOTSUP \<equiv> 138"
abbreviation EOVERFLOW :: int where "EOVERFLOW \<equiv> 61"
abbreviation ESRCH :: int where "ESRCH \<equiv> 71"
abbreviation ETIMEDOUT :: int where "ETIMEDOUT \<equiv> 73"
abbreviation EWOULDBLOCK :: int where "EWOULDBLOCK \<equiv> 6"
abbreviation EBADF :: int where "EBADF \<equiv> 8"
abbreviation EDEADLK :: int where "EDEADLK \<equiv> 16"
abbreviation EEXIST :: int where "EEXIST \<equiv> 20"
abbreviation EFBIG :: int where "EFBIG \<equiv> 22"
abbreviation EISDIR :: int where "EISDIR \<equiv> 31"
abbreviation ELOOP :: int where "ELOOP \<equiv> 32"
abbreviation EMFILE :: int where "EMFILE \<equiv> 33"
abbreviation ENAMETOOLONG :: int where "ENAMETOOLONG \<equiv> 37"
abbreviation ENODEV :: int where "ENODEV \<equiv> 43"
abbreviation ENOTDIR :: int where "ENOTDIR \<equiv> 54"
abbreviation ENOTEMPTY :: int where "ENOTEMPTY \<equiv> 55"
abbreviation ENOTTY :: int where "ENOTTY \<equiv> 59"
abbreviation ERANGE :: int where "ERANGE \<equiv> 68"
abbreviation ESPIPE :: int where "ESPIPE \<equiv> 70"
abbreviation EXDEV :: int where "EXDEV \<equiv> 75"
abbreviation ESHUTDOWN :: int where "ESHUTDOWN \<equiv> 140"

section \<open>Alignment\<close>

definition align_up :: "'a::len word \<Rightarrow> 'a word \<Rightarrow> 'a word" where
  "align_up p a = (p + (a - 1)) AND NOT (a - 1)"

definition align_down :: "'a::len word \<Rightarrow> 'a word \<Rightarrow> 'a word" where
  "align_down p a = p AND NOT (a - 1)"

definition has_alignment :: "'a::len word \<Rightarrow> 'a word \<Rightarrow> bool" where
  "has_alignment p a \<longleftrightarrow> p AND (a - 1) = 0"

definition is_power_of_2 :: "'a::len word \<Rightarrow> bool" where
  "is_power_of_2 v \<longleftrightarrow> v AND (v - 1) = 0"

lemma and_not_mask_add: "(w AND NOT (mask k)) + take_bit k w = (w :: 'a::len word)"
proof -
  have "(w AND NOT (mask k)) AND take_bit k w = 0"
    by (rule bit_eqI) (auto simp: bit_simps)
  then have "(w AND NOT (mask k)) + take_bit k w = (w AND NOT (mask k)) OR take_bit k w"
    by (simp add: disjunctive_add bit_eq_iff bit_simps)
  also have "\<dots> = w"
    by (rule bit_eqI) (auto simp: bit_simps)
  finally show ?thesis .
qed

lemma and_not_mask_eq: "w AND NOT (mask k) = w - take_bit k (w :: 'a::len word)"
  using and_not_mask_add [of w k] by (metis add_diff_cancel_right')

lemma unat_and_not_mask [arith_words]:
  "unat (w AND NOT (mask k)) = unat (w :: 'a::len word) - unat w mod 2 ^ k"
proof -
  have le: "take_bit k w \<le> w"
    unfolding word_le_nat_alt unsigned_take_bit_eq by (simp add: take_bit_eq_mod)
  show ?thesis
    unfolding and_not_mask_eq unat_sub [OF le] unsigned_take_bit_eq
    by (simp add: take_bit_eq_mod)
qed

lemma exp_minus_1_eq_mask: "(2 ^ k :: 'a::len word) - 1 = mask k"
  by (simp add: mask_eq_exp_minus_1)

lemma align_down_exp: "align_down p (2 ^ k) = p AND NOT (mask k)"
  by (simp add: align_down_def exp_minus_1_eq_mask)

lemma unat_align_down [arith_words]: "unat (align_down p (2 ^ k)) = unat p - unat p mod 2 ^ k"
  by (simp add: align_down_exp unat_and_not_mask)

lemma has_alignment_exp:
  "has_alignment p (2 ^ k) \<longleftrightarrow> unat (p :: 'a::len word) mod 2 ^ k = 0"
  by (simp add: has_alignment_def exp_minus_1_eq_mask flip: and_mask_dvd_nat)
     (simp add: dvd_eq_mod_eq_0)

lemma align_up_exp: "align_up p (2 ^ k) = align_down (p + mask k) (2 ^ k)"
  by (simp add: align_up_def align_down_def exp_minus_1_eq_mask)


section \<open>Leading and trailing zero counts\<close>

text \<open>
  The wasm instructions behind \<open>__builtin_clz\<close> and \<open>__builtin_ctzll\<close>; at 0 they give the
  width of the word, as the wasm specification says.
\<close>

definition clz :: "'a::len word \<Rightarrow> nat" where
  "clz w = length (takeWhile (\<lambda>i. \<not> bit w (LENGTH('a) - 1 - i)) [0..<LENGTH('a)])"

definition ctz :: "'a::len word \<Rightarrow> nat" where
  "ctz w = length (takeWhile (\<lambda>i. \<not> bit w i) [0..<LENGTH('a)])"

lemma length_takeWhile_upt:
  "length (takeWhile P [0..<n]) = (if \<forall>i<n. P i then n else (LEAST i. \<not> P i))"
proof (cases "\<forall>i<n. P i")
  case True
  then have all: "takeWhile P [0..<n] = [0..<n]"
    by (simp add: takeWhile_eq_all_conv)
  from True show ?thesis unfolding all by simp
next
  case False
  define k where "k = length (takeWhile P [0..<n])"
  have "k < n"
  proof (rule ccontr)
    assume "\<not> k < n"
    then have "takeWhile P [0..<n] = [0..<n]"
      unfolding k_def by (metis length_takeWhile_le length_upt minus_nat.diff_0 nth_equalityI
        linorder_neqE_nat not_less takeWhile_nth)
    with False show False by (auto simp: takeWhile_eq_all_conv)
  qed
  have pre: "P i" if "i < k" for i
    using that \<open>k < n\<close> nth_mem [of i "takeWhile P [0..<n]"] set_takeWhileD
    unfolding k_def by (metis takeWhile_nth nth_upt add_0 less_trans)
  have stop: "\<not> P k"
    using \<open>k < n\<close> nth_length_takeWhile [of P "[0..<n]"] unfolding k_def by simp
  have "(LEAST i. \<not> P i) = k"
    by (rule Least_equality) (use stop pre not_less in blast)+
  with False show ?thesis unfolding k_def by auto
qed

lemma ctz_less:
  assumes "w \<noteq> 0"
  shows "ctz (w :: 'a::len word) < LENGTH('a)"
proof -
  from assms obtain i where i: "i < LENGTH('a)" "bit w i"
    by (metis bit_0_eq bit_word_eqI bot_apply bot_bool_def)
  then have "ctz w = (LEAST i. bit w i)"
    by (auto simp: ctz_def length_takeWhile_upt)
  also have "\<dots> \<le> i" using i(2) by (rule Least_le)
  finally show ?thesis using i(1) by simp
qed

lemma bit_ctz:
  assumes "w \<noteq> 0"
  shows "bit (w :: 'a::len word) (ctz w)"
  using nth_length_takeWhile [of "\<lambda>i. \<not> bit w i" "[0..<LENGTH('a)]"] ctz_less [OF assms]
  by (simp add: ctz_def)

lemma not_bit_below_ctz: "i < ctz w \<Longrightarrow> \<not> bit (w :: 'a::len word) i"
  using takeWhile_nth [of i "\<lambda>i. \<not> bit w i" "[0..<LENGTH('a)]"] nth_mem set_takeWhileD
  unfolding ctz_def by (metis add_0 length_takeWhile_le length_upt diff_zero less_le_trans nth_upt)

section \<open>Widening and narrowing\<close>

lemma unat_ucast_u64 [simp, arith_words]: "unat (ucast (x :: u32) :: u64) = unat x"
proof -
  have "unat x < 2 ^ 64"
    using unsigned_less [of x, where ?'a = nat] by simp
  then show ?thesis
    by (simp add: unsigned_ucast_eq take_bit_nat_eq_self)
qed

lemma uint_ucast_u64 [simp, arith_words]: "uint (ucast (x :: u32) :: u64) = uint x"
  using unat_ucast_u64 [of x] by (metis uint_nat)

lemma ucast_ucast_u32 [simp]: "ucast (ucast (x :: u32) :: u64) = x"
  by (rule bit_word_eqI) (simp add: bit_simps)

lemma sint_ucast_u64 [simp, arith_words]: "sint (ucast (x :: u32) :: u64) = uint x"
proof -
  have "uint x < 2 ^ 32"
    using uint_lt2p [of x] by simp
  then have "signed_take_bit 63 (uint x) = uint x"
    by (simp add: signed_take_bit_eq_if_positive take_bit_int_eq_self bit_iff_odd)
  then show ?thesis by (simp add: sint_uint)
qed

lemma unat_lt_2_32: "unat (x :: u32) < 4294967296"
  using unsigned_less [of x, where ?'a = nat] by simp

lemma unat_ucast_u32 [arith_words]: "unat (ucast (x :: u64) :: u32) = unat x mod 2 ^ 32"
  by (simp add: unsigned_ucast_eq take_bit_eq_mod)

lemma bit_iff_odd_unat: "bit (w :: 'a::len word) k \<longleftrightarrow> odd (unat w div 2 ^ k)"
  by (metis bit_iff_odd bit_unsigned_iff possible_bit_def possible_bit_nat unsigned_word_eqI
      bit_imp_possible_bit possible_bit_word)

lemma clz_eq:
  assumes "2 ^ k \<le> unat (w :: 'a::len word)" "unat w < 2 ^ Suc k" "k < LENGTH('a)"
  shows "clz w = LENGTH('a) - 1 - k"
proof -
  have "unat w div 2 ^ k = 1"
    by (rule div_nat_eqI) (use assms(1,2) in simp_all)
  then have top: "bit w k"
    by (simp add: bit_iff_odd_unat)
  have above: "\<not> bit w j" if "k < j" for j
  proof -
    have "unat w < 2 ^ j"
      using assms(2) that power_increasing [of "Suc k" j "2::nat"] by linarith
    then show ?thesis by (simp add: bit_iff_odd_unat)
  qed
  have "(LEAST i. \<not> \<not> bit w (LENGTH('a) - 1 - i)) = LENGTH('a) - 1 - k"
  proof (rule Least_equality)
    show "\<not> \<not> bit w (LENGTH('a) - 1 - (LENGTH('a) - 1 - k))"
      using top assms(3) by simp
    show "LENGTH('a) - 1 - k \<le> i" if "\<not> \<not> bit w (LENGTH('a) - 1 - i)" for i
    proof (rule ccontr)
      assume "\<not> LENGTH('a) - 1 - k \<le> i"
      then have "k < LENGTH('a) - 1 - i" by simp
      with above that show False by blast
    qed
  qed
  moreover have "\<exists>i<LENGTH('a). bit w (LENGTH('a) - 1 - i)"
    using top assms(3) by (intro exI [of _ "LENGTH('a) - 1 - k"]) simp
  ultimately show ?thesis
    by (auto simp: clz_def length_takeWhile_upt)
qed

section \<open>Arithmetic on shifted words\<close>

lemma unat_drop_bit: "unat (drop_bit k (w :: 'a::len word)) = unat w div 2 ^ k"
  by (subst unat_drop_bit_eq) (rule drop_bit_eq_div)

lemma quotient_range:
  assumes "2 ^ k \<le> (n :: nat)" "n < 2 ^ Suc k" "j \<le> k"
  shows "n div 2 ^ (k - j) \<in> {2 ^ j..<2 ^ Suc j}"
proof -
  have "(2::nat) ^ k = 2 ^ j * 2 ^ (k - j)" "(2::nat) ^ Suc k = 2 ^ Suc j * 2 ^ (k - j)"
    using assms(3) by (simp_all flip: power_add)
  with assms(1,2) show ?thesis
    by (simp add: less_eq_div_iff_mult_less_eq div_less_iff_less_mult)
qed

lemma sint_nonneg: "0 \<le> sint (w :: u32) \<Longrightarrow> sint w = int (unat w)"
proof -
  assume "0 \<le> sint w"
  then have "take_bit 32 (sint w) = sint w"
    using sint_lt [of w] by (intro take_bit_int_eq_self) simp_all
  then show ?thesis using uint_sint [of w] by simp
qed

lemma sint_small:
  assumes "unat (w :: u32) < 2 ^ 31"
  shows "sint w = int (unat w)"
proof -
  have "int (unat w) < int (2 ^ 31)" using assms by (simp only: of_nat_less_iff)
  then have "uint w < 2 ^ 31" by simp
  moreover have "- (2 ^ 31) \<le> uint w" using uint_ge_0 [of w] by (rule order_trans [rotated]) simp
  ultimately have "signed_take_bit 31 (uint w) = uint w" by (intro signed_take_bit_int_eq_self)
  then show ?thesis by (simp add: sint_uint)
qed

lemma unat_nonneg:
  assumes "0 \<le> sint (w :: u32)"
  shows "unat w < 2 ^ 31"
proof -
  have "int (unat w) < int (2 ^ 31)" using sint_nonneg [OF assms] sint_lt [of w] by simp
  then show ?thesis by (simp only: of_nat_less_iff)
qed

lemma unat_const_minus: "d \<le> c \<Longrightarrow> c < 2 ^ 32 \<Longrightarrow> unat (word_of_nat c - word_of_nat d :: u32) = c - d"
  by (subst unat_sub) (auto simp: word_le_nat_alt unsigned_of_nat take_bit_nat_eq_self)

lemma len32: "LENGTH(32) = 32" by simp

lemma unat_min: "unat (min a b) = min (unat (a :: 'a::len word)) (unat b)"
  by (simp add: min_def word_le_nat_alt)

lemma unat_mask_u32: "k < 32 \<Longrightarrow> unat (mask k :: u32) = 2 ^ k - 1"
proof -
  assume k: "k < 32"
  have "unat (mask k :: u32) = take_bit k (mask 32 :: nat)"
    using unsigned_take_bit_eq [of k "- 1 :: u32", where ?'a = nat]
    unfolding take_bit_minus_one_eq_mask unsigned_minus_1_eq_mask len32 .
  also have "\<dots> = mask k" using k by (simp only: take_bit_of_mask min_absorb1 less_imp_le)
  finally show ?thesis by (simp add: mask_eq_exp_minus_1)
qed

lemma unat_add_small: "unat x + unat y < 2 ^ 32 \<Longrightarrow> unat (x + y :: u32) = unat x + unat y"
  by (simp add: unat_word_ariths)

lemma unat_exp_u32: "k < 32 \<Longrightarrow> unat (2 ^ k :: u32) = 2 ^ k"
proof -
  assume k: "k < 32"
  have le: "(2 :: nat) ^ k \<le> 2 ^ 31" by (rule power_increasing) (use k in simp_all)
  have "(2 ^ k :: u32) = mask k + 1" by (simp flip: exp_minus_1_eq_mask)
  then have "unat (2 ^ k :: u32) = unat (mask k + 1 :: u32)" by (rule arg_cong)
  also have "\<dots> = 2 ^ k" using le by (subst unat_add_small) (simp_all add: unat_mask_u32 k)
  finally show ?thesis .
qed

end
