(* ===== verification/Sbrk.thy ===== *)
theory Sbrk
  imports Prelude
begin

text \<open>
  The program break of \<open>system/lib/libc/sbrk.c\<close>: the pointer \<open>sbrk_val\<close>, the wasm memory
  size it may not pass, and \<open>errno\<close>. Growing the memory is done by JavaScript
  (\<open>emscripten_resize_heap\<close>), so it is the parameter \<open>resize\<close>: \<open>resize n h\<close> is the new memory
  size if a memory of \<open>h\<close> bytes could be grown to hold \<open>n\<close> bytes, \<open>None\<close> if not. The body of
  the compare-and-swap loop of a shared-memory build is one atomic step here.
\<close>

record sbrk_state =
  sbrk_val :: u32
  heap_size :: u32
  errno :: int

type_synonym resizer = "u32 \<Rightarrow> u32 \<Rightarrow> u32 option"

text \<open>\<open>resize_ok\<close> is what \<open>emscripten_resize_heap\<close> documents: on success the memory holds the
  requested number of bytes, and a wasm memory never shrinks.\<close>

definition resize_ok :: "resizer \<Rightarrow> bool" where
  "resize_ok resize \<longleftrightarrow> (\<forall>n h h'. resize n h = Some h' \<longrightarrow> n \<le> h' \<and> h \<le> h')"

definition SBRK_ALIGNMENT :: u64 where
  "SBRK_ALIGNMENT = 8"

text \<open>The rounding of the increment: away from zero for growth, towards zero for shrinking.\<close>

definition round_increment :: "u64 \<Rightarrow> u64" where
  "round_increment increment =
     (if 0 \<le> sint increment
      then (increment + (SBRK_ALIGNMENT - 1)) AND NOT (SBRK_ALIGNMENT - 1)
      else - ((- increment) AND NOT (SBRK_ALIGNMENT - 1)))"

definition sbrk64 :: "resizer \<Rightarrow> u64 \<Rightarrow> 'a sbrk_state_scheme \<Rightarrow> u32 \<times> 'a sbrk_state_scheme" where
  "sbrk64 resize increment s =
     (let inc = round_increment increment;
          old_brk = sbrk_val s;
          new_brk64 = ucast old_brk + inc :: u64;
          new_brk = ucast new_brk64 :: u32
      in if new_brk64 \<noteq> ucast new_brk then (- 1, s\<lparr>errno := ENOMEM\<rparr>)
         else if heap_size s < new_brk
         then (case resize new_brk (heap_size s) of
                 None \<Rightarrow> (- 1, s\<lparr>errno := ENOMEM\<rparr>)
               | Some h \<Rightarrow> (old_brk, s\<lparr>heap_size := h, sbrk_val := new_brk\<rparr>))
         else (old_brk, s\<lparr>sbrk_val := new_brk\<rparr>))"

text \<open>\<open>sbrk\<close> of a wasm32 build reads its argument as unsigned (the \<open>uintptr_t\<close> cast).\<close>

definition sbrk :: "resizer \<Rightarrow> u32 \<Rightarrow> 'a sbrk_state_scheme \<Rightarrow> u32 \<times> 'a sbrk_state_scheme" where
  "sbrk resize increment s = sbrk64 resize (ucast increment) s"

definition brk :: "resizer \<Rightarrow> u32 \<Rightarrow> 'a sbrk_state_scheme \<Rightarrow> int \<times> 'a sbrk_state_scheme" where
  "brk resize ptr s =
     (let (last, s1) = sbrk resize 0 s;
          (r, s2) = sbrk resize (ptr - last) s1
      in if r = - 1 then (- 1, s2) else (0, s2))"

section \<open>Correctness\<close>

text \<open>The state invariant: the break is aligned and inside the memory.\<close>

definition sbrk_inv :: "'a sbrk_state_scheme \<Rightarrow> bool" where
  "sbrk_inv s \<longleftrightarrow> unat (sbrk_val s) mod 8 = 0 \<and> sbrk_val s \<le> heap_size s"

lemma round_increment_0 [simp]: "round_increment 0 = 0"
  by (simp add: round_increment_def SBRK_ALIGNMENT_def)

lemma unat_round_increment [arith_words]:
  "unat (round_increment (ucast (n :: u32))) = (unat n + 7) div 8 * 8"
proof -
  have sum: "unat ((ucast n :: u64) + 7) = unat n + 7"
    using unat_lt_2_32 [of n] by (simp add: unat_word_ariths)
  have "round_increment (ucast n) = ((ucast n :: u64) + 7) AND NOT (mask 3)"
    by (simp add: round_increment_def SBRK_ALIGNMENT_def mask_eq_exp_minus_1)
  then show ?thesis
    by (simp add: unat_and_not_mask sum minus_mod_eq_div_mult)
qed

lemma sbrk64_0 [simp]:
  assumes "sbrk_val s \<le> heap_size s"
  shows "sbrk64 resize 0 s = (sbrk_val s, s)"
  using assms by (simp add: sbrk64_def Let_def linorder_not_less [symmetric])

text \<open>The step for an unsigned increment, read in natural numbers.\<close>

definition grown :: "u32 \<Rightarrow> 'a sbrk_state_scheme \<Rightarrow> nat" where
  "grown n s = unat (sbrk_val s) + (unat n + 7) div 8 * 8"

lemma grown_bound: "grown n s < 2 ^ 34"
  using unat_lt_2_32 [of "sbrk_val s"] unat_lt_2_32 [of n] by (simp add: grown_def)

lemma new_brk64:
  "unat (ucast (sbrk_val s) + round_increment (ucast n) :: u64) = grown n s"
  using grown_bound [of n s]
  by (simp add: unat_word_ariths unat_round_increment grown_def)

lemma sbrk_cases:
  "sbrk resize n s =
     (if 2 ^ 32 \<le> grown n s then (- 1, s\<lparr>errno := ENOMEM\<rparr>)
      else let b = word_of_nat (grown n s) in
        if heap_size s < b
        then (case resize b (heap_size s) of
                None \<Rightarrow> (- 1, s\<lparr>errno := ENOMEM\<rparr>)
              | Some h \<Rightarrow> (sbrk_val s, s\<lparr>heap_size := h, sbrk_val := b\<rparr>))
        else (sbrk_val s, s\<lparr>sbrk_val := b\<rparr>))"
proof -
  define w where "w = (ucast (sbrk_val s) + round_increment (ucast n) :: u64)"
  have w: "unat w = grown n s" unfolding w_def by (rule new_brk64)
  have narrow: "(ucast w :: u32) = word_of_nat (grown n s)"
    by (simp add: word_unat_eq_iff unat_ucast_u32 w unsigned_of_nat take_bit_eq_mod)
  have fits: "w \<noteq> ucast (ucast w :: u32) \<longleftrightarrow> 2 ^ 32 \<le> grown n s"
    by (simp add: word_unat_eq_iff unat_ucast_u32 w mod_eq_self_iff_div_eq_0 div_eq_0_iff not_less
        eq_commute [of "grown n s"])
  show ?thesis
    unfolding sbrk_def sbrk64_def Let_def w_def [symmetric]
    using fits by (simp add: narrow Let_def split: option.split)
qed

lemma aligned8_add: "unat (a :: u64) mod 8 = 0 \<Longrightarrow> unat b mod 8 = 0 \<Longrightarrow> unat (a + b) mod 8 = 0"
  by (auto simp: unat_word_ariths mod_mod_cancel)

lemma aligned8_uminus:
  assumes "unat (a :: u64) mod 8 = 0"
  shows "unat (- a) mod 8 = 0"
proof -
  have "unat (a + - a) = 0" by simp
  then have "(unat a + unat (- a)) mod 18446744073709551616 = 0"
    by (simp only: unat_word_ariths) simp
  then have "(18446744073709551616 :: nat) dvd unat a + unat (- a)" by (rule iffD2 [OF dvd_eq_mod_eq_0])
  moreover have "(8 :: nat) dvd 18446744073709551616"
    using dvd_triv_left [of 8 "2305843009213693952 :: nat"] by (simp only: mult_num_simps numeral_times_numeral)
  ultimately have "8 dvd unat a + unat (- a)" by (rule dvd_trans [rotated])
  moreover have "8 dvd unat a" using assms by (simp add: dvd_eq_mod_eq_0)
  ultimately have "8 dvd unat (- a)" using dvd_add_right_iff by blast
  then show ?thesis by simp
qed

lemma aligned8_and_not_7: "unat ((x :: u64) AND NOT 7) mod 8 = 0"
  using unat_and_not_mask [of x 3] by (simp add: mask_eq_exp_minus_1 minus_mod_eq_div_mult)

lemma round_increment_aligned: "unat (round_increment n) mod 8 = 0"
  using aligned8_and_not_7 aligned8_uminus [OF aligned8_and_not_7]
  by (simp add: round_increment_def SBRK_ALIGNMENT_def)

text \<open>Every break the allocator can be given is aligned and lies inside the memory.\<close>

lemma sbrk64_inv:
  assumes inv: "sbrk_inv s" and resize: "resize_ok resize"
    and run: "sbrk64 resize inc s = (r, s')"
  shows "sbrk_inv s'"
proof -
  define w where "w = (ucast (sbrk_val s) + round_increment inc :: u64)"
  have w: "unat w mod 8 = 0"
    unfolding w_def using inv by (intro aligned8_add round_increment_aligned) (simp add: sbrk_inv_def)
  have "unat (ucast w :: u32) mod 8 = 0"
    using w by (simp add: unat_ucast_u32 mod_mod_cancel)
  then show ?thesis
    using inv run resize unfolding sbrk64_def Let_def w_def [symmetric]
    by (fastforce simp: sbrk_inv_def resize_ok_def split: if_splits option.splits)
qed

lemma sbrk_inv_not_minus_1: "sbrk_inv s \<Longrightarrow> sbrk_val s \<noteq> - 1"
  by (auto simp: sbrk_inv_def unsigned_minus_1_eq_mask mask_eq_exp_minus_1)

text \<open>A successful \<open>sbrk\<close> hands out the old break and moves it by the rounded request.\<close>

lemma sbrk_success:
  assumes "sbrk_inv s" and "sbrk resize n s = (r, s')" and "r \<noteq> - 1"
  shows "r = sbrk_val s" "unat (sbrk_val s') = grown n s" "errno s' = errno s"
  using assms unfolding sbrk_cases Let_def
  by (auto simp: unsigned_of_nat take_bit_eq_mod split: if_splits option.splits)

lemma sbrk_failure:
  assumes "sbrk_inv s" and "sbrk resize n s = (- 1, s')"
  shows "s' = s\<lparr>errno := ENOMEM\<rparr>"
  using assms sbrk_inv_not_minus_1 [OF assms(1)] unfolding sbrk_cases Let_def
  by (auto split: if_splits option.splits)

lemma brk_shrink:
  assumes inv: "sbrk_inv s" and below: "ptr < sbrk_val s"
  shows "brk resize ptr s = (- 1, s\<lparr>errno := ENOMEM\<rparr>)"
proof -
  have le: "sbrk_val s \<le> heap_size s" using inv by (simp add: sbrk_inv_def)
  have "unat (ptr - sbrk_val s) = 2 ^ 32 + unat ptr - unat (sbrk_val s)"
    using below by (simp add: unat_sub_if' word_less_nat_alt)
  then have "2 ^ 32 \<le> grown (ptr - sbrk_val s) s"
    using below unat_lt_2_32 [of "sbrk_val s"] by (simp add: grown_def word_less_nat_alt)
  moreover have "sbrk resize 0 s = (sbrk_val s, s)"
    using sbrk64_0 [OF le] by (simp add: sbrk_def)
  ultimately show ?thesis
    by (simp add: brk_def sbrk_cases [of _ "ptr - sbrk_val s"])
qed

text \<open>
  A move of the break to an aligned address at or above it: \<open>brk\<close> moves it exactly there, growing the
  memory if need be.
\<close>

lemma brk_grow:
  assumes inv: "sbrk_inv s" and above: "sbrk_val s \<le> ptr" and aligned: "unat ptr mod 8 = 0"
    and room: "ptr \<le> heap_size s"
  shows "brk resize ptr s = (0, s\<lparr>sbrk_val := ptr\<rparr>)"
proof -
  have le: "sbrk_val s \<le> heap_size s" and v: "unat (sbrk_val s) mod 8 = 0"
    using inv by (simp_all add: sbrk_inv_def)
  have d: "unat (ptr - sbrk_val s) = unat ptr - unat (sbrk_val s)"
    using above by (simp add: unat_sub)
  have "8 dvd unat ptr - unat (sbrk_val s)"
    using aligned v by (intro dvd_diff_nat) (simp_all add: dvd_eq_mod_eq_0)
  then obtain j where j: "unat ptr - unat (sbrk_val s) = 8 * j" ..
  then have "(unat ptr - unat (sbrk_val s) + 7) div 8 * 8 = 8 * j" by simp
  then have "grown (ptr - sbrk_val s) s = unat ptr"
    using above j by (simp add: grown_def d word_le_nat_alt)
  moreover have "sbrk resize 0 s = (sbrk_val s, s)"
    using sbrk64_0 [OF le] by (simp add: sbrk_def)
  ultimately show ?thesis
    using room unat_lt_2_32 [of ptr] sbrk_inv_not_minus_1 [OF inv]
    by (simp add: brk_def sbrk_cases [of _ "ptr - sbrk_val s"] Let_def linorder_not_less [symmetric])
qed

section \<open>Properties\<close>

definition demo_break :: sbrk_state where
  "demo_break = \<lparr>sbrk_val = 1024, heap_size = 65536, errno = 0\<rparr>"

lemma demo_break_inv: "sbrk_inv demo_break"
  by (simp add: demo_break_def sbrk_inv_def)

lemma resize_none: "resize_ok (\<lambda>n h. None)"
  by (simp add: resize_ok_def)

text \<open>
  Claim C38. \<open>sbrk\<close> on every state whose break is aligned and inside the memory: the request fails
  exactly when the break plus the request rounded up to 8 passes 4 GB or the memory cannot be grown
  to hold it, then only \<open>errno\<close> changes; otherwise the old break is returned, the new one is the old
  one plus the rounded request (the code's 64-bit arithmetic never wraps), and the invariant holds again.
\<close>

theorem sbrk_contract:
  assumes "sbrk_inv s" and "resize_ok resize" and "sbrk resize n s = (r, s')"
  shows "sbrk_inv s' \<and>
    (if r = - 1 then s' = s\<lparr>errno := ENOMEM\<rparr> \<and>
       (2 ^ 32 \<le> grown n s \<or> heap_size s < word_of_nat (grown n s) \<and> resize (word_of_nat (grown n s)) (heap_size s) = None)
     else r = sbrk_val s \<and> unat (sbrk_val s') = grown n s \<and> errno s' = errno s)"
proof (cases "r = - 1")
  case True
  then have "s' = s\<lparr>errno := ENOMEM\<rparr>" using sbrk_failure assms by blast
  moreover have "2 ^ 32 \<le> grown n s \<or>
      heap_size s < word_of_nat (grown n s) \<and> resize (word_of_nat (grown n s)) (heap_size s) = None"
    using assms(3) True sbrk_inv_not_minus_1 [OF assms(1)] unfolding sbrk_cases Let_def
    by (auto split: if_splits option.splits)
  ultimately show ?thesis using True sbrk64_inv assms by (auto simp: sbrk_def)
next
  case False
  then show ?thesis using sbrk_success [of s resize n r s'] sbrk64_inv assms by (auto simp: sbrk_def)
qed

theorem sbrk_contract_witness:
  "sbrk (\<lambda>n h. None) 20 demo_break = (1024, demo_break\<lparr>sbrk_val := 1048\<rparr>) \<and>
   sbrk_inv (demo_break\<lparr>sbrk_val := 1048\<rparr>)"
proof -
  have run: "sbrk (\<lambda>n h. None) 20 demo_break = (1024, demo_break\<lparr>sbrk_val := 1048\<rparr>)"
    by (simp add: demo_break_def sbrk_def sbrk64_def round_increment_def SBRK_ALIGNMENT_def Let_def)
  show ?thesis using sbrk_contract [OF demo_break_inv resize_none run] run by simp
qed

text \<open>
  Since the increment is read as unsigned, a request below the current break is a huge growth:
  \<open>brk\<close> cannot move the break down; to an aligned address from the break up to the memory size it moves
  the break exactly there.
\<close>

theorem brk_only_up:
  assumes "sbrk_inv s"
  shows "(ptr < sbrk_val s \<longrightarrow> brk resize ptr s = (- 1, s\<lparr>errno := ENOMEM\<rparr>)) \<and>
    (sbrk_val s \<le> ptr \<and> ptr \<le> heap_size s \<and> unat ptr mod 8 = 0 \<longrightarrow>
       brk resize ptr s = (0, s\<lparr>sbrk_val := ptr\<rparr>))"
  using brk_shrink [OF assms] brk_grow [OF assms] by simp

theorem brk_only_up_witness:
  "brk (\<lambda>n h. None) 512 demo_break = (- 1, demo_break\<lparr>errno := ENOMEM\<rparr>) \<and>
   brk (\<lambda>n h. None) 2048 demo_break = (0, demo_break\<lparr>sbrk_val := 2048\<rparr>)"
  using brk_only_up [OF demo_break_inv, of 512 "\<lambda>n h. None"]
    brk_only_up [OF demo_break_inv, of 2048 "\<lambda>n h. None"]
  by (simp add: demo_break_def)

end
