(* ===== verification/Emmalloc_Region.thy ===== *)
theory Emmalloc_Region
  imports Sbrk
begin

text \<open>
  Regions, boundary tags, size buckets and free lists of \<open>system/lib/emmalloc.c\<close>, as compiled
  for wasm32 with \<open>NDEBUG\<close>, single-threaded and without \<open>EMMALLOC_VERBOSE\<close>.

  Every access the allocator makes is to an aligned \<open>size_t\<close> or pointer, so the linear memory
  is a map from addresses to 32-bit cells. A region at address \<open>r\<close> has its size at \<open>r\<close>; a free
  region has \<open>prev\<close> at \<open>r + 4\<close> and \<open>next\<close> at \<open>r + 8\<close>; the last cell of a region holds the size
  again, with \<open>FREE_REGION_FLAG\<close> set when the region is free. The 64 list heads
  \<open>freeRegionBuckets[i]\<close> are \<open>Region\<close> structs in the same memory, at the address the linker
  gave the array.
\<close>

record emm = sbrk_state +
  mem :: "u32 \<Rightarrow> u32"
  listOfAllRegions :: u32
  freeRegionBuckets :: u32
  freeRegionBucketsUsed :: u64

abbreviation FREE_REGION_FLAG :: u32 where "FREE_REGION_FLAG \<equiv> 1"
abbreviation MAX_ALLOC_SIZE :: u32 where "MAX_ALLOC_SIZE \<equiv> 0xFFFFFFC7"
abbreviation MALLOC_ALIGNMENT :: u32 where "MALLOC_ALIGNMENT \<equiv> 8"
abbreviation NUM_FREE_BUCKETS :: nat where "NUM_FREE_BUCKETS \<equiv> 64"
abbreviation REGION_HEADER_SIZE :: u32 where "REGION_HEADER_SIZE \<equiv> 8"
abbreviation SMALLEST_ALLOCATION_SIZE :: u32 where "SMALLEST_ALLOCATION_SIZE \<equiv> 8"
abbreviation sizeof_Region :: u32 where "sizeof_Region \<equiv> 16"

type_synonym memory = "u32 \<Rightarrow> u32"

section \<open>Regions\<close>

text \<open>\<open>struct Region\<close>: the cells of its fields.\<close>

definition size_of :: "memory \<Rightarrow> u32 \<Rightarrow> u32" where "size_of m r = m r"
definition prev_of :: "memory \<Rightarrow> u32 \<Rightarrow> u32" where "prev_of m r = m (r + 4)"
definition next_of :: "memory \<Rightarrow> u32 \<Rightarrow> u32" where "next_of m r = m (r + 8)"

definition set_prev :: "u32 \<Rightarrow> u32 \<Rightarrow> memory \<Rightarrow> memory" where "set_prev r v m = m(r + 4 := v)"
definition set_next :: "u32 \<Rightarrow> u32 \<Rightarrow> memory \<Rightarrow> memory" where "set_next r v m = m(r + 8 := v)"

text \<open>\<open>struct RootRegion\<close>: \<open>size\<close>, \<open>next\<close>, \<open>endPtr\<close>.\<close>

definition root_next :: "memory \<Rightarrow> u32 \<Rightarrow> u32" where "root_next m r = m (r + 4)"
definition root_endPtr :: "memory \<Rightarrow> u32 \<Rightarrow> u32" where "root_endPtr m r = m (r + 8)"

definition DECODE_CEILING_SIZE :: "u32 \<Rightarrow> u32" where
  "DECODE_CEILING_SIZE sz = sz AND NOT FREE_REGION_FLAG"

definition prev_region :: "memory \<Rightarrow> u32 \<Rightarrow> u32" where
  "prev_region m region = region - DECODE_CEILING_SIZE (m (region - 4))"

definition next_region :: "memory \<Rightarrow> u32 \<Rightarrow> u32" where
  "next_region m region = region + size_of m region"

definition region_ceiling_size :: "memory \<Rightarrow> u32 \<Rightarrow> u32" where
  "region_ceiling_size m region = m (region + size_of m region - 4)"

definition region_is_free :: "memory \<Rightarrow> u32 \<Rightarrow> bool" where
  "region_is_free m r \<longleftrightarrow> region_ceiling_size m r AND FREE_REGION_FLAG \<noteq> 0"

definition region_is_in_use :: "memory \<Rightarrow> u32 \<Rightarrow> bool" where
  "region_is_in_use m r \<longleftrightarrow> size_of m r = region_ceiling_size m r"

definition size_of_region_from_ceiling :: "memory \<Rightarrow> u32 \<Rightarrow> u32" where
  "size_of_region_from_ceiling m r = DECODE_CEILING_SIZE (region_ceiling_size m r)"

definition debug_region_is_consistent :: "memory \<Rightarrow> u32 \<Rightarrow> bool" where
  "debug_region_is_consistent m r \<longleftrightarrow> size_of m r = size_of_region_from_ceiling m r"

definition region_payload_start_ptr :: "u32 \<Rightarrow> u32" where
  "region_payload_start_ptr region = region + 4"

definition region_payload_end_ptr :: "memory \<Rightarrow> u32 \<Rightarrow> u32" where
  "region_payload_end_ptr m region = region + size_of m region - 4"

text \<open>Both writers store the size at the bottom and at the cell \<open>size/sizeof(size_t) - 1\<close>.\<close>

definition create_used_region :: "u32 \<Rightarrow> u32 \<Rightarrow> memory \<Rightarrow> memory" where
  "create_used_region ptr sz m = (m(ptr := sz))(ptr + (sz div 4 - 1) * 4 := sz)"

definition create_free_region :: "u32 \<Rightarrow> u32 \<Rightarrow> memory \<Rightarrow> memory" where
  "create_free_region ptr sz m =
     (m(ptr := sz))(ptr + (sz div 4 - 1) * 4 := sz OR FREE_REGION_FLAG)"

section \<open>Free lists\<close>

definition prepend_to_free_list :: "u32 \<Rightarrow> u32 \<Rightarrow> memory \<Rightarrow> memory" where
  "prepend_to_free_list region prependTo m =
     (let m1 = set_next region prependTo m;
          m2 = set_prev region (prev_of m1 prependTo) m1;
          m3 = set_prev prependTo region m2
      in set_next (prev_of m3 region) region m3)"

definition unlink_from_free_list :: "u32 \<Rightarrow> memory \<Rightarrow> memory" where
  "unlink_from_free_list region m =
     (let m1 = set_next (prev_of m region) (next_of m region) m
      in set_prev (next_of m1 region) (prev_of m1 region) m1)"

text \<open>
  \<open>compute_free_list_bucket\<close>: the C expression mixes \<open>int\<close> and \<open>size_t\<close> and is computed in
  32-bit unsigned arithmetic; the result is read back as an \<open>int\<close>.
\<close>

definition compute_free_list_bucket :: "u32 \<Rightarrow> u32" where
  "compute_free_list_bucket allocSize =
     (if allocSize < 128 then drop_bit 3 allocSize - 1
      else
        let c = clz allocSize in
        if 19 < c
        then 110 - word_of_nat (c * 4) + (drop_bit (29 - c) allocSize XOR 4)
        else min (71 - word_of_nat (c * 2) + (drop_bit (30 - c) allocSize XOR 2))
                 (word_of_nat (NUM_FREE_BUCKETS - 1)))"

definition bucket_head :: "'a emm_scheme \<Rightarrow> nat \<Rightarrow> u32" where
  "bucket_head s i = freeRegionBuckets s + word_of_nat i * sizeof_Region"

definition link_to_free_list :: "u32 \<Rightarrow> 'a emm_scheme \<Rightarrow> 'a emm_scheme" where
  "link_to_free_list freeRegion s =
     (let bucketIndex = unat (compute_free_list_bucket (size_of (mem s) freeRegion - REGION_HEADER_SIZE));
          freeListHead = bucket_head s bucketIndex;
          m1 = set_prev freeRegion freeListHead (mem s);
          m2 = set_next freeRegion (next_of m1 freeListHead) m1;
          m3 = set_next freeListHead freeRegion m2;
          m4 = set_prev (next_of m3 freeRegion) freeRegion m3
      in s\<lparr>mem := m4,
           freeRegionBucketsUsed := freeRegionBucketsUsed s OR push_bit bucketIndex 1\<rparr>)"

text \<open>\<open>with_mem f s\<close> applies a memory writer to the state.\<close>

definition with_mem :: "(memory \<Rightarrow> memory) \<Rightarrow> 'a emm_scheme \<Rightarrow> 'a emm_scheme" where
  "with_mem f s = s\<lparr>mem := f (mem s)\<rparr>"

end
