(* ===== verification/Emmalloc_Buckets.thy ===== *)
theory Emmalloc_Buckets
  imports Emmalloc_Region "HOL-Library.Log_Nat"
begin

text \<open>
  The size classes of the allocator: \<open>compute_free_list_bucket\<close> against the table the comment
  above it documents, and the order between buckets that the search loop of
  \<open>allocate_memory\<close> relies on.
\<close>

section \<open>The code, read in natural numbers\<close>

lemma xor_4: "unat (q :: u32) \<in> {4..<8} \<Longrightarrow> q XOR 4 = q - 4"
proof -
  assume "unat q \<in> {4..<8}"
  then have "unat q = 4 \<or> unat q = 5 \<or> unat q = 6 \<or> unat q = 7" by auto
  then have "q = 4 \<or> q = 5 \<or> q = 6 \<or> q = 7"
    by (simp add: word_unat_eq_iff)
  then show ?thesis by auto
qed

lemma xor_2: "unat (q :: u32) \<in> {2..<4} \<Longrightarrow> q XOR 2 = q - 2"
proof -
  assume "unat q \<in> {2..<4}"
  then have "unat q = 2 \<or> unat q = 3" by auto
  then have "q = 2 \<or> q = 3"
    by (simp add: word_unat_eq_iff)
  then show ?thesis by auto
qed

lemma bucket_small: "n < 128 \<Longrightarrow> 8 \<le> n \<Longrightarrow> unat (compute_free_list_bucket n) = unat n div 8 - 1"
  by (simp add: compute_free_list_bucket_def unat_sub word_le_nat_alt unat_drop_bit div_le_mono [of 8 _ 8, simplified])

lemma bucket_mid:
  assumes k: "2 ^ k \<le> unat n" "unat n < 2 ^ Suc k" "7 \<le> k" "k < 12"
  shows "unat (compute_free_list_bucket n) = 4 * k - 14 + (unat n div 2 ^ (k - 2) - 4)"
proof -
  have c: "clz n = 31 - k" using clz_eq [of k n] k by simp
  have big: "\<not> n < 128"
    using k(1) power_increasing [OF k(3), of "2::nat"] by (simp add: word_less_nat_alt)
  have shift: "29 - (31 - k) = k - 2" using k by simp
  define q where "q = drop_bit (k - 2) n"
  have q: "unat q = unat n div 2 ^ (k - 2)" by (simp add: q_def unat_drop_bit)
  have r: "unat q \<in> {4..<8}" unfolding q using quotient_range [OF k(1,2), of 2] k by simp
  have gt: "19 < 31 - k" using k(4) by simp
  have eq: "compute_free_list_bucket n = 110 - word_of_nat ((31 - k) * 4) + (q - 4)"
    using big gt c shift xor_4 [OF r] by (simp add: compute_free_list_bucket_def q_def Let_def)
  have a: "unat (110 - word_of_nat ((31 - k) * 4) :: u32) = 4 * k - 14"
    using unat_const_minus [of "(31 - k) * 4" 110] k(3,4) by simp
  have b: "unat (q - 4) = unat q - 4" using r by (simp add: unat_sub word_le_nat_alt)
  have "4 * k - 14 + (unat q - 4) < 2 ^ 32" using r k(4) by auto
  then show ?thesis unfolding eq unat_word_ariths(1) a b q [symmetric] by (simp only: mod_less len32)
qed

lemma bucket_high:
  assumes k: "2 ^ k \<le> unat n" "unat n < 2 ^ Suc k" "12 \<le> k" "k < 32"
  shows "unat (compute_free_list_bucket n) = min (2 * k + 9 + (unat n div 2 ^ (k - 1) - 2)) 63"
proof -
  have c: "clz n = 31 - k" using clz_eq [of k n] k by simp
  have big: "\<not> n < 128"
    using k(1) power_increasing [OF k(3), of "2::nat"] by (simp add: word_less_nat_alt)
  have shift: "30 - (31 - k) = k - 1" using k by simp
  define q where "q = drop_bit (k - 1) n"
  have q: "unat q = unat n div 2 ^ (k - 1)" by (simp add: q_def unat_drop_bit)
  have r: "unat q \<in> {2..<4}" unfolding q using quotient_range [OF k(1,2), of 1] k by simp
  have gt: "\<not> 19 < 31 - k" using k(3) by simp
  have eq: "compute_free_list_bucket n = min (71 - word_of_nat ((31 - k) * 2) + (q - 2)) 63"
    using big gt c shift xor_2 [OF r] by (simp add: compute_free_list_bucket_def q_def Let_def)
  have a: "unat (71 - word_of_nat ((31 - k) * 2) :: u32) = 2 * k + 9"
    using unat_const_minus [of "(31 - k) * 2" 71] k(3,4) by simp
  have b: "unat (q - 2) = unat q - 2" using r by (simp add: unat_sub word_le_nat_alt)
  have "unat (71 - word_of_nat ((31 - k) * 2) + (q - 2)) = 2 * k + 9 + (unat q - 2)"
  proof -
    have "2 * k + 9 + (unat q - 2) < 2 ^ 32" using r k(4) by auto
    then show ?thesis unfolding unat_word_ariths(1) a b by (simp only: mod_less len32)
  qed
  then show ?thesis unfolding eq q [symmetric] unat_min by simp
qed


section \<open>The documented table\<close>

text \<open>The first size of each bucket, as the comment above \<open>compute_free_list_bucket\<close> lists them.\<close>

definition bucket_start :: "nat list" where
  "bucket_start =
     [8, 16, 24, 32, 40, 48, 56, 64, 72, 80, 88, 96, 104, 112, 120, 160,
      192, 224, 256, 320, 384, 448, 512, 640, 768, 896, 1024, 1280, 1536, 1792, 2048, 2560,
      3072, 3584, 6144, 8192, 12288, 16384, 24576, 32768, 49152, 65536, 98304, 131072, 196608,
      262144, 393216, 524288, 786432, 1048576, 1572864, 2097152, 3145728, 4194304, 6291456,
      8388608, 12582912, 16777216, 25165824, 33554432, 50331648, 67108864, 100663296, 134217728]"

definition in_bucket :: "nat \<Rightarrow> nat \<Rightarrow> bool" where
  "in_bucket i n \<longleftrightarrow> i < 64 \<and> bucket_start ! i \<le> n \<and> (i < 63 \<longrightarrow> n < bucket_start ! Suc i)"

lemma in_bucket_small:
  assumes "n < 128" "8 \<le> n"
  shows "in_bucket (n div 8 - 1) n"
proof -
  define i where "i = n div 8 - 1"
  have "i < 15" "8 * i + 8 \<le> n" "n < 8 * i + 16"
    using assms by (auto simp: i_def)
  moreover have "list_all (\<lambda>j. bucket_start ! j = 8 * j + 8 \<and> 8 * j + 16 \<le> bucket_start ! Suc j) [0..<15]"
    by (simp add: bucket_start_def upt_rec)
  then have "bucket_start ! j = 8 * j + 8 \<and> 8 * j + 16 \<le> bucket_start ! Suc j" if "j < 15" for j
    using that by (simp add: list_all_iff)
  ultimately show ?thesis
    unfolding in_bucket_def i_def [symmetric] by fastforce
qed

lemma in_bucket_mid:
  assumes "2 ^ k \<le> n" "n < 2 ^ Suc k" "7 \<le> k" "k < 12"
  shows "in_bucket (4 * k - 14 + (n div 2 ^ (k - 2) - 4)) n"
proof -
  have "k = 7 \<or> k = 8 \<or> k = 9 \<or> k = 10 \<or> k = 11" using assms(3,4) by auto
  moreover define q where "q = n div 2 ^ (k - 2)"
  moreover have "q = 4 \<or> q = 5 \<or> q = 6 \<or> q = 7"
    using quotient_range [OF assms(1,2), of 2] assms(3) by (auto simp: q_def)
  moreover have "q * 2 ^ (k - 2) \<le> n" "n < Suc q * 2 ^ (k - 2)"
    by (simp_all add: q_def dividend_less_div_times)
  ultimately show ?thesis
    unfolding q_def [symmetric] in_bucket_def by (elim disjE) (simp_all add: bucket_start_def)
qed

lemma in_bucket_high:
  assumes "2 ^ k \<le> n" "n < 2 ^ Suc k" "12 \<le> k" "k < 32"
  shows "in_bucket (min (2 * k + 9 + (n div 2 ^ (k - 1) - 2)) 63) n"
proof (cases "k < 27")
  case True
  then have "k = 12 \<or> k = 13 \<or> k = 14 \<or> k = 15 \<or> k = 16 \<or> k = 17 \<or> k = 18 \<or> k = 19 \<or> k = 20
    \<or> k = 21 \<or> k = 22 \<or> k = 23 \<or> k = 24 \<or> k = 25 \<or> k = 26"
    using assms(3) by presburger
  moreover define q where "q = n div 2 ^ (k - 1)"
  moreover have "q = 2 \<or> q = 3"
    using quotient_range [OF assms(1,2), of 1] assms(3) by (auto simp: q_def)
  moreover have "q * 2 ^ (k - 1) \<le> n" "n < Suc q * 2 ^ (k - 1)"
    by (simp_all add: q_def dividend_less_div_times)
  ultimately show ?thesis
    unfolding q_def [symmetric] in_bucket_def by (elim disjE) (simp_all add: bucket_start_def)
next
  case False
  then have "(2::nat) ^ 27 \<le> 2 ^ k" by (intro power_increasing) auto
  with False assms show ?thesis by (simp add: in_bucket_def bucket_start_def min_absorb2)
qed

lemma bucket_matches_documentation':
  assumes "8 \<le> n"
  shows "in_bucket (unat (compute_free_list_bucket n)) (unat n)"
proof (cases "n < 128")
  case True
  with assms show ?thesis
    using in_bucket_small [of "unat n"] bucket_small [of n] by (simp add: word_less_nat_alt word_le_nat_alt)
next
  case False
  define k where "k = floorlog 2 (unat n) - 1"
  have k: "2 ^ k \<le> unat n" "unat n < 2 ^ Suc k"
    using False floorlog_bounds [of "unat n" 2] floorlog_eq_zero_iff [of 2 "unat n"]
    by (auto simp: k_def word_less_nat_alt)
  have "k < 32"
    using k(1) unat_lt_2_32 [of n] power_less_imp_less_exp [of "2::nat" k 32] by simp
  moreover have "7 \<le> k"
    using False k(2) power_less_imp_less_exp [of "2::nat" 7 "Suc k"] by (simp add: word_less_nat_alt)
  ultimately show ?thesis
    using bucket_mid [OF k] bucket_high [OF k] in_bucket_mid [OF k] in_bucket_high [OF k]
    by (cases "k < 12") simp_all
qed

text \<open>
  Claim C39. For every payload size of at least 8 bytes the bucket the bit trick computes is
  exactly the one whose range the source comment documents; in particular the index is below
  \<open>NUM_FREE_BUCKETS\<close>, which the two asserts of the function demand.
\<close>

theorem bucket_matches_documentation:
  assumes "8 \<le> n"
  shows "in_bucket (unat (compute_free_list_bucket n)) (unat n)"
  using assms by (rule bucket_matches_documentation')

theorem bucket_matches_documentation_witness:
  "in_bucket 33 5000 \<and> unat (compute_free_list_bucket 5000) = 33"
  using bucket_matches_documentation [of 5000]
  by (simp add: compute_free_list_bucket_def clz_def bit_simps Let_def upt_rec)

lemma sorted_bucket_start: "sorted bucket_start"
  by (simp add: bucket_start_def)

lemma in_bucket_order:
  assumes "in_bucket i a" "in_bucket j b" "i < j"
  shows "a < b"
proof -
  have "bucket_start ! Suc i \<le> bucket_start ! j"
    using assms by (intro sorted_nth_mono [OF sorted_bucket_start])
      (auto simp: in_bucket_def bucket_start_def)
  with assms show ?thesis by (auto simp: in_bucket_def)
qed

text \<open>
  A region of a strictly higher bucket is strictly larger than the request: once the
  search of \<open>allocate_memory\<close> leaves the bucket of the request, only alignment can make a region
  unsuitable.
\<close>

theorem higher_bucket_larger:
  assumes "8 \<le> n" "8 \<le> m"
    and "compute_free_list_bucket n < compute_free_list_bucket m"
  shows "n < m"
  using in_bucket_order [OF bucket_matches_documentation' [OF assms(1)]
      bucket_matches_documentation' [OF assms(2)]] assms(3)
  by (simp add: word_less_nat_alt)

theorem higher_bucket_larger_witness: "(104 :: u32) < 120"
  using higher_bucket_larger [of 104 120] by (simp add: compute_free_list_bucket_def)

end
