(* ===== verification/Emmalloc_Lists.thy ===== *)
theory Emmalloc_Lists
  imports Emmalloc_Buckets
begin

text \<open>
  The circular doubly linked free lists: an abstraction from the cells of the memory to lists
  of region addresses, and the refinement of \<open>link_to_free_list\<close>, \<open>unlink_from_free_list\<close>
  and \<open>prepend_to_free_list\<close> to list operations.
\<close>

section \<open>Chains of list nodes\<close>

fun chain :: "memory \<Rightarrow> u32 \<Rightarrow> u32 list \<Rightarrow> u32 \<Rightarrow> bool" where
  "chain m u [] w \<longleftrightarrow> next_of m u = w \<and> prev_of m w = u"
| "chain m u (v # vs) w \<longleftrightarrow> next_of m u = v \<and> prev_of m v = u \<and> chain m v vs w"

abbreviation ring :: "memory \<Rightarrow> u32 \<Rightarrow> u32 list \<Rightarrow> bool" where
  "ring m h xs \<equiv> chain m h xs h"

text \<open>Nodes are \<^emph>\<open>spaced\<close> when the \<open>prev\<close> cell of one is never the \<open>next\<close> cell of another;
  regions and list heads are at least 16 bytes, so disjoint ones always are.\<close>

definition spaced :: "u32 set \<Rightarrow> bool" where
  "spaced A \<longleftrightarrow> (\<forall>a\<in>A. a + 4 \<notin> A)"

lemma spaced_mono: "spaced B \<Longrightarrow> A \<subseteq> B \<Longrightarrow> spaced A"
  by (auto simp: spaced_def)

lemma spacedD: "spaced A \<Longrightarrow> a \<in> A \<Longrightarrow> b \<in> A \<Longrightarrow> a + 4 \<noteq> b + 8"
proof
  assume *: "spaced A" "a \<in> A" "b \<in> A" "a + 4 = b + 8"
  then have "a = b + 4" by (simp add: algebra_simps)
  with * show False by (auto simp: spaced_def)
qed

lemma spacedD': "spaced A \<Longrightarrow> a \<in> A \<Longrightarrow> b \<in> A \<Longrightarrow> b + 8 \<noteq> a + 4"
  using spacedD by metis

lemma next_set_next [simp]: "next_of (set_next a v m) b = (if a = b then v else next_of m b)"
  by (simp add: next_of_def set_next_def)

lemma prev_set_prev [simp]: "prev_of (set_prev a v m) b = (if a = b then v else prev_of m b)"
  by (simp add: prev_of_def set_prev_def)

lemma next_set_prev [simp]: "a + 4 \<noteq> b + 8 \<Longrightarrow> next_of (set_prev a v m) b = next_of m b"
  by (simp add: next_of_def set_prev_def)

lemma prev_set_next [simp]: "a + 8 \<noteq> b + 4 \<Longrightarrow> prev_of (set_next a v m) b = prev_of m b"
  by (simp add: prev_of_def set_next_def)

lemma chain_append: "chain m u (xs @ v # ys) w \<longleftrightarrow> chain m u xs v \<and> chain m v ys w"
  by (induction xs arbitrary: u) auto

text \<open>A chain looks at the \<open>next\<close> cells of its first nodes and the \<open>prev\<close> cells of its last.\<close>

lemma chain_cong:
  assumes "\<And>a. a \<in> set (u # xs) \<Longrightarrow> next_of m' a = next_of m a"
    and "\<And>a. a \<in> set (xs @ [w]) \<Longrightarrow> prev_of m' a = prev_of m a"
  shows "chain m' u xs w = chain m u xs w"
  using assms by (induction xs arbitrary: u) auto

lemma chain_ends:
  "chain m u xs w \<Longrightarrow> next_of m (last (u # xs)) = w \<and> prev_of m (hd (xs @ [w])) = u"
  by (induction xs arbitrary: u) auto

text \<open>\<open>join p n m\<close>: the memory in which \<open>n\<close> follows \<open>p\<close>. Cutting a node out joins its neighbours.\<close>

definition join :: "u32 \<Rightarrow> u32 \<Rightarrow> memory \<Rightarrow> memory" where
  "join p n m = set_prev n p (set_next p n m)"

lemma join_next:
  "spaced A \<Longrightarrow> a \<in> A \<Longrightarrow> p \<in> A \<Longrightarrow> n \<in> A \<Longrightarrow> next_of (join p n m) a = (if a = p then n else next_of m a)"
  by (simp add: join_def spacedD)

lemma join_prev:
  "spaced A \<Longrightarrow> a \<in> A \<Longrightarrow> p \<in> A \<Longrightarrow> n \<in> A \<Longrightarrow> prev_of (join p n m) a = (if a = n then p else prev_of m a)"
  by (simp add: join_def spacedD')

lemma join_frame: "x \<noteq> p + 8 \<Longrightarrow> x \<noteq> n + 4 \<Longrightarrow> join p n m x = m x"
  by (simp add: join_def set_next_def set_prev_def)

lemma chain_neighbours:
  assumes "chain m u (xs @ r # ys) w"
  shows "prev_of m r = last (u # xs)" "next_of m r = hd (ys @ [w])"
proof -
  have left: "chain m u xs r" and right: "chain m r ys w"
    using assms by (simp_all add: chain_append)
  show "prev_of m r = last (u # xs)"
    using left by (cases xs rule: rev_cases) (auto simp: chain_append)
  show "next_of m r = hd (ys @ [w])" using right by (cases ys) auto
qed

lemma unlink_eq_join:
  assumes ch: "chain m u (xs @ r # ys) w"
    and sp: "spaced (set (u # xs @ r # ys @ [w]))" and d: "distinct (u # xs @ r # ys)"
  shows "unlink_from_free_list r m = join (last (u # xs)) (hd (ys @ [w])) m"
proof -
  let ?A = "set (u # xs @ r # ys @ [w])"
  define p n where "p = last (u # xs)" and "n = hd (ys @ [w])"
  have "p \<in> set (u # xs)" "n \<in> set (ys @ [w])"
    unfolding p_def n_def by (rule last_in_set, simp) (rule hd_in_set, simp)
  then have inA: "p \<in> ?A" "n \<in> ?A" "r \<in> ?A" by auto
  have "p \<noteq> r" using d \<open>p \<in> set (u # xs)\<close> by auto
  moreover have "prev_of m r = p" "next_of m r = n"
    unfolding p_def n_def by (fact chain_neighbours [OF ch])+
  ultimately show ?thesis
    unfolding p_def [symmetric] n_def [symmetric]
    using spacedD' [OF sp inA(3,1)] spacedD [OF sp inA(2,1)]
    by (simp add: unlink_from_free_list_def Let_def join_def)
qed

lemma chain_unlink:
  assumes ch: "chain m u (xs @ r # ys) w"
    and sp: "spaced (set (u # xs @ r # ys @ [w]))"
    and d: "distinct (u # xs @ r # ys)" "distinct (xs @ r # ys @ [w])"
  shows "chain (unlink_from_free_list r m) u (xs @ ys) w"
proof -
  let ?A = "set (u # xs @ r # ys @ [w])"
  define p n where "p = last (u # xs)" and "n = hd (ys @ [w])"
  have left: "chain m u xs r" and right: "chain m r ys w"
    using ch by (simp_all add: chain_append)
  have inA: "p \<in> ?A" "n \<in> ?A"
    by (auto simp: p_def n_def hd_append intro: last_in_set)
  define m' where "m' = join p n m"
  have m': "unlink_from_free_list r m = m'"
    unfolding m'_def p_def n_def by (rule unlink_eq_join [OF ch sp d(1)])
  have nx: "next_of m' a = next_of m a" if "a \<in> ?A" "a \<noteq> p" for a
    using that inA join_next [OF sp] by (simp add: m'_def)
  have pv: "prev_of m' a = prev_of m a" if "a \<in> ?A" "a \<noteq> n" for a
    using that inA join_prev [OF sp] by (simp add: m'_def)
  have joined: "next_of m' p = n" "prev_of m' n = p"
    using inA join_next [OF sp] join_prev [OF sp] by (simp_all add: m'_def)
  have n: "n \<in> set (ys @ [w])" "n \<notin> set xs"
  proof -
    show "n \<in> set (ys @ [w])" unfolding n_def by (rule hd_in_set) simp
    then show "n \<notin> set xs" using d(2) by auto
  qed
  have p: "p \<in> set (u # xs)" "p \<notin> set ys"
  proof -
    show "p \<in> set (u # xs)" unfolding p_def by (rule last_in_set) simp
    then show "p \<notin> set ys" using d(1) by auto
  qed
  have l: "xs = [] \<and> p = u \<or> (\<exists>xs'. xs = xs' @ [p] \<and> chain m' u xs' p)"
  proof (cases xs rule: rev_cases)
    case (snoc xs' x)
    then have [simp]: "x = p" by (simp add: p_def)
    have "chain m' u xs' p = chain m u xs' p"
    proof (rule chain_cong)
      show "next_of m' a = next_of m a" if "a \<in> set (u # xs')" for a
        using that d(1) snoc by (intro nx) auto
      show "prev_of m' a = prev_of m a" if "a \<in> set (xs' @ [p])" for a
        using that n snoc by (intro pv) auto
    qed
    with left snoc show ?thesis by (simp add: chain_append)
  qed (simp add: p_def)
  have r: "ys = [] \<and> n = w \<or> (\<exists>ys'. ys = n # ys' \<and> chain m' n ys' w)"
  proof (cases ys)
    case (Cons y ys')
    then have [simp]: "y = n" by (simp add: n_def)
    have "chain m' n ys' w = chain m n ys' w"
    proof (rule chain_cong)
      show "next_of m' a = next_of m a" if "a \<in> set (n # ys')" for a
        using that p Cons by (intro nx) auto
      show "prev_of m' a = prev_of m a" if "a \<in> set (ys' @ [w])" for a
        using that d(2) Cons by (intro pv) auto
    qed
    with right Cons show ?thesis by simp
  qed (simp add: n_def)
  show ?thesis unfolding m' using l r joined by (auto simp: chain_append)
qed

section \<open>Inserting a node\<close>

text \<open>\<open>insert_between r p n m\<close>: the memory in which \<open>r\<close> stands between \<open>p\<close> and \<open>n\<close>.\<close>

definition insert_between :: "u32 \<Rightarrow> u32 \<Rightarrow> u32 \<Rightarrow> memory \<Rightarrow> memory" where
  "insert_between r p n m = set_prev n r (set_next p r (set_next r n (set_prev r p m)))"

lemma insert_between_next:
  assumes "spaced A" "a \<in> A" "p \<in> A" "n \<in> A" "r \<in> A"
  shows "next_of (insert_between r p n m) a = (if a = p then r else if a = r then n else next_of m a)"
  using assms by (simp add: insert_between_def spacedD)

lemma insert_between_prev:
  assumes "spaced A" "a \<in> A" "p \<in> A" "n \<in> A" "r \<in> A"
  shows "prev_of (insert_between r p n m) a = (if a = n then r else if a = r then p else prev_of m a)"
  using assms by (simp add: insert_between_def spacedD')

lemma insert_between_frame:
  "x \<notin> {r + 4, r + 8, p + 8, n + 4} \<Longrightarrow> insert_between r p n m x = m x"
  by (simp add: insert_between_def set_next_def set_prev_def)

text \<open>Inserting right after the list head, as \<open>link_to_free_list\<close> does.\<close>

lemma ring_insert_front:
  assumes ch: "ring m h xs" and sp: "spaced (set (r # h # xs))" and d: "distinct (r # h # xs)"
  shows "ring (insert_between r h (next_of m h) m) h (r # xs)"
proof (cases xs)
  case Nil
  with ch sp d show ?thesis
    by (simp add: insert_between_next [OF sp] insert_between_prev [OF sp])
next
  case (Cons n ys)
  let ?m = "insert_between r h n m"
  have "chain ?m n ys h = chain m n ys h"
    using d Cons by (intro chain_cong)
      (auto simp: insert_between_next [OF sp] insert_between_prev [OF sp])
  with ch d Cons show ?thesis
    by (simp add: insert_between_next [OF sp] insert_between_prev [OF sp])
qed

text \<open>Inserting right before the list head, as \<open>prepend_to_free_list\<close> does.\<close>

lemma ring_insert_back:
  assumes ch: "ring m h xs" and sp: "spaced (set (r # h # xs))" and d: "distinct (r # h # xs)"
  shows "ring (insert_between r (prev_of m h) h m) h (xs @ [r])"
proof (cases xs rule: rev_cases)
  case Nil
  with ch sp d show ?thesis
    by (simp add: insert_between_next [OF sp] insert_between_prev [OF sp])
next
  case (snoc ys p)
  let ?m = "insert_between r p h m"
  have "chain ?m h ys p = chain m h ys p"
    using d snoc by (intro chain_cong)
      (auto simp: insert_between_next [OF sp] insert_between_prev [OF sp])
  with ch d snoc show ?thesis
    by (simp add: chain_append insert_between_next [OF sp] insert_between_prev [OF sp])
qed

section \<open>All 64 free lists\<close>

text \<open>
  \<open>free_lists s fl\<close>: bucket \<open>i\<close> of the state \<open>s\<close> is the ring of the regions \<open>fl i\<close>, all rings
  are disjoint, and the bitmask of populated buckets has no bit missing (it may have stale bits).
\<close>

definition nodes :: "'a emm_scheme \<Rightarrow> (nat \<Rightarrow> u32 list) \<Rightarrow> nat \<Rightarrow> u32 list" where
  "nodes s fl i = bucket_head s i # fl i"

definition all_nodes :: "'a emm_scheme \<Rightarrow> (nat \<Rightarrow> u32 list) \<Rightarrow> u32 set" where
  "all_nodes s fl = (\<Union>i<64. set (nodes s fl i))"

definition free_lists :: "'a emm_scheme \<Rightarrow> (nat \<Rightarrow> u32 list) \<Rightarrow> bool" where
  "free_lists s fl \<longleftrightarrow>
     (\<forall>i<64. ring (mem s) (bucket_head s i) (fl i)) \<and>
     (\<forall>i<64. distinct (nodes s fl i)) \<and>
     (\<forall>i<64. \<forall>j<64. i \<noteq> j \<longrightarrow> set (nodes s fl i) \<inter> set (nodes s fl j) = {}) \<and>
     spaced (all_nodes s fl) \<and>
     (\<forall>i<64. fl i \<noteq> [] \<longrightarrow> bit (freeRegionBucketsUsed s) i)"

lemma bucket_head_upd [simp]:
  "bucket_head (s\<lparr>mem := m\<rparr>) i = bucket_head s i"
  "bucket_head (s\<lparr>freeRegionBucketsUsed := u\<rparr>) i = bucket_head s i"
  "bucket_head (with_mem f s) i = bucket_head s i"
  by (simp_all add: bucket_head_def with_mem_def)

lemma nodes_subset: "i < 64 \<Longrightarrow> set (nodes s fl i) \<subseteq> all_nodes s fl"
  by (auto simp: all_nodes_def)

lemma link_to_free_list_eq:
  assumes b: "b = unat (compute_free_list_bucket (size_of (mem s) r - REGION_HEADER_SIZE))"
    and sp: "spaced {r, bucket_head s b}" and ne: "r \<noteq> bucket_head s b"
  shows "link_to_free_list r s =
    s\<lparr>mem := insert_between r (bucket_head s b) (next_of (mem s) (bucket_head s b)) (mem s),
      freeRegionBucketsUsed := freeRegionBucketsUsed s OR push_bit b 1\<rparr>"
  using spacedD [OF sp] spacedD' [OF sp] ne
  by (simp add: link_to_free_list_def Let_def b [symmetric] insert_between_def)

text \<open>What inserting a fresh node into one list means for all of them.\<close>

lemma insert_refines:
  assumes fl: "free_lists s fl" and b: "b < 64"
    and fresh: "r \<notin> all_nodes s fl" and sp: "spaced (insert r (all_nodes s fl))"
    and pn: "p \<in> set (nodes s fl b)" "n \<in> set (nodes s fl b)"
    and ringb: "ring (insert_between r p n (mem s)) (bucket_head s b) ys"
    and ys: "set ys = insert r (set (fl b))" "distinct ys"
    and u: "\<And>i. i < 64 \<Longrightarrow> i = b \<or> bit (freeRegionBucketsUsed s) i \<Longrightarrow> bit u i"
  shows "free_lists (s\<lparr>mem := insert_between r p n (mem s), freeRegionBucketsUsed := u\<rparr>) (fl(b := ys))"
proof -
  define m' where "m' = insert_between r p n (mem s)"
  let ?s = "s\<lparr>mem := m', freeRegionBucketsUsed := u\<rparr>"
  let ?A = "insert r (all_nodes s fl)"
  have sub: "set (nodes s fl i) \<subseteq> ?A" if "i < 64" for i
    using nodes_subset [OF that] by blast
  have A: "p \<in> ?A" "n \<in> ?A" "r \<in> ?A" using pn sub [OF b] by auto
  have "ring m' (bucket_head s i) ((fl(b := ys)) i)" if i: "i < 64" for i
  proof (cases "i = b")
    case True
    then show ?thesis using ringb by (simp add: m'_def)
  next
    case False
    then have dis: "set (nodes s fl i) \<inter> insert r (set (nodes s fl b)) = {}"
      using fl i b fresh nodes_subset [OF i, of s fl] by (auto simp: free_lists_def)
    have "ring m' (bucket_head s i) (fl i) = ring (mem s) (bucket_head s i) (fl i)"
    proof (rule chain_cong)
      show "next_of m' a = next_of (mem s) a" if "a \<in> set (bucket_head s i # fl i)" for a
        using that dis pn sub [OF i] A unfolding m'_def
        by (subst insert_between_next [OF sp]) (auto simp: nodes_def)
      show "prev_of m' a = prev_of (mem s) a" if "a \<in> set (fl i @ [bucket_head s i])" for a
        using that dis pn sub [OF i] A unfolding m'_def
        by (subst insert_between_prev [OF sp]) (auto simp: nodes_def)
    qed
    with False fl i show ?thesis by (simp add: free_lists_def)
  qed
  moreover have "all_nodes ?s (fl(b := ys)) = ?A"
    using b ys by (auto simp: all_nodes_def nodes_def split: if_splits)
  moreover have "bit u i" if "i < 64" "(fl(b := ys)) i \<noteq> []" for i
    using that fl u by (cases "i = b") (auto simp: free_lists_def)
  moreover have "distinct (nodes s (fl(b := ys)) i)" if "i < 64" for i
    using that fl fresh nodes_subset [OF b, of s fl] ys
    by (cases "i = b") (auto simp: free_lists_def nodes_def)
  moreover have "set (nodes s (fl(b := ys)) i) \<inter> set (nodes s (fl(b := ys)) j) = {}"
    if ij: "i < 64" "j < 64" "i \<noteq> j" for i j
  proof -
    have "r \<notin> set (nodes s fl i)" "r \<notin> set (nodes s fl j)"
      using fresh nodes_subset ij by blast+
    moreover have "set (nodes s fl i) \<inter> set (nodes s fl j) = {}"
      using fl ij by (simp add: free_lists_def)
    ultimately show ?thesis using ij ys by (auto simp: nodes_def)
  qed
  ultimately have "free_lists ?s (fl(b := ys))"
    using sp by (simp add: free_lists_def) (simp add: nodes_def)
  then show ?thesis by (simp add: m'_def)
qed

lemma fresh_node:
  assumes fl: "free_lists s fl" and b: "b < 64"
    and fresh: "r \<notin> all_nodes s fl" and sp: "spaced (insert r (all_nodes s fl))"
  shows "ring (mem s) (bucket_head s b) (fl b)"
    and "spaced (set (r # nodes s fl b))" and "distinct (r # nodes s fl b)"
    and "spaced {r, bucket_head s b}" and "r \<noteq> bucket_head s b"
proof -
  have sub: "set (nodes s fl b) \<subseteq> all_nodes s fl" by (rule nodes_subset [OF b])
  then show "ring (mem s) (bucket_head s b) (fl b)" "distinct (r # nodes s fl b)"
    using fl b fresh by (auto simp: free_lists_def)
  show "spaced (set (r # nodes s fl b))" "spaced {r, bucket_head s b}"
    using sub by (auto intro!: spaced_mono [OF sp] simp: nodes_def)
  show "r \<noteq> bucket_head s b" using sub fresh by (auto simp: nodes_def)
qed

lemma ring_neighbours:
  assumes "ring m h xs"
  shows "next_of m h \<in> set (h # xs)" "prev_of m h \<in> set (h # xs)"
proof -
  show "next_of m h \<in> set (h # xs)" using assms by (cases xs) auto
  show "prev_of m h \<in> set (h # xs)"
    using assms by (cases xs rule: rev_cases) (auto simp: chain_append)
qed

text \<open>Linking a fresh region puts it in front of the list of its size class.\<close>

lemma link_refines:
  assumes fl: "free_lists s fl" and b: "b < 64"
    "b = unat (compute_free_list_bucket (size_of (mem s) r - REGION_HEADER_SIZE))"
    and fresh: "r \<notin> all_nodes s fl" and sp: "spaced (insert r (all_nodes s fl))"
  shows "free_lists (link_to_free_list r s) (fl(b := r # fl b))"
proof -
  note f = fresh_node [OF fl b(1) fresh sp]
  show ?thesis unfolding link_to_free_list_eq [OF b(2) f(4,5)]
  proof (rule insert_refines [OF fl b(1) fresh sp])
    show "ring (insert_between r (bucket_head s b) (next_of (mem s) (bucket_head s b)) (mem s))
        (bucket_head s b) (r # fl b)"
      using f(2,3) by (intro ring_insert_front [OF f(1)]) (simp_all add: nodes_def insert_commute)
  qed (use ring_neighbours [OF f(1)] f(3) in \<open>auto simp: nodes_def bit_simps\<close>)
qed

text \<open>Unlinking removes a region from its list, wherever it stands in it.\<close>

lemma unlink_refines:
  assumes fl: "free_lists s fl" and b: "b < 64" and split: "fl b = xs @ r # ys"
  shows "free_lists (with_mem (unlink_from_free_list r) s) (fl(b := xs @ ys))"
proof -
  let ?h = "bucket_head s b" and ?A = "all_nodes s fl"
  define p n where "p = last (?h # xs)" and "n = hd (ys @ [?h])"
  define m' where "m' = unlink_from_free_list r (mem s)"
  have sp: "spaced ?A" using fl by (simp add: free_lists_def)
  have sub: "set (?h # xs @ r # ys @ [?h]) \<subseteq> ?A" 
    using nodes_subset [OF b, of s fl] split by (auto simp: nodes_def)
  have ringb: "chain (mem s) ?h (xs @ r # ys) ?h" using fl b split by (auto simp: free_lists_def)
  have "distinct (?h # fl b)" using fl b by (simp add: free_lists_def nodes_def)
  then have d: "distinct (?h # xs @ r # ys)" "distinct (xs @ r # ys @ [?h])"
    using split by auto
  have spb: "spaced (set (?h # xs @ r # ys @ [?h]))" using spaced_mono [OF sp sub] .
  have m': "m' = join p n (mem s)"
    unfolding m'_def p_def n_def by (rule unlink_eq_join [OF ringb spb d(1)])
  have pn: "p \<in> set (nodes s fl b)" "n \<in> set (nodes s fl b)"
  proof -
    have "p \<in> set (?h # xs)" "n \<in> set (ys @ [?h])"
      unfolding p_def n_def by (rule last_in_set, simp) (rule hd_in_set, simp)
    then show "p \<in> set (nodes s fl b)" "n \<in> set (nodes s fl b)"
      using split by (auto simp: nodes_def)
  qed
  have A: "p \<in> ?A" "n \<in> ?A" using pn nodes_subset [OF b, of s fl] by auto
  have rings: "ring m' (bucket_head s i) ((fl(b := xs @ ys)) i)" if i: "i < 64" for i
  proof (cases "i = b")
    case True
    then show ?thesis using chain_unlink [OF ringb spb d] by (simp add: m'_def)
  next
    case False
    then have dis: "set (nodes s fl i) \<inter> set (nodes s fl b) = {}"
      using fl i b by (simp add: free_lists_def)
    have subi: "set (nodes s fl i) \<subseteq> ?A" using nodes_subset [OF i] .
    have "ring m' (bucket_head s i) (fl i) = ring (mem s) (bucket_head s i) (fl i)"
    proof (rule chain_cong)
      show "next_of m' a = next_of (mem s) a" if "a \<in> set (bucket_head s i # fl i)" for a
        using that dis pn subi A unfolding m' by (subst join_next [OF sp]) (auto simp: nodes_def)
      show "prev_of m' a = prev_of (mem s) a" if "a \<in> set (fl i @ [bucket_head s i])" for a
        using that dis pn subi A unfolding m' by (subst join_prev [OF sp]) (auto simp: nodes_def)
    qed
    with False fl i show ?thesis by (simp add: free_lists_def)
  qed
  have "all_nodes (with_mem (unlink_from_free_list r) s) (fl(b := xs @ ys)) \<subseteq> ?A"
  proof -
    have "set (nodes s (fl(b := xs @ ys)) i) \<subseteq> set (nodes s fl i)" for i
      using split by (auto simp: nodes_def)
    then show ?thesis unfolding all_nodes_def nodes_def by (intro UN_mono) auto
  qed
  then have "spaced (all_nodes (with_mem (unlink_from_free_list r) s) (fl(b := xs @ ys)))"
    by (rule spaced_mono [OF sp])
  moreover have "distinct (nodes s (fl(b := xs @ ys)) i)" if "i < 64" for i
    using that fl d by (cases "i = b") (auto simp: free_lists_def nodes_def)
  moreover have "set (nodes s (fl(b := xs @ ys)) i) \<subseteq> set (nodes s fl i)" for i
    using split by (auto simp: nodes_def)
  then have "set (nodes s (fl(b := xs @ ys)) i) \<inter> set (nodes s (fl(b := xs @ ys)) j) = {}"
    if "i < 64" "j < 64" "i \<noteq> j" for i j
    using that fl unfolding free_lists_def by (meson disjoint_iff subsetD)
  moreover have "bit (freeRegionBucketsUsed s) i" if "i < 64" "(fl(b := xs @ ys)) i \<noteq> []" for i
    using that fl split by (cases "i = b") (auto simp: free_lists_def)
  ultimately show ?thesis
    using rings by (simp add: free_lists_def m'_def [symmetric] with_mem_def) (simp add: nodes_def)
qed

text \<open>
  \<open>prepend_to_free_list\<close> on a list head appends: the penalised region of \<open>allocate_memory\<close> goes
  to the end of its bucket.
\<close>

lemma prepend_eq_insert:
  assumes "spaced {r, h}" "r \<noteq> h"
  shows "prepend_to_free_list r h m = insert_between r (prev_of m h) h m"
proof -
  have ne: "r + 8 \<noteq> h + 4" "r + 4 \<noteq> h + 8" "h + 4 \<noteq> r + 8" "h + 8 \<noteq> r + 4"
    using spacedD [OF assms(1)] spacedD' [OF assms(1)] by auto
  define p where "p = prev_of m h"
  have "prepend_to_free_list r h m
      = set_next p r (set_prev h r (set_prev r p (set_next r h m)))"
    using ne assms(2) by (simp add: prepend_to_free_list_def Let_def p_def)
  also have "\<dots> = insert_between r p h m"
    using ne assms(2)
    by (auto simp: insert_between_def set_next_def set_prev_def fun_eq_iff)
  finally show ?thesis by (simp add: p_def)
qed

lemma prepend_refines:
  assumes fl: "free_lists s fl" and b: "b < 64" "bit (freeRegionBucketsUsed s) b"
    and fresh: "r \<notin> all_nodes s fl" and sp: "spaced (insert r (all_nodes s fl))"
  shows "free_lists (with_mem (prepend_to_free_list r (bucket_head s b)) s) (fl(b := fl b @ [r]))"
proof -
  note f = fresh_node [OF fl b(1) fresh sp]
  have "with_mem (prepend_to_free_list r (bucket_head s b)) s =
      s\<lparr>mem := insert_between r (prev_of (mem s) (bucket_head s b)) (bucket_head s b) (mem s),
        freeRegionBucketsUsed := freeRegionBucketsUsed s\<rparr>"
    by (simp add: with_mem_def prepend_eq_insert [OF f(4,5)])
  moreover have "free_lists \<dots> (fl(b := fl b @ [r]))"
  proof (rule insert_refines [OF fl b(1) fresh sp])
    show "ring (insert_between r (prev_of (mem s) (bucket_head s b)) (bucket_head s b) (mem s))
        (bucket_head s b) (fl b @ [r])"
      using f(2,3) by (intro ring_insert_back [OF f(1)]) (simp_all add: nodes_def insert_commute)
  qed (use ring_neighbours [OF f(1)] f(3) b in \<open>auto simp: nodes_def\<close>)
  ultimately show ?thesis by simp
qed

text \<open>Writes outside the link cells leave the lists alone.\<close>

lemma free_lists_frame:
  assumes fl: "free_lists s fl"
    and m': "\<And>a. a \<in> all_nodes s fl \<Longrightarrow> m' (a + 4) = mem s (a + 4) \<and> m' (a + 8) = mem s (a + 8)"
  shows "free_lists (s\<lparr>mem := m'\<rparr>) fl"
proof -
  have "ring m' (bucket_head s i) (fl i) = ring (mem s) (bucket_head s i) (fl i)" if "i < 64" for i
    using m' nodes_subset [OF that, of s fl]
    by (intro chain_cong) (auto simp: nodes_def next_of_def prev_of_def)
  moreover have "all_nodes (s\<lparr>mem := m'\<rparr>) fl = all_nodes s fl"
    by (simp add: all_nodes_def nodes_def)
  ultimately show ?thesis using fl by (simp add: free_lists_def) (simp add: nodes_def)
qed

end
