(* ===== verification/Emmalloc.thy ===== *)
theory Emmalloc
  imports Emmalloc_Lists
begin

text \<open>
  The operations of \<open>system/lib/emmalloc.c\<close> on the state \<^typ>\<open>emm\<close>: claiming memory with
  \<open>sbrk\<close>, allocating, freeing and resizing. An operation whose loop may not end returns
  an option: \<^const>\<open>None\<close> means that the call does not return (it loops or traps). The spin lock
  of shared-memory builds (\<open>MALLOC_ACQUIRE\<close>) makes each entry point one atomic step.
\<close>

section \<open>Claiming memory\<close>

definition set_endPtr :: "u32 \<Rightarrow> u32 \<Rightarrow> memory \<Rightarrow> memory" where
  "set_endPtr rootRegion v m = m(rootRegion + 8 := v)"

definition claim_more_memory :: "resizer \<Rightarrow> u32 \<Rightarrow> 'a emm_scheme \<Rightarrow> bool \<times> 'a emm_scheme" where
  "claim_more_memory resize requested s0 =
     (let numBytes = align_up requested MALLOC_ALIGNMENT;
          (startPtr, s1) = sbrk64 resize (ucast numBytes) s0
      in if startPtr = - 1 then (False, s1)
         else
           let endPtr = startPtr + numBytes;
               endSentinelRegion = endPtr - sizeof_Region;
               s2 = with_mem (create_used_region endSentinelRegion sizeof_Region) s1;
               create_rest = (\<lambda>start s. (True, link_to_free_list start
                 (with_mem (create_free_region start (endSentinelRegion - start)) s)));
               rootRegion = listOfAllRegions s2;
               previousSbrkEndAddress = (if rootRegion \<noteq> 0 then root_endPtr (mem s2) rootRegion else 0)
           in if startPtr = previousSbrkEndAddress
              then
                let prevEndSentinel = prev_region (mem s2) startPtr;
                    prevRegion = prev_region (mem s2) prevEndSentinel;
                    s3 = with_mem (set_endPtr rootRegion endPtr) s2
                in if region_is_free (mem s3) prevRegion
                   then
                     let newFreeRegionSize = endSentinelRegion - prevRegion;
                         s4 = with_mem (unlink_from_free_list prevRegion) s3;
                         s5 = with_mem (create_free_region prevRegion newFreeRegionSize) s4
                     in (True, link_to_free_list prevRegion s5)
                   else create_rest (startPtr - sizeof_Region) s3
              else
                let s3 = with_mem (create_used_region startPtr sizeof_Region) s2;
                    s4 = with_mem (\<lambda>m. (m(startPtr + 4 := listOfAllRegions s3))(startPtr + 8 := endPtr)) s3;
                    s5 = s4\<lparr>listOfAllRegions := startPtr\<rparr>
                in create_rest (startPtr + sizeof_Region) s5)"

definition init_buckets :: "'a emm_scheme \<Rightarrow> 'a emm_scheme" where
  "init_buckets s =
     fold (\<lambda>i s. with_mem (set_prev (bucket_head s i) (bucket_head s i)
                   \<circ> set_next (bucket_head s i) (bucket_head s i)) s) [0..<NUM_FREE_BUCKETS] s"

definition initialize_emmalloc_heap :: "resizer \<Rightarrow> 'a emm_scheme \<Rightarrow> 'a emm_scheme" where
  "initialize_emmalloc_heap resize s = snd (claim_more_memory resize (3 * sizeof_Region) (init_buckets s))"

definition emmalloc_blank_slate_from_orbit :: "resizer \<Rightarrow> 'a emm_scheme \<Rightarrow> 'a emm_scheme" where
  "emmalloc_blank_slate_from_orbit resize s =
     initialize_emmalloc_heap resize (s\<lparr>listOfAllRegions := 0, freeRegionBucketsUsed := 0\<rparr>)"

section \<open>Allocating from one region\<close>

definition attempt_allocate :: "u32 \<Rightarrow> u32 \<Rightarrow> u32 \<Rightarrow> 'a emm_scheme \<Rightarrow> u32 \<times> 'a emm_scheme" where
  "attempt_allocate freeRegion alignment sz s =
     (let payloadStartPtr = region_payload_start_ptr freeRegion;
          payloadStartPtrAligned = align_up payloadStartPtr alignment;
          payloadEndPtr = region_payload_end_ptr (mem s) freeRegion
      in if payloadEndPtr < payloadStartPtrAligned + sz then (0, s)
         else
           let s1 = with_mem (unlink_from_free_list freeRegion) s;
               (region, s2) =
                 (if payloadStartPtr \<noteq> payloadStartPtrAligned
                  then
                    let prevRegion = prev_region (mem s1) freeRegion;
                        regionBoundaryBumpAmount = payloadStartPtrAligned - payloadStartPtr;
                        newThisRegionSize = size_of (mem s1) freeRegion - regionBoundaryBumpAmount;
                        s' = with_mem (create_used_region prevRegion
                               (size_of (mem s1) prevRegion + regionBoundaryBumpAmount)) s1;
                        region = freeRegion + regionBoundaryBumpAmount
                    in (region, with_mem (\<lambda>m. m(region := newThisRegionSize)) s')
                  else (freeRegion, s1));
               regionSize = size_of (mem s2) region;
               s3 =
                 (if sizeof_Region + REGION_HEADER_SIZE + sz \<le> regionSize
                  then
                    let newFreeRegion = region + REGION_HEADER_SIZE + sz;
                        s' = with_mem (create_free_region newFreeRegion (regionSize - sz - REGION_HEADER_SIZE)) s2;
                        s'' = link_to_free_list newFreeRegion s'
                    in with_mem (create_used_region region (sz + REGION_HEADER_SIZE)) s''
                  else with_mem (\<lambda>m. m(region + regionSize - 4 := regionSize)) s2)
           in (region + 4, s3))"

definition validate_alloc_alignment :: "u32 \<Rightarrow> u32" where
  "validate_alloc_alignment alignment = max alignment MALLOC_ALIGNMENT"

definition validate_alloc_size :: "u32 \<Rightarrow> u32" where
  "validate_alloc_size sz =
     (if SMALLEST_ALLOCATION_SIZE < sz then align_up sz 4 else SMALLEST_ALLOCATION_SIZE)"

section \<open>The search\<close>

text \<open>The loop over the populated buckets: every turn shifts the mask or clears its lowest bit.\<close>

lemma drop_ctz_le: "drop_bit (ctz m) m \<le> (m :: u64)"
  by (simp add: word_le_nat_alt unat_drop_bit)

lemma odd_drop_ctz: "m \<noteq> 0 \<Longrightarrow> odd (unat (drop_bit (ctz m) (m :: u64)))"
  using bit_ctz [of m] by (simp add: bit_iff_odd_unat unat_drop_bit)

lemma half_decreases:
  "(m :: u64) \<noteq> 0 \<Longrightarrow> unat (drop_bit (Suc 0) (drop_bit (ctz m) m)) < unat m"
proof -
  assume "m \<noteq> 0"
  then have "0 < unat m" by (simp add: unat_gt_0)
  moreover have "unat (drop_bit (Suc 0) (drop_bit (ctz m) m)) = unat m div 2 ^ ctz m div 2"
    by (simp add: unat_drop_bit del: drop_bit_drop_bit)
  moreover have "unat m div 2 ^ ctz m div 2 \<le> unat m div 2"
    by (intro div_le_mono) simp
  ultimately show ?thesis by simp
qed

lemma xor_1_odd: "odd (unat w) \<Longrightarrow> unat ((w :: u64) XOR 1) = unat w - 1"
proof -
  assume odd: "odd (unat w)"
  then have b: "bit w 0" by (simp add: bit_iff_odd_unat)
  have "w XOR 1 = w AND NOT (mask 1)"
    using b by (intro bit_word_eqI) (auto simp: bit_simps)
  moreover have "unat (w AND NOT (mask 1)) = unat w - 1"
    using odd unfolding unat_and_not_mask by (simp add: odd_iff_mod_2_eq_one)
  ultimately show ?thesis by simp
qed

lemma clear_decreases: "(m :: u64) \<noteq> 0 \<Longrightarrow> unat (drop_bit (ctz m) m XOR 1) < unat m"
proof -
  assume m: "m \<noteq> 0"
  have "unat (drop_bit (ctz m) m) \<le> unat m"
    using drop_ctz_le [of m] by (simp add: word_le_nat_alt)
  moreover have "0 < unat m" using m by (simp add: unat_gt_0)
  ultimately show ?thesis using xor_1_odd [OF odd_drop_ctz [OF m]] by simp
qed

function search_buckets ::
  "u32 \<Rightarrow> u32 \<Rightarrow> nat \<Rightarrow> u64 \<Rightarrow> 'a emm_scheme \<Rightarrow> u32 \<times> 'a emm_scheme" where
  "search_buckets alignment sz bucketIndex0 bucketMask0 s =
     (if bucketMask0 = 0 then (0, s)
      else
        let indexAdd = ctz bucketMask0;
            bucketIndex = bucketIndex0 + indexAdd;
            bucketMask = drop_bit indexAdd bucketMask0;
            head = bucket_head s bucketIndex;
            freeRegion = next_of (mem s) head
        in if freeRegion \<noteq> head
           then
             let (ptr, s1) = attempt_allocate freeRegion alignment sz s
             in if ptr \<noteq> 0 then (ptr, s1)
                else
                  let s2 = with_mem (unlink_from_free_list freeRegion) s1;
                      s3 = with_mem (prepend_to_free_list freeRegion head) s2
                  in search_buckets alignment sz (bucketIndex + 1) (drop_bit 1 bucketMask) s3
           else
             search_buckets alignment sz bucketIndex (bucketMask XOR 1)
               (s\<lparr>freeRegionBucketsUsed := freeRegionBucketsUsed s AND NOT (push_bit bucketIndex 1)\<rparr>))"
  by pat_completeness auto
termination
  by (relation "measure (\<lambda>(alignment, sz, bucketIndex, bucketMask, s). unat bucketMask)")
     (simp_all add: half_decreases clear_decreases del: drop_bit_drop_bit drop_bit_Suc)

declare search_buckets.simps [simp del]

text \<open>The walk over the largest bucket, bounded by \<open>maxRegionsToTryBeforeGivingUp\<close>.\<close>

fun try_regions ::
  "nat \<Rightarrow> u32 \<Rightarrow> u32 \<Rightarrow> u32 \<Rightarrow> u32 \<Rightarrow> 'a emm_scheme \<Rightarrow> u32 \<times> u32 \<times> 'a emm_scheme" where
  "try_regions 0 head freeRegion alignment sz s = (0, freeRegion, s)"
| "try_regions (Suc numTriesLeft) head freeRegion alignment sz s =
     (if freeRegion = head then (0, freeRegion, s)
      else let (ptr, s1) = attempt_allocate freeRegion alignment sz s
           in if ptr \<noteq> 0 then (ptr, freeRegion, s1)
              else try_regions numTriesLeft head (next_of (mem s1) freeRegion) alignment sz s1)"

partial_function (option) try_all_regions ::
  "u32 \<Rightarrow> u32 \<Rightarrow> u32 \<Rightarrow> u32 \<Rightarrow> 'a emm_scheme \<Rightarrow> (u32 \<times> 'a emm_scheme) option" where
  "try_all_regions head freeRegion alignment sz s =
     (if freeRegion = head then Some (0, s)
      else let (ptr, s1) = attempt_allocate freeRegion alignment sz s
           in if ptr \<noteq> 0 then Some (ptr, s1)
              else try_all_regions head (next_of (mem s1) freeRegion) alignment sz s1)"


text \<open>
  \<open>allocate_memory\<close> calls itself again after every successful claim, so it is a partial function:
  \<^const>\<open>None\<close> when it never stops. The bound 99 is \<open>maxRegionsToTryBeforeGivingUp\<close>.
\<close>

partial_function (option) allocate_memory ::
  "resizer \<Rightarrow> u32 \<Rightarrow> u32 \<Rightarrow> 'a emm_scheme \<Rightarrow> (u32 \<times> 'a emm_scheme) option" where
  "allocate_memory resize alignment0 sz0 s =
     (if \<not> is_power_of_2 alignment0 then Some (0, s)
      else if MAX_ALLOC_SIZE < sz0 then Some (0, s)
      else
        let alignment = validate_alloc_alignment alignment0;
            sz = validate_alloc_size sz0;
            bucketIndex = unat (compute_free_list_bucket sz);
            (ptr, s1) = search_buckets alignment sz bucketIndex
                          (drop_bit bucketIndex (freeRegionBucketsUsed s)) s
        in if ptr \<noteq> 0 then Some (ptr, s1)
           else
             let used = freeRegionBucketsUsed s1;
                 largest = bucket_head s1 (NUM_FREE_BUCKETS - 1 - clz used);
                 freeRegion = (if used \<noteq> 0 then next_of (mem s1) largest else 0);
                 (ptr2, freeRegion2, s2) =
                   (if drop_bit 30 used \<noteq> 0 then try_regions 99 largest freeRegion alignment sz s1
                    else (0, freeRegion, s1))
             in if ptr2 \<noteq> 0 then Some (ptr2, s2)
                else
                  let numBytesToClaim = sz + sizeof_Region * 3 +
                        (if MALLOC_ALIGNMENT < alignment then alignment else 0);
                      (success, s3) = claim_more_memory resize numBytesToClaim s2
                  in if success then allocate_memory resize alignment sz s3
                     else if freeRegion2 \<noteq> 0
                     then try_all_regions largest freeRegion2 alignment sz s3
                     else Some (0, s3))"

section \<open>The entry points\<close>

definition emmalloc_memalign ::
  "resizer \<Rightarrow> u32 \<Rightarrow> u32 \<Rightarrow> 'a emm_scheme \<Rightarrow> (u32 \<times> 'a emm_scheme) option" where
  "emmalloc_memalign resize alignment sz s = allocate_memory resize alignment sz s"

text \<open>The remainder by an alignment of 0 traps in wasm.\<close>

definition aligned_alloc ::
  "resizer \<Rightarrow> u32 \<Rightarrow> u32 \<Rightarrow> 'a emm_scheme \<Rightarrow> (u32 \<times> 'a emm_scheme) option" where
  "aligned_alloc resize alignment sz s =
     (if alignment mod 4 \<noteq> 0 then Some (0, s)
      else if alignment = 0 then None
      else if sz mod alignment \<noteq> 0 then Some (0, s)
      else emmalloc_memalign resize alignment sz s)"

definition emmalloc_malloc :: "resizer \<Rightarrow> u32 \<Rightarrow> 'a emm_scheme \<Rightarrow> (u32 \<times> 'a emm_scheme) option" where
  "emmalloc_malloc resize sz s = emmalloc_memalign resize MALLOC_ALIGNMENT sz s"

definition emmalloc_usable_size :: "u32 \<Rightarrow> 'a emm_scheme \<Rightarrow> u32" where
  "emmalloc_usable_size ptr s =
     (if ptr = 0 then 0 else size_of (mem s) (ptr - 4) - REGION_HEADER_SIZE)"

definition emmalloc_free :: "u32 \<Rightarrow> 'a emm_scheme \<Rightarrow> 'a emm_scheme" where
  "emmalloc_free ptr s =
     (if ptr = 0 then s
      else
        let region = ptr - 4;
            sz0 = size_of (mem s) region;
            prevRegionSizeField = mem s (region - 4);
            prevRegionSize = prevRegionSizeField AND NOT FREE_REGION_FLAG;
            prevRegion = region - prevRegionSize;
            (regionStartPtr, sz1, s1) =
              (if prevRegionSizeField \<noteq> prevRegionSize
               then (prevRegion, sz0 + prevRegionSize, with_mem (unlink_from_free_list prevRegion) s)
               else (region, sz0, s));
            nextRegion = next_region (mem s1) region;
            sizeAtEnd = mem s1 (region_payload_end_ptr (mem s1) nextRegion);
            (sz2, s2) =
              (if size_of (mem s1) nextRegion \<noteq> sizeAtEnd
               then let s' = with_mem (unlink_from_free_list nextRegion) s1
                    in (sz1 + size_of (mem s') nextRegion, s')
               else (sz1, s1))
        in link_to_free_list regionStartPtr (with_mem (create_free_region regionStartPtr sz2) s2))"

section \<open>Resizing\<close>

definition attempt_region_resize :: "u32 \<Rightarrow> u32 \<Rightarrow> 'a emm_scheme \<Rightarrow> bool \<times> 'a emm_scheme" where
  "attempt_region_resize region sz s =
     (let nextRegion = next_region (mem s) region;
          nextRegionEndPtr = nextRegion + size_of (mem s) nextRegion;
          sizeAtCeiling = mem s (nextRegionEndPtr - 4)
      in if size_of (mem s) nextRegion \<noteq> sizeAtCeiling
         then
           let newNextRegionStartPtr = region + sz
           in if newNextRegionStartPtr + sizeof_Region \<le> nextRegionEndPtr
              then
                let s1 = with_mem (unlink_from_free_list nextRegion) s;
                    s2 = with_mem (create_free_region newNextRegionStartPtr
                           (nextRegionEndPtr - newNextRegionStartPtr)) s1;
                    s3 = link_to_free_list newNextRegionStartPtr s2
                in (True, with_mem (create_used_region region (newNextRegionStartPtr - region)) s3)
              else if newNextRegionStartPtr \<le> nextRegionEndPtr
              then
                let s1 = with_mem (unlink_from_free_list nextRegion) s
                in (True, with_mem (create_used_region region
                       (size_of (mem s1) region + size_of (mem s1) nextRegion)) s1)
              else (False, s)
         else if sz + sizeof_Region \<le> size_of (mem s) region
         then
           let freeRegionSize = size_of (mem s) region - sz;
               s1 = with_mem (create_used_region region sz) s;
               freeRegion = region + sz;
               s2 = with_mem (create_free_region freeRegion freeRegionSize) s1
           in (True, link_to_free_list freeRegion s2)
         else (sz \<le> size_of (mem s) region, s))"

definition acquire_and_attempt_region_resize :: "u32 \<Rightarrow> u32 \<Rightarrow> 'a emm_scheme \<Rightarrow> bool \<times> 'a emm_scheme" where
  "acquire_and_attempt_region_resize region sz s = attempt_region_resize region sz s"

text \<open>
  \<open>memcpy\<close> and \<open>memset(.., 0, ..)\<close> on a memory of 4-byte cells, for 4-aligned pointers: the last
  cell is written in part when the length is not a multiple of 4 (little endian).
\<close>

definition blend :: "nat \<Rightarrow> u32 \<Rightarrow> u32 \<Rightarrow> u32" where
  "blend bytes new old = (new AND mask (8 * bytes)) OR (old AND NOT (mask (8 * bytes)))"

definition copy_bytes :: "u32 \<Rightarrow> u32 \<Rightarrow> u32 \<Rightarrow> memory \<Rightarrow> memory" where
  "copy_bytes dst src n m =
     (\<lambda>a. let off = unat (a - dst) in
        if off + 4 \<le> unat n then m (src + (a - dst))
        else if off < unat n then blend (unat n - off) (m (src + (a - dst))) (m a) else m a)"

definition zero_bytes :: "u32 \<Rightarrow> u32 \<Rightarrow> memory \<Rightarrow> memory" where
  "zero_bytes dst n m =
     (\<lambda>a. let off = unat (a - dst) in
        if off + 4 \<le> unat n then 0
        else if off < unat n then blend (unat n - off) 0 (m a) else m a)"

definition emmalloc_aligned_realloc ::
  "resizer \<Rightarrow> u32 \<Rightarrow> u32 \<Rightarrow> u32 \<Rightarrow> 'a emm_scheme \<Rightarrow> (u32 \<times> 'a emm_scheme) option" where
  "emmalloc_aligned_realloc resize ptr alignment sz0 s =
     (if ptr = 0 then emmalloc_memalign resize alignment sz0 s
      else if sz0 = 0 then Some (0, emmalloc_free ptr s)
      else if MAX_ALLOC_SIZE < sz0 then Some (0, s)
      else
        let sz = validate_alloc_size sz0;
            region = ptr - 4;
            (success, s1) = acquire_and_attempt_region_resize region (sz + REGION_HEADER_SIZE) s
        in if success then Some (ptr, s1)
           else
             case emmalloc_memalign resize alignment sz s1 of
               None \<Rightarrow> None
             | Some (newptr, s2) \<Rightarrow>
                 if newptr \<noteq> 0
                 then Some (newptr, emmalloc_free ptr
                        (with_mem (copy_bytes newptr ptr
                           (min sz (size_of (mem s2) region - REGION_HEADER_SIZE))) s2))
                 else Some (newptr, s2))"

definition emmalloc_realloc_try :: "u32 \<Rightarrow> u32 \<Rightarrow> 'a emm_scheme \<Rightarrow> u32 \<times> 'a emm_scheme" where
  "emmalloc_realloc_try ptr sz0 s =
     (if ptr = 0 then (0, s)
      else if sz0 = 0 then (0, emmalloc_free ptr s)
      else if MAX_ALLOC_SIZE < sz0 then (0, s)
      else
        let sz = validate_alloc_size sz0;
            region = ptr - 4;
            (success, s1) = acquire_and_attempt_region_resize region (sz + REGION_HEADER_SIZE) s
        in (if success then ptr else 0, s1))"

definition emmalloc_aligned_realloc_uninitialized ::
  "resizer \<Rightarrow> u32 \<Rightarrow> u32 \<Rightarrow> u32 \<Rightarrow> 'a emm_scheme \<Rightarrow> (u32 \<times> 'a emm_scheme) option" where
  "emmalloc_aligned_realloc_uninitialized resize ptr alignment sz0 s =
     (if ptr = 0 then emmalloc_memalign resize alignment sz0 s
      else if sz0 = 0 then Some (0, emmalloc_free ptr s)
      else if MAX_ALLOC_SIZE < sz0 then Some (0, s)
      else
        let sz = validate_alloc_size sz0;
            region = ptr - 4;
            (success, s1) = acquire_and_attempt_region_resize region (sz + REGION_HEADER_SIZE) s
        in if success then Some (ptr, s1)
           else emmalloc_memalign resize alignment sz (emmalloc_free ptr s1))"

definition emmalloc_realloc ::
  "resizer \<Rightarrow> u32 \<Rightarrow> u32 \<Rightarrow> 'a emm_scheme \<Rightarrow> (u32 \<times> 'a emm_scheme) option" where
  "emmalloc_realloc resize ptr sz s = emmalloc_aligned_realloc resize ptr MALLOC_ALIGNMENT sz s"

definition emmalloc_realloc_uninitialized ::
  "resizer \<Rightarrow> u32 \<Rightarrow> u32 \<Rightarrow> 'a emm_scheme \<Rightarrow> (u32 \<times> 'a emm_scheme) option" where
  "emmalloc_realloc_uninitialized resize ptr sz s =
     emmalloc_aligned_realloc_uninitialized resize ptr MALLOC_ALIGNMENT sz s"

text \<open>The error code, and the value stored in \<open>*memptr\<close> when it is stored.\<close>

definition emmalloc_posix_memalign ::
  "resizer \<Rightarrow> u32 \<Rightarrow> u32 \<Rightarrow> 'a emm_scheme \<Rightarrow> (int \<times> u32 option \<times> 'a emm_scheme) option" where
  "emmalloc_posix_memalign resize alignment sz s =
     (if alignment mod 4 \<noteq> 0 then Some (EINVAL, None, s)
      else case emmalloc_memalign resize alignment sz s of
             None \<Rightarrow> None
           | Some (p, s1) \<Rightarrow> Some (if p \<noteq> 0 then 0 else ENOMEM, Some p, s1))"

text \<open>\<open>memset\<close> traps when it leaves the wasm memory.\<close>

definition emmalloc_calloc ::
  "resizer \<Rightarrow> u32 \<Rightarrow> u32 \<Rightarrow> 'a emm_scheme \<Rightarrow> (u32 \<times> 'a emm_scheme) option" where
  "emmalloc_calloc resize num sz s =
     (let bytes = num * sz in
      case emmalloc_memalign resize MALLOC_ALIGNMENT bytes s of
        None \<Rightarrow> None
      | Some (ptr, s1) \<Rightarrow>
          if ptr = 0 then Some (ptr, s1)
          else if unat (heap_size s1) < unat ptr + unat bytes then None
          else Some (ptr, with_mem (zero_bytes ptr bytes) s1))"

end
