(* ===== verification/Emmalloc_Heap.thy ===== *)
theory Emmalloc_Heap
  imports Emmalloc
begin

text \<open>
  The abstract view of the emmalloc heap: a partial map from the address of a region to its size
  and whether it is free. \<open>heap_inv\<close> ties the map and the free lists to the memory; the
  operations of \<open>Emmalloc\<close> are compositions of four steps on it: unlinking a region, writing a
  cell outside all regions, (re)creating a region in a gap, and linking a region.
\<close>

section \<open>The invariant\<close>

type_synonym regions = "u32 \<Rightarrow> (u32 \<times> bool) option"

definition extent :: "u32 \<Rightarrow> u32 \<Rightarrow> nat set" where
  "extent r n = {unat r..<unat r + unat n}"

definition heads :: "'a emm_scheme \<Rightarrow> nat set" where
  "heads s = {unat (freeRegionBuckets s)..<unat (freeRegionBuckets s) + 1024}"

definition region_ok :: "u32 \<Rightarrow> u32 \<Rightarrow> bool" where
  "region_ok r n \<longleftrightarrow> 16 \<le> unat n \<and> 4 dvd unat n \<and> 4 dvd unat r \<and> unat r + unat n < 2 ^ 32"

definition tagged :: "memory \<Rightarrow> u32 \<Rightarrow> u32 \<Rightarrow> bool \<Rightarrow> bool" where
  "tagged m r n free \<longleftrightarrow> m r = n \<and> m (r + n - 4) = (if free then n OR FREE_REGION_FLAG else n)"

definition linked :: "(nat \<Rightarrow> u32 list) \<Rightarrow> u32 set" where
  "linked fl = (\<Union>i<64. set (fl i))"

definition heap_inv :: "'a emm_scheme \<Rightarrow> regions \<Rightarrow> (nat \<Rightarrow> u32 list) \<Rightarrow> bool" where
  "heap_inv s R fl \<longleftrightarrow>
     free_lists s fl \<and>
     (\<forall>i<64. \<forall>r\<in>set (fl i). \<exists>n. R r = Some (n, True) \<and> i = unat (compute_free_list_bucket (n - 8))) \<and>
     (\<forall>r n f. R r = Some (n, f) \<longrightarrow>
        region_ok r n \<and> tagged (mem s) r n f \<and> extent r n \<inter> heads s = {}) \<and>
     (\<forall>r n f q k g. R r = Some (n, f) \<longrightarrow> R q = Some (k, g) \<longrightarrow> r \<noteq> q \<longrightarrow> extent r n \<inter> extent q k = {}) \<and>
     4 dvd unat (freeRegionBuckets s) \<and> unat (freeRegionBuckets s) + 1024 < 2 ^ 32"

text \<open>Between operations, the free lists hold all free regions.\<close>

definition heap_ok :: "'a emm_scheme \<Rightarrow> regions \<Rightarrow> bool" where
  "heap_ok s R \<longleftrightarrow> (\<exists>fl. heap_inv s R fl \<and> linked fl = {r. \<exists>n. R r = Some (n, True)})"

section \<open>Arithmetic on region addresses\<close>

lemma dvd_4_4294967296: "(4 :: nat) dvd 4294967296"
  using dvd_triv_left [of 4 "1073741824 :: nat"] by (simp only: mult_num_simps numeral_times_numeral)

lemma dvd4_add: "4 dvd unat (a :: u32) \<Longrightarrow> 4 dvd unat b \<Longrightarrow> 4 dvd unat (a + b)"
  by (simp add: unat_word_ariths dvd_mod_iff dvd_4_4294967296)

lemma region_end:
  assumes "region_ok r n"
  shows "unat (r + n - 4) = unat r + unat n - 4" "unat (r + n) = unat r + unat n"
    "unat (r + 4) = unat r + 4" "unat (r + 8) = unat r + 8"
proof -
  show 1: "unat (r + n) = unat r + unat n"
    using assms by (simp add: region_ok_def unat_add_small)
  then show "unat (r + n - 4) = unat r + unat n - 4"
    using assms by (subst unat_sub) (auto simp: region_ok_def word_le_nat_alt)
  show "unat (r + 4) = unat r + 4" "unat (r + 8) = unat r + 8"
    using assms by (simp_all add: region_ok_def unat_add_small)
qed

lemma extent_self: "region_ok r n \<Longrightarrow> unat r \<in> extent r n"
  by (simp add: extent_def region_ok_def)

lemma extent_cells:
  assumes "region_ok r n"
  shows "unat (r + 4) \<in> extent r n" "unat (r + 8) \<in> extent r n" "unat (r + n - 4) \<in> extent r n"
  using assms by (simp_all add: region_end extent_def) (auto simp: region_ok_def)

lemma ceiling_cell:
  assumes "4 dvd unat (n :: u32)" "4 \<le> unat n"
  shows "r + (n div 4 - 1) * 4 = r + n - 4"
proof -
  have "unat n div 4 < 4294967296" "unat n div 4 * 4 = unat n"
    using unat_lt_2_32 [of n] assms(1) by simp_all
  then have "n div 4 * 4 = n"
    using unat_lt_2_32 [of n] by (simp add: word_unat_eq_iff unat_word_ariths unat_div)
  then have "(n div 4 - 1) * 4 = n - 4" by (simp add: left_diff_distrib)
  then show ?thesis by simp
qed

lemma flag_set: "4 dvd unat n \<Longrightarrow> (n OR 1) \<noteq> (n :: u32)"
proof
  assume n: "4 dvd unat n" and eq: "n OR 1 = n"
  have "even (unat n)" using n dvd_trans [of 2 4 "unat n"] by simp
  then have "\<not> bit n 0" by (simp add: bit_iff_odd_unat)
  moreover have "bit (n OR 1) 0" by (simp add: bit_simps)
  ultimately show False using eq by simp
qed

lemma flag_clear: "4 dvd unat n \<Longrightarrow> (n OR 1) AND NOT 1 = (n :: u32)"
proof -
  assume n: "4 dvd unat n"
  have "even (unat n)" using n dvd_trans [of 2 4 "unat n"] by simp
  then have "\<not> bit n 0" by (simp add: bit_iff_odd_unat)
  then show ?thesis by (intro bit_word_eqI) (auto simp: bit_simps bit_1_iff intro!: gr0I)
qed

lemma flag_clear': "4 dvd unat n \<Longrightarrow> n AND NOT 1 = (n :: u32)"
proof -
  assume n: "4 dvd unat n"
  have "even (unat n)" using n dvd_trans [of 2 4 "unat n"] by simp
  then have "\<not> bit n 0" by (simp add: bit_iff_odd_unat)
  then show ?thesis by (intro bit_word_eqI) (auto simp: bit_simps bit_1_iff intro!: gr0I)
qed

section \<open>Consequences of the invariant\<close>

lemma heap_invD:
  assumes "heap_inv s R fl"
  shows "free_lists s fl"
    and "i < 64 \<Longrightarrow> r \<in> set (fl i) \<Longrightarrow>
      \<exists>n. R r = Some (n, True) \<and> i = unat (compute_free_list_bucket (n - 8))"
    and "R r = Some (n, f) \<Longrightarrow> region_ok r n"
    and "R r = Some (n, f) \<Longrightarrow> tagged (mem s) r n f"
    and "R r = Some (n, f) \<Longrightarrow> extent r n \<inter> heads s = {}"
    and "R r = Some (n, f) \<Longrightarrow> R q = Some (k, g) \<Longrightarrow> r \<noteq> q \<Longrightarrow> extent r n \<inter> extent q k = {}"
    and "4 dvd unat (freeRegionBuckets s)" and "unat (freeRegionBuckets s) + 1024 < 2 ^ 32"
  using assms unfolding heap_inv_def by blast+

lemma heap_mem:
  assumes "heap_inv s R fl" "R r = Some (n, f)"
  shows "mem s r = n" "mem s (r + n - 4) = (if f then n OR 1 else n)"
  using heap_invD(4) [OF assms] by (simp_all add: tagged_def)

lemma linkedD:
  assumes "heap_inv s R fl" "r \<in> linked fl"
  obtains i n where "i < 64" "r \<in> set (fl i)" "R r = Some (n, True)"
    "i = unat (compute_free_list_bucket (n - 8))"
  using assms heap_invD(2) by (fastforce simp: linked_def)

text \<open>A list node is a bucket head or a free region; its link cells lie in its own area.\<close>

lemma head_cells:
  assumes inv: "heap_inv s R fl" and i: "i < 64"
  shows "unat (bucket_head s i + 4) \<in> heads s" "unat (bucket_head s i + 8) \<in> heads s"
    "unat (bucket_head s i) = unat (freeRegionBuckets s) + i * 16"
proof -
  have fb: "unat (freeRegionBuckets s) + 1024 < 2 ^ 32" by (rule heap_invD(8) [OF inv])
  have k: "unat (word_of_nat i * 16 :: u32) = i * 16"
    using i by (simp add: unat_word_ariths unsigned_of_nat take_bit_nat_eq_self)
  then show 1: "unat (bucket_head s i) = unat (freeRegionBuckets s) + i * 16"
    using fb i unfolding bucket_head_def by (subst unat_add_small) simp_all
  show "unat (bucket_head s i + 4) \<in> heads s" "unat (bucket_head s i + 8) \<in> heads s"
    using fb i by (simp_all add: unat_add_small 1 heads_def)
qed

lemma node_cases:
  assumes "heap_inv s R fl" "a \<in> all_nodes s fl"
  obtains (head) i where "i < 64" "a = bucket_head s i"
    | (region) n where "R a = Some (n, True)" "a \<in> linked fl"
proof -
  from assms(2) obtain i where i: "i < 64" "a = bucket_head s i \<or> a \<in> set (fl i)"
    by (auto simp: all_nodes_def nodes_def)
  show thesis
  proof (cases "a = bucket_head s i")
    case True
    with i(1) show thesis by (rule head)
  next
    case False
    with i obtain n where "R a = Some (n, True)"
      using heap_invD(2) [OF assms(1) i(1)] by blast
    then show thesis using False i by (intro region) (auto simp: linked_def)
  qed
qed

lemma node_cell_apart:
  assumes inv: "heap_inv s R fl" and a: "a \<in> all_nodes s fl"
    and x: "unat x \<notin> heads s" "\<And>q k. R q = Some (k, True) \<Longrightarrow> q \<in> linked fl \<Longrightarrow> unat x \<notin> extent q k"
  shows "a + 4 \<noteq> x" "a + 8 \<noteq> x"
  using a
  by (cases rule: node_cases [OF inv];
      use x head_cells(1,2) [OF inv] extent_cells(1,2) heap_invD(3) [OF inv] in blast)+

text \<open>Neither are the tags of a region link cells.\<close>

lemma tag_not_link:
  assumes inv: "heap_inv s R fl" and a: "a \<in> all_nodes s fl" and r: "R r = Some (n, f)"
  shows "a + 4 \<noteq> r" "a + 8 \<noteq> r" "a + 4 \<noteq> r + n - 4" "a + 8 \<noteq> r + n - 4"
proof -
  note ok = heap_invD(3) [OF inv r]
  have "a + 4 \<noteq> r \<and> a + 8 \<noteq> r \<and> a + 4 \<noteq> r + n - 4 \<and> a + 8 \<noteq> r + n - 4"
  proof (cases "a = r")
    case True
    have "unat (r + 4) = unat r + 4" "unat (r + 8) = unat r + 8" "unat (r + n - 4) = unat r + unat n - 4"
      by (simp_all add: region_end [OF ok])
    moreover have "16 \<le> unat n" using ok by (simp add: region_ok_def)
    ultimately show ?thesis using True by (auto simp del: unsigned_word_eqI)
  next
    case False
    have apart: "unat r \<notin> heads s" "unat (r + n - 4) \<notin> heads s"
      using heap_invD(5) [OF inv r] extent_self [OF ok] extent_cells(3) [OF ok] by blast+
    have out: "unat r \<notin> extent q k" "unat (r + n - 4) \<notin> extent q k"
      if "R q = Some (k, True)" "q \<noteq> r" for q k
      using heap_invD(6) [OF inv r that(1)] that(2) extent_self [OF ok] extent_cells(3) [OF ok] by blast+
    from a show ?thesis
    proof (cases rule: node_cases [OF inv, consumes 1, case_names head region])
      case (head i)
      then show ?thesis
        using head_cells(1,2) [OF inv head(1)] apart by metis
    next
      case (region k)
      then show ?thesis
        using extent_cells(1,2) [OF heap_invD(3) [OF inv region(1)]] out [OF region(1) False] by metis
    qed
  qed
  then show "a + 4 \<noteq> r" "a + 8 \<noteq> r" "a + 4 \<noteq> r + n - 4" "a + 8 \<noteq> r + n - 4" by blast+
qed


section \<open>The four steps\<close>

text \<open>A write outside all regions and list heads.\<close>

lemma with_mem_simps [simp]:
  "mem (with_mem g s) = g (mem s)"
  "freeRegionBuckets (with_mem g s) = freeRegionBuckets s"
  "heads (with_mem g s) = heads s"
  by (simp_all add: with_mem_def heads_def)

lemma tagged_write:
  "a \<noteq> r \<Longrightarrow> a \<noteq> r + n - 4 \<Longrightarrow> tagged (m(a := v)) r n f = tagged m r n f"
  by (simp add: tagged_def)

lemma step_write:
  assumes inv: "heap_inv s R fl"
    and x: "unat x \<notin> heads s" "\<And>q k f. R q = Some (k, f) \<Longrightarrow> unat x \<notin> extent q k"
  shows "heap_inv (with_mem (\<lambda>m. m(x := v)) s) R fl"
proof -
  have apart: "a + 4 \<noteq> x" "a + 8 \<noteq> x" if "a \<in> all_nodes s fl" for a
    using node_cell_apart [OF inv that] x by blast+
  have "free_lists (with_mem (\<lambda>m. m(x := v)) s) fl"
    unfolding with_mem_def by (rule free_lists_frame [OF heap_invD(1) [OF inv]]) (use apart in auto)
  moreover have "tagged ((mem s)(x := v)) r n f" if r: "R r = Some (n, f)" for r n f
  proof -
    note ok = heap_invD(3) [OF inv r]
    have "x \<noteq> r" "x \<noteq> r + n - 4"
      using x(2) [OF r] extent_self [OF ok] extent_cells(3) [OF ok] by metis+
    then show ?thesis using heap_invD(4) [OF inv r] by (simp add: tagged_write del: fun_upd_apply)
  qed
  ultimately show ?thesis using inv by (simp add: heap_inv_def del: fun_upd_apply)
qed

text \<open>Forgetting a region that is in no list opens a gap.\<close>

lemma step_drop: "heap_inv s R fl \<Longrightarrow> r \<notin> linked fl \<Longrightarrow> heap_inv s (R(r := None)) fl"
  unfolding heap_inv_def linked_def by (auto split: if_splits)

lemma gap_None:
  assumes inv: "heap_inv s R fl" and ok: "region_ok a n"
    and gap: "\<And>x k g. R x = Some (k, g) \<Longrightarrow> extent x k \<inter> extent a n = {}"
  shows "R a = None"
proof (rule ccontr)
  assume "R a \<noteq> None"
  then obtain k g where k: "R a = Some (k, g)" by auto
  show False
    using gap [OF k] extent_self [OF ok] extent_self [OF heap_invD(3) [OF inv k]] by blast
qed

text \<open>Registering a region whose tags are in place.\<close>

lemma step_put:
  assumes inv: "heap_inv s R fl" and ok: "region_ok r n" and tag: "tagged (mem s) r n f"
    and gap: "extent r n \<inter> heads s = {}" "\<And>q k g. R q = Some (k, g) \<Longrightarrow> extent q k \<inter> extent r n = {}"
  shows "heap_inv s (R(r \<mapsto> (n, f))) fl"
proof -
  have new: "R r = None" by (rule gap_None [OF inv ok gap(2)])
  have lists: "\<exists>k. (R(r \<mapsto> (n, f))) q = Some (k, True) \<and> i = unat (compute_free_list_bucket (k - 8))"
    if "i < 64" "q \<in> set (fl i)" for i q
    using heap_invD(2) [OF inv that] new by auto
  have "extent q k \<inter> extent p j = {}"
    if "(R(r \<mapsto> (n, f))) q = Some (k, g)" "(R(r \<mapsto> (n, f))) p = Some (j, h)" "q \<noteq> p" for q k g p j h
    using that gap(2) heap_invD(6) [OF inv] by (auto split: if_splits)
  then show ?thesis
    using inv ok tag gap(1) lists unfolding heap_inv_def by (auto split: if_splits)
qed

lemma create_region:
  assumes inv: "heap_inv s R fl" and ok: "region_ok r n"
    and gap: "extent r n \<inter> heads s = {}" "\<And>q k g. R q = Some (k, g) \<Longrightarrow> extent q k \<inter> extent r n = {}"
    and v: "v = (if f then n OR 1 else n)"
  shows "heap_inv (with_mem (\<lambda>m. (m(r := n))(r + (n div 4 - 1) * 4 := v)) s) (R(r \<mapsto> (n, f))) fl"
proof -
  have c: "r + (n div 4 - 1) * 4 = r + n - 4"
    using ok by (intro ceiling_cell) (simp_all add: region_ok_def)
  have ne: "r \<noteq> r + n - 4"
    using region_end(1) [OF ok] ok by (auto simp: region_ok_def)
  have out: "unat x \<notin> heads s" "\<And>q k g. R q = Some (k, g) \<Longrightarrow> unat x \<notin> extent q k"
    if "x = r \<or> x = r + n - 4" for x
    using that gap extent_self [OF ok] extent_cells(3) [OF ok] by blast+
  let ?s1 = "with_mem (\<lambda>m. m(r := n)) s" and ?s2 = "with_mem (\<lambda>m. (m(r := n))(r + n - 4 := v)) s"
  have "heap_inv ?s1 R fl" by (rule step_write [OF inv]) (use out in auto)
  then have "heap_inv (with_mem (\<lambda>m. m(r + n - 4 := v)) ?s1) R fl"
    by (rule step_write) (use out [of "r + n - 4"] in auto)
  then have "heap_inv ?s2 R fl" by (simp add: with_mem_def)
  then have "heap_inv ?s2 (R(r \<mapsto> (n, f))) fl"
    by (rule step_put [OF _ ok]) (use gap ne v in \<open>auto simp: tagged_def\<close>)
  then show ?thesis by (simp only: c)
qed

lemma step_create_free:
  assumes "heap_inv s R fl" "region_ok r n" "extent r n \<inter> heads s = {}"
    "\<And>q k g. R q = Some (k, g) \<Longrightarrow> extent q k \<inter> extent r n = {}"
  shows "heap_inv (with_mem (create_free_region r n) s) (R(r \<mapsto> (n, True))) fl"
  using create_region [OF assms, where v = "n OR 1" and f = True] by (simp add: create_free_region_def [abs_def])

lemma step_create_used:
  assumes "heap_inv s R fl" "region_ok r n" "extent r n \<inter> heads s = {}"
    "\<And>q k g. R q = Some (k, g) \<Longrightarrow> extent q k \<inter> extent r n = {}"
  shows "heap_inv (with_mem (create_used_region r n) s) (R(r \<mapsto> (n, False))) fl"
  using create_region [OF assms, where v = n and f = False] by (simp add: create_used_region_def [abs_def])

text \<open>List operations only write link cells, so they keep the tags.\<close>

lemma tagged_frame:
  assumes "heap_inv s R fl" "R r = Some (n, f)"
    and "\<And>x. (\<And>a. a \<in> all_nodes s fl \<Longrightarrow> x \<noteq> a + 4 \<and> x \<noteq> a + 8) \<Longrightarrow> m' x = mem s x"
  shows "tagged m' r n f"
proof -
  have "m' r = mem s r" "m' (r + n - 4) = mem s (r + n - 4)"
    using tag_not_link [OF assms(1) _ assms(2)] by (intro assms(3); metis)+
  then show ?thesis using heap_invD(4) [OF assms(1,2)] by (simp add: tagged_def)
qed

lemma unlink_frame:
  assumes fl: "free_lists s fl" and b: "b < 64" and split: "fl b = xs @ r # ys"
    and x: "\<And>a. a \<in> all_nodes s fl \<Longrightarrow> x \<noteq> a + 4 \<and> x \<noteq> a + 8"
  shows "unlink_from_free_list r (mem s) x = mem s x"
proof -
  let ?h = "bucket_head s b" and ?A = "all_nodes s fl"
  have sub: "set (?h # xs @ r # ys @ [?h]) \<subseteq> ?A"
    using nodes_subset [OF b, of s fl] split by (auto simp: nodes_def)
  have ringb: "chain (mem s) ?h (xs @ r # ys) ?h" using fl b split by (auto simp: free_lists_def)
  have "distinct (?h # fl b)" using fl b by (simp add: free_lists_def nodes_def)
  then have d: "distinct (?h # xs @ r # ys)" using split by auto
  have sp: "spaced (set (?h # xs @ r # ys @ [?h]))"
    using fl sub spaced_mono by (auto simp: free_lists_def)
  have "last (?h # xs) \<in> set (?h # xs)" "hd (ys @ [?h]) \<in> set (ys @ [?h])"
    by (rule last_in_set, simp) (rule hd_in_set, simp)
  then have "last (?h # xs) \<in> ?A" "hd (ys @ [?h]) \<in> ?A" using sub by auto
  then show ?thesis
    unfolding unlink_eq_join [OF ringb sp d] using x by (intro join_frame) blast+
qed

lemma step_unlink:
  assumes inv: "heap_inv s R fl" and r: "r \<in> linked fl"
  obtains fl' where "heap_inv (with_mem (unlink_from_free_list r) s) R fl'" "linked fl' = linked fl - {r}"
proof -
  from r obtain b where b: "b < 64" "r \<in> set (fl b)" by (auto simp: linked_def)
  then obtain xs ys where split: "fl b = xs @ r # ys" by (meson split_list)
  note fls = heap_invD(1) [OF inv]
  have "distinct (fl b)" using fls b by (simp add: free_lists_def nodes_def)
  then have d: "distinct (xs @ r # ys)" by (simp only: split)
  have only: "r \<notin> set (fl i)" if "i < 64" "i \<noteq> b" for i
    using that b fls unfolding free_lists_def nodes_def by fastforce
  let ?fl = "fl(b := xs @ ys)" and ?s = "with_mem (unlink_from_free_list r) s"
  have "tagged (mem ?s) q n f" if "R q = Some (n, f)" for q n f
    using unlink_frame [OF fls b(1) split] by (auto intro!: tagged_frame [OF inv that])
  moreover have "\<exists>n. R q = Some (n, True) \<and> i = unat (compute_free_list_bucket (n - 8))"
    if "i < 64" "q \<in> set (?fl i)" for i q
    using that split heap_invD(2) [OF inv, of i q] by (auto split: if_splits)
  ultimately have "heap_inv ?s R ?fl"
    using inv unlink_refines [OF fls b(1) split] unfolding heap_inv_def by auto
  moreover have "set (?fl i) = set (fl i) - {r}" if "i < 64" for i
    using only [OF that] d split by (cases "i = b") auto
  then have "linked ?fl = linked fl - {r}" unfolding linked_def by blast
  ultimately show thesis by (rule that)
qed


lemma fresh_region:
  assumes inv: "heap_inv s R fl" and r: "R r = Some (n, f)" and new: "r \<notin> linked fl"
  shows "r \<notin> all_nodes s fl" "spaced (insert r (all_nodes s fl))"
proof -
  note ok = heap_invD(3) [OF inv r]
  have area: "\<exists>A. unat a \<in> A \<and> unat (a + 4) \<in> A \<and> unat r \<notin> A \<and> unat (r + 4) \<notin> A"
    if "a \<in> all_nodes s fl" for a
    using that
  proof (cases rule: node_cases [OF inv, consumes 1, case_names head region])
    case (head i)
    have "unat a \<in> heads s" using head head_cells(3) [OF inv head(1)] by (simp add: heads_def)
    moreover have "unat (a + 4) \<in> heads s" using head head_cells(1) [OF inv head(1)] by simp
    moreover have "unat r \<notin> heads s" "unat (r + 4) \<notin> heads s"
      using heap_invD(5) [OF inv r] extent_self [OF ok] extent_cells(1) [OF ok] by blast+
    ultimately show ?thesis by blast
  next
    case (region k)
    note oka = heap_invD(3) [OF inv region(1)]
    have "a \<noteq> r" using region(2) new by auto
    then have "extent a k \<inter> extent r n = {}" using heap_invD(6) [OF inv region(1) r] by simp
    then have "unat r \<notin> extent a k" "unat (r + 4) \<notin> extent a k"
      using extent_self [OF ok] extent_cells(1) [OF ok] by blast+
    then show ?thesis using extent_self [OF oka] extent_cells(1) [OF oka] by blast
  qed
  show "r \<notin> all_nodes s fl" using area by blast
  have "r + 4 \<noteq> r" by simp
  moreover have "spaced (all_nodes s fl)" using heap_invD(1) [OF inv] by (simp add: free_lists_def)
  moreover have "a + 4 \<noteq> r" "r + 4 \<noteq> a" if "a \<in> all_nodes s fl" for a
    using area [OF that] by auto
  ultimately show "spaced (insert r (all_nodes s fl))" by (auto simp: spaced_def)
qed

lemma link_frame:
  assumes b: "b < 64" "b = unat (compute_free_list_bucket (size_of (mem s) r - REGION_HEADER_SIZE))"
    and fl: "free_lists s fl"
    and fresh: "r \<notin> all_nodes s fl" and sp: "spaced (insert r (all_nodes s fl))"
    and x: "\<And>a. a \<in> insert r (all_nodes s fl) \<Longrightarrow> x \<noteq> a + 4 \<and> x \<noteq> a + 8"
  shows "mem (link_to_free_list r s) x = mem s x"
proof -
  note f = fresh_node [OF fl b(1) fresh sp]
  have "bucket_head s b \<in> all_nodes s fl" "next_of (mem s) (bucket_head s b) \<in> all_nodes s fl"
    using ring_neighbours(1) [OF f(1)] nodes_subset [OF b(1), of s fl] by (auto simp: nodes_def)
  then show ?thesis
    unfolding link_to_free_list_eq [OF b(2) f(4,5)]
    using x by (simp add: insert_between_frame)
qed

text \<open>The link cells of a free region are no tags.\<close>

lemma own_links_apart:
  assumes inv: "heap_inv s R fl" and r: "R r = Some (n, g)" and q: "R q = Some (k, f)"
  shows "r + 4 \<noteq> q" "r + 8 \<noteq> q" "r + 4 \<noteq> q + k - 4" "r + 8 \<noteq> q + k - 4"
proof -
  note ok = heap_invD(3) [OF inv r] and okq = heap_invD(3) [OF inv q]
  have "r + 4 \<noteq> q \<and> r + 8 \<noteq> q \<and> r + 4 \<noteq> q + k - 4 \<and> r + 8 \<noteq> q + k - 4"
  proof (cases "q = r")
    case True
    then have "k = n" using q r by simp
    have "unat (r + 4) = unat r + 4" "unat (r + 8) = unat r + 8" "unat (r + n - 4) = unat r + unat n - 4"
      by (simp_all add: region_end [OF ok])
    moreover have "16 \<le> unat n" using ok by (simp add: region_ok_def)
    ultimately show ?thesis using True \<open>k = n\<close> by (auto simp del: unsigned_word_eqI)
  next
    case False
    then have "extent q k \<inter> extent r n = {}" using heap_invD(6) [OF inv q r] by simp
    then show ?thesis
      using extent_cells [OF ok] extent_cells(3) [OF okq] extent_self [OF okq] by (metis disjoint_iff)
  qed
  then show "r + 4 \<noteq> q" "r + 8 \<noteq> q" "r + 4 \<noteq> q + k - 4" "r + 8 \<noteq> q + k - 4" by blast+
qed

text \<open>The cells no list operation writes: those outside the heads and the free regions.\<close>

definition untouched :: "'a emm_scheme \<Rightarrow> regions \<Rightarrow> u32 \<Rightarrow> bool" where
  "untouched s R x \<longleftrightarrow> unat x \<notin> heads s \<and> (\<forall>q k. R q = Some (k, True) \<longrightarrow> unat x \<notin> extent q k)"

lemma untouched_node:
  assumes "heap_inv s R fl" "untouched s R x" "a \<in> all_nodes s fl"
  shows "x \<noteq> a + 4 \<and> x \<noteq> a + 8"
  using node_cell_apart [OF assms(1,3), of x] assms(2) by (auto simp: untouched_def)

lemma step_unlink_frame:
  assumes inv: "heap_inv s R fl" and r: "r \<in> linked fl" and x: "untouched s R x"
  shows "unlink_from_free_list r (mem s) x = mem s x"
proof -
  from r obtain b where b: "b < 64" "r \<in> set (fl b)" by (auto simp: linked_def)
  then obtain xs ys where "fl b = xs @ r # ys" by (meson split_list)
  then show ?thesis
    using untouched_node [OF inv x] by (intro unlink_frame [OF heap_invD(1) [OF inv] b(1)])
qed

lemma link_simps [simp]:
  "freeRegionBuckets (link_to_free_list r s) = freeRegionBuckets s"
  "heads (link_to_free_list r s) = heads s"
  by (simp_all add: link_to_free_list_def Let_def heads_def)

lemma free_bucket:
  assumes "region_ok r n"
  shows "unat (compute_free_list_bucket (n - 8)) < 64"
proof -
  have "unat (n - 8) = unat n - 8" using assms by (subst unat_sub) (auto simp: region_ok_def word_le_nat_alt)
  then have "8 \<le> n - 8" using assms by (auto simp: region_ok_def word_le_nat_alt)
  then show ?thesis using bucket_matches_documentation' by (auto simp: in_bucket_def)
qed

lemma step_link:
  assumes inv: "heap_inv s R fl" and r: "R r = Some (n, True)" and new: "r \<notin> linked fl"
  obtains fl' where "heap_inv (link_to_free_list r s) R fl'" "linked fl' = insert r (linked fl)"
proof -
  note fls = heap_invD(1) [OF inv] and fresh = fresh_region [OF inv r new] and ok = heap_invD(3) [OF inv r]
  define b where "b = unat (compute_free_list_bucket (n - 8))"
  have b: "b < 64" unfolding b_def by (rule free_bucket [OF ok])
  have b': "b = unat (compute_free_list_bucket (size_of (mem s) r - REGION_HEADER_SIZE))"
    using heap_mem(1) [OF inv r] by (simp add: b_def size_of_def)
  let ?fl = "fl(b := r # fl b)" and ?s = "link_to_free_list r s"
  note own = own_links_apart [OF inv r]
  have "tagged (mem ?s) q k f" if q: "R q = Some (k, f)" for q k f
  proof -
    have "mem ?s q = mem s q" "mem ?s (q + k - 4) = mem s (q + k - 4)"
      using own [OF q] tag_not_link [OF inv _ q]
      by (intro link_frame [OF b b' fls fresh]; metis insertE)+
    then show ?thesis using heap_invD(4) [OF inv q] by (simp add: tagged_def)
  qed
  moreover have "\<exists>n. R q = Some (n, True) \<and> i = unat (compute_free_list_bucket (n - 8))"
    if "i < 64" "q \<in> set (?fl i)" for i q
    using that r b_def heap_invD(2) [OF inv, of i q] by (auto split: if_splits)
  ultimately have "heap_inv ?s R ?fl"
    using inv link_refines [OF fls b b' fresh] unfolding heap_inv_def by auto
  moreover have "linked ?fl = insert r (linked fl)"
    using b by (auto simp: linked_def split: if_splits)
  ultimately show thesis by (rule that)
qed

lemma step_link_frame:
  assumes inv: "heap_inv s R fl" and r: "R r = Some (n, True)" and new: "r \<notin> linked fl" and x: "untouched s R x"
  shows "mem (link_to_free_list r s) x = mem s x"
proof -
  note ok = heap_invD(3) [OF inv r]
  have "unat x \<notin> extent r n" using x r by (simp add: untouched_def)
  then have "x \<noteq> r + 4 \<and> x \<noteq> r + 8" using extent_cells(1,2) [OF ok] by auto
  then show ?thesis
    using untouched_node [OF inv x] heap_mem(1) [OF inv r]
    by (intro link_frame [OF free_bucket [OF ok] _ heap_invD(1) [OF inv] fresh_region [OF inv r new]])
       (auto simp: size_of_def)
qed

text \<open>\<open>prepend_to_free_list\<close> puts a region at the end of the list of its class.\<close>

lemma step_append:
  assumes inv: "heap_inv s R fl" and r: "R r = Some (n, True)" and new: "r \<notin> linked fl"
    and b: "b = unat (compute_free_list_bucket (n - 8))" and bit: "bit (freeRegionBucketsUsed s) b"
  obtains fl' where "heap_inv (with_mem (prepend_to_free_list r (bucket_head s b)) s) R fl'"
    "linked fl' = insert r (linked fl)"
proof -
  note fls = heap_invD(1) [OF inv] and fresh = fresh_region [OF inv r new] and ok = heap_invD(3) [OF inv r]
  have b64: "b < 64" unfolding b by (rule free_bucket [OF ok])
  note f = fresh_node [OF fls b64 fresh]
  let ?fl = "fl(b := fl b @ [r])" and ?s = "with_mem (prepend_to_free_list r (bucket_head s b)) s"
  have "bucket_head s b \<in> all_nodes s fl" "prev_of (mem s) (bucket_head s b) \<in> all_nodes s fl"
    using ring_neighbours(2) [OF f(1)] nodes_subset [OF b64, of s fl] by (auto simp: nodes_def)
  then have frame: "mem ?s x = mem s x"
    if "\<And>a. a \<in> insert r (all_nodes s fl) \<Longrightarrow> x \<noteq> a + 4 \<and> x \<noteq> a + 8" for x
    using that by (simp add: prepend_eq_insert [OF f(4,5)] insert_between_frame)
  have "tagged (mem ?s) q k g" if q: "R q = Some (k, g)" for q k g
  proof -
    have "mem ?s q = mem s q" "mem ?s (q + k - 4) = mem s (q + k - 4)"
      using own_links_apart [OF inv r q] tag_not_link [OF inv _ q] by (intro frame; metis insertE)+
    then show ?thesis using heap_invD(4) [OF inv q] by (simp add: tagged_def)
  qed
  moreover have "\<exists>n. R q = Some (n, True) \<and> i = unat (compute_free_list_bucket (n - 8))"
    if "i < 64" "q \<in> set (?fl i)" for i q
    using that r b heap_invD(2) [OF inv, of i q] by (auto split: if_splits)
  ultimately have "heap_inv ?s R ?fl"
    using inv prepend_refines [OF fls b64 bit fresh] unfolding heap_inv_def by auto
  moreover have "linked ?fl = insert r (linked fl)"
    using b64 by (auto simp: linked_def split: if_splits)
  ultimately show thesis by (rule that)
qed


section \<open>Freeing\<close>

text \<open>The abstract effect: the freed region absorbs its free neighbours \<open>p\<close> and \<open>q\<close>.\<close>

definition merge_free :: "u32 \<Rightarrow> u32 \<times> bool \<Rightarrow> u32 \<Rightarrow> u32 \<Rightarrow> u32 \<Rightarrow> u32 \<times> bool \<Rightarrow> regions \<Rightarrow> regions" where
  "merge_free p pv r n q nx R =
     (let a = (if snd pv then p else r);
          total = n + (if snd pv then fst pv else 0) + (if snd nx then fst nx else 0)
      in (\<lambda>x. if x = r \<or> (x = p \<and> snd pv) \<or> (x = q \<and> snd nx) then None else R x)(a \<mapsto> (total, True)))"

lemma unlink_keeps:
  assumes "heap_inv s R fl" "heap_inv (with_mem f s) R fl'" "R r = Some (n, g)"
  shows "f (mem s) r = mem s r" "f (mem s) (r + n - 4) = mem s (r + n - 4)"
  using heap_mem [OF assms(1,3)] heap_mem [OF assms(2,3)] by simp_all

lemma step_unlink_if:
  assumes inv: "heap_inv s R fl" and "g \<Longrightarrow> r \<in> linked fl"
  obtains fl' where "heap_inv (if g then with_mem (unlink_from_free_list r) s else s) R fl'"
    "linked fl' = linked fl - (if g then {r} else {})"
proof (cases g)
  case True
  then show ?thesis using step_unlink [OF inv assms(2)] that by (metis (full_types))
next
  case False
  then show ?thesis using inv that [of fl] by simp
qed

text \<open>Once nothing overlapping is linked, a free region is created over a range and linked.\<close>

lemma step_recreate:
  assumes inv: "heap_inv s R fl" and lk: "linked fl = {x. \<exists>k. R x = Some (k, True)} - D"
    and sub: "\<And>x. x \<in> D \<Longrightarrow> R x \<noteq> None"
    and ok: "region_ok a n" and apart: "extent a n \<inter> heads s = {}"
    and gap: "\<And>x k g. R x = Some (k, g) \<Longrightarrow> x \<notin> D \<Longrightarrow> extent x k \<inter> extent a n = {}"
  shows "heap_ok (link_to_free_list a (with_mem (create_free_region a n) s))
           ((\<lambda>x. if x \<in> D then None else R x)(a \<mapsto> (n, True)))"
proof -
  let ?R = "\<lambda>x. if x \<in> D then None else R x"
  have new: "?R a = None"
  proof (rule ccontr)
    assume "?R a \<noteq> None"
    then obtain k g where k: "R a = Some (k, g)" "a \<notin> D" by (auto split: if_splits)
    show False
      using gap [OF k] extent_self [OF ok] extent_self [OF heap_invD(3) [OF inv k(1)]] by blast
  qed
  have "heap_inv s ?R fl"
    using inv lk unfolding heap_inv_def linked_def by (auto split: if_splits)
  then have 1: "heap_inv (with_mem (create_free_region a n) s) (?R(a \<mapsto> (n, True))) fl"
    using gap by (rule step_create_free [OF _ ok apart]) (auto split: if_splits)
  have "a \<notin> linked fl" using new lk by auto
  then obtain fl' where fl':
    "heap_inv (link_to_free_list a (with_mem (create_free_region a n) s)) (?R(a \<mapsto> (n, True))) fl'"
    "linked fl' = insert a (linked fl)"
    by (rule step_link [OF 1 fun_upd_same])
  have "linked fl' = {x. \<exists>k. (?R(a \<mapsto> (n, True))) x = Some (k, True)}"
    using fl'(2) lk by auto
  with fl'(1) show ?thesis unfolding heap_ok_def by blast
qed


lemma free_refines':
  assumes ok: "heap_ok s R" and r: "R r = Some (n, False)"
    and p: "R p = Some (pn, pf)" "p + pn = r" and q: "R q = Some (qn, qf)" "r + n = q"
  shows "heap_ok (emmalloc_free (r + 4) s) (merge_free p (pn, pf) r n q (qn, qf) R)"
proof -
  from ok obtain fl where inv: "heap_inv s R fl" and lk: "linked fl = {r. \<exists>n. R r = Some (n, True)}"
    by (auto simp: heap_ok_def)
  note okr = heap_invD(3) [OF inv r] and okp = heap_invD(3) [OF inv p(1)]
    and okq = heap_invD(3) [OF inv q(1)]
  have pr: "unat r = unat p + unat pn" using region_end(2) [OF okp] p(2) by simp
  have rq: "unat q = unat r + unat n" using region_end(2) [OF okr] q(2) by simp
  have pos: "16 \<le> unat pn" "16 \<le> unat n" "16 \<le> unat qn"
    using okp okr okq by (auto simp: region_ok_def)
  then have ne: "p \<noteq> r" "q \<noteq> r" "q \<noteq> p" using pr rq by auto
  \<comment> \<open>the left neighbour\<close>
  have plinked: "pf \<Longrightarrow> p \<in> linked fl" using lk p(1) by simp
  let ?s1 = "if pf then with_mem (unlink_from_free_list p) s else s"
  obtain fl1 where inv1: "heap_inv ?s1 R fl1" and lk1: "linked fl1 = linked fl - (if pf then {p} else {})"
    by (rule step_unlink_if [OF inv plinked])
  \<comment> \<open>the right neighbour\<close>
  have qlinked: "qf \<Longrightarrow> q \<in> linked fl1" using lk1 lk q(1) ne by (cases pf) auto
  let ?s2 = "if qf then with_mem (unlink_from_free_list q) ?s1 else ?s1"
  obtain fl2 where inv2: "heap_inv ?s2 R fl2" and lk2: "linked fl2 = linked fl1 - (if qf then {q} else {})"
    by (rule step_unlink_if [OF inv1 qlinked])
  let ?a = "if pf then p else r" and ?n = "n + (if pf then pn else 0) + (if qf then qn else 0)"
  let ?D = "{r} \<union> (if pf then {p} else {}) \<union> (if qf then {q} else {})"
  have total: "unat ?n = unat n + (if pf then unat pn else 0) + (if qf then unat qn else 0)"
    using pr rq okq by (auto simp: region_ok_def unat_word_ariths)
  have ext: "extent ?a ?n = extent r n \<union> (if pf then extent p pn else {}) \<union> (if qf then extent q qn else {})"
    unfolding extent_def total using pr rq by auto
  have oka: "region_ok ?a ?n"
    using okp okr okq pr rq unfolding region_ok_def total by auto
  have main: "heap_ok (link_to_free_list ?a (with_mem (create_free_region ?a ?n) ?s2))
     ((\<lambda>x. if x \<in> ?D then None else R x)(?a \<mapsto> (?n, True)))"
  proof (rule step_recreate [OF inv2 _ _ oka])
    show "linked fl2 = {x. \<exists>k. R x = Some (k, True)} - ?D"
      using lk lk1 lk2 r by auto
    show "R x \<noteq> None" if "x \<in> ?D" for x using that r p(1) q(1) by (auto split: if_splits)
    show "extent ?a ?n \<inter> heads ?s2 = {}"
      using heap_invD(5) [OF inv r] heap_invD(5) [OF inv p(1)] heap_invD(5) [OF inv q(1)]
      unfolding ext by (auto split: if_splits)
    show "extent x k \<inter> extent ?a ?n = {}" if x: "R x = Some (k, g)" "x \<notin> ?D" for x k g
      using heap_invD(6) [OF inv x(1) r] heap_invD(6) [OF inv x(1) p(1)] heap_invD(6) [OF inv x(1) q(1)] x(2)
      unfolding ext by (auto split: if_splits)
  qed
  have maps: "((\<lambda>x. if x \<in> ?D then None else R x)(?a \<mapsto> (?n, True))) = merge_free p (pn, pf) r n q (qn, qf) R"
    by (auto simp: merge_free_def Let_def fun_eq_iff)
  have "r + 4 \<noteq> 0" using region_end(3) [OF okr] by (metis add_is_0 unsigned_0 zero_neq_numeral)
  moreover have "mem s (r - 4) = (if pf then pn OR 1 else pn)"
    using heap_mem(2) [OF inv p(1)] p(2) by simp
  moreover have "(pn OR 1) AND NOT 1 = pn" "pn AND NOT 1 = pn" "pn OR 1 \<noteq> pn" "qn OR 1 \<noteq> qn"
    using okp okq unfolding region_ok_def by (blast intro: flag_clear flag_clear' dest: flag_set)+
  moreover have "r - pn = p" using p(2) by auto
  moreover have "size_of (mem s) r = n" "size_of (mem ?s1) r = n" "size_of (mem ?s1) q = qn" "size_of (mem ?s2) q = qn"
    using heap_mem(1) [OF inv r] heap_mem(1) [OF inv1 r] heap_mem(1) [OF inv1 q(1)] heap_mem(1) [OF inv2 q(1)]
    by (simp_all add: size_of_def)
  moreover have "mem ?s1 (q + qn - 4) = (if qf then qn OR 1 else qn)"
    by (rule heap_mem(2) [OF inv1 q(1)])
  ultimately have "emmalloc_free (r + 4) s = link_to_free_list ?a (with_mem (create_free_region ?a ?n) ?s2)"
    using q(2) unfolding emmalloc_free_def next_region_def region_payload_end_ptr_def
    by (cases pf; cases qf) (simp_all add: Let_def)
  then show ?thesis using main unfolding maps by simp
qed


section \<open>Allocating\<close>

text \<open>Carving an allocation of \<open>sz\<close> payload bytes out of a gap of \<open>n\<close> bytes at \<open>a\<close>.\<close>

definition carve :: "u32 \<Rightarrow> u32 \<Rightarrow> u32 \<Rightarrow> regions \<Rightarrow> regions" where
  "carve a n sz R =
     (if 24 + sz \<le> n then R(a + 8 + sz \<mapsto> (n - sz - 8, True), a \<mapsto> (sz + 8, False)) else R(a \<mapsto> (n, False)))"

definition carve_mem :: "u32 \<Rightarrow> u32 \<Rightarrow> u32 \<Rightarrow> 'a emm_scheme \<Rightarrow> 'a emm_scheme" where
  "carve_mem a n sz s =
     (if 24 + sz \<le> n
      then with_mem (create_used_region a (sz + 8))
             (link_to_free_list (a + 8 + sz) (with_mem (create_free_region (a + 8 + sz) (n - sz - 8)) s))
      else with_mem (\<lambda>m. m(a + n - 4 := n)) s)"

lemma carve_refines:
  assumes inv: "heap_inv s R fl" and lk: "linked fl = {x. \<exists>k. R x = Some (k, True)}"
    and ok: "region_ok a n" and apart: "extent a n \<inter> heads s = {}"
    and gap: "\<And>x k g. R x = Some (k, g) \<Longrightarrow> extent x k \<inter> extent a n = {}"
    and sz: "8 \<le> unat sz" "4 dvd unat sz" "unat sz + 8 \<le> unat n" and top: "mem s a = n"
    and low: "16 \<le> unat a"
  shows "heap_ok (carve_mem a n sz s) (carve a n sz R)"
proof (cases "24 + sz \<le> n")
  case True
  let ?q = "a + 8 + sz" and ?k = "n - sz - 8"
  have n32: "unat a + unat n < 2 ^ 32" using ok by (simp add: region_ok_def)
  have u8: "unat (sz + 8) = unat sz + 8" and u24: "unat (24 + sz) = 24 + unat sz"
    using sz n32 low by (simp_all add: unat_word_ariths)
  have q: "unat ?q = unat a + 8 + unat sz"
    using sz n32 by (simp add: unat_word_ariths)
  have le: "24 + unat sz \<le> unat n" using True u24 by (simp add: word_le_nat_alt)
  have k: "unat ?k = unat n - unat sz - 8"
    using le by (simp add: unat_sub word_le_nat_alt)
  have okq: "region_ok ?q ?k"
    using ok sz le unfolding region_ok_def q k by (auto intro!: dvd_diff_nat)
  have oka: "region_ok a (sz + 8)"
    using ok sz le unfolding region_ok_def u8 by auto
  have ext: "extent ?q ?k \<subseteq> extent a n" "extent a (sz + 8) \<subseteq> extent a n" "extent a (sz + 8) \<inter> extent ?q ?k = {}"
    using le by (auto simp: extent_def q k u8)
  let ?s1 = "with_mem (create_free_region ?q ?k) s" and ?R1 = "R(?q \<mapsto> (?k, True))"
  have 1: "heap_inv ?s1 ?R1 fl"
    using gap apart ext(1) by (intro step_create_free [OF inv okq]) blast+
  have "R ?q = None"
    by (rule gap_None [OF inv okq]) (use gap ext(1) in blast)
  then have "?q \<notin> linked fl" using lk by auto
  then obtain fl' where fl': "heap_inv (link_to_free_list ?q ?s1) ?R1 fl'" "linked fl' = insert ?q (linked fl)"
    by (rule step_link [OF 1 fun_upd_same])
  have "heap_inv (carve_mem a n sz s) (?R1(a \<mapsto> (sz + 8, False))) fl'"
    unfolding carve_mem_def if_P [OF True]
  proof (rule step_create_used [OF fl'(1) oka])
    show "extent a (sz + 8) \<inter> heads (link_to_free_list ?q ?s1) = {}"
      using apart ext(2) by auto
    show "extent x j \<inter> extent a (sz + 8) = {}" if "?R1 x = Some (j, g)" for x j g
      using that gap [of x j g] ext by (cases "x = ?q") auto
  qed
  moreover have "R a = None" by (rule gap_None [OF inv ok gap])
  moreover have "a \<noteq> ?q"
  proof
    assume "a = ?q"
    then have "unat a = unat ?q" by (rule arg_cong)
    then show False using q by simp
  qed
  ultimately have "linked fl' = {x. \<exists>k. (?R1(a \<mapsto> (sz + 8, False))) x = Some (k, True)}"
    using fl'(2) lk by (auto split: if_splits)
  with \<open>heap_inv (carve_mem a n sz s) _ _\<close> show ?thesis
    unfolding heap_ok_def carve_def if_P [OF True] by blast
next
  case False
  have c: "unat (a + n - 4) \<in> extent a n" by (rule extent_cells(3) [OF ok])
  have ne: "a + n - 4 \<noteq> a"
  proof
    assume "a + n - 4 = a"
    then have "unat (a + n - 4) = unat a" by simp
    then show False using region_end(1) [OF ok] ok by (auto simp: region_ok_def)
  qed
  have "heap_inv (with_mem (\<lambda>m. m(a + n - 4 := n)) s) R fl"
    using gap apart c by (intro step_write [OF inv]) blast+
  then have "heap_inv (with_mem (\<lambda>m. m(a + n - 4 := n)) s) (R(a \<mapsto> (n, False))) fl"
    by (rule step_put [OF _ ok]) (use gap apart ne top in \<open>auto simp: tagged_def\<close>)
  moreover have "R a = None" by (rule gap_None [OF inv ok gap])
  then have "linked fl = {x. \<exists>k. (R(a \<mapsto> (n, False))) x = Some (k, True)}"
    using lk by auto
  ultimately show ?thesis
    unfolding heap_ok_def carve_mem_def carve_def if_not_P [OF False] by blast
qed


text \<open>Alignment of the payload, read in natural numbers.\<close>

lemma pow2_dvd_4: "2 \<le> k \<Longrightarrow> (4 :: nat) dvd 2 ^ k"
  using le_imp_power_dvd [of 2 k "2 :: nat"] by simp

lemma align_up_bounds:
  assumes k: "2 \<le> k" "k < 32" and x: "4 dvd unat (x :: u32)" and fits: "unat x + 2 ^ k \<le> 2 ^ 32"
  shows "unat x \<le> unat (align_up x (2 ^ k))" "4 dvd unat (align_up x (2 ^ k))"
    "2 ^ k dvd unat (align_up x (2 ^ k))"
proof -
  note m = unat_mask_u32 [OF k(2)]
  have pos: "(0 :: nat) < 2 ^ k" by simp
  have sum: "unat (x + mask k) = unat x + (2 ^ k - 1)"
    using fits pos m by (subst unat_add_small) auto
  define t where "t = unat x + (2 ^ k - 1)"
  have u: "unat (align_up x (2 ^ k)) = t div 2 ^ k * 2 ^ k"
    unfolding align_up_exp unat_align_down sum t_def by (rule minus_mod_eq_div_mult)
  show 1: "2 ^ k dvd unat (align_up x (2 ^ k))" unfolding u by simp
  then show "4 dvd unat (align_up x (2 ^ k))" using pow2_dvd_4 [OF k(1)] dvd_trans by blast
  have "t mod 2 ^ k \<le> 2 ^ k - 1" using mod_less_divisor [OF pos, of t] by linarith
  moreover have "t div 2 ^ k * 2 ^ k + t mod 2 ^ k = t" by (rule div_mult_mod_eq)
  ultimately show "unat x \<le> unat (align_up x (2 ^ k))" unfolding u t_def by linarith
qed

text \<open>The abstract allocation of \<open>sz\<close> bytes, from the free region \<open>r\<close> after the used region \<open>p\<close>.\<close>

definition allocate_from :: "u32 \<Rightarrow> u32 \<Rightarrow> u32 \<Rightarrow> u32 \<Rightarrow> u32 \<Rightarrow> u32 \<Rightarrow> regions \<Rightarrow> regions" where
  "allocate_from p pn r n bump sz R =
     carve (r + bump) (n - bump) sz
       (if bump = 0 then R(r := None) else R(r := None, p \<mapsto> (pn + bump, False)))"

lemma attempt_allocate_eq:
  assumes al: "align_up (r + 4) alignment = r + 4 + bump"
    and fits: "\<not> r + size_of (mem s) r - 4 < r + 4 + bump + sz"
    and s1: "s1 = with_mem (unlink_from_free_list r) s"
    and s2: "s2 = (if bump = 0 then s1
           else with_mem (\<lambda>m. m(r + bump := size_of (mem s1) r - bump))
                  (with_mem (create_used_region (prev_region (mem s1) r)
                    (size_of (mem s1) (prev_region (mem s1) r) + bump)) s1))"
    and n: "n = mem s2 (r + bump)"
  shows "attempt_allocate r alignment sz s = (r + 4 + bump, carve_mem (r + bump) n sz s2)"
proof -
  have ptr: "r + bump + 4 = r + 4 + bump" by simp
  have sw: "sizeof_Region + REGION_HEADER_SIZE + sz = 24 + sz" by simp
  show ?thesis
  proof (cases "bump = 0")
    case True
    then show ?thesis
      using fits n unfolding attempt_allocate_def carve_mem_def Let_def region_payload_start_ptr_def
        region_payload_end_ptr_def al s2 s1 sw
      by (auto simp: size_of_def)
  next
    case False
    then show ?thesis
      using fits n unfolding attempt_allocate_def carve_mem_def Let_def region_payload_start_ptr_def
        region_payload_end_ptr_def al s2 s1 sw ptr [symmetric]
      by (simp add: size_of_def)
  qed
qed


lemma attempt_allocate_refines':
  assumes ok: "heap_ok s R" and r: "R r = Some (n, True)"
    and p: "R p = Some (pn, False)" "p + pn = r"
    and k: "3 \<le> k" "k < 32" "unat r + 4 + 2 ^ k \<le> 2 ^ 32"
    and sz: "8 \<le> unat sz" "4 dvd unat sz"
    and fits: "unat (align_up (r + 4) (2 ^ k)) + unat sz \<le> unat r + unat n - 4"
  shows "\<exists>s'. attempt_allocate r (2 ^ k) sz s = (align_up (r + 4) (2 ^ k), s') \<and>
    heap_ok s' (allocate_from p pn r n (align_up (r + 4) (2 ^ k) - (r + 4)) sz R)"
proof -
  from ok obtain fl where inv: "heap_inv s R fl" and lk: "linked fl = {r. \<exists>n. R r = Some (n, True)}"
    by (auto simp: heap_ok_def)
  note okr = heap_invD(3) [OF inv r] and okp = heap_invD(3) [OF inv p(1)]
  define b where "b = align_up (r + 4) (2 ^ k) - (r + 4)"
  have al: "align_up (r + 4) (2 ^ k) = r + 4 + b" by (simp add: b_def)
  have r4: "unat (r + 4) = unat r + 4" by (rule region_end(3) [OF okr])
  have d4: "4 dvd unat (r + 4)" using okr by (simp add: r4 region_ok_def)
  note bounds = align_up_bounds [OF _ k(2) d4]
  have up: "unat r + 4 \<le> unat (r + 4 + b)" "4 dvd unat (r + 4 + b)"
    using bounds k(1,3) unfolding al r4 by simp_all
  have ub: "unat b = unat (r + 4 + b) - (unat r + 4)"
  proof -
    have "r + 4 \<le> r + 4 + b" using up(1) by (simp add: word_le_nat_alt r4)
    then have "unat (r + 4 + b - (r + 4)) = unat (r + 4 + b) - unat (r + 4)" by (rule unat_sub)
    then show ?thesis by (simp add: r4)
  qed
  have b4: "4 dvd unat b" using up(2) d4 unfolding ub r4 by (rule dvd_diff_nat)
  have pr: "unat r = unat p + unat pn" using region_end(2) [OF okp] p(2) by simp
  have fit: "unat b + unat sz + 8 \<le> unat n" using fits up(1) sz ub okr unfolding al region_ok_def by linarith
  have n32: "unat r + unat n < 2 ^ 32" and n4: "4 dvd unat n" "4 dvd unat r" "16 \<le> unat pn"
    using okr okp by (auto simp: region_ok_def)
  have rb: "unat (r + b) = unat r + unat b" using fit n32 by (intro unat_add_small) linarith
  have nb: "unat (n - b) = unat n - unat b" using fit by (subst unat_sub) (simp_all add: word_le_nat_alt)
  have oka: "region_ok (r + b) (n - b)"
    using fit sz n32 n4 b4 unfolding region_ok_def rb nb by (auto intro!: dvd_diff_nat)
  have pnb: "unat (pn + b) = unat pn + unat b" using pr n32 fit by (intro unat_add_small) linarith
  have okp': "region_ok p (pn + b)"
    using okp pr n32 fit b4 unfolding region_ok_def pnb by auto
  have ea: "extent (r + b) (n - b) \<subseteq> extent r n" "extent p (pn + b) \<subseteq> extent p pn \<union> extent r n"
    "extent p (pn + b) \<inter> extent (r + b) (n - b) = {}"
    using pr fit by (auto simp: extent_def rb nb pnb)
  have ne: "p \<noteq> r" using pr n4(3) by auto
  let ?s1 = "with_mem (unlink_from_free_list r) s"
  obtain fl1 where inv1: "heap_inv ?s1 R fl1" and lk1: "linked fl1 = linked fl - {r}"
    using step_unlink [OF inv, of r] lk r by auto
  have m1: "size_of (mem ?s1) r = n" "size_of (mem ?s1) p = pn" "mem ?s1 (r - 4) = pn"
    using heap_mem [OF inv1 r] heap_mem [OF inv1 p(1)] p(2) by (simp_all add: size_of_def)
  have "pn AND NOT 1 = pn" using okp unfolding region_ok_def by (blast intro: flag_clear')
  then have prev: "prev_region (mem ?s1) r = p"
    using m1(3) unfolding prev_region_def DECODE_CEILING_SIZE_def p(2) [symmetric] by simp
  let ?R1 = "R(r := None)"
  have inv1': "heap_inv ?s1 ?R1 fl1" by (rule step_drop [OF inv1]) (simp add: lk1)
  have gap1: "extent x j \<inter> extent r n = {}" if "?R1 x = Some (j, g)" for x j g
    using that heap_invD(6) [OF inv _ r] by (auto split: if_splits)
  have apart: "extent r n \<inter> heads s = {}" "extent p pn \<inter> heads s = {}"
    using heap_invD(5) [OF inv r] heap_invD(5) [OF inv p(1)] by simp_all
  define s2 where "s2 = (if b = 0 then ?s1 else with_mem (\<lambda>m. m(r + b := n - b)) (with_mem (create_used_region p (pn + b)) ?s1))"
  define R2 where "R2 = (if b = 0 then ?R1 else R(r := None, p \<mapsto> (pn + b, False)))"
  have hd2: "heads s2 = heads s" by (simp add: s2_def)
  have gap2: "extent x j \<inter> extent (r + b) (n - b) = {}" if "R2 x = Some (j, g)" for x j g
    using that gap1 [of x j g] ea by (cases "b = 0"; cases "x = p") (auto simp: R2_def)
  have inv2: "heap_inv s2 R2 fl1"
  proof (cases "b = 0")
    case True
    then show ?thesis using inv1' by (simp add: s2_def R2_def)
  next
    case False
    have "p \<notin> linked fl1" using lk lk1 p(1) by auto
    then have 1: "heap_inv ?s1 (?R1(p := None)) fl1" by (rule step_drop [OF inv1'])
    have "heap_inv (with_mem (create_used_region p (pn + b)) ?s1) ((?R1(p := None))(p \<mapsto> (pn + b, False))) fl1"
    proof (rule step_create_used [OF 1 okp'])
      show "extent p (pn + b) \<inter> heads ?s1 = {}" using ea(2) apart by auto
      show "extent q j \<inter> extent p (pn + b) = {}" if q: "(?R1(p := None)) q = Some (j, g)" for q j g
      proof -
        have "R q = Some (j, g)" "q \<noteq> p" "q \<noteq> r" using q by (auto split: if_splits)
        then have "extent q j \<inter> extent p pn = {}" "extent q j \<inter> extent r n = {}"
          using heap_invD(6) [OF inv _ p(1)] heap_invD(6) [OF inv _ r] by blast+
        then show ?thesis using ea(2) by blast
      qed
    qed
    then have 2: "heap_inv (with_mem (create_used_region p (pn + b)) ?s1) R2 fl1"
      using False by (simp add: R2_def)
    have in_gap: "unat (r + b) \<in> extent (r + b) (n - b)" by (rule extent_self [OF oka])
    have "heap_inv (with_mem (\<lambda>m. m(r + b := n - b)) (with_mem (create_used_region p (pn + b)) ?s1)) R2 fl1"
    proof (rule step_write [OF 2])
      show "unat (r + b) \<notin> heads (with_mem (create_used_region p (pn + b)) ?s1)"
        using in_gap ea(1) apart(1) by auto
      show "unat (r + b) \<notin> extent q j" if "R2 q = Some (j, g)" for q j g
        using gap2 [OF that] in_gap by blast
    qed
    with False show ?thesis by (simp add: s2_def)
  qed
  have lk2: "linked fl1 = {x. \<exists>k. R2 x = Some (k, True)}"
    using lk lk1 p(1) by (auto simp: R2_def split: if_splits)
  have top: "mem s2 (r + b) = n - b" using m1(1) by (simp add: s2_def size_of_def)
  have "heap_ok (carve_mem (r + b) (n - b) sz s2) (carve (r + b) (n - b) sz R2)"
  proof (rule carve_refines [OF inv2 lk2 oka _ gap2 _ sz(2) _ top])
    show "extent (r + b) (n - b) \<inter> heads s2 = {}" using ea(1) apart(1) unfolding hd2 by blast
    show "8 \<le> unat sz" by (rule sz(1))
    show "unat sz + 8 \<le> unat (n - b)" using fit nb by linarith
    show "16 \<le> unat (r + b)" using pr n4(3) rb by linarith
  qed
  moreover have "carve (r + b) (n - b) sz R2 = allocate_from p pn r n b sz R"
    by (simp add: allocate_from_def R2_def)
  moreover have "attempt_allocate r (2 ^ k) sz s = (r + 4 + b, carve_mem (r + b) (n - b) sz s2)"
  proof (rule attempt_allocate_eq [OF al])
    have top_r: "size_of (mem s) r = n" using heap_mem(1) [OF inv r] by (simp add: size_of_def)
    have "unat (r + 4 + b + sz) = unat (r + 4 + b) + unat sz"
      using fits n32 unfolding al by (intro unat_add_small) linarith
    then show "\<not> r + size_of (mem s) r - 4 < r + 4 + b + sz"
      using fits region_end(1) [OF okr] unfolding top_r al by (simp add: word_less_nat_alt)
    show "s2 = (if b = 0 then ?s1 else with_mem (\<lambda>m. m(r + b := size_of (mem ?s1) r - b))
        (with_mem (create_used_region (prev_region (mem ?s1) r)
          (size_of (mem ?s1) (prev_region (mem ?s1) r) + b)) ?s1))"
      by (simp only: s2_def prev m1(1,2))
    show "n - b = mem s2 (r + b)" by (rule top [symmetric])
  qed (rule refl)
  ultimately show ?thesis unfolding al add_diff_cancel_left' by metis
qed


section \<open>A concrete heap\<close>

text \<open>Three used regions of 16, 64 and 16 bytes, list heads at 1024, all lists empty.\<close>

definition demo_heap :: emm where
  "demo_heap =
     \<lparr>sbrk_val = 65632, heap_size = 131072, errno = 0,
      mem = (\<lambda>a. if unat a \<in> {1024..<2048} then word_of_nat (unat a div 16 * 16)
                 else if a \<in> {65552, 65612} then 64 else 16),
      listOfAllRegions = 65536, freeRegionBuckets = 1024, freeRegionBucketsUsed = 0\<rparr>"

definition demo_regions :: regions where
  "demo_regions = [65536 \<mapsto> (16, False), 65552 \<mapsto> (64, False), 65616 \<mapsto> (16, False)]"

lemma demo_head:
  assumes "i < 64"
  shows "unat (bucket_head demo_heap i) = 1024 + i * 16"
proof -
  have "unat (word_of_nat i * 16 :: u32) = i * 16"
    using assms by (simp add: unat_word_ariths unsigned_of_nat take_bit_nat_eq_self)
  then show ?thesis
    using assms by (simp add: bucket_head_def demo_heap_def unat_add_small)
qed

lemma demo_link:
  assumes "i < 64" "d < 16"
  shows "mem demo_heap (bucket_head demo_heap i + word_of_nat d) = bucket_head demo_heap i"
proof -
  have "unat (bucket_head demo_heap i + word_of_nat d) = 1024 + i * 16 + d"
    using assms demo_head [OF assms(1)]
    by (subst unat_add_small) (simp_all add: unsigned_of_nat take_bit_nat_eq_self)
  moreover have "(1024 + i * 16 + d) div 16 = 64 + i"
    using assms(2) by (intro div_nat_eqI) simp_all
  then have "(1024 + i * 16 + d) div 16 * 16 = 1024 + i * 16" by (simp only:) simp
  moreover have "word_of_nat (1024 + i * 16) = bucket_head demo_heap i"
    using demo_head [OF assms(1)] by (metis of_nat_unat ucast_id)
  ultimately show ?thesis using assms by (simp add: demo_heap_def)
qed

lemma demo_ring: "i < 64 \<Longrightarrow> ring (mem demo_heap) (bucket_head demo_heap i) []"
  using demo_link [of i 4] demo_link [of i 8] by (simp add: next_of_def prev_of_def)

lemma demo_lists: "free_lists demo_heap (\<lambda>_. [])"
proof -
  have "bucket_head demo_heap i \<noteq> bucket_head demo_heap j" if "i < 64" "j < 64" "i \<noteq> j" for i j
  proof
    assume "bucket_head demo_heap i = bucket_head demo_heap j"
    then show False using demo_head [OF that(1)] demo_head [OF that(2)] that(3) by simp
  qed
  moreover have "spaced (all_nodes demo_heap (\<lambda>_. []))"
    unfolding spaced_def
  proof (intro ballI notI)
    fix a assume "a \<in> all_nodes demo_heap (\<lambda>_. [])" "a + 4 \<in> all_nodes demo_heap (\<lambda>_. [])"
    then obtain i j where ij: "i < 64" "a = bucket_head demo_heap i" "j < 64" "a + 4 = bucket_head demo_heap j"
      by (auto simp: all_nodes_def nodes_def)
    then have "unat (a + 4) = 1024 + i * 16 + 4"
      using demo_head [OF ij(1)] by (subst unat_add_small) simp_all
    then have "1024 + i * 16 + 4 = 1024 + j * 16" using demo_head [OF ij(3)] ij(4) by simp
    then show False by presburger
  qed
  ultimately show ?thesis
    using demo_ring by (auto simp: free_lists_def nodes_def)
qed

lemma demo_ok: "heap_ok demo_heap demo_regions"
proof -
  have "heap_inv demo_heap demo_regions (\<lambda>_. [])"
    unfolding heap_inv_def
    by (intro conjI demo_lists)
       (auto simp: demo_regions_def demo_heap_def region_ok_def tagged_def extent_def heads_def
         split: if_splits)
  moreover have "linked (\<lambda>_. []) = {r. \<exists>n. demo_regions r = Some (n, True)}"
    by (auto simp: linked_def demo_regions_def split: if_splits)
  ultimately show ?thesis unfolding heap_ok_def by blast
qed

section \<open>The properties\<close>

text \<open>
  Claim C1. \<open>emmalloc_free\<close> on a heap that satisfies the invariant merges the freed region with
  exactly those physical neighbours that are free, updates both boundary tags, moves the
  merged region to the list of its size class and leaves every other region as it was.
\<close>

theorem free_refines:
  assumes "heap_ok s R" and "R r = Some (n, False)"
    and "R p = Some (pn, pf)" "p + pn = r" and "R q = Some (qn, qf)" "r + n = q"
  shows "heap_ok (emmalloc_free (r + 4) s) (merge_free p (pn, pf) r n q (qn, qf) R)"
  using assms by (rule free_refines')

lemma demo_regionsE:
  "demo_regions 65536 = Some (16, False)" "demo_regions 65552 = Some (64, False)"
  "demo_regions 65616 = Some (16, False)"
  by (simp_all add: demo_regions_def)

theorem free_refines_witness:
  "heap_ok (emmalloc_free 65556 demo_heap)
     (merge_free 65536 (16, False) 65552 64 65616 (16, False) demo_regions)"
  using free_refines [OF demo_ok demo_regionsE(2) demo_regionsE(1) _ demo_regionsE(3)] by simp

text \<open>
  Claim C2. When the aligned payload fits (with no wrap-around of the address sum),
  \<open>attempt_allocate\<close> returns the first suitably aligned address of the free region; the
  alignment gap is given to the used region before it, a remainder of at least a header
  plus a minimal region becomes a free region of its own list, and the heap invariant is kept.
\<close>

theorem attempt_allocate_refines:
  assumes "heap_ok s R" and "R r = Some (n, True)"
    and "R p = Some (pn, False)" "p + pn = r"
    and "3 \<le> k" "k < 32" "unat r + 4 + 2 ^ k \<le> 2 ^ 32"
    and "8 \<le> unat sz" "4 dvd unat sz"
    and "unat (align_up (r + 4) (2 ^ k)) + unat sz \<le> unat r + unat n - 4"
  shows "\<exists>s'. attempt_allocate r (2 ^ k) sz s = (align_up (r + 4) (2 ^ k), s') \<and>
    heap_ok s' (allocate_from p pn r n (align_up (r + 4) (2 ^ k) - (r + 4)) sz R)"
  using assms by (rule attempt_allocate_refines')

lemma demo_freed:
  "heap_ok (emmalloc_free 65556 demo_heap) (demo_regions(65552 \<mapsto> (64, True)))"
proof -
  have "merge_free 65536 (16, False) 65552 64 65616 (16, False) demo_regions = demo_regions(65552 \<mapsto> (64, True))"
    by (auto simp: merge_free_def demo_regions_def)
  then show ?thesis
    using free_refines' [OF demo_ok demo_regionsE(2) demo_regionsE(1) _ demo_regionsE(3)] by simp
qed

theorem attempt_allocate_refines_witness:
  "\<exists>s'. attempt_allocate 65552 8 24 (emmalloc_free 65556 demo_heap) = (65560, s') \<and>
     heap_ok s' (allocate_from 65536 16 65552 64 4 24 (demo_regions(65552 \<mapsto> (64, True))))"
  using attempt_allocate_refines [OF demo_freed, of 65552 64 65536 16 3 24]
  by (simp add: demo_regions_def align_up_def)

end
