(* ===== verification/Emmalloc_Stats.thy ===== *)
theory Emmalloc_Stats
  imports Emmalloc_Heap
begin

text \<open>
  The introspection functions of \<open>system/lib/emmalloc.c\<close>: heap validation, \<open>mallinfo\<close>, the free
  memory counters and \<open>malloc_trim\<close>. They walk the region chain and the free lists; a walk that
  does not end is \<^const>\<open>None\<close>.
\<close>

section \<open>Validation\<close>

partial_function (option) validate_block :: "memory \<Rightarrow> u32 \<Rightarrow> u32 \<Rightarrow> bool option" where
  "validate_block m r lastRegionEnd =
     (if r < lastRegionEnd
      then if \<not> debug_region_is_consistent m r then Some False
           else if size_of m r = 0 then Some True
           else validate_block m (next_region m r) lastRegionEnd
      else Some True)"

partial_function (option) validate_roots :: "memory \<Rightarrow> u32 \<Rightarrow> bool option" where
  "validate_roots m rt =
     (if rt = 0 then Some True
      else if \<not> debug_region_is_consistent m rt then Some False
      else Option.bind (validate_block m rt (root_endPtr m rt))
             (\<lambda>ok. if ok then validate_roots m (root_next m rt) else Some False))"

partial_function (option) validate_free_list :: "memory \<Rightarrow> u32 \<Rightarrow> u32 \<Rightarrow> u32 \<Rightarrow> bool option" where
  "validate_free_list m head prev fr =
     (if fr = head then Some True
      else if \<not> debug_region_is_consistent m fr \<or> \<not> region_is_free m fr \<or> prev_of m fr \<noteq> prev
              \<or> next_of m fr = fr \<or> prev_of m fr = fr
      then Some False
      else validate_free_list m head fr (next_of m fr))"

primrec validate_buckets :: "'a emm_scheme \<Rightarrow> nat list \<Rightarrow> bool option" where
  "validate_buckets s [] = Some True"
| "validate_buckets s (i # is) =
     Option.bind (validate_free_list (mem s) (bucket_head s i) (bucket_head s i)
                    (next_of (mem s) (bucket_head s i)))
       (\<lambda>ok. if ok then validate_buckets s is else Some False)"

text \<open>1 reports corruption and 0 success.\<close>

definition validate_memory_regions :: "'a emm_scheme \<Rightarrow> u32 option" where
  "validate_memory_regions s =
     Option.bind (validate_roots (mem s) (listOfAllRegions s))
       (\<lambda>ok. if \<not> ok then Some 1
             else Option.bind (validate_buckets s [0..<NUM_FREE_BUCKETS])
                    (\<lambda>ok. Some (if ok then 0 else 1)))"

definition emmalloc_validate_memory_regions :: "'a emm_scheme \<Rightarrow> u32 option" where
  "emmalloc_validate_memory_regions s = validate_memory_regions s"

section \<open>\<open>mallinfo\<close>\<close>

text \<open>Both counters advance \<open>list\<close>, the end marker of the loop, and not \<open>i\<close>.\<close>

partial_function (option) count_size_loop :: "memory \<Rightarrow> u32 \<Rightarrow> u32 \<Rightarrow> u32 \<Rightarrow> u32 option" where
  "count_size_loop m i lst n =
     (if i \<noteq> lst then count_size_loop m i (next_of m lst) (n + 1) else Some n)"

definition count_linked_list_size :: "memory \<Rightarrow> u32 \<Rightarrow> u32 option" where
  "count_linked_list_size m lst = count_size_loop m (next_of m lst) lst 1"

partial_function (option) count_space_loop :: "memory \<Rightarrow> u32 \<Rightarrow> u32 \<Rightarrow> u32 \<Rightarrow> u32 option" where
  "count_space_loop m i lst space =
     (if i \<noteq> lst
      then count_space_loop m i (next_of m lst)
             (space + (region_payload_end_ptr m i - region_payload_start_ptr i))
      else Some space)"

definition count_linked_list_space :: "memory \<Rightarrow> u32 \<Rightarrow> u32 option" where
  "count_linked_list_space m lst = count_space_loop m (next_of m lst) lst 0"

record mallinfo =
  arena :: u32
  ordblks :: u32
  smblks :: u32
  hblks :: u32
  hblkhd :: u32
  usmblks :: u32
  fsmblks :: u32
  uordblks :: u32
  fordblks :: u32
  keepcost :: u32

primrec mallinfo_buckets :: "'a emm_scheme \<Rightarrow> nat list \<Rightarrow> mallinfo \<Rightarrow> mallinfo option" where
  "mallinfo_buckets s [] info = Some info"
| "mallinfo_buckets s (i # is) info =
     Option.bind (count_linked_list_size (mem s) (bucket_head s i)) (\<lambda>n.
     Option.bind (count_linked_list_space (mem s) (bucket_head s i)) (\<lambda>sp.
       mallinfo_buckets s is
         (info\<lparr>smblks := smblks info + (n - 1), fsmblks := fsmblks info + sp\<rparr>)))"

partial_function (option) mallinfo_block :: "memory \<Rightarrow> u32 \<Rightarrow> u32 \<Rightarrow> mallinfo \<Rightarrow> mallinfo option" where
  "mallinfo_block m r lastRegionEnd info =
     (if r < lastRegionEnd
      then
        let info1 = (if region_is_free m r
              then info\<lparr>fordblks := fordblks info + (region_payload_end_ptr m r - region_payload_start_ptr r),
                        uordblks := uordblks info + REGION_HEADER_SIZE\<rparr>
              else info\<lparr>uordblks := uordblks info + size_of m r\<rparr>);
            info2 = info1\<lparr>usmblks := max (usmblks info1) (r + size_of m r)\<rparr>
        in if size_of m r = 0 then Some info2
           else mallinfo_block m (next_region m r) lastRegionEnd info2
      else Some info)"

partial_function (option) mallinfo_roots :: "memory \<Rightarrow> u32 \<Rightarrow> mallinfo \<Rightarrow> mallinfo option" where
  "mallinfo_roots m rt info =
     (if rt = 0 then Some info
      else Option.bind (mallinfo_block m rt (root_endPtr m rt) info)
             (\<lambda>info'. mallinfo_roots m (root_next m rt) info'))"

definition emmalloc_mallinfo :: "resizer \<Rightarrow> 'a emm_scheme \<Rightarrow> mallinfo option" where
  "emmalloc_mallinfo resize s =
     (let m = mem s;
          info = \<lparr>arena = heap_size s - fst (sbrk64 resize 0 s), ordblks = 0, smblks = 0, hblks = 0,
                  hblkhd = 0, usmblks = 0, fsmblks = 0, uordblks = 0, fordblks = 0, keepcost = 0\<rparr>
      in Option.bind (count_linked_list_size m (bucket_head s (NUM_FREE_BUCKETS - 1))) (\<lambda>n.
         Option.bind (mallinfo_buckets s [0..<NUM_FREE_BUCKETS - 1] (info\<lparr>ordblks := n - 1\<rparr>)) (\<lambda>info1.
           let lastActualRegion = prev_region m (root_endPtr m (listOfAllRegions s) - sizeof_Region);
               info2 = info1\<lparr>keepcost := if region_is_free m lastActualRegion
                                        then size_of m lastActualRegion else 0\<rparr>
           in mallinfo_roots m (listOfAllRegions s) info2)))"

section \<open>Trimming\<close>

definition trim_dynamic_heap_reservation :: "resizer \<Rightarrow> u32 \<Rightarrow> 'a emm_scheme \<Rightarrow> bool \<times> 'a emm_scheme" where
  "trim_dynamic_heap_reservation resize pad0 s =
     (if listOfAllRegions s = 0 then (False, s)
      else
        let previousSbrkEndAddress = root_endPtr (mem s) (listOfAllRegions s);
            lastMemoryRegionSize = mem s (previousSbrkEndAddress - 4);
            endSentinelRegion = previousSbrkEndAddress - lastMemoryRegionSize;
            lastActualRegion = prev_region (mem s) endSentinelRegion
        in if \<not> region_is_free (mem s) lastActualRegion then (False, s)
           else
             let pad = align_up pad0 4
             in if size_of (mem s) lastActualRegion \<le> pad then (False, s)
                else
                  let shrinkAmount = align_down (size_of (mem s) lastActualRegion - pad - 2 * 4) 8
                  in if shrinkAmount = 0 then (False, s)
                     else
                       let s1 = with_mem (unlink_from_free_list lastActualRegion) s;
                           newRegionSize0 = size_of (mem s1) lastActualRegion - shrinkAmount;
                           (newRegionSize, s2) =
                             (if sizeof_Region \<le> newRegionSize0
                              then (newRegionSize0, link_to_free_list lastActualRegion
                                     (with_mem (create_free_region lastActualRegion newRegionSize0) s1))
                              else (0, s1));
                           (oldSbrk, s3) = sbrk64 resize (- ucast shrinkAmount) s2;
                           (sbrkNow, s4) = sbrk64 resize 0 s3;
                           newEndSentinelRegion = lastActualRegion + newRegionSize;
                           newEndSentinelRegionSize = sbrkNow - newEndSentinelRegion;
                           s5 = with_mem (create_used_region newEndSentinelRegion newEndSentinelRegionSize) s4
                       in (True, with_mem (set_endPtr (listOfAllRegions s5)
                                   (newEndSentinelRegion + newEndSentinelRegionSize)) s5))"

definition emmalloc_trim :: "resizer \<Rightarrow> u32 \<Rightarrow> 'a emm_scheme \<Rightarrow> bool \<times> 'a emm_scheme" where
  "emmalloc_trim resize pad s = trim_dynamic_heap_reservation resize pad s"

section \<open>Counters\<close>

partial_function (option) dynamic_heap_size_loop :: "memory \<Rightarrow> u32 \<Rightarrow> u32 \<Rightarrow> u32 option" where
  "dynamic_heap_size_loop m rt dynamicHeapSize =
     (if rt = 0 then Some dynamicHeapSize
      else dynamic_heap_size_loop m (root_next m rt) (dynamicHeapSize + (root_endPtr m rt - rt)))"

definition emmalloc_dynamic_heap_size :: "'a emm_scheme \<Rightarrow> u32 option" where
  "emmalloc_dynamic_heap_size s = dynamic_heap_size_loop (mem s) (listOfAllRegions s) 0"

text \<open>The shared shape of the two loops over the populated buckets: \<open>f\<close> is the loop body.\<close>

partial_function (option) for_free_list ::
  "memory \<Rightarrow> (u32 \<Rightarrow> 'b \<Rightarrow> 'b) \<Rightarrow> u32 \<Rightarrow> u32 \<Rightarrow> 'b \<Rightarrow> 'b option" where
  "for_free_list m f head fr acc =
     (if fr = head then Some acc else for_free_list m f head (next_of m fr) (f fr acc))"

function for_populated_buckets ::
  "'a emm_scheme \<Rightarrow> (u32 \<Rightarrow> 'b \<Rightarrow> 'b) \<Rightarrow> nat \<Rightarrow> u64 \<Rightarrow> 'b \<Rightarrow> 'b option" where
  "for_populated_buckets s f bucketIndex0 bucketMask0 acc =
     (if bucketMask0 = 0 then Some acc
      else
        let indexAdd = ctz bucketMask0;
            bucketIndex = bucketIndex0 + indexAdd;
            bucketMask = drop_bit indexAdd bucketMask0;
            head = bucket_head s bucketIndex
        in case for_free_list (mem s) f head (next_of (mem s) head) acc of
             None \<Rightarrow> None
           | Some acc' \<Rightarrow> for_populated_buckets s f (bucketIndex + 1) (drop_bit 1 bucketMask) acc')"
  by pat_completeness auto
termination
  by (relation "measure (\<lambda>(s, f, bucketIndex, bucketMask, acc). unat bucketMask)")
     (simp_all add: half_decreases del: drop_bit_drop_bit drop_bit_Suc)

declare for_populated_buckets.simps [simp del]

definition emmalloc_free_dynamic_memory :: "'a emm_scheme \<Rightarrow> u32 option" where
  "emmalloc_free_dynamic_memory s =
     for_populated_buckets s (\<lambda>freeRegion freeDynamicMemory.
         freeDynamicMemory + (size_of (mem s) freeRegion - REGION_HEADER_SIZE))
       0 (freeRegionBucketsUsed s) 0"

definition emmalloc_compute_free_dynamic_memory_fragmentation_map ::
  "'a emm_scheme \<Rightarrow> (u32 \<times> u32 list) option" where
  "emmalloc_compute_free_dynamic_memory_fragmentation_map s =
     for_populated_buckets s (\<lambda>freeRegion (numFreeMemoryRegions, sizeMap).
         let freeDynamicMemory = size_of (mem s) freeRegion - REGION_HEADER_SIZE;
             k = (if 0 < freeDynamicMemory then 31 - clz freeDynamicMemory else 0)
         in (numFreeMemoryRegions + 1, sizeMap[k := sizeMap ! k + 1]))
       0 (freeRegionBucketsUsed s) (0, replicate 32 0)"

text \<open>\<open>heap_max\<close> is \<open>emscripten_get_heap_max()\<close>, a link-time constant.\<close>

definition emmalloc_unclaimed_heap_memory :: "u32 \<Rightarrow> resizer \<Rightarrow> 'a emm_scheme \<Rightarrow> u32" where
  "emmalloc_unclaimed_heap_memory heap_max resize s = heap_max - fst (sbrk64 resize 0 s)"


section \<open>Correctness\<close>

text \<open>A walk over a well-formed list visits its members in order and ends at the head.\<close>

lemma for_free_list_chain:
  assumes "chain m u xs h" "h \<notin> set xs"
  shows "for_free_list m f h (next_of m u) acc = Some (fold f xs acc)"
  using assms by (induction xs arbitrary: u acc) (auto simp: for_free_list.simps)

lemma fold_empty_lists:
  "(\<And>j. j \<in> set js \<Longrightarrow> fl j = []) \<Longrightarrow> fold (\<lambda>j. fold f (fl j)) js acc = acc"
  by (induction js) auto

lemma for_populated_buckets_eq:
  assumes fl: "free_lists s fl"
  shows "i \<le> 64 \<Longrightarrow> for_populated_buckets s f i (drop_bit i (freeRegionBucketsUsed s)) acc
    = Some (fold (\<lambda>j. fold f (fl j)) [i..<64] acc)"
proof (induction "64 - i" arbitrary: i acc rule: less_induct)
  case less
  define u where "u = freeRegionBucketsUsed s"
  have used: "bit u j" if "j < 64" "fl j \<noteq> []" for j
    using fl that by (simp add: free_lists_def u_def)
  show ?case
  proof (cases "drop_bit i u = 0")
    case True
    have "fl j = []" if "j \<in> set [i..<64]" for j
    proof (rule ccontr)
      assume "fl j \<noteq> []"
      with that used have "bit u (i + (j - i))" by simp
      then have "bit (drop_bit i u) (j - i)" by (simp add: bit_drop_bit_eq)
      with True show False by simp
    qed
    then show ?thesis using True fold_empty_lists [of "[i..<64]" fl f acc]
      by (simp add: for_populated_buckets.simps u_def)
  next
    case False
    define c where "c = ctz (drop_bit i u)"
    have bit: "bit u (i + c)" using bit_ctz [OF False] by (simp add: c_def bit_drop_bit_eq)
    then have c: "i + c < 64" using bit_imp_le_length by fastforce
    have below: "fl j = []" if "j \<in> set [i..<i + c]" for j
    proof (rule ccontr)
      assume "fl j \<noteq> []"
      with that used c have "bit u (i + (j - i))" by simp
      then have "bit (drop_bit i u) (j - i)" by (simp add: bit_drop_bit_eq)
      moreover have "j - i < c" using that by auto
      ultimately show False using not_bit_below_ctz c_def by blast
    qed
    have "[i..<64] = [i..<i + c] @ (i + c) # [i + c + 1..<64]"
    proof -
      have "[i..<64] = [i..<i + c] @ [i + c..<64]"
        using upt_add_eq_append [of i "i + c" "64 - (i + c)"] c by simp
      then show ?thesis using c upt_conv_Cons [of "i + c" 64] by simp
    qed
    then have split: "fold (\<lambda>j. fold f (fl j)) [i..<64] acc
        = fold (\<lambda>j. fold f (fl j)) [i + c + 1..<64] (fold f (fl (i + c)) acc)"
      using fold_empty_lists [of "[i..<i + c]" fl f acc, OF below] by simp
    have ring: "ring (mem s) (bucket_head s (i + c)) (fl (i + c))" "bucket_head s (i + c) \<notin> set (fl (i + c))"
      using fl c by (auto simp: free_lists_def nodes_def)
    have "drop_bit 1 (drop_bit c (drop_bit i u)) = drop_bit (i + c + 1) u"
      by (simp add: ac_simps)
    moreover have "for_populated_buckets s f (i + c + 1) (drop_bit (i + c + 1) u) (fold f (fl (i + c)) acc)
        = Some (fold (\<lambda>j. fold f (fl j)) [i + c + 1..<64] (fold f (fl (i + c)) acc))"
      unfolding u_def by (rule less) (use c in auto)
    ultimately show ?thesis
      unfolding for_populated_buckets.simps [of s f i] u_def [symmetric] c_def [symmetric] Let_def
      using False split for_free_list_chain [OF ring, of f acc] by (simp only: if_False option.case)
  qed
qed

lemma fold_lists_concat: "fold (\<lambda>j. fold f (fl j)) js acc = fold f (concat (map fl js)) acc"
  by (induction js arbitrary: acc) auto

lemma fold_add_sum: "fold (\<lambda>x n. n + g x) xs a = a + sum_list (map g xs)" for a :: "'a :: comm_monoid_add"
  by (induction xs arbitrary: a) (auto simp: ac_simps)

lemma free_dynamic_memory_correct':
  assumes "free_lists s fl"
  shows "emmalloc_free_dynamic_memory s =
    Some (\<Sum>r\<leftarrow>concat (map fl [0..<64]). size_of (mem s) r - REGION_HEADER_SIZE)"
  using for_populated_buckets_eq [OF assms, where i = 0 and acc = "0 :: u32"]
  by (simp add: emmalloc_free_dynamic_memory_def fold_lists_concat fold_add_sum)

text \<open>The concrete heap after its 64-byte region was freed: that region alone is listed.\<close>

lemma demo_freed_lists:
  obtains fl where "free_lists (emmalloc_free 65556 demo_heap) fl"
    "fl 6 = [65552]" "\<And>i. i < 64 \<Longrightarrow> i \<noteq> 6 \<Longrightarrow> fl i = []"
    "size_of (mem (emmalloc_free 65556 demo_heap)) 65552 = 64"
proof -
  let ?s = "emmalloc_free 65556 demo_heap" and ?R = "demo_regions(65552 \<mapsto> (64, True))"
  from demo_freed obtain fl where inv: "heap_inv ?s ?R fl" and lk: "linked fl = {r. \<exists>n. ?R r = Some (n, True)}"
    by (auto simp: heap_ok_def)
  have one: "linked fl = {65552}" unfolding lk by (auto simp: demo_regions_def split: if_splits)
  have cls: "i = 6" if "i < 64" "65552 \<in> set (fl i)" for i
  proof -
    have "i = unat (compute_free_list_bucket (64 - 8))"
      using heap_invD(2) [OF inv that(1) that(2)] by auto
    also have "\<dots> = 6" by (simp add: compute_free_list_bucket_def)
    finally show ?thesis .
  qed
  have sub: "set (fl i) \<subseteq> {65552}" if "i < 64" for i using one that by (auto simp: linked_def)
  have other: "fl i = []" if "i < 64" "i \<noteq> 6" for i
    using sub [OF that(1)] cls [of i] that by (cases "fl i") auto
  have "65552 \<in> linked fl" using one by simp
  then obtain i where "i < 64" "65552 \<in> set (fl i)" by (auto simp: linked_def)
  then have m: "65552 \<in> set (fl 6)" using cls by auto
  have fl: "free_lists ?s fl" using inv by (simp add: heap_inv_def)
  then have "distinct (nodes ?s fl 6)" by (simp add: free_lists_def)
  then have d: "distinct (fl 6)" by (simp add: nodes_def)
  have "fl 6 = [65552]"
  proof (cases "fl 6")
    case (Cons a xs)
    then have "a = 65552" "set xs \<subseteq> {65552}" "a \<notin> set xs" using sub [of 6] d by auto
    then show ?thesis using Cons by (cases xs) auto
  qed (use m in simp)
  moreover have "size_of (mem ?s) 65552 = 64"
    using heap_mem(1) [OF inv, of 65552 64 True] by (simp add: size_of_def)
  ultimately show thesis using that fl other by blast
qed

text \<open>
  The free memory counter returns on every heap with well-formed free lists, and it
  is the sum of the payloads of all listed regions, although it visits only the buckets whose
  bit is set in \<open>freeRegionBucketsUsed\<close> (a stale bit costs a visit of an empty list).
\<close>

theorem free_dynamic_memory_correct:
  assumes "free_lists s fl"
  shows "emmalloc_free_dynamic_memory s =
    Some (\<Sum>r\<leftarrow>concat (map fl [0..<64]). size_of (mem s) r - REGION_HEADER_SIZE)"
  using assms by (rule free_dynamic_memory_correct')

theorem free_dynamic_memory_correct_witness:
  "emmalloc_free_dynamic_memory (emmalloc_free 65556 demo_heap) = Some 56"
proof -
  obtain fl where fl: "free_lists (emmalloc_free 65556 demo_heap) fl" "fl 6 = [65552]"
    "\<And>i. i < 64 \<Longrightarrow> i \<noteq> 6 \<Longrightarrow> fl i = []" "size_of (mem (emmalloc_free 65556 demo_heap)) 65552 = 64"
    by (rule demo_freed_lists) blast
  have "map fl [0..<64] = map ((\<lambda>_. [])(6 := [65552])) [0..<64]"
    using fl(2,3) by (intro map_cong refl) auto
  also have "concat \<dots> = [65552]" by (simp add: upt_rec)
  finally have "concat (map fl [0..<64]) = [65552]" .
  then show ?thesis using free_dynamic_memory_correct [OF fl(1)] fl(4) by simp
qed

lemma count_linked_list_size_saturates':
  assumes "free_lists s fl" "i < 64"
  shows "count_linked_list_size (mem s) (bucket_head s i) = Some (if fl i = [] then 1 else 2)"
proof -
  have "ring (mem s) (bucket_head s i) (fl i)" "bucket_head s i \<notin> set (fl i)"
    using assms by (auto simp: free_lists_def nodes_def)
  then show ?thesis
    by (cases "fl i") (auto simp: count_linked_list_size_def count_size_loop.simps)
qed

text \<open>
  What the loop of \<open>count_linked_list_size\<close>, which advances \<open>list\<close>, computes: 2 for every
  non-empty free list, however long, so \<open>mallinfo\<close> counts one block for it.
\<close>

theorem count_linked_list_size_saturates:
  assumes "free_lists s fl" "i < 64"
  shows "count_linked_list_size (mem s) (bucket_head s i) = Some (if fl i = [] then 1 else 2)"
  using assms by (rule count_linked_list_size_saturates')

theorem count_linked_list_size_saturates_witness:
  "count_linked_list_size (mem (emmalloc_free 65556 demo_heap)) (bucket_head (emmalloc_free 65556 demo_heap) 6) = Some 2"
proof -
  obtain fl where fl: "free_lists (emmalloc_free 65556 demo_heap) fl" "fl 6 = [65552]"
    by (rule demo_freed_lists) blast
  show ?thesis using count_linked_list_size_saturates [OF fl(1), of 6] fl(2) by simp
qed

end
