(* ===== verification/Task_Queue.thy ===== *)
theory Task_Queue
  imports Prelude
begin

text \<open>
  Task queues: \<open>system/lib/pthread/em_task_queue.c\<close>. The ring buffer and its operations, the
  FIFO interface they implement, execution and cancellation, the zombie list that defers the
  freeing of queues, and the notification protocol between senders and the receiving thread.
  Code that holds a mutex is one atomic step.
\<close>

section \<open>The ring buffer\<close>

datatype notification_state = NOTIFICATION_NONE | NOTIFICATION_RECEIVED | NOTIFICATION_PENDING

text \<open>Functions are indices into the wasm table; 0 is the null pointer.\<close>

record em_task =
  func :: u32
  cancel :: u32
  arg :: u32

text \<open>A cell of the buffer that has not been written since \<open>malloc\<close> is \<^const>\<open>None\<close>.\<close>

record em_task_queue =
  notification :: notification_state
  thread :: u32
  processing :: bool
  tasks :: "em_task option list"
  capacity :: nat
  head :: nat
  tail :: nat
  zombie_prev :: u32
  zombie_next :: u32

definition EM_TASK_QUEUE_INITIAL_CAPACITY :: nat where
  "EM_TASK_QUEUE_INITIAL_CAPACITY = 128"

definition em_task_queue_is_empty :: "em_task_queue \<Rightarrow> bool" where
  "em_task_queue_is_empty q \<longleftrightarrow> head q = tail q"

definition em_task_queue_is_full :: "em_task_queue \<Rightarrow> bool" where
  "em_task_queue_is_full q \<longleftrightarrow> head q = (tail q + 1) mod capacity q"

text \<open>\<open>mem_ok\<close>: whether \<open>malloc\<close> provides the larger buffer.\<close>

definition em_task_queue_grow :: "bool \<Rightarrow> em_task_queue \<Rightarrow> bool \<times> em_task_queue" where
  "em_task_queue_grow mem_ok q =
     (let new_capacity = capacity q * 2
      in if \<not> mem_ok then (False, q)
         else
           let copied =
                 (if head q \<le> tail q
                  then take (tail q - head q) (drop (head q) (tasks q))
                  else take (capacity q - head q) (drop (head q) (tasks q)) @ take (tail q) (tasks q));
               queued_tasks =
                 (if head q \<le> tail q then tail q - head q else capacity q - head q + tail q)
           in (True, q\<lparr>tasks := copied @ replicate (new_capacity - length copied) None,
                       capacity := new_capacity, head := 0, tail := queued_tasks\<rparr>))"

definition em_task_queue_enqueue :: "bool \<Rightarrow> em_task_queue \<Rightarrow> em_task \<Rightarrow> bool \<times> em_task_queue" where
  "em_task_queue_enqueue mem_ok q t =
     (let (ok, q1) = (if em_task_queue_is_full q then em_task_queue_grow mem_ok q else (True, q))
      in if \<not> ok then (False, q1)
         else (True, q1\<lparr>tasks := (tasks q1)[tail q1 := Some t],
                        tail := (tail q1 + 1) mod capacity q1\<rparr>))"

definition em_task_queue_dequeue :: "em_task_queue \<Rightarrow> em_task option \<times> em_task_queue" where
  "em_task_queue_dequeue q = (tasks q ! head q, q\<lparr>head := (head q + 1) mod capacity q\<rparr>)"

section \<open>The FIFO interface\<close>

text \<open>
  What every client relies on: \<open>contents\<close> reads a queue as a list, \<open>enq\<close> may fail but then
  keeps the contents, and \<open>deq\<close> takes the oldest element.
\<close>

locale fifo =
  fixes contents :: "'q \<Rightarrow> 't list"
    and inv :: "'q \<Rightarrow> bool"
    and enq :: "bool \<Rightarrow> 'q \<Rightarrow> 't \<Rightarrow> bool \<times> 'q"
    and deq :: "'q \<Rightarrow> 't option \<times> 'q"
    and is_empty :: "'q \<Rightarrow> bool"
  assumes empty_iff: "inv q \<Longrightarrow> is_empty q \<longleftrightarrow> contents q = []"
    and enq_ok: "inv q \<Longrightarrow> enq ok q t = (True, q') \<Longrightarrow> inv q' \<and> contents q' = contents q @ [t]"
    and enq_fail: "inv q \<Longrightarrow> enq ok q t = (False, q') \<Longrightarrow> q' = q"
    and enq_memory: "inv q \<Longrightarrow> fst (enq True q t)"
    and deq_hd: "inv q \<Longrightarrow> contents q = t # ts \<Longrightarrow>
      \<exists>q'. deq q = (Some t, q') \<and> inv q' \<and> contents q' = ts"
begin

text \<open>The loop that takes tasks until it sees an empty queue; \<open>n\<close> bounds its turns.\<close>

fun drain :: "nat \<Rightarrow> 'q \<Rightarrow> 't list \<times> 'q" where
  "drain 0 q = ([], q)"
| "drain (Suc n) q =
     (if is_empty q then ([], q)
      else case deq q of
             (None, q') \<Rightarrow> ([], q')
           | (Some t, q') \<Rightarrow> (let (ts, q'') = drain n q' in (t # ts, q'')))"

lemma drain_contents:
  "inv q \<Longrightarrow> length (contents q) \<le> n \<Longrightarrow>
     fst (drain n q) = contents q \<and> inv (snd (drain n q)) \<and> contents (snd (drain n q)) = []"
proof (induction n arbitrary: q)
  case 0
  then show ?case by simp
next
  case (Suc n)
  show ?case
  proof (cases "contents q")
    case Nil
    with Suc.prems show ?thesis by (simp add: empty_iff)
  next
    case (Cons t ts)
    with Suc.prems(1) obtain q' where q': "deq q = (Some t, q')" "inv q'" "contents q' = ts"
      using deq_hd by blast
    with Suc.IH [of q'] Suc.prems Cons show ?thesis
      by (simp add: empty_iff split_beta)
  qed
qed

text \<open>Enqueueing a list of tasks, as long as memory can be had.\<close>

primrec enq_all :: "'q \<Rightarrow> 't list \<Rightarrow> 'q" where
  "enq_all q [] = q"
| "enq_all q (t # ts) = enq_all (snd (enq True q t)) ts"

lemma enq_all_contents: "inv q \<Longrightarrow> inv (enq_all q ts) \<and> contents (enq_all q ts) = contents q @ ts"
proof (induction ts arbitrary: q)
  case Nil
  then show ?case by simp
next
  case (Cons t ts)
  obtain q' where "enq True q t = (True, q')"
    using enq_memory [OF Cons.prems, of t] by (cases "enq True q t") auto
  with Cons enq_ok [OF Cons.prems, of True t q'] show ?case by simp
qed

lemma drain_enq_all:
  assumes "inv q" and "length (contents q) + length ts \<le> n"
  shows "fst (drain n (enq_all q ts)) = contents q @ ts"
proof -
  have "inv (enq_all q ts)" "contents (enq_all q ts) = contents q @ ts"
    using enq_all_contents [OF assms(1)] by auto
  with drain_contents [of "enq_all q ts" n] assms(2) show ?thesis by simp
qed

end

section \<open>The ring buffer implements the interface\<close>

definition queue_inv :: "em_task_queue \<Rightarrow> bool" where
  "queue_inv q \<longleftrightarrow> 1 < capacity q \<and> length (tasks q) = capacity q \<and> head q < capacity q \<and> tail q < capacity q \<and>
     None \<notin> set (if head q \<le> tail q then take (tail q - head q) (drop (head q) (tasks q))
                  else drop (head q) (tasks q) @ take (tail q) (tasks q))"

text \<open>The occupied cells, oldest first.\<close>

definition occupied :: "em_task_queue \<Rightarrow> em_task option list" where
  "occupied q =
     (if head q \<le> tail q then take (tail q - head q) (drop (head q) (tasks q))
      else drop (head q) (tasks q) @ take (tail q) (tasks q))"

definition queue_contents :: "em_task_queue \<Rightarrow> em_task list" where
  "queue_contents q = map the (occupied q)"

lemma queue_inv_alt:
  "queue_inv q \<longleftrightarrow> 1 < capacity q \<and> length (tasks q) = capacity q \<and> head q < capacity q \<and>
     tail q < capacity q \<and> None \<notin> set (occupied q)"
  by (simp add: queue_inv_def occupied_def)

lemma length_occupied:
  "queue_inv q \<Longrightarrow> length (occupied q) =
     (if head q \<le> tail q then tail q - head q else capacity q - head q + tail q)"
  by (auto simp: queue_inv_def occupied_def)

lemma Suc_mod: "k < n \<Longrightarrow> Suc k mod n = (if Suc k = n then 0 else Suc k)"
  by simp

lemma full_iff: "queue_inv q \<Longrightarrow> em_task_queue_is_full q \<longleftrightarrow> length (occupied q) = capacity q - 1"
  using Suc_mod [of "tail q" "capacity q"]
  by (auto simp: em_task_queue_is_full_def length_occupied queue_inv_def split: if_splits)

lemma grow_keeps:
  assumes "queue_inv q"
  shows "queue_inv (snd (em_task_queue_grow True q))"
    "occupied (snd (em_task_queue_grow True q)) = occupied q"
    "\<not> em_task_queue_is_full (snd (em_task_queue_grow True q))"
proof -
  define q' where "q' = snd (em_task_queue_grow True q)"
  have len: "length (occupied q) < capacity q" using assms length_occupied [OF assms]
    by (auto simp: queue_inv_def)
  have copied: "(if head q \<le> tail q
      then take (tail q - head q) (drop (head q) (tasks q))
      else take (capacity q - head q) (drop (head q) (tasks q)) @ take (tail q) (tasks q)) = occupied q"
    using assms by (simp add: occupied_def queue_inv_def)
  have q': "q' = q\<lparr>tasks := occupied q @ replicate (capacity q * 2 - length (occupied q)) None,
      capacity := capacity q * 2, head := 0, tail := length (occupied q)\<rparr>"
    unfolding q'_def em_task_queue_grow_def Let_def copied
    using length_occupied [OF assms] by simp
  have occ: "occupied q' = occupied q" by (simp add: q' occupied_def [of "em_task_queue.extend _ _"] occupied_def)
  then show "occupied (snd (em_task_queue_grow True q)) = occupied q" by (simp add: q'_def)
  have inv': "queue_inv q'" unfolding queue_inv_alt occ
    using assms len by (simp add: q' queue_inv_alt)
  then show "queue_inv (snd (em_task_queue_grow True q))" by (simp add: q'_def)
  show "\<not> em_task_queue_is_full (snd (em_task_queue_grow True q))"
    using full_iff [OF inv'] occ len assms by (simp add: q'_def [symmetric]) (simp add: q' queue_inv_def)
qed


lemma enqueue_not_full:
  assumes inv: "queue_inv q" and space: "\<not> em_task_queue_is_full q"
  shows "queue_inv (q\<lparr>tasks := (tasks q)[tail q := Some t], tail := (tail q + 1) mod capacity q\<rparr>)"
    "occupied (q\<lparr>tasks := (tasks q)[tail q := Some t], tail := (tail q + 1) mod capacity q\<rparr>)
       = occupied q @ [Some t]"
proof -
  let ?q = "q\<lparr>tasks := (tasks q)[tail q := Some t], tail := (tail q + 1) mod capacity q\<rparr>"
  have b: "head q < capacity q" "tail q < capacity q" "length (tasks q) = capacity q" "1 < capacity q"
    using inv by (simp_all add: queue_inv_def)
  have nf: "head q \<noteq> Suc (tail q) mod capacity q" using space by (simp add: em_task_queue_is_full_def)
  show occ: "occupied ?q = occupied q @ [Some t]"
  proof (cases "head q \<le> tail q")
    case le: True
    show ?thesis
    proof (cases "Suc (tail q) = capacity q")
      case True
      then have "head q \<noteq> 0" using nf by simp
      moreover have "(tasks q)[tail q := Some t] = take (tail q) (tasks q) @ [Some t]"
        using b True by (simp add: upd_conv_take_nth_drop)
      ultimately show ?thesis using le b True
        by (simp add: occupied_def drop_take)
    next
      case False
      then have "Suc (tail q) mod capacity q = Suc (tail q)" using b by simp
      then show ?thesis using le b
        by (simp add: occupied_def Suc_diff_le take_Suc_conv_app_nth drop_update_swap take_update_swap
              list_update_append)
    qed
  next
    case gt: False
    then have "Suc (tail q) < capacity q" using b by linarith
    then have t1: "Suc (tail q) mod capacity q = Suc (tail q)" by (rule mod_less)
    then have "Suc (tail q) < head q" using gt nf by simp
    note t = t1 this
    then show ?thesis using gt b
      by (simp add: occupied_def take_Suc_conv_app_nth take_update_swap list_update_append)
  qed
  show "queue_inv ?q"
    unfolding queue_inv_alt occ using inv b by (simp add: queue_inv_alt)
qed

lemma queue_enqueue_ok:
  assumes inv: "queue_inv q" and run: "em_task_queue_enqueue ok q t = (True, q')"
  shows "queue_inv q' \<and> queue_contents q' = queue_contents q @ [t]"
proof (cases "em_task_queue_is_full q")
  case False
  then show ?thesis
    using run enqueue_not_full [OF inv False, of t]
    by (auto simp: em_task_queue_enqueue_def queue_contents_def)
next
  case True
  with run have "ok" by (cases ok) (auto simp: em_task_queue_enqueue_def em_task_queue_grow_def)
  obtain q1 where q1: "em_task_queue_grow True q = (True, q1)"
    by (auto simp: em_task_queue_grow_def Let_def)
  then show ?thesis
    using run True \<open>ok\<close> grow_keeps [OF inv] enqueue_not_full [of q1 t]
    by (auto simp: em_task_queue_enqueue_def queue_contents_def)
qed

lemma queue_enqueue_fail:
  "em_task_queue_enqueue ok q t = (False, q') \<Longrightarrow> q' = q"
  by (auto simp: em_task_queue_enqueue_def em_task_queue_grow_def Let_def split: if_splits)

lemma queue_enqueue_memory: "fst (em_task_queue_enqueue True q t)"
  by (auto simp: em_task_queue_enqueue_def em_task_queue_grow_def Let_def)

lemma queue_dequeue:
  assumes inv: "queue_inv q" and c: "queue_contents q = t # ts"
  shows "\<exists>q'. em_task_queue_dequeue q = (Some t, q') \<and> queue_inv q' \<and> queue_contents q' = ts"
proof -
  let ?q = "q\<lparr>head := (head q + 1) mod capacity q\<rparr>"
  have b: "head q < capacity q" "tail q < capacity q" "length (tasks q) = capacity q" "1 < capacity q"
    using inv by (simp_all add: queue_inv_def)
  from c have ne: "occupied q \<noteq> []" by (auto simp: queue_contents_def)
  then have ht: "head q \<noteq> tail q" by (auto simp: occupied_def)
  have occ: "occupied q = tasks q ! head q # occupied ?q"
  proof (cases "head q \<le> tail q")
    case True
    then have "Suc (head q) mod capacity q = Suc (head q)" "head q < tail q" using b ht by auto
    then show ?thesis using b True
      by (simp add: occupied_def Cons_nth_drop_Suc [symmetric] Suc_diff_Suc [symmetric])
  next
    case gt: False
    show ?thesis
    proof (cases "Suc (head q) = capacity q")
      case True
      then show ?thesis using b gt
        by (simp add: occupied_def Cons_nth_drop_Suc [symmetric])
    next
      case False
      then have "Suc (head q) mod capacity q = Suc (head q)" using b by simp
      then show ?thesis using b gt by (simp add: occupied_def Cons_nth_drop_Suc [symmetric])
    qed
  qed
  have "tasks q ! head q \<noteq> None"
  proof
    assume "tasks q ! head q = None"
    then have "None \<in> set (occupied q)" using occ by (metis list.set_intros(1))
    then show False using inv by (simp add: queue_inv_alt)
  qed
  then have "tasks q ! head q = Some t" "queue_contents ?q = ts"
    using c occ by (auto simp: queue_contents_def)
  moreover have "queue_inv ?q"
  proof -
    have "set (occupied ?q) \<subseteq> set (occupied q)" using occ by (metis set_subset_Cons)
    then show ?thesis using inv b by (auto simp: queue_inv_alt)
  qed
  ultimately show ?thesis by (auto simp: em_task_queue_dequeue_def)
qed

lemma queue_empty: "queue_inv q \<Longrightarrow> em_task_queue_is_empty q \<longleftrightarrow> queue_contents q = []"
  using length_occupied [of q]
  by (auto simp: em_task_queue_is_empty_def queue_contents_def queue_inv_def occupied_def split: if_splits)

interpretation tq: fifo queue_contents queue_inv em_task_queue_enqueue em_task_queue_dequeue em_task_queue_is_empty
  by unfold_locales
     (auto simp: queue_empty queue_enqueue_memory dest: queue_enqueue_ok queue_enqueue_fail queue_dequeue)


section \<open>Execution and cancellation\<close>

text \<open>
  \<open>call f a (q, w)\<close> is the effect of running the wasm function \<open>f\<close> on \<open>a\<close> while the queue is
  unlocked: on the queue itself (the task, or another thread meanwhile, may enqueue) and on
  the rest of the world. A call of an unwritten cell traps, which is \<^const>\<open>None\<close>, as is a queue
  that is refilled forever.
\<close>

type_synonym 'w task_call = "u32 \<Rightarrow> u32 \<Rightarrow> em_task_queue \<times> 'w \<Rightarrow> em_task_queue \<times> 'w"

partial_function (option) execute_loop ::
  "'w task_call \<Rightarrow> em_task_queue \<Rightarrow> 'w \<Rightarrow> (em_task_queue \<times> 'w) option" where
  "execute_loop call q w =
     (if em_task_queue_is_empty q then Some (q, w)
      else case em_task_queue_dequeue q of
             (None, q1) \<Rightarrow> None
           | (Some t, q1) \<Rightarrow>
               (case call (func t) (arg t) (q1, w) of (q2, w2) \<Rightarrow> execute_loop call q2 w2))"

definition em_task_queue_execute ::
  "'w task_call \<Rightarrow> em_task_queue \<Rightarrow> 'w \<Rightarrow> (em_task_queue \<times> 'w) option" where
  "em_task_queue_execute call q w =
     (case execute_loop call (q\<lparr>processing := True\<rparr>) w of
        None \<Rightarrow> None
      | Some (q', w') \<Rightarrow> Some (q'\<lparr>processing := False\<rparr>, w'))"

partial_function (option) cancel_loop ::
  "(u32 \<Rightarrow> u32 \<Rightarrow> 'w \<Rightarrow> 'w) \<Rightarrow> em_task_queue \<Rightarrow> 'w \<Rightarrow> (em_task_queue \<times> 'w) option" where
  "cancel_loop call q w =
     (if em_task_queue_is_empty q then Some (q, w)
      else case em_task_queue_dequeue q of
             (None, q1) \<Rightarrow> None
           | (Some t, q1) \<Rightarrow>
               cancel_loop call q1 (if cancel t \<noteq> 0 then call (cancel t) (arg t) w else w))"

definition em_task_queue_cancel ::
  "(u32 \<Rightarrow> u32 \<Rightarrow> 'w \<Rightarrow> 'w) \<Rightarrow> em_task_queue \<Rightarrow> 'w \<Rightarrow> (em_task_queue \<times> 'w) option" where
  "em_task_queue_cancel call q w =
     (case cancel_loop call q w of
        None \<Rightarrow> None
      | Some (q', w') \<Rightarrow> Some (q'\<lparr>notification := NOTIFICATION_NONE\<rparr>, w'))"

lemma queue_inv_processing [simp]:
  "queue_inv (q\<lparr>processing := b\<rparr>) = queue_inv q" "queue_contents (q\<lparr>processing := b\<rparr>) = queue_contents q"
  "queue_inv (q\<lparr>notification := n\<rparr>) = queue_inv q" "queue_contents (q\<lparr>notification := n\<rparr>) = queue_contents q"
  by (simp_all add: queue_inv_def queue_contents_def occupied_def)

lemma execute_loop_all:
  assumes quiet: "\<And>f a q w. call f a (q, w) = (q, g f a w)"
  shows "queue_inv q \<Longrightarrow> \<exists>q'. execute_loop call q w
      = Some (q', fold (\<lambda>t. g (func t) (arg t)) (queue_contents q) w)
    \<and> queue_inv q' \<and> queue_contents q' = [] \<and> notification q' = notification q"
proof (induction "queue_contents q" arbitrary: q w)
  case Nil
  then show ?case using queue_empty [of q] by (auto simp: execute_loop.simps)
next
  case (Cons t ts)
  obtain q1 where q1: "em_task_queue_dequeue q = (Some t, q1)" "queue_inv q1" "queue_contents q1 = ts"
    using queue_dequeue [OF Cons.prems Cons.hyps(2) [symmetric]] by blast
  have n: "notification q1 = notification q" using q1(1) by (auto simp: em_task_queue_dequeue_def)
  have "\<not> em_task_queue_is_empty q" using queue_empty [OF Cons.prems] Cons.hyps(2) by auto
  then show ?case
    using Cons.hyps(1) [OF q1(3) [symmetric] q1(2), of "g (func t) (arg t) w"] q1 n
    by (subst execute_loop.simps) (simp add: quiet Cons.hyps(2) [symmetric])
qed

lemma cancel_loop_all:
  "queue_inv q \<Longrightarrow> \<exists>q'. cancel_loop call q w
      = Some (q', fold (\<lambda>t w. if cancel t \<noteq> 0 then call (cancel t) (arg t) w else w) (queue_contents q) w)
    \<and> queue_inv q' \<and> queue_contents q' = []"
proof (induction "queue_contents q" arbitrary: q w)
  case Nil
  then show ?case using queue_empty [of q] by (auto simp: cancel_loop.simps)
next
  case (Cons t ts)
  obtain q1 where q1: "em_task_queue_dequeue q = (Some t, q1)" "queue_inv q1" "queue_contents q1 = ts"
    using queue_dequeue [OF Cons.prems Cons.hyps(2) [symmetric]] by blast
  have "\<not> em_task_queue_is_empty q" using queue_empty [OF Cons.prems] Cons.hyps(2) by auto
  then show ?case
    using Cons.hyps(1) [OF q1(3) [symmetric] q1(2)] q1
    by (subst cancel_loop.simps) (simp add: Cons.hyps(2) [symmetric])
qed

section \<open>Creation, destruction and the zombie list\<close>

text \<open>
  The queues in memory. The address of the list head, a queue object of its own, is
  \<open>zombie_list_head\<close>; \<open>live\<close> holds the addresses that \<open>malloc\<close> has given and \<open>free\<close> not taken back.
\<close>

record queue_store =
  queue_at :: "u32 \<Rightarrow> em_task_queue"
  live :: "u32 set"
  zombie_list_head :: u32
  zombie_locked :: bool

definition upd_queue :: "u32 \<Rightarrow> (em_task_queue \<Rightarrow> em_task_queue) \<Rightarrow> queue_store \<Rightarrow> queue_store" where
  "upd_queue a f s = s\<lparr>queue_at := (queue_at s)(a := f (queue_at s a))\<rparr>"

definition em_task_queue_free :: "u32 \<Rightarrow> queue_store \<Rightarrow> queue_store" where
  "em_task_queue_free a s = s\<lparr>live := live s - {a}\<rparr>"

partial_function (option) cull_loop :: "u32 \<Rightarrow> queue_store \<Rightarrow> queue_store option" where
  "cull_loop cur s =
     (if cur = zombie_list_head s then Some s
      else
        let nxt = zombie_next (queue_at s cur)
        in if notification (queue_at s cur) = NOTIFICATION_NONE
           then
             let s1 = upd_queue (zombie_prev (queue_at s cur))
                        (zombie_next_update (\<lambda>_. zombie_next (queue_at s cur))) s;
                 s2 = upd_queue (zombie_next (queue_at s1 cur))
                        (zombie_prev_update (\<lambda>_. zombie_prev (queue_at s1 cur))) s1
             in cull_loop nxt (em_task_queue_free cur s2)
           else cull_loop nxt s)"

definition cull_zombies :: "queue_store \<Rightarrow> queue_store option" where
  "cull_zombies s =
     (if zombie_locked s then Some s
      else cull_loop (zombie_next (queue_at s (zombie_list_head s))) s)"

text \<open>\<open>queue_mem\<close> and \<open>tasks_ok\<close> are what the two calls of \<open>malloc\<close> return; 0 is \<open>NULL\<close>.\<close>

definition em_task_queue_create :: "u32 \<Rightarrow> bool \<Rightarrow> u32 \<Rightarrow> queue_store \<Rightarrow> (u32 \<times> queue_store) option" where
  "em_task_queue_create queue_mem tasks_ok thr s =
     (case cull_zombies s of
        None \<Rightarrow> None
      | Some s1 \<Rightarrow>
          if queue_mem = 0 then Some (0, s1)
          else if \<not> tasks_ok then Some (0, s1)
          else Some (queue_mem,
            s1\<lparr>live := insert queue_mem (live s1),
               queue_at := (queue_at s1)(queue_mem :=
                 \<lparr>notification = NOTIFICATION_NONE, thread = thr, processing = False,
                  tasks = replicate EM_TASK_QUEUE_INITIAL_CAPACITY None,
                  capacity = EM_TASK_QUEUE_INITIAL_CAPACITY, head = 0, tail = 0,
                  zombie_prev = 0, zombie_next = 0\<rparr>)\<rparr>))"

definition em_task_queue_destroy :: "u32 \<Rightarrow> queue_store \<Rightarrow> queue_store" where
  "em_task_queue_destroy q s =
     (if notification (queue_at s q) = NOTIFICATION_NONE then em_task_queue_free q s
      else
        let zh = zombie_list_head s;
            s1 = upd_queue q (zombie_next_update (\<lambda>_. zh)) s;
            s2 = upd_queue q (zombie_prev_update (\<lambda>_. zombie_prev (queue_at s1 zh))) s1;
            s3 = upd_queue (zombie_next (queue_at s2 q)) (zombie_prev_update (\<lambda>_. q)) s2
        in upd_queue (zombie_prev (queue_at s3 q)) (zombie_next_update (\<lambda>_. q)) s3)"

fun zchain :: "(u32 \<Rightarrow> em_task_queue) \<Rightarrow> u32 \<Rightarrow> u32 list \<Rightarrow> u32 \<Rightarrow> bool" where
  "zchain q u [] w \<longleftrightarrow> zombie_next (q u) = w \<and> zombie_prev (q w) = u"
| "zchain q u (v # vs) w \<longleftrightarrow> zombie_next (q u) = v \<and> zombie_prev (q v) = u \<and> zchain q v vs w"

definition zombies :: "queue_store \<Rightarrow> u32 list \<Rightarrow> bool" where
  "zombies s zs \<longleftrightarrow> zchain (queue_at s) (zombie_list_head s) zs (zombie_list_head s) \<and>
     distinct (zombie_list_head s # zs)"

lemma zchain_append: "zchain q u (xs @ v # ys) w \<longleftrightarrow> zchain q u xs v \<and> zchain q v ys w"
  by (induction xs arbitrary: u) auto

lemma zchain_cong:
  assumes "\<And>a. a \<in> set (u # xs) \<Longrightarrow> zombie_next (q' a) = zombie_next (q a)"
    and "\<And>a. a \<in> set (xs @ [w]) \<Longrightarrow> zombie_prev (q' a) = zombie_prev (q a)"
  shows "zchain q' u xs w = zchain q u xs w"
  using assms by (induction xs arbitrary: u) auto

lemma zchain_last: "zchain q u xs w \<Longrightarrow> zombie_prev (q w) = last (u # xs)"
  by (induction xs arbitrary: u) auto

lemma zchain_hd: "zchain q u xs w \<Longrightarrow> zombie_next (q u) = hd (xs @ [w])"
  by (cases xs) auto

text \<open>Joining the neighbours of a node takes it out of the chain.\<close>

lemma zchain_join:
  assumes ch: "zchain q u (xs @ x # ys) w" and d: "distinct (u # xs @ x # ys)" "distinct (xs @ x # ys @ [w])"
    and nxt: "\<And>a. zombie_next (q' a) = (if a = zombie_prev (q x) then zombie_next (q x) else zombie_next (q a))"
    and prv: "\<And>a. zombie_prev (q' a) = (if a = zombie_next (q x) then zombie_prev (q x) else zombie_prev (q a))"
  shows "zchain q' u (xs @ ys) w"
proof -
  have left: "zchain q u xs x" and right: "zchain q x ys w" using ch by (simp_all add: zchain_append)
  have p: "zombie_prev (q x) = last (u # xs)" and n: "zombie_next (q x) = hd (ys @ [w])"
    using zchain_last [OF left] zchain_hd [OF right] by auto
  have left': "zchain q' u xs (hd (ys @ [w])) \<and> True"
  proof (cases xs rule: rev_cases)
    case Nil
    then show ?thesis using p n nxt prv by simp
  next
    case (snoc zs z)
    have "zchain q' u zs z = zchain q u zs z"
    proof (rule zchain_cong)
      show "zombie_next (q' a) = zombie_next (q a)" if "a \<in> set (u # zs)" for a
        using that d snoc p nxt by auto
      show "zombie_prev (q' a) = zombie_prev (q a)" if "a \<in> set (zs @ [z])" for a
      proof -
        have "hd (ys @ [w]) \<notin> set (zs @ [z])" using d snoc by (cases ys) auto
        then show ?thesis using that n prv by auto
      qed
    qed
    then show ?thesis using left snoc p n nxt prv by (simp add: zchain_append)
  qed
  show ?thesis
  proof (cases ys)
    case Nil
    then show ?thesis using left' by simp
  next
    case (Cons y zs)
    have "zchain q' y zs w = zchain q y zs w"
    proof (rule zchain_cong)
      show "zombie_next (q' a) = zombie_next (q a)" if "a \<in> set (y # zs)" for a
      proof -
        have "last (u # xs) \<notin> set (y # zs)" using d Cons by (cases xs rule: rev_cases) auto
        then show ?thesis using that p nxt by auto
      qed
      show "zombie_prev (q' a) = zombie_prev (q a)" if "a \<in> set (zs @ [w])" for a
        using that d Cons n prv by auto
    qed
    then show ?thesis using left' right Cons by (simp add: zchain_append)
  qed
qed


lemma upd_queue_links [simp]:
  "zombie_next (queue_at (upd_queue a (zombie_next_update (\<lambda>_. v)) s) b) = (if b = a then v else zombie_next (queue_at s b))"
  "zombie_prev (queue_at (upd_queue a (zombie_next_update (\<lambda>_. v)) s) b) = zombie_prev (queue_at s b)"
  "zombie_next (queue_at (upd_queue a (zombie_prev_update (\<lambda>_. v)) s) b) = zombie_next (queue_at s b)"
  "zombie_prev (queue_at (upd_queue a (zombie_prev_update (\<lambda>_. v)) s) b) = (if b = a then v else zombie_prev (queue_at s b))"
  "notification (queue_at (upd_queue a (zombie_next_update (\<lambda>_. v)) s) b) = notification (queue_at s b)"
  "notification (queue_at (upd_queue a (zombie_prev_update (\<lambda>_. v)) s) b) = notification (queue_at s b)"
  "zombie_list_head (upd_queue a f s) = zombie_list_head s"
  "live (upd_queue a f s) = live s"
  by (simp_all add: upd_queue_def)

lemma free_simps [simp]:
  "queue_at (em_task_queue_free a s) = queue_at s"
  "zombie_list_head (em_task_queue_free a s) = zombie_list_head s"
  "live (em_task_queue_free a s) = live s - {a}"
  by (simp_all add: em_task_queue_free_def)

abbreviation pending :: "queue_store \<Rightarrow> u32 \<Rightarrow> bool" where
  "pending s a \<equiv> notification (queue_at s a) \<noteq> NOTIFICATION_NONE"

lemma cull_loop_correct:
  assumes "zombies s (ys @ xs)"
  shows "\<exists>s'. cull_loop (hd (xs @ [zombie_list_head s])) s = Some s' \<and>
    zombie_list_head s' = zombie_list_head s \<and> zombies s' (ys @ filter (pending s) xs) \<and>
    (\<forall>a. notification (queue_at s' a) = notification (queue_at s a)) \<and>
    live s' = live s - {a \<in> set xs. \<not> pending s a}"
  using assms
proof (induction xs arbitrary: ys s)
  case Nil
  then show ?case by (simp add: cull_loop.simps)
next
  case (Cons x xs)
  define zh where "zh = zombie_list_head s"
  have ch: "zchain (queue_at s) zh (ys @ x # xs) zh" and d: "distinct (zh # ys @ x # xs)"
    using Cons.prems by (simp_all add: zombies_def zh_def)
  then have nx: "zombie_next (queue_at s x) = hd (xs @ [zh])" and x: "x \<noteq> zh"
    using zchain_hd by (auto simp: zchain_append)
  show ?case
  proof (cases "pending s x")
    case True
    then have "cull_loop x s = cull_loop (hd (xs @ [zh])) s"
      using x nx by (subst cull_loop.simps) (simp add: zh_def Let_def)
    moreover have "zombies s ((ys @ [x]) @ xs)" using Cons.prems by simp
    from Cons.IH [OF this] obtain s' where "cull_loop (hd (xs @ [zh])) s = Some s'"
      "zombie_list_head s' = zh" "zombies s' (ys @ x # filter (pending s) xs)"
      "\<forall>a. notification (queue_at s' a) = notification (queue_at s a)"
      "live s' = live s - {a \<in> set xs. \<not> pending s a}"
      by (auto simp: zh_def)
    moreover have "{a \<in> set (x # xs). \<not> pending s a} = {a \<in> set xs. \<not> pending s a}"
      using True by auto
    ultimately show ?thesis using True by (simp add: zh_def)
  next
    case False
    define p n where "p = zombie_prev (queue_at s x)" and "n = zombie_next (queue_at s x)"
    define t where "t = em_task_queue_free x
      (upd_queue n (zombie_prev_update (\<lambda>_. p)) (upd_queue p (zombie_next_update (\<lambda>_. n)) s))"
    have "p = last (zh # ys)" using ch zchain_last by (auto simp: zchain_append p_def)
    moreover have "last (zh # ys) \<in> set (zh # ys)" by (rule last_in_set) simp
    ultimately have px: "p \<noteq> x" using d by auto
    have "zchain (queue_at t) zh (ys @ xs) zh"
      by (rule zchain_join [OF ch]) (use d in \<open>auto simp: t_def p_def n_def\<close>)
    then have "zombies t (ys @ xs)" using d by (simp add: zombies_def t_def zh_def)
    from Cons.IH [OF this] obtain s' where s': "cull_loop (hd (xs @ [zh])) t = Some s'"
      "zombie_list_head s' = zh" "zombies s' (ys @ filter (pending t) xs)"
      "\<forall>a. notification (queue_at s' a) = notification (queue_at t a)"
      "live s' = live t - {a \<in> set xs. \<not> pending t a}"
      by (auto simp: t_def zh_def)
    have "cull_loop x s = cull_loop (hd (xs @ [zh])) t"
      using x nx False px
      by (subst cull_loop.simps) (simp add: zh_def Let_def t_def p_def n_def)
    moreover have "pending t a = pending s a" for a by (simp add: t_def)
    moreover have "live t = live s - {x}" by (simp add: t_def)
    moreover have "{a \<in> set (x # xs). \<not> pending s a} = insert x {a \<in> set xs. \<not> pending s a}"
      using False by auto
    ultimately show ?thesis using s' False by (auto simp: t_def zh_def)
  qed
qed

lemma cull_zombies_correct':
  assumes "zombies s zs" and "\<not> zombie_locked s"
  shows "\<exists>s'. cull_zombies s = Some s' \<and> zombies s' (filter (pending s) zs) \<and>
    live s' = live s - {a \<in> set zs. \<not> pending s a}"
proof -
  have "zombie_next (queue_at s (zombie_list_head s)) = hd (zs @ [zombie_list_head s])"
    using assms(1) zchain_hd by (auto simp: zombies_def)
  then show ?thesis
    using cull_loop_correct [of s "[]" zs] assms by (auto simp: cull_zombies_def)
qed

lemma destroy_correct':
  assumes z: "zombies s zs" and q: "q \<notin> set (zombie_list_head s # zs)"
  shows "if pending s q
    then zombies (em_task_queue_destroy q s) (zs @ [q]) \<and> live (em_task_queue_destroy q s) = live s
    else zombies (em_task_queue_destroy q s) zs \<and> live (em_task_queue_destroy q s) = live s - {q}"
proof (cases "pending s q")
  case False
  then show ?thesis using z by (simp add: em_task_queue_destroy_def zombies_def)
next
  case True
  define zh p where "zh = zombie_list_head s" and "p = zombie_prev (queue_at s zh)"
  define t where "t = em_task_queue_destroy q s"
  have ch: "zchain (queue_at s) zh zs zh" and d: "distinct (zh # zs)" and qn: "q \<noteq> zh" "q \<notin> set zs"
    using z q by (simp_all add: zombies_def zh_def)
  have pl: "p = last (zh # zs)" using zchain_last [OF ch] by (simp add: p_def)
  moreover have "last (zh # zs) \<in> set (zh # zs)" by (rule last_in_set) simp
  ultimately have pq: "p \<noteq> q" "p \<in> set (zh # zs)" using qn by auto
  have nx: "zombie_next (queue_at t a) = (if a = p then q else if a = q then zh else zombie_next (queue_at s a))"
    and pv: "zombie_prev (queue_at t a) = (if a = zh then q else if a = q then p else zombie_prev (queue_at s a))" for a
    using True qn pq by (auto simp: t_def em_task_queue_destroy_def Let_def zh_def p_def)
  have "zchain (queue_at t) zh zs q"
  proof (cases zs rule: rev_cases)
    case Nil
    then show ?thesis using nx pv pl qn by simp
  next
    case (snoc ys y)
    have "zchain (queue_at t) zh ys y = zchain (queue_at s) zh ys y"
      by (rule zchain_cong) (use nx pv d qn snoc pl in auto)
    then show ?thesis using ch snoc nx pv pl qn by (simp add: zchain_append)
  qed
  then have "zchain (queue_at t) zh (zs @ [q]) zh" using nx pv qn pq by (simp add: zchain_append)
  then have "zombies t (zs @ [q])"
    using d qn True by (simp add: zombies_def zh_def t_def em_task_queue_destroy_def Let_def)
  moreover have "live t = live s" using True by (simp add: t_def em_task_queue_destroy_def Let_def)
  ultimately show ?thesis using True by (simp add: t_def)
qed


section \<open>The properties\<close>

definition demo_queue :: em_task_queue where
  "demo_queue = \<lparr>notification = NOTIFICATION_PENDING, thread = 64, processing = False,
     tasks = [Some \<lparr>func = 2, cancel = 0, arg = 20\<rparr>, None, None, Some \<lparr>func = 1, cancel = 5, arg = 10\<rparr>],
     capacity = 4, head = 3, tail = 1, zombie_prev = 0, zombie_next = 0\<rparr>"

lemma demo_queue_inv:
  "queue_inv demo_queue"
  "queue_contents demo_queue = [\<lparr>func = 1, cancel = 5, arg = 10\<rparr>, \<lparr>func = 2, cancel = 0, arg = 20\<rparr>]"
  by (simp_all add: demo_queue_def queue_inv_def queue_contents_def occupied_def)

text \<open>
  Claim C36. The ring buffer is a FIFO queue: \<open>em_task_queue_enqueue\<close> appends to the contents (also
  when it has to grow the buffer, whether or not the contents wrap around its end) or fails
  for lack of memory and changes nothing, and it only fails when memory is short.
\<close>

theorem enqueue_appends:
  assumes "queue_inv q" and "em_task_queue_enqueue ok q t = (r, q')"
  shows "if r then queue_inv q' \<and> queue_contents q' = queue_contents q @ [t]
         else q' = q \<and> \<not> ok \<and> em_task_queue_is_full q"
proof (cases r)
  case True
  then show ?thesis using assms tq.enq_ok by auto
next
  case False
  then show ?thesis
    using assms tq.enq_fail by (auto simp: em_task_queue_enqueue_def em_task_queue_grow_def Let_def split: if_splits)
qed

theorem enqueue_appends_witness:
  "queue_contents (snd (em_task_queue_enqueue True demo_queue \<lparr>func = 3, cancel = 0, arg = 30\<rparr>)) =
     [\<lparr>func = 1, cancel = 5, arg = 10\<rparr>, \<lparr>func = 2, cancel = 0, arg = 20\<rparr>, \<lparr>func = 3, cancel = 0, arg = 30\<rparr>]"
proof -
  obtain r q' where e: "em_task_queue_enqueue True demo_queue \<lparr>func = 3, cancel = 0, arg = 30\<rparr> = (r, q')"
    by (cases "em_task_queue_enqueue True demo_queue \<lparr>func = 3, cancel = 0, arg = 30\<rparr>") auto
  show ?thesis
    using enqueue_appends [OF demo_queue_inv(1) e] e by (auto simp: demo_queue_inv(2) split: if_splits)
qed

text \<open>
  Tasks leave in the order they came: after any list of tasks is enqueued on any queue,
  taking tasks until the queue is empty gives the old contents followed by the list.
\<close>

theorem drain_in_order:
  assumes "queue_inv q" and "length (queue_contents q) + length ts \<le> n"
  shows "fst (tq.drain n (tq.enq_all q ts)) = queue_contents q @ ts"
  using assms by (rule tq.drain_enq_all)

theorem drain_in_order_witness:
  "fst (tq.drain 4 (tq.enq_all demo_queue [\<lparr>func = 7, cancel = 0, arg = 1\<rparr>, \<lparr>func = 8, cancel = 0, arg = 1\<rparr>]))
     = queue_contents demo_queue @ [\<lparr>func = 7, cancel = 0, arg = 1\<rparr>, \<lparr>func = 8, cancel = 0, arg = 1\<rparr>]"
  by (rule drain_in_order [OF demo_queue_inv(1)]) (simp add: demo_queue_inv(2))

text \<open>
  When the tasks do not enqueue anything, \<open>em_task_queue_execute\<close> returns, with an empty
  queue, having run every task exactly once in FIFO order; its recursion guard is clear again.
\<close>

theorem execute_runs_all:
  assumes "queue_inv q" and "\<And>f a q w. call f a (q, w) = (q, g f a w)"
  shows "\<exists>q'. em_task_queue_execute call q w
      = Some (q', fold (\<lambda>t. g (func t) (arg t)) (queue_contents q) w)
    \<and> queue_inv q' \<and> queue_contents q' = [] \<and> \<not> processing q'"
  using execute_loop_all [where call = call and g = g, OF assms(2), of "q\<lparr>processing := True\<rparr>" w] assms(1)
  by (auto simp: em_task_queue_execute_def)

theorem execute_runs_all_witness:
  "\<exists>q'. em_task_queue_execute (\<lambda>f a (q, w). (q, w @ [f])) demo_queue [] = Some (q', [1, 2]) \<and> queue_contents q' = []"
  using execute_runs_all [OF demo_queue_inv(1), where call = "\<lambda>f a (q, w). (q, w @ [f])" and
      g = "\<lambda>f a w. w @ [f]" and w = "[]"]
  by (auto simp: demo_queue_inv(2))

text \<open>
  \<open>em_task_queue_cancel\<close> returns, with an empty queue and no notification outstanding, having
  called the cancel function of exactly those tasks that have one, in FIFO order.
\<close>

theorem cancel_cancels_all:
  assumes "queue_inv q"
  shows "\<exists>q'. em_task_queue_cancel call q w
      = Some (q', fold (\<lambda>t. call (cancel t) (arg t)) (filter (\<lambda>t. cancel t \<noteq> 0) (queue_contents q)) w)
    \<and> queue_inv q' \<and> queue_contents q' = [] \<and> notification q' = NOTIFICATION_NONE"
proof -
  have "fold (\<lambda>t w. if cancel t \<noteq> 0 then call (cancel t) (arg t) w else w) ts w
      = fold (\<lambda>t. call (cancel t) (arg t)) (filter (\<lambda>t. cancel t \<noteq> 0) ts) w" for ts
    by (induction ts arbitrary: w) auto
  then show ?thesis
    using cancel_loop_all [OF assms, where call = call and w = w] by (auto simp: em_task_queue_cancel_def)
qed

theorem cancel_cancels_all_witness:
  "\<exists>q'. em_task_queue_cancel (\<lambda>f a w. w @ [a]) demo_queue [] = Some (q', [10]) \<and> queue_contents q' = []"
  using cancel_cancels_all [OF demo_queue_inv(1), where call = "\<lambda>f a w. w @ [a]" and w = "[]"]
  by (auto simp: demo_queue_inv(2))

text \<open>
  A destroyed queue with an outstanding notification is not freed but appended to the
  zombie list; without one it is freed at once and the list is untouched.
\<close>

theorem destroy_defers_free:
  assumes "zombies s zs" and "q \<notin> set (zombie_list_head s # zs)"
  shows "if pending s q
    then zombies (em_task_queue_destroy q s) (zs @ [q]) \<and> live (em_task_queue_destroy q s) = live s
    else zombies (em_task_queue_destroy q s) zs \<and> live (em_task_queue_destroy q s) = live s - {q}"
  using assms by (rule destroy_correct')

definition demo_store :: queue_store where
  "demo_store = \<lparr>queue_at = (\<lambda>a. demo_queue\<lparr>zombie_prev := 100, zombie_next := 100\<rparr>), live = {4},
     zombie_list_head = 100, zombie_locked = False\<rparr>"

lemma demo_zombies: "zombies demo_store []"
  by (simp add: zombies_def demo_store_def)

theorem destroy_defers_free_witness: "zombies (em_task_queue_destroy 4 demo_store) [4]"
proof -
  have "pending demo_store 4" by (simp add: demo_store_def demo_queue_def)
  then show ?thesis
    using destroy_defers_free [OF demo_zombies, of 4] by (simp add: demo_store_def)
qed

text \<open>
  \<open>cull_zombies\<close> returns on every well-formed list, frees exactly the zombies whose
  notification flag is clear and keeps the others, in order.
\<close>

theorem cull_frees_exactly:
  assumes "zombies s zs" and "\<not> zombie_locked s"
  shows "\<exists>s'. cull_zombies s = Some s' \<and> zombies s' (filter (pending s) zs) \<and>
    live s' = live s - {a \<in> set zs. \<not> pending s a}"
  using assms by (rule cull_zombies_correct')

theorem cull_frees_exactly_witness:
  "\<exists>s'. cull_zombies (em_task_queue_destroy 4 demo_store) = Some s' \<and> zombies s' [4]"
proof -
  have p: "pending demo_store 4" "\<not> zombie_locked (em_task_queue_destroy 4 demo_store)"
    by (simp_all add: demo_store_def demo_queue_def em_task_queue_destroy_def Let_def upd_queue_def)
  have z: "zombies (em_task_queue_destroy 4 demo_store) [4]"
    using destroy_correct' [OF demo_zombies, of 4] p(1) by (simp add: demo_store_def)
  have "pending (em_task_queue_destroy 4 demo_store) 4"
    by (simp add: demo_store_def demo_queue_def em_task_queue_destroy_def Let_def upd_queue_def)
  then show ?thesis using cull_frees_exactly [OF z p(2)] by auto
qed

end
