(* ===== verification/Mailbox.thy ===== *)
theory Mailbox
  imports Task_Queue
begin

text \<open>
  Mailboxes: \<open>system/lib/pthread/thread_mailbox.c\<close>, and the functions of \<open>em_task_queue.c\<close> that
  send through them. A thread owns a mailbox queue and a reference count that keeps the queue
  open. The last section abstracts all threads that use one mailbox to a step relation and
  shows that no message is lost and none arrives after the mailbox is closed.
\<close>

section \<open>State\<close>

record pthread =
  mailbox :: u32
  mailbox_refcount :: int
  waiting_async :: bool

text \<open>\<open>futex_wakes\<close>, \<open>atomic_notifies\<close> and \<open>posted_messages\<close> log the calls that leave the library.\<close>

record mailbox_world = queue_store +
  pthread_at :: "u32 \<Rightarrow> pthread"
  futex_wakes :: "u32 list"
  atomic_notifies :: "u32 list"
  posted_messages :: "u32 list"

definition upd_pthread :: "u32 \<Rightarrow> (pthread \<Rightarrow> pthread) \<Rightarrow> mailbox_world \<Rightarrow> mailbox_world" where
  "upd_pthread t f w = w\<lparr>pthread_at := (pthread_at w)(t := f (pthread_at w t))\<rparr>"

definition set_queue :: "u32 \<Rightarrow> em_task_queue \<Rightarrow> mailbox_world \<Rightarrow> mailbox_world" where
  "set_queue a q w = w\<lparr>queue_at := (queue_at w)(a := q)\<rparr>"

section \<open>Reference counting\<close>

text \<open>
  The loop of \<open>emscripten_thread_mailbox_ref\<close>: the list says, for each attempt of the weak
  compare-and-swap, which count it finds (other threads move it) and whether it fails
  spuriously. The result is the value written, if any; \<^const>\<open>None\<close> means still looping.
\<close>

fun mailbox_ref_loop :: "int \<Rightarrow> (int \<times> bool) list \<Rightarrow> (bool \<times> int option) option" where
  "mailbox_ref_loop prev_count attempts =
     (if prev_count = 0 then Some (False, None)
      else case attempts of
             [] \<Rightarrow> None
           | (cnt, spurious) # rest \<Rightarrow>
               if cnt = prev_count \<and> \<not> spurious then Some (True, Some (prev_count + 1))
               else mailbox_ref_loop cnt rest)"

declare mailbox_ref_loop.simps [simp del]

definition emscripten_thread_mailbox_ref :: "u32 \<Rightarrow> mailbox_world \<Rightarrow> bool \<times> mailbox_world" where
  "emscripten_thread_mailbox_ref t w =
     (let c = mailbox_refcount (pthread_at w t)
      in case mailbox_ref_loop c [(c, False)] of
           Some (True, Some c') \<Rightarrow> (True, upd_pthread t (mailbox_refcount_update (\<lambda>_. c')) w)
         | _ \<Rightarrow> (False, w))"

definition emscripten_thread_mailbox_unref :: "u32 \<Rightarrow> mailbox_world \<Rightarrow> mailbox_world" where
  "emscripten_thread_mailbox_unref t w =
     (let new_count = mailbox_refcount (pthread_at w t) - 1;
          w1 = upd_pthread t (mailbox_refcount_update (\<lambda>_. new_count)) w
      in if new_count = 0 then w1\<lparr>futex_wakes := futex_wakes w1 @ [t]\<rparr> else w1)"

section \<open>Notifications\<close>

text \<open>\<open>atomic_exchange(&notification, NOTIFICATION_PENDING)\<close>: the new state, and whether to notify.\<close>

definition exchange_pending :: "notification_state \<Rightarrow> notification_state \<times> bool" where
  "exchange_pending previous = (NOTIFICATION_PENDING, previous \<noteq> NOTIFICATION_PENDING)"

text \<open>The compare-and-exchange after the queue has been executed.\<close>

definition clear_received :: "notification_state \<Rightarrow> notification_state" where
  "clear_received n = (if n = NOTIFICATION_RECEIVED then NOTIFICATION_NONE else n)"

text \<open>The \<open>assert\<close> on a failed enqueue is compiled out with \<open>NDEBUG\<close>: the task is then dropped.\<close>

definition emscripten_thread_mailbox_send :: "bool \<Rightarrow> u32 \<Rightarrow> em_task \<Rightarrow> mailbox_world \<Rightarrow> mailbox_world" where
  "emscripten_thread_mailbox_send mem_ok t tsk w =
     (let m = mailbox (pthread_at w t);
          q1 = snd (em_task_queue_enqueue mem_ok (queue_at w m) tsk);
          (n, notify) = exchange_pending (notification q1);
          w1 = set_queue m (q1\<lparr>notification := n\<rparr>) w
      in if notify
         then if waiting_async (pthread_at w1 t)
              then w1\<lparr>atomic_notifies := atomic_notifies w1 @ [t]\<rparr>
              else w1\<lparr>posted_messages := posted_messages w1 @ [t]\<rparr>
         else w1)"

text \<open>The table indices of \<open>receive_notification\<close> and \<open>cancel_notification\<close> are the pair \<open>fns\<close>.\<close>

definition em_task_queue_send ::
  "u32 \<times> u32 \<Rightarrow> bool \<Rightarrow> bool \<Rightarrow> u32 \<Rightarrow> em_task \<Rightarrow> mailbox_world \<Rightarrow> bool \<times> mailbox_world" where
  "em_task_queue_send fns mem_ok mem_ok' queue t w =
     (let thr = thread (queue_at w queue);
          (open, w1) = emscripten_thread_mailbox_ref thr w
      in if \<not> open then (False, w1)
         else
           let (enqueued, q1) = em_task_queue_enqueue mem_ok (queue_at w1 queue) t;
               w2 = set_queue queue q1 w1
           in if \<not> enqueued then (False, emscripten_thread_mailbox_unref thr w2)
              else
                let (n, notify) = exchange_pending (notification q1);
                    w3 = set_queue queue (q1\<lparr>notification := n\<rparr>) w2
                in if \<not> notify then (True, emscripten_thread_mailbox_unref thr w3)
                   else
                     let w4 = emscripten_thread_mailbox_send mem_ok' thr
                                \<lparr>func = fst fns, cancel = snd fns, arg = queue\<rparr> w3
                     in (True, emscripten_thread_mailbox_unref thr w4))"

definition receive_notification ::
  "'w task_call \<Rightarrow> em_task_queue \<Rightarrow> 'w \<Rightarrow> (em_task_queue \<times> 'w) option" where
  "receive_notification call q w =
     (case em_task_queue_execute call (q\<lparr>notification := NOTIFICATION_RECEIVED\<rparr>) w of
        None \<Rightarrow> None
      | Some (q', w') \<Rightarrow> Some (q'\<lparr>notification := clear_received (notification q')\<rparr>, w'))"

definition cancel_notification ::
  "(u32 \<Rightarrow> u32 \<Rightarrow> 'w \<Rightarrow> 'w) \<Rightarrow> em_task_queue \<Rightarrow> 'w \<Rightarrow> (em_task_queue \<times> 'w) option" where
  "cancel_notification call q w = em_task_queue_cancel call q w"

text \<open>\<open>_emscripten_check_mailbox\<close>; \<open>testcancel\<close> is the effect of \<open>__pthread_testcancel\<close>.\<close>

definition emscripten_check_mailbox ::
  "'w task_call \<Rightarrow> ('w \<Rightarrow> 'w) \<Rightarrow> em_task_queue \<Rightarrow> 'w \<Rightarrow> (em_task_queue \<times> 'w) option" where
  "emscripten_check_mailbox call testcancel mb w =
     (case em_task_queue_execute call (mb\<lparr>notification := NOTIFICATION_RECEIVED\<rparr>) w of
        None \<Rightarrow> None
      | Some (q', w') \<Rightarrow>
          Some (q'\<lparr>notification := clear_received (notification q')\<rparr>, testcancel w'))"

section \<open>Start and shutdown\<close>

definition emscripten_thread_mailbox_init ::
  "u32 \<Rightarrow> bool \<Rightarrow> u32 \<Rightarrow> mailbox_world \<Rightarrow> mailbox_world option" where
  "emscripten_thread_mailbox_init queue_mem tasks_ok t w =
     (case em_task_queue_create queue_mem tasks_ok t (queue_store.truncate w) of
        None \<Rightarrow> None
      | Some (q, s) \<Rightarrow>
          Some (upd_pthread t (\<lambda>p. p\<lparr>mailbox := q, mailbox_refcount := 1, waiting_async := False\<rparr>)
            (w\<lparr>queue_at := queue_at s, live := live s\<rparr>)))"

text \<open>\<open>observed\<close>: the counts the loop reads after each wait, while other threads drop theirs.\<close>

fun await_zero :: "int \<Rightarrow> int list \<Rightarrow> bool" where
  "await_zero cnt observed =
     (if cnt = 0 then True else case observed of [] \<Rightarrow> False | c # cs \<Rightarrow> await_zero c cs)"

declare await_zero.simps [simp del]

definition emscripten_thread_mailbox_shutdown ::
  "(u32 \<Rightarrow> u32 \<Rightarrow> mailbox_world \<Rightarrow> mailbox_world) \<Rightarrow> int list \<Rightarrow> u32 \<Rightarrow> mailbox_world \<Rightarrow> mailbox_world option" where
  "emscripten_thread_mailbox_shutdown call observed t w =
     (let cnt = mailbox_refcount (pthread_at w t) - 1;
          w1 = upd_pthread t (mailbox_refcount_update (\<lambda>_. if cnt = 0 then cnt else 0)) w;
          m = mailbox (pthread_at w t)
      in if \<not> await_zero cnt observed then None
         else case em_task_queue_cancel call (queue_at w1 m) w1 of
                None \<Rightarrow> None
              | Some (q, w2) \<Rightarrow>
                  let s = em_task_queue_destroy m (queue_store.truncate (set_queue m q w2))
                  in Some (w2\<lparr>queue_at := queue_at s, live := live s\<rparr>))"

section \<open>Correctness of the parts\<close>

text \<open>The reference loop is an atomic increment of the count it saw last, and never of zero.\<close>

lemma mailbox_ref_loop_sound:
  "mailbox_ref_loop c es = Some (r, v) \<Longrightarrow>
     if r then \<exists>k. k \<noteq> 0 \<and> v = Some (k + 1) \<and> (k, False) \<in> set es
     else v = None \<and> (c = 0 \<or> 0 \<in> fst ` set es)"
proof (induction c es rule: mailbox_ref_loop.induct)
  case (1 c es)
  show ?case
  proof (cases "c = 0")
    case True
    then show ?thesis using 1 by (auto simp: mailbox_ref_loop.simps)
  next
    case False
    with 1(2) obtain k b rest where es: "es = (k, b) # rest"
      by (auto simp: mailbox_ref_loop.simps [of c es] split: list.splits)
    show ?thesis
    proof (cases "k = c \<and> \<not> b")
      case True
      with 1(2) es False have "r" "v = Some (c + 1)"
        unfolding mailbox_ref_loop.simps [of c es] by simp_all
      then show ?thesis using True es False by auto
    next
      case no: False
      then have "mailbox_ref_loop k rest = Some (r, v)"
        using 1(2) es False by (auto simp: mailbox_ref_loop.simps [of c "(k, b) # rest"])
      then show ?thesis
        using 1(1) [OF False, of "(k, b)" rest k b] es no by (auto split: if_splits)
    qed
  qed
qed

lemma mailbox_ref_eq:
  "emscripten_thread_mailbox_ref t w =
     (if mailbox_refcount (pthread_at w t) = 0 then (False, w)
      else (True, upd_pthread t (mailbox_refcount_update (\<lambda>_. mailbox_refcount (pthread_at w t) + 1)) w))"
  by (simp add: emscripten_thread_mailbox_ref_def mailbox_ref_loop.simps)

lemma exchange_pending_simps [simp]:
  "fst (exchange_pending n) = NOTIFICATION_PENDING"
  "snd (exchange_pending n) \<longleftrightarrow> n \<noteq> NOTIFICATION_PENDING"
  by (simp_all add: exchange_pending_def)


section \<open>The protocol\<close>

text \<open>
  One mailbox and all the threads that send to it. A sender takes a reference (\<open>fresh\<close>), enqueues
  its task (\<open>mid\<close>), exchanges the flag (\<open>sent\<close>) and drops the reference; the owner receives one
  posted notification at a time. \<open>in_flight\<close> counts posted notifications not yet received. A check of the mailbox without a
  notification (\<open>checkMailbox\<close> at the start of a thread) is no step of the relation.
\<close>

datatype phase = Idle | Executing | Drained

record protocol =
  refcount :: nat
  fresh :: nat
  mid :: nat
  sent :: nat
  owner :: bool
  closed :: bool
  box :: "em_task list"
  notif :: notification_state
  in_flight :: nat
  phase :: phase

definition protocol_init :: protocol where
  "protocol_init = \<lparr>refcount = 1, fresh = 0, mid = 0, sent = 0, owner = True, closed = False, box = [],
     notif = NOTIFICATION_NONE, in_flight = 0, phase = Idle\<rparr>"

inductive mailbox_step :: "protocol \<Rightarrow> protocol \<Rightarrow> bool" where
  take_ref: "refcount p \<noteq> 0 \<Longrightarrow> mailbox_step p (p\<lparr>refcount := refcount p + 1, fresh := fresh p + 1\<rparr>)"
| enqueue: "0 < fresh p \<Longrightarrow>
    mailbox_step p (p\<lparr>fresh := fresh p - 1, mid := mid p + 1, box := box p @ [t]\<rparr>)"
| give_up: "0 < fresh p \<Longrightarrow> mailbox_step p (p\<lparr>fresh := fresh p - 1, refcount := refcount p - 1\<rparr>)"
| notify: "0 < mid p \<Longrightarrow>
    mailbox_step p (p\<lparr>mid := mid p - 1, sent := sent p + 1, notif := fst (exchange_pending (notif p)),
      in_flight := in_flight p + (if snd (exchange_pending (notif p)) then 1 else 0)\<rparr>)"
| drop_ref: "0 < sent p \<Longrightarrow> mailbox_step p (p\<lparr>sent := sent p - 1, refcount := refcount p - 1\<rparr>)"
| receive: "owner p \<Longrightarrow> phase p = Idle \<Longrightarrow> 0 < in_flight p \<Longrightarrow>
    mailbox_step p (p\<lparr>in_flight := in_flight p - 1, notif := NOTIFICATION_RECEIVED, phase := Executing\<rparr>)"
| run_task: "phase p = Executing \<Longrightarrow> box p = t # ts \<Longrightarrow> mailbox_step p (p\<lparr>box := ts\<rparr>)"
| see_empty: "phase p = Executing \<Longrightarrow> box p = [] \<Longrightarrow> mailbox_step p (p\<lparr>phase := Drained\<rparr>)"
| finish: "phase p = Drained \<Longrightarrow> mailbox_step p (p\<lparr>phase := Idle, notif := clear_received (notif p)\<rparr>)"
| shut_down: "owner p \<Longrightarrow> phase p = Idle \<Longrightarrow> mailbox_step p (p\<lparr>owner := False, refcount := refcount p - 1\<rparr>)"
| close: "\<not> owner p \<Longrightarrow> refcount p = 0 \<Longrightarrow> \<not> closed p \<Longrightarrow>
    mailbox_step p (p\<lparr>closed := True, box := [], notif := NOTIFICATION_NONE\<rparr>)"

inductive_cases mailbox_stepE: "mailbox_step p p'"

inductive mailbox_reachable :: "protocol \<Rightarrow> bool" where
  start: "mailbox_reachable protocol_init"
| step: "mailbox_reachable p \<Longrightarrow> mailbox_step p p' \<Longrightarrow> mailbox_reachable p'"

definition protocol_inv :: "protocol \<Rightarrow> bool" where
  "protocol_inv p \<longleftrightarrow>
     refcount p = (if owner p then 1 else 0) + fresh p + mid p + sent p \<and>
     (closed p \<longrightarrow> \<not> owner p \<and> refcount p = 0 \<and> box p = []) \<and>
     (phase p \<noteq> Idle \<longrightarrow> owner p) \<and>
     (box p \<noteq> [] \<longrightarrow> 0 < in_flight p \<or> 0 < mid p \<or> phase p = Executing) \<and>
     (\<not> closed p \<longrightarrow> in_flight p = (if notif p = NOTIFICATION_PENDING then 1 else 0)) \<and>
     in_flight p \<le> 1 \<and>
     (phase p = Idle \<longrightarrow> notif p \<noteq> NOTIFICATION_RECEIVED) \<and>
     (phase p \<noteq> Idle \<longrightarrow> notif p \<noteq> NOTIFICATION_NONE)"

lemma protocol_inv_step: "mailbox_step p p' \<Longrightarrow> protocol_inv p \<Longrightarrow> protocol_inv p'"
proof (induction rule: mailbox_step.induct)
  case (take_ref p)
  then show ?case by (auto simp: protocol_inv_def)
next
  case (enqueue p t)
  then show ?case by (auto simp: protocol_inv_def)
next
  case (give_up p)
  then show ?case by (auto simp: protocol_inv_def)
next
  case (notify p)
  then show ?case by (auto simp: protocol_inv_def)
next
  case (drop_ref p)
  then show ?case by (auto simp: protocol_inv_def)
next
  case (receive p)
  then show ?case by (auto simp: protocol_inv_def split: if_splits)
next
  case (run_task p t ts)
  then show ?case by (auto simp: protocol_inv_def)
next
  case (see_empty p)
  then show ?case by (auto simp: protocol_inv_def)
next
  case (finish p)
  then show ?case by (auto simp: protocol_inv_def clear_received_def split: if_splits)
next
  case (shut_down p)
  then show ?case by (auto simp: protocol_inv_def)
next
  case (close p)
  then show ?case by (auto simp: protocol_inv_def split: if_splits)
qed

lemma protocol_inv_reachable: "mailbox_reachable p \<Longrightarrow> protocol_inv p"
  by (induction rule: mailbox_reachable.induct)
     (auto simp: protocol_inv_step, simp add: protocol_inv_def protocol_init_def)

section \<open>The code takes steps of the protocol\<close>

text \<open>
  \<open>refines w t p\<close>: the mailbox of thread \<open>t\<close> in the memory \<open>w\<close> is in the state \<open>p\<close> of the protocol.
  \<open>notices\<close> counts the notifications that have been sent to the thread.
\<close>

definition refines :: "mailbox_world \<Rightarrow> u32 \<Rightarrow> protocol \<Rightarrow> bool" where
  "refines w t p \<longleftrightarrow>
     (let q = queue_at w (mailbox (pthread_at w t))
      in queue_inv q \<and> queue_contents q = box p \<and> notification q = notif p \<and>
         mailbox_refcount (pthread_at w t) = int (refcount p))"

definition notices :: "u32 \<Rightarrow> mailbox_world \<Rightarrow> nat" where
  "notices t w = length (filter (\<lambda>x. x = t) (posted_messages w)) + length (filter (\<lambda>x. x = t) (atomic_notifies w))"

lemma ref_refines:
  assumes "refines w t p" and "refcount p \<noteq> 0"
  shows "\<exists>w'. emscripten_thread_mailbox_ref t w = (True, w') \<and>
    refines w' t (p\<lparr>refcount := refcount p + 1, fresh := fresh p + 1\<rparr>) \<and> notices t w' = notices t w"
  using assms by (simp add: mailbox_ref_eq refines_def upd_pthread_def notices_def Let_def)

lemma unref_refines:
  assumes "refines w t p" and "0 < sent p" "0 < refcount p"
  shows "refines (emscripten_thread_mailbox_unref t w) t (p\<lparr>sent := sent p - 1, refcount := refcount p - 1\<rparr>) \<and>
    notices t (emscripten_thread_mailbox_unref t w) = notices t w"
  using assms
  by (auto simp: emscripten_thread_mailbox_unref_def refines_def upd_pthread_def notices_def Let_def)

lemma mailbox_send_refines':
  assumes ref: "refines w t p" and fresh: "0 < fresh p"
    and room: "mem_ok \<or> \<not> em_task_queue_is_full (queue_at w (mailbox (pthread_at w t)))"
  shows "\<exists>p1 p2. mailbox_step p p1 \<and> mailbox_step p1 p2 \<and>
    refines (emscripten_thread_mailbox_send mem_ok t tsk w) t p2 \<and> box p2 = box p @ [tsk] \<and>
    fresh p2 = fresh p - 1 \<and> sent p2 = sent p + 1 \<and>
    notices t (emscripten_thread_mailbox_send mem_ok t tsk w) + in_flight p = notices t w + in_flight p2"
proof -
  let ?m = "mailbox (pthread_at w t)"
  let ?p1 = "p\<lparr>fresh := fresh p - 1, mid := mid p + 1, box := box p @ [tsk]\<rparr>"
  let ?p2 = "?p1\<lparr>mid := mid ?p1 - 1, sent := sent ?p1 + 1, notif := fst (exchange_pending (notif ?p1)),
      in_flight := in_flight ?p1 + (if snd (exchange_pending (notif ?p1)) then 1 else 0)\<rparr>"
  obtain r q1 where e: "em_task_queue_enqueue mem_ok (queue_at w ?m) tsk = (r, q1)"
    by (cases "em_task_queue_enqueue mem_ok (queue_at w ?m) tsk") auto
  have "r" using e room
    by (auto simp: em_task_queue_enqueue_def em_task_queue_grow_def Let_def split: if_splits)
  then have q1: "queue_inv q1" "queue_contents q1 = box p @ [tsk]"
    using queue_enqueue_ok e ref by (auto simp: refines_def Let_def)
  have n1: "notification q1 = notif p"
    using e ref by (auto simp: em_task_queue_enqueue_def em_task_queue_grow_def Let_def refines_def split: if_splits)
  have "mailbox_step p ?p1" by (rule enqueue [OF fresh])
  moreover have "mailbox_step ?p1 ?p2" by (rule notify) simp
  moreover have "refines (emscripten_thread_mailbox_send mem_ok t tsk w) t ?p2"
    using ref q1 n1 e
    by (simp add: emscripten_thread_mailbox_send_def refines_def Let_def set_queue_def split_beta)
  moreover have "notices t (emscripten_thread_mailbox_send mem_ok t tsk w) + in_flight p = notices t w + in_flight ?p2"
    using n1 e by (simp add: emscripten_thread_mailbox_send_def notices_def Let_def set_queue_def split_beta)
  ultimately show ?thesis by (intro exI [of _ ?p1] exI [of _ ?p2]) simp
qed

text \<open>
  While the owner runs a message, more may arrive, from the message itself or from other threads. \<open>mailbox_put\<close> is what
  a send does to the mailbox; \<open>sends f a v\<close> are the messages that arrive while function \<open>f\<close> runs on \<open>a\<close> in the world \<open>v\<close>, and \<open>g\<close> is
  the effect of the run on that world. \<open>delivered\<close> says that a mailbox with the messages \<open>box\<close> is run until it is empty, and
  what arrives meanwhile.
\<close>

definition mailbox_put :: "em_task \<Rightarrow> em_task_queue \<Rightarrow> em_task_queue" where
  "mailbox_put tsk q =
     (let q1 = snd (em_task_queue_enqueue True q tsk)
      in q1\<lparr>notification := fst (exchange_pending (notification q1))\<rparr>)"

lemma send_puts:
  "queue_at (emscripten_thread_mailbox_send True t tsk w) (mailbox (pthread_at w t)) =
     mailbox_put tsk (queue_at w (mailbox (pthread_at w t)))"
  by (simp add: emscripten_thread_mailbox_send_def mailbox_put_def Let_def set_queue_def split_beta)

inductive delivered ::
  "(u32 \<Rightarrow> u32 \<Rightarrow> 'w \<Rightarrow> em_task list) \<Rightarrow> (u32 \<Rightarrow> u32 \<Rightarrow> 'w \<Rightarrow> 'w) \<Rightarrow> em_task list \<Rightarrow> 'w \<Rightarrow> em_task list \<Rightarrow> bool" for sends g where
  all_run: "delivered sends g [] v []"
| run_next: "delivered sends g (ts @ sends (func t) (arg t) v) (g (func t) (arg t) v) later \<Longrightarrow>
    delivered sends g (t # ts) v (sends (func t) (arg t) v @ later)"

lemma mailbox_put_effect:
  assumes "queue_inv q"
  shows "queue_inv (mailbox_put t q) \<and> queue_contents (mailbox_put t q) = queue_contents q @ [t] \<and>
    notification (mailbox_put t q) = NOTIFICATION_PENDING"
proof -
  obtain r q1 where e: "em_task_queue_enqueue True q t = (r, q1)" by fastforce
  have "r" using e by (auto simp: em_task_queue_enqueue_def em_task_queue_grow_def Let_def split: if_splits)
  then show ?thesis using queue_enqueue_ok [OF assms] e by (simp add: mailbox_put_def)
qed

lemma mailbox_puts_effect:
  "queue_inv q \<Longrightarrow> queue_inv (fold mailbox_put ms q) \<and> queue_contents (fold mailbox_put ms q) = queue_contents q @ ms \<and>
     notification (fold mailbox_put ms q) = (if ms = [] then notification q else NOTIFICATION_PENDING)"
  using mailbox_put_effect by (induction ms arbitrary: q) auto

lemma execute_delivered:
  assumes call: "\<And>f a q v. call f a (q, v) = (fold mailbox_put (sends f a v) q, g f a v)"
    and del: "delivered sends g ts v later" and q: "queue_inv q" "queue_contents q = ts"
  shows "\<exists>q'. execute_loop call q v = Some (q', fold (\<lambda>m. g (func m) (arg m)) (ts @ later) v) \<and>
    queue_inv q' \<and> queue_contents q' = [] \<and>
    notification q' = (if later = [] then notification q else NOTIFICATION_PENDING)"
  using del q
proof (induction arbitrary: q rule: delivered.induct)
  case (all_run v)
  then show ?case using queue_empty [of q] by (auto simp: execute_loop.simps)
next
  case (run_next ts t v later)
  let ?ms = "sends (func t) (arg t) v"
  obtain q1 where q1: "em_task_queue_dequeue q = (Some t, q1)" "queue_inv q1" "queue_contents q1 = ts"
    using queue_dequeue [OF run_next.prems] by blast
  have n: "notification q1 = notification q" using q1(1) by (auto simp: em_task_queue_dequeue_def)
  have ne: "\<not> em_task_queue_is_empty q" using queue_empty [OF run_next.prems(1)] run_next.prems(2) by simp
  let ?q2 = "fold mailbox_put ?ms q1"
  have q2: "queue_inv ?q2" "queue_contents ?q2 = ts @ ?ms"
    "notification ?q2 = (if ?ms = [] then notification q else NOTIFICATION_PENDING)"
    using mailbox_puts_effect [OF q1(2), of ?ms] q1(3) n by simp_all
  have step: "execute_loop call q v = execute_loop call ?q2 (g (func t) (arg t) v)"
    using ne q1(1) by (subst execute_loop.simps) (simp add: call)
  show ?case
    using run_next.IH [OF q2(1,2)] q2(3) unfolding step by auto
qed

text \<open>A send while the mailbox is being executed, as steps of the protocol, and the whole execution.\<close>

definition after_sends :: "em_task list \<Rightarrow> protocol \<Rightarrow> protocol" where
  "after_sends ms p = p\<lparr>notif := if ms = [] then notif p else NOTIFICATION_PENDING,
     in_flight := in_flight p + (if ms = [] \<or> notif p = NOTIFICATION_PENDING then 0 else 1)\<rparr>"

lemma one_send_steps:
  assumes "refcount p \<noteq> 0"
  shows "mailbox_step\<^sup>*\<^sup>* p ((after_sends [m] p)\<lparr>box := box p @ [m]\<rparr>)"
proof -
  let ?p1 = "p\<lparr>refcount := refcount p + 1, fresh := fresh p + 1\<rparr>"
  let ?p2 = "?p1\<lparr>fresh := fresh ?p1 - 1, mid := mid ?p1 + 1, box := box ?p1 @ [m]\<rparr>"
  let ?p3 = "?p2\<lparr>mid := mid ?p2 - 1, sent := sent ?p2 + 1, notif := fst (exchange_pending (notif ?p2)),
      in_flight := in_flight ?p2 + (if snd (exchange_pending (notif ?p2)) then 1 else 0)\<rparr>"
  let ?p4 = "?p3\<lparr>sent := sent ?p3 - 1, refcount := refcount ?p3 - 1\<rparr>"
  have "mailbox_step p ?p1" by (rule take_ref [OF assms])
  moreover have "mailbox_step ?p1 ?p2" by (rule enqueue) simp
  moreover have "mailbox_step ?p2 ?p3" by (rule notify) simp
  moreover have "mailbox_step ?p3 ?p4" by (rule drop_ref) simp
  ultimately have "mailbox_step\<^sup>*\<^sup>* p ?p4" by (meson converse_rtranclp_into_rtranclp rtranclp.rtrancl_refl)
  moreover have "?p4 = (after_sends [m] p)\<lparr>box := box p @ [m]\<rparr>" by (simp add: after_sends_def)
  ultimately show ?thesis by simp
qed

lemma after_sends_simps [simp]:
  "box (after_sends ms p) = box p" "phase (after_sends ms p) = phase p" "refcount (after_sends ms p) = refcount p"
  "after_sends ms (p\<lparr>box := b\<rparr>) = (after_sends ms p)\<lparr>box := b\<rparr>"
  "after_sends ms (after_sends ms' p) = after_sends (ms' @ ms) p" "after_sends [] p = p"
  by (simp_all add: after_sends_def)

lemma sends_steps:
  "refcount p \<noteq> 0 \<Longrightarrow> mailbox_step\<^sup>*\<^sup>* p ((after_sends ms p)\<lparr>box := box p @ ms\<rparr>)"
proof (induction ms arbitrary: p)
  case Nil
  then show ?case by simp
next
  case (Cons m ms)
  let ?p1 = "(after_sends [m] p)\<lparr>box := box p @ [m]\<rparr>"
  have "mailbox_step\<^sup>*\<^sup>* ?p1 ((after_sends ms ?p1)\<lparr>box := box ?p1 @ ms\<rparr>)"
    by (rule Cons.IH) (use Cons.prems in simp)
  then show ?case using one_send_steps [OF Cons.prems, of m] by simp
qed

lemma delivered_steps:
  assumes "delivered sends g box0 v later" and "phase p = Executing" and "refcount p \<noteq> 0" and "box p = box0"
  shows "mailbox_step\<^sup>*\<^sup>* p ((after_sends later p)\<lparr>box := []\<rparr>)"
  using assms
proof (induction arbitrary: p rule: delivered.induct)
  case (all_run v)
  then have "p\<lparr>box := []\<rparr> = p" by (cases p) simp
  then show ?case by simp
next
  case (run_next ts t v later)
  let ?ms = "sends (func t) (arg t) v"
  let ?p1 = "p\<lparr>box := ts\<rparr>"
  let ?p2 = "(after_sends ?ms ?p1)\<lparr>box := box ?p1 @ ?ms\<rparr>"
  have "mailbox_step p ?p1" by (rule run_task [OF run_next.prems(1,3)])
  moreover have "mailbox_step\<^sup>*\<^sup>* ?p1 ?p2" by (rule sends_steps) (use run_next.prems in simp)
  moreover have "mailbox_step\<^sup>*\<^sup>* ?p2 ((after_sends later ?p2)\<lparr>box := []\<rparr>)"
    by (rule run_next.IH) (use run_next.prems in simp_all)
  ultimately have "mailbox_step\<^sup>*\<^sup>* p ((after_sends later ?p2)\<lparr>box := []\<rparr>)"
    by (meson converse_rtranclp_into_rtranclp rtranclp_trans)
  then show ?case by simp
qed

text \<open>The owner runs all messages in order; a notification posted meanwhile is still pending afterwards.\<close>

lemma check_mailbox_refines':
  assumes ref: "refines w t p" and idle: "owner p" "phase p = Idle" "0 < in_flight p" "0 < refcount p"
    and call: "\<And>f a q v. call f a (q, v) = (fold mailbox_put (sends f a v) q, g f a v)"
    and del: "delivered sends g (box p) v later"
  shows "\<exists>q' p'. emscripten_check_mailbox call id (queue_at w (mailbox (pthread_at w t))) v =
      Some (q', fold (\<lambda>m. g (func m) (arg m)) (box p @ later) v) \<and>
    mailbox_step\<^sup>*\<^sup>* p p' \<and> refines (set_queue (mailbox (pthread_at w t)) q' w) t p' \<and>
    phase p' = Idle \<and> box p' = [] \<and>
    notif p' = (if later = [] then NOTIFICATION_NONE else NOTIFICATION_PENDING) \<and>
    in_flight p' = in_flight p - 1 + (if later = [] then 0 else 1)"
proof -
  let ?q = "queue_at w (mailbox (pthread_at w t))"
  let ?p1 = "p\<lparr>in_flight := in_flight p - 1, notif := NOTIFICATION_RECEIVED, phase := Executing\<rparr>"
  let ?p2 = "(after_sends later ?p1)\<lparr>box := []\<rparr>"
  let ?p3 = "?p2\<lparr>phase := Drained\<rparr>"
  let ?p4 = "?p3\<lparr>phase := Idle, notif := clear_received (notif ?p3)\<rparr>"
  have q: "queue_inv ?q" "queue_contents ?q = box p" using ref by (simp_all add: refines_def Let_def)
  obtain q1 where q1: "execute_loop call (?q\<lparr>notification := NOTIFICATION_RECEIVED, processing := True\<rparr>) v
      = Some (q1, fold (\<lambda>m. g (func m) (arg m)) (box p @ later) v)"
    "queue_inv q1" "queue_contents q1 = []"
    "notification q1 = (if later = [] then NOTIFICATION_RECEIVED else NOTIFICATION_PENDING)"
    using execute_delivered [OF call del, of "?q\<lparr>notification := NOTIFICATION_RECEIVED, processing := True\<rparr>"] q by auto
  let ?q' = "q1\<lparr>processing := False, notification := clear_received (notification q1)\<rparr>"
  have run: "emscripten_check_mailbox call id ?q v = Some (?q', fold (\<lambda>m. g (func m) (arg m)) (box p @ later) v)"
    using q1(1) by (simp add: emscripten_check_mailbox_def em_task_queue_execute_def)
  have "mailbox_step p ?p1" by (rule receive [OF idle(1-3)])
  moreover have "mailbox_step\<^sup>*\<^sup>* ?p1 ?p2" by (rule delivered_steps [OF del]) (use idle(4) in simp_all)
  moreover have "mailbox_step ?p2 ?p3" by (rule see_empty) simp_all
  moreover have "mailbox_step ?p3 ?p4" by (rule finish) simp
  ultimately have "mailbox_step\<^sup>*\<^sup>* p ?p4"
    by (meson converse_rtranclp_into_rtranclp rtranclp.rtrancl_into_rtrancl)
  moreover have "refines (set_queue (mailbox (pthread_at w t)) ?q' w) t ?p4"
    using ref q1 by (simp add: refines_def Let_def set_queue_def after_sends_def)
  ultimately show ?thesis using run
    by (intro exI [of _ ?q'] exI [of _ ?p4]) (simp add: after_sends_def clear_received_def)
qed

text \<open>
  Claim C3. No message is lost and none is left behind: in every reachable state of the protocol
  a mailbox with a message in it is either being executed, has a notification on its way (exactly
  one), or a sender that is about to post one; once closed it is empty for good and nobody
  holds a reference with which to send.
\<close>

theorem no_lost_message:
  assumes "mailbox_reachable p"
  shows "(box p \<noteq> [] \<longrightarrow> phase p = Executing \<or> in_flight p = 1 \<or> 0 < mid p) \<and>
    (closed p \<longrightarrow> box p = [] \<and> fresh p + mid p + sent p = 0 \<and> refcount p = 0) \<and> in_flight p \<le> 1"
  using protocol_inv_reachable [OF assms] by (auto simp: protocol_inv_def)

lemma demo_protocol:
  "mailbox_reachable (protocol_init\<lparr>refcount := 2, mid := 1, box := [t]\<rparr>)"
proof -
  have "mailbox_reachable (protocol_init\<lparr>refcount := 2, fresh := 1\<rparr>)"
    using mailbox_reachable.step [OF start take_ref] by (simp add: protocol_init_def numeral_2_eq_2)
  from mailbox_reachable.step [OF this enqueue [of _ t]] show ?thesis
    by (simp add: protocol_init_def)
qed

theorem no_lost_message_witness:
  "in_flight (protocol_init\<lparr>refcount := 2, mid := 1, box := [\<lparr>func = 1, cancel = 0, arg = 7\<rparr>]\<rparr>) \<le> 1"
  using no_lost_message [OF demo_protocol] by blast

text \<open>
  Claim C34. \<open>emscripten_thread_mailbox_send\<close> by a thread that holds a reference is two steps of the protocol,
  enqueueing and notifying: the message is appended to the mailbox, and exactly one notification is
  sent, by \<open>postMessage\<close> or an atomic notify, unless one is pending.
\<close>

theorem mailbox_send_refines:
  assumes "refines w t p" and "0 < fresh p"
    and "mem_ok \<or> \<not> em_task_queue_is_full (queue_at w (mailbox (pthread_at w t)))"
  shows "\<exists>p1 p2. mailbox_step p p1 \<and> mailbox_step p1 p2 \<and>
    refines (emscripten_thread_mailbox_send mem_ok t tsk w) t p2 \<and> box p2 = box p @ [tsk] \<and>
    fresh p2 = fresh p - 1 \<and> sent p2 = sent p + 1 \<and>
    notices t (emscripten_thread_mailbox_send mem_ok t tsk w) + in_flight p = notices t w + in_flight p2"
  using assms by (rule mailbox_send_refines')

definition demo_world :: mailbox_world where
  "demo_world = \<lparr>queue_at = (\<lambda>a. demo_queue), live = {4}, zombie_list_head = 100, zombie_locked = False,
     pthread_at = (\<lambda>a. \<lparr>mailbox = 4, mailbox_refcount = 2, waiting_async = False\<rparr>),
     futex_wakes = [], atomic_notifies = [], posted_messages = []\<rparr>"

definition demo_protocol_state :: protocol where
  "demo_protocol_state = \<lparr>refcount = 2, fresh = 1, mid = 0, sent = 0, owner = True, closed = False,
     box = queue_contents demo_queue, notif = notification demo_queue, in_flight = 1, phase = Idle\<rparr>"

lemma demo_refines: "refines demo_world 8 demo_protocol_state"
  by (simp add: refines_def demo_world_def demo_protocol_state_def demo_queue_inv)

theorem mailbox_send_refines_witness:
  "\<exists>p. refines (emscripten_thread_mailbox_send True 8 \<lparr>func = 3, cancel = 0, arg = 30\<rparr> demo_world) 8 p \<and>
     box p = queue_contents demo_queue @ [\<lparr>func = 3, cancel = 0, arg = 30\<rparr>] \<and> sent p = 1"
proof -
  have "0 < fresh demo_protocol_state" by (simp add: demo_protocol_state_def)
  from mailbox_send_refines [OF demo_refines this, of True "\<lparr>func = 3, cancel = 0, arg = 30\<rparr>"]
  show ?thesis by (auto simp: demo_protocol_state_def)
qed

text \<open>
  Claim C35. \<open>_emscripten_check_mailbox\<close>, whatever messages the messages it runs send to the same mailbox, or others send
  while they run, as long as these come to an end: it returns after running each message once in order, the new ones too,
  and is a sequence of steps of the protocol that consumes one notification and leaves the mailbox empty and idle. If
  nothing was sent meanwhile no notification is pending; otherwise one is, and it is on its way.
\<close>

theorem check_mailbox_refines:
  assumes "refines w t p" and "owner p" "phase p = Idle" "0 < in_flight p" "0 < refcount p"
    and "\<And>f a q v. call f a (q, v) = (fold mailbox_put (sends f a v) q, g f a v)"
    and "delivered sends g (box p) v later"
  shows "\<exists>q' p'. emscripten_check_mailbox call id (queue_at w (mailbox (pthread_at w t))) v =
      Some (q', fold (\<lambda>m. g (func m) (arg m)) (box p @ later) v) \<and>
    mailbox_step\<^sup>*\<^sup>* p p' \<and> refines (set_queue (mailbox (pthread_at w t)) q' w) t p' \<and>
    phase p' = Idle \<and> box p' = [] \<and>
    notif p' = (if later = [] then NOTIFICATION_NONE else NOTIFICATION_PENDING) \<and>
    in_flight p' = in_flight p - 1 + (if later = [] then 0 else 1)"
  using assms by (rule check_mailbox_refines')

text \<open>The first message, function 1, sends message 3, which is run as well; its notification stays pending.\<close>

definition demo_sends :: "u32 \<Rightarrow> u32 \<Rightarrow> u32 list \<Rightarrow> em_task list" where
  "demo_sends f a v = (if f = 1 then [\<lparr>func = 3, cancel = 0, arg = 30\<rparr>] else [])"

theorem check_mailbox_refines_witness:
  "\<exists>q' p'. emscripten_check_mailbox (\<lambda>f a (q, w). (fold mailbox_put (demo_sends f a w) q, w @ [f])) id (queue_at demo_world 4) [] =
      Some (q', [1, 2, 3]) \<and>
     refines (set_queue 4 q' demo_world) 8 p' \<and> box p' = [] \<and> notif p' = NOTIFICATION_PENDING \<and> in_flight p' = 1"
proof -
  have p: "owner demo_protocol_state" "phase demo_protocol_state = Idle" "0 < in_flight demo_protocol_state"
    "0 < refcount demo_protocol_state" "in_flight demo_protocol_state = 1"
    "box demo_protocol_state = [\<lparr>func = 1, cancel = 5, arg = 10\<rparr>, \<lparr>func = 2, cancel = 0, arg = 20\<rparr>]"
    "mailbox (pthread_at demo_world 8) = 4"
    by (simp_all add: demo_protocol_state_def demo_queue_inv demo_world_def)
  have r: "delivered demo_sends (\<lambda>f a w. w @ [f]) (t # ts) v (ms @ later)"
    if "delivered demo_sends (\<lambda>f a w. w @ [f]) (ts @ ms) (v @ [func t]) later" "ms = demo_sends (func t) (arg t) v"
    for t ts v ms later
    using delivered.run_next [of demo_sends "\<lambda>f a w. w @ [f]" ts t v later] that by simp
  have "delivered demo_sends (\<lambda>f a w. w @ [f]) (box demo_protocol_state) []
      ([\<lparr>func = 3, cancel = 0, arg = 30\<rparr>] @ [] @ [] @ [])"
    unfolding p(6) by (intro r; (simp add: demo_sends_def)?) (auto intro!: r [where ms = "[]", simplified] delivered.all_run simp: demo_sends_def)
  then have del: "delivered demo_sends (\<lambda>f a w. w @ [f]) (box demo_protocol_state) [] [\<lparr>func = 3, cancel = 0, arg = 30\<rparr>]"
    by simp
  show ?thesis
    using check_mailbox_refines [OF demo_refines p(1-4) _ del, where call =
        "\<lambda>f a (q, w). (fold mailbox_put (demo_sends f a w) q, w @ [f])"] p(5-7) by auto
qed

end
