(* ===== verification/Proxying.thy ===== *)
theory Proxying
  imports Mailbox
begin

text \<open>
  Proxying queues: the first half of \<open>system/lib/pthread/proxying.c\<close>. A proxying queue holds one task
  queue for each thread that work has been proxied to. The locale \<open>task_channel\<close> is what the second
  half, the contexts of proxied work, relies on; \<open>do_proxy\<close> implements it.
\<close>

section \<open>State\<close>

text \<open>
  \<open>task_queues\<close> lists the \<open>size\<close> entries in use of the array of \<open>pq_capacity\<close> pointers.
  What the allocator answers is the state component \<open>answers\<close>: for the \<open>n\<close>-th call of \<open>do_proxy\<close> and
  the addresses in use at that moment, whether the array can grow, the address of a new
  task queue, and whether its buffer and two larger buffers can be had.
\<close>

record em_proxying_queue =
  task_queues :: "u32 list"
  pq_capacity :: nat

record alloc_answer =
  grown :: bool
  queue_mem :: u32
  buffer_ok :: bool
  larger_ok :: bool
  larger_box_ok :: bool

record proxy_state =
  mail :: mailbox_world
  pqueues :: "u32 \<Rightarrow> em_proxying_queue"
  pq_live :: "u32 \<Rightarrow> bool"
  system_queue_in_use :: "u32 \<Rightarrow> bool"
  answers :: "nat \<Rightarrow> u32 set \<Rightarrow> alloc_answer"
  asked :: nat

abbreviation store :: "proxy_state \<Rightarrow> queue_store" where
  "store m \<equiv> queue_store.truncate (mail m)"

definition with_store :: "queue_store \<Rightarrow> proxy_state \<Rightarrow> proxy_state" where
  "with_store s m = m\<lparr>mail := (mail m)\<lparr>queue_at := queue_at s, live := live s\<rparr>\<rparr>"

section \<open>Operations\<close>

definition em_proxying_queue_create :: "u32 \<Rightarrow> proxy_state \<Rightarrow> u32 \<times> proxy_state" where
  "em_proxying_queue_create q m =
     (if q = 0 then (0, m)
      else (q, m\<lparr>pq_live := (pq_live m)(q := True),
                 pqueues := (pqueues m)(q := \<lparr>task_queues = [], pq_capacity = 0\<rparr>)\<rparr>))"

definition em_proxying_queue_destroy :: "u32 \<Rightarrow> proxy_state \<Rightarrow> proxy_state" where
  "em_proxying_queue_destroy q m =
     (let m1 = with_store (fold em_task_queue_destroy (task_queues (pqueues m q)) (store m)) m
      in m1\<lparr>pq_live := (pq_live m1)(q := False)\<rparr>)"

definition get_tasks_for_thread :: "u32 \<Rightarrow> u32 \<Rightarrow> proxy_state \<Rightarrow> u32" where
  "get_tasks_for_thread q thr m =
     (case find (\<lambda>a. thread (queue_at (mail m) a) = thr) (task_queues (pqueues m q)) of
        Some a \<Rightarrow> a
      | None \<Rightarrow> 0)"

text \<open>\<^const>\<open>None\<close> is a walk over the zombie list that does not end.\<close>

definition get_or_add_tasks_for_thread :: "u32 \<Rightarrow> u32 \<Rightarrow> proxy_state \<Rightarrow> (u32 \<times> proxy_state) option" where
  "get_or_add_tasks_for_thread q thr m =
     (let t = get_tasks_for_thread q thr m
      in if t \<noteq> 0 then Some (t, m)
         else
           let ans = answers m (asked m);
               full = length (task_queues (pqueues m q)) = pq_capacity (pqueues m q);
               new_capacity = (if pq_capacity (pqueues m q) = 0 then 1 else pq_capacity (pqueues m q) * 2)
           in if full \<and> \<not> grown (ans (live (mail m))) then Some (0, m)
              else
                let m1 = (if full then m\<lparr>pqueues := (pqueues m)(q := (pqueues m q)\<lparr>pq_capacity := new_capacity\<rparr>)\<rparr> else m)
                in case cull_zombies (store m1) of
                     None \<Rightarrow> None
                   | Some s \<Rightarrow>
                       (case em_task_queue_create (queue_mem (ans (live s))) (buffer_ok (ans (live s))) thr (store m1) of
                          None \<Rightarrow> None
                        | Some (a, s1) \<Rightarrow>
                            let m2 = with_store s1 m1
                            in if a = 0 then Some (0, m2)
                               else Some (a, m2\<lparr>pqueues := (pqueues m2)(q := (pqueues m2 q)\<lparr>
                                      task_queues := task_queues (pqueues m2 q) @ [a]\<rparr>)\<rparr>)))"

text \<open>
  \<open>system_queue\<close> is the address of the static queue. \<open>self\<close> is the current thread, whose flag
  \<open>system_queue_in_use\<close> is set while the queue's mutex is held.
\<close>

definition do_proxy ::
  "u32 \<times> u32 \<Rightarrow> u32 \<Rightarrow> u32 \<Rightarrow> u32 \<Rightarrow> u32 \<Rightarrow> em_task \<Rightarrow> proxy_state \<Rightarrow> (bool \<times> proxy_state) option" where
  "do_proxy fns system_queue self q target_thread t m =
     (let in_use = (\<lambda>b m. if q = system_queue
                          then m\<lparr>system_queue_in_use := (system_queue_in_use m)(self := b)\<rparr> else m);
          ans = answers m (asked m) (live (mail m))
      in case get_or_add_tasks_for_thread q target_thread (in_use True m) of
           None \<Rightarrow> None
         | Some (a, m1) \<Rightarrow>
             let m2 = (in_use False m1)\<lparr>asked := asked m1 + 1\<rparr>
             in if a = 0 then Some (False, m2)
                else
                  let (ok, w) = em_task_queue_send fns (larger_ok ans) (larger_box_ok ans) a t (mail m2)
                  in Some (ok, m2\<lparr>mail := w\<rparr>))"

definition emscripten_proxy_async ::
  "u32 \<times> u32 \<Rightarrow> u32 \<Rightarrow> u32 \<Rightarrow> u32 \<Rightarrow> u32 \<Rightarrow> u32 \<Rightarrow> u32 \<Rightarrow> proxy_state \<Rightarrow> (bool \<times> proxy_state) option" where
  "emscripten_proxy_async fns system_queue self q target_thread f a m =
     do_proxy fns system_queue self q target_thread \<lparr>func = f, cancel = 0, arg = a\<rparr> m"

text \<open>
  \<open>call\<close> runs a task on its queue, which it may refill, and on everything else.
\<close>

definition emscripten_proxy_execute_queue ::
  "proxy_state task_call \<Rightarrow> u32 \<Rightarrow> u32 \<Rightarrow> u32 \<Rightarrow> proxy_state \<Rightarrow> proxy_state option" where
  "emscripten_proxy_execute_queue call system_queue self q m =
     (if q = system_queue \<and> system_queue_in_use m self then Some m
      else
        let in_use = (\<lambda>b m. if q = system_queue
                            then m\<lparr>system_queue_in_use := (system_queue_in_use m)(self := b)\<rparr> else m);
            m1 = in_use True m;
            a = get_tasks_for_thread q self m1
        in if a \<noteq> 0 \<and> \<not> processing (queue_at (mail m1) a)
           then
             (case em_task_queue_execute call (queue_at (mail m1) a) m1 of
                None \<Rightarrow> None
              | Some (q1, m2) \<Rightarrow> Some (in_use False (m2\<lparr>mail := set_queue a q1 (mail m2)\<rparr>)))
           else Some (in_use False m1))"

section \<open>What culling and sending leave alone\<close>

text \<open>A task queue but for its links in the zombie list and its notification flag.\<close>

definition core :: "em_task_queue \<Rightarrow> em_task_queue" where
  "core q = q\<lparr>notification := NOTIFICATION_NONE, zombie_prev := 0, zombie_next := 0\<rparr>"

lemma core_fields:
  "core q = core q' \<Longrightarrow> tasks q = tasks q' \<and> head q = head q' \<and> tail q = tail q' \<and> capacity q = capacity q' \<and> thread q = thread q'"
  by (cases q; cases q') (simp add: core_def)

lemma core_readings:
  assumes "core q = core q'"
  shows "queue_inv q = queue_inv q'" "queue_contents q = queue_contents q'" "thread q = thread q'"
    "em_task_queue_is_empty q = em_task_queue_is_empty q'"
  using core_fields [OF assms]
  by (simp_all add: queue_inv_def queue_contents_def occupied_def em_task_queue_is_empty_def)

lemma core_upd [simp]:
  "core (q\<lparr>notification := n\<rparr>) = core q" "core (q\<lparr>zombie_prev := a\<rparr>) = core q" "core (q\<lparr>zombie_next := a\<rparr>) = core q"
  by (simp_all add: core_def)

lemma upd_queue_core:
  "core (queue_at (upd_queue a (zombie_next_update (\<lambda>_. v)) s) b) = core (queue_at s b)"
  "core (queue_at (upd_queue a (zombie_prev_update (\<lambda>_. v)) s) b) = core (queue_at s b)"
  "zombie_list_head (upd_queue a f s) = zombie_list_head s" "zombie_locked (upd_queue a f s) = zombie_locked s"
  "core (queue_at (em_task_queue_free a s) b) = core (queue_at s b)"
  "zombie_list_head (em_task_queue_free a s) = zombie_list_head s"
  "zombie_locked (em_task_queue_free a s) = zombie_locked s"
  by (simp_all add: upd_queue_def em_task_queue_free_def)

lemma cull_loop_frame:
  assumes "cull_loop cur s = Some s'"
  shows "(\<forall>a. core (queue_at s' a) = core (queue_at s a)) \<and> zombie_list_head s' = zombie_list_head s \<and>
     zombie_locked s' = zombie_locked s"
  using assms
proof (induction rule: cull_loop.raw_induct [rotated, consumes 1])
  case (1 rec cur s s')
  note IH = 1(1) [rule_format]
  from 1(2) show ?case
    by (simp add: Let_def split: if_splits) (drule IH, simp add: upd_queue_core)+
qed

lemma cull_frame:
  "cull_zombies s = Some s' \<Longrightarrow>
     (\<forall>a. core (queue_at s' a) = core (queue_at s a)) \<and> zombie_list_head s' = zombie_list_head s \<and>
     zombie_locked s' = zombie_locked s"
  using cull_loop_frame by (auto simp: cull_zombies_def split: if_splits)

lemma enqueue_frame:
  assumes "em_task_queue_enqueue ok q t = (r, q')"
  shows "thread q' = thread q" "zombie_next q' = zombie_next q" "zombie_prev q' = zombie_prev q"
  using assms by (auto simp: em_task_queue_enqueue_def em_task_queue_grow_def Let_def split: if_splits)

lemma mailbox_send_frame:
  defines "mbox w t \<equiv> mailbox (pthread_at w t)"
  assumes "emscripten_thread_mailbox_send ok t k w = w'"
  shows "pthread_at w' = pthread_at w" "b \<noteq> mbox w t \<Longrightarrow> queue_at w' b = queue_at w b" "live w' = live w"
    "zombie_list_head w' = zombie_list_head w" "zombie_locked w' = zombie_locked w"
    "thread (queue_at w' b) = thread (queue_at w b)" "zombie_next (queue_at w' b) = zombie_next (queue_at w b)"
    "zombie_prev (queue_at w' b) = zombie_prev (queue_at w b)"
proof -
  obtain r q1 where q1: "em_task_queue_enqueue ok (queue_at w (mbox w t)) k = (r, q1)"
    by (cases "em_task_queue_enqueue ok (queue_at w (mbox w t)) k")
  note F = enqueue_frame [OF q1]
  have w': "\<exists>n. queue_at w' = (queue_at w)(mbox w t := q1\<lparr>notification := n\<rparr>) \<and> pthread_at w' = pthread_at w \<and>
      live w' = live w \<and> zombie_list_head w' = zombie_list_head w \<and> zombie_locked w' = zombie_locked w"
    unfolding assms(2) [symmetric] emscripten_thread_mailbox_send_def Let_def
    using q1 by (intro exI [of _ "fst (exchange_pending (notification q1))"]) (simp add: set_queue_def mbox_def split_beta)
  then show "pthread_at w' = pthread_at w" "live w' = live w" "zombie_list_head w' = zombie_list_head w"
    "zombie_locked w' = zombie_locked w" by blast+
  show "b \<noteq> mbox w t \<Longrightarrow> queue_at w' b = queue_at w b" using w' by auto
  show "thread (queue_at w' b) = thread (queue_at w b)" "zombie_next (queue_at w' b) = zombie_next (queue_at w b)"
    "zombie_prev (queue_at w' b) = zombie_prev (queue_at w b)" using w' F by auto
qed

text \<open>What \<open>em_task_queue_send\<close> does to the queue it is given, and to everything else.\<close>

lemma task_send_effect:
  fixes w :: mailbox_world
  assumes run: "em_task_queue_send fns ok ok' a k w = (r, w')" and inv: "queue_inv (queue_at w a)"
    and apart: "mailbox_refcount (pthread_at w (thread (queue_at w a))) \<noteq> 0 \<longrightarrow>
      mailbox (pthread_at w (thread (queue_at w a))) \<noteq> a"
  shows "queue_inv (queue_at w' a)"
    "queue_contents (queue_at w' a) = (if r then queue_contents (queue_at w a) @ [k] else queue_contents (queue_at w a))"
    "b \<noteq> a \<Longrightarrow> \<not> (mailbox_refcount (pthread_at w (thread (queue_at w a))) \<noteq> 0 \<and>
       b = mailbox (pthread_at w (thread (queue_at w a)))) \<Longrightarrow> queue_at w' b = queue_at w b"
    "live w' = live w" "zombie_list_head w' = zombie_list_head w" "zombie_locked w' = zombie_locked w"
    "thread (queue_at w' b) = thread (queue_at w b)" "zombie_next (queue_at w' b) = zombie_next (queue_at w b)"
    "zombie_prev (queue_at w' b) = zombie_prev (queue_at w b)"
    "mailbox (pthread_at w' t) = mailbox (pthread_at w t)"
    "mailbox_refcount (pthread_at w' t) = mailbox_refcount (pthread_at w t)"
    "r \<longleftrightarrow> mailbox_refcount (pthread_at w (thread (queue_at w a))) \<noteq> 0 \<and> fst (em_task_queue_enqueue ok (queue_at w a) k)"
proof -
  define thr where "thr = thread (queue_at w a)"
  define c where "c = mailbox_refcount (pthread_at w thr)"
  obtain e q1 where q1: "em_task_queue_enqueue ok (queue_at w a) k = (e, q1)"
    by (cases "em_task_queue_enqueue ok (queue_at w a) k")
  note F = enqueue_frame [OF q1]
  have main: "queue_inv (queue_at w' a) \<and>
    queue_contents (queue_at w' a) = (if r then queue_contents (queue_at w a) @ [k] else queue_contents (queue_at w a)) \<and>
    (\<forall>b. b \<noteq> a \<and> \<not> (c \<noteq> 0 \<and> b = mailbox (pthread_at w thr)) \<longrightarrow> queue_at w' b = queue_at w b) \<and>
    live w' = live w \<and> zombie_list_head w' = zombie_list_head w \<and> zombie_locked w' = zombie_locked w \<and>
    (\<forall>b. thread (queue_at w' b) = thread (queue_at w b) \<and> zombie_next (queue_at w' b) = zombie_next (queue_at w b) \<and>
       zombie_prev (queue_at w' b) = zombie_prev (queue_at w b)) \<and>
    (\<forall>t. mailbox (pthread_at w' t) = mailbox (pthread_at w t) \<and>
       mailbox_refcount (pthread_at w' t) = mailbox_refcount (pthread_at w t)) \<and> (r \<longleftrightarrow> c \<noteq> 0 \<and> e)"
  proof (cases "c = 0")
    case True
    then have "w' = w" "\<not> r" using run by (simp_all add: em_task_queue_send_def mailbox_ref_eq Let_def c_def thr_def)
    then show ?thesis using inv True by simp
  next
    case c: False
    let ?w1 = "upd_pthread thr (mailbox_refcount_update (\<lambda>_. c + 1)) w"
    have ref: "emscripten_thread_mailbox_ref thr w = (True, ?w1)" using c by (simp add: mailbox_ref_eq c_def)
    have qa: "queue_at ?w1 = queue_at w" by (simp add: upd_pthread_def)
    show ?thesis
    proof (cases e)
      case False
      then have "q1 = queue_at w a" using queue_enqueue_fail [of ok "queue_at w a" k q1] q1 by simp
      moreover have "r = False" "w' = emscripten_thread_mailbox_unref thr (set_queue a q1 ?w1)"
        using run False by (simp_all add: em_task_queue_send_def thr_def [symmetric] ref qa q1 Let_def)
      ultimately show ?thesis
        using inv False by (auto simp: emscripten_thread_mailbox_unref_def set_queue_def upd_pthread_def c_def Let_def)
    next
      case e: True
      let ?n = "exchange_pending (notification q1)"
      let ?w3 = "set_queue a (q1\<lparr>notification := fst ?n\<rparr>) (set_queue a q1 ?w1)"
      let ?w4 = "if snd ?n then emscripten_thread_mailbox_send ok' thr \<lparr>func = fst fns, cancel = snd fns, arg = a\<rparr> ?w3 else ?w3"
      have r: "r" "w' = emscripten_thread_mailbox_unref thr ?w4"
        using run e by (simp_all add: em_task_queue_send_def thr_def [symmetric] ref qa q1 Let_def
            split_beta split: if_splits)
      define v where "v = ?w4"
      have box: "mailbox (pthread_at ?w3 thr) = mailbox (pthread_at w thr)"
        by (simp add: set_queue_def upd_pthread_def)
      note M = mailbox_send_frame [of ok' thr "\<lparr>func = fst fns, cancel = snd fns, arg = a\<rparr>" ?w3, OF refl, unfolded box]
      have w4: "pthread_at ?w4 = pthread_at ?w1" "live ?w4 = live w" "zombie_list_head ?w4 = zombie_list_head w"
        "zombie_locked ?w4 = zombie_locked w"
        using M(1,3-5) by (simp_all add: set_queue_def upd_pthread_def)
      have w4q: "thread (queue_at ?w4 b) = thread (queue_at w b)" "zombie_next (queue_at ?w4 b) = zombie_next (queue_at w b)"
        "zombie_prev (queue_at ?w4 b) = zombie_prev (queue_at w b)" for b
        using M(6-8) [of b] F by (simp_all add: set_queue_def upd_pthread_def)
      have w4a: "queue_at ?w4 a = q1\<lparr>notification := fst ?n\<rparr>"
        using M(2) [of a] apart c by (simp add: set_queue_def thr_def c_def)
      have w4b: "queue_at ?w4 b = queue_at w b" if "b \<noteq> a" "b \<noteq> mailbox (pthread_at w thr)" for b
        using M(2) [of b] that by (simp add: set_queue_def upd_pthread_def)
      have q: "queue_inv q1" "queue_contents q1 = queue_contents (queue_at w a) @ [k]"
        using queue_enqueue_ok [OF inv, of ok k q1] q1 e by simp_all
      have "\<not> (c \<noteq> 0 \<and> b = mailbox (pthread_at w thr)) \<longleftrightarrow> b \<noteq> mailbox (pthread_at w thr)" for b using c by simp
      then show ?thesis
        unfolding r(2) v_def [symmetric]
        using r(1) w4 [folded v_def] w4q [folded v_def] w4a [folded v_def] w4b [folded v_def] q c e
        by (auto simp: emscripten_thread_mailbox_unref_def upd_pthread_def c_def Let_def)
    qed
  qed
  then show "queue_inv (queue_at w' a)"
    "queue_contents (queue_at w' a) = (if r then queue_contents (queue_at w a) @ [k] else queue_contents (queue_at w a))"
    "b \<noteq> a \<Longrightarrow> \<not> (mailbox_refcount (pthread_at w (thread (queue_at w a))) \<noteq> 0 \<and>
       b = mailbox (pthread_at w (thread (queue_at w a)))) \<Longrightarrow> queue_at w' b = queue_at w b"
    "live w' = live w" "zombie_list_head w' = zombie_list_head w" "zombie_locked w' = zombie_locked w"
    "thread (queue_at w' b) = thread (queue_at w b)" "zombie_next (queue_at w' b) = zombie_next (queue_at w b)"
    "zombie_prev (queue_at w' b) = zombie_prev (queue_at w b)"
    "mailbox (pthread_at w' t) = mailbox (pthread_at w t)"
    "mailbox_refcount (pthread_at w' t) = mailbox_refcount (pthread_at w t)"
    "r \<longleftrightarrow> mailbox_refcount (pthread_at w (thread (queue_at w a))) \<noteq> 0 \<and> fst (em_task_queue_enqueue ok (queue_at w a) k)"
    unfolding c_def thr_def q1 fst_conv by blast+
qed

section \<open>The interface of a task channel\<close>

text \<open>
  What the rest of the file relies on: \<open>send\<close> appends a task to those waiting for a thread on a queue, or
  fails and changes nothing, and \<open>take\<close> removes the oldest.
\<close>

locale task_channel =
  fixes ok :: "'m \<Rightarrow> bool"
    and waiting :: "u32 \<Rightarrow> u32 \<Rightarrow> 'm \<Rightarrow> em_task list"
    and send :: "u32 \<Rightarrow> u32 \<Rightarrow> u32 \<Rightarrow> em_task \<Rightarrow> 'm \<Rightarrow> (bool \<times> 'm) option"
    and take_first :: "u32 \<Rightarrow> u32 \<Rightarrow> 'm \<Rightarrow> (em_task \<times> 'm) option"
  assumes send_returns: "ok m \<Longrightarrow> \<exists>r m'. send self q t k m = Some (r, m') \<and> ok m'"
    and send_waiting: "ok m \<Longrightarrow> send self q t k m = Some (r, m') \<Longrightarrow>
      waiting q' t' m' = (if r \<and> q' = q \<and> t' = t then waiting q t m @ [k] else waiting q' t' m)"
    and take_waiting: "ok m \<Longrightarrow> take_first q t m = Some (k, m') \<Longrightarrow>
      ok m' \<and> waiting q t m = k # waiting q t m' \<and> ((q', t') \<noteq> (q, t) \<longrightarrow> waiting q' t' m' = waiting q' t' m)"
    and take_stuck: "ok m \<Longrightarrow> take_first q t m = None \<longleftrightarrow> waiting q t m = []"

section \<open>Proxying queues implement the channel\<close>

definition waiting_tasks :: "u32 \<Rightarrow> u32 \<Rightarrow> proxy_state \<Rightarrow> em_task list" where
  "waiting_tasks q thr m =
     (let a = get_tasks_for_thread q thr m in if a = 0 then [] else queue_contents (queue_at (mail m) a))"

definition take_task :: "u32 \<Rightarrow> u32 \<Rightarrow> proxy_state \<Rightarrow> (em_task \<times> proxy_state) option" where
  "take_task q thr m =
     (let a = get_tasks_for_thread q thr m
      in if a = 0 \<or> em_task_queue_is_empty (queue_at (mail m) a) then None
         else case em_task_queue_dequeue (queue_at (mail m) a) of
                (None, q1) \<Rightarrow> None
              | (Some k, q1) \<Rightarrow> Some (k, m\<lparr>mail := set_queue a q1 (mail m)\<rparr>))"

text \<open>
  The task queues of all proxying queues are different live queues, one for each thread in a
  proxying queue, none a zombie and none the mailbox of a thread that can still be sent to. \<open>malloc\<close>
  returns null or an address that is not in use.
\<close>

definition proxy_ok_with :: "u32 list \<Rightarrow> proxy_state \<Rightarrow> bool" where
  "proxy_ok_with zs m \<longleftrightarrow>
     zombies (store m) zs \<and> \<not> zombie_locked (mail m) \<and> set zs \<subseteq> live (mail m) \<and>
     (\<forall>q. \<forall>a\<in>set (task_queues (pqueues m q)).
        a \<noteq> 0 \<and> a \<in> live (mail m) \<and> a \<notin> set zs \<and> a \<noteq> zombie_list_head (mail m) \<and> queue_inv (queue_at (mail m) a)) \<and>
     (\<forall>q. distinct (map (\<lambda>a. thread (queue_at (mail m) a)) (task_queues (pqueues m q)))) \<and>
     (\<forall>q q'. q \<noteq> q' \<longrightarrow> set (task_queues (pqueues m q)) \<inter> set (task_queues (pqueues m q')) = {}) \<and>
     (\<forall>t. mailbox_refcount (pthread_at (mail m) t) \<noteq> 0 \<longrightarrow>
        mailbox (pthread_at (mail m) t) \<in> live (mail m) \<and> mailbox (pthread_at (mail m) t) \<notin> set zs \<and>
        (\<forall>q. mailbox (pthread_at (mail m) t) \<notin> set (task_queues (pqueues m q)))) \<and>
     (\<forall>n L. queue_mem (answers m n L) = 0 \<or>
        (queue_mem (answers m n L) \<notin> L \<and> queue_mem (answers m n L) \<noteq> zombie_list_head (mail m)))"

definition proxy_ok :: "proxy_state \<Rightarrow> bool" where
  "proxy_ok m \<longleftrightarrow> (\<exists>zs. proxy_ok_with zs m)"

lemma proxy_okD:
  assumes "proxy_ok_with zs m"
  shows "zombies (store m) zs" "\<not> zombie_locked (mail m)" "set zs \<subseteq> live (mail m)"
    "\<And>q a. a \<in> set (task_queues (pqueues m q)) \<Longrightarrow>
        a \<noteq> 0 \<and> a \<in> live (mail m) \<and> a \<notin> set zs \<and> a \<noteq> zombie_list_head (mail m) \<and> queue_inv (queue_at (mail m) a)"
    "\<And>q. distinct (map (\<lambda>a. thread (queue_at (mail m) a)) (task_queues (pqueues m q)))"
    "\<And>q q'. q \<noteq> q' \<Longrightarrow> set (task_queues (pqueues m q)) \<inter> set (task_queues (pqueues m q')) = {}"
    "\<And>t. mailbox_refcount (pthread_at (mail m) t) \<noteq> 0 \<Longrightarrow>
        mailbox (pthread_at (mail m) t) \<in> live (mail m) \<and> mailbox (pthread_at (mail m) t) \<notin> set zs \<and>
        (\<forall>q. mailbox (pthread_at (mail m) t) \<notin> set (task_queues (pqueues m q)))"
    "\<And>n L. queue_mem (answers m n L) = 0 \<or>
        (queue_mem (answers m n L) \<notin> L \<and> queue_mem (answers m n L) \<noteq> zombie_list_head (mail m))"
  using assms unfolding proxy_ok_with_def by ((elim conjE, assumption) | (elim conjE, simp))+

lemma get_tasks_found:
  assumes "proxy_ok_with zs m"
  shows "get_tasks_for_thread q t m = a \<and> a \<noteq> 0 \<longleftrightarrow>
    a \<in> set (task_queues (pqueues m q)) \<and> thread (queue_at (mail m) a) = t"
proof -
  note I = proxy_okD [OF assms]
  show ?thesis
  proof (cases "find (\<lambda>a. thread (queue_at (mail m) a) = t) (task_queues (pqueues m q))")
    case None
    then have "get_tasks_for_thread q t m = 0" by (simp add: get_tasks_for_thread_def)
    moreover have "\<forall>a\<in>set (task_queues (pqueues m q)). thread (queue_at (mail m) a) \<noteq> t"
      using None by (auto simp: find_None_iff)
    ultimately show ?thesis by auto
  next
    case (Some b)
    then have b: "b \<in> set (task_queues (pqueues m q))" "thread (queue_at (mail m) b) = t"
      by (auto simp: find_Some_iff)
    then have "b \<noteq> 0" using I(4) by blast
    have inj: "inj_on (\<lambda>a. thread (queue_at (mail m) a)) (set (task_queues (pqueues m q)))"
      using I(5) [of q] by (simp add: distinct_map)
    have uniq: "c = b" if "c \<in> set (task_queues (pqueues m q))" "thread (queue_at (mail m) c) = t" for c
      by (rule inj_onD [OF inj _ that(1) b(1)]) (simp add: that(2) b(2))
    have get: "get_tasks_for_thread q t m = b" using Some by (simp add: get_tasks_for_thread_def)
    show ?thesis
    proof (cases "a = b")
      case True
      then show ?thesis using b \<open>b \<noteq> 0\<close> get by simp
    next
      case False
      then have "\<not> (a \<in> set (task_queues (pqueues m q)) \<and> thread (queue_at (mail m) a) = t)" using uniq [of a] by fast
      then show ?thesis using False get by simp
    qed
  qed
qed


lemma get_tasks_cong:
  assumes "task_queues (pqueues m' q) = task_queues (pqueues m q)"
    and "\<And>a. thread (queue_at (mail m') a) = thread (queue_at (mail m) a)"
  shows "get_tasks_for_thread q t m' = get_tasks_for_thread q t m"
  using assms by (simp add: get_tasks_for_thread_def)

text \<open>Two states whose task queues hold the same tasks, whatever the flags and the zombie links say.\<close>

definition same_tasks :: "proxy_state \<Rightarrow> proxy_state \<Rightarrow> bool" where
  "same_tasks m m' \<longleftrightarrow> (\<forall>q. task_queues (pqueues m' q) = task_queues (pqueues m q)) \<and>
     (\<forall>q. \<forall>a\<in>set (task_queues (pqueues m q)). core (queue_at (mail m') a) = core (queue_at (mail m) a))"

lemma same_tasks_readings:
  assumes "same_tasks m m'"
  shows "get_tasks_for_thread q t m' = get_tasks_for_thread q t m" "waiting_tasks q t m' = waiting_tasks q t m"
proof -
  have th: "thread (queue_at (mail m') a) = thread (queue_at (mail m) a)" if "a \<in> set (task_queues (pqueues m q))" for a
    using assms that by (intro core_readings(3)) (simp add: same_tasks_def)
  have f: "find (\<lambda>a. thread (queue_at (mail m') a) = t) xs = find (\<lambda>a. thread (queue_at (mail m) a) = t) xs"
    if "set xs \<subseteq> set (task_queues (pqueues m q))" for xs
    using that by (induction xs) (simp_all add: th)
  show g: "get_tasks_for_thread q t m' = get_tasks_for_thread q t m"
    using assms f [of "task_queues (pqueues m q)"] by (simp add: get_tasks_for_thread_def same_tasks_def)
  have "get_tasks_for_thread q t m = 0 \<or> get_tasks_for_thread q t m \<in> set (task_queues (pqueues m q))"
    by (auto simp: get_tasks_for_thread_def find_Some_iff split: option.splits)
  moreover have "queue_contents (queue_at (mail m') a) = queue_contents (queue_at (mail m) a)"
    if "a \<in> set (task_queues (pqueues m q))" for a
    using assms that by (intro core_readings(2)) (simp add: same_tasks_def)
  ultimately show "waiting_tasks q t m' = waiting_tasks q t m"
    by (auto simp: waiting_tasks_def Let_def g)
qed

lemma store_fields [simp]:
  "queue_at (store m) = queue_at (mail m)" "live (store m) = live (mail m)"
  "zombie_list_head (store m) = zombie_list_head (mail m)" "zombie_locked (store m) = zombie_locked (mail m)"
  by (simp_all add: queue_store.defs)

lemma with_store_fields [simp]:
  "queue_at (mail (with_store s m)) = queue_at s" "live (mail (with_store s m)) = live s"
  "zombie_list_head (mail (with_store s m)) = zombie_list_head (mail m)"
  "zombie_locked (mail (with_store s m)) = zombie_locked (mail m)"
  "pthread_at (mail (with_store s m)) = pthread_at (mail m)"
  "pqueues (with_store s m) = pqueues m" "answers (with_store s m) = answers m" "asked (with_store s m) = asked m"
  "system_queue_in_use (with_store s m) = system_queue_in_use m"
  by (simp_all add: with_store_def)

lemma zombies_cong:
  assumes "\<And>a. zombie_next (queue_at s' a) = zombie_next (queue_at s a)"
    "\<And>a. zombie_prev (queue_at s' a) = zombie_prev (queue_at s a)" "zombie_list_head s' = zombie_list_head s"
  shows "zombies s' zs = zombies s zs"
  using zchain_cong [of "zombie_list_head s" zs "queue_at s'" "queue_at s" "zombie_list_head s"] assms
  by (simp add: zombies_def)

text \<open>Culling before a queue is made.\<close>

lemma cull_ok:
  assumes ok: "proxy_ok_with zs m"
  shows "\<exists>s zs'. cull_zombies (store m) = Some s \<and> proxy_ok_with zs' (with_store s m) \<and> same_tasks m (with_store s m) \<and>
    zombie_list_head s = zombie_list_head (mail m) \<and> (\<forall>a. thread (queue_at s a) = thread (queue_at (mail m) a)) \<and>
    live s \<subseteq> live (mail m)"
proof -
  note I = proxy_okD [OF ok]
  obtain s where s: "cull_zombies (store m) = Some s" "zombies s (filter (Task_Queue.pending (store m)) zs)"
    "live s = live (mail m) - {a \<in> set zs. \<not> Task_Queue.pending (store m) a}"
    using cull_zombies_correct' [OF I(1)] I(2) by auto
  note F = cull_frame [OF s(1)]
  have core: "core (queue_at s a) = core (queue_at (mail m) a)" for a using F by simp
  have th: "thread (queue_at s a) = thread (queue_at (mail m) a)" for a by (rule core_readings(3) [OF core])
  let ?zs = "filter (Task_Queue.pending (store m)) zs"
  have "proxy_ok_with ?zs (with_store s m)"
    unfolding proxy_ok_with_def
  proof (intro conjI allI impI ballI)
    show "zombies (store (with_store s m)) ?zs"
      using s(2) F zombies_cong [of "store (with_store s m)" s ?zs] by simp
    show "\<not> zombie_locked (mail (with_store s m))" using I(2) by simp
    show "set ?zs \<subseteq> live (mail (with_store s m))" using I(3) s(3) by auto
    fix q a assume "a \<in> set (task_queues (pqueues (with_store s m) q))"
    then have a: "a \<noteq> 0 \<and> a \<in> live (mail m) \<and> a \<notin> set zs \<and> a \<noteq> zombie_list_head (mail m) \<and> queue_inv (queue_at (mail m) a)"
      using I(4) by simp
    then show "a \<noteq> 0" "a \<in> live (mail (with_store s m))" "a \<notin> set ?zs" "a \<noteq> zombie_list_head (mail (with_store s m))"
      "queue_inv (queue_at (mail (with_store s m)) a)"
      using s(3) core_readings(1) [OF core [of a]] by simp_all
  next
    fix q show "distinct (map (\<lambda>a. thread (queue_at (mail (with_store s m)) a)) (task_queues (pqueues (with_store s m) q)))"
      using I(5) [of q] by (simp add: th)
  next
    fix q q' :: u32 assume "q \<noteq> q'"
    then show "set (task_queues (pqueues (with_store s m) q)) \<inter> set (task_queues (pqueues (with_store s m) q')) = {}"
      using I(6) by simp
  next
    fix t assume "mailbox_refcount (pthread_at (mail (with_store s m)) t) \<noteq> 0"
    then show "mailbox (pthread_at (mail (with_store s m)) t) \<in> live (mail (with_store s m))"
      "mailbox (pthread_at (mail (with_store s m)) t) \<notin> set ?zs"
      "\<And>q. mailbox (pthread_at (mail (with_store s m)) t) \<notin> set (task_queues (pqueues (with_store s m) q))"
      using I(7) [of t] s(3) by simp_all
  next
    fix n L show "queue_mem (answers (with_store s m) n L) = 0 \<or> queue_mem (answers (with_store s m) n L) \<notin> L \<and>
        queue_mem (answers (with_store s m) n L) \<noteq> zombie_list_head (mail (with_store s m))"
      using I(8) by simp
  qed
  moreover have "same_tasks m (with_store s m)" by (simp add: same_tasks_def core)
  ultimately show ?thesis using s(1,3) F th by auto
qed

text \<open>A new queue is added.\<close>

definition new_task_queue :: "u32 \<Rightarrow> em_task_queue" where
  "new_task_queue thr = \<lparr>notification = NOTIFICATION_NONE, thread = thr, processing = False,
     tasks = replicate EM_TASK_QUEUE_INITIAL_CAPACITY None, capacity = EM_TASK_QUEUE_INITIAL_CAPACITY,
     head = 0, tail = 0, zombie_prev = 0, zombie_next = 0\<rparr>"

lemma new_task_queue_inv: "queue_inv (new_task_queue t)" "queue_contents (new_task_queue t) = []"
  by (simp_all add: new_task_queue_def queue_inv_def queue_contents_def occupied_def EM_TASK_QUEUE_INITIAL_CAPACITY_def)

definition add_queue :: "u32 \<Rightarrow> u32 \<Rightarrow> u32 \<Rightarrow> proxy_state \<Rightarrow> proxy_state" where
  "add_queue q a t m =
     m\<lparr>mail := (mail m)\<lparr>queue_at := (queue_at (mail m))(a := new_task_queue t), live := insert a (live (mail m))\<rparr>,
       pqueues := (pqueues m)(q := (pqueues m q)\<lparr>task_queues := task_queues (pqueues m q) @ [a]\<rparr>)\<rparr>"

lemma add_queue_fields [simp]:
  "queue_at (mail (add_queue q a t m)) = (queue_at (mail m))(a := new_task_queue t)"
  "live (mail (add_queue q a t m)) = insert a (live (mail m))"
  "zombie_list_head (mail (add_queue q a t m)) = zombie_list_head (mail m)"
  "zombie_locked (mail (add_queue q a t m)) = zombie_locked (mail m)"
  "pthread_at (mail (add_queue q a t m)) = pthread_at (mail m)"
  "task_queues (pqueues (add_queue q a t m) q') = task_queues (pqueues m q') @ (if q' = q then [a] else [])"
  "answers (add_queue q a t m) = answers m" "asked (add_queue q a t m) = asked m"
  by (simp_all add: add_queue_def)

lemma add_queue_ok:
  assumes ok: "proxy_ok_with zs m" and a: "a \<noteq> 0" "a \<notin> live (mail m)" "a \<noteq> zombie_list_head (mail m)"
    and none: "get_tasks_for_thread q t m = 0"
  shows "proxy_ok_with zs (add_queue q a t m)" "waiting_tasks q' t' (add_queue q a t m) = waiting_tasks q' t' m"
    "get_tasks_for_thread q t (add_queue q a t m) = a"
proof -
  note I = proxy_okD [OF ok]
  let ?m = "add_queue q a t m"
  have fresh: "a \<notin> set (task_queues (pqueues m q))" "a \<notin> set zs" for q using I(3,4) a(2) by blast+
  have no_t: "thread (queue_at (mail m) b) \<noteq> t" if "b \<in> set (task_queues (pqueues m q))" for b
    using get_tasks_found [OF ok, of q t b] none that by auto
  show ok': "proxy_ok_with zs ?m"
    unfolding proxy_ok_with_def
  proof (intro conjI allI impI ballI)
    show "zombies (store ?m) zs"
    proof -
      have "zchain (queue_at (store ?m)) (zombie_list_head (mail m)) zs (zombie_list_head (mail m)) =
          zchain (queue_at (mail m)) (zombie_list_head (mail m)) zs (zombie_list_head (mail m))"
        by (rule zchain_cong) (use fresh(2) a(3) in auto)
      then show ?thesis using I(1) by (simp add: zombies_def)
    qed
    show "\<not> zombie_locked (mail ?m)" "set zs \<subseteq> live (mail ?m)" using I(2,3) by auto
  next
    fix q' b assume "b \<in> set (task_queues (pqueues ?m q'))"
    then have b: "b = a \<or> (b \<in> set (task_queues (pqueues m q')) \<and> b \<noteq> a)" using fresh(1) [of q'] by (auto split: if_splits)
    then show "b \<noteq> 0" "b \<in> live (mail ?m)" "b \<notin> set zs" "b \<noteq> zombie_list_head (mail ?m)"
      "queue_inv (queue_at (mail ?m) b)"
      using I(4) [of b q'] a fresh(2) new_task_queue_inv(1) by auto
  next
    fix q'
    have th: "thread (queue_at (mail ?m) b) = (if b = a then t else thread (queue_at (mail m) b))" for b
      by (simp add: new_task_queue_def)
    have "map (\<lambda>b. if b = a then t else thread (queue_at (mail m) b)) (task_queues (pqueues m q')) =
        map (\<lambda>b. thread (queue_at (mail m) b)) (task_queues (pqueues m q'))"
      using fresh(1) [of q'] by auto
    then show "distinct (map (\<lambda>b. thread (queue_at (mail ?m) b)) (task_queues (pqueues ?m q')))"
      using I(5) [of q'] no_t unfolding th by (cases "q' = q") (auto simp del: map_eq_conv)
  next
    fix q1 q2 :: u32 assume "q1 \<noteq> q2"
    then show "set (task_queues (pqueues ?m q1)) \<inter> set (task_queues (pqueues ?m q2)) = {}"
      using I(6) [of q1 q2] fresh(1) [of q1] fresh(1) [of q2] by (cases "q1 = q"; cases "q2 = q") simp_all
  next
    fix t' assume "mailbox_refcount (pthread_at (mail ?m) t') \<noteq> 0"
    then have "mailbox (pthread_at (mail m) t') \<in> live (mail m)" "mailbox (pthread_at (mail m) t') \<notin> set zs"
      "\<And>q. mailbox (pthread_at (mail m) t') \<notin> set (task_queues (pqueues m q))"
      using I(7) [of t'] by simp_all
    then show "mailbox (pthread_at (mail ?m) t') \<in> live (mail ?m)" "mailbox (pthread_at (mail ?m) t') \<notin> set zs"
      "\<And>q. mailbox (pthread_at (mail ?m) t') \<notin> set (task_queues (pqueues ?m q))"
      using a(2) by (auto split: if_splits)
  next
    fix n L show "queue_mem (answers ?m n L) = 0 \<or> queue_mem (answers ?m n L) \<notin> L \<and>
        queue_mem (answers ?m n L) \<noteq> zombie_list_head (mail ?m)"
      using I(8) by simp
  qed
  have get: "get_tasks_for_thread q' t' ?m = b \<and> b \<noteq> 0 \<longleftrightarrow>
      (q' = q \<and> t' = t \<and> b = a) \<or> (get_tasks_for_thread q' t' m = b \<and> b \<noteq> 0)" for q' t' b
    unfolding get_tasks_found [OF ok'] get_tasks_found [OF ok]
    using fresh(1) [of q'] by (auto simp: new_task_queue_def split: if_splits)
  show "get_tasks_for_thread q t ?m = a" using get [of q t a] a(1) by blast
  show "waiting_tasks q' t' ?m = waiting_tasks q' t' m"
  proof (cases "q' = q \<and> t' = t")
    case True
    then have "get_tasks_for_thread q' t' ?m = a" using get [of q' t' a] a(1) by blast
    then show ?thesis using True none a(1) by (simp add: waiting_tasks_def new_task_queue_inv)
  next
    case False
    have same: "get_tasks_for_thread q' t' ?m = get_tasks_for_thread q' t' m"
      using get [of q' t' "get_tasks_for_thread q' t' ?m"] get [of q' t' "get_tasks_for_thread q' t' m"] False by metis
    have "get_tasks_for_thread q' t' m \<noteq> a \<or> get_tasks_for_thread q' t' m = 0"
      using get_tasks_found [OF ok, of q' t' a] fresh(1) [of q'] by blast
    then show ?thesis using a(1) by (auto simp: waiting_tasks_def Let_def same)
  qed
qed

lemma same_tasks_upd:
  assumes "\<And>q. task_queues (pqueues m' q) = task_queues (pqueues m q)" and "mail m' = mail m" and "answers m' = answers m"
  shows "proxy_ok_with zs m' = proxy_ok_with zs m" "waiting_tasks q t m' = waiting_tasks q t m"
    "get_tasks_for_thread q t m' = get_tasks_for_thread q t m"
  using assms by (simp_all add: proxy_ok_with_def waiting_tasks_def get_tasks_for_thread_def Let_def)

lemma create_eq:
  "cull_zombies s = Some s1 \<Longrightarrow> em_task_queue_create a buf t s =
     Some (if a = 0 \<or> \<not> buf then (0, s1)
           else (a, s1\<lparr>live := insert a (live s1), queue_at := (queue_at s1)(a := new_task_queue t)\<rparr>))"
  by (simp add: em_task_queue_create_def new_task_queue_def)

text \<open>The allocator refuses nothing to the next call.\<close>

definition memory_granted :: "proxy_state \<Rightarrow> bool" where
  "memory_granted m \<longleftrightarrow> (\<forall>L\<subseteq>live (mail m). let ans = answers m (asked m) L
     in grown ans \<and> queue_mem ans \<noteq> 0 \<and> buffer_ok ans \<and> larger_ok ans)"

lemma get_or_add_effect:
  assumes ok: "proxy_ok_with zs m"
  shows "\<exists>a m' zs'. get_or_add_tasks_for_thread q t m = Some (a, m') \<and> proxy_ok_with zs' m' \<and>
    (\<forall>q' t'. waiting_tasks q' t' m' = waiting_tasks q' t' m) \<and>
    (a \<noteq> 0 \<longrightarrow> get_tasks_for_thread q t m' = a) \<and> pthread_at (mail m') = pthread_at (mail m) \<and>
    (memory_granted m \<longrightarrow> a \<noteq> 0)"
proof (cases "get_tasks_for_thread q t m = 0")
  case False
  then show ?thesis using ok by (auto simp: get_or_add_tasks_for_thread_def Let_def)
next
  case none: True
  define ans where "ans = answers m (asked m)"
  define full where "full \<longleftrightarrow> length (task_queues (pqueues m q)) = pq_capacity (pqueues m q)"
  define m1 where "m1 = (if full then m\<lparr>pqueues := (pqueues m)(q := (pqueues m q)\<lparr>pq_capacity :=
      if pq_capacity (pqueues m q) = 0 then 1 else pq_capacity (pqueues m q) * 2\<rparr>)\<rparr> else m)"
  have m1: "task_queues (pqueues m1 q') = task_queues (pqueues m q')" "mail m1 = mail m" "answers m1 = answers m"
    for q' by (simp_all add: m1_def)
  note S = same_tasks_upd [of m1 m, OF m1]
  obtain s zs' where s: "cull_zombies (store m1) = Some s" "proxy_ok_with zs' (with_store s m1)"
    "same_tasks m1 (with_store s m1)" "zombie_list_head s = zombie_list_head (mail m)"
    "\<And>a. thread (queue_at s a) = thread (queue_at (mail m) a)" "live s \<subseteq> live (mail m)"
    using cull_ok [of zs m1] ok S(1) m1(2) by auto
  let ?m = "with_store s m1"
  have w: "waiting_tasks q' t' ?m = waiting_tasks q' t' m" "get_tasks_for_thread q' t' ?m = get_tasks_for_thread q' t' m"
    for q' t' using same_tasks_readings [OF s(3)] S by simp_all
  let ?a = "queue_mem (ans (live s))"
  have run: "get_or_add_tasks_for_thread q t m =
     (if full \<and> \<not> grown (ans (live (mail m))) then Some (0, m)
      else if ?a = 0 \<or> \<not> buffer_ok (ans (live s)) then Some (0, ?m)
      else Some (?a, add_queue q ?a t ?m))"
    unfolding get_or_add_tasks_for_thread_def none ans_def [symmetric] full_def [symmetric] m1_def [symmetric] Let_def
      s(1) option.case create_eq [OF s(1)]
    by (simp add: add_queue_def with_store_def)
  show ?thesis
  proof (cases "full \<and> \<not> grown (ans (live (mail m))) \<or> ?a = 0 \<or> \<not> buffer_ok (ans (live s))")
    case True
    then show ?thesis using run ok s(2,6) w m1(2) by (auto simp: memory_granted_def ans_def Let_def)
  next
    case False
    have "answers ?m = answers m" using m1(3) by simp
    then have "?a \<noteq> 0" "?a \<notin> live (mail ?m)" "?a \<noteq> zombie_list_head (mail ?m)"
      using False proxy_okD(8) [OF s(2), of "asked m" "live s"] by (simp_all add: ans_def)
    from add_queue_ok [OF s(2) this, of q t] show ?thesis
      using False run w none m1(2) by auto
  qed
qed

text \<open>Writing a task queue back.\<close>

lemma put_queue_ok:
  assumes ok: "proxy_ok_with zs m" and a: "get_tasks_for_thread q t m = a" "a \<noteq> 0"
    and pq: "\<And>q. task_queues (pqueues m' q) = task_queues (pqueues m q)" and ans: "answers m' = answers m"
    and w: "live (mail m') = live (mail m)" "zombie_list_head (mail m') = zombie_list_head (mail m)"
      "zombie_locked (mail m') = zombie_locked (mail m)"
      "\<And>b. thread (queue_at (mail m') b) = thread (queue_at (mail m) b)"
      "\<And>b. zombie_next (queue_at (mail m') b) = zombie_next (queue_at (mail m) b)"
      "\<And>b. zombie_prev (queue_at (mail m') b) = zombie_prev (queue_at (mail m) b)"
      "\<And>t. mailbox (pthread_at (mail m') t) = mailbox (pthread_at (mail m) t)"
      "\<And>t. mailbox_refcount (pthread_at (mail m') t) = mailbox_refcount (pthread_at (mail m) t)"
    and inv: "queue_inv (queue_at (mail m') a)"
    and other: "\<And>b q. b \<in> set (task_queues (pqueues m q)) \<Longrightarrow> b \<noteq> a \<Longrightarrow> queue_at (mail m') b = queue_at (mail m) b"
  shows "proxy_ok_with zs m'"
    "waiting_tasks q' t' m' =
       (if q' = q \<and> t' = t then queue_contents (queue_at (mail m') a) else waiting_tasks q' t' m)"
proof -
  note I = proxy_okD [OF ok]
  have get: "get_tasks_for_thread q' t' m' = get_tasks_for_thread q' t' m" for q' t'
    by (rule get_tasks_cong [OF pq w(4)])
  have z: "zombies (store m') zs = zombies (store m) zs" by (rule zombies_cong) (simp_all add: w)
  have qinv: "queue_inv (queue_at (mail m') b)" if "b \<in> set (task_queues (pqueues m q'))" for b q'
    using other [OF that] I(4) [OF that] inv by (cases "b = a") auto
  show "proxy_ok_with zs m'"
    using I qinv unfolding proxy_ok_with_def pq ans w z by blast
  have mem: "a \<in> set (task_queues (pqueues m q))" "thread (queue_at (mail m) a) = t"
    using get_tasks_found [OF ok, of q t a] a by blast+
  show "waiting_tasks q' t' m' =
       (if q' = q \<and> t' = t then queue_contents (queue_at (mail m') a) else waiting_tasks q' t' m)"
  proof (cases "q' = q \<and> t' = t")
    case True
    then show ?thesis using a by (simp add: waiting_tasks_def get)
  next
    case False
    have "queue_at (mail m') b = queue_at (mail m) b" if b: "get_tasks_for_thread q' t' m = b" "b \<noteq> 0" for b
    proof -
      have mb: "b \<in> set (task_queues (pqueues m q'))" "thread (queue_at (mail m) b) = t'"
        using get_tasks_found [OF ok, of q' t' b] b by blast+
      then have "b \<noteq> a" using mem False I(6) [of q q'] by blast
      then show ?thesis using other [OF mb(1)] by simp
    qed
    then show ?thesis using False by (auto simp: waiting_tasks_def get Let_def)
  qed
qed

lemma do_proxy_effect:
  assumes "proxy_ok m"
  shows "\<exists>r m'. do_proxy fns sysq self q t k m = Some (r, m') \<and> proxy_ok m' \<and>
    (\<forall>q' t'. waiting_tasks q' t' m' = (if r \<and> q' = q \<and> t' = t then waiting_tasks q t m @ [k] else waiting_tasks q' t' m)) \<and>
    (memory_granted m \<longrightarrow> r = (mailbox_refcount (pthread_at (mail m) t) \<noteq> 0))"
proof -
  obtain zs where ok: "proxy_ok_with zs m" using assms by (auto simp: proxy_ok_def)
  define in_use where "in_use = (\<lambda>b (m :: proxy_state). if q = sysq
      then m\<lparr>system_queue_in_use := (system_queue_in_use m)(self := b)\<rparr> else m)"
  have in_use: "mail (in_use b m) = mail m" "pqueues (in_use b m) = pqueues m" "answers (in_use b m) = answers m" for b m
    by (simp_all add: in_use_def)
  define ans where "ans = answers m (asked m) (live (mail m))"
  have ok1: "proxy_ok_with zs (in_use True m)" using same_tasks_upd(1) [of "in_use True m" m] in_use ok by simp
  obtain a m1 zs' where m1: "get_or_add_tasks_for_thread q t (in_use True m) = Some (a, m1)" "proxy_ok_with zs' m1"
    "\<And>q' t'. waiting_tasks q' t' m1 = waiting_tasks q' t' (in_use True m)"
    "a \<noteq> 0 \<Longrightarrow> get_tasks_for_thread q t m1 = a" "pthread_at (mail m1) = pthread_at (mail (in_use True m))"
    "memory_granted (in_use True m) \<Longrightarrow> a \<noteq> 0"
    using get_or_add_effect [OF ok1] by blast
  have grant: "memory_granted (in_use True m) = memory_granted m" by (simp add: memory_granted_def in_use_def Let_def)
  have w1: "waiting_tasks q' t' m1 = waiting_tasks q' t' m" for q' t'
    using m1(3) same_tasks_upd(2) [of "in_use True m" m] in_use by simp
  define m2 where "m2 = (in_use False m1)\<lparr>asked := asked m1 + 1\<rparr>"
  have m2: "task_queues (pqueues m2 q') = task_queues (pqueues m1 q')" "mail m2 = mail m1" "answers m2 = answers m1" for q'
    by (simp_all add: m2_def in_use)
  note S = same_tasks_upd [of m2 m1, OF m2]
  have run: "do_proxy fns sysq self q t k m =
      (if a = 0 then Some (False, m2)
       else let (ok, w) = em_task_queue_send fns (larger_ok ans) (larger_box_ok ans) a k (mail m2)
            in Some (ok, m2\<lparr>mail := w\<rparr>))"
    unfolding do_proxy_def Let_def in_use_def [symmetric] ans_def [symmetric] m1(1) option.case prod.case m2_def by (rule refl)
  show ?thesis
  proof (cases "a = 0")
    case True
    then show ?thesis using run m1(2,6) S w1 grant by (auto simp: proxy_ok_def)
  next
    case False
    have ok2: "proxy_ok_with zs' m2" using S(1) m1(2) by blast
    have get: "get_tasks_for_thread q t m2 = a" using S(3) m1(4) False by simp
    note I = proxy_okD [OF ok2]
    have mem: "a \<in> set (task_queues (pqueues m2 q))" using get_tasks_found [OF ok2, of q t a] get False by blast
    obtain r w where send: "em_task_queue_send fns (larger_ok ans) (larger_box_ok ans) a k (mail m2) = (r, w)"
      by (cases "em_task_queue_send fns (larger_ok ans) (larger_box_ok ans) a k (mail m2)")
    have apart: "mailbox_refcount (pthread_at (mail m2) t') \<noteq> 0 \<Longrightarrow> b \<in> set (task_queues (pqueues m2 q')) \<Longrightarrow>
        mailbox (pthread_at (mail m2) t') \<noteq> b" for t' q' b using I(7) [of t'] by blast
    have own: "mailbox_refcount (pthread_at (mail m2) (thread (queue_at (mail m2) a))) \<noteq> 0 \<longrightarrow>
        mailbox (pthread_at (mail m2) (thread (queue_at (mail m2) a))) \<noteq> a" using apart mem by blast
    note E = task_send_effect [OF send conjunct2 [OF conjunct2 [OF conjunct2 [OF conjunct2 [OF I(4) [OF mem]]]]] own]
    let ?m = "m2\<lparr>mail := w\<rparr>"
    have other: "queue_at w b = queue_at (mail m2) b" if "b \<in> set (task_queues (pqueues m2 q'))" "b \<noteq> a" for b q'
      using E(3) [OF that(2)] apart [OF _ that(1)] by blast
    have P: "proxy_ok_with zs' ?m"
      "waiting_tasks q' t' ?m = (if q' = q \<and> t' = t then queue_contents (queue_at w a) else waiting_tasks q' t' m2)" for q' t'
      using put_queue_ok [OF ok2 get False, of ?m] other E by simp_all
    have "queue_contents (queue_at (mail m2) a) = waiting_tasks q t m"
      using w1 [of q t] S(2) [of q t] get False waiting_tasks_def [of q t m2] by simp
    then have "waiting_tasks q' t' ?m = (if r \<and> q' = q \<and> t' = t then waiting_tasks q t m @ [k] else waiting_tasks q' t' m)"
      for q' t' using P(2) [of q' t'] E(2) S(2) w1 by simp
    moreover have "r = (mailbox_refcount (pthread_at (mail m) t) \<noteq> 0)" if "memory_granted m"
    proof -
      have "larger_ok ans" using that by (auto simp: memory_granted_def ans_def Let_def)
      moreover have "thread (queue_at (mail m2) a) = t" using get_tasks_found [OF ok2, of q t a] get False by blast
      ultimately show ?thesis using E(12) queue_enqueue_memory m2(2) m1(5) in_use(1) by simp
    qed
    ultimately show ?thesis using run False send P(1) by (auto simp: proxy_ok_def)
  qed
qed

lemma take_task_effect:
  assumes "proxy_ok m"
  shows "take_task q t m = None \<longleftrightarrow> waiting_tasks q t m = []"
    "take_task q t m = Some (k, m') \<Longrightarrow> proxy_ok m' \<and> waiting_tasks q t m = k # waiting_tasks q t m' \<and>
      ((q', t') \<noteq> (q, t) \<longrightarrow> waiting_tasks q' t' m' = waiting_tasks q' t' m)"
proof -
  obtain zs where ok: "proxy_ok_with zs m" using assms by (auto simp: proxy_ok_def)
  note I = proxy_okD [OF ok]
  define a where "a = get_tasks_for_thread q t m"
  have inv: "queue_inv (queue_at (mail m) a)" if "a \<noteq> 0"
    using get_tasks_found [OF ok, of q t a] that I(4) a_def by blast
  have wait: "waiting_tasks q t m = (if a = 0 then [] else queue_contents (queue_at (mail m) a))"
    by (simp add: waiting_tasks_def a_def)
  show none: "take_task q t m = None \<longleftrightarrow> waiting_tasks q t m = []"
  proof (cases "a = 0 \<or> queue_contents (queue_at (mail m) a) = []")
    case True
    then show ?thesis using queue_empty inv by (auto simp: take_task_def a_def [symmetric] wait Let_def)
  next
    case False
    then obtain k ts where k: "queue_contents (queue_at (mail m) a) = k # ts" by (cases "queue_contents (queue_at (mail m) a)") auto
    then show ?thesis using queue_dequeue [OF inv k] False queue_empty [OF inv]
      by (auto simp: take_task_def a_def [symmetric] wait Let_def)
  qed
  assume take: "take_task q t m = Some (k, m')"
  then have ne: "a \<noteq> 0" "\<not> em_task_queue_is_empty (queue_at (mail m) a)"
    by (auto simp: take_task_def a_def [symmetric] Let_def split: if_splits)
  then obtain k' ts where ts: "queue_contents (queue_at (mail m) a) = k' # ts"
    using queue_empty [OF inv] by (cases "queue_contents (queue_at (mail m) a)") auto
  obtain q1 where q1: "em_task_queue_dequeue (queue_at (mail m) a) = (Some k', q1)" "queue_inv q1" "queue_contents q1 = ts"
    using queue_dequeue [OF inv [OF ne(1)] ts] by blast
  have k: "k = k'" "m' = m\<lparr>mail := set_queue a q1 (mail m)\<rparr>"
    using take ne q1(1) by (simp_all add: take_task_def a_def [symmetric] Let_def)
  have links: "thread q1 = thread (queue_at (mail m) a)" "zombie_next q1 = zombie_next (queue_at (mail m) a)"
    "zombie_prev q1 = zombie_prev (queue_at (mail m) a)"
    using q1(1) by (auto simp: em_task_queue_dequeue_def)
  have "proxy_ok_with zs m'"
    "waiting_tasks q' t' m' = (if q' = q \<and> t' = t then ts else waiting_tasks q' t' m)" for q' t'
    using put_queue_ok [OF ok a_def [symmetric] ne(1), of m'] links q1(2,3) by (simp_all add: k set_queue_def)
  then show "proxy_ok m' \<and> waiting_tasks q t m = k # waiting_tasks q t m' \<and>
      ((q', t') \<noteq> (q, t) \<longrightarrow> waiting_tasks q' t' m' = waiting_tasks q' t' m)"
    using ts ne(1) k(1) by (auto simp: wait proxy_ok_def)
qed

text \<open>
  Claim C15. \<open>do_proxy\<close> always returns. If it succeeds, the task is the last one waiting for the target thread on the
  queue; in either case no other thread and no other queue sees a change, whatever queues are grown,
  added and culled on the way. With memory it fails only if the mailbox of the target is closed.
\<close>

theorem do_proxy_appends:
  assumes "proxy_ok m"
  shows "\<exists>r m'. do_proxy fns sysq self q t k m = Some (r, m') \<and> proxy_ok m' \<and>
    (\<forall>q' t'. waiting_tasks q' t' m' = (if r \<and> q' = q \<and> t' = t then waiting_tasks q t m @ [k] else waiting_tasks q' t' m)) \<and>
    (memory_granted m \<longrightarrow> r = (mailbox_refcount (pthread_at (mail m) t) \<noteq> 0))"
  using assms by (rule do_proxy_effect)

definition demo_proxies :: proxy_state where
  "demo_proxies =
     \<lparr>mail = \<lparr>queue_at = (\<lambda>a. (new_task_queue 0)\<lparr>zombie_prev := 100, zombie_next := 100\<rparr>), live = {8},
        zombie_list_head = 100, zombie_locked = False,
        pthread_at = (\<lambda>t. \<lparr>mailbox = 8, mailbox_refcount = (if t = 5 then 1 else 0), waiting_async = False\<rparr>),
        futex_wakes = [], atomic_notifies = [], posted_messages = []\<rparr>,
      pqueues = (\<lambda>_. \<lparr>task_queues = [], pq_capacity = 0\<rparr>), pq_live = (\<lambda>q. q = 40), system_queue_in_use = (\<lambda>_. False),
      answers = (\<lambda>n L. \<lparr>grown = True, queue_mem = (if 16 \<in> L then 0 else 16), buffer_ok = True, larger_ok = True,
        larger_box_ok = True\<rparr>), asked = 0\<rparr>"

lemma demo_proxies_ok: "proxy_ok demo_proxies" "memory_granted demo_proxies" "waiting_tasks q t demo_proxies = []"
proof -
  have "proxy_ok_with [] demo_proxies"
    by (simp add: proxy_ok_with_def demo_proxies_def zombies_def queue_store.defs)
  then show "proxy_ok demo_proxies" by (auto simp: proxy_ok_def)
  show "memory_granted demo_proxies" by (auto simp: memory_granted_def demo_proxies_def Let_def)
  show "waiting_tasks q t demo_proxies = []" by (simp add: waiting_tasks_def get_tasks_for_thread_def demo_proxies_def)
qed

theorem do_proxy_appends_witness:
  "\<exists>m. do_proxy (1, 2) 0 3 40 5 \<lparr>func = 7, cancel = 0, arg = 9\<rparr> demo_proxies = Some (True, m) \<and>
     waiting_tasks 40 5 m = [\<lparr>func = 7, cancel = 0, arg = 9\<rparr>]"
proof -
  have "mailbox_refcount (pthread_at (mail demo_proxies) 5) \<noteq> 0" by (simp add: demo_proxies_def)
  then show ?thesis
    using do_proxy_appends [OF demo_proxies_ok(1), of "(1, 2)" 0 3 40 5 "\<lparr>func = 7, cancel = 0, arg = 9\<rparr>"] demo_proxies_ok(2,3)
    by auto
qed

interpretation pq: task_channel proxy_ok waiting_tasks "do_proxy fns sysq" take_task for fns sysq
  using take_task_effect do_proxy_effect [of _ fns sysq]
  by unfold_locales (blast | metis (no_types, lifting) option.inject prod.inject)+

end
