(* ===== verification/Proxying_Life.thy ===== *)
theory Proxying_Life
  imports Proxying_Contexts
begin

text \<open>
  The life of a proxied context. Any number of threads proxy work, run and drop tasks, finish
  contexts, exit and wake up; the steps are the functions of \<open>proxying.c\<close> over a task channel. The
  invariant assigns each live context its one place, and every step moves a context along its way.
\<close>

section \<open>Threads proxying work\<close>

text \<open>
  A user hands the library no index of its own static functions, and finishes a context only while it is active
  on the calling thread. The contexts of synchronous calls lie on the caller's stack and those of callbacks in
  blocks of \<open>malloc\<close>, so a new one is at an address where none is alive.
\<close>

definition own_function :: "ctx_fns \<Rightarrow> u32 \<Rightarrow> bool" where
  "own_function fn f \<longleftrightarrow> f \<in> {call_with_ctx_fn fn, cancel_ctx_fn fn, free_ctx_fn fn,
     call_callback_then_free_ctx_fn fn, call_cancel_then_free_ctx_fn fn}"

definition distinct_fns :: "ctx_fns \<Rightarrow> bool" where
  "distinct_fns fn \<longleftrightarrow> distinct [0, call_with_ctx_fn fn, cancel_ctx_fn fn, free_ctx_fn fn,
     call_callback_then_free_ctx_fn fn, call_cancel_then_free_ctx_fn fn]"

inductive proxy_step ::
  "'m sender \<Rightarrow> (u32 \<Rightarrow> u32 \<Rightarrow> 'm \<Rightarrow> (em_task \<times> 'm) option) \<Rightarrow> ctx_fns \<Rightarrow> 'm proxy_world \<Rightarrow> 'm proxy_world \<Rightarrow> bool"
  for send take_first fn where
  proxy_async: "\<not> own_function fn f \<Longrightarrow> send self q t \<lparr>func = f, cancel = 0, arg = a\<rparr> (channel w) = Some (r, m) \<Longrightarrow>
    proxy_step send take_first fn w (w\<lparr>channel := m\<rparr>)"
| proxy_sync: "c \<noteq> 0 \<Longrightarrow> \<not> ctx_live w c \<Longrightarrow>
    emscripten_proxy_sync_with_ctx send fn self q t f a c w = Some (r, w') \<Longrightarrow> proxy_step send take_first fn w w'"
| proxy_callback: "c = 0 \<or> \<not> ctx_live w c \<Longrightarrow>
    emscripten_proxy_callback_with_ctx send fn self q t f callback cancl a c w = Some (r, w') \<Longrightarrow>
    proxy_step send take_first fn w w'"
| proxy_run: "take_first q t (channel w) = Some (k, m) \<Longrightarrow>
    call_indirect send fn t (func k) (arg k) (w\<lparr>channel := m\<rparr>) = Some w' \<Longrightarrow> proxy_step send take_first fn w w'"
| proxy_drop: "take_first q t (channel w) = Some (k, m) \<Longrightarrow>
    (if cancel k \<noteq> 0 then call_indirect send fn t (cancel k) (arg k) (w\<lparr>channel := m\<rparr>) else Some (w\<lparr>channel := m\<rparr>))
      = Some w' \<Longrightarrow> proxy_step send take_first fn w w'"
| proxy_finish: "ring (ctx_at w) (active_ctxs w self) cs \<Longrightarrow> c \<in> set cs \<Longrightarrow>
    emscripten_proxy_finish send fn self c w = Some w' \<Longrightarrow> proxy_step send take_first fn w w'"
| proxy_exit: "active_ctxs w t \<noteq> 0 \<Longrightarrow> cancel_active_ctxs send fn t (active_ctxs w t) w = Some w' \<Longrightarrow>
    proxy_step send take_first fn w w'"
| proxy_wake: "ctx_live w c \<Longrightarrow> kind (ctx_at w c) = SYNC \<Longrightarrow> proxy_sync_wake c w = Some (r, w') \<Longrightarrow>
    proxy_step send take_first fn w w'"

definition idle_world :: "'m \<Rightarrow> 'm proxy_world" where
  "idle_world m = \<lparr>ctx_at = (\<lambda>_. em_proxying_ctx_init_sync 0 0), ctx_live = (\<lambda>_. False), active_ctxs = (\<lambda>_. 0),
     callback_at = (\<lambda>_. \<lparr>cc_func = 0, cc_callback = 0, cc_cancel = 0, cc_arg = 0\<rparr>),
     promise_at = (\<lambda>_. \<lparr>pc_func = 0, pc_arg = 0, pc_promise = 0\<rparr>),
     task_at = (\<lambda>_. \<lparr>func = 0, cancel = 0, arg = 0\<rparr>), calls_out = [], channel = m\<rparr>"

section \<open>Places\<close>

text \<open>
  A context waits on a queue for its target, is active there, travels back with its callback or
  its cancel function, or is settled and waits for its synchronous caller to see it.
\<close>

datatype place = Queued u32 u32 | Active u32 | Returning u32 u32 | Undoing u32 u32 | Settled

fun travels :: "ctx_fns \<Rightarrow> u32 \<Rightarrow> place \<Rightarrow> (u32 \<times> u32 \<times> em_task) option" where
  "travels fn c (Queued q t) = Some (q, t, \<lparr>func = call_with_ctx_fn fn, cancel = cancel_ctx_fn fn, arg = c\<rparr>)"
| "travels fn c (Returning q t) = Some (q, t, \<lparr>func = call_callback_then_free_ctx_fn fn, cancel = free_ctx_fn fn, arg = c\<rparr>)"
| "travels fn c (Undoing q t) = Some (q, t, \<lparr>func = call_cancel_then_free_ctx_fn fn, cancel = free_ctx_fn fn, arg = c\<rparr>)"
| "travels fn c (Active t) = None"
| "travels fn c Settled = None"

fun located :: "(u32 \<Rightarrow> u32 \<Rightarrow> 'm \<Rightarrow> em_task list) \<Rightarrow> ctx_fns \<Rightarrow> 'm proxy_world \<Rightarrow> u32 \<Rightarrow> place \<Rightarrow> bool" where
  "located waiting fn w c (Active t) \<longleftrightarrow> (\<exists>cs. ring (ctx_at w) (active_ctxs w t) cs \<and> c \<in> set cs)"
| "located waiting fn w c Settled \<longleftrightarrow> ctx_live w c \<and> kind (ctx_at w c) = SYNC \<and> sync_state (ctx_at w c) \<noteq> PENDING"
| "located waiting fn w c p \<longleftrightarrow>
     (case travels fn c p of Some (q, t, k) \<Rightarrow> k \<in> set (waiting q t (channel w)) | None \<Rightarrow> False)"

text \<open>The way of a context; \<^const>\<open>None\<close> is not allocated.\<close>

inductive moves :: "place option \<Rightarrow> place option \<Rightarrow> bool" where
  "moves None (Some (Queued q t))"
| "moves (Some (Queued q t)) (Some (Active t))"
| "moves (Some (Queued q t)) (Some Settled)"
| "moves (Some (Queued q t)) (Some (Undoing q' t'))"
| "moves (Some (Queued q t)) None"
| "moves (Some (Active t)) (Some Settled)"
| "moves (Some (Active t)) (Some (Returning q' t'))"
| "moves (Some (Active t)) (Some (Undoing q' t'))"
| "moves (Some (Active t)) None"
| "moves (Some (Returning q t)) None"
| "moves (Some (Undoing q t)) None"
| "moves (Some Settled) None"

definition ctx_task :: "ctx_fns \<Rightarrow> em_task \<Rightarrow> bool" where
  "ctx_task fn k \<longleftrightarrow> func k \<in> {call_with_ctx_fn fn, call_callback_then_free_ctx_fn fn, call_cancel_then_free_ctx_fn fn}"

text \<open>The three parts of the invariant: tasks, active lists, and what contexts say of themselves.\<close>

definition tasks_inv ::
  "(u32 \<Rightarrow> u32 \<Rightarrow> 'm \<Rightarrow> em_task list) \<Rightarrow> ctx_fns \<Rightarrow> (u32 \<Rightarrow> place option) \<Rightarrow> 'm \<Rightarrow> bool" where
  "tasks_inv waiting fn P m \<longleftrightarrow>
     (\<forall>q t. distinct (map arg (filter (ctx_task fn) (waiting q t m)))) \<and>
     (\<forall>q t k. k \<in> set (waiting q t m) \<and> ctx_task fn k \<longleftrightarrow>
        (\<exists>p. P (arg k) = Some p \<and> travels fn (arg k) p = Some (q, t, k))) \<and>
     (\<forall>q t k. k \<in> set (waiting q t m) \<and> \<not> ctx_task fn k \<longrightarrow> \<not> own_function fn (func k) \<and> cancel k = 0)"

definition rings_inv ::
  "(u32 \<Rightarrow> u32 set) \<Rightarrow> (u32 \<Rightarrow> u32 list) \<Rightarrow> (u32 \<Rightarrow> place option) \<Rightarrow> 'm proxy_world \<Rightarrow> bool" where
  "rings_inv L A P w \<longleftrightarrow> (\<forall>t. ring (ctx_at w) (active_ctxs w t) (A t)) \<and>
     (\<forall>t c. c \<in> set (A t) \<union> L t \<longleftrightarrow> P c = Some (Active t))"

definition says :: "place option \<Rightarrow> em_proxying_ctx \<Rightarrow> bool" where
  "says p x \<longleftrightarrow>
     (case p of
        Some Settled \<Rightarrow> kind x = SYNC \<and> sync_state x \<noteq> PENDING
      | Some (Returning _ _) \<Rightarrow> kind x = CALLBACK
      | Some (Undoing _ _) \<Rightarrow> kind x = CALLBACK
      | Some _ \<Rightarrow> kind x = SYNC \<longrightarrow> sync_state x = PENDING
      | None \<Rightarrow> True)"

definition ctx_inv :: "(u32 \<Rightarrow> place option) \<Rightarrow> 'm proxy_world \<Rightarrow> bool" where
  "ctx_inv P w \<longleftrightarrow> P 0 = None \<and> (\<forall>c. ctx_live w c \<longleftrightarrow> P c \<noteq> None) \<and> (\<forall>c. says (P c) (ctx_at w c))"

text \<open>\<open>L\<close> holds the contexts that a thread which exits has taken off its list but not yet cancelled.\<close>

definition life_inv ::
  "(u32 \<Rightarrow> u32 \<Rightarrow> 'm \<Rightarrow> em_task list) \<Rightarrow> ctx_fns \<Rightarrow> (u32 \<Rightarrow> u32 set) \<Rightarrow> (u32 \<Rightarrow> u32 list) \<Rightarrow> (u32 \<Rightarrow> place option) \<Rightarrow>
     'm proxy_world \<Rightarrow> bool" where
  "life_inv waiting fn L A P w \<longleftrightarrow> tasks_inv waiting fn P (channel w) \<and> rings_inv L A P w \<and> ctx_inv P w"

section \<open>Tasks\<close>

lemma travels_task:
  assumes "travels fn c p = Some (q, t, k)"
  shows "arg k = c" "ctx_task fn k" "own_function fn (func k)"
  using assms by (cases p; auto simp: ctx_task_def own_function_def)+

lemma travels_fields:
  "travels fn c (Queued q' t') = Some (q, t, k) \<Longrightarrow>
     func k = call_with_ctx_fn fn \<and> cancel k = cancel_ctx_fn fn \<and> q' = q \<and> t' = t"
  "travels fn c (Returning q' t') = Some (q, t, k) \<Longrightarrow>
     func k = call_callback_then_free_ctx_fn fn \<and> cancel k = free_ctx_fn fn \<and> q' = q \<and> t' = t"
  "travels fn c (Undoing q' t') = Some (q, t, k) \<Longrightarrow>
     func k = call_cancel_then_free_ctx_fn fn \<and> cancel k = free_ctx_fn fn \<and> q' = q \<and> t' = t"
  by auto

lemma travels_inj:
  assumes "distinct_fns fn" and "travels fn c p = Some (q, t, k)" and "travels fn c p' = Some (q, t, k)"
  shows "p' = p"
  using assms by (cases p; cases p') (auto simp: distinct_fns_def)

text \<open>A context that does not travel may change its place as long as it does not travel then either.\<close>

abbreviation resting :: "ctx_fns \<Rightarrow> u32 \<Rightarrow> place option \<Rightarrow> bool" where
  "resting fn c x \<equiv> (\<forall>p. x = Some p \<longrightarrow> travels fn c p = None)"

lemma tasks_inv_rest:
  assumes "tasks_inv waiting fn P m" and "resting fn c (P c)" and "resting fn c x"
  shows "tasks_inv waiting fn (P(c := x)) m"
  using assms unfolding tasks_inv_def by (auto split: if_splits)

lemma tasks_invD:
  assumes "tasks_inv waiting fn P m"
  shows "\<And>q t. distinct (map arg (filter (ctx_task fn) (waiting q t m)))"
    "\<And>q t k. k \<in> set (waiting q t m) \<Longrightarrow> ctx_task fn k \<Longrightarrow> \<exists>p. P (arg k) = Some p \<and> travels fn (arg k) p = Some (q, t, k)"
    "\<And>q t k p. P (arg k) = Some p \<Longrightarrow> travels fn (arg k) p = Some (q, t, k) \<Longrightarrow> k \<in> set (waiting q t m)"
    "\<And>q t k. k \<in> set (waiting q t m) \<Longrightarrow> \<not> ctx_task fn k \<Longrightarrow> \<not> own_function fn (func k) \<and> cancel k = 0"
  using assms unfolding tasks_inv_def by blast+

context task_channel
begin

lemma send_ctx:
  assumes ok: "ok m" and inv: "tasks_inv waiting fn P m" and fns: "distinct_fns fn"
    and tr: "travels fn c p = Some (q, t, k)" and rest: "resting fn c (P c)" and send: "send self q t k m = Some (r, m')"
  shows "tasks_inv waiting fn (if r then P(c \<mapsto> p) else P) m'"
proof (cases r)
  case False
  have w: "waiting q' t' m' = waiting q' t' m" for q' t' using send_waiting [OF ok send] False by simp
  have "tasks_inv waiting fn P m'" using inv unfolding tasks_inv_def w by assumption
  then show ?thesis using False by simp
next
  case True
  have w: "waiting q' t' m' = (if q' = q \<and> t' = t then waiting q t m @ [k] else waiting q' t' m)" for q' t'
    using send_waiting [OF ok send] True by simp
  note I = tasks_invD [OF inv]
  note K = travels_task [OF tr]
  have no: "arg k' \<noteq> c" if "k' \<in> set (waiting q' t' m)" "ctx_task fn k'" for q' t' k'
    using I(2) [OF that] rest by auto
  have "tasks_inv waiting fn (P(c \<mapsto> p)) m'"
    unfolding tasks_inv_def
  proof (intro conjI allI impI)
    have "c \<notin> arg ` set (filter (ctx_task fn) (waiting q t m))" using no by auto
    then show "distinct (map arg (filter (ctx_task fn) (waiting q' t' m')))" for q' t'
      using I(1) [of q' t'] I(1) [of q t] K(1,2) by (simp add: w)
    show "k' \<in> set (waiting q' t' m') \<and> ctx_task fn k' \<longleftrightarrow>
        (\<exists>p'. (P(c \<mapsto> p)) (arg k') = Some p' \<and> travels fn (arg k') p' = Some (q', t', k'))" for q' t' k'
    proof (cases "arg k' = c")
      case True
      then show ?thesis using no [of k' q' t'] no [of k' q t] K tr by (auto simp: w)
    next
      case False
      then have "k' \<noteq> k" using K(1) by blast
      then show ?thesis using False I(2) [of k' q' t'] I(3) [of k' _ q' t'] travels_task(2) by (auto simp: w)
    qed
    show "\<not> own_function fn (func k')" "cancel k' = 0"
      if "k' \<in> set (waiting q' t' m') \<and> \<not> ctx_task fn k'" for q' t' k'
      using that I(4) [of k' q' t'] K(2) by (auto simp: w split: if_splits)
  qed
  then show ?thesis using True by simp
qed

lemma send_other:
  assumes ok: "ok m" and inv: "tasks_inv waiting fn P m" and f: "\<not> own_function fn (func k)" "cancel k = 0"
    and send: "send self q t k m = Some (r, m')"
  shows "tasks_inv waiting fn P m'"
proof -
  have c: "\<not> ctx_task fn k" using f by (auto simp: ctx_task_def own_function_def)
  have w: "waiting q' t' m' = (if r \<and> q' = q \<and> t' = t then waiting q t m @ [k] else waiting q' t' m)" for q' t'
    by (rule send_waiting [OF ok send])
  note I = tasks_invD [OF inv]
  show ?thesis
    unfolding tasks_inv_def
  proof (intro conjI allI impI)
    show "distinct (map arg (filter (ctx_task fn) (waiting q' t' m')))" for q' t' using I(1) c by (simp add: w)
    show "k' \<in> set (waiting q' t' m') \<and> ctx_task fn k' \<longleftrightarrow>
        (\<exists>p'. P (arg k') = Some p' \<and> travels fn (arg k') p' = Some (q', t', k'))" for q' t' k'
      using I(2) [of k' q' t'] I(3) [of k' _ q' t'] travels_task(2) c by (cases "k' = k") (auto simp: w)
    show "\<not> own_function fn (func k')" "cancel k' = 0"
      if "k' \<in> set (waiting q' t' m') \<and> \<not> ctx_task fn k'" for q' t' k'
      using that I(4) [of k' q' t'] f by (auto simp: w split: if_splits)
  qed
qed

lemma take_inv:
  assumes ok: "ok m" and inv: "tasks_inv waiting fn P m" and take: "take_first q t m = Some (k, m')"
  shows "ctx_task fn k \<Longrightarrow> \<exists>p. P (arg k) = Some p \<and> travels fn (arg k) p = Some (q, t, k) \<and>
      (\<forall>x. resting fn (arg k) x \<longrightarrow> tasks_inv waiting fn (P(arg k := x)) m')"
    "\<not> ctx_task fn k \<Longrightarrow> \<not> own_function fn (func k) \<and> cancel k = 0 \<and> tasks_inv waiting fn P m'"
proof -
  have w: "waiting q t m = k # waiting q t m'" "(q', t') \<noteq> (q, t) \<Longrightarrow> waiting q' t' m' = waiting q' t' m" for q' t'
    using take_waiting [OF ok take] by blast+
  note I = tasks_invD [OF inv]
  have sub: "k' \<in> set (waiting q' t' m) \<longleftrightarrow> k' \<in> set (waiting q' t' m') \<or> (k' = k \<and> q' = q \<and> t' = t)" for k' q' t'
    using w by (cases "(q', t') = (q, t)") auto
  have d: "distinct (map arg (filter (ctx_task fn) (waiting q' t' m')))" for q' t'
    using I(1) [of q' t'] w by (cases "(q', t') = (q, t)") (auto split: if_splits)
  show "\<exists>p. P (arg k) = Some p \<and> travels fn (arg k) p = Some (q, t, k) \<and>
      (\<forall>x. resting fn (arg k) x \<longrightarrow> tasks_inv waiting fn (P(arg k := x)) m')" if c: "ctx_task fn k"
  proof -
    obtain p where p: "P (arg k) = Some p" "travels fn (arg k) p = Some (q, t, k)" using I(2) [OF _ c] w(1) by force
    have gone: "arg k' \<noteq> arg k" if k': "k' \<in> set (waiting q' t' m')" "ctx_task fn k'" for k' q' t'
    proof
      assume a: "arg k' = arg k"
      then have "k' = k \<and> q' = q \<and> t' = t" using I(2) [of k' q' t'] k' p sub by fastforce
      then show False using k' I(1) [of q t] w(1) c by auto
    qed
    have "tasks_inv waiting fn (P(arg k := x)) m'" if x: "resting fn (arg k) x" for x
      unfolding tasks_inv_def
    proof (intro conjI allI impI)
      show "distinct (map arg (filter (ctx_task fn) (waiting q' t' m')))" for q' t' by (rule d)
      show "k' \<in> set (waiting q' t' m') \<and> ctx_task fn k' \<longleftrightarrow>
          (\<exists>p'. (P(arg k := x)) (arg k') = Some p' \<and> travels fn (arg k') p' = Some (q', t', k'))" for q' t' k'
      proof (cases "arg k' = arg k")
        case True
        then show ?thesis using gone [of k' q' t'] x by auto
      next
        case False
        then show ?thesis using I(2) [of k' q' t'] I(3) [of k' _ q' t'] sub [of k' q' t'] travels_task(2) by auto
      qed
      show "\<not> own_function fn (func k')" "cancel k' = 0"
        if "k' \<in> set (waiting q' t' m') \<and> \<not> ctx_task fn k'" for q' t' k'
        using that I(4) [of k' q' t'] sub by auto
    qed
    then show ?thesis using p by blast
  qed
  show "\<not> own_function fn (func k) \<and> cancel k = 0 \<and> tasks_inv waiting fn P m'" if c: "\<not> ctx_task fn k"
  proof -
    have "tasks_inv waiting fn P m'"
      unfolding tasks_inv_def
    proof (intro conjI allI impI)
      show "distinct (map arg (filter (ctx_task fn) (waiting q' t' m')))" for q' t' by (rule d)
      show "k' \<in> set (waiting q' t' m') \<and> ctx_task fn k' \<longleftrightarrow>
          (\<exists>p'. P (arg k') = Some p' \<and> travels fn (arg k') p' = Some (q', t', k'))" for q' t' k'
        using I(2) [of k' q' t'] I(3) [of k' _ q' t'] sub [of k' q' t'] travels_task(2) c by (cases "k' = k") auto
      show "\<not> own_function fn (func k')" "cancel k' = 0"
        if "k' \<in> set (waiting q' t' m') \<and> \<not> ctx_task fn k'" for q' t' k'
        using that I(4) [of k' q' t'] sub by auto
    qed
    moreover have "k \<in> set (waiting q t m)" using w(1) by simp
    ultimately show ?thesis using I(4) [OF _ c] by blast
  qed
qed

end

lemma call_indirect_own:
  assumes "distinct_fns fn"
  shows "call_indirect send fn self (call_with_ctx_fn fn) a w = Some (call_with_ctx self a w)"
    "call_indirect send fn self (cancel_ctx_fn fn) a w = cancel_ctx send fn self a w"
    "call_indirect send fn self (free_ctx_fn fn) a w = Some (free_ctx a w)"
    "call_indirect send fn self (call_callback_then_free_ctx_fn fn) a w = Some (call_callback_then_free_ctx a w)"
    "call_indirect send fn self (call_cancel_then_free_ctx_fn fn) a w = Some (call_cancel_then_free_ctx a w)"
    "cancel_ctx_fn fn \<noteq> 0" "free_ctx_fn fn \<noteq> 0"
  using assms by (auto simp: call_indirect_def distinct_fns_def)

section \<open>Active lists\<close>

lemma links_unique:
  "links g (x # xs @ [h]) \<Longrightarrow> links g (x # ys @ [h]) \<Longrightarrow> h \<notin> set xs \<Longrightarrow> h \<notin> set ys \<Longrightarrow> xs = ys"
proof (induction xs arbitrary: x ys)
  case Nil
  then show ?case by (cases ys) auto
next
  case (Cons z xs)
  then show ?case by (cases ys) auto
qed

lemma ring_unique:
  assumes "ring g h cs" and "ring g h cs'"
  shows "cs = cs'"
  using assms links_unique [of g h "tl cs" h "tl cs'"]
  by (cases cs; cases cs') (auto simp: ring_def)

abbreviation inactive :: "place option \<Rightarrow> bool" where
  "inactive x \<equiv> (\<forall>t. x \<noteq> Some (Active t))"

lemma rings_invD:
  assumes "rings_inv L A P w"
  shows "\<And>t. ring (ctx_at w) (active_ctxs w t) (A t)" "\<And>t c. c \<in> set (A t) \<or> c \<in> L t \<longleftrightarrow> P c = Some (Active t)"
  using assms unfolding rings_inv_def by blast+

lemma rings_move:
  assumes "rings_inv L A P w" and "inactive (P c)" and "inactive x"
  shows "rings_inv L A (P(c := x)) w"
  using assms unfolding rings_inv_def by auto

lemma rings_cong:
  assumes "rings_inv L A P w" and "\<And>c t. P c = Some (Active t) \<Longrightarrow> next_ctx (ctx_at w' c) = next_ctx (ctx_at w c) \<and>
    prev_ctx (ctx_at w' c) = prev_ctx (ctx_at w c)" and "active_ctxs w' = active_ctxs w"
  shows "rings_inv L A P w'"
proof -
  note I = rings_invD [OF assms(1)]
  have "ring (ctx_at w') h (A t) = ring (ctx_at w) h (A t)" for h t
    by (rule ring_cong) (use I(2) assms(2) in blast)
  then show ?thesis using assms(1,3) by (simp add: rings_inv_def)
qed

lemma says_cong: "kind y = kind x \<Longrightarrow> sync_state y = sync_state x \<Longrightarrow> says p y = says p x"
  by (simp add: says_def split: option.splits place.splits)

lemma ctx_inv_upd:
  assumes "ctx_inv P w" and "c \<noteq> 0" and "ctx_live w' = (ctx_live w)(c := x \<noteq> None)"
    and "\<And>y. y \<noteq> c \<Longrightarrow> kind (ctx_at w' y) = kind (ctx_at w y) \<and> sync_state (ctx_at w' y) = sync_state (ctx_at w y)"
    and "says x (ctx_at w' c)"
  shows "ctx_inv (P(c := x)) w'"
proof -
  have "says ((P(c := x)) y) (ctx_at w' y)" for y
  proof (cases "y = c")
    case False
    then show ?thesis using assms(1) assms(4) [OF False] says_cong [of "ctx_at w' y" "ctx_at w y"] by (simp add: ctx_inv_def)
  qed (use assms(5) in simp)
  then show ?thesis using assms(1-3) by (simp add: ctx_inv_def)
qed

lemma rings_add:
  fixes self :: u32
  assumes inv: "rings_inv L A P w" and c: "c \<noteq> 0" "inactive (P c)"
  defines "w' \<equiv> add_active_ctx self c w"
  shows "rings_inv L (A(self := A self @ [c])) (P(c \<mapsto> Active self)) w'"
proof -
  note I = rings_invD [OF inv]
  have cA: "c \<notin> set (A t)" for t using I(2) c(2) by blast
  note R = add_active_ring [OF I(1) [of self] c(1) cA [of self], folded w'_def]
  have "ring (ctx_at w') (active_ctxs w' t) (A t)" if t: "t \<noteq> self" for t
  proof -
    have "ctx_at w' x = ctx_at w x" if "x \<in> set (A t)" for x
    proof (rule R(2))
      show "x \<notin> set (A self)" using I(2) [of x t] I(2) [of x self] that t by auto
      show "x \<noteq> c" using that cA by blast
    qed
    then have "ring (ctx_at w') (active_ctxs w t) (A t) = ring (ctx_at w) (active_ctxs w t) (A t)"
      by (intro ring_cong) simp
    then show ?thesis using I(1) R(4) [OF t] by simp
  qed
  then show ?thesis using R(1) I(2) c(2) cA unfolding rings_inv_def by (auto split: if_splits)
qed

lemma rings_remove:
  fixes self :: u32
  assumes inv: "rings_inv (\<lambda>_. {}) A P w" and c: "c \<in> set (A self)" and x: "inactive x"
  defines "w' \<equiv> remove_active_ctx self c w"
  shows "\<exists>A'. rings_inv (\<lambda>_. {}) A' (P(c := x)) w'"
    "\<And>x. payload (ctx_at w' x) = payload (ctx_at w x)" "ctx_live w' = ctx_live w" "channel w' = channel w"
proof -
  note I = rings_invD [OF inv]
  obtain xs ys where A: "A self = xs @ c # ys" using c by (meson split_list)
  note R = remove_active_ring [OF I(1) [of self, unfolded A], folded w'_def]
  have d: "distinct (A self)" using I(1) [of self] c by (auto simp: ring_def split: if_splits)
  have "ring (ctx_at w') (active_ctxs w' t) (A t)" if t: "t \<noteq> self" for t
  proof -
    have "ctx_at w' x = ctx_at w x" if "x \<in> set (A t)" for x
      by (rule R(2)) (use I(2) [of x t] I(2) [of x self] that t A in auto)
    then have "ring (ctx_at w') (active_ctxs w t) (A t) = ring (ctx_at w) (active_ctxs w t) (A t)"
      by (intro ring_cong) simp
    then show ?thesis using I(1) R(4) [OF t] by simp
  qed
  moreover have "y \<in> set (xs @ ys) \<longleftrightarrow> y \<noteq> c \<and> P y = Some (Active self)" for y
    using I(2) [of y self] d A by auto
  moreover have "c \<notin> set (A t)" if "t \<noteq> self" for t using I(2) [of c t] I(2) [of c self] c that by auto
  ultimately have "rings_inv (\<lambda>_. {}) (A(self := xs @ ys)) (P(c := x)) w'"
    using R(1) I(2) x unfolding rings_inv_def by auto
  then show "\<exists>A'. rings_inv (\<lambda>_. {}) A' (P(c := x)) w'" by blast
  show "\<And>x. payload (ctx_at w' x) = payload (ctx_at w x)" "ctx_live w' = ctx_live w" "channel w' = channel w"
    by (rule R)+
qed

section \<open>Cancelling and finishing\<close>

context task_channel
begin

text \<open>What becomes of a context that has been taken off the lists and queues.\<close>

lemma cancel_ctx_inv:
  assumes ok: "ok (channel w)" and inv: "tasks_inv waiting fn P (channel w)" and fns: "distinct_fns fn"
    and rest: "resting fn c (P c)" and live: "ctx_live w c"
  shows "\<exists>w' x. cancel_ctx send fn self c w = Some w' \<and> ok (channel w') \<and> tasks_inv waiting fn (P(c := x)) (channel w') \<and>
    (x = Some Settled \<or> (\<exists>q t. x = Some (Undoing q t)) \<or> x = None) \<and> says x (ctx_at w' c) \<and>
    ctx_live w' = (ctx_live w)(c := x \<noteq> None) \<and> (\<forall>y. y \<noteq> c \<longrightarrow> ctx_at w' y = ctx_at w y) \<and>
    (\<forall>y. next_ctx (ctx_at w' y) = next_ctx (ctx_at w y) \<and> prev_ctx (ctx_at w' y) = prev_ctx (ctx_at w y)) \<and>
    active_ctxs w' = active_ctxs w"
proof (cases "kind (ctx_at w c)")
  case SYNC
  let ?w = "upd_ctx c (sync_state_update (\<lambda>_. CANCELED)) w"
  have "tasks_inv waiting fn (P(c \<mapsto> Settled)) (channel w)" by (rule tasks_inv_rest [OF inv rest]) simp
  then show ?thesis
    using SYNC ok live by (intro exI [of _ ?w] exI [of _ "Some Settled"]) (simp add: cancel_ctx_def upd_ctx_def says_def fun_upd_idem)
next
  case CALLBACK
  show ?thesis
  proof (cases "cb_cancel (ctx_at w c) = 0")
    case True
    have "tasks_inv waiting fn (P(c := None)) (channel w)" by (rule tasks_inv_rest [OF inv rest]) simp
    then show ?thesis
      using CALLBACK ok True by (intro exI [of _ "free_ctx c w"] exI [of _ None]) (simp add: cancel_ctx_def free_ctx_def says_def)
  next
    case False
    let ?q = "cb_queue (ctx_at w c)" and ?t = "cb_caller_thread (ctx_at w c)"
    let ?k = "\<lparr>func = call_cancel_then_free_ctx_fn fn, cancel = free_ctx_fn fn, arg = c\<rparr>"
    obtain r m where send: "send self ?q ?t ?k (channel w) = Some (r, m)" "ok m" using send_returns [OF ok] by blast
    have inv0: "tasks_inv waiting fn (P(c := None)) (channel w)" by (rule tasks_inv_rest [OF inv rest]) simp
    have "tasks_inv waiting fn (if r then P(c := None, c \<mapsto> Undoing ?q ?t) else P(c := None)) m"
      by (rule send_ctx [OF ok inv0 fns _ _ send(1)]) simp_all
    then have t: "tasks_inv waiting fn (P(c := if r then Some (Undoing ?q ?t) else None)) m" by (cases r) simp_all
    let ?w = "if r then w\<lparr>channel := m\<rparr> else free_ctx c (w\<lparr>channel := m\<rparr>)"
    show ?thesis
      using CALLBACK False send t live
      by (intro exI [of _ ?w] exI [of _ "if r then Some (Undoing ?q ?t) else None"], cases r)
         (simp_all add: cancel_ctx_def free_ctx_def says_def Let_def fun_upd_idem)
  qed
qed

lemma finish_inv:
  assumes ok: "ok (channel w)" and inv: "life_inv waiting fn (\<lambda>_. {}) A P w" and fns: "distinct_fns fn"
    and c: "c \<in> set (A self)"
  shows "\<exists>w' A' x. emscripten_proxy_finish send fn self c w = Some w' \<and> ok (channel w') \<and>
    life_inv waiting fn (\<lambda>_. {}) A' (P(c := x)) w' \<and> moves (P c) x"
proof -
  have T: "tasks_inv waiting fn P (channel w)" and R: "rings_inv (\<lambda>_. {}) A P w" and C: "ctx_inv P w"
    using inv by (simp_all add: life_inv_def)
  have Pc: "P c = Some (Active self)" using rings_invD(2) [OF R, of c self] c by blast
  then have live: "ctx_live w c" using C by (simp add: ctx_inv_def)
  show ?thesis
  proof (cases "kind (ctx_at w c)")
    case SYNC
    let ?v = "upd_ctx c (sync_state_update (\<lambda>_. DONE)) w"
    let ?w = "remove_active_ctx self c ?v"
    have R0: "rings_inv (\<lambda>_. {}) A P ?v" by (rule rings_cong [OF R]) (auto simp: upd_ctx_def)
    obtain A' where A': "rings_inv (\<lambda>_. {}) A' (P(c \<mapsto> Settled)) ?w" using rings_remove(1) [OF R0 c] by force
    note pay = rings_remove(2) [OF R0 c, of None] and rest = rings_remove(3,4) [OF R0 c, of None]
    have T': "tasks_inv waiting fn (P(c \<mapsto> Settled)) (channel ?w)"
      using tasks_inv_rest [OF T, of c "Some Settled"] Pc rest by (simp add: upd_ctx_def)
    have f: "kind (ctx_at ?w y) = kind (ctx_at w y)"
      "sync_state (ctx_at ?w y) = (if y = c then DONE else sync_state (ctx_at w y))" for y
      using payload_fields [OF pay, of y] by (simp_all add: upd_ctx_def)
    have "says ((P(c \<mapsto> Settled)) y) (ctx_at ?w y)" for y
    proof (cases "y = c")
      case True
      then show ?thesis using SYNC by (simp add: says_def f)
    next
      case False
      then have "says (P y) (ctx_at w y)" using C by (simp add: ctx_inv_def)
      then show ?thesis using False by (simp add: says_def f split: option.splits place.splits)
    qed
    then have "ctx_inv (P(c \<mapsto> Settled)) ?w"
      using C live rest by (auto simp: ctx_inv_def upd_ctx_def)
    then have "life_inv waiting fn (\<lambda>_. {}) A' (P(c \<mapsto> Settled)) ?w" using T' A' by (simp add: life_inv_def)
    moreover have "emscripten_proxy_finish send fn self c w = Some ?w" using SYNC by (simp add: emscripten_proxy_finish_def)
    moreover have "ok (channel ?w)" using ok rest by (simp add: upd_ctx_def)
    ultimately show ?thesis using Pc moves.intros(6) by metis
  next
    case CALLBACK
    let ?w1 = "remove_active_ctx self c w"
    note pay = rings_remove(2) [OF R c, of None] and rest = rings_remove(3,4) [OF R c, of None]
    have f: "kind (ctx_at ?w1 y) = kind (ctx_at w y)" "sync_state (ctx_at ?w1 y) = sync_state (ctx_at w y)" for y
      using payload_fields [OF pay, of y] by simp_all
    let ?q = "cb_queue (ctx_at ?w1 c)" and ?t = "cb_caller_thread (ctx_at ?w1 c)"
    let ?k = "\<lparr>func = call_callback_then_free_ctx_fn fn, cancel = free_ctx_fn fn, arg = c\<rparr>"
    obtain r m where send: "send self ?q ?t ?k (channel ?w1) = Some (r, m)" "ok m"
      using send_returns [OF ok, of self ?q ?t ?k] rest by auto
    let ?x = "if r then Some (Returning ?q ?t) else None"
    have "tasks_inv waiting fn (P(c := None)) (channel ?w1)"
      using tasks_inv_rest [OF T, of c None] Pc rest by simp
    then have "tasks_inv waiting fn (if r then P(c := None, c \<mapsto> Returning ?q ?t) else P(c := None)) m"
      using ok rest by (intro send_ctx [OF _ _ fns _ _ send(1)]) simp_all
    then have T': "tasks_inv waiting fn (P(c := ?x)) m" by (cases r) simp_all
    let ?w = "if r then ?w1\<lparr>channel := m\<rparr> else free_ctx c (?w1\<lparr>channel := m\<rparr>)"
    have "inactive ?x" by (cases r) simp_all
    then obtain A' where "rings_inv (\<lambda>_. {}) A' (P(c := ?x)) ?w1" using rings_remove(1) [OF R c] by blast
    then have R': "rings_inv (\<lambda>_. {}) A' (P(c := ?x)) ?w" by (rule rings_cong) (simp_all add: free_ctx_def)
    have cw: "ctx_at ?w = ctx_at ?w1" "ctx_live ?w = (ctx_live w)(c := r)" "channel ?w = m"
      using rest live by (simp_all add: free_ctx_def fun_upd_idem)
    have "says ((P(c := ?x)) y) (ctx_at ?w y)" for y
    proof (cases "y = c")
      case True
      then show ?thesis using CALLBACK by (simp add: says_def f cw)
    next
      case False
      then have "says (P y) (ctx_at w y)" using C by (simp add: ctx_inv_def)
      then show ?thesis using False by (simp add: says_def f cw split: option.splits place.splits)
    qed
    then have "ctx_inv (P(c := ?x)) ?w" using C live Pc by (auto simp: ctx_inv_def cw)
    then have "life_inv waiting fn (\<lambda>_. {}) A' (P(c := ?x)) ?w" using T' R' by (simp add: life_inv_def cw)
    moreover have "emscripten_proxy_finish send fn self c w = Some ?w"
      using CALLBACK send(1) by (simp add: emscripten_proxy_finish_def Let_def)
    moreover have "moves (P c) ?x" using Pc by (cases r) (simp_all add: moves.intros)
    ultimately show ?thesis using send(2) cw(3) by metis
  qed
qed

end

section \<open>Every step keeps the invariant and moves contexts on\<close>

definition limbo :: "u32 \<Rightarrow> u32 set \<Rightarrow> u32 \<Rightarrow> u32 set" where
  "limbo self C t = (if t = self then C else {})"

lemma limbo_empty: "limbo self {} = (\<lambda>_. {})"
  by (simp add: limbo_def fun_eq_iff)

context task_channel
begin

lemma cancel_limbo:
  assumes ok: "ok (channel w)" and inv: "life_inv waiting fn (limbo self C) A P w" and fns: "distinct_fns fn"
    and A: "A self = []" and c: "c \<in> C"
  shows "\<exists>w' x. cancel_ctx send fn self c w = Some w' \<and> ok (channel w') \<and>
    life_inv waiting fn (limbo self (C - {c})) A (P(c := x)) w' \<and> moves (P c) x \<and> inactive x \<and>
    (\<forall>y. next_ctx (ctx_at w' y) = next_ctx (ctx_at w y) \<and> prev_ctx (ctx_at w' y) = prev_ctx (ctx_at w y))"
proof -
  have T: "tasks_inv waiting fn P (channel w)" and R: "rings_inv (limbo self C) A P w" and I: "ctx_inv P w"
    using inv by (simp_all add: life_inv_def)
  note R2 = rings_invD(2) [OF R]
  have Pc: "P c = Some (Active self)" using R2 [of c self] c by (simp add: limbo_def)
  have live: "ctx_live w c" and c0: "c \<noteq> 0" using I Pc by (auto simp: ctx_inv_def)
  obtain w' x where w': "cancel_ctx send fn self c w = Some w'" "ok (channel w')"
    "tasks_inv waiting fn (P(c := x)) (channel w')" "x = Some Settled \<or> (\<exists>q t. x = Some (Undoing q t)) \<or> x = None"
    "says x (ctx_at w' c)" "ctx_live w' = (ctx_live w)(c := x \<noteq> None)" "\<And>y. y \<noteq> c \<Longrightarrow> ctx_at w' y = ctx_at w y"
    "\<And>y. next_ctx (ctx_at w' y) = next_ctx (ctx_at w y) \<and> prev_ctx (ctx_at w' y) = prev_ctx (ctx_at w y)"
    "active_ctxs w' = active_ctxs w"
    using cancel_ctx_inv [OF ok T fns _ live, of self] Pc by auto
  have x: "inactive x" "moves (P c) x" using w'(4) Pc by (auto simp: moves.intros)
  have "c \<notin> set (A t)" for t using R2 [of c t] Pc A by (cases "t = self") auto
  then have "rings_inv (limbo self (C - {c})) A (P(c := x)) w"
    using R x(1) R2 [of c] Pc unfolding rings_inv_def limbo_def by (auto split: if_splits)
  then have "rings_inv (limbo self (C - {c})) A (P(c := x)) w'" by (rule rings_cong) (simp_all add: w'(8,9))
  moreover have "ctx_inv (P(c := x)) w'"
    using I w'(5-7) c0 unfolding ctx_inv_def by simp
  ultimately show ?thesis using w' x by (auto simp: life_inv_def)
qed

lemma cancel_loop_inv:
  assumes "distinct_fns fn" and "A self = []"
  shows "ok (channel w) \<Longrightarrow> life_inv waiting fn (limbo self (set (c # rest))) A P w \<Longrightarrow> distinct (c # rest) \<Longrightarrow>
    h \<notin> set rest \<Longrightarrow> links (ctx_at w) (c # rest @ [h]) \<Longrightarrow>
    \<exists>w' P'. cancel_ctxs_loop send fn self h c w = Some w' \<and> ok (channel w') \<and>
      life_inv waiting fn (\<lambda>_. {}) A P' w' \<and> (\<forall>y. P' y = P y \<or> y \<in> set (c # rest) \<and> moves (P y) (P' y))"
proof (induction rest arbitrary: c w P)
  case (Nil c w P)
  obtain w' x where "cancel_ctx send fn self c w = Some w'" "ok (channel w')"
    "life_inv waiting fn (limbo self {}) A (P(c := x)) w'" "moves (P c) x"
    using cancel_limbo [where self = self and w = w and C = "{c}" and c = c and A = A and P = P, OF Nil(1) _ assms] Nil(2)
    by (auto simp: limbo_empty)
  moreover have "next_ctx (ctx_at w c) = h" using Nil(5) by simp
  ultimately show ?case
    by (intro exI [of _ w'] exI [of _ "P(c := x)"]) (simp add: fun_upd_def limbo_empty cancel_ctxs_loop.simps [of send fn self h c w])
next
  case (Cons d rest c w P)
  obtain w1 x where w1: "cancel_ctx send fn self c w = Some w1" "ok (channel w1)"
    "life_inv waiting fn (limbo self (set (c # d # rest) - {c})) A (P(c := x)) w1" "moves (P c) x"
    "\<And>y. next_ctx (ctx_at w1 y) = next_ctx (ctx_at w y) \<and> prev_ctx (ctx_at w1 y) = prev_ctx (ctx_at w y)"
    using cancel_limbo [where self = self and w = w and C = "set (c # d # rest)" and c = c and A = A and P = P,
        OF Cons.prems(1) Cons.prems(2) assms] by auto
  have set: "set (c # d # rest) - {c} = set (d # rest)" using Cons.prems(3) by auto
  have "links (ctx_at w1) (d # rest @ [h]) = links (ctx_at w) (d # rest @ [h])"
    by (rule links_cong) (simp_all add: w1(5))
  then have l: "links (ctx_at w1) (d # rest @ [h])" using Cons.prems(5) by simp
  obtain w' P' where "cancel_ctxs_loop send fn self h d w1 = Some w'" "ok (channel w')"
    "life_inv waiting fn (\<lambda>_. {}) A P' w'"
    "\<And>y. P' y = (P(c := x)) y \<or> y \<in> set (d # rest) \<and> moves ((P(c := x)) y) (P' y)"
    using Cons.IH [OF w1(2) w1(3) [unfolded set] _ _ l] Cons.prems(3,4) by fastforce
  moreover have "next_ctx (ctx_at w c) = d" "d \<noteq> h" using Cons.prems(4,5) by auto
  moreover have "P' y = P y \<or> y \<in> set (c # d # rest) \<and> moves (P y) (P' y)" for y
    using calculation(4) [of y] w1(4) Cons.prems(3) by (cases "y = c") auto
  ultimately show ?case
    by (intro exI [of _ w'] exI [of _ P']) (simp add: cancel_ctxs_loop.simps [of send fn self h c w] w1(1))
qed

text \<open>What a thread leaves behind: its active contexts are cancelled, oldest first.\<close>

lemma exit_inv:
  assumes ok: "ok (channel w)" and inv: "life_inv waiting fn (\<lambda>_. {}) A P w" and fns: "distinct_fns fn"
    and h: "active_ctxs w t \<noteq> 0"
  shows "\<exists>w' A' P'. cancel_active_ctxs send fn t (active_ctxs w t) w = Some w' \<and> ok (channel w') \<and>
    life_inv waiting fn (\<lambda>_. {}) A' P' w' \<and> (\<forall>y. P' y = P y \<or> moves (P y) (P' y)) \<and> A' t = []"
proof -
  let ?h = "active_ctxs w t"
  have R: "rings_inv (\<lambda>_. {}) A P w" using inv by (simp add: life_inv_def)
  note I = rings_invD [OF R]
  obtain rest where A: "A t = ?h # rest" "distinct (?h # rest)" "links (ctx_at w) (?h # rest @ [?h])"
    using I(1) [of t] h by (cases "A t") (auto simp: ring_def)
  let ?w = "setspecific t 0 w"
  have "c \<in> set ((A(t := [])) t') \<union> limbo t (set (?h # rest)) t' \<longleftrightarrow> P c = Some (Active t')" for t' c
    using I(2) [of c t'] A(1) by (cases "t' = t") (auto simp: limbo_def)
  then have "rings_inv (limbo t (set (?h # rest))) (A(t := [])) P ?w"
    using I(1) unfolding rings_inv_def by (simp add: setspecific_def ring_def)
  then have inv': "life_inv waiting fn (limbo t (set (?h # rest))) (A(t := [])) P ?w"
    using inv by (simp add: life_inv_def ctx_inv_def setspecific_def)
  have "ok (channel ?w)" "?h \<notin> set rest" "links (ctx_at ?w) (?h # rest @ [?h])"
    using ok A(2,3) by (simp_all add: setspecific_def)
  from cancel_loop_inv [OF fns _ this(1) inv' A(2) this(2,3)]
  obtain w' P' where "cancel_ctxs_loop send fn t ?h ?h ?w = Some w'" "ok (channel w')"
    "life_inv waiting fn (\<lambda>_. {}) (A(t := [])) P' w'" "\<And>y. P' y = P y \<or> moves (P y) (P' y)"
    by auto
  then show ?thesis unfolding cancel_active_ctxs_def by (intro exI [of _ w'] exI [of _ "A(t := [])"] exI [of _ P']) simp
qed

lemma start_inv:
  assumes ok: "ok (channel w)" and inv: "life_inv waiting fn (\<lambda>_. {}) A P w" and fns: "distinct_fns fn"
    and c: "c \<noteq> 0" "P c = None" and x: "kind x = SYNC \<longrightarrow> sync_state x = PENDING"
    and send: "send self q t \<lparr>func = call_with_ctx_fn fn, cancel = cancel_ctx_fn fn, arg = c\<rparr> (channel w) = Some (r, m)"
    and w': "ctx_at w' = (ctx_at w)(c := x)" "ctx_live w' = (ctx_live w)(c := r)" "active_ctxs w' = active_ctxs w"
      "channel w' = m"
  shows "\<exists>P'. life_inv waiting fn (\<lambda>_. {}) A P' w' \<and> (\<forall>y. P' y = P y \<or> moves (P y) (P' y))"
proof -
  have T: "tasks_inv waiting fn P (channel w)" and R: "rings_inv (\<lambda>_. {}) A P w" and I: "ctx_inv P w"
    using inv by (simp_all add: life_inv_def)
  let ?x = "if r then Some (Queued q t) else None"
  have "tasks_inv waiting fn (if r then P(c \<mapsto> Queued q t) else P) m"
    by (rule send_ctx [OF ok T fns _ _ send]) (simp_all add: c)
  then have "tasks_inv waiting fn (P(c := ?x)) m" using c(2) by (cases r) (simp_all add: fun_upd_idem)
  moreover have "rings_inv (\<lambda>_. {}) A (P(c := ?x)) w" by (rule rings_move [OF R]) (cases r; simp add: c)+
  then have "rings_inv (\<lambda>_. {}) A (P(c := ?x)) w'" by (rule rings_cong) (auto simp: w' split: if_splits)
  moreover have "ctx_inv (P(c := ?x)) w'"
    by (rule ctx_inv_upd [OF I c(1)]) (cases r; simp add: w' says_def x)+
  ultimately have "life_inv waiting fn (\<lambda>_. {}) A (P(c := ?x)) w'" by (simp add: life_inv_def w')
  moreover have "(P(c := ?x)) y = P y \<or> moves (P y) ((P(c := ?x)) y)" for y
    using c(2) by (cases "y = c"; cases r) (simp_all add: moves.intros)
  ultimately show ?thesis by blast
qed

lemma release_inv:
  assumes inv: "life_inv waiting fn (\<lambda>_. {}) A P w" and c: "P c = Some p" "\<And>t. p \<noteq> Active t"
    and T: "tasks_inv waiting fn (P(c := None)) m"
    and w': "ctx_at w' = ctx_at w" "ctx_live w' = (ctx_live w)(c := False)" "active_ctxs w' = active_ctxs w"
      "channel w' = m"
  shows "life_inv waiting fn (\<lambda>_. {}) A (P(c := None)) w'"
proof -
  have R: "rings_inv (\<lambda>_. {}) A P w" and I: "ctx_inv P w" using inv by (simp_all add: life_inv_def)
  have "rings_inv (\<lambda>_. {}) A (P(c := None)) w" by (rule rings_move [OF R]) (simp_all add: c)
  then have "rings_inv (\<lambda>_. {}) A (P(c := None)) w'" by (rule rings_cong) (simp_all add: w')
  moreover have "c \<noteq> 0" using I c(1) by (auto simp: ctx_inv_def)
  then have "ctx_inv (P(c := None)) w'" by (rule ctx_inv_upd [OF I]) (simp_all add: w' says_def)
  ultimately show ?thesis using T by (simp add: life_inv_def w')
qed

lemma run_inv:
  assumes ok: "ok (channel w)" and inv: "life_inv waiting fn (\<lambda>_. {}) A P w" and fns: "distinct_fns fn"
    and take: "take_first q t (channel w) = Some (k, m)"
    and run: "call_indirect send fn t (func k) (arg k) (w\<lparr>channel := m\<rparr>) = Some w'"
  shows "\<exists>A' P'. ok (channel w') \<and> life_inv waiting fn (\<lambda>_. {}) A' P' w' \<and> (\<forall>y. P' y = P y \<or> moves (P y) (P' y))"
proof -
  have T: "tasks_inv waiting fn P (channel w)" and R: "rings_inv (\<lambda>_. {}) A P w" and I: "ctx_inv P w"
    using inv by (simp_all add: life_inv_def)
  have m: "ok m" using take_waiting [OF ok take] by blast
  let ?w = "w\<lparr>channel := m\<rparr>" and ?c = "arg k"
  have R': "rings_inv (\<lambda>_. {}) A P ?w" by (rule rings_cong [OF R]) simp_all
  show ?thesis
  proof (cases "ctx_task fn k")
    case False
    then have k: "\<not> own_function fn (func k)" "tasks_inv waiting fn P m" using take_inv(2) [OF ok T take] by blast+
    have w': "w' = log_call (Call (func k) ?c) ?w" using run k(1) by (simp add: call_indirect_def own_function_def)
    have "rings_inv (\<lambda>_. {}) A P w'" by (rule rings_cong [OF R]) (simp_all add: w' log_call_def)
    then have "life_inv waiting fn (\<lambda>_. {}) A P w'" using k(2) I by (simp add: life_inv_def ctx_inv_def w' log_call_def)
    then show ?thesis using m by (auto simp: w' log_call_def)
  next
    case True
    then obtain p where p: "P ?c = Some p" "travels fn ?c p = Some (q, t, k)"
      and T': "\<And>x. resting fn ?c x \<Longrightarrow> tasks_inv waiting fn (P(?c := x)) m"
      using take_inv(1) [OF ok T take] by blast
    have c0: "?c \<noteq> 0" and live: "ctx_live w ?c" using I p(1) by (auto simp: ctx_inv_def)
    show ?thesis
    proof (cases p)
      case (Queued q' t')
      then have k: "func k = call_with_ctx_fn fn" "t' = t" using travels_fields(1) p(2) by blast+
      let ?v = "add_active_ctx t ?c ?w"
      have w': "\<exists>e. w' = log_call e ?v" using run by (auto simp: call_indirect_own [OF fns] k(1) call_with_ctx_def Let_def)
      have noA: "?c \<notin> set (A t)" using rings_invD(2) [OF R', of ?c t] p(1) Queued by simp
      note AR = add_active_ring [OF rings_invD(1) [OF R', of t] c0 noA]
      have f: "kind (ctx_at ?v y) = kind (ctx_at w y)" "sync_state (ctx_at ?v y) = sync_state (ctx_at w y)" for y
        using payload_fields [OF AR(3), of y] by simp_all
      have "rings_inv (\<lambda>_. {}) (A(t := A t @ [?c])) (P(?c \<mapsto> Active t)) ?v"
        by (rule rings_add [OF R' c0]) (simp add: p(1) Queued)
      then have "rings_inv (\<lambda>_. {}) (A(t := A t @ [?c])) (P(?c \<mapsto> Active t)) w'"
        by (rule rings_cong) (use w' in \<open>auto simp: log_call_def\<close>)
      moreover have "ctx_inv (P(?c \<mapsto> Active t)) w'"
      proof (rule ctx_inv_upd [OF I c0])
        show "ctx_live w' = (ctx_live w)(?c := Some (Active t) \<noteq> None)"
          using w' AR(5) live by (auto simp: log_call_def fun_upd_idem)
        show "kind (ctx_at w' y) = kind (ctx_at w y) \<and> sync_state (ctx_at w' y) = sync_state (ctx_at w y)" for y
          using w' f [of y] by (auto simp: log_call_def)
        have "says (Some p) (ctx_at w ?c)" using I p(1) unfolding ctx_inv_def by metis
        then show "says (Some (Active t)) (ctx_at w' ?c)"
          using w' f [of ?c] Queued by (auto simp: log_call_def says_def)
      qed
      moreover have "channel w' = m" using w' AR(6) by (auto simp: log_call_def)
      ultimately have "life_inv waiting fn (\<lambda>_. {}) (A(t := A t @ [?c])) (P(?c \<mapsto> Active t)) w'"
        using T' [of "Some (Active t)"] by (simp add: life_inv_def)
      moreover have "(P(?c \<mapsto> Active t)) y = P y \<or> moves (P y) ((P(?c \<mapsto> Active t)) y)" for y
        using p(1) Queued k(2) by (cases "y = ?c") (simp_all add: moves.intros)
      ultimately show ?thesis using m \<open>channel w' = m\<close> by blast
    next
      case (Returning q' t')
      then have k: "func k = call_callback_then_free_ctx_fn fn" using travels_fields(2) p(2) by blast+
      have w': "w' = call_callback_then_free_ctx ?c ?w" using run fns by (simp add: k call_indirect_own)
      have "life_inv waiting fn (\<lambda>_. {}) A (P(?c := None)) w'"
        by (rule release_inv [OF inv p(1) _ T' [of None]])
           (simp_all add: Returning w' call_callback_then_free_ctx_def free_ctx_def log_call_def)
      moreover have "channel w' = m" by (simp add: w' call_callback_then_free_ctx_def free_ctx_def log_call_def)
      moreover have "(P(?c := None)) y = P y \<or> moves (P y) ((P(?c := None)) y)" for y
        using p(1) Returning by (simp add: moves.intros)
      ultimately show ?thesis using m by blast
    next
      case (Undoing q' t')
      then have k: "func k = call_cancel_then_free_ctx_fn fn" using travels_fields(3) p(2) by blast+
      have w': "w' = call_cancel_then_free_ctx ?c ?w" using run fns by (simp add: k call_indirect_own)
      have "life_inv waiting fn (\<lambda>_. {}) A (P(?c := None)) w'"
        by (rule release_inv [OF inv p(1) _ T' [of None]])
           (simp_all add: Undoing w' call_cancel_then_free_ctx_def free_ctx_def log_call_def)
      moreover have "channel w' = m" by (simp add: w' call_cancel_then_free_ctx_def free_ctx_def log_call_def)
      moreover have "(P(?c := None)) y = P y \<or> moves (P y) ((P(?c := None)) y)" for y
        using p(1) Undoing by (simp add: moves.intros)
      ultimately show ?thesis using m by blast
    qed (use p(2) in simp_all)
  qed
qed

lemma drop_inv:
  assumes ok: "ok (channel w)" and inv: "life_inv waiting fn (\<lambda>_. {}) A P w" and fns: "distinct_fns fn"
    and take: "take_first q t (channel w) = Some (k, m)"
    and run: "(if cancel k \<noteq> 0 then call_indirect send fn t (cancel k) (arg k) (w\<lparr>channel := m\<rparr>)
      else Some (w\<lparr>channel := m\<rparr>)) = Some w'"
  shows "\<exists>P'. ok (channel w') \<and> life_inv waiting fn (\<lambda>_. {}) A P' w' \<and> (\<forall>y. P' y = P y \<or> moves (P y) (P' y))"
proof -
  have T: "tasks_inv waiting fn P (channel w)" and R: "rings_inv (\<lambda>_. {}) A P w" and I: "ctx_inv P w"
    using inv by (simp_all add: life_inv_def)
  have m: "ok m" using take_waiting [OF ok take] by blast
  let ?w = "w\<lparr>channel := m\<rparr>" and ?c = "arg k"
  show ?thesis
  proof (cases "ctx_task fn k")
    case False
    then have k: "cancel k = 0" "tasks_inv waiting fn P m" using take_inv(2) [OF ok T take] by blast+
    have w': "w' = ?w" using run k(1) by simp
    have "rings_inv (\<lambda>_. {}) A P ?w" by (rule rings_cong [OF R]) simp_all
    then have "life_inv waiting fn (\<lambda>_. {}) A P w'" using k(2) I by (simp add: life_inv_def ctx_inv_def w')
    then show ?thesis using m by (auto simp: w')
  next
    case True
    then obtain p where p: "P ?c = Some p" "travels fn ?c p = Some (q, t, k)"
      and T': "\<And>x. resting fn ?c x \<Longrightarrow> tasks_inv waiting fn (P(?c := x)) m"
      using take_inv(1) [OF ok T take] by blast
    have c0: "?c \<noteq> 0" and live: "ctx_live w ?c" using I p(1) by (auto simp: ctx_inv_def)
    show ?thesis
    proof (cases "\<exists>q t. p = Queued q t")
      case True
      then obtain q' t' where Queued: "p = Queued q' t'" by blast
      then have k: "cancel k = cancel_ctx_fn fn" "t' = t" using travels_fields(1) p(2) by blast+
      have run': "cancel_ctx send fn t ?c ?w = Some w'" using run fns by (simp add: k call_indirect_own)
      obtain x where x: "ok (channel w')" "tasks_inv waiting fn (P(?c := None, ?c := x)) (channel w')"
        "x = Some Settled \<or> (\<exists>q t. x = Some (Undoing q t)) \<or> x = None" "says x (ctx_at w' ?c)"
        "ctx_live w' = (ctx_live w)(?c := x \<noteq> None)" "\<And>y. y \<noteq> ?c \<Longrightarrow> ctx_at w' y = ctx_at w y"
        "\<And>y. next_ctx (ctx_at w' y) = next_ctx (ctx_at w y) \<and> prev_ctx (ctx_at w' y) = prev_ctx (ctx_at w y)"
        "active_ctxs w' = active_ctxs w"
        using cancel_ctx_inv [of ?w fn "P(?c := None)" ?c t] m T' [of None] fns live run' by auto
      have "rings_inv (\<lambda>_. {}) A (P(?c := x)) w"
        by (rule rings_move [OF R]) (use x(3) p(1) Queued in auto)
      then have "rings_inv (\<lambda>_. {}) A (P(?c := x)) w'" by (rule rings_cong) (use x(7,8) in simp_all)
      moreover have "ctx_inv (P(?c := x)) w'" by (rule ctx_inv_upd [OF I c0 x(5) _ x(4)]) (simp add: x(6))
      ultimately have "life_inv waiting fn (\<lambda>_. {}) A (P(?c := x)) w'" using x(2) by (simp add: life_inv_def)
      moreover have "(P(?c := x)) y = P y \<or> moves (P y) ((P(?c := x)) y)" for y
        using p(1) Queued x(3) by (auto simp: moves.intros)
      ultimately show ?thesis using x(1) by blast
    next
      case False
      then consider (R) q' t' where "p = Returning q' t'" | (U) q' t' where "p = Undoing q' t'"
        using p(2) by (cases p) simp_all
      then have "cancel k = free_ctx_fn fn \<and> (\<forall>t. p \<noteq> Active t) \<and> moves (P ?c) None"
      proof cases
        case R
        then show ?thesis using travels_fields(2) [OF p(2) [unfolded R]] p(1) by (simp add: moves.intros)
      next
        case U
        then show ?thesis using travels_fields(3) [OF p(2) [unfolded U]] p(1) by (simp add: moves.intros)
      qed
      then have k: "cancel k = free_ctx_fn fn" and na: "\<And>t. p \<noteq> Active t" and mv: "moves (P ?c) None" by blast+
      have w': "w' = free_ctx ?c ?w" using run fns by (simp add: k call_indirect_own)
      have "life_inv waiting fn (\<lambda>_. {}) A (P(?c := None)) w'"
        by (rule release_inv [OF inv p(1) na T' [of None]]) (simp_all add: w' free_ctx_def)
      moreover have "(P(?c := None)) y = P y \<or> moves (P y) ((P(?c := None)) y)" for y using mv by simp
      moreover have "ok (channel w')" using m by (simp add: w' free_ctx_def)
      ultimately show ?thesis by blast
    qed
  qed
qed

lemma step_inv:
  assumes ok: "ok (channel w)" and inv: "life_inv waiting fn (\<lambda>_. {}) A P w" and fns: "distinct_fns fn"
    and step: "proxy_step send take_first fn w w'"
  shows "\<exists>A' P'. ok (channel w') \<and> life_inv waiting fn (\<lambda>_. {}) A' P' w' \<and> (\<forall>y. P' y = P y \<or> moves (P y) (P' y))"
proof -
  have T: "tasks_inv waiting fn P (channel w)" and R: "rings_inv (\<lambda>_. {}) A P w" and I: "ctx_inv P w"
    using inv by (simp_all add: life_inv_def)
  have dead: "P c = None" if "\<not> ctx_live w c" for c using I that by (auto simp: ctx_inv_def)
  from step show ?thesis
  proof cases
    case (proxy_async f self q t a r m)
    have "ok m" using send_returns [OF ok, of self q t "\<lparr>func = f, cancel = 0, arg = a\<rparr>"] proxy_async(3) by simp
    moreover have "tasks_inv waiting fn P m" by (rule send_other [OF ok T _ _ proxy_async(3)]) (simp_all add: proxy_async(2))
    moreover have "rings_inv (\<lambda>_. {}) A P (w\<lparr>channel := m\<rparr>)" by (rule rings_cong [OF R]) simp_all
    ultimately show ?thesis using I by (auto simp: proxy_async(1) life_inv_def ctx_inv_def)
  next
    case (proxy_sync c self q t f a r)
    let ?k = "\<lparr>func = call_with_ctx_fn fn, cancel = cancel_ctx_fn fn, arg = c\<rparr>"
    obtain r' m where send: "send self q t ?k (channel w) = Some (r', m)" "ok m" using send_returns [OF ok] by blast
    have w': "ctx_at w' = (ctx_at w)(c := em_proxying_ctx_init_sync f a)" "ctx_live w' = (ctx_live w)(c := r')"
      "active_ctxs w' = active_ctxs w" "channel w' = m"
      using proxy_sync(3) send(1) by (cases r'; auto simp: emscripten_proxy_sync_with_ctx_def Let_def)+
    show ?thesis
      using start_inv [OF ok inv fns proxy_sync(1) dead [OF proxy_sync(2)] _ send(1) w'] send(2) w'(4)
      by (auto simp: em_proxying_ctx_init_sync_def)
  next
    case (proxy_callback c self q t f callback cancl a r)
    show ?thesis
    proof (cases "c = 0")
      case True
      then have "w' = w" using proxy_callback(2) by (simp add: emscripten_proxy_callback_with_ctx_def)
      then show ?thesis using ok inv by blast
    next
      case False
      let ?k = "\<lparr>func = call_with_ctx_fn fn, cancel = cancel_ctx_fn fn, arg = c\<rparr>"
      obtain r' m where send: "send self q t ?k (channel w) = Some (r', m)" "ok m" using send_returns [OF ok] by blast
      have w': "ctx_at w' = (ctx_at w)(c := em_proxying_ctx_init_callback q self f callback cancl a)"
        "ctx_live w' = (ctx_live w)(c := r')" "active_ctxs w' = active_ctxs w" "channel w' = m"
        using proxy_callback(2) send(1) False
        by (cases r'; auto simp: emscripten_proxy_callback_with_ctx_def do_proxy_callback_def free_ctx_def Let_def)+
      have "P c = None" using dead False proxy_callback(1) by blast
      from start_inv [OF ok inv fns False this _ send(1) w'] send(2) w'(4) show ?thesis
        by (auto simp: em_proxying_ctx_init_callback_def)
    qed
  next
    case (proxy_run q t k m)
    then show ?thesis using run_inv [OF ok inv fns] by blast
  next
    case (proxy_drop q t k m)
    then show ?thesis using drop_inv [OF ok inv fns] by blast
  next
    case (proxy_finish self cs c)
    have "cs = A self" by (rule ring_unique [OF proxy_finish(1) rings_invD(1) [OF R]])
    then obtain w1 A' x where "emscripten_proxy_finish send fn self c w = Some w1" "ok (channel w1)"
      "life_inv waiting fn (\<lambda>_. {}) A' (P(c := x)) w1" "moves (P c) x"
      using finish_inv [OF ok inv fns, of c self] proxy_finish(2) by blast
    then show ?thesis using proxy_finish(3) by (intro exI [of _ A'] exI [of _ "P(c := x)"]) auto
  next
    case (proxy_exit t)
    then show ?thesis using exit_inv [OF ok inv fns, of t] by auto
  next
    case (proxy_wake c r)
    have st: "sync_state (ctx_at w c) \<noteq> PENDING" and w': "w' = w\<lparr>ctx_live := (ctx_live w)(c := False)\<rparr>"
      using proxy_wake(3) by (auto simp: proxy_sync_wake_def Let_def split: if_splits)
    obtain p where p: "P c = Some p" using I proxy_wake(1) by (auto simp: ctx_inv_def)
    have "says (Some p) (ctx_at w c)" using I p unfolding ctx_inv_def by metis
    then have s: "p = Settled" using st proxy_wake(2) by (cases p) (simp_all add: says_def)
    have T': "tasks_inv waiting fn (P(c := None)) (channel w)" by (rule tasks_inv_rest [OF T]) (simp_all add: p s)
    have "life_inv waiting fn (\<lambda>_. {}) A (P(c := None)) w'"
      by (rule release_inv [OF inv p _ T']) (simp_all add: s w')
    moreover have "(P(c := None)) y = P y \<or> moves (P y) ((P(c := None)) y)" for y using p s by (simp add: moves.intros)
    moreover have "ok (channel w')" using ok by (simp add: w')
    ultimately show ?thesis by blast
  qed
qed

text \<open>Where a context is can be read off the lists and queues.\<close>

lemma located_iff:
  assumes inv: "life_inv waiting fn (\<lambda>_. {}) A P w" and fns: "distinct_fns fn"
  shows "located waiting fn w c p \<longleftrightarrow> P c = Some p"
proof -
  have T: "tasks_inv waiting fn P (channel w)" and R: "rings_inv (\<lambda>_. {}) A P w" and I: "ctx_inv P w"
    using inv by (simp_all add: life_inv_def)
  have task: "k \<in> set (waiting q t (channel w)) \<longleftrightarrow> P c = Some p" if p: "travels fn c p = Some (q, t, k)" for q t k
  proof
    assume "k \<in> set (waiting q t (channel w))"
    then show "P c = Some p"
      using tasks_invD(2) [OF T _ travels_task(2) [OF p]] travels_inj [OF fns p] travels_task(1) [OF p] by auto
  next
    assume "P c = Some p"
    then show "k \<in> set (waiting q t (channel w))"
      using tasks_invD(3) [OF T, of k p q t] p travels_task(1) [OF p] by simp
  qed
  have says: "says (P c) (ctx_at w c)" and live: "ctx_live w c \<longleftrightarrow> P c \<noteq> None" using I by (simp_all add: ctx_inv_def)
  show ?thesis
  proof (cases p)
    case (Active t)
    have "ring (ctx_at w) (active_ctxs w t) cs \<longleftrightarrow> cs = A t" for cs
      using ring_unique rings_invD(1) [OF R] by blast
    then show ?thesis using rings_invD(2) [OF R, of c t] Active by simp
  next
    case Settled
    show ?thesis
    proof (cases "P c")
      case None
      then show ?thesis using live Settled by simp
    next
      case (Some p')
      then show ?thesis using says live Settled by (cases p') (auto simp: says_def)
    qed
  qed (use task in simp_all)
qed

lemma reachable_inv:
  assumes "(proxy_step send take_first fn)\<^sup>*\<^sup>* (idle_world m) w" and "distinct_fns fn" and "ok m"
    and "\<forall>q t. waiting q t m = []"
  shows "\<exists>A P. ok (channel w) \<and> life_inv waiting fn (\<lambda>_. {}) A P w"
  using assms(1)
proof (induction rule: rtranclp_induct)
  case base
  have "tasks_inv waiting fn (\<lambda>_. None) m" using assms(4) by (simp add: tasks_inv_def)
  then have "life_inv waiting fn (\<lambda>_. {}) (\<lambda>_. []) (\<lambda>_. None) (idle_world m)"
    by (simp add: life_inv_def idle_world_def rings_inv_def ring_def ctx_inv_def says_def)
  then show ?case using assms(3) by (auto simp: idle_world_def)
next
  case (step w w')
  then show ?case using step_inv [OF _ _ assms(2)] by blast
qed

end

section \<open>Properties of the code\<close>

text \<open>The channel is a proxying queue with the mailboxes and task queues behind it.\<close>

abbreviation proxying_step ::
  "u32 \<times> u32 \<Rightarrow> u32 \<Rightarrow> ctx_fns \<Rightarrow> proxy_state proxy_world \<Rightarrow> proxy_state proxy_world \<Rightarrow> bool" where
  "proxying_step fns sysq \<equiv> proxy_step (do_proxy fns sysq) take_task"

definition demo_fns :: ctx_fns where
  "demo_fns = \<lparr>call_with_ctx_fn = 11, cancel_ctx_fn = 12, free_ctx_fn = 13, call_callback_then_free_ctx_fn = 14,
     call_cancel_then_free_ctx_fn = 15, call_then_finish_task_fn = 16, call_then_finish_callback_fn = 17,
     callback_call_fn = 18, callback_cancel_fn = 19, promise_call_fn = 20, promise_fulfill_fn = 21, promise_reject_fn = 22\<rparr>"

lemma demo_fns_distinct: "distinct_fns demo_fns"
  by (simp add: distinct_fns_def demo_fns_def)

lemma ring_zero: "ring g 0 cs \<Longrightarrow> cs = []"
  by (cases cs) (auto simp: ring_def split: if_splits)

text \<open>A thread has proxied a synchronous call; the target has run it.\<close>

lemma demo_sync:
  "\<exists>w. proxying_step (1, 2) 0 demo_fns (idle_world demo_proxies) w \<and> proxy_ok (channel w) \<and>
     ctx_live w 64 \<and> active_ctxs w = (\<lambda>_. 0) \<and> kind (ctx_at w 64) = SYNC \<and>
     waiting_tasks 40 5 (channel w) = [\<lparr>func = 11, cancel = 12, arg = 64\<rparr>]"
proof -
  let ?k = "\<lparr>func = call_with_ctx_fn demo_fns, cancel = cancel_ctx_fn demo_fns, arg = 64\<rparr>"
  obtain m where m: "do_proxy (1, 2) 0 3 40 5 ?k demo_proxies = Some (True, m)" "proxy_ok m" "waiting_tasks 40 5 m = [?k]"
    using do_proxy_effect [OF demo_proxies_ok(1), of "(1, 2)" 0 3 40 5 ?k] demo_proxies_ok(2,3)
    by (auto simp: demo_proxies_def)
  obtain w where w: "emscripten_proxy_sync_with_ctx (do_proxy (1, 2) 0) demo_fns 3 40 5 7 9 64 (idle_world demo_proxies)
      = Some (True, w)" "channel w = m" "ctx_live w 64" "active_ctxs w = (\<lambda>_. 0)" "kind (ctx_at w 64) = SYNC"
    using m(1) by (simp add: emscripten_proxy_sync_with_ctx_def idle_world_def em_proxying_ctx_init_sync_def)
  have "proxying_step (1, 2) 0 demo_fns (idle_world demo_proxies) w"
    by (rule proxy_step.proxy_sync [OF _ _ w(1)]) (simp_all add: idle_world_def)
  then show ?thesis using w m(2,3) by (auto simp: demo_fns_def)
qed

lemma demo_active:
  "\<exists>w. (proxying_step (1, 2) 0 demo_fns)\<^sup>*\<^sup>* (idle_world demo_proxies) w \<and> active_ctxs w 5 = 64 \<and>
     ring (ctx_at w) 64 [64] \<and> ctx_live w 64"
proof -
  obtain w where w: "proxying_step (1, 2) 0 demo_fns (idle_world demo_proxies) w" "proxy_ok (channel w)" "ctx_live w 64"
    "active_ctxs w = (\<lambda>_. 0)" "waiting_tasks 40 5 (channel w) = [\<lparr>func = 11, cancel = 12, arg = 64\<rparr>]"
    using demo_sync by blast
  obtain m where m: "take_task 40 5 (channel w) = Some (\<lparr>func = 11, cancel = 12, arg = 64\<rparr>, m)"
    using pq.take_stuck [OF w(2), of 40 5] pq.take_waiting [OF w(2), of 40 5] w(5)
    by (cases "take_task 40 5 (channel w)") auto
  let ?w = "call_with_ctx 5 64 (w\<lparr>channel := m\<rparr>)"
  have "call_indirect (do_proxy (1, 2) 0) demo_fns 5 11 64 (w\<lparr>channel := m\<rparr>) = Some ?w"
    by (simp add: call_indirect_def demo_fns_def)
  then have st: "proxying_step (1, 2) 0 demo_fns w ?w" by (intro proxy_step.proxy_run [where q = 40 and t = 5 and w = w and take_first = take_task and m = m, OF m]) simp
  have "(proxying_step (1, 2) 0 demo_fns)\<^sup>*\<^sup>* (idle_world demo_proxies) ?w"
    using r_into_rtranclp [where r = "proxying_step (1, 2) 0 demo_fns", OF w(1)] st by (rule rtranclp.rtrancl_into_rtrancl)
  moreover have "active_ctxs ?w 5 = 64" "ring (ctx_at ?w) 64 [64]" "ctx_live ?w 64"
    using w(3,4) by (simp_all add: call_with_ctx_def add_active_ctx_def setspecific_def upd_ctx_def log_call_def ring_def)
  ultimately show ?thesis by blast
qed

text \<open>
  Claim C12. Wherever threads have got to, a context that is alive is in exactly one place (waiting on a queue for
  its target, active there, on its way back, or settled), one that is not is in none, and no task
  of the library refers to a context that has been freed.
\<close>

theorem contexts_in_one_place:
  assumes "distinct_fns fn" and "proxy_ok m" and "\<forall>q t. waiting_tasks q t m = []"
    and "(proxying_step fns sysq fn)\<^sup>*\<^sup>* (idle_world m) w"
  shows "(if ctx_live w c then \<exists>!p. located waiting_tasks fn w c p else \<forall>p. \<not> located waiting_tasks fn w c p) \<and>
    (\<forall>q t k. k \<in> set (waiting_tasks q t (channel w)) \<and> ctx_task fn k \<longrightarrow> ctx_live w (arg k))"
proof -
  obtain A P where inv: "life_inv waiting_tasks fn (\<lambda>_. {}) A P w"
    using pq.reachable_inv [OF assms(4,1-3)] by blast
  have T: "tasks_inv waiting_tasks fn P (channel w)" and I: "ctx_inv P w" using inv by (simp_all add: life_inv_def)
  have live: "ctx_live w c \<longleftrightarrow> P c \<noteq> None" for c using I by (simp add: ctx_inv_def)
  have "ctx_live w (arg k)" if "k \<in> set (waiting_tasks q t (channel w))" "ctx_task fn k" for q t k
    using tasks_invD(2) [OF T that] live by auto
  then show ?thesis using pq.located_iff [OF inv assms(1)] live by (auto split: option.splits)
qed

theorem contexts_in_one_place_witness:
  "\<exists>w. ctx_live w 64 \<and> (\<exists>!p. located waiting_tasks demo_fns w 64 p)"
proof -
  obtain w where "proxying_step (1, 2) 0 demo_fns (idle_world demo_proxies) w" "ctx_live w 64" using demo_sync by blast
  then show ?thesis
    using contexts_in_one_place [OF demo_fns_distinct demo_proxies_ok(1) _ r_into_rtranclp, of "(1, 2)" 0 w 64]
      demo_proxies_ok(3) by auto
qed

text \<open>
  Claim C13. Every step of any thread leaves each context where it is or moves it along its way: it is proxied once, run
  or dropped once, and then finished, undone or freed, never twice.
\<close>

theorem contexts_move_on:
  assumes "distinct_fns fn" and "proxy_ok m" and "\<forall>q t. waiting_tasks q t m = []"
    and "(proxying_step fns sysq fn)\<^sup>*\<^sup>* (idle_world m) w" and "proxying_step fns sysq fn w w'"
  shows "\<exists>x y. (\<forall>p. located waiting_tasks fn w c p \<longleftrightarrow> x = Some p) \<and> (\<forall>p. located waiting_tasks fn w' c p \<longleftrightarrow> y = Some p) \<and>
    (y = x \<or> moves x y)"
proof -
  obtain A P where inv: "proxy_ok (channel w)" "life_inv waiting_tasks fn (\<lambda>_. {}) A P w"
    using pq.reachable_inv [OF assms(4,1-3)] by blast
  obtain A' P' where inv': "life_inv waiting_tasks fn (\<lambda>_. {}) A' P' w'" "\<And>y. P' y = P y \<or> moves (P y) (P' y)"
    using pq.step_inv [OF inv assms(1,5)] by blast
  show ?thesis
    using pq.located_iff [OF inv(2) assms(1)] pq.located_iff [OF inv'(1) assms(1)] inv'(2) by blast
qed

theorem contexts_move_on_witness:
  "\<exists>w. (\<forall>p. \<not> located waiting_tasks demo_fns (idle_world demo_proxies) 64 p) \<and>
     (\<exists>x y. (\<forall>p. located waiting_tasks demo_fns w 64 p \<longleftrightarrow> y = Some p) \<and> moves x y)"
proof -
  obtain w where w: "proxying_step (1, 2) 0 demo_fns (idle_world demo_proxies) w" "ctx_live w 64"
    "waiting_tasks 40 5 (channel w) = [\<lparr>func = 11, cancel = 12, arg = 64\<rparr>]" using demo_sync by blast
  have before: "\<not> located waiting_tasks demo_fns (idle_world demo_proxies) 64 p" for p
    by (cases p) (auto simp: idle_world_def demo_proxies_ok(3) dest: ring_zero)
  have "located waiting_tasks demo_fns w 64 (Queued 40 5)" using w(3) by (simp add: demo_fns_def)
  then show ?thesis
    using contexts_move_on [OF demo_fns_distinct demo_proxies_ok(1) _ rtranclp.rtrancl_refl w(1), of 64] demo_proxies_ok(3) before
    by (metis option.exhaust)
qed

text \<open>
  Claim C14. The library calls that end a context return, whatever other threads have done: finishing an active context,
  and the destructor that cancels the contexts of a thread that exits, after which none is active on it.
\<close>

theorem finish_and_exit_return:
  assumes "distinct_fns fn" and "proxy_ok m" and "\<forall>q t. waiting_tasks q t m = []"
    and "(proxying_step fns sysq fn)\<^sup>*\<^sup>* (idle_world m) w" and "located waiting_tasks fn w c (Active t)"
  shows "(\<exists>w'. emscripten_proxy_finish (do_proxy fns sysq) fn t c w = Some w') \<and>
    (\<exists>w'. cancel_active_ctxs (do_proxy fns sysq) fn t (active_ctxs w t) w = Some w' \<and>
       (\<forall>c. \<not> located waiting_tasks fn w' c (Active t)))"
proof -
  obtain A P where inv: "proxy_ok (channel w)" "life_inv waiting_tasks fn (\<lambda>_. {}) A P w"
    using pq.reachable_inv [OF assms(4,1-3)] by blast
  have R: "rings_inv (\<lambda>_. {}) A P w" using inv(2) by (simp add: life_inv_def)
  have "P c = Some (Active t)" using pq.located_iff [OF inv(2) assms(1)] assms(5) by blast
  then have c: "c \<in> set (A t)" using rings_invD(2) [OF R, of c t] by simp
  then have h: "active_ctxs w t \<noteq> 0" using rings_invD(1) [OF R, of t] by (cases "A t") (auto simp: ring_def)
  obtain w' A' P' where "cancel_active_ctxs (do_proxy fns sysq) fn t (active_ctxs w t) w = Some w'"
    "life_inv waiting_tasks fn (\<lambda>_. {}) A' P' w'" "A' t = []"
    using pq.exit_inv [OF inv assms(1) h] by blast
  moreover from this have "\<not> located waiting_tasks fn w' c (Active t)" for c
    using pq.located_iff [OF _ assms(1), of A' P' w' c "Active t"] rings_invD(2) [of _ A' P' w' c t] by (auto simp: life_inv_def)
  ultimately show ?thesis using pq.finish_inv [OF inv assms(1) c] by blast
qed

theorem finish_and_exit_return_witness:
  "\<exists>w w'. cancel_active_ctxs (do_proxy (1, 2) 0) demo_fns 5 64 w = Some w' \<and> \<not> located waiting_tasks demo_fns w' 64 (Active 5)"
proof -
  obtain w where w: "(proxying_step (1, 2) 0 demo_fns)\<^sup>*\<^sup>* (idle_world demo_proxies) w" "active_ctxs w 5 = 64"
    "ring (ctx_at w) 64 [64]" using demo_active by blast
  then have "located waiting_tasks demo_fns w 64 (Active 5)" by (auto intro!: exI [of _ "[64]"])
  then have "\<exists>w'. cancel_active_ctxs (do_proxy (1, 2) 0) demo_fns 5 (active_ctxs w 5) w = Some w' \<and>
      (\<forall>c. \<not> located waiting_tasks demo_fns w' c (Active 5))"
    using finish_and_exit_return [OF demo_fns_distinct demo_proxies_ok(1) _ w(1), of 64 5] demo_proxies_ok(3) by blast
  then show ?thesis unfolding w(2) by blast
qed

end
