(* ===== verification/Dynlink.thy ===== *)
theory Dynlink
  imports Prelude
begin

text \<open>
  Dynamic linking: \<open>system/lib/libc/dynlink.c\<close> of a multi-threaded build. All loads of libraries and
  all symbol look-ups that extend the function table are events of one list, and each
  thread replays the events it has not seen: at once if it runs, when it wakes if it sleeps on a futex
  (\<open>_emscripten_dlsync_threads\<close> of \<open>src/lib/libpthread.js\<close>). The functions in JavaScript that really
  load a library or put a symbol into the table are parameters, as is the file system.
\<close>

section \<open>State\<close>

definition RTLD_LAZY :: u32 where "RTLD_LAZY = 1"
definition RTLD_NOW :: u32 where "RTLD_NOW = 2"
definition RTLD_DEFAULT :: u32 where "RTLD_DEFAULT = 0"
definition RTLD_NEXT :: u32 where "RTLD_NEXT = - 1"
definition NAME_MAX :: nat where "NAME_MAX = 255"

text \<open>\<open>sizeof buf\<close> of the two functions that open a library.\<close>

definition buf_len :: nat where "buf_len = 2 * NAME_MAX + 2"

record dso =
  dso_name :: string
  dso_flags :: u32
  dso_event :: nat
  file_data :: "u8 list option"

text \<open>\<open>sym_index\<close> is \<open>-1\<close> for the load of a library.\<close>

record dlevent =
  sym_index :: int
  ev_dso :: u32

text \<open>What a thread has done to its copy of the program.\<close>

datatype load_action = Load u32 | Symbol u32 int

text \<open>
  \<open>events\<close> is the list from \<open>head\<close> to \<open>tail\<close>; a pointer to an event is its index, and \<open>next\<close> of the last is null.
  \<open>thread_local_tail\<close> and \<open>skip_dlsync\<close> are per thread. \<open>write_lock\<close> holds the owner of the mutex,
  \<open>loaded\<close> the actions of each thread, \<open>dl_error\<close> the last error. \<open>pthreads\<close> and \<open>finished_threads\<close> are the
  tables of threads in JavaScript, \<open>sleeping\<close> is the flag that a thread sets around a futex wait, \<open>sync_queued\<close>
  says that \<open>dlopen_proxying_queue\<close> holds work for a thread.
\<close>

record dl_state =
  events :: "dlevent list"
  dso_at :: "u32 \<Rightarrow> dso"
  thread_local_tail :: "u32 \<Rightarrow> nat"
  write_lock :: "u32 option"
  skip_dlsync :: "u32 \<Rightarrow> bool"
  loaded :: "u32 \<Rightarrow> load_action list"
  dl_error :: "string option"
  pthreads :: "u32 list"
  finished_threads :: "u32 \<Rightarrow> bool"
  sleeping :: "u32 \<Rightarrow> bool"
  sync_queued :: "u32 \<Rightarrow> bool"

text \<open>
  The world outside: \<open>contents\<close> is what opening and reading a regular file gives, \<open>probe\<close> the answer of \<open>stat\<close> (is it a
  regular file, and what is \<open>errno\<close> then), \<open>js_load\<close> and \<open>js_symbol\<close> whether a thread succeeds in loading
  a library or adding a symbol.
\<close>

record dl_world =
  contents :: "string \<Rightarrow> u8 list option"
  probe :: "string \<Rightarrow> bool \<times> int"
  env_path :: "string option"
  js_load :: "u32 \<Rightarrow> u32 \<Rightarrow> bool"
  js_symbol :: "u32 \<Rightarrow> u32 \<Rightarrow> int \<Rightarrow> bool"
  js_dlsym :: "u32 \<Rightarrow> string \<Rightarrow> u32 \<times> int"
  main_thread :: u32

definition dl_log :: "u32 \<Rightarrow> load_action \<Rightarrow> dl_state \<Rightarrow> dl_state" where
  "dl_log self a s = s\<lparr>loaded := (loaded s)(self := loaded s self @ [a])\<rparr>"

section \<open>The lock and the event list\<close>

text \<open>\<^const>\<open>None\<close>: the thread blocks. The mutex is not recursive, so its owner blocks too.\<close>

definition do_write_lock :: "u32 \<Rightarrow> dl_state \<Rightarrow> dl_state option" where
  "do_write_lock self s =
     (if write_lock s = None
      then Some (s\<lparr>skip_dlsync := (skip_dlsync s)(self := True), write_lock := Some self\<rparr>) else None)"

definition do_write_unlock :: "u32 \<Rightarrow> dl_state \<Rightarrow> dl_state" where
  "do_write_unlock self s = s\<lparr>write_lock := None, skip_dlsync := (skip_dlsync s)(self := False)\<rparr>"

definition dl_invalid_handle :: "u32 \<Rightarrow> dl_state \<Rightarrow> bool \<times> dl_state" where
  "dl_invalid_handle h s =
     (if list_ex (\<lambda>e. sym_index e = - 1 \<and> ev_dso e = h) (events s) then (False, s)
      else (True, s\<lparr>dl_error := Some ''Invalid library handle''\<rparr>))"

definition new_dlevent :: "u32 \<Rightarrow> u32 \<Rightarrow> int \<Rightarrow> dl_state \<Rightarrow> dl_state" where
  "new_dlevent self p i s =
     (let ev = length (events s);
          s1 = (if p \<noteq> 0 then s\<lparr>dso_at := (dso_at s)(p := (dso_at s p)\<lparr>dso_event := ev\<rparr>)\<rparr> else s)
      in s1\<lparr>events := events s1 @ [\<lparr>sym_index = i, ev_dso = p\<rparr>],
            thread_local_tail := (thread_local_tail s1)(self := ev)\<rparr>)"

text \<open>\<open>p\<close> is the address that \<open>calloc\<close> returns.\<close>

definition load_library_start :: "dl_world \<Rightarrow> string \<Rightarrow> u32 \<Rightarrow> u32 \<Rightarrow> dl_state \<Rightarrow> u32 \<times> dl_state" where
  "load_library_start dw name flags p s =
     (if flags AND (RTLD_LAZY OR RTLD_NOW) = 0
      then (0, s\<lparr>dl_error := Some ''invalid mode for dlopen(): Either RTLD_LAZY or RTLD_NOW is required''\<rparr>)
      else (p, s\<lparr>dso_at := (dso_at s)(p :=
             \<lparr>dso_name = name, dso_flags = flags, dso_event = 0, file_data = contents dw name\<rparr>)\<rparr>))"

section \<open>Catching up\<close>

text \<open>A background thread, synchronously: the loop of \<open>_emscripten_dlsync_self\<close>, over the events that follow its tail.\<close>

fun dlsync_self_loop :: "dl_world \<Rightarrow> u32 \<Rightarrow> dlevent list \<Rightarrow> dl_state \<Rightarrow> bool \<times> dl_state" where
  "dlsync_self_loop dw self [] s = (True, s)"
| "dlsync_self_loop dw self (p # ps) s =
     (let tl_next = (thread_local_tail s)(self := thread_local_tail s self + 1)
      in if sym_index p \<noteq> - 1
         then if js_symbol dw self (ev_dso p) (sym_index p)
              then dlsync_self_loop dw self ps ((dl_log self (Symbol (ev_dso p) (sym_index p)) s)\<lparr>thread_local_tail := tl_next\<rparr>)
              else (False, s)
         else if js_load dw self (ev_dso p)
              then dlsync_self_loop dw self ps ((dl_log self (Load (ev_dso p)) s)\<lparr>thread_local_tail := tl_next\<rparr>)
              else (False, s))"

definition emscripten_dlsync_self :: "dl_world \<Rightarrow> u32 \<Rightarrow> dl_state \<Rightarrow> bool \<times> dl_state" where
  "emscripten_dlsync_self dw self s =
     (if thread_local_tail s self = length (events s) - 1 then (True, s)
      else dlsync_self_loop dw self (drop (thread_local_tail s self + 1) (events s)) s)"

text \<open>
  The main thread, asynchronously: it handles symbols until it comes to a library, which
  JavaScript then loads. The result says whether the promise is fulfilled, the main thread
  waits for a load, or the program is aborted.
\<close>

datatype sync_result = Fulfilled | Loading u32 | Aborted

fun dlsync_next :: "dl_world \<Rightarrow> u32 \<Rightarrow> dlevent list \<Rightarrow> dl_state \<Rightarrow> sync_result \<times> dl_state" where
  "dlsync_next dw self [] s = (Fulfilled, s)"
| "dlsync_next dw self (p # ps) s =
     (if sym_index p \<noteq> - 1
      then if js_symbol dw self (ev_dso p) (sym_index p)
           then dlsync_next dw self ps (dl_log self (Symbol (ev_dso p) (sym_index p)) s)
           else (Aborted, s)
      else (Loading (ev_dso p), s))"

definition sync_one_onsuccess :: "dl_world \<Rightarrow> u32 \<Rightarrow> u32 \<Rightarrow> dl_state \<Rightarrow> sync_result \<times> dl_state" where
  "sync_one_onsuccess dw self d s =
     (let s1 = (dl_log self (Load d) s)\<lparr>thread_local_tail := (thread_local_tail s)(self := dso_event (dso_at s d))\<rparr>
      in dlsync_next dw self (drop (thread_local_tail s1 self + 1) (events s1)) s1)"

definition emscripten_dlsync_self_async :: "dl_world \<Rightarrow> u32 \<Rightarrow> dl_state \<Rightarrow> sync_result \<times> dl_state" where
  "emscripten_dlsync_self_async dw self s = dlsync_next dw self (drop (thread_local_tail s self + 1) (events s)) s"

text \<open>
  The main thread catches up to the end, \<open>n\<close> times waiting for a load; \<^const>\<open>None\<close> if it is not through then or
  if \<open>sync_one_onerror\<close> aborts the program. The number of events is enough (\<open>main_sync_ends\<close>).
\<close>

fun dlsync_main :: "nat \<Rightarrow> dl_world \<Rightarrow> u32 \<Rightarrow> sync_result \<times> dl_state \<Rightarrow> dl_state option" where
  "dlsync_main n dw self (Fulfilled, s) = Some s"
| "dlsync_main n dw self (Aborted, s) = None"
| "dlsync_main 0 dw self (Loading d, s) = None"
| "dlsync_main (Suc n) dw self (Loading d, s) =
     (if js_load dw self d then dlsync_main n dw self (sync_one_onsuccess dw self d s) else None)"

section \<open>The other threads\<close>

text \<open>
  A thread does the work queued for it; \<^const>\<open>None\<close> if it cannot replay an event, for then \<open>thread_sync_done\<close>
  aborts the program.
\<close>

definition emscripten_process_dlopen_queue :: "dl_world \<Rightarrow> u32 \<Rightarrow> dl_state \<Rightarrow> dl_state option" where
  "emscripten_process_dlopen_queue dw t s =
     (if sync_queued s t
      then (case emscripten_dlsync_self dw t s of
              (True, s1) \<Rightarrow> Some (s1\<lparr>sync_queued := (sync_queued s1)(t := False)\<rparr>)
            | (False, s1) \<Rightarrow> None)
      else Some s)"

text \<open>The promise of a thread that sleeps is fulfilled at once: it will do the work when it wakes.\<close>

definition emscripten_proxy_dlsync_async :: "dl_world \<Rightarrow> u32 \<Rightarrow> dl_state \<Rightarrow> dl_state option" where
  "emscripten_proxy_dlsync_async dw t s =
     (let s1 = s\<lparr>sync_queued := (sync_queued s)(t := True)\<rparr>
      in if sleeping s t then Some s1 else emscripten_process_dlopen_queue dw t s1)"

text \<open>The main thread waits until the other has done the work; the caller ignores whether it succeeded.\<close>

definition emscripten_proxy_dlsync :: "dl_world \<Rightarrow> u32 \<Rightarrow> dl_state \<Rightarrow> dl_state" where
  "emscripten_proxy_dlsync dw t s = snd (emscripten_dlsync_self dw t s)"

fun dlsync_loop :: "dl_world \<Rightarrow> u32 \<Rightarrow> u32 list \<Rightarrow> dl_state \<Rightarrow> dl_state option" where
  "dlsync_loop dw caller [] s = Some s"
| "dlsync_loop dw caller (t # ts) s =
     (if t \<noteq> caller \<and> \<not> finished_threads s t
      then Option.bind (emscripten_proxy_dlsync_async dw t s) (dlsync_loop dw caller ts)
      else dlsync_loop dw caller ts s)"

definition dlsyncThreadsAsync :: "dl_world \<Rightarrow> u32 \<Rightarrow> dl_state \<Rightarrow> dl_state option" where
  "dlsyncThreadsAsync dw caller s =
     Option.bind (dlsync_main (length (events s)) dw (main_thread dw) (emscripten_dlsync_self_async dw (main_thread dw) s))
       (\<lambda>s1. dlsync_loop dw caller (pthreads s1) s1)"

definition emscripten_dlsync_threads :: "dl_world \<Rightarrow> u32 \<Rightarrow> dl_state \<Rightarrow> dl_state option" where
  "emscripten_dlsync_threads dw self s =
     (if self \<noteq> main_thread dw then dlsyncThreadsAsync dw self s
      else Some (fold (\<lambda>t s. if finished_threads s t then s else emscripten_proxy_dlsync dw t s) (pthreads s) s))"

definition load_library_done :: "dl_world \<Rightarrow> u32 \<Rightarrow> u32 \<Rightarrow> dl_state \<Rightarrow> dl_state option" where
  "load_library_done dw self p s = emscripten_dlsync_threads dw self (new_dlevent self p (- 1) s)"

section \<open>Finding a library\<close>

definition is_path_sep :: "char \<Rightarrow> bool" where
  "is_path_sep c \<longleftrightarrow> c = CHR '':'' \<or> c = CHR 0x0A"

lemma path_find_shrinks:
  assumes "takeWhile (\<lambda>c. \<not> P c) (dropWhile P s) \<noteq> []"
  shows "length (dropWhile (\<lambda>c. \<not> P c) (dropWhile P s)) < length s"
proof -
  have "length (dropWhile P s) =
      length (takeWhile (\<lambda>c. \<not> P c) (dropWhile P s)) + length (dropWhile (\<lambda>c. \<not> P c) (dropWhile P s))"
    by (metis length_append takeWhile_dropWhile_id)
  moreover have "length (dropWhile P s) \<le> length s" by (rule length_dropWhile_le)
  moreover have "0 < length (takeWhile (\<lambda>c. \<not> P c) (dropWhile P s))" using assms by simp
  ultimately show ?thesis by linarith
qed

text \<open>The result is 0 and the path found, \<open>-1\<close>, or \<open>-2\<close> when \<open>stat\<close> fails for another reason than a missing file.\<close>

function path_find :: "dl_world \<Rightarrow> string \<Rightarrow> string \<Rightarrow> nat \<Rightarrow> int \<times> string" where
  "path_find dw name s buf_size =
     (let s1 = dropWhile is_path_sep s;
          seg = takeWhile (\<lambda>c. \<not> is_path_sep c) s1;
          buf = seg @ ''/'' @ name
      in if seg = [] \<or> 0x7FFFFFFF \<le> length seg - 1 then (- 1, [])
         else if length buf < buf_size
         then (case probe dw buf of
                 (regular, err) \<Rightarrow>
                   if regular then (0, buf)
                   else if err = ENOENT \<or> err = ENOTDIR \<or> err = EACCES \<or> err = ENAMETOOLONG
                   then path_find dw name (dropWhile (\<lambda>c. \<not> is_path_sep c) s1) buf_size
                   else (- 2, buf))
         else path_find dw name (dropWhile (\<lambda>c. \<not> is_path_sep c) s1) buf_size)"
  by pat_completeness auto

termination
  by (relation "measure (\<lambda>(dw, name, s, n). length s)") (use path_find_shrinks [of is_path_sep] in auto)

declare path_find.simps [simp del]

definition emscripten_find_dylib :: "dl_world \<Rightarrow> string option \<Rightarrow> string \<Rightarrow> nat \<Rightarrow> string option" where
  "emscripten_find_dylib dw rpath file buflen =
     (if CHR ''/'' \<in> set file then None
      else
        let find_in = (\<lambda>p. case p of None \<Rightarrow> (- 1, []) | Some s \<Rightarrow> path_find dw file s buflen)
        in case find_in (env_path dw) of
             (r, buf) \<Rightarrow>
               if r = 0 then Some buf
               else case find_in rpath of (r, buf) \<Rightarrow> if r = 0 then Some buf else None)"

definition find_dylib :: "dl_world \<Rightarrow> string \<Rightarrow> nat \<Rightarrow> string" where
  "find_dylib dw file buflen = (case emscripten_find_dylib dw None file buflen of Some b \<Rightarrow> b | None \<Rightarrow> file)"

definition find_existing :: "string \<Rightarrow> dl_state \<Rightarrow> u32" where
  "find_existing file s =
     (case find (\<lambda>e. sym_index e = - 1 \<and> dso_name (dso_at s (ev_dso e)) = file) (events s) of
        Some e \<Rightarrow> ev_dso e
      | None \<Rightarrow> 0)"

section \<open>Opening a library and looking up a symbol\<close>

text \<open>\<^const>\<open>None\<close>: the thread blocks, or the program is aborted because another thread cannot replay an event.\<close>

definition dlopen :: "dl_world \<Rightarrow> u32 \<Rightarrow> u32 \<Rightarrow> string option \<Rightarrow> u32 \<Rightarrow> dl_state \<Rightarrow> (u32 \<times> dl_state) option" where
  "dlopen dw self new_dso file flags s =
     (case file of
        None \<Rightarrow> Some (ev_dso (hd (events s)), s)
      | Some f \<Rightarrow>
          (case do_write_lock self s of
             None \<Rightarrow> None
           | Some s1 \<Rightarrow>
               let name = find_dylib dw f buf_len;
                   p = find_existing name s1
               in if p \<noteq> 0 then Some (p, do_write_unlock self s1)
                  else
                    let (q, s2) = load_library_start dw name flags new_dso s1
                    in if q = 0 then Some (0, do_write_unlock self s2)
                       else if \<not> js_load dw self q then Some (0, do_write_unlock self s2)
                       else map_option (\<lambda>s3. (q, do_write_unlock self s3))
                              (load_library_done dw self q (dl_log self (Load q) s2))))"

text \<open>What the asynchronous call ends with: a callback at once, or a load that ends in one of the two functions below.\<close>

datatype dlopen_end = On_success u32 | On_error | Load_pending u32

definition emscripten_dlopen :: "dl_world \<Rightarrow> u32 \<Rightarrow> u32 \<Rightarrow> string option \<Rightarrow> u32 \<Rightarrow> dl_state \<Rightarrow> (dlopen_end \<times> dl_state) option" where
  "emscripten_dlopen dw self new_dso file flags s =
     (case file of
        None \<Rightarrow> Some (On_success (ev_dso (hd (events s))), s)
      | Some f \<Rightarrow>
          (case do_write_lock self s of
             None \<Rightarrow> None
           | Some s1 \<Rightarrow>
               let name = find_dylib dw f buf_len;
                   p = find_existing name s1
               in if p \<noteq> 0 then Some (On_success p, s1)
                  else
                    let (q, s2) = load_library_start dw name flags new_dso s1
                    in if q = 0 then Some (On_error, do_write_unlock self s2)
                       else Some (Load_pending q, s2)))"

definition dlopen_onsuccess :: "dl_world \<Rightarrow> u32 \<Rightarrow> u32 \<Rightarrow> dl_state \<Rightarrow> (dlopen_end \<times> dl_state) option" where
  "dlopen_onsuccess dw self d s =
     map_option (\<lambda>s1. (On_success d, do_write_unlock self s1)) (load_library_done dw self d (dl_log self (Load d) s))"

definition dlopen_onerror :: "u32 \<Rightarrow> u32 \<Rightarrow> dl_state \<Rightarrow> dlopen_end \<times> dl_state" where
  "dlopen_onerror self d s = (On_error, do_write_unlock self s)"

definition dlsym :: "dl_world \<Rightarrow> u32 \<Rightarrow> u32 \<Rightarrow> string \<Rightarrow> dl_state \<Rightarrow> (u32 \<times> dl_state) option" where
  "dlsym dw self p name s =
     (let (invalid, s1) = (if p \<noteq> RTLD_DEFAULT \<and> p \<noteq> RTLD_NEXT then dl_invalid_handle p s else (False, s))
      in if invalid then Some (0, s1)
         else
           let q = (if p = ev_dso (hd (events s1)) then RTLD_DEFAULT else p)
           in case do_write_lock self s1 of
                None \<Rightarrow> None
              | Some s2 \<Rightarrow>
                  let (res, i) = js_dlsym dw q name
                  in map_option (\<lambda>s3. (res, do_write_unlock self s3))
                       (if i \<noteq> - 1
                        then emscripten_dlsync_threads dw self (new_dlevent self q i (dl_log self (Symbol q i) s2))
                        else Some s2))"

section \<open>Catching up loads what is missing\<close>

definition action_of :: "dlevent \<Rightarrow> load_action" where
  "action_of e = (if sym_index e = - 1 then Load (ev_dso e) else Symbol (ev_dso e) (sym_index e))"

definition js_accepts :: "dl_world \<Rightarrow> u32 \<Rightarrow> dlevent \<Rightarrow> bool" where
  "js_accepts dw self e \<longleftrightarrow>
     (if sym_index e = - 1 then js_load dw self (ev_dso e) else js_symbol dw self (ev_dso e) (sym_index e))"

definition catch_up :: "u32 \<Rightarrow> load_action list \<Rightarrow> dl_state \<Rightarrow> dl_state" where
  "catch_up self acts s = s\<lparr>loaded := (loaded s)(self := loaded s self @ acts),
     thread_local_tail := (thread_local_tail s)(self := thread_local_tail s self + length acts)\<rparr>"

lemma catch_up_Nil [simp]: "catch_up self [] s = s"
  by (cases s) (simp add: catch_up_def)

lemma catch_up_Cons: "catch_up self acts (catch_up self [a] s) = catch_up self (a # acts) s"
  by (cases s) (simp add: catch_up_def fun_eq_iff)

lemma catch_up_fields [simp]:
  "loaded (catch_up self acts s) t = (if t = self then loaded s self @ acts else loaded s t)"
  "thread_local_tail (catch_up self acts s) t =
     (if t = self then thread_local_tail s self + length acts else thread_local_tail s t)"
  "events (catch_up self acts s) = events s" "dso_at (catch_up self acts s) = dso_at s"
  "write_lock (catch_up self acts s) = write_lock s"
  by (simp_all add: catch_up_def)

lemma dlsync_self_loop_eq:
  "dlsync_self_loop dw self es s =
     (let done = takeWhile (js_accepts dw self) es in (done = es, catch_up self (map action_of done) s))"
proof (induction dw self es s rule: dlsync_self_loop.induct)
  case (1 dw self s)
  then show ?case by simp
next
  case (2 dw self p ps s)
  have one: "(dl_log self a s)\<lparr>thread_local_tail := (thread_local_tail s)(self := thread_local_tail s self + 1)\<rparr> =
      catch_up self [a] s" for a by (simp add: dl_log_def catch_up_def)
  show ?case
  proof (cases "sym_index p = - 1")
    case True
    then show ?thesis
      using 2(2) by (simp add: js_accepts_def action_of_def one [simplified] Let_def catch_up_Cons)
  next
    case False
    then show ?thesis
      using 2(1) by (simp add: js_accepts_def action_of_def one [simplified] Let_def catch_up_Cons)
  qed
qed

lemma dlsync_self_eq:
  assumes "thread_local_tail s self < length (events s)"
  shows "emscripten_dlsync_self dw self s =
    (let missing = drop (thread_local_tail s self + 1) (events s); done = takeWhile (js_accepts dw self) missing
     in (done = missing, catch_up self (map action_of done) s))"
  using assms by (auto simp: emscripten_dlsync_self_def dlsync_self_loop_eq Let_def)

text \<open>
  \<open>_emscripten_dlsync_self\<close> replays exactly the events its thread has not seen, each once and in order, up to
  the first that fails, and is in sync when it returns true. No other thread is touched.
\<close>

theorem dlsync_self_catches_up:
  assumes "thread_local_tail s self < length (events s)" and "emscripten_dlsync_self dw self s = (r, s')"
  shows "\<exists>n. loaded s' self = loaded s self @ map action_of (take n (drop (thread_local_tail s self + 1) (events s))) \<and>
    thread_local_tail s' self = thread_local_tail s self + n \<and> thread_local_tail s' self < length (events s) \<and>
    (if r then thread_local_tail s' self = length (events s) - 1
     else \<not> js_accepts dw self (events s ! (thread_local_tail s' self + 1))) \<and>
    (\<forall>t. t \<noteq> self \<longrightarrow> loaded s' t = loaded s t \<and> thread_local_tail s' t = thread_local_tail s t) \<and> events s' = events s"
proof -
  define missing where "missing = drop (thread_local_tail s self + 1) (events s)"
  define m where "m = takeWhile (js_accepts dw self) missing"
  have s': "r = (m = missing)" "s' = catch_up self (map action_of m) s"
    using assms(2) dlsync_self_eq [OF assms(1), of dw] by (simp_all add: missing_def m_def Let_def)
  have take: "m = take (length m) missing" unfolding m_def by (rule takeWhile_eq_take)
  have len: "length m \<le> length missing" unfolding m_def by (rule length_takeWhile_le)
  have "\<not> js_accepts dw self (events s ! (thread_local_tail s self + length m + 1))" if "m \<noteq> missing"
  proof -
    have l: "length m < length missing" using that len take by (metis le_neq_implies_less take_all_iff order_refl)
    then have "\<not> js_accepts dw self (missing ! length m)" unfolding m_def by (rule nth_length_takeWhile)
    then show ?thesis using l by (simp add: missing_def add.commute add.left_commute)
  qed
  then show ?thesis
    using s' take len assms(1) by (intro exI [of _ "length m"]) (auto simp: missing_def)
qed

text \<open>
  The asynchronous catch-up of the main thread does not move its tail over symbol events: it adds the symbols,
  reports success, and adds them all again the next time.
\<close>

theorem async_replays_symbols:
  assumes "\<forall>e\<in>set (drop (thread_local_tail s self + 1) (events s)). sym_index e \<noteq> - 1 \<and> js_accepts dw self e"
    and "emscripten_dlsync_self_async dw self s = (r, s')" and "emscripten_dlsync_self_async dw self s' = (r', s'')"
  shows "r = Fulfilled \<and> thread_local_tail s' self = thread_local_tail s self \<and>
    loaded s'' self = loaded s self @ map action_of (drop (thread_local_tail s self + 1) (events s)) @
      map action_of (drop (thread_local_tail s self + 1) (events s))"
proof -
  have run: "dlsync_next dw self es s = (Fulfilled, s\<lparr>loaded := (loaded s)(self := loaded s self @ map action_of es)\<rparr>)"
    if "\<forall>e\<in>set es. sym_index e \<noteq> - 1 \<and> js_accepts dw self e" for es s
    using that by (induction es arbitrary: s) (auto simp: js_accepts_def action_of_def dl_log_def)
  let ?es = "drop (thread_local_tail s self + 1) (events s)"
  have s': "r = Fulfilled" "s' = s\<lparr>loaded := (loaded s)(self := loaded s self @ map action_of ?es)\<rparr>"
    using assms(2) run [OF assms(1), of s] by (simp_all add: emscripten_dlsync_self_async_def)
  have "emscripten_dlsync_self_async dw self s' =
      (Fulfilled, s'\<lparr>loaded := (loaded s')(self := loaded s' self @ map action_of ?es)\<rparr>)"
    using run [OF assms(1), of s'] s'(2) by (simp add: emscripten_dlsync_self_async_def)
  then have s'': "s'' = s'\<lparr>loaded := (loaded s')(self := loaded s' self @ map action_of ?es)\<rparr>" using assms(3) by simp
  then show ?thesis using s'(1) by (simp add: s'(2))
qed

section \<open>The lock\<close>

text \<open>
  \<open>emscripten_dlopen\<close> of a library that is already open calls back with its handle but keeps the write lock: after it
  no thread, not even the caller, can open a library or look up a symbol any more.
\<close>

theorem dlopen_of_open_library_keeps_lock:
  assumes "emscripten_dlopen dw self q (Some file) flags s = Some (On_success h, s')"
  shows "h \<noteq> 0 \<and> write_lock s' = Some self \<and> dlopen dw t q' (Some file') flags' s' = None \<and>
    emscripten_dlopen dw t q' (Some file') flags' s' = None \<and> dlsym dw t RTLD_DEFAULT name s' = None"
proof -
  obtain s1 where s1: "do_write_lock self s = Some s1"
    using assms by (cases "do_write_lock self s") (auto simp: emscripten_dlopen_def)
  then have "h \<noteq> 0" "write_lock s' = Some self"
    using assms by (auto simp: emscripten_dlopen_def do_write_lock_def Let_def split: if_splits prod.splits)
  then show ?thesis
    by (simp add: dlopen_def emscripten_dlopen_def dlsym_def do_write_lock_def Let_def)
qed

section \<open>The search path\<close>

text \<open>The directories of a search path: what lies between separators and is not empty.\<close>

definition split_path :: "string \<Rightarrow> string list" where
  "split_path s = foldr (\<lambda>c acc. if is_path_sep c then [] # acc else (c # hd acc) # tl acc) s [[]]"

definition path_dirs :: "string \<Rightarrow> string list" where
  "path_dirs s = filter (\<lambda>d. d \<noteq> []) (split_path s)"

lemma split_path_prefix:
  "\<forall>c\<in>set xs. \<not> is_path_sep c \<Longrightarrow> split_path (xs @ s) = (xs @ hd (split_path s)) # tl (split_path s)"
proof (induction xs)
  case Nil
  have "split_path s \<noteq> []" by (cases s) (simp_all add: split_path_def)
  then show ?case by simp
qed (simp add: split_path_def)

lemma path_dirs_step:
  "path_dirs s =
     (let s1 = dropWhile is_path_sep s; seg = takeWhile (\<lambda>c. \<not> is_path_sep c) s1
      in if seg = [] then [] else seg # path_dirs (dropWhile (\<lambda>c. \<not> is_path_sep c) s1))"
proof -
  have skip: "path_dirs s = path_dirs (dropWhile is_path_sep s)"
    by (induction s) (auto simp: path_dirs_def split_path_def)
  define s1 where "s1 = dropWhile is_path_sep s"
  define seg where "seg = takeWhile (\<lambda>c. \<not> is_path_sep c) s1"
  define rest where "rest = dropWhile (\<lambda>c. \<not> is_path_sep c) s1"
  have s1: "s1 = seg @ rest" and nosep: "\<forall>c\<in>set seg. \<not> is_path_sep c"
    by (auto simp: seg_def rest_def dest: set_takeWhileD)
  have "path_dirs s1 = (if seg = [] then [] else seg # path_dirs rest)"
  proof (cases "seg = []")
    case True
    have "s1 = []"
    proof (rule ccontr)
      assume "s1 \<noteq> []"
      then have "is_path_sep (hd s1)" using True by (cases s1) (auto simp: seg_def split: if_splits)
      moreover have "\<not> is_path_sep (hd s1)" using \<open>s1 \<noteq> []\<close> hd_dropWhile unfolding s1_def by blast
      ultimately show False by simp
    qed
    then show ?thesis using True by (simp add: path_dirs_def split_path_def)
  next
    case False
    show ?thesis
    proof (cases rest)
      case Nil
      then show ?thesis using False split_path_prefix [OF nosep, of rest]
        by (simp add: path_dirs_def s1) (simp add: split_path_def)
    next
      case (Cons c r)
      then have "is_path_sep c" using hd_dropWhile [of "\<lambda>c. \<not> is_path_sep c" s1] by (simp add: rest_def)
      then have "split_path rest = [] # split_path r" by (simp add: Cons split_path_def)
      then show ?thesis using False split_path_prefix [OF nosep, of rest] by (simp add: path_dirs_def s1)
    qed
  qed
  then show ?thesis using skip by (simp add: Let_def s1_def [symmetric] seg_def [symmetric] rest_def [symmetric])
qed

text \<open>\<open>errno\<close> values after which the search goes on.\<close>

definition missing_file :: "int \<Rightarrow> bool" where
  "missing_file err \<longleftrightarrow> err = ENOENT \<or> err = ENOTDIR \<or> err = EACCES \<or> err = ENAMETOOLONG"

text \<open>
  \<open>path_find\<close> returns, and it is the search it should be: the first candidate, in the order of the path and among those
  that fit the buffer, that is a regular file or fails for another reason than a missing file.
\<close>

theorem path_find_searches:
  assumes "length s < 0x7FFFFFFF"
  shows "path_find dw name s n =
    (case find (\<lambda>b. fst (probe dw b) \<or> \<not> missing_file (snd (probe dw b)))
            (filter (\<lambda>b. length b < n) (map (\<lambda>d. d @ ''/'' @ name) (path_dirs s))) of
       None \<Rightarrow> (- 1, [])
     | Some b \<Rightarrow> (if fst (probe dw b) then 0 else - 2, b))"
  using assms
proof (induction dw name s n rule: path_find.induct)
  case (1 dw name s n)
  define s1 where "s1 = dropWhile is_path_sep s"
  define seg where "seg = takeWhile (\<lambda>c. \<not> is_path_sep c) s1"
  define rest where "rest = dropWhile (\<lambda>c. \<not> is_path_sep c) s1"
  note d = s1_def [symmetric] seg_def [symmetric] rest_def [symmetric]
  have "length seg \<le> length s1" "length rest \<le> length s1" "length s1 \<le> length s"
    by (simp_all add: seg_def rest_def s1_def length_takeWhile_le length_dropWhile_le)
  then have len: "\<not> 0x7FFFFFFF \<le> length seg - 1" "length rest < 0x7FFFFFFF" using 1(3) by linarith+
  have pd: "path_dirs s = (if seg = [] then [] else seg # path_dirs rest)"
    using path_dirs_step [of s] by (simp add: Let_def d)
  have pf: "path_find dw name s n =
     (if seg = [] then (- 1, [])
      else if length (seg @ ''/'' @ name) < n
      then (case probe dw (seg @ ''/'' @ name) of (regular, err) \<Rightarrow>
              if regular then (0, seg @ ''/'' @ name)
              else if missing_file err then path_find dw name rest n else (- 2, seg @ ''/'' @ name))
      else path_find dw name rest n)"
    using len(1) unfolding path_find.simps [of dw name s n] Let_def d missing_file_def by (cases "seg = []") simp_all
  show ?case
  proof (cases "seg = []")
    case True
    then show ?thesis by (simp add: pf pd)
  next
    case False
    show ?thesis
    proof (cases "length (seg @ ''/'' @ name) < n")
      case fits: True
      obtain reg err where p: "probe dw (seg @ ''/'' @ name) = (reg, err)" by (cases "probe dw (seg @ ''/'' @ name)")
      show ?thesis
      proof (cases "\<not> reg \<and> missing_file err")
        case True
        then show ?thesis
          using 1(1) [OF s1_def seg_def refl _ _ p [symmetric]] len False fits p
          by (auto simp: pf pd missing_file_def d)
      next
        case no: False
        then show ?thesis using False fits p by (auto simp: pf pd)
      qed
    next
      case no: False
      then show ?thesis using 1(2) [OF s1_def seg_def refl] len False by (simp add: pf pd d)
    qed
  qed
qed

section \<open>All threads agree\<close>

text \<open>A library is put at an address where no open library is.\<close>

definition fresh_dso :: "u32 \<Rightarrow> dl_state \<Rightarrow> bool" where
  "fresh_dso q s \<longleftrightarrow> q \<noteq> 0 \<and> q \<notin> ev_dso ` set (events s)"

text \<open>
  The threads that run the program's code. A new thread starts at the first event and catches up before
  its entry point is called, whether it can or not (\<open>invokeEntryPoint\<close>).
\<close>

definition runs :: "dl_world \<Rightarrow> dl_state \<Rightarrow> u32 \<Rightarrow> bool" where
  "runs dw s t \<longleftrightarrow> t = main_thread dw \<or> (t \<in> set (pthreads s) \<and> \<not> finished_threads s t \<and> \<not> sleeping s t)"

definition new_dl_thread :: "u32 \<Rightarrow> dl_state \<Rightarrow> dl_state" where
  "new_dl_thread t s = s\<lparr>pthreads := t # pthreads s, finished_threads := (finished_threads s)(t := False),
     sleeping := (sleeping s)(t := False), sync_queued := (sync_queued s)(t := False),
     thread_local_tail := (thread_local_tail s)(t := 0), loaded := (loaded s)(t := [])\<rparr>"

text \<open>
  The steps: opens, the ends of asynchronous opens and look-ups by threads that run, and threads that start,
  sleep on a futex, wake, finish and go. Around a futex wait a thread sets its flag and then does the work queued
  for it (\<open>emscripten_futex_wait\<close>). The write lock is held from the publication of an event until the other
  threads have answered, so that a call that publishes one is a single step.
\<close>

inductive dl_step :: "dl_world \<Rightarrow> dl_state \<Rightarrow> dl_state \<Rightarrow> bool" for dw where
  call_dlopen: "runs dw s self \<Longrightarrow> fresh_dso q s \<Longrightarrow> dlopen dw self q f flags s = Some (h, s') \<Longrightarrow> dl_step dw s s'"
| call_dlopen_async: "runs dw s self \<Longrightarrow> fresh_dso q s \<Longrightarrow> emscripten_dlopen dw self q f flags s = Some (Load_pending d, s1) \<Longrightarrow>
    dlopen_onsuccess dw self d s1 = Some (e, s') \<Longrightarrow> dl_step dw s s'"
| call_dlopen_fails: "runs dw s self \<Longrightarrow> fresh_dso q s \<Longrightarrow> emscripten_dlopen dw self q f flags s = Some (Load_pending d, s1) \<Longrightarrow>
    dlopen_onerror self d s1 = (e, s') \<Longrightarrow> dl_step dw s s'"
| call_dlopen_returns: "runs dw s self \<Longrightarrow> emscripten_dlopen dw self q f flags s = Some (On_success h, s') \<Longrightarrow> dl_step dw s s'"
| call_dlopen_refused: "runs dw s self \<Longrightarrow> fresh_dso q s \<Longrightarrow> emscripten_dlopen dw self q f flags s = Some (On_error, s') \<Longrightarrow>
    dl_step dw s s'"
| call_dlsym: "runs dw s self \<Longrightarrow> dlsym dw self p name s = Some (r, s') \<Longrightarrow> dl_step dw s s'"
| thread_starts: "t \<notin> set (pthreads s) \<Longrightarrow> t \<noteq> main_thread dw \<Longrightarrow>
    emscripten_dlsync_self dw t (new_dl_thread t s) = (ok, s') \<Longrightarrow> dl_step dw s s'"
| thread_sleeps: "t \<in> set (pthreads s) \<Longrightarrow> runs dw s t \<Longrightarrow>
    emscripten_process_dlopen_queue dw t (s\<lparr>sleeping := (sleeping s)(t := True)\<rparr>) = Some s' \<Longrightarrow> dl_step dw s s'"
| thread_wakes: "t \<in> set (pthreads s) \<Longrightarrow> sleeping s t \<Longrightarrow>
    emscripten_process_dlopen_queue dw t (s\<lparr>sleeping := (sleeping s)(t := False)\<rparr>) = Some s' \<Longrightarrow> dl_step dw s s'"
| thread_finishes: "t \<in> set (pthreads s) \<Longrightarrow> dl_step dw s (s\<lparr>finished_threads := (finished_threads s)(t := True)\<rparr>)"
| thread_goes: "t \<in> set (pthreads s) \<Longrightarrow> dl_step dw s (s\<lparr>pthreads := removeAll t (pthreads s)\<rparr>)"

definition init_dl :: "u32 \<Rightarrow> dl_state" where
  "init_dl main_dso = \<lparr>events = [\<lparr>sym_index = - 1, ev_dso = main_dso\<rparr>],
     dso_at = (\<lambda>_. \<lparr>dso_name = ''__main__'', dso_flags = 0, dso_event = 0, file_data = None\<rparr>),
     thread_local_tail = (\<lambda>_. 0), write_lock = None, skip_dlsync = (\<lambda>_. False), loaded = (\<lambda>_. []), dl_error = None,
     pthreads = [], finished_threads = (\<lambda>_. False), sleeping = (\<lambda>_. False), sync_queued = (\<lambda>_. False)\<rparr>"

definition open_libraries :: "dl_state \<Rightarrow> u32 list" where
  "open_libraries s = map ev_dso (filter (\<lambda>e. sym_index e = - 1) (events s))"

text \<open>
  A thread has replayed the events up to its tail, and it is up to date or sleeps with the work of catching up queued.
\<close>

definition replayed :: "dl_state \<Rightarrow> u32 \<Rightarrow> bool" where
  "replayed s t \<longleftrightarrow> thread_local_tail s t < length (events s) \<and>
     loaded s t = map action_of (take (thread_local_tail s t) (tl (events s)))"

definition up_to_date :: "dl_state \<Rightarrow> u32 \<Rightarrow> bool" where
  "up_to_date s t \<longleftrightarrow> replayed s t \<and>
     (thread_local_tail s t = length (events s) - 1 \<or> (sleeping s t \<and> sync_queued s t))"

text \<open>No event of a library lies behind the position that \<open>sync_one_onsuccess\<close> goes on from.\<close>

definition located :: "dl_state \<Rightarrow> bool" where
  "located s \<longleftrightarrow> (\<forall>k < length (events s). sym_index (events s ! k) = - 1 \<longrightarrow> k \<le> dso_event (dso_at s (ev_dso (events s ! k))))"

definition dl_inv :: "dl_world \<Rightarrow> dl_state \<Rightarrow> bool" where
  "dl_inv dw s \<longleftrightarrow> events s \<noteq> [] \<and> 0 \<notin> set (open_libraries s) \<and> located s \<and>
     distinct (map (\<lambda>d. dso_name (dso_at s d)) (open_libraries s)) \<and> main_thread dw \<notin> set (pthreads s) \<and>
     (\<forall>t \<in> set (pthreads s). (\<forall>e. js_accepts dw t e) \<longrightarrow> \<not> finished_threads s t \<longrightarrow> up_to_date s t)"

subsection \<open>What catching up does\<close>

definition sync_frame :: "dl_state \<Rightarrow> dl_state \<Rightarrow> bool" where
  "sync_frame s s' \<longleftrightarrow> events s' = events s \<and> dso_at s' = dso_at s \<and> write_lock s' = write_lock s \<and>
     pthreads s' = pthreads s \<and> finished_threads s' = finished_threads s \<and> sleeping s' = sleeping s"

definition same_thread :: "u32 \<Rightarrow> dl_state \<Rightarrow> dl_state \<Rightarrow> bool" where
  "same_thread u s s' \<longleftrightarrow> thread_local_tail s' u = thread_local_tail s u \<and> loaded s' u = loaded s u \<and>
     sync_queued s' u = sync_queued s u"

lemma sync_frame_refl [simp]: "sync_frame s s"
  by (simp add: sync_frame_def)

lemma sync_frame_trans: "sync_frame s s1 \<Longrightarrow> sync_frame s1 s2 \<Longrightarrow> sync_frame s s2"
  by (simp add: sync_frame_def)

lemma sync_frameD:
  assumes "sync_frame s s'"
  shows "events s' = events s" "dso_at s' = dso_at s" "write_lock s' = write_lock s"
    "pthreads s' = pthreads s" "finished_threads s' = finished_threads s" "sleeping s' = sleeping s"
  using assms by (simp_all add: sync_frame_def)

lemma same_thread_kept:
  assumes "sync_frame s s'" and "same_thread u s s'"
  shows "replayed s' u = replayed s u" "up_to_date s' u = up_to_date s u"
  using assms by (simp_all add: replayed_def up_to_date_def sync_frame_def same_thread_def)

lemma catch_up_frame: "sync_frame s (catch_up t acts s)" "u \<noteq> t \<Longrightarrow> same_thread u s (catch_up t acts s)"
  by (simp_all add: sync_frame_def same_thread_def catch_up_def)

lemma sync_self_catches:
  assumes "emscripten_dlsync_self dw t s = (r, s')"
  shows "\<exists>acts. s' = catch_up t acts s" "sync_frame s s'" "u \<noteq> t \<Longrightarrow> same_thread u s s'"
proof -
  show a: "\<exists>acts. s' = catch_up t acts s"
    using assms by (auto simp: emscripten_dlsync_self_def dlsync_self_loop_eq Let_def
        intro: exI [of _ "[]"] split: if_splits)
  then show "sync_frame s s'" "u \<noteq> t \<Longrightarrow> same_thread u s s'" using catch_up_frame by blast+
qed

lemma sync_self_complete:
  assumes "emscripten_dlsync_self dw t s = (r, s')" and "replayed s t" and "\<forall>e. js_accepts dw t e"
  shows "r" "replayed s' t" "thread_local_tail s' t = length (events s) - 1" "sync_queued s' t = sync_queued s t"
proof -
  let ?n = "thread_local_tail s t"
  let ?missing = "drop (?n + 1) (events s)"
  have n: "?n < length (events s)" using assms(2) by (simp add: replayed_def)
  have all: "takeWhile (js_accepts dw t) ?missing = ?missing" using assms(3) by (simp add: takeWhile_eq_all_conv)
  have "emscripten_dlsync_self dw t s = (True, catch_up t (map action_of ?missing) s)"
    using dlsync_self_eq [OF n, of dw] by (simp only: Let_def all simp_thms)
  then have s': "r" "s' = catch_up t (map action_of ?missing) s" using assms(1) by simp_all
  then show "r" "sync_queued s' t = sync_queued s t" by (simp_all add: catch_up_def)
  show tail: "thread_local_tail s' t = length (events s) - 1" using n by (simp add: s'(2))
  have "take ?n (tl (events s)) @ ?missing = tl (events s)"
    using append_take_drop_id [of ?n "tl (events s)"] by (simp add: drop_Suc drop_tl)
  then have "loaded s' t = map action_of (tl (events s))"
    using assms(2) by (simp add: s'(2) replayed_def flip: map_append)
  then show "replayed s' t" using tail n by (simp add: replayed_def s'(2))
qed

lemma process_queue_effect:
  assumes "emscripten_process_dlopen_queue dw t s = Some s'"
  shows "sync_frame s s'" "u \<noteq> t \<Longrightarrow> same_thread u s s'"
    "replayed s t \<Longrightarrow> \<forall>e. js_accepts dw t e \<Longrightarrow> sync_queued s t \<or> thread_local_tail s t = length (events s) - 1 \<Longrightarrow>
       replayed s' t \<and> thread_local_tail s' t = length (events s) - 1"
proof -
  obtain r s1 where s1: "emscripten_dlsync_self dw t s = (r, s1)" by fastforce
  have s': "if sync_queued s t then r \<and> s' = s1\<lparr>sync_queued := (sync_queued s1)(t := False)\<rparr> else s' = s"
    using assms s1 by (auto simp: emscripten_process_dlopen_queue_def split: if_splits bool.splits)
  note E = sync_self_catches [OF s1]
  show "sync_frame s s'" using s' E(2) by (auto simp: sync_frame_def split: if_splits)
  show "same_thread u s s'" if "u \<noteq> t" using s' E(3) [OF that] that by (auto simp: same_thread_def split: if_splits)
  show "replayed s' t \<and> thread_local_tail s' t = length (events s) - 1"
    if "replayed s t" "\<forall>e. js_accepts dw t e" "sync_queued s t \<or> thread_local_tail s t = length (events s) - 1"
    using s' sync_self_complete [OF s1 that(1,2)] that by (auto simp: replayed_def split: if_splits)
qed

text \<open>A thread that can replay everything does, unless it is not running or will do it when it wakes.\<close>

lemma process_queue_ready:
  assumes "replayed s t" and "\<forall>e. js_accepts dw t e"
  shows "\<exists>s'. emscripten_process_dlopen_queue dw t s = Some s'"
proof -
  obtain r s1 where s1: "emscripten_dlsync_self dw t s = (r, s1)" by fastforce
  then show ?thesis using sync_self_complete(1) [OF s1 assms] by (simp add: emscripten_process_dlopen_queue_def)
qed

lemma proxy_async_effect:
  assumes "emscripten_proxy_dlsync_async dw t s = Some s'"
  shows "sync_frame s s'" "u \<noteq> t \<Longrightarrow> same_thread u s s'"
    "replayed s t \<Longrightarrow> \<forall>e. js_accepts dw t e \<Longrightarrow> up_to_date s' t"
proof -
  let ?s1 = "s\<lparr>sync_queued := (sync_queued s)(t := True)\<rparr>"
  have f: "sync_frame s ?s1" and o: "u \<noteq> t \<Longrightarrow> same_thread u s ?s1" for u
    by (simp_all add: sync_frame_def same_thread_def)
  have s': "if sleeping s t then s' = ?s1 else emscripten_process_dlopen_queue dw t ?s1 = Some s'"
    using assms by (auto simp: emscripten_proxy_dlsync_async_def Let_def)
  show frame: "sync_frame s s'"
    using s' f process_queue_effect(1) [of dw t ?s1 s'] sync_frame_trans [OF f] by (simp split: if_splits)
  show "same_thread u s s'" if "u \<noteq> t"
    using s' o [OF that] process_queue_effect(2) [of dw t ?s1 s' u] that by (auto simp: same_thread_def split: if_splits)
  show "up_to_date s' t" if r: "replayed s t" "\<forall>e. js_accepts dw t e"
  proof (cases "sleeping s t")
    case True
    then show ?thesis using s' r by (simp add: up_to_date_def replayed_def)
  next
    case False
    have r1: "replayed ?s1 t" using r(1) by (simp add: replayed_def)
    have "replayed s' t \<and> thread_local_tail s' t = length (events ?s1) - 1"
      by (rule process_queue_effect(3) [OF _ r1 r(2)]) (use False s' in simp_all)
    then show ?thesis using sync_frameD(1) [OF frame] by (simp add: up_to_date_def)
  qed
qed

lemma up_to_date_replayed: "up_to_date s t \<Longrightarrow> replayed s t"
  by (simp add: up_to_date_def)

text \<open>What a thread that can replay everything gets from the synchronisation.\<close>

definition syncs :: "u32 set \<Rightarrow> dl_state \<Rightarrow> dl_state \<Rightarrow> u32 \<Rightarrow> bool" where
  "syncs T s s' u \<longleftrightarrow> (replayed s u \<longrightarrow> (u \<in> T \<longrightarrow> up_to_date s' u) \<and> replayed s' u) \<and> (up_to_date s u \<longrightarrow> up_to_date s' u)"

lemma syncs_same: "sync_frame s s' \<Longrightarrow> same_thread u s s' \<Longrightarrow> u \<notin> T \<Longrightarrow> syncs T s s' u"
  by (simp add: syncs_def same_thread_kept)

lemma syncs_trans: "syncs T s s1 u \<Longrightarrow> syncs T' s1 s2 u \<Longrightarrow> syncs (T \<union> T') s s2 u"
  by (auto simp: syncs_def)

lemma dlsync_loop_effect:
  assumes "dlsync_loop dw caller ts s = Some s'"
  shows "sync_frame s s'" "\<forall>e. js_accepts dw u e \<Longrightarrow> syncs {t \<in> set ts. t \<noteq> caller \<and> \<not> finished_threads s t} s s' u"
proof -
  have "sync_frame s s' \<and> ((\<forall>e. js_accepts dw u e) \<longrightarrow> syncs {t \<in> set ts. t \<noteq> caller \<and> \<not> finished_threads s t} s s' u)"
    using assms
  proof (induction ts arbitrary: s)
    case Nil
    then show ?case by (simp add: syncs_def)
  next
    case (Cons t ts)
    show ?case
    proof (cases "t \<noteq> caller \<and> \<not> finished_threads s t")
      case True
      then obtain s1 where s1: "emscripten_proxy_dlsync_async dw t s = Some s1" "dlsync_loop dw caller ts s1 = Some s'"
        using Cons.prems by (auto split: Option.bind_splits)
      note E = proxy_async_effect [OF s1(1)] and IH = Cons.IH [OF s1(2)]
      let ?T = "{t \<in> set ts. t \<noteq> caller \<and> \<not> finished_threads s1 t}"
      have one: "syncs {t} s s1 u" if acc: "\<forall>e. js_accepts dw u e"
      proof (cases "u = t")
        case True
        then have "replayed s u \<Longrightarrow> up_to_date s1 u" using acc E(3) by blast
        then show ?thesis unfolding syncs_def using up_to_date_replayed by blast
      next
        case False
        then show ?thesis using syncs_same [OF E(1) E(2)] by simp
      qed
      have T: "{t} \<union> ?T = {a \<in> set (t # ts). a \<noteq> caller \<and> \<not> finished_threads s a}"
        using True sync_frameD(5) [OF E(1)] by auto
      have "syncs ({t} \<union> ?T) s s' u" if acc: "\<forall>e. js_accepts dw u e"
        using syncs_trans [OF one [OF acc]] IH acc by blast
      then show ?thesis unfolding T using IH sync_frame_trans [OF E(1)] by blast
    next
      case False
      then have "{a \<in> set (t # ts). a \<noteq> caller \<and> \<not> finished_threads s a} =
          {a \<in> set ts. a \<noteq> caller \<and> \<not> finished_threads s a}" by auto
      moreover have "dlsync_loop dw caller ts s = Some s'"
        using Cons.prems False by (simp only: dlsync_loop.simps if_False)
      ultimately show ?thesis using Cons.IH by presburger
    qed
  qed
  then show "sync_frame s s'" "\<forall>e. js_accepts dw u e \<Longrightarrow> syncs {t \<in> set ts. t \<noteq> caller \<and> \<not> finished_threads s t} s s' u"
    by blast+
qed

text \<open>The main thread catches up without touching the others, and comes to an end if it can load everything.\<close>

definition main_only :: "u32 \<Rightarrow> dl_state \<Rightarrow> dl_state \<Rightarrow> bool" where
  "main_only m s s' \<longleftrightarrow> sync_frame s s' \<and> (\<forall>u. u \<noteq> m \<longrightarrow> same_thread u s s')"

lemma main_only_trans: "main_only m s s1 \<Longrightarrow> main_only m s1 s2 \<Longrightarrow> main_only m s s2"
  by (simp add: main_only_def sync_frame_def same_thread_def)

lemma main_only_log: "main_only m s (dl_log m a s)" "main_only m s ((dl_log m a s)\<lparr>thread_local_tail := (thread_local_tail s)(m := n)\<rparr>)"
  by (simp_all add: main_only_def sync_frame_def same_thread_def dl_log_def)

lemma dlsync_next_effect:
  assumes "dlsync_next dw m es s = (r, s')"
  shows "main_only m s s'" "r = Loading d \<Longrightarrow> \<exists>e \<in> set es. sym_index e = - 1 \<and> ev_dso e = d"
    "\<forall>e. js_accepts dw m e \<Longrightarrow> r \<noteq> Aborted"
proof -
  have "main_only m s s' \<and> (\<forall>d. r = Loading d \<longrightarrow> (\<exists>e \<in> set es. sym_index e = - 1 \<and> ev_dso e = d)) \<and>
      ((\<forall>e. js_accepts dw m e) \<longrightarrow> r \<noteq> Aborted)"
    using assms
  proof (induction dw m es s rule: dlsync_next.induct)
    case (1 dw self s)
    then show ?case by (auto simp: main_only_def same_thread_def)
  next
    case (2 dw self p ps s)
    have same: "main_only self s s" by (simp add: main_only_def same_thread_def)
    show ?case
    proof (cases "sym_index p \<noteq> - 1 \<and> js_symbol dw self (ev_dso p) (sym_index p)")
      case True
      then show ?thesis using 2 main_only_trans [OF main_only_log(1)] by auto
    next
      case False
      then show ?thesis using 2(2) same by (auto simp: js_accepts_def split: if_splits)
    qed
  qed
  then show "main_only m s s'" "r = Loading d \<Longrightarrow> \<exists>e \<in> set es. sym_index e = - 1 \<and> ev_dso e = d"
    "\<forall>e. js_accepts dw m e \<Longrightarrow> r \<noteq> Aborted" by blast+
qed

lemma sync_one_effect:
  assumes "sync_one_onsuccess dw m d s = (r, s')"
  shows "main_only m s s'"
  using assms dlsync_next_effect(1) main_only_trans [OF main_only_log(2)]
  unfolding sync_one_onsuccess_def Let_def by blast

lemma dlsync_main_effect:
  assumes "dlsync_main n dw m (r, s) = Some s'"
  shows "main_only m s s'"
  using assms
proof (induction n dw m "(r, s)" arbitrary: r s rule: dlsync_main.induct)
  case (1 n dw self s)
  then show ?case by (simp add: main_only_def same_thread_def)
next
  case (4 n dw self d s)
  obtain r1 s1 where s1: "sync_one_onsuccess dw self d s = (r1, s1)" by fastforce
  with 4 have "main_only self s1 s'" by (simp split: if_splits)
  then show ?case using main_only_trans [OF sync_one_effect [OF s1]] by blast
qed simp_all

lemma main_sync_frame:
  assumes "dlsync_main n dw m (emscripten_dlsync_self_async dw m s) = Some s'"
  shows "main_only m s s'"
proof -
  obtain r s1 where s1: "emscripten_dlsync_self_async dw m s = (r, s1)" by fastforce
  then have "main_only m s s1" unfolding emscripten_dlsync_self_async_def by (rule dlsync_next_effect(1))
  then show ?thesis using main_only_trans dlsync_main_effect assms s1 by metis
qed

lemma main_sync_ends_from:
  assumes "located s" and "\<forall>e. js_accepts dw m e" and "length (events s) - k \<le> n"
  shows "\<exists>s'. dlsync_main n dw m (dlsync_next dw m (drop k (events s)) s) = Some s'"
  using assms
proof (induction n arbitrary: k s)
  case 0
  then show ?case by simp
next
  case (Suc n)
  obtain r s1 where s1: "dlsync_next dw m (drop k (events s)) s = (r, s1)" by fastforce
  note E = dlsync_next_effect [OF s1]
  have ev: "events s1 = events s" "dso_at s1 = dso_at s"
    using E(1) by (simp_all add: main_only_def sync_frame_def)
  show ?case
  proof (cases r)
    case Fulfilled
    then show ?thesis by (simp add: s1)
  next
    case Aborted
    then show ?thesis using E(3) Suc.prems(2) by blast
  next
    case (Loading d)
    then obtain e where e: "e \<in> set (drop k (events s))" "sym_index e = - 1" "ev_dso e = d" using E(2) by blast
    then obtain j where j: "j < length (drop k (events s))" "drop k (events s) ! j = e" by (auto simp: in_set_conv_nth)
    then have "k + j < length (events s)" "events s ! (k + j) = e" by simp_all
    then have "k + j \<le> dso_event (dso_at s d)" using Suc.prems(1) e(2,3) by (auto simp: located_def)
    define s2 where "s2 = (dl_log m (Load d) s1)\<lparr>thread_local_tail := (thread_local_tail s1)(m := dso_event (dso_at s1 d))\<rparr>"
    have s2: "events s2 = events s" "dso_at s2 = dso_at s" "thread_local_tail s2 m = dso_event (dso_at s d)"
      by (simp_all add: s2_def dl_log_def ev)
    have "located s2" using Suc.prems(1) by (simp add: located_def s2)
    moreover have "length (events s2) - (thread_local_tail s2 m + 1) \<le> n"
      using \<open>k + j \<le> dso_event (dso_at s d)\<close> Suc.prems(3) s2 by simp
    ultimately have "\<exists>s'. dlsync_main n dw m (dlsync_next dw m (drop (thread_local_tail s2 m + 1) (events s2)) s2) = Some s'"
      using Suc.IH Suc.prems(2) by blast
    moreover have "js_load dw m d" using Suc.prems(2) e(2,3) by (auto simp: js_accepts_def dest: spec [of _ e])
    ultimately show ?thesis by (simp add: s1 Loading sync_one_onsuccess_def Let_def flip: s2_def)
  qed
qed

lemma main_sync_ends:
  assumes "located s" and "\<forall>e. js_accepts dw m e"
  shows "\<exists>s'. dlsync_main (length (events s)) dw m (emscripten_dlsync_self_async dw m s) = Some s'"
  unfolding emscripten_dlsync_self_async_def by (rule main_sync_ends_from [OF assms]) simp

lemma fold_proxy_effect:
  assumes "s' = fold (\<lambda>t s. if finished_threads s t then s else emscripten_proxy_dlsync dw t s) ts s"
  shows "sync_frame s s'" "\<forall>e. js_accepts dw u e \<Longrightarrow> syncs {t \<in> set ts. \<not> finished_threads s t} s s' u"
proof -
  have "sync_frame s s' \<and> ((\<forall>e. js_accepts dw u e) \<longrightarrow> syncs {t \<in> set ts. \<not> finished_threads s t} s s' u)"
    using assms
  proof (induction ts arbitrary: s)
    case Nil
    then show ?case by (simp add: syncs_def)
  next
    case (Cons t ts)
    show ?case
    proof (cases "finished_threads s t")
      case True
      then have "{a \<in> set (t # ts). \<not> finished_threads s a} = {a \<in> set ts. \<not> finished_threads s a}" by auto
      moreover have "s' = fold (\<lambda>t s. if finished_threads s t then s else emscripten_proxy_dlsync dw t s) ts s"
        using Cons.prems True by simp
      ultimately show ?thesis using Cons.IH by presburger
    next
      case False
      obtain r s1 where s1: "emscripten_dlsync_self dw t s = (r, s1)" by fastforce
      note E = sync_self_catches [OF s1]
      let ?T = "{a \<in> set ts. \<not> finished_threads s1 a}"
      have "s' = fold (\<lambda>t s. if finished_threads s t then s else emscripten_proxy_dlsync dw t s) ts s1"
        using Cons.prems False s1 by (simp add: emscripten_proxy_dlsync_def)
      note IH = Cons.IH [OF this]
      have one: "syncs {t} s s1 u" if acc: "\<forall>e. js_accepts dw u e"
      proof (cases "u = t")
        case True
        have "up_to_date s1 u" if "replayed s u"
          using sync_self_complete [OF s1] acc that sync_frameD(1) [OF E(2)] by (simp add: True up_to_date_def)
        then show ?thesis unfolding syncs_def using up_to_date_replayed by blast
      next
        case False
        then show ?thesis using syncs_same [OF E(2) E(3)] by simp
      qed
      have T: "{t} \<union> ?T = {a \<in> set (t # ts). \<not> finished_threads s a}"
        using False sync_frameD(5) [OF E(2)] by auto
      have "syncs ({t} \<union> ?T) s s' u" if acc: "\<forall>e. js_accepts dw u e"
        using syncs_trans [OF one [OF acc]] IH acc by blast
      then show ?thesis unfolding T using IH sync_frame_trans [OF E(2)] by blast
    qed
  qed
  then show "sync_frame s s'" "\<forall>e. js_accepts dw u e \<Longrightarrow> syncs {t \<in> set ts. \<not> finished_threads s t} s s' u"
    by blast+
qed

text \<open>The synchronisation: whoever is not up to date afterwards sleeps, has the work queued, or could not do it.\<close>

lemma dlsync_threads_effect:
  assumes "emscripten_dlsync_threads dw self s = Some s'"
  shows "sync_frame s s'"
    "u \<in> set (pthreads s) \<Longrightarrow> u \<noteq> main_thread dw \<Longrightarrow> \<not> finished_threads s u \<Longrightarrow> \<forall>e. js_accepts dw u e \<Longrightarrow>
       replayed s u \<Longrightarrow> u = self \<longrightarrow> up_to_date s u \<Longrightarrow> up_to_date s' u"
proof -
  let ?T = "{t \<in> set (pthreads s). t \<noteq> self \<and> \<not> finished_threads s t}"
  have "sync_frame s s' \<and> (u \<noteq> main_thread dw \<longrightarrow> (\<forall>e. js_accepts dw u e) \<longrightarrow> syncs ?T s s' u)"
  proof (cases "self = main_thread dw")
    case True
    then have "s' = fold (\<lambda>t s. if finished_threads s t then s else emscripten_proxy_dlsync dw t s) (pthreads s) s"
      using assms by (simp add: emscripten_dlsync_threads_def)
    note E = fold_proxy_effect [OF this]
    have "syncs {t \<in> set (pthreads s). \<not> finished_threads s t} s s' u \<Longrightarrow> syncs ?T s s' u" by (simp add: syncs_def)
    then show ?thesis using E by blast
  next
    case False
    then obtain s1 where s1: "dlsync_main (length (events s)) dw (main_thread dw)
          (emscripten_dlsync_self_async dw (main_thread dw) s) = Some s1" "dlsync_loop dw self (pthreads s1) s1 = Some s'"
      using assms by (auto simp: emscripten_dlsync_threads_def dlsyncThreadsAsync_def split: Option.bind_splits)
    have m: "sync_frame s s1" "u \<noteq> main_thread dw \<Longrightarrow> same_thread u s s1"
      using main_sync_frame [OF s1(1)] by (simp_all add: main_only_def)
    note E = dlsync_loop_effect [OF s1(2)]
    have "syncs ?T s s' u" if "u \<noteq> main_thread dw" "\<forall>e. js_accepts dw u e"
      using syncs_trans [OF syncs_same [OF m(1) m(2) [OF that(1)], of "{}"] E(2) [OF that(2)]]
        sync_frameD(4,5) [OF m(1)] by simp
    then show ?thesis using sync_frame_trans [OF m(1) E(1)] by blast
  qed
  then show "sync_frame s s'"
    "u \<in> set (pthreads s) \<Longrightarrow> u \<noteq> main_thread dw \<Longrightarrow> \<not> finished_threads s u \<Longrightarrow> \<forall>e. js_accepts dw u e \<Longrightarrow>
       replayed s u \<Longrightarrow> u = self \<longrightarrow> up_to_date s u \<Longrightarrow> up_to_date s' u"
    by (auto simp: syncs_def)
qed

subsection \<open>Every step keeps the invariant\<close>

lemma find_existing_0:
  "0 \<notin> set (open_libraries s) \<Longrightarrow> find_existing name s = 0 \<longleftrightarrow> name \<notin> (\<lambda>d. dso_name (dso_at s d)) ` set (open_libraries s)"
  by (auto simp: find_existing_def open_libraries_def find_None_iff find_Some_iff split: option.splits)

definition threads_kept :: "dl_world \<Rightarrow> dl_state \<Rightarrow> bool" where
  "threads_kept dw s \<longleftrightarrow> main_thread dw \<notin> set (pthreads s) \<and>
     (\<forall>t \<in> set (pthreads s). (\<forall>e. js_accepts dw t e) \<longrightarrow> \<not> finished_threads s t \<longrightarrow> up_to_date s t)"

lemma dl_inv_threads:
  assumes "dl_inv dw s" and "events s' = events s" and "threads_kept dw s'"
    and "\<And>d. d \<in> ev_dso ` set (events s) \<Longrightarrow> dso_name (dso_at s' d) = dso_name (dso_at s d)"
    and "\<And>d. d \<in> ev_dso ` set (events s) \<Longrightarrow> dso_event (dso_at s' d) = dso_event (dso_at s d)"
  shows "dl_inv dw s'"
proof -
  have libs: "open_libraries s' = open_libraries s" by (simp add: open_libraries_def assms(2))
  have "set (open_libraries s) \<subseteq> ev_dso ` set (events s)" by (auto simp: open_libraries_def)
  then have "map (\<lambda>d. dso_name (dso_at s' d)) (open_libraries s) = map (\<lambda>d. dso_name (dso_at s d)) (open_libraries s)"
    using assms(4) by auto
  moreover have "located s'" using assms(1,2,5) by (simp add: dl_inv_def located_def)
  ultimately show ?thesis using assms(1-3) unfolding dl_inv_def threads_kept_def libs by (simp del: map_eq_conv)
qed

lemma dl_inv_kept: "dl_inv dw s \<Longrightarrow> threads_kept dw s"
  by (simp add: dl_inv_def threads_kept_def)

lemma dl_inv_cong:
  assumes "dl_inv dw s" and "events s' = events s" and "thread_local_tail s' = thread_local_tail s" and "loaded s' = loaded s"
    and "pthreads s' = pthreads s" "finished_threads s' = finished_threads s" "sleeping s' = sleeping s"
      "sync_queued s' = sync_queued s"
    and "\<And>d. d \<in> ev_dso ` set (events s) \<Longrightarrow> dso_name (dso_at s' d) = dso_name (dso_at s d)"
    and "\<And>d. d \<in> ev_dso ` set (events s) \<Longrightarrow> dso_event (dso_at s' d) = dso_event (dso_at s d)"
  shows "dl_inv dw s'"
proof (rule dl_inv_threads [OF assms(1,2) _ assms(9,10)])
  show "threads_kept dw s'"
    using dl_inv_kept [OF assms(1)] by (simp add: threads_kept_def up_to_date_def replayed_def assms(2-8))
qed

text \<open>An event is appended by a thread that runs, and the others replay it.\<close>

lemma new_dlevent_fields:
  "events (new_dlevent self p i s) = events s @ [\<lparr>sym_index = i, ev_dso = p\<rparr>]"
  "dso_name (dso_at (new_dlevent self p i s) d) = dso_name (dso_at s d)"
  "dso_event (dso_at (new_dlevent self p i s) d) = (if p \<noteq> 0 \<and> d = p then length (events s) else dso_event (dso_at s d))"
  "thread_local_tail (new_dlevent self p i s) = (thread_local_tail s)(self := length (events s))"
  "loaded (new_dlevent self p i s) = loaded s" "pthreads (new_dlevent self p i s) = pthreads s"
  "finished_threads (new_dlevent self p i s) = finished_threads s" "sleeping (new_dlevent self p i s) = sleeping s"
  "sync_queued (new_dlevent self p i s) = sync_queued s" "write_lock (new_dlevent self p i s) = write_lock s"
  by (simp_all add: new_dlevent_def Let_def)

lemma publish_located:
  assumes "located s" and "events s' = events s @ [\<lparr>sym_index = i, ev_dso = p\<rparr>]" and "i = - 1 \<Longrightarrow> p \<noteq> 0"
    and "\<And>d. dso_event (dso_at s' d) = (if p \<noteq> 0 \<and> d = p then length (events s) else dso_event (dso_at s0 d))"
    and "\<And>d. d \<in> ev_dso ` set (events s) \<Longrightarrow> dso_event (dso_at s0 d) = dso_event (dso_at s d)"
  shows "located s'"
  unfolding located_def
proof (intro allI impI)
  fix k assume k: "k < length (events s')" "sym_index (events s' ! k) = - 1"
  show "k \<le> dso_event (dso_at s' (ev_dso (events s' ! k)))"
  proof (cases "k < length (events s)")
    case True
    then have e: "events s' ! k = events s ! k" by (simp add: assms(2) nth_append)
    then have "k \<le> dso_event (dso_at s (ev_dso (events s ! k)))" using assms(1) True k(2) by (simp add: located_def)
    moreover have "ev_dso (events s ! k) \<in> ev_dso ` set (events s)" using True by simp
    ultimately show ?thesis using assms(4,5) True by (simp add: e)
  next
    case False
    then have "k = length (events s)" using k(1) by (simp add: assms(2))
    then show ?thesis using k(2) assms(3,4) by (simp add: assms(2))
  qed
qed

lemma publish_inv:
  assumes inv: "dl_inv dw s" and run: "runs dw s self"
    and s1: "events s1 = events s" "\<And>d. d \<in> ev_dso ` set (events s) \<Longrightarrow> dso_name (dso_at s1 d) = dso_name (dso_at s d)"
      "\<And>d. d \<in> ev_dso ` set (events s) \<Longrightarrow> dso_event (dso_at s1 d) = dso_event (dso_at s d)"
      "thread_local_tail s1 = thread_local_tail s"
      "loaded s1 = (loaded s)(self := loaded s self @ [action_of \<lparr>sym_index = i, ev_dso = p\<rparr>])"
      "pthreads s1 = pthreads s" "finished_threads s1 = finished_threads s" "sleeping s1 = sleeping s"
      "sync_queued s1 = sync_queued s"
    and new: "i = - 1 \<Longrightarrow> p \<noteq> 0 \<and> dso_name (dso_at s1 p) \<notin> (\<lambda>d. dso_name (dso_at s d)) ` set (open_libraries s)"
    and sync: "emscripten_dlsync_threads dw self (new_dlevent self p i s1) = Some s2"
  shows "dl_inv dw (do_write_unlock self s2)"
proof -
  let ?e = "\<lparr>sym_index = i, ev_dso = p\<rparr>" and ?n = "new_dlevent self p i s1"
  note N = new_dlevent_fields [of self p i s1, unfolded s1] and E = dlsync_threads_effect [OF sync]
  note F = sync_frameD [OF E(1)]
  have ne: "events s \<noteq> []" using inv by (simp add: dl_inv_def)
  have main: "main_thread dw \<notin> set (pthreads s)" using inv by (simp add: dl_inv_def)
  have old: "take n (tl (events s @ [?e])) = take n (tl (events s))" if "n < length (events s)" for n
    using that ne by (cases "events s") simp_all
  have start: "replayed ?n u \<and> (u = self \<longrightarrow> up_to_date ?n u)"
    if u: "u \<in> set (pthreads s)" "\<not> finished_threads s u" "\<forall>e. js_accepts dw u e" for u
  proof -
    have utd: "up_to_date s u" using inv u by (simp add: dl_inv_def)
    show ?thesis
    proof (cases "u = self")
      case True
      then have "\<not> sleeping s u" using run main u(1) by (auto simp: runs_def)
      then have "thread_local_tail s u = length (events s) - 1" "loaded s u = map action_of (tl (events s))"
        using utd by (auto simp: up_to_date_def replayed_def)
      then show ?thesis using True ne by (cases "events s") (simp_all add: up_to_date_def replayed_def N s1)
    next
      case False
      then show ?thesis using utd old by (auto simp: up_to_date_def replayed_def N s1)
    qed
  qed
  have "up_to_date s2 u" if "u \<in> set (pthreads s)" "\<not> finished_threads s u" "\<forall>e. js_accepts dw u e" for u
  proof (rule E(2))
    show "u \<in> set (pthreads ?n)" "\<not> finished_threads ?n u" "\<forall>e. js_accepts dw u e"
      using that by (simp_all add: N)
    show "u \<noteq> main_thread dw" using that(1) main by blast
    show "replayed ?n u" "u = self \<longrightarrow> up_to_date ?n u" using start [OF that] by blast+
  qed
  then have threads: "threads_kept dw s2" using main F(4,5) by (simp add: threads_kept_def N)
  have libs: "open_libraries s2 = open_libraries s @ (if i = - 1 then [p] else [])"
    by (simp add: open_libraries_def F(1) N)
  have sub: "set (open_libraries s) \<subseteq> ev_dso ` set (events s)" by (auto simp: open_libraries_def)
  have nm: "dso_name (dso_at s2 d) = dso_name (dso_at s1 d)" for d by (simp add: F(2) new_dlevent_fields)
  have "map (\<lambda>d. dso_name (dso_at s2 d)) (open_libraries s) = map (\<lambda>d. dso_name (dso_at s d)) (open_libraries s)"
    using s1(2) nm sub by auto
  then have dist: "distinct (map (\<lambda>d. dso_name (dso_at s2 d)) (open_libraries s2))"
    using inv new nm unfolding libs by (auto simp: dl_inv_def simp del: map_eq_conv)
  have zero: "0 \<notin> set (open_libraries s2)" using inv new by (auto simp: libs dl_inv_def)
  have loc: "located s2"
    by (rule publish_located [of s s2 i p s1])
       (use inv new s1(3) in \<open>auto simp: dl_inv_def F(1,2) N new_dlevent_fields s1(1)\<close>)
  have "dl_inv dw s2"
    using dist zero loc threads by (simp add: dl_inv_def threads_kept_def F(1) N)
  then show ?thesis by (rule dl_inv_cong) (simp_all add: do_write_unlock_def)
qed

text \<open>The new library, from its allocation to the event.\<close>

lemma open_new_inv:
  assumes inv: "dl_inv dw s" and run: "runs dw s self" and q: "fresh_dso q s"
    and none: "find_existing name s = 0" and s2: "load_library_start dw name flags q (s\<lparr>skip_dlsync := sk, write_lock := l\<rparr>) = (q, s2)"
  shows "load_library_done dw self q (dl_log self (Load q) s2) = Some s3 \<Longrightarrow> dl_inv dw (do_write_unlock self s3)"
    "dl_inv dw s2" "dl_inv dw (do_write_unlock self s2)"
proof -
  have q0: "q \<noteq> 0" and nq: "q \<notin> ev_dso ` set (events s)" using q by (auto simp: fresh_dso_def)
  have s2': "s2 = s\<lparr>skip_dlsync := sk, write_lock := l, dso_at := (dso_at s)(q :=
      \<lparr>dso_name = name, dso_flags = flags, dso_event = 0, file_data = contents dw name\<rparr>)\<rparr>"
    using s2 q0 by (auto simp: load_library_start_def split: if_splits)
  have fresh: "name \<notin> (\<lambda>d. dso_name (dso_at s d)) ` set (open_libraries s)"
    using find_existing_0 none inv by (simp add: dl_inv_def)
  show "dl_inv dw (do_write_unlock self s3)" if "load_library_done dw self q (dl_log self (Load q) s2) = Some s3"
    by (rule publish_inv [OF inv run _ _ _ _ _ _ _ _ _ _ that [unfolded load_library_done_def]])
       (use nq q0 fresh in \<open>auto simp: s2' dl_log_def action_of_def\<close>)
  show "dl_inv dw s2" "dl_inv dw (do_write_unlock self s2)"
    by (rule dl_inv_cong [OF inv]; use nq in \<open>auto simp: s2' do_write_unlock_def\<close>)+
qed

lemma load_library_start_result:
  "load_library_start dw name flags q s = (p, s') \<Longrightarrow> p = 0 \<and> (\<exists>e. s' = s\<lparr>dl_error := e\<rparr>) \<or> p = q"
  by (auto simp: load_library_start_def split: if_splits)

lemma dlsym_inv:
  assumes inv: "dl_inv dw s" and run: "runs dw s self" and step: "dlsym dw self p name s = Some (r, s')"
  shows "dl_inv dw s'"
proof -
  obtain invalid s1 where s1: "(if p \<noteq> RTLD_DEFAULT \<and> p \<noteq> RTLD_NEXT then dl_invalid_handle p s else (False, s)) = (invalid, s1)"
    by fastforce
  have same: "\<exists>e. s1 = s\<lparr>dl_error := e\<rparr>" and valid: "\<not> invalid \<Longrightarrow> s1 = s"
    using s1 by (auto simp: dl_invalid_handle_def split: if_splits intro: exI [of _ "dl_error s"])
  show ?thesis
  proof (cases invalid)
    case True
    then show ?thesis using step s1 same by (auto simp: dlsym_def intro!: dl_inv_cong [OF inv])
  next
    case False
    define q where "q = (if p = ev_dso (hd (events s)) then RTLD_DEFAULT else p)"
    let ?l = "s\<lparr>skip_dlsync := (skip_dlsync s)(self := True), write_lock := Some self\<rparr>"
    obtain res i where js: "js_dlsym dw q name = (res, i)" by fastforce
    have "\<exists>s3. s' = do_write_unlock self s3 \<and>
        (if i \<noteq> - 1 then emscripten_dlsync_threads dw self (new_dlevent self q i (dl_log self (Symbol q i) ?l)) = Some s3
         else s3 = ?l)"
      using step s1 valid [OF False] False js unfolding dlsym_def q_def [symmetric]
      by (auto simp: do_write_lock_def Let_def q_def [symmetric] split: if_splits option.splits)
    then obtain s3 where s': "s' = do_write_unlock self s3"
      and s3: "if i \<noteq> - 1 then emscripten_dlsync_threads dw self (new_dlevent self q i (dl_log self (Symbol q i) ?l)) = Some s3
         else s3 = ?l" by blast
    show ?thesis
    proof (cases "i = - 1")
      case True
      then show ?thesis unfolding s' using s3 by (intro dl_inv_cong [OF inv]) (simp_all add: do_write_unlock_def)
    next
      case no: False
      then have s3: "emscripten_dlsync_threads dw self (new_dlevent self q i (dl_log self (Symbol q i) ?l)) = Some s3"
        using s3 by simp
      show ?thesis unfolding s'
        by (rule publish_inv [OF inv run _ _ _ _ _ _ _ _ _ _ s3])
           (use no in \<open>auto simp: dl_log_def action_of_def\<close>)
    qed
  qed
qed

lemma sleeping_kept:
  assumes "threads_kept dw s" and "t \<in> set (pthreads s)"
    and "\<not> finished_threads s t \<longrightarrow> (\<forall>e. js_accepts dw t e) \<longrightarrow>
      sync_queued s t \<or> thread_local_tail s t = length (events s) - 1"
    and "emscripten_process_dlopen_queue dw t (s\<lparr>sleeping := (sleeping s)(t := b)\<rparr>) = Some s'"
  shows "threads_kept dw s'" "events s' = events s" "dso_at s' = dso_at s"
proof -
  let ?s = "s\<lparr>sleeping := (sleeping s)(t := b)\<rparr>"
  note E = process_queue_effect [OF assms(4)]
  note F = sync_frameD [OF E(1)]
  show "events s' = events s" "dso_at s' = dso_at s" using F(1,2) by simp_all
  have "up_to_date s' u" if u: "u \<in> set (pthreads s)" "\<not> finished_threads s u" "\<forall>e. js_accepts dw u e" for u
  proof -
    have utd: "up_to_date s u" using assms(1) u by (simp add: threads_kept_def)
    show ?thesis
    proof (cases "u = t")
      case True
      have "replayed s' t \<and> thread_local_tail s' t = length (events ?s) - 1"
        by (rule E(3)) (use utd u True assms(3) in \<open>simp_all add: up_to_date_def replayed_def\<close>)
      then show ?thesis using F(1) True by (simp add: up_to_date_def)
    next
      case False
      have "up_to_date ?s u" using utd False by (simp add: up_to_date_def replayed_def)
      then show ?thesis using same_thread_kept(2) [OF E(1) E(2) [OF False]] by simp
    qed
  qed
  then show "threads_kept dw s'" using assms(1) F(4,5) by (simp add: threads_kept_def)
qed

lemma dl_step_inv:
  assumes inv: "dl_inv dw s" and step: "dl_step dw s s'"
  shows "dl_inv dw s'"
proof -
  have easy: "dl_inv dw (do_write_unlock self (s\<lparr>skip_dlsync := sk, write_lock := l\<rparr>))"
    "dl_inv dw (s\<lparr>skip_dlsync := sk, write_lock := l\<rparr>)"
    "dl_inv dw (do_write_unlock self (s\<lparr>skip_dlsync := sk, write_lock := l, dl_error := e\<rparr>))" for self sk l e
    by (rule dl_inv_cong [OF inv]; simp add: do_write_unlock_def)+
  have existing: "find_existing name (s\<lparr>skip_dlsync := sk, write_lock := l\<rparr>) = find_existing name s" for name sk l
    by (simp add: find_existing_def)
  have kept: "threads_kept dw s" by (rule dl_inv_kept [OF inv])
  from step show ?thesis
  proof cases
    case (call_dlopen self q f flags h)
    have q0: "q \<noteq> 0" using call_dlopen(2) by (simp add: fresh_dso_def)
    show ?thesis
    proof (cases f)
      case None
      then show ?thesis using call_dlopen(3) inv by (simp add: dlopen_def)
    next
      case (Some lib)
      let ?s1 = "s\<lparr>skip_dlsync := (skip_dlsync s)(self := True), write_lock := Some self\<rparr>"
      let ?name = "find_dylib dw lib buf_len"
      obtain p s2 where s2: "load_library_start dw ?name flags q ?s1 = (p, s2)" by fastforce
      have "dl_inv dw s' \<or> (find_existing ?name s = 0 \<and> p \<noteq> 0)"
        using call_dlopen(3) q0 load_library_start_result [OF s2] easy
        by (auto simp: Some dlopen_def do_write_lock_def existing s2 Let_def split: if_splits)
      then show ?thesis
      proof
        assume new: "find_existing ?name s = 0 \<and> p \<noteq> 0"
        then have p: "p = q" using load_library_start_result [OF s2] by blast
        note N = open_new_inv [OF inv call_dlopen(1,2) _ s2 [unfolded p]]
        show ?thesis
          using call_dlopen(3) new N by (auto simp: Some dlopen_def do_write_lock_def existing s2 p Let_def split: if_splits)
      qed
    qed
  next
    case (call_dlopen_async self q f flags d s1 e)
    then obtain lib where f: "f = Some lib" by (cases f) (auto simp: emscripten_dlopen_def)
    let ?s1 = "s\<lparr>skip_dlsync := (skip_dlsync s)(self := True), write_lock := Some self\<rparr>"
    let ?name = "find_dylib dw lib buf_len"
    obtain p s2 where s2: "load_library_start dw ?name flags q ?s1 = (p, s2)" by fastforce
    have r: "find_existing ?name s = 0" "p \<noteq> 0" "d = p" "s1 = s2"
      using call_dlopen_async(3) by (auto simp: f emscripten_dlopen_def do_write_lock_def existing s2 Let_def split: if_splits)
    then have "p = q" using load_library_start_result [OF s2] by blast
    with open_new_inv(1) [OF inv call_dlopen_async(1,2) r(1)] s2 r call_dlopen_async(4) show ?thesis
      by (auto simp: dlopen_onsuccess_def)
  next
    case (call_dlopen_fails self q f flags d s1 e)
    then obtain lib where f: "f = Some lib" by (cases f) (auto simp: emscripten_dlopen_def)
    let ?s1 = "s\<lparr>skip_dlsync := (skip_dlsync s)(self := True), write_lock := Some self\<rparr>"
    let ?name = "find_dylib dw lib buf_len"
    obtain p s2 where s2: "load_library_start dw ?name flags q ?s1 = (p, s2)" by fastforce
    have r: "find_existing ?name s = 0" "p \<noteq> 0" "d = p" "s1 = s2"
      using call_dlopen_fails(3) by (auto simp: f emscripten_dlopen_def do_write_lock_def existing s2 Let_def split: if_splits)
    then have "p = q" using load_library_start_result [OF s2] by blast
    with open_new_inv(3) [OF inv call_dlopen_fails(1,2) r(1)] s2 r call_dlopen_fails(4) show ?thesis
      by (auto simp: dlopen_onerror_def)
  next
    case (call_dlopen_returns self q f flags h)
    then show ?thesis using inv easy
      by (cases f) (auto simp: emscripten_dlopen_def do_write_lock_def Let_def split: if_splits prod.splits)
  next
    case (call_dlopen_refused self q f flags)
    then show ?thesis using easy(3)
      by (cases f) (auto simp: fresh_dso_def emscripten_dlopen_def do_write_lock_def Let_def load_library_start_def split: if_splits prod.splits)
  next
    case (call_dlsym self p name r)
    then show ?thesis by (intro dlsym_inv [OF inv])
  next
    case (thread_starts t ok)
    let ?s = "new_dl_thread t s"
    note E = sync_self_catches [OF thread_starts(3)]
    note F = sync_frameD [OF E(2)]
    have new: "replayed ?s t" using inv by (simp add: replayed_def new_dl_thread_def dl_inv_def)
    have "up_to_date s' u" if u: "u \<in> set (pthreads ?s)" "\<not> finished_threads ?s u" "\<forall>e. js_accepts dw u e" for u
    proof (cases "u = t")
      case True
      show ?thesis
        using sync_self_complete [OF thread_starts(3) new] u(3) F(1) by (simp add: True up_to_date_def)
    next
      case False
      then have "up_to_date s u" using kept u by (simp add: threads_kept_def new_dl_thread_def)
      then have "up_to_date ?s u" using False by (simp add: up_to_date_def replayed_def new_dl_thread_def)
      then show ?thesis using same_thread_kept(2) [OF E(2) E(3) [OF False]] by simp
    qed
    moreover have "main_thread dw \<notin> set (pthreads ?s)"
      using kept thread_starts(2) by (simp add: threads_kept_def new_dl_thread_def)
    ultimately have "threads_kept dw s'" using F(4,5) by (simp add: threads_kept_def)
    then show ?thesis using F(1,2) by (intro dl_inv_threads [OF inv]) (simp_all add: new_dl_thread_def)
  next
    case (thread_sleeps t)
    have "\<not> finished_threads s t \<longrightarrow> (\<forall>e. js_accepts dw t e) \<longrightarrow> sync_queued s t \<or> thread_local_tail s t = length (events s) - 1"
      using kept thread_sleeps(1) by (auto simp: threads_kept_def up_to_date_def)
    then show ?thesis using sleeping_kept [OF kept thread_sleeps(1) _ thread_sleeps(3)] by (intro dl_inv_threads [OF inv]) simp_all
  next
    case (thread_wakes t)
    have "\<not> finished_threads s t \<longrightarrow> (\<forall>e. js_accepts dw t e) \<longrightarrow> sync_queued s t \<or> thread_local_tail s t = length (events s) - 1"
      using kept thread_wakes(1) by (auto simp: threads_kept_def up_to_date_def)
    then show ?thesis using sleeping_kept [OF kept thread_wakes(1) _ thread_wakes(3)] by (intro dl_inv_threads [OF inv]) simp_all
  next
    case (thread_finishes t)
    have "threads_kept dw s'"
      using kept unfolding thread_finishes(1) by (auto simp: threads_kept_def up_to_date_def replayed_def)
    then show ?thesis by (intro dl_inv_threads [OF inv]) (simp_all add: thread_finishes(1))
  next
    case (thread_goes t)
    have "threads_kept dw s'"
      using kept unfolding thread_goes(1) by (auto simp: threads_kept_def up_to_date_def replayed_def)
    then show ?thesis by (intro dl_inv_threads [OF inv]) (simp_all add: thread_goes(1))
  qed
qed

lemma dl_inv_reachable:
  assumes "m0 \<noteq> 0" and "(dl_step dw)\<^sup>*\<^sup>* (init_dl m0) s"
  shows "dl_inv dw s"
  using assms(2)
proof (induction rule: rtranclp_induct)
  case base
  show ?case using assms(1) by (simp add: dl_inv_def init_dl_def open_libraries_def located_def)
next
  case (step s1 s2)
  then show ?case using dl_step_inv by blast
qed

text \<open>
  Claim C24. Whatever sequence of opens, ends of an asynchronous open and symbol look-ups the threads make, and however
  threads start, sleep, wake and finish in between: a live background thread whose own loads succeed has replayed the
  events up to its tail, each once and in the order of the list; it is behind only while it sleeps, and when it then does
  the work queued for it, as it does on waking before anything else, it has replayed them all. No two open
  libraries have the same name. (Of the main thread, which may add symbols twice, see \<open>async_replays_symbols\<close>.)
\<close>

theorem threads_agree:
  assumes "m0 \<noteq> 0" and "(dl_step dw)\<^sup>*\<^sup>* (init_dl m0) s"
    and "t \<in> set (pthreads s)" and "\<not> finished_threads s t" and "\<forall>e. js_accepts dw t e"
  shows "thread_local_tail s t < length (events s) \<and>
    loaded s t = map action_of (take (thread_local_tail s t) (tl (events s))) \<and>
    (\<not> sleeping s t \<longrightarrow> loaded s t = map action_of (tl (events s))) \<and>
    (\<exists>s'. emscripten_process_dlopen_queue dw t s = Some s' \<and> events s' = events s \<and>
       loaded s' t = map action_of (tl (events s))) \<and>
    distinct (map (\<lambda>d. dso_name (dso_at s d)) (open_libraries s))"
proof -
  have inv: "dl_inv dw s" by (rule dl_inv_reachable [OF assms(1,2)])
  then have utd: "up_to_date s t" using assms(3-5) by (simp add: dl_inv_def)
  then have rep: "replayed s t" by (rule up_to_date_replayed)
  have all: "replayed u t \<Longrightarrow> thread_local_tail u t = length (events u) - 1 \<Longrightarrow> loaded u t = map action_of (tl (events u))" for u
    by (simp add: replayed_def)
  obtain s' where s': "emscripten_process_dlopen_queue dw t s = Some s'"
    using process_queue_ready [OF rep assms(5)] by blast
  note E = process_queue_effect [OF s']
  have ev: "events s' = events s" by (rule sync_frameD(1) [OF E(1)])
  have "replayed s' t \<and> thread_local_tail s' t = length (events s) - 1"
    by (rule E(3) [OF rep assms(5)]) (use utd in \<open>auto simp: up_to_date_def\<close>)
  then have "loaded s' t = map action_of (tl (events s))" using all [of s'] ev by simp
  then have "\<exists>s'. emscripten_process_dlopen_queue dw t s = Some s' \<and> events s' = events s \<and>
       loaded s' t = map action_of (tl (events s))" using s' ev by blast
  moreover have "\<not> sleeping s t \<longrightarrow> loaded s t = map action_of (tl (events s))"
    using utd all [OF rep] by (auto simp: up_to_date_def)
  ultimately show ?thesis using rep inv by (simp add: replayed_def dl_inv_def)
qed

text \<open>The main thread, too, gets through, if it can load and add what the others have.\<close>

theorem main_sync_returns:
  assumes "m0 \<noteq> 0" and "(dl_step dw)\<^sup>*\<^sup>* (init_dl m0) s" and "\<forall>e. js_accepts dw (main_thread dw) e"
  shows "\<exists>s'. dlsync_main (length (events s)) dw (main_thread dw) (emscripten_dlsync_self_async dw (main_thread dw) s) = Some s' \<and>
    events s' = events s"
proof -
  have "located s" using dl_inv_reachable [OF assms(1,2)] by (simp add: dl_inv_def)
  then obtain s' where "dlsync_main (length (events s)) dw (main_thread dw) (emscripten_dlsync_self_async dw (main_thread dw) s) = Some s'"
    using main_sync_ends [OF _ assms(3)] by blast
  then show ?thesis using main_sync_frame by (auto simp: main_only_def sync_frame_def)
qed

text \<open>
  When the main thread opens a library or adds a symbol, a thread that cannot follow does not stop the
  program: the thread keeps its place, runs on, and skips what it has missed when it publishes an event itself.
\<close>

theorem failed_sync_is_ignored:
  assumes "events s = es @ [e]" and "thread_local_tail s t = length es - 1" and "es \<noteq> []" and "\<not> js_accepts dw t e"
    and "pthreads s = [t]" and "\<not> finished_threads s t"
  shows "emscripten_dlsync_threads dw (main_thread dw) s = Some s \<and>
    emscripten_dlsync_self dw t (new_dlevent t p i s) = (True, new_dlevent t p i s) \<and>
    loaded (new_dlevent t p i s) t = loaded s t"
proof -
  have tail: "thread_local_tail s t < length (events s)" "drop (thread_local_tail s t + 1) (events s) = [e]"
    using assms(1-3) by (cases es; simp)+
  have "emscripten_dlsync_self dw t s = (False, s)"
    using dlsync_self_eq [OF tail(1), of dw] assms(4) by (simp only: tail(2) Let_def) simp
  then have "emscripten_dlsync_threads dw (main_thread dw) s = Some s"
    using assms(5,6) by (simp add: emscripten_dlsync_threads_def emscripten_proxy_dlsync_def)
  then show ?thesis by (simp add: emscripten_dlsync_self_def new_dlevent_fields)
qed

lemma find_snoc: "find P (xs @ [x]) = (case find P xs of None \<Rightarrow> if P x then Some x else None | Some y \<Rightarrow> Some y)"
  by (induction xs) auto

lemma find_existing_append:
  assumes "find_existing name s = 0" and "0 \<notin> set (open_libraries s)" and "fresh_dso q s"
  shows "find_existing name (s\<lparr>events := events s @ [\<lparr>sym_index = - 1, ev_dso = q\<rparr>], dso_at := (dso_at s)(q := d)\<rparr>) =
    (if dso_name d = name then q else 0)"
proof -
  have "name \<notin> (\<lambda>d. dso_name (dso_at s d)) ` set (open_libraries s)" using find_existing_0 [OF assms(2)] assms(1) by simp
  then have "find (\<lambda>e. sym_index e = - 1 \<and> dso_name (((dso_at s)(q := d)) (ev_dso e)) = name) (events s) = None"
    using assms(3) by (auto simp: find_None_iff open_libraries_def fresh_dso_def)
  then show ?thesis by (simp add: find_existing_def find_snoc)
qed

text \<open>
  Opening a library that is open returns the same handle, loads nothing and releases the lock, whichever thread
  asks and with whatever flags.
\<close>

theorem dlopen_idempotent:
  assumes "fresh_dso q s" and "0 \<notin> set (open_libraries s)"
    and "dlopen dw t q (Some file) flags s = Some (h, s1)" and "h \<noteq> 0"
  shows "\<exists>s2. dlopen dw t' q' (Some file) flags' s1 = Some (h, s2) \<and>
    events s2 = events s1 \<and> loaded s2 = loaded s1 \<and> dso_at s2 = dso_at s1 \<and> write_lock s2 = None"
proof -
  define nm where "nm = find_dylib dw file buf_len"
  have lock: "write_lock s = None" using assms(3) by (auto simp: dlopen_def do_write_lock_def split: if_splits)
  have fe: "find_existing n u = find_existing n v" if "events u = events v" "dso_at u = dso_at v" for n u v
    using that by (simp add: find_existing_def)
  let ?l = "s\<lparr>skip_dlsync := (skip_dlsync s)(t := True), write_lock := Some t\<rparr>"
  have "write_lock s1 = None \<and> find_existing nm s1 = h"
  proof (cases "find_existing nm s = 0")
    case False
    then have "h = find_existing nm s" "s1 = do_write_unlock t ?l"
      using assms(3) lock fe [of ?l s nm] by (auto simp: dlopen_def do_write_lock_def nm_def Let_def)
    then show ?thesis using fe [of "do_write_unlock t ?l" s nm] by (simp add: do_write_unlock_def)
  next
    case True
    define d where "d = \<lparr>dso_name = nm, dso_flags = flags, dso_event = 0, file_data = contents dw nm\<rparr>"
    let ?s2 = "?l\<lparr>dso_at := (dso_at s)(q := d)\<rparr>"
    have "\<exists>s3. load_library_done dw t q (dl_log t (Load q) ?s2) = Some s3 \<and> s1 = do_write_unlock t s3 \<and> h = q"
      using assms(3,4) lock True fe [of ?l s nm]
      by (auto simp: dlopen_def do_write_lock_def nm_def d_def Let_def load_library_start_def split: if_splits)
    then obtain s3 where s3: "emscripten_dlsync_threads dw t (new_dlevent t q (- 1) (dl_log t (Load q) ?s2)) = Some s3"
      and s1: "s1 = do_write_unlock t s3" "h = q"
      unfolding load_library_done_def by blast
    note F = sync_frameD [OF dlsync_threads_effect(1) [OF s3]]
    have "q \<noteq> 0" using assms(4) s1(2) by simp
    then have "events s1 = events s @ [\<lparr>sym_index = - 1, ev_dso = q\<rparr>]"
        "dso_at s1 = (dso_at s)(q := d\<lparr>dso_event := length (events s)\<rparr>)" "write_lock s1 = None"
      unfolding s1
      by (simp_all add: do_write_unlock_def F(1,2)) (simp_all add: new_dlevent_def dl_log_def Let_def)
    then show ?thesis
      using find_existing_append [OF True assms(2,1), of "d\<lparr>dso_event := length (events s)\<rparr>"] s1(2)
      by (simp add: find_existing_def d_def)
  qed
  then show ?thesis
    using assms(4) by (simp add: dlopen_def do_write_lock_def nm_def [symmetric] Let_def find_existing_def do_write_unlock_def)
qed

section \<open>Examples\<close>

definition demo_dl :: dl_world where
  "demo_dl = \<lparr>contents = (\<lambda>f. if f = ''a'' then Some [0, 97] else None),
     probe = (\<lambda>f. (f = ''b/c'', ENOENT)), env_path = None,
     js_load = (\<lambda>_ _. True), js_symbol = (\<lambda>_ _ _. True), js_dlsym = (\<lambda>_ _. (7, 3)),
     main_thread = 1\<rparr>"

text \<open>Two threads, of which 9 sleeps, and what thread 2 then makes of it by opening a library.\<close>

definition dl_asleep :: dl_state where
  "dl_asleep = (new_dl_thread 9 (new_dl_thread 2 (init_dl 16)))\<lparr>sleeping := (\<lambda>_. False)(9 := True)\<rparr>"

definition dl_after :: dl_state where
  "dl_after = (case dlopen demo_dl 2 32 (Some ''a'') RTLD_NOW dl_asleep of Some (h, s) \<Rightarrow> s)"

definition dl_lag :: dl_state where
  "dl_lag = (init_dl 16)\<lparr>events := [\<lparr>sym_index = - 1, ev_dso = 16\<rparr>, \<lparr>sym_index = 3, ev_dso = 0\<rparr>,
     \<lparr>sym_index = 4, ev_dso = 0\<rparr>]\<rparr>"

lemma dl_lag_runs:
  "emscripten_dlsync_self demo_dl 5 dl_lag = (True, catch_up 5 [Symbol 0 3, Symbol 0 4] dl_lag)"
  by (subst dlsync_self_eq) (simp_all add: dl_lag_def init_dl_def js_accepts_def action_of_def demo_dl_def)

theorem dlsync_self_catches_up_witness:
  "emscripten_dlsync_self demo_dl 5 dl_lag = (True, catch_up 5 [Symbol 0 3, Symbol 0 4] dl_lag) \<and>
   thread_local_tail (catch_up 5 [Symbol 0 3, Symbol 0 4] dl_lag) 5 = 2"
proof -
  have lag: "thread_local_tail dl_lag 5 < length (events dl_lag)" "length (events dl_lag) - 1 = 2"
    by (simp_all add: dl_lag_def init_dl_def)
  show ?thesis
    using dlsync_self_catches_up [OF lag(1) dl_lag_runs] dl_lag_runs lag(2) by simp
qed

definition dl_once :: dl_state where
  "dl_once = dl_lag\<lparr>loaded := (loaded dl_lag)(1 := [Symbol 0 3, Symbol 0 4])\<rparr>"

definition dl_twice :: dl_state where
  "dl_twice = dl_lag\<lparr>loaded := (loaded dl_lag)(1 := [Symbol 0 3, Symbol 0 4, Symbol 0 3, Symbol 0 4])\<rparr>"

lemma dl_async_runs:
  "emscripten_dlsync_self_async demo_dl 1 dl_lag = (Fulfilled, dl_once)"
  "emscripten_dlsync_self_async demo_dl 1 dl_once = (Fulfilled, dl_twice)"
  by (simp_all add: emscripten_dlsync_self_async_def dl_lag_def dl_once_def dl_twice_def init_dl_def demo_dl_def dl_log_def)

theorem async_replays_symbols_witness:
  "emscripten_dlsync_self_async demo_dl 1 dl_lag = (Fulfilled, dl_once) \<and>
   emscripten_dlsync_self_async demo_dl 1 dl_once = (Fulfilled, dl_twice) \<and>
   loaded dl_twice 1 = [Symbol 0 3, Symbol 0 4, Symbol 0 3, Symbol 0 4]"
  using async_replays_symbols [OF _ dl_async_runs] dl_async_runs
  by (simp add: dl_lag_def init_dl_def js_accepts_def demo_dl_def action_of_def)

lemma demo_accepts: "js_accepts demo_dl t e"
  by (simp add: js_accepts_def demo_dl_def)

lemma dl_asleep_fields:
  "events dl_asleep = [\<lparr>sym_index = - 1, ev_dso = 16\<rparr>]" "pthreads dl_asleep = [9, 2]"
  "sleeping dl_asleep = (\<lambda>t. t = 9)" "finished_threads dl_asleep = (\<lambda>_. False)" "thread_local_tail dl_asleep = (\<lambda>_. 0)"
  "loaded dl_asleep = (\<lambda>_. [])" "write_lock dl_asleep = None" "sync_queued dl_asleep = (\<lambda>_. False)"
  "dso_name (dso_at dl_asleep d) = ''__main__''"
  by (auto simp: dl_asleep_def new_dl_thread_def init_dl_def fun_eq_iff)

lemma dl_after_runs:
  "\<exists>s. dlopen demo_dl 2 32 (Some ''a'') RTLD_NOW dl_asleep = Some (32, s) \<and> loaded s 9 = [] \<and> sleeping s 9 \<and>
     events s = [\<lparr>sym_index = - 1, ev_dso = 16\<rparr>, \<lparr>sym_index = - 1, ev_dso = 32\<rparr>] \<and> pthreads s = [9, 2] \<and>
     \<not> finished_threads s 9"
proof -
  have name: "find_dylib demo_dl ''a'' buf_len = ''a''"
    by (simp add: find_dylib_def emscripten_find_dylib_def demo_dl_def)
  have flags: "RTLD_NOW AND (RTLD_LAZY OR RTLD_NOW) \<noteq> 0" "RTLD_NOW \<noteq> 0"
    by (simp_all add: RTLD_NOW_def RTLD_LAZY_def)
  have js: "js_load demo_dl t d" "main_thread demo_dl = 1" for t d by (simp_all add: demo_dl_def)
  show ?thesis
    by (simp add: dlopen_def do_write_lock_def dl_asleep_fields name Let_def find_existing_def load_library_start_def
        flags js load_library_done_def emscripten_dlsync_threads_def dlsyncThreadsAsync_def emscripten_dlsync_self_async_def
        new_dlevent_def dl_log_def sync_one_onsuccess_def emscripten_proxy_dlsync_async_def do_write_unlock_def)
qed

lemma dl_after_eq:
  "dlopen demo_dl 2 32 (Some ''a'') RTLD_NOW dl_asleep = Some (32, dl_after)"
  using dl_after_runs by (auto simp: dl_after_def)

lemma dl_asleep_reachable: "(dl_step demo_dl)\<^sup>*\<^sup>* (init_dl 16) dl_asleep"
proof -
  let ?s1 = "new_dl_thread 2 (init_dl 16)" and ?s2 = "new_dl_thread 9 (new_dl_thread 2 (init_dl 16))"
  have "dl_step demo_dl (init_dl 16) ?s1"
    by (rule dl_step.thread_starts [where t = 2 and ok = True])
      (simp_all add: emscripten_dlsync_self_def new_dl_thread_def init_dl_def demo_dl_def)
  moreover have "dl_step demo_dl ?s1 ?s2"
    by (rule dl_step.thread_starts [where t = 9 and ok = True])
      (simp_all add: emscripten_dlsync_self_def new_dl_thread_def init_dl_def demo_dl_def)
  moreover have "dl_step demo_dl ?s2 dl_asleep"
    by (rule dl_step.thread_sleeps [where t = 9])
      (simp_all add: emscripten_process_dlopen_queue_def runs_def dl_asleep_def new_dl_thread_def init_dl_def demo_dl_def fun_eq_iff)
  ultimately show ?thesis by (meson converse_rtranclp_into_rtranclp rtranclp.rtrancl_refl)
qed

lemma demo_fresh: "fresh_dso 32 dl_asleep" "0 \<notin> set (open_libraries dl_asleep)"
  by (simp_all add: fresh_dso_def open_libraries_def dl_asleep_fields)

lemma dl_after_reachable: "(dl_step demo_dl)\<^sup>*\<^sup>* (init_dl 16) dl_after"
proof -
  have "runs demo_dl dl_asleep 2" by (simp add: runs_def dl_asleep_fields)
  then have "dl_step demo_dl dl_asleep dl_after" by (rule dl_step.call_dlopen [OF _ demo_fresh(1) dl_after_eq])
  with dl_asleep_reachable show ?thesis by (rule rtranclp.rtrancl_into_rtrancl)
qed

theorem dlopen_idempotent_witness:
  "\<exists>s2. dlopen demo_dl 9 48 (Some ''a'') RTLD_LAZY dl_after = Some (32, s2) \<and> write_lock s2 = None"
  using dlopen_idempotent [OF demo_fresh dl_after_eq, of 9 48 RTLD_LAZY] by auto

text \<open>Thread 9 is asleep and behind; the work queued for it makes it load the library.\<close>

theorem threads_agree_witness:
  "loaded dl_after 9 = [] \<and>
   (\<exists>s'. emscripten_process_dlopen_queue demo_dl 9 dl_after = Some s' \<and> loaded s' 9 = [Load 32])"
proof -
  have s: "loaded dl_after 9 = []" "9 \<in> set (pthreads dl_after)" "\<not> finished_threads dl_after 9"
      "events dl_after = [\<lparr>sym_index = - 1, ev_dso = 16\<rparr>, \<lparr>sym_index = - 1, ev_dso = 32\<rparr>]"
    using dl_after_runs dl_after_eq by auto
  have "map action_of (tl (events dl_after)) = [Load 32]" by (simp add: s(4) action_of_def)
  then show ?thesis
    using threads_agree [OF _ dl_after_reachable s(2,3)] demo_accepts s(1) by auto
qed

theorem main_sync_returns_witness:
  "\<exists>s'. dlsync_main 2 demo_dl 1 (emscripten_dlsync_self_async demo_dl 1 dl_after) = Some s'"
proof -
  have "length (events dl_after) = 2" using dl_after_runs dl_after_eq by auto
  moreover have "main_thread demo_dl = 1" by (simp add: demo_dl_def)
  ultimately show ?thesis using main_sync_returns [OF _ dl_after_reachable] demo_accepts by auto
qed

text \<open>A thread that cannot load library 32.\<close>

definition dl_stuck :: dl_state where
  "dl_stuck = dl_asleep\<lparr>pthreads := [2], events := [\<lparr>sym_index = - 1, ev_dso = 16\<rparr>, \<lparr>sym_index = - 1, ev_dso = 32\<rparr>]\<rparr>"

theorem failed_sync_is_ignored_witness:
  "emscripten_dlsync_threads (demo_dl\<lparr>js_load := \<lambda>t d. t \<noteq> 2\<rparr>) 1 dl_stuck = Some dl_stuck \<and>
   loaded (new_dlevent 2 48 (- 1) dl_stuck) 2 = []"
proof -
  have w: "main_thread (demo_dl\<lparr>js_load := \<lambda>t d. t \<noteq> 2\<rparr>) = 1" by (simp add: demo_dl_def)
  show ?thesis
    using failed_sync_is_ignored [of dl_stuck "[\<lparr>sym_index = - 1, ev_dso = 16\<rparr>]" "\<lparr>sym_index = - 1, ev_dso = 32\<rparr>" 2
        "demo_dl\<lparr>js_load := \<lambda>t d. t \<noteq> 2\<rparr>" 48 "- 1", unfolded w]
    by (simp add: dl_stuck_def dl_asleep_fields js_accepts_def)
qed

lemma keep_lock_runs:
  "emscripten_dlopen demo_dl 2 32 (Some ''__main__'') RTLD_NOW (init_dl 16) =
    Some (On_success 16, (init_dl 16)\<lparr>skip_dlsync := (\<lambda>_. False)(2 := True), write_lock := Some 2\<rparr>)"
proof -
  have "find_dylib demo_dl ''__main__'' buf_len = ''__main__''"
    by (simp add: find_dylib_def emscripten_find_dylib_def demo_dl_def)
  then show ?thesis by (simp add: emscripten_dlopen_def do_write_lock_def init_dl_def Let_def find_existing_def)
qed

theorem dlopen_of_open_library_keeps_lock_witness:
  "dlopen demo_dl 2 32 (Some ''b'') RTLD_NOW ((init_dl 16)\<lparr>skip_dlsync := (\<lambda>_. False)(2 := True), write_lock := Some 2\<rparr>) = None"
  using dlopen_of_open_library_keeps_lock [OF keep_lock_runs] by blast

theorem path_find_searches_witness:
  "path_find demo_dl ''c'' '':a::b'' 10 = (0, ''b/c'') \<and> path_find demo_dl ''c'' '':a'' 10 = (- 1, [])"
  using path_find_searches [of "'':a::b''" demo_dl "''c''" 10] path_find_searches [of "'':a''" demo_dl "''c''" 10]
  by (simp add: path_dirs_def split_path_def is_path_sep_def demo_dl_def missing_file_def)

end
