(* ===== verification/Key_Codes.thy ===== *)
theory Key_Codes
  imports Prelude
begin

text \<open>
  Keyboard codes: \<open>system/lib/html5/dom_pk_codes.c\<close> and \<open>key_codes.c\<close>. A key name is hashed and the
  hash selects the code; codes are turned into the names of their constants. The switches are
  association lists, in the order of the cases, with the values of \<open>dom_pk_codes.h\<close> and
  \<open>key_codes.h\<close>.
\<close>

section \<open>The tables\<close>

text \<open>The cases of the switch of \<open>emscripten_compute_dom_pk_code\<close>: hash and code.\<close>

definition pk_hash_table_1 :: "(u32 \<times> int) list" where
  "pk_hash_table_1 =
    [(0x98051284, 0x0000), (0x67243A2D, 0x0001), (0x67251058, 0x0002), (0x67251059, 0x0003),
     (0x6725105A, 0x0004), (0x6725105B, 0x0005), (0x6725105C, 0x0006), (0x6725105D, 0x0007),
     (0x6725105E, 0x0008), (0x6725105F, 0x0009), (0x67251050, 0x000A), (0x67251051, 0x000B),
     (0x92E14DD3, 0x000C), (0x92E1FBAC, 0x000D), (0x36BF1CB5, 0x000E), (0x7B8E51E2, 0x000F),
     (0x2C595B51, 0x0010), (0x2C595B57, 0x0011), (0x2C595B45, 0x0012), (0x2C595B52, 0x0013),
     (0x2C595B54, 0x0014), (0x2C595B59, 0x0015), (0x2C595B55, 0x0016), (0x2C595B49, 0x0017),
     (0x2C595B4F, 0x0018), (0x2C595B50, 0x0019), (0x45D8158C, 0x001A), (0xDEEABF7C, 0x001B),
     (0x92E1C5D2, 0x001C), (0xE058958C, 0x001D), (0x2C595B41, 0x001E), (0x2C595B53, 0x001F),
     (0x2C595B44, 0x0020), (0x2C595B46, 0x0021), (0x2C595B47, 0x0022), (0x2C595B48, 0x0023),
     (0x2C595B4A, 0x0024), (0x2C595B4B, 0x0025), (0x2C595B4C, 0x0026), (0x2707219E, 0x0027),
     (0x92E0B58D, 0x0028), (0x36BF358D, 0x0029), (0x26B1958C, 0x002A), (0x36BF2438, 0x002B),
     (0x2C595B5A, 0x002C), (0x2C595B58, 0x002D), (0x2C595B43, 0x002E), (0x2C595B56, 0x002F),
     (0x2C595B42, 0x0030), (0x2C595B4E, 0x0031), (0x2C595B4D, 0x0032), (0x92E1A1C1, 0x0033),
     (0x672FFAD4, 0x0034), (0x92E0A438, 0x0035), (0xC5A6BF7C, 0x0036), (0x5D64DA91, 0x0037),
     (0xC914958C, 0x0038), (0x92E09CB5, 0x0039), (0xB8FAE73B, 0x003A), (0x7174B789, 0x003B),
     (0x7174B78A, 0x003C), (0x7174B78B, 0x003D), (0x7174B78C, 0x003E), (0x7174B78D, 0x003F),
     (0x7174B78E, 0x0040), (0x7174B78F, 0x0041), (0x7174B780, 0x0042), (0x7174B781, 0x0043),
     (0x7B8E57B0, 0x0044), (0x92E08B35, 0x0045), (0xCDED173B, 0x0046), (0xC925FCDF, 0x0047),
     (0xC925FCD0, 0x0048), (0xC925FCD1, 0x0049), (0x5EA3E8A4, 0x004A), (0xC925FCDC, 0x004B),
     (0xC925FCDD, 0x004C), (0xC925FCDE, 0x004D), (0x380B9C8C, 0x004E), (0xC925FCD9, 0x004F)]"

definition pk_hash_table_2 :: "(u32 \<times> int) list" where
  "pk_hash_table_2 =
    [(0xC925FCDA, 0x0050), (0xC925FCDB, 0x0051), (0xC925FCD8, 0x0052), (0x95852DAC, 0x0053),
     (0xCC1E198E, 0x0054), (0x16BF2438, 0x0056), (0x7B8E57B1, 0x0057), (0x7B8E57B2, 0x0058),
     (0x7393FBAC, 0x0059), (0x7B8E57B3, 0x0064), (0x7B8E57B4, 0x0065), (0x7B8E57B5, 0x0066),
     (0x7B8E57B6, 0x0067), (0x7B8E57B7, 0x0068), (0x7B8E57B8, 0x0069), (0x7B8E57B9, 0x006A),
     (0x7B8E57A8, 0x006B), (0x7B8E57A9, 0x006C), (0x7B8E57AA, 0x006D), (0x7B8E57AB, 0x006E),
     (0xB9F4C50D, 0x0070), (0x92E14D02, 0x0071), (0x92E14D01, 0x0072), (0x6723C677, 0x0073),
     (0x7B8E57AC, 0x0076), (0xC91CC12C, 0x0079), (0x2ADCC12C, 0x007B), (0xC935DA8E, 0x007D),
     (0x7393A1C1, 0x007E), (0x92E08A8D, 0xE00A), (0x01DC7D93, 0xE010), (0x7B8E5494, 0xE017),
     (0x2C5949B1, 0xE018), (0x2AD2E17C, 0xE019), (0x7393C5D2, 0xE01C), (0xF2EEBF7C, 0xE01D),
     (0x2A45030D, 0xE020), (0xEA45030D, 0xE020), (0x370ECA3A, 0xE021), (0x2D1C0B35, 0xE022),
     (0x39237F80, 0xE024), (0x92E1C9A4, 0xE02C), (0x2A45179E, 0xE02E), (0xEA45179E, 0xE02E),
     (0x156CC610, 0xE030), (0xBA6CC610, 0xE030), (0x49387F45, 0xE032), (0x6CB5328D, 0xE035),
     (0xB88EBF7C, 0xE038), (0x2C595DD8, 0xE03B), (0xC925873B, 0xE045), (0x2C595F45, 0xE047),
     (0xC91BB690, 0xE048), (0x672F9210, 0xE049), (0x3799258C, 0xE04B), (0x4CE33F7C, 0xE04D),
     (0x7B8E55DC, 0xE04F), (0x3799379E, 0xE050), (0xBA90179E, 0xE051), (0x6723CB2C, 0xE052),
     (0x6725C50D, 0xE053), (0xB929C58C, 0xE05B), (0x6723658C, 0xE05B), (0x39643F7C, 0xE05C),
     (0xC9313F7C, 0xE05C), (0xE00E97CD, 0xE05D), (0x92E09712, 0xE05E), (0x3F665A78, 0xE065),
     (0xA2E93BD3, 0xE066), (0x0B1D4938, 0xE067), (0x49384F80, 0xE068), (0x0B49023C, 0xE069),
     (0x493868BB, 0xE06A), (0x370ECA39, 0xE06B), (0x370ED6EC, 0xE06C), (0x39AB4892, 0xE06D),
     (0x39AA45A4, 0xE06D)]"

text \<open>The cases of \<open>emscripten_dom_pk_code_to_string\<close>.\<close>

definition pk_name_table_1 :: "(int \<times> string) list" where
  "pk_name_table_1 =
    [(0x0000, ''DOM_PK_UNKNOWN''), (0x0001, ''DOM_PK_ESCAPE''), (0x0002, ''DOM_PK_0''),
     (0x0003, ''DOM_PK_1''), (0x0004, ''DOM_PK_2''), (0x0005, ''DOM_PK_3''),
     (0x0006, ''DOM_PK_4''), (0x0007, ''DOM_PK_5''), (0x0008, ''DOM_PK_6''),
     (0x0009, ''DOM_PK_7''), (0x000A, ''DOM_PK_8''), (0x000B, ''DOM_PK_9''),
     (0x000C, ''DOM_PK_MINUS''), (0x000D, ''DOM_PK_EQUAL''), (0x000E, ''DOM_PK_BACKSPACE''),
     (0x000F, ''DOM_PK_TAB''), (0x0010, ''DOM_PK_Q''), (0x0011, ''DOM_PK_W''),
     (0x0012, ''DOM_PK_E''), (0x0013, ''DOM_PK_R''), (0x0014, ''DOM_PK_T''),
     (0x0015, ''DOM_PK_Y''), (0x0016, ''DOM_PK_U''), (0x0017, ''DOM_PK_I''),
     (0x0018, ''DOM_PK_O''), (0x0019, ''DOM_PK_P''), (0x001A, ''DOM_PK_BRACKET_LEFT''),
     (0x001B, ''DOM_PK_BRACKET_RIGHT''), (0x001C, ''DOM_PK_ENTER''),
     (0x001D, ''DOM_PK_CONTROL_LEFT''), (0x001E, ''DOM_PK_A''), (0x001F, ''DOM_PK_S''),
     (0x0020, ''DOM_PK_D''), (0x0021, ''DOM_PK_F''), (0x0022, ''DOM_PK_G''),
     (0x0023, ''DOM_PK_H''), (0x0024, ''DOM_PK_J''), (0x0025, ''DOM_PK_K''),
     (0x0026, ''DOM_PK_L''), (0x0027, ''DOM_PK_SEMICOLON''), (0x0028, ''DOM_PK_QUOTE''),
     (0x0029, ''DOM_PK_BACKQUOTE''), (0x002A, ''DOM_PK_SHIFT_LEFT''),
     (0x002B, ''DOM_PK_BACKSLASH''), (0x002C, ''DOM_PK_Z''), (0x002D, ''DOM_PK_X''),
     (0x002E, ''DOM_PK_C''), (0x002F, ''DOM_PK_V''), (0x0030, ''DOM_PK_B''),
     (0x0031, ''DOM_PK_N''), (0x0032, ''DOM_PK_M''), (0x0033, ''DOM_PK_COMMA''),
     (0x0034, ''DOM_PK_PERIOD''), (0x0035, ''DOM_PK_SLASH''),
     (0x0036, ''DOM_PK_SHIFT_RIGHT''), (0x0037, ''DOM_PK_NUMPAD_MULTIPLY''),
     (0x0038, ''DOM_PK_ALT_LEFT''), (0x0039, ''DOM_PK_SPACE''),
     (0x003A, ''DOM_PK_CAPS_LOCK''), (0x003B, ''DOM_PK_F1''), (0x003C, ''DOM_PK_F2''),
     (0x003D, ''DOM_PK_F3''), (0x003E, ''DOM_PK_F4''), (0x003F, ''DOM_PK_F5''),
     (0x0040, ''DOM_PK_F6''), (0x0041, ''DOM_PK_F7''), (0x0042, ''DOM_PK_F8''),
     (0x0043, ''DOM_PK_F9''), (0x0044, ''DOM_PK_F10''), (0x0045, ''DOM_PK_PAUSE''),
     (0x0046, ''DOM_PK_SCROLL_LOCK''), (0x0047, ''DOM_PK_NUMPAD_7''),
     (0x0048, ''DOM_PK_NUMPAD_8''), (0x0049, ''DOM_PK_NUMPAD_9''),
     (0x004A, ''DOM_PK_NUMPAD_SUBTRACT''), (0x004B, ''DOM_PK_NUMPAD_4''),
     (0x004C, ''DOM_PK_NUMPAD_5''), (0x004D, ''DOM_PK_NUMPAD_6''),
     (0x004E, ''DOM_PK_NUMPAD_ADD''), (0x004F, ''DOM_PK_NUMPAD_1'')]"

definition pk_name_table_2 :: "(int \<times> string) list" where
  "pk_name_table_2 =
    [(0x0050, ''DOM_PK_NUMPAD_2''), (0x0051, ''DOM_PK_NUMPAD_3''), (0x0052, ''DOM_PK_NUMPAD_0''),
     (0x0053, ''DOM_PK_NUMPAD_DECIMAL''), (0x0054, ''DOM_PK_PRINT_SCREEN''),
     (0x0056, ''DOM_PK_INTL_BACKSLASH''), (0x0057, ''DOM_PK_F11''), (0x0058, ''DOM_PK_F12''),
     (0x0059, ''DOM_PK_NUMPAD_EQUAL''), (0x0064, ''DOM_PK_F13''), (0x0065, ''DOM_PK_F14''),
     (0x0066, ''DOM_PK_F15''), (0x0067, ''DOM_PK_F16''), (0x0068, ''DOM_PK_F17''),
     (0x0069, ''DOM_PK_F18''), (0x006A, ''DOM_PK_F19''), (0x006B, ''DOM_PK_F20''),
     (0x006C, ''DOM_PK_F21''), (0x006D, ''DOM_PK_F22''), (0x006E, ''DOM_PK_F23''),
     (0x0070, ''DOM_PK_KANA_MODE''), (0x0071, ''DOM_PK_LANG_2''), (0x0072, ''DOM_PK_LANG_1''),
     (0x0073, ''DOM_PK_INTL_RO''), (0x0076, ''DOM_PK_F24''), (0x0079, ''DOM_PK_CONVERT''),
     (0x007B, ''DOM_PK_NON_CONVERT''), (0x007D, ''DOM_PK_INTL_YEN''),
     (0x007E, ''DOM_PK_NUMPAD_COMMA''), (0xE00A, ''DOM_PK_PASTE''),
     (0xE010, ''DOM_PK_MEDIA_TRACK_PREVIOUS''), (0xE017, ''DOM_PK_CUT''),
     (0xE018, ''DOM_PK_COPY''), (0xE019, ''DOM_PK_MEDIA_TRACK_NEXT''),
     (0xE01C, ''DOM_PK_NUMPAD_ENTER''), (0xE01D, ''DOM_PK_CONTROL_RIGHT''),
     (0xE020, ''DOM_PK_AUDIO_VOLUME_MUTE''), (0xE021, ''DOM_PK_LAUNCH_APP_2''),
     (0xE022, ''DOM_PK_MEDIA_PLAY_PAUSE''), (0xE024, ''DOM_PK_MEDIA_STOP''),
     (0xE02C, ''DOM_PK_EJECT''), (0xE02E, ''DOM_PK_AUDIO_VOLUME_DOWN''),
     (0xE030, ''DOM_PK_AUDIO_VOLUME_UP''), (0xE032, ''DOM_PK_BROWSER_HOME''),
     (0xE035, ''DOM_PK_NUMPAD_DIVIDE''), (0xE038, ''DOM_PK_ALT_RIGHT''),
     (0xE03B, ''DOM_PK_HELP''), (0xE045, ''DOM_PK_NUM_LOCK''), (0xE047, ''DOM_PK_HOME''),
     (0xE048, ''DOM_PK_ARROW_UP''), (0xE049, ''DOM_PK_PAGE_UP''),
     (0xE04B, ''DOM_PK_ARROW_LEFT''), (0xE04D, ''DOM_PK_ARROW_RIGHT''),
     (0xE04F, ''DOM_PK_END''), (0xE050, ''DOM_PK_ARROW_DOWN''),
     (0xE051, ''DOM_PK_PAGE_DOWN''), (0xE052, ''DOM_PK_INSERT''), (0xE053, ''DOM_PK_DELETE''),
     (0xE05B, ''DOM_PK_META_LEFT''), (0xE05C, ''DOM_PK_META_RIGHT''),
     (0xE05D, ''DOM_PK_CONTEXT_MENU''), (0xE05E, ''DOM_PK_POWER''),
     (0xE065, ''DOM_PK_BROWSER_SEARCH''), (0xE066, ''DOM_PK_BROWSER_FAVORITES''),
     (0xE067, ''DOM_PK_BROWSER_REFRESH''), (0xE068, ''DOM_PK_BROWSER_STOP''),
     (0xE069, ''DOM_PK_BROWSER_FORWARD''), (0xE06A, ''DOM_PK_BROWSER_BACK''),
     (0xE06B, ''DOM_PK_LAUNCH_APP_1''), (0xE06C, ''DOM_PK_LAUNCH_MAIL''),
     (0xE06D, ''DOM_PK_LAUNCH_MEDIA_PLAYER'')]"

text \<open>The cases of \<open>emscripten_dom_vk_to_string\<close>.\<close>

definition vk_name_table_1 :: "(int \<times> string) list" where
  "vk_name_table_1 =
    [(0x03, ''DOM_VK_CANCEL''), (0x06, ''DOM_VK_HELP''), (0x08, ''DOM_VK_BACK_SPACE''),
     (0x09, ''DOM_VK_TAB''), (0x0C, ''DOM_VK_CLEAR''), (0x0D, ''DOM_VK_RETURN''),
     (0x0E, ''DOM_VK_ENTER''), (0x10, ''DOM_VK_SHIFT''), (0x11, ''DOM_VK_CONTROL''),
     (0x12, ''DOM_VK_ALT''), (0x13, ''DOM_VK_PAUSE''), (0x14, ''DOM_VK_CAPS_LOCK''),
     (0x15, ''DOM_VK_KANA/DOM_VK_HANGUL''), (0x16, ''DOM_VK_EISU''), (0x17, ''DOM_VK_JUNJA''),
     (0x18, ''DOM_VK_FINAL''), (0x19, ''DOM_VK_HANJA/DOM_VK_KANJI''),
     (0x1B, ''DOM_VK_ESCAPE''), (0x1C, ''DOM_VK_CONVERT''), (0x1D, ''DOM_VK_NONCONVERT''),
     (0x1E, ''DOM_VK_ACCEPT''), (0x1F, ''DOM_VK_MODECHANGE''), (0x20, ''DOM_VK_SPACE''),
     (0x21, ''DOM_VK_PAGE_UP''), (0x22, ''DOM_VK_PAGE_DOWN''), (0x23, ''DOM_VK_END''),
     (0x24, ''DOM_VK_HOME''), (0x25, ''DOM_VK_LEFT''), (0x26, ''DOM_VK_UP''),
     (0x27, ''DOM_VK_RIGHT''), (0x28, ''DOM_VK_DOWN''), (0x29, ''DOM_VK_SELECT''),
     (0x2A, ''DOM_VK_PRINT''), (0x2B, ''DOM_VK_EXECUTE''), (0x2C, ''DOM_VK_PRINTSCREEN''),
     (0x2D, ''DOM_VK_INSERT''), (0x2E, ''DOM_VK_DELETE''), (0x30, ''DOM_VK_0''),
     (0x31, ''DOM_VK_1''), (0x32, ''DOM_VK_2''), (0x33, ''DOM_VK_3''), (0x34, ''DOM_VK_4''),
     (0x35, ''DOM_VK_5''), (0x36, ''DOM_VK_6''), (0x37, ''DOM_VK_7''), (0x38, ''DOM_VK_8''),
     (0x39, ''DOM_VK_9''), (0x3A, ''DOM_VK_COLON''), (0x3B, ''DOM_VK_SEMICOLON''),
     (0x3C, ''DOM_VK_LESS_THAN''), (0x3D, ''DOM_VK_EQUALS''), (0x3E, ''DOM_VK_GREATER_THAN''),
     (0x3F, ''DOM_VK_QUESTION_MARK''), (0x40, ''DOM_VK_AT''), (0x41, ''DOM_VK_A''),
     (0x42, ''DOM_VK_B''), (0x43, ''DOM_VK_C''), (0x44, ''DOM_VK_D''), (0x45, ''DOM_VK_E''),
     (0x46, ''DOM_VK_F''), (0x47, ''DOM_VK_G''), (0x48, ''DOM_VK_H''), (0x49, ''DOM_VK_I''),
     (0x4A, ''DOM_VK_J'')]"

definition vk_name_table_2 :: "(int \<times> string) list" where
  "vk_name_table_2 =
    [(0x4B, ''DOM_VK_K''), (0x4C, ''DOM_VK_L''), (0x4D, ''DOM_VK_M''), (0x4E, ''DOM_VK_N''),
     (0x4F, ''DOM_VK_O''), (0x50, ''DOM_VK_P''), (0x51, ''DOM_VK_Q''), (0x52, ''DOM_VK_R''),
     (0x53, ''DOM_VK_S''), (0x54, ''DOM_VK_T''), (0x55, ''DOM_VK_U''), (0x56, ''DOM_VK_V''),
     (0x57, ''DOM_VK_W''), (0x58, ''DOM_VK_X''), (0x59, ''DOM_VK_Y''), (0x5A, ''DOM_VK_Z''),
     (0x5B, ''DOM_VK_WIN''), (0x5D, ''DOM_VK_CONTEXT_MENU''), (0x5F, ''DOM_VK_SLEEP''),
     (0x60, ''DOM_VK_NUMPAD0''), (0x61, ''DOM_VK_NUMPAD1''), (0x62, ''DOM_VK_NUMPAD2''),
     (0x63, ''DOM_VK_NUMPAD3''), (0x64, ''DOM_VK_NUMPAD4''), (0x65, ''DOM_VK_NUMPAD5''),
     (0x66, ''DOM_VK_NUMPAD6''), (0x67, ''DOM_VK_NUMPAD7''), (0x68, ''DOM_VK_NUMPAD8''),
     (0x69, ''DOM_VK_NUMPAD9''), (0x6A, ''DOM_VK_MULTIPLY''), (0x6B, ''DOM_VK_ADD''),
     (0x6C, ''DOM_VK_SEPARATOR''), (0x6D, ''DOM_VK_SUBTRACT''), (0x6E, ''DOM_VK_DECIMAL''),
     (0x6F, ''DOM_VK_DIVIDE''), (0x70, ''DOM_VK_F1''), (0x71, ''DOM_VK_F2''),
     (0x72, ''DOM_VK_F3''), (0x73, ''DOM_VK_F4''), (0x74, ''DOM_VK_F5''),
     (0x75, ''DOM_VK_F6''), (0x76, ''DOM_VK_F7''), (0x77, ''DOM_VK_F8''),
     (0x78, ''DOM_VK_F9''), (0x79, ''DOM_VK_F10''), (0x7A, ''DOM_VK_F11''),
     (0x7B, ''DOM_VK_F12''), (0x7C, ''DOM_VK_F13''), (0x7D, ''DOM_VK_F14''),
     (0x7E, ''DOM_VK_F15''), (0x7F, ''DOM_VK_F16''), (0x80, ''DOM_VK_F17''),
     (0x81, ''DOM_VK_F18''), (0x82, ''DOM_VK_F19''), (0x83, ''DOM_VK_F20''),
     (0x84, ''DOM_VK_F21''), (0x85, ''DOM_VK_F22''), (0x86, ''DOM_VK_F23''),
     (0x87, ''DOM_VK_F24''), (0x90, ''DOM_VK_NUM_LOCK''), (0x91, ''DOM_VK_SCROLL_LOCK''),
     (0x92, ''DOM_VK_WIN_OEM_FJ_JISHO''), (0x93, ''DOM_VK_WIN_OEM_FJ_MASSHOU''),
     (0x94, ''DOM_VK_WIN_OEM_FJ_TOUROKU''), (0x95, ''DOM_VK_WIN_OEM_FJ_LOYA'')]"

definition vk_name_table_3 :: "(int \<times> string) list" where
  "vk_name_table_3 =
    [(0x96, ''DOM_VK_WIN_OEM_FJ_ROYA''), (0xA0, ''DOM_VK_CIRCUMFLEX''),
     (0xA1, ''DOM_VK_EXCLAMATION''), (0xA3, ''DOM_VK_DOUBLE_QUOTE/DOM_VK_HASH''),
     (0xA4, ''DOM_VK_DOLLAR''), (0xA5, ''DOM_VK_PERCENT''), (0xA6, ''DOM_VK_AMPERSAND''),
     (0xA7, ''DOM_VK_UNDERSCORE''), (0xA8, ''DOM_VK_OPEN_PAREN''),
     (0xA9, ''DOM_VK_CLOSE_PAREN''), (0xAA, ''DOM_VK_ASTERISK''), (0xAB, ''DOM_VK_PLUS''),
     (0xAC, ''DOM_VK_PIPE''), (0xAD, ''DOM_VK_HYPHEN_MINUS''),
     (0xAE, ''DOM_VK_OPEN_CURLY_BRACKET''), (0xAF, ''DOM_VK_CLOSE_CURLY_BRACKET''),
     (0xB0, ''DOM_VK_TILDE''), (0xB5, ''DOM_VK_VOLUME_MUTE''), (0xB6, ''DOM_VK_VOLUME_DOWN''),
     (0xB7, ''DOM_VK_VOLUME_UP''), (0xBC, ''DOM_VK_COMMA''), (0xBE, ''DOM_VK_PERIOD''),
     (0xBF, ''DOM_VK_SLASH''), (0xC0, ''DOM_VK_BACK_QUOTE''), (0xDB, ''DOM_VK_OPEN_BRACKET''),
     (0xDC, ''DOM_VK_BACK_SLASH''), (0xDD, ''DOM_VK_CLOSE_BRACKET''),
     (0xDE, ''DOM_VK_QUOTE''), (0xE0, ''DOM_VK_META''), (0xE1, ''DOM_VK_ALTGR''),
     (0xE3, ''DOM_VK_WIN_ICO_HELP''), (0xE4, ''DOM_VK_WIN_ICO_00''),
     (0xE6, ''DOM_VK_WIN_ICO_CLEAR''), (0xE9, ''DOM_VK_WIN_OEM_RESET''),
     (0xEA, ''DOM_VK_WIN_OEM_JUMP''), (0xEB, ''DOM_VK_WIN_OEM_PA1''),
     (0xEC, ''DOM_VK_WIN_OEM_PA2''), (0xED, ''DOM_VK_WIN_OEM_PA3''),
     (0xEE, ''DOM_VK_WIN_OEM_WSCTRL''), (0xEF, ''DOM_VK_WIN_OEM_CUSEL''),
     (0xF0, ''DOM_VK_WIN_OEM_ATTN''), (0xF1, ''DOM_VK_WIN_OEM_FINISH''),
     (0xF2, ''DOM_VK_WIN_OEM_COPY''), (0xF3, ''DOM_VK_WIN_OEM_AUTO''),
     (0xF4, ''DOM_VK_WIN_OEM_ENLW''), (0xF5, ''DOM_VK_WIN_OEM_BACKTAB''),
     (0xF6, ''DOM_VK_ATTN''), (0xF7, ''DOM_VK_CRSEL''), (0xF8, ''DOM_VK_EXSEL''),
     (0xF9, ''DOM_VK_EREOF''), (0xFA, ''DOM_VK_PLAY''), (0xFB, ''DOM_VK_ZOOM''),
     (0xFD, ''DOM_VK_PA1''), (0xFE, ''DOM_VK_WIN_OEM_CLEAR'')]"

section \<open>The functions\<close>

text \<open>\<open>char\<close> is signed: a byte from 128 on is sign-extended before it enters the hash.\<close>

definition pk_hash_step :: "u32 \<Rightarrow> char \<Rightarrow> u32" where
  "pk_hash_step hash ch = push_bit 3 (hash XOR 0x7E057D79) XOR scast (of_char ch :: u8)"

definition pk_hash :: "string \<Rightarrow> u32" where
  "pk_hash key = fold (\<lambda>ch hash. pk_hash_step hash ch) key 0"

definition emscripten_compute_dom_pk_code :: "string option \<Rightarrow> int" where
  "emscripten_compute_dom_pk_code key =
     (case key of
        None \<Rightarrow> 0
      | Some s \<Rightarrow> (case map_of (pk_hash_table_1 @ pk_hash_table_2) (pk_hash s) of Some c \<Rightarrow> c | None \<Rightarrow> 0))"

definition emscripten_dom_pk_code_to_string :: "int \<Rightarrow> string" where
  "emscripten_dom_pk_code_to_string code =
     (case map_of (pk_name_table_1 @ pk_name_table_2) code of
        Some s \<Rightarrow> s | None \<Rightarrow> ''Unknown DOM_PK code'')"

definition emscripten_dom_vk_to_string :: "int \<Rightarrow> string" where
  "emscripten_dom_vk_to_string dom_vk_code =
     (case map_of (vk_name_table_1 @ vk_name_table_2 @ vk_name_table_3) dom_vk_code of
        Some s \<Rightarrow> s | None \<Rightarrow> ''Unknown DOM_VK code'')"

section \<open>Correctness\<close>

text \<open>The key names that the comments of the switch document, with the codes they stand for.\<close>

definition documented_keys_1 :: "(string \<times> int) list" where
  "documented_keys_1 =
    [(''Unidentified'', 0x0000), (''Escape'', 0x0001), (''Digit0'', 0x0002), (''Digit1'', 0x0003),
     (''Digit2'', 0x0004), (''Digit3'', 0x0005), (''Digit4'', 0x0006), (''Digit5'', 0x0007),
     (''Digit6'', 0x0008), (''Digit7'', 0x0009), (''Digit8'', 0x000A), (''Digit9'', 0x000B),
     (''Minus'', 0x000C), (''Equal'', 0x000D), (''Backspace'', 0x000E), (''Tab'', 0x000F),
     (''KeyQ'', 0x0010), (''KeyW'', 0x0011), (''KeyE'', 0x0012), (''KeyR'', 0x0013),
     (''KeyT'', 0x0014), (''KeyY'', 0x0015), (''KeyU'', 0x0016), (''KeyI'', 0x0017),
     (''KeyO'', 0x0018), (''KeyP'', 0x0019), (''BracketLeft'', 0x001A),
     (''BracketRight'', 0x001B), (''Enter'', 0x001C), (''ControlLeft'', 0x001D),
     (''KeyA'', 0x001E), (''KeyS'', 0x001F), (''KeyD'', 0x0020), (''KeyF'', 0x0021),
     (''KeyG'', 0x0022), (''KeyH'', 0x0023), (''KeyJ'', 0x0024), (''KeyK'', 0x0025),
     (''KeyL'', 0x0026), (''Semicolon'', 0x0027), (''Quote'', 0x0028),
     (''Backquote'', 0x0029), (''ShiftLeft'', 0x002A), (''Backslash'', 0x002B),
     (''KeyZ'', 0x002C), (''KeyX'', 0x002D), (''KeyC'', 0x002E), (''KeyV'', 0x002F),
     (''KeyB'', 0x0030), (''KeyN'', 0x0031), (''KeyM'', 0x0032), (''Comma'', 0x0033),
     (''Period'', 0x0034), (''Slash'', 0x0035), (''ShiftRight'', 0x0036),
     (''NumpadMultiply'', 0x0037), (''AltLeft'', 0x0038), (''Space'', 0x0039),
     (''CapsLock'', 0x003A), (''F1'', 0x003B), (''F2'', 0x003C), (''F3'', 0x003D),
     (''F4'', 0x003E), (''F5'', 0x003F), (''F6'', 0x0040), (''F7'', 0x0041), (''F8'', 0x0042),
     (''F9'', 0x0043), (''F10'', 0x0044), (''Pause'', 0x0045), (''ScrollLock'', 0x0046),
     (''Numpad7'', 0x0047), (''Numpad8'', 0x0048), (''Numpad9'', 0x0049),
     (''NumpadSubtract'', 0x004A), (''Numpad4'', 0x004B), (''Numpad5'', 0x004C),
     (''Numpad6'', 0x004D), (''NumpadAdd'', 0x004E), (''Numpad1'', 0x004F)]"

definition documented_keys_2 :: "(string \<times> int) list" where
  "documented_keys_2 =
    [(''Numpad2'', 0x0050), (''Numpad3'', 0x0051), (''Numpad0'', 0x0052),
     (''NumpadDecimal'', 0x0053), (''PrintScreen'', 0x0054), (''IntlBackslash'', 0x0056),
     (''F11'', 0x0057), (''F12'', 0x0058), (''NumpadEqual'', 0x0059), (''F13'', 0x0064),
     (''F14'', 0x0065), (''F15'', 0x0066), (''F16'', 0x0067), (''F17'', 0x0068),
     (''F18'', 0x0069), (''F19'', 0x006A), (''F20'', 0x006B), (''F21'', 0x006C),
     (''F22'', 0x006D), (''F23'', 0x006E), (''KanaMode'', 0x0070), (''Lang2'', 0x0071),
     (''Lang1'', 0x0072), (''IntlRo'', 0x0073), (''F24'', 0x0076), (''Convert'', 0x0079),
     (''NonConvert'', 0x007B), (''IntlYen'', 0x007D), (''NumpadComma'', 0x007E),
     (''Paste'', 0xE00A), (''MediaTrackPrevious'', 0xE010), (''Cut'', 0xE017),
     (''Copy'', 0xE018), (''MediaTrackNext'', 0xE019), (''NumpadEnter'', 0xE01C),
     (''ControlRight'', 0xE01D), (''AudioVolumeMute'', 0xE020), (''VolumeMute'', 0xE020),
     (''LaunchApp2'', 0xE021), (''MediaPlayPause'', 0xE022), (''MediaStop'', 0xE024),
     (''Eject'', 0xE02C), (''AudioVolumeDown'', 0xE02E), (''VolumeDown'', 0xE02E),
     (''AudioVolumeUp'', 0xE030), (''VolumeUp'', 0xE030), (''BrowserHome'', 0xE032),
     (''NumpadDivide'', 0xE035), (''AltRight'', 0xE038), (''Help'', 0xE03B),
     (''NumLock'', 0xE045), (''Home'', 0xE047), (''ArrowUp'', 0xE048), (''PageUp'', 0xE049),
     (''ArrowLeft'', 0xE04B), (''ArrowRight'', 0xE04D), (''End'', 0xE04F),
     (''ArrowDown'', 0xE050), (''PageDown'', 0xE051), (''Insert'', 0xE052),
     (''Delete'', 0xE053), (''MetaLeft'', 0xE05B), (''OSLeft'', 0xE05B),
     (''MetaRight'', 0xE05C), (''OSRight'', 0xE05C), (''ContextMenu'', 0xE05D),
     (''Power'', 0xE05E), (''BrowserSearch'', 0xE065), (''BrowserFavorites'', 0xE066),
     (''BrowserRefresh'', 0xE067), (''BrowserStop'', 0xE068), (''BrowserForward'', 0xE069),
     (''BrowserBack'', 0xE06A), (''LaunchApp1'', 0xE06B), (''LaunchMail'', 0xE06C),
     (''LaunchMediaPlayer'', 0xE06D), (''MediaSelect'', 0xE06D)]"


lemma documented_hashes:
  "map (pk_hash \<circ> fst) documented_keys_1 = map fst pk_hash_table_1"
  "map (pk_hash \<circ> fst) documented_keys_2 = map fst pk_hash_table_2"
  by code_simp+

lemma documented_codes:
  "map snd documented_keys_1 = map snd pk_hash_table_1" "map snd documented_keys_2 = map snd pk_hash_table_2"
  by (simp_all add: documented_keys_1_def documented_keys_2_def pk_hash_table_1_def pk_hash_table_2_def)

lemma pk_hashes_distinct: "distinct (map fst (pk_hash_table_1 @ pk_hash_table_2))"
proof -
  have "distinct (sort (map (\<lambda>x. uint (fst x)) (pk_hash_table_1 @ pk_hash_table_2)))"
    by code_simp
  then have "distinct (map uint (map fst (pk_hash_table_1 @ pk_hash_table_2)))"
    unfolding distinct_sort by (simp add: comp_def)
  then show ?thesis unfolding distinct_map by blast
qed

text \<open>A table that is keyed by the images of the names finds the value of each name.\<close>

lemma map_of_keyed:
  assumes "map (h \<circ> fst) ds = map fst tab" "map snd ds = map snd tab" "(n, c) \<in> set ds"
  shows "(h n, c) \<in> set tab"
proof -
  from assms(3) obtain i where i: "i < length ds" "ds ! i = (n, c)" by (meson in_set_conv_nth)
  then have len: "i < length tab" using assms(1) by (metis length_map)
  have "h n = fst (tab ! i)" using arg_cong [OF assms(1), of "\<lambda>l. l ! i"] i len by simp
  moreover have "c = snd (tab ! i)" using arg_cong [OF assms(2), of "\<lambda>l. l ! i"] i len by simp
  ultimately show ?thesis using len by (metis nth_mem prod.collapse)
qed

text \<open>
  The hash is free of collisions on its documented domain: every key name of the
  comments hashes to the case that stands for it, and so gets its documented code.
\<close>

theorem documented_keys_decode:
  assumes "(name, code) \<in> set (documented_keys_1 @ documented_keys_2)"
  shows "emscripten_compute_dom_pk_code (Some name) = code"
proof -
  have "(pk_hash name, code) \<in> set (pk_hash_table_1 @ pk_hash_table_2)"
    using assms map_of_keyed [OF documented_hashes(1) documented_codes(1)]
      map_of_keyed [OF documented_hashes(2) documented_codes(2)] by auto
  then have "map_of (pk_hash_table_1 @ pk_hash_table_2) (pk_hash name) = Some code"
    using pk_hashes_distinct by (rule map_of_is_SomeI [rotated])
  then show ?thesis by (simp only: emscripten_compute_dom_pk_code_def option.case)
qed

theorem documented_keys_decode_witness: "emscripten_compute_dom_pk_code (Some ''ArrowUp'') = 0xE048"
  by (rule documented_keys_decode) (simp add: documented_keys_2_def)

lemma pk_codes_named: "list_all (\<lambda>(h, code). code \<in> fst ` set (pk_name_table_1 @ pk_name_table_2)) (pk_hash_table_1 @ pk_hash_table_2)"
  by code_simp

lemma pk_names_known: "list_all (\<lambda>(code, s). s \<noteq> ''Unknown DOM_PK code'') (pk_name_table_1 @ pk_name_table_2)"
  by code_simp

lemma pk_zero_named: "0 \<in> fst ` set (pk_name_table_1 @ pk_name_table_2)"
  by code_simp

text \<open>
  Whatever string the browser reports (also none), the code it is given has a name:
  \<open>emscripten_dom_pk_code_to_string\<close> never answers that a computed code is unknown.
\<close>

theorem computed_codes_have_names:
  "emscripten_dom_pk_code_to_string (emscripten_compute_dom_pk_code key) \<noteq> ''Unknown DOM_PK code''"
proof -
  let ?c = "emscripten_compute_dom_pk_code key" and ?names = "pk_name_table_1 @ pk_name_table_2"
  have "?c \<in> fst ` set ?names"
  proof (cases key)
    case None
    then show ?thesis using pk_zero_named by (simp add: emscripten_compute_dom_pk_code_def)
  next
    case (Some s)
    show ?thesis
    proof (cases "map_of (pk_hash_table_1 @ pk_hash_table_2) (pk_hash s)")
      case None
      with Some have "?c = 0" by (simp only: emscripten_compute_dom_pk_code_def option.case)
      then show ?thesis using pk_zero_named by simp
    next
      case (Some c)
      then have "(pk_hash s, c) \<in> set (pk_hash_table_1 @ pk_hash_table_2)" by (rule map_of_SomeD)
      then have "c \<in> fst ` set ?names" using pk_codes_named unfolding list_all_iff by blast
      moreover have "?c = c" using Some \<open>key = Some s\<close> by (simp only: emscripten_compute_dom_pk_code_def option.case)
      ultimately show ?thesis by simp
    qed
  qed
  then obtain s where s: "map_of ?names ?c = Some s"
    by (metis domD dom_map_of_conv_image_fst)
  then have "(?c, s) \<in> set ?names" by (rule map_of_SomeD)
  then have "s \<noteq> ''Unknown DOM_PK code''" using pk_names_known unfolding list_all_iff by blast
  then show ?thesis using s by (simp add: emscripten_dom_pk_code_to_string_def)
qed

end
