(* ===== verification/Wire.thy ===== *)
theory Wire
  imports Prelude
begin

text \<open>
  Bytes on the wire, shared by the two ends of the sockets bridge: the little-endian integers
  of the packed C structs, and the WebSocket framing of
  \<open>tools/websocket_to_posix_proxy/src/websocket_to_posix_proxy.c\<close>.
\<close>

section \<open>Integers in structs\<close>

definition le32 :: "u32 \<Rightarrow> u8 list" where
  "le32 x = [ucast x, ucast (drop_bit 8 x), ucast (drop_bit 16 x), ucast (drop_bit 24 x)]"

definition of_le32 :: "u8 \<Rightarrow> u8 \<Rightarrow> u8 \<Rightarrow> u8 \<Rightarrow> u32" where
  "of_le32 a b c d = ucast a OR push_bit 8 (ucast b) OR push_bit 16 (ucast c) OR push_bit 24 (ucast d)"

text \<open>A message in memory: what lies behind its last byte is also there to be read.\<close>

type_synonym buffer = "nat \<Rightarrow> u8"

definition rd32 :: "buffer \<Rightarrow> nat \<Rightarrow> u32" where
  "rd32 m i = of_le32 (m i) (m (i + 1)) (m (i + 2)) (m (i + 3))"

definition slice :: "buffer \<Rightarrow> nat \<Rightarrow> nat \<Rightarrow> u8 list" where
  "slice m i n = map m [i..<i + n]"

definition buffer_of :: "u8 list \<Rightarrow> buffer \<Rightarrow> buffer" where
  "buffer_of bs rest = (\<lambda>i. if i < length bs then bs ! i else rest i)"

lemma length_le32 [simp]: "length (le32 x) = 4"
  by (simp add: le32_def)

lemma length_slice [simp]: "length (slice m i n) = n"
  by (simp add: slice_def)

lemma bits_le32:
  "(ucast (ucast x :: u8) :: u32) OR push_bit 8 (ucast (ucast (drop_bit 8 x) :: u8))
     OR push_bit 16 (ucast (ucast (drop_bit 16 x) :: u8)) OR push_bit 24 (ucast (ucast (drop_bit 24 x) :: u8)) = (x :: u32)"
proof (rule bit_word_eqI)
  fix n assume "n < LENGTH(32)"
  then have "n < 8 \<or> 8 \<le> n \<and> n < 16 \<or> 16 \<le> n \<and> n < 24 \<or> 24 \<le> n \<and> n < 32" by auto
  then show "bit ((ucast (ucast x :: u8) :: u32) OR push_bit 8 (ucast (ucast (drop_bit 8 x) :: u8))
     OR push_bit 16 (ucast (ucast (drop_bit 16 x) :: u8)) OR push_bit 24 (ucast (ucast (drop_bit 24 x) :: u8))) n = bit x n"
    by (elim disjE) (auto simp: bit_simps)
qed

lemma of_le32_le32: "of_le32 (le32 x ! 0) (le32 x ! 1) (le32 x ! 2) (le32 x ! 3) = x"
  using bits_le32 [of x] by (simp add: of_le32_def le32_def numeral_2_eq_2 numeral_3_eq_3)

text \<open>Reading back a field of a struct that was serialized in order.\<close>

lemma buffer_skip:
  "length xs \<le> i \<Longrightarrow> buffer_of (xs @ ys) rest i = buffer_of ys (\<lambda>j. rest (length xs + j)) (i - length xs)"
  by (auto simp: buffer_of_def nth_append)

lemma rd32_field:
  "i = length xs \<Longrightarrow> rd32 (buffer_of (xs @ le32 v @ ys) rest) i = v"
  using of_le32_le32 [of v]
  by (simp add: rd32_def buffer_of_def nth_append numeral_2_eq_2 numeral_3_eq_3)

lemma rd32_head [simp]: "rd32 (buffer_of (le32 v @ ys) rest) 0 = v"
  using rd32_field [of 0 "[]"] by simp

lemma rd32_skip:
  assumes "length xs \<le> i"
  shows "rd32 (buffer_of (xs @ ys) rest) i = rd32 (buffer_of ys (\<lambda>j. rest (length xs + j))) (i - length xs)"
proof -
  have "buffer_of (xs @ ys) rest (i + k) = buffer_of ys (\<lambda>j. rest (length xs + j)) (i - length xs + k)" for k
    using buffer_skip [of xs "i + k" ys rest] assms by (simp only: Nat.add_diff_assoc2 trans_le_add1)
  from this [of 0] this [of 1] this [of 2] this [of 3] show ?thesis
    by (simp only: rd32_def add_0_right)
qed

lemma rd32_next [simp]:
  "4 \<le> i \<Longrightarrow> rd32 (buffer_of (le32 v @ ys) rest) i = rd32 (buffer_of ys (\<lambda>j. rest (4 + j))) (i - 4)"
  using rd32_skip [of "le32 v" i ys rest] by simp

lemma slice_skip:
  assumes "length xs \<le> i"
  shows "slice (buffer_of (xs @ ys) rest) i n = slice (buffer_of ys (\<lambda>j. rest (length xs + j))) (i - length xs) n"
  using assms by (intro nth_equalityI) (simp_all add: slice_def buffer_skip)

lemma slice_all: "n = length ys \<Longrightarrow> slice (buffer_of ys rest) 0 n = ys"
  by (intro nth_equalityI) (simp_all add: slice_def buffer_of_def)

lemma slice_take: "n \<le> length ys \<Longrightarrow> slice (buffer_of ys rest) 0 n = take n ys"
  by (intro nth_equalityI) (simp_all add: slice_def buffer_of_def)

section \<open>Byte order and framing\<close>

definition ntohl :: "u32 \<Rightarrow> u32" where
  "ntohl x = of_le32 (le32 x ! 3) (le32 x ! 2) (le32 x ! 1) (le32 x ! 0)"

definition ntoh64 :: "u64 \<Rightarrow> u64" where
  "ntoh64 x = ucast (ntohl (ucast (drop_bit 32 x))) OR push_bit 32 (ucast (ntohl (ucast (x AND 0xFFFFFFFF))))"

definition htons :: "u16 \<Rightarrow> u16" where
  "htons x = push_bit 8 x OR drop_bit 8 x"

text \<open>The bytes of a \<open>uint16_t\<close> and a \<open>uint64_t\<close> stored on the little-endian host.\<close>

definition le16 :: "u16 \<Rightarrow> u8 list" where
  "le16 x = [ucast x, ucast (drop_bit 8 x)]"

definition le64 :: "u64 \<Rightarrow> u8 list" where
  "le64 x = le32 (ucast x) @ le32 (ucast (drop_bit 32 x))"

text \<open>
  The header that \<open>SendWebSocketMessage\<close> builds: \<open>opcode = 2\<close> and \<open>fin = 1\<close> in the first byte, the
  7-bit length and \<open>mask = 0\<close> in the second, then the extended length.
\<close>

definition websocket_header :: "u64 \<Rightarrow> u8 list" where
  "websocket_header numBytes =
     (if numBytes < 126 then [0x82, ucast numBytes]
      else if numBytes \<le> 65535 then [0x82, 126] @ le16 (htons (ucast numBytes))
      else [0x82, 127] @ le64 (ntoh64 numBytes))"

text \<open>
  \<open>WebSocketMessageUnmaskPayload\<close>: whole words first, the remaining bytes one by one. The
  constant \<open>~3u\<close> is 32 bits wide, so the upper half of the length is masked away in the bound of
  the word loop.
\<close>

fun unmask_words :: "nat \<Rightarrow> u32 \<Rightarrow> u8 list \<Rightarrow> u8 list" where
  "unmask_words (Suc n) maskingKey (a # b # c # d # rest) =
     le32 (of_le32 a b c d XOR maskingKey) @ unmask_words n maskingKey rest"
| "unmask_words n maskingKey bytes = bytes"

definition WebSocketMessageUnmaskPayload :: "u8 list \<Rightarrow> u32 \<Rightarrow> u8 list" where
  "WebSocketMessageUnmaskPayload payload maskingKey =
     (let payloadLength = word_of_nat (length payload) :: u64;
          words = unat (payloadLength AND 0xFFFFFFFC) div 4;
          maskingKey8 = le32 maskingKey;
          payload1 = unmask_words words maskingKey payload
      in take (4 * words) payload1 @
         map (\<lambda>i. payload1 ! i XOR maskingKey8 ! (i mod 4)) [4 * words..<length payload])"

section \<open>Correctness\<close>

text \<open>RFC 6455, section 5.3: byte \<open>i\<close> of the payload is masked with byte \<open>i mod 4\<close> of the key.\<close>

definition mask_bytes :: "u32 \<Rightarrow> u8 list \<Rightarrow> u8 list" where
  "mask_bytes key bs = map (\<lambda>i. bs ! i XOR le32 key ! (i mod 4)) [0..<length bs]"

lemma le32_xor_bytes: "le32 (x XOR y) = map2 (XOR) (le32 x) (le32 y)"
  by (simp add: le32_def) (intro conjI bit_word_eqI; auto simp: bit_simps)

lemma byte_bits: "\<not> bit (a :: u8) (8 + n)" "\<not> bit (a :: u8) (16 + n)" "\<not> bit (a :: u8) (24 + n)"
  using bit_imp_le_length [of a] by fastforce+

lemma le32_of_le32: "le32 (of_le32 a b c d) = [a, b, c, d]"
  by (simp add: le32_def of_le32_def)
     (intro conjI bit_word_eqI; auto simp: bit_simps byte_bits)

lemma length_unmask_words [simp]: "length (unmask_words n k bs) = length bs"
  by (induction n k bs rule: unmask_words.induct) simp_all

lemma four_times_small:
  "4 * n \<le> Suc 0 \<longleftrightarrow> n = (0 :: nat)" "4 * n \<le> Suc (Suc 0) \<longleftrightarrow> n = (0 :: nat)"
  "4 * n \<le> Suc (Suc (Suc 0)) \<longleftrightarrow> n = (0 :: nat)"
  by presburger+

lemma nth_unmask_words:
  "i < length bs \<Longrightarrow> 4 * n \<le> length bs \<Longrightarrow>
     unmask_words n k bs ! i = (if i < 4 * n then bs ! i XOR le32 k ! (i mod 4) else bs ! i)"
proof (induction n k bs arbitrary: i rule: unmask_words.induct)
  case (1 n k a b c d rest)
  have w: "le32 (of_le32 a b c d XOR k) = map2 (XOR) [a, b, c, d] (le32 k)"
    by (simp only: le32_xor_bytes le32_of_le32)
  show ?case
  proof (cases "i < 4")
    case True
    then have "i = 0 \<or> i = 1 \<or> i = 2 \<or> i = 3" by auto
    then show ?thesis unfolding unmask_words.simps w
      by (elim disjE) (simp_all add: nth_append nth_Cons' le32_def)
  next
    case False
    then obtain j where j: "i = j + 4" using le_Suc_ex [of 4 i] by (auto simp: add.commute)
    have "unmask_words (Suc n) k (a # b # c # d # rest) ! i = unmask_words n k rest ! j"
      by (simp add: j nth_append)
    moreover have "(a # b # c # d # rest) ! i = rest ! j" by (simp add: j numeral_eq_Suc)
    moreover have "i mod 4 = j mod 4" by (simp add: j)
    ultimately show ?thesis using 1(1) [of j] 1(2,3) by (simp add: j)
  qed
qed (auto simp: four_times_small)

lemma length_and_le: "unat (w AND v) \<le> unat (w :: u64)"
  by (simp add: word_le_nat_alt [symmetric] word_and_le2)

lemma unmask_is_mask': "length bs < 2 ^ 64 \<Longrightarrow> WebSocketMessageUnmaskPayload bs key = mask_bytes key bs"
proof -
  assume len: "length bs < 2 ^ 64"
  define n where "n = unat ((word_of_nat (length bs) :: u64) AND 0xFFFFFFFC) div 4"
  have "unat (word_of_nat (length bs) :: u64) = length bs"
    using len by (simp add: unsigned_of_nat take_bit_nat_eq_self)
  then have "4 * n \<le> length bs"
    unfolding n_def using length_and_le [of "word_of_nat (length bs)" "0xFFFFFFFC"] by linarith
  note b = this
  have eq: "WebSocketMessageUnmaskPayload bs key = take (4 * n) (unmask_words n key bs) @
      map (\<lambda>i. unmask_words n key bs ! i XOR le32 key ! (i mod 4)) [4 * n..<length bs]"
    by (simp only: WebSocketMessageUnmaskPayload_def n_def Let_def)
  show ?thesis
  proof (rule nth_equalityI)
    show "length (WebSocketMessageUnmaskPayload bs key) = length (mask_bytes key bs)"
      using b unfolding eq mask_bytes_def by simp
    fix i assume "i < length (WebSocketMessageUnmaskPayload bs key)"
    then have i: "i < length bs" using b unfolding eq by simp
    show "WebSocketMessageUnmaskPayload bs key ! i = mask_bytes key bs ! i"
      using i b nth_unmask_words [OF i b, of key] unfolding eq mask_bytes_def
      by (cases "i < 4 * n") (simp_all add: nth_append)
  qed
qed

lemma mask_bytes_twice: "mask_bytes key (mask_bytes key bs) = bs"
  by (intro nth_equalityI) (simp_all add: mask_bytes_def xor.assoc)


section \<open>The frame header, read by the rules of RFC 6455\<close>

definition big_endian :: "u8 list \<Rightarrow> nat" where
  "big_endian bs = foldl (\<lambda>v b. v * 256 + unat b) 0 bs"

text \<open>Header size and payload length of an unmasked frame (section 5.2 of the RFC).\<close>

fun frame_header :: "u8 list \<Rightarrow> (nat \<times> nat) option" where
  "frame_header (b0 # b1 # bs) =
     (if bit b1 7 then None
      else if unat b1 < 126 then Some (2, unat b1)
      else if unat b1 = 126 then (if length bs < 2 then None else Some (4, big_endian (take 2 bs)))
      else if length bs < 8 then None else Some (10, big_endian (take 8 bs)))"
| "frame_header _ = None"

lemma ntohl_bytes: "le32 (ntohl x) = rev (le32 x)"
  by (simp add: ntohl_def le32_of_le32) (simp add: le32_def numeral_2_eq_2 numeral_3_eq_3)

lemma le64_ntoh64: "le64 (ntoh64 x) = rev (le64 x)"
proof -
  have lo: "(ucast (ntoh64 x) :: u32) = ntohl (ucast (drop_bit 32 x))"
    by (rule bit_word_eqI) (auto simp: ntoh64_def bit_simps)
  have hi: "(ucast (drop_bit 32 (ntoh64 x)) :: u32) = ntohl (ucast (x AND 0xFFFFFFFF))"
  proof (rule bit_word_eqI)
    fix n assume "n < LENGTH(32)"
    moreover have "\<not> bit (ntohl (ucast (drop_bit 32 x))) (32 + n)"
      using bit_imp_le_length by fastforce
    ultimately show "bit (ucast (drop_bit 32 (ntoh64 x)) :: u32) n = bit (ntohl (ucast (x AND 0xFFFFFFFF))) n"
      by (simp add: ntoh64_def bit_simps)
  qed
  have m: "(0xFFFFFFFF :: u64) = mask 32" by (simp add: mask_eq_exp_minus_1)
  have "(ucast (x AND 0xFFFFFFFF) :: u32) = ucast x"
    unfolding m by (rule bit_word_eqI) (simp add: bit_simps)
  with lo hi show ?thesis by (simp add: le64_def ntohl_bytes)
qed

lemma big_endian_from: "foldl (\<lambda>v b. v * 256 + unat b) a ys = a * 256 ^ length ys + big_endian ys"
proof (induction ys arbitrary: a)
  case Nil
  show ?case by (simp add: big_endian_def)
next
  case (Cons y ys)
  have "big_endian (y # ys) = unat y * 256 ^ length ys + big_endian ys"
    unfolding big_endian_def [of "y # ys"] foldl.simps using Cons [of "unat y"] by simp
  then show ?case using Cons [of "a * 256 + unat y"] by (simp add: distrib_right mult.assoc)
qed

lemma big_endian_append: "big_endian (xs @ ys) = big_endian xs * 256 ^ length ys + big_endian ys"
  by (simp only: big_endian_def [of "xs @ ys"] big_endian_def [of xs] foldl_append big_endian_from [of _ ys])

lemma big_endian_le32: "big_endian (rev (le32 x)) = unat x"
proof -
  define n where "n = unat x"
  have byte: "unat (ucast (drop_bit k x) :: u8) = n div 2 ^ k mod 256" for k
    by (simp add: unsigned_ucast_eq take_bit_eq_mod unat_drop_bit n_def)
  have b0: "unat (ucast x :: u8) = n mod 256" using byte [of 0] by simp
  have "n < 2 ^ 32" using unat_lt_2_32 [of x] by (simp add: n_def)
  then have top: "n div 2 ^ 24 mod 256 = n div 2 ^ 24" by (intro mod_less) (simp add: div_less_iff_less_mult)
  moreover have "n div 2 ^ 16 = n div 2 ^ 24 * 256 + n div 2 ^ 16 mod 256"
    by (simp add: div_mult2_eq [of n "2 ^ 16" 256, simplified])
  moreover have "n div 2 ^ 8 = n div 2 ^ 16 * 256 + n div 2 ^ 8 mod 256"
    by (simp add: div_mult2_eq [of n "2 ^ 8" 256, simplified])
  moreover have "n = n div 2 ^ 8 * 256 + n mod 256" by simp
  ultimately have "((n div 2 ^ 24 * 256 + n div 2 ^ 16 mod 256) * 256 + n div 2 ^ 8 mod 256) * 256 + n mod 256 = n"
    by metis
  then show ?thesis using top by (simp add: big_endian_def le32_def byte b0 n_def [symmetric])
qed

lemma big_endian_le64: "big_endian (rev (le64 x)) = unat x"
proof -
  have "unat (ucast (drop_bit 32 x) :: u32) = unat x div 2 ^ 32"
  proof -
    have "unat x div 2 ^ 32 < 2 ^ 32"
      using unsigned_less [of x, where ?'a = nat] by (simp add: div_less_iff_less_mult)
    then show ?thesis by (simp add: unat_ucast_u32 unat_drop_bit)
  qed
  moreover have "unat (ucast x :: u32) = unat x mod 2 ^ 32" by (rule unat_ucast_u32)
  ultimately show ?thesis by (simp add: le64_def big_endian_append big_endian_le32)
qed

lemma le16_htons: "le16 (htons x) = [ucast (drop_bit 8 x), ucast x]"
  by (simp add: le16_def htons_def) (intro conjI bit_word_eqI; auto simp: bit_simps)

lemma frame_header_correct':
  "frame_header (websocket_header n @ payload) = Some (length (websocket_header n), unat n)"
proof -
  consider (small) "n < 126" | (mid) "\<not> n < 126" "n \<le> 65535" | (large) "\<not> n \<le> 65535" "\<not> n < 126"
    by (metis le_less_linear le_less_trans less_irrefl)
  then show ?thesis
  proof cases
    case small
    then have l: "unat n < 126" by (simp add: word_less_nat_alt)
    then have u: "unat (ucast n :: u8) = unat n" by (simp add: unsigned_ucast_eq take_bit_nat_eq_self)
    have "\<not> bit (ucast n :: u8) 7" using l by (simp add: bit_iff_odd_unat u)
    then show ?thesis using small l u by (simp add: websocket_header_def)
  next
    case mid
    then have l: "unat n < 2 ^ 16" by (simp add: word_le_nat_alt)
    then have u: "unat (ucast n :: u16) = unat n" by (simp add: unsigned_ucast_eq take_bit_nat_eq_self)
    have "unat (ucast (drop_bit 8 (ucast n :: u16)) :: u8) = unat n div 256"
      using l by (simp add: unsigned_ucast_eq take_bit_eq_mod unat_drop_bit u div_less_iff_less_mult)
    moreover have "unat (ucast (ucast n :: u16) :: u8) = unat n mod 256"
      by (simp add: unsigned_ucast_eq [of "ucast n :: u16"] u take_bit_eq_mod)
    ultimately have "big_endian [ucast (drop_bit 8 (ucast n :: u16)), ucast (ucast n :: u16)] = unat n"
      by (simp add: big_endian_def)
    moreover have "\<not> bit (126 :: u8) 7" by (simp add: bit_iff_odd_unat)
    ultimately show ?thesis using mid by (simp add: websocket_header_def le16_htons)
  next
    case large
    have "\<not> bit (127 :: u8) 7" by (simp add: bit_iff_odd_unat)
    moreover have "length (le64 (ntoh64 n)) = 8" by (simp add: le64_def)
    ultimately show ?thesis
      using large big_endian_le64 [of n] by (simp add: websocket_header_def le64_ntoh64)
  qed
qed

text \<open>
  Whatever the size of a reply, the header that \<open>SendWebSocketMessage\<close> puts in front of
  it is a well-formed unmasked frame header, and a reader that follows RFC 6455 finds the
  payload at its end and the payload's exact length in it.
\<close>

theorem frame_header_correct:
  "frame_header (websocket_header n @ payload) = Some (length (websocket_header n), unat n)"
  by (rule frame_header_correct')

text \<open>
  The word-by-word unmasking is the bytewise masking of RFC 6455 for payloads of every
  length (also those that are no multiple of 4, and those whose length needs more than 32 bits).
\<close>

theorem unmask_is_mask:
  assumes "length bs < 2 ^ 64"
  shows "WebSocketMessageUnmaskPayload bs key = mask_bytes key bs \<and>
    mask_bytes key (WebSocketMessageUnmaskPayload bs key) = bs"
  using unmask_is_mask' [OF assms] mask_bytes_twice by simp

theorem unmask_is_mask_witness:
  "WebSocketMessageUnmaskPayload [1, 2, 3, 4, 5] 0x04030201 = [0, 0, 0, 0, 4]"
proof -
  have "WebSocketMessageUnmaskPayload [1, 2, 3, 4, 5] 0x04030201 = mask_bytes 0x04030201 [1, 2, 3, 4, 5]"
    using unmask_is_mask [of "[1, 2, 3, 4, 5]" "0x04030201"] by simp
  then show ?thesis by (simp only:) code_simp
qed

end
