(* ===== verification/Posix_Proxy.thy ===== *)
theory Posix_Proxy
  imports Wire
begin

text \<open>
  The server end of the sockets bridge:
  \<open>tools/websocket_to_posix_proxy/src/websocket_to_posix_proxy.c\<close>. A message from a client is a
  serialized socket call; the handler of its function translates the constants of musl to
  those of the host, makes the call if the socket belongs to the connection, and sends the
  serialized result. The operating system and the values of the host's macros are parameters.
\<close>

section \<open>The host\<close>

text \<open>A macro of the host; \<^const>\<open>None\<close> when it is not defined (the code then skips the case).\<close>

type_synonym host = "string \<Rightarrow> u32 option"

record addrinfo =
  ai_flags :: u32
  ai_family :: u32
  ai_socktype :: u32
  ai_protocol :: u32
  ai_addr :: "u8 list"

text \<open>
  The socket calls. Each takes the world and gives its result, the value of \<open>errno\<close> after it and
  the new world. A call that fills a buffer gives the bytes it wrote and the updated length.
\<close>

record 'w posix =
  px_host :: host
  px_socket :: "u32 \<Rightarrow> u32 \<Rightarrow> u32 \<Rightarrow> 'w \<Rightarrow> u32 \<times> u32 \<times> 'w"
  px_socketpair :: "u32 \<Rightarrow> u32 \<Rightarrow> u32 \<Rightarrow> 'w \<Rightarrow> (u32 \<times> u32 \<times> u32) \<times> u32 \<times> 'w"
  px_shutdown :: "u32 \<Rightarrow> u32 \<Rightarrow> 'w \<Rightarrow> u32 \<times> u32 \<times> 'w"
  px_close :: "u32 \<Rightarrow> 'w \<Rightarrow> u32 \<times> u32 \<times> 'w"
  px_bind :: "u32 \<Rightarrow> u8 list \<Rightarrow> 'w \<Rightarrow> u32 \<times> u32 \<times> 'w"
  px_connect :: "u32 \<Rightarrow> u8 list \<Rightarrow> 'w \<Rightarrow> u32 \<times> u32 \<times> 'w"
  px_listen :: "u32 \<Rightarrow> u32 \<Rightarrow> 'w \<Rightarrow> u32 \<times> u32 \<times> 'w"
  px_accept :: "u32 \<Rightarrow> u32 option \<Rightarrow> 'w \<Rightarrow> (u32 \<times> u8 list \<times> u32) \<times> u32 \<times> 'w"
  px_getsockname :: "u32 \<Rightarrow> u32 \<Rightarrow> 'w \<Rightarrow> (u32 \<times> u8 list \<times> u32) \<times> u32 \<times> 'w"
  px_getpeername :: "u32 \<Rightarrow> u32 \<Rightarrow> 'w \<Rightarrow> (u32 \<times> u8 list \<times> u32) \<times> u32 \<times> 'w"
  px_send :: "u32 \<Rightarrow> u8 list \<Rightarrow> u32 \<Rightarrow> 'w \<Rightarrow> int \<times> u32 \<times> 'w"
  px_recv :: "u32 \<Rightarrow> u32 \<Rightarrow> u32 \<Rightarrow> 'w \<Rightarrow> (int \<times> u8 list) \<times> u32 \<times> 'w"
  px_sendto :: "u32 \<Rightarrow> u8 list \<Rightarrow> u32 \<Rightarrow> u8 list \<Rightarrow> 'w \<Rightarrow> int \<times> u32 \<times> 'w"
  px_recvfrom :: "u32 \<Rightarrow> u32 \<Rightarrow> u32 \<Rightarrow> u32 \<Rightarrow> 'w \<Rightarrow> (int \<times> u8 list \<times> u8 list \<times> u32) \<times> u32 \<times> 'w"
  px_getsockopt :: "u32 \<Rightarrow> u32 \<Rightarrow> u32 \<Rightarrow> u32 \<Rightarrow> 'w \<Rightarrow> (u32 \<times> u8 list \<times> u32) \<times> u32 \<times> 'w"
  px_setsockopt :: "u32 \<Rightarrow> u32 \<Rightarrow> u32 \<Rightarrow> u8 list \<Rightarrow> 'w \<Rightarrow> u32 \<times> u32 \<times> 'w"
  px_getaddrinfo :: "u8 list \<Rightarrow> u8 list \<Rightarrow> (u32 \<times> u32 \<times> u32 \<times> u32) option \<Rightarrow> 'w \<Rightarrow>
    (u32 \<times> addrinfo list \<times> u8 list option) \<times> u32 \<times> 'w"

text \<open>
  The proxy: \<open>errno\<close>, the sockets of each connection (\<open>socket_registry.cpp\<close>), the chunks sent to
  clients and the messages handed to background threads.
\<close>

record 'w proxy =
  world :: 'w
  os_errno :: u32
  socketsPerProxyConnection :: "u32 \<Rightarrow> u32 list option"
  chunks :: "(u32 \<times> u8 list) list"
  background :: "(u32 \<times> u8 list) list"

definition sys :: "('w \<Rightarrow> 'r \<times> u32 \<times> 'w) \<Rightarrow> 'w proxy \<Rightarrow> 'r \<times> 'w proxy" where
  "sys call s = (case call (world s) of (r, e, w) \<Rightarrow> (r, s\<lparr>world := w, os_errno := e\<rparr>))"

section \<open>The socket registry\<close>

definition IsSocketPartOfConnection :: "u32 \<Rightarrow> u32 \<Rightarrow> 'w proxy \<Rightarrow> bool" where
  "IsSocketPartOfConnection proxyConnection usedSocket s \<longleftrightarrow>
     usedSocket = 0 \<or>
     (case socketsPerProxyConnection s proxyConnection of
        None \<Rightarrow> False | Some sockets \<Rightarrow> usedSocket \<in> set sockets)"

definition registered :: "u32 \<Rightarrow> 'w proxy \<Rightarrow> u32 list" where
  "registered c s = (case socketsPerProxyConnection s c of None \<Rightarrow> [] | Some sockets \<Rightarrow> sockets)"

definition TrackSocketUsedByConnection :: "u32 \<Rightarrow> u32 \<Rightarrow> 'w proxy \<Rightarrow> 'w proxy" where
  "TrackSocketUsedByConnection proxyConnection usedSocket s =
     (if usedSocket = 0 then s
      else if IsSocketPartOfConnection proxyConnection usedSocket s then s
      else s\<lparr>socketsPerProxyConnection :=
        (socketsPerProxyConnection s)(proxyConnection \<mapsto> registered proxyConnection s @ [usedSocket])\<rparr>)"

definition CloseSocketByConnection :: "'w posix \<Rightarrow> u32 \<Rightarrow> u32 \<Rightarrow> 'w proxy \<Rightarrow> 'w proxy" where
  "CloseSocketByConnection px proxyConnection usedSocket s =
     (if \<not> IsSocketPartOfConnection proxyConnection usedSocket s then s
      else
        let s1 = snd (sys (px_close px usedSocket) s)
        in s1\<lparr>socketsPerProxyConnection :=
          (socketsPerProxyConnection s1)(proxyConnection \<mapsto> filter (\<lambda>x. x \<noteq> usedSocket) (registered proxyConnection s1))\<rparr>)"

section \<open>Translation of constants\<close>

text \<open>The values are those of the \<open>MUSL_\<close> macros, the names those of the host's macros.\<close>

definition socket_domain_table :: "(u32 \<times> string) list" where
  "socket_domain_table =
     [(0, ''AF_UNSPEC''), (1, ''AF_LOCAL''), (2, ''AF_INET''), (4, ''AF_IPX''),
      (5, ''AF_APPLETALK''), (10, ''AF_INET6''), (12, ''AF_DECnet''), (22, ''AF_SNA''),
      (34, ''AF_ISDN''), (42, ''AF_MAX'')]"

definition socket_type_table :: "(u32 \<times> string) list" where
  "socket_type_table =
     [(1, ''SOCK_STREAM''), (2, ''SOCK_DGRAM''), (3, ''SOCK_RAW''), (4, ''SOCK_RDM''),
      (5, ''SOCK_SEQPACKET'')]"

definition socket_protocol_table :: "(u32 \<times> string) list" where
  "socket_protocol_table =
     [(0, ''IPPROTO_IP''), (1, ''IPPROTO_ICMP''), (2, ''IPPROTO_IGMP''),
      (4, ''IPPROTO_IPIP''), (6, ''IPPROTO_TCP''), (8, ''IPPROTO_EGP''),
      (12, ''IPPROTO_PUP''), (17, ''IPPROTO_UDP''), (22, ''IPPROTO_IDP''),
      (29, ''IPPROTO_TP''), (41, ''IPPROTO_IPV6''), (43, ''IPPROTO_ROUTING''),
      (44, ''IPPROTO_FRAGMENT''), (46, ''IPPROTO_RSVP''), (47, ''IPPROTO_GRE''),
      (50, ''IPPROTO_ESP''), (51, ''IPPROTO_AH''), (58, ''IPPROTO_ICMPV6''),
      (59, ''IPPROTO_NONE''), (60, ''IPPROTO_DSTOPTS''), (92, ''IPPROTO_MTP''),
      (98, ''IPPROTO_ENCAP''), (103, ''IPPROTO_PIM''), (132, ''IPPROTO_SCTP''),
      (255, ''IPPROTO_RAW'')]"

definition socket_level_table :: "(u32 \<times> string) list" where
  "socket_level_table =
     [(1, ''SOL_SOCKET''), (6, ''IPPROTO_TCP'')]"

definition sol_socket_table :: "(u32 \<times> string) list" where
  "sol_socket_table =
     [(1, ''SO_DEBUG''), (2, ''SO_REUSEADDR''), (3, ''SO_TYPE''), (4, ''SO_ERROR''),
      (5, ''SO_DONTROUTE''), (6, ''SO_BROADCAST''), (7, ''SO_SNDBUF''),
      (8, ''SO_RCVBUF''), (9, ''SO_KEEPALIVE''), (10, ''SO_OOBINLINE''),
      (13, ''SO_LINGER''), (15, ''SO_REUSEPORT''), (18, ''SO_RCVLOWAT''),
      (19, ''SO_SNDLOWAT''), (20, ''SO_RCVTIMEO''), (21, ''SO_SNDTIMEO''),
      (30, ''SO_ACCEPTCONN''), (29, ''SO_TIMESTAMP'')]"

definition tcp_option_table :: "(u32 \<times> string) list" where
  "tcp_option_table =
     [(1, ''TCP_NODELAY''), (2, ''TCP_MAXSEG''), (5, ''TCP_KEEPINTVL''),
      (6, ''TCP_KEEPCNT''), (23, ''TCP_FASTOPEN''), (25, ''TCP_NOTSENT_LOWAT'')]"

definition shutdown_how_table :: "(u32 \<times> string) list" where
  "shutdown_how_table =
     [(0, ''SHUTDOWN_READ''), (1, ''SHUTDOWN_WRITE''), (2, ''SHUTDOWN_BIDIRECTIONAL'')]"

text \<open>An unknown value, or one whose macro the host lacks, is reported and passed on unchanged.\<close>

definition translate :: "host \<Rightarrow> (u32 \<times> string) list \<Rightarrow> u32 \<Rightarrow> u32" where
  "translate h table v =
     (case map_of table v of
        None \<Rightarrow> v
      | Some name \<Rightarrow> (case h name of Some k \<Rightarrow> k | None \<Rightarrow> v))"

definition Translate_Socket_Domain :: "host \<Rightarrow> u32 \<Rightarrow> u32" where
  "Translate_Socket_Domain h domain = translate h socket_domain_table domain"

definition Translate_Socket_Type :: "host \<Rightarrow> u32 \<Rightarrow> u32" where
  "Translate_Socket_Type h type =
     (let type1 = (if type AND 0x80000 \<noteq> 0 then type AND NOT 0x80000 else type);
          type2 = (if type1 AND 0x800 \<noteq> 0 then type1 AND NOT 0x800 else type1)
      in translate h socket_type_table type2)"

definition Translate_Socket_Protocol :: "host \<Rightarrow> u32 \<Rightarrow> u32" where
  "Translate_Socket_Protocol h protocol = translate h socket_protocol_table protocol"

definition Translate_Socket_Level :: "host \<Rightarrow> u32 \<Rightarrow> u32" where
  "Translate_Socket_Level h level = translate h socket_level_table level"

definition Translate_SOL_SOCKET_option :: "host \<Rightarrow> u32 \<Rightarrow> u32" where
  "Translate_SOL_SOCKET_option h sockopt = translate h sol_socket_table sockopt"

definition Translate_IPPROTO_TCP_option :: "host \<Rightarrow> u32 \<Rightarrow> u32" where
  "Translate_IPPROTO_TCP_option h sockopt = translate h tcp_option_table sockopt"

definition Translate_Shutdown_How :: "host \<Rightarrow> u32 \<Rightarrow> u32" where
  "Translate_Shutdown_How h how = translate h shutdown_how_table how"

section \<open>Replies\<close>

definition SendWebSocketMessage :: "u32 \<Rightarrow> u8 list \<Rightarrow> 'w proxy \<Rightarrow> 'w proxy" where
  "SendWebSocketMessage client_fd buf s =
     s\<lparr>chunks := chunks s @ [(client_fd, websocket_header (word_of_nat (length buf))), (client_fd, buf)]\<rparr>"

text \<open>The struct \<open>{callId, ret, errno_}\<close> that begins every reply.\<close>

definition result_header :: "u32 \<Rightarrow> u32 \<Rightarrow> u32 \<Rightarrow> u8 list" where
  "result_header callId ret err = le32 callId @ le32 ret @ le32 err"

text \<open>
  A reply with \<open>n\<close> bytes behind its header: the size is an \<open>int\<close>, and one that overflows makes
  \<open>malloc\<close> fail and the handler write through the null pointer, which is \<^const>\<open>None\<close>.
\<close>

definition reply :: "u32 \<Rightarrow> u8 list \<Rightarrow> nat \<Rightarrow> buffer \<Rightarrow> 'w proxy \<Rightarrow> 'w proxy option" where
  "reply client_fd header n source s =
     (if 2 ^ 31 \<le> length header + n then None
      else Some (SendWebSocketMessage client_fd (header @ slice source 0 n) s))"

definition call_id :: "buffer \<Rightarrow> u32" where "call_id d = rd32 d 0"
definition socket_of :: "buffer \<Rightarrow> u32" where "socket_of d = rd32 d 8"

section \<open>The handlers\<close>

definition Socket :: "'w posix \<Rightarrow> u32 \<Rightarrow> buffer \<Rightarrow> 'w proxy \<Rightarrow> 'w proxy" where
  "Socket px client_fd d s =
     (let domain = Translate_Socket_Domain (px_host px) (rd32 d 8);
          type = Translate_Socket_Type (px_host px) (rd32 d 12);
          protocol = Translate_Socket_Protocol (px_host px) (rd32 d 16);
          (ret, s1) = sys (px_socket px domain type protocol) s;
          errorCode = (if sint ret < 0 then os_errno s1 else 0);
          s2 = (if errorCode = 0 then TrackSocketUsedByConnection client_fd ret s1 else s1)
      in SendWebSocketMessage client_fd (result_header (call_id d) ret errorCode) s2)"

definition Socketpair :: "'w posix \<Rightarrow> u32 \<Rightarrow> buffer \<Rightarrow> 'w proxy \<Rightarrow> 'w proxy" where
  "Socketpair px client_fd d s =
     (let domain = Translate_Socket_Domain (px_host px) (rd32 d 8);
          type = Translate_Socket_Type (px_host px) (rd32 d 12);
          protocol = Translate_Socket_Protocol (px_host px) (rd32 d 16);
          ((ret, sv0, sv1), s1) = sys (px_socketpair px domain type protocol) s;
          errorCode = (if ret \<noteq> 0 then os_errno s1 else 0);
          s2 = (if errorCode = 0
                then TrackSocketUsedByConnection client_fd sv1 (TrackSocketUsedByConnection client_fd sv0 s1)
                else s1)
      in SendWebSocketMessage client_fd (result_header (call_id d) ret errorCode @ le32 sv0 @ le32 sv1) s2)"

definition Shutdown :: "'w posix \<Rightarrow> u32 \<Rightarrow> buffer \<Rightarrow> 'w proxy \<Rightarrow> 'w proxy" where
  "Shutdown px client_fd d s =
     (let how = Translate_Shutdown_How (px_host px) (rd32 d 12);
          (ret, s1) =
            (if IsSocketPartOfConnection client_fd (socket_of d) s
             then
               let (ret, s1) = sys (px_shutdown px (socket_of d) how) s;
                   errorCode = (if ret \<noteq> 0 then os_errno s1 else 0)
               in (ret, if errorCode = 0 \<and> Some how = px_host px ''SHUTDOWN_BIDIRECTIONAL''
                        then CloseSocketByConnection px client_fd (socket_of d) s1 else s1)
             else (- 1, s))
      in SendWebSocketMessage client_fd
           (result_header (call_id d) ret (if ret \<noteq> 0 then os_errno s1 else 0)) s1)"

text \<open>\<open>address_len\<close> is not compared with the size of the message.\<close>

definition Bind :: "'w posix \<Rightarrow> u32 \<Rightarrow> buffer \<Rightarrow> 'w proxy \<Rightarrow> 'w proxy" where
  "Bind px client_fd d s =
     (let (ret, s1) =
            (if IsSocketPartOfConnection client_fd (socket_of d) s
             then sys (px_bind px (socket_of d) (slice d 16 (unat (rd32 d 12)))) s
             else (- 1, s))
      in SendWebSocketMessage client_fd
           (result_header (call_id d) ret (if ret \<noteq> 0 then os_errno s1 else 0)) s1)"

definition Connect :: "'w posix \<Rightarrow> u32 \<Rightarrow> buffer \<Rightarrow> u64 \<Rightarrow> 'w proxy \<Rightarrow> 'w proxy" where
  "Connect px client_fd d numBytes s =
     (let actualAddressLen =
            ucast (min (ucast (rd32 d 12)) (ucast (ucast numBytes :: u32) - 16 :: u64)) :: u32;
          (ret, s1) =
            (if IsSocketPartOfConnection client_fd (socket_of d) s
             then sys (px_connect px (socket_of d) (slice d 16 (unat actualAddressLen))) s
             else (- 1, s))
      in SendWebSocketMessage client_fd
           (result_header (call_id d) ret (if ret \<noteq> 0 then os_errno s1 else 0)) s1)"

definition Listen :: "'w posix \<Rightarrow> u32 \<Rightarrow> buffer \<Rightarrow> 'w proxy \<Rightarrow> 'w proxy" where
  "Listen px client_fd d s =
     (let (ret, s1) =
            (if IsSocketPartOfConnection client_fd (socket_of d) s
             then sys (px_listen px (socket_of d) (rd32 d 12)) s
             else (- 1, s))
      in SendWebSocketMessage client_fd
           (result_header (call_id d) ret (if ret \<noteq> 0 then os_errno s1 else 0)) s1)"

text \<open>The address buffer of \<open>Accept\<close> is zeroed, and the length is clamped to its 256 bytes.\<close>

definition Accept :: "'w posix \<Rightarrow> u32 \<Rightarrow> buffer \<Rightarrow> 'w proxy \<Rightarrow> 'w proxy option" where
  "Accept px client_fd d s =
     (let address_len = rd32 d 12;
          addressLen0 = max 0 (min address_len 256);
          (ret, errorCode, address, addressLen, s1) =
            (if IsSocketPartOfConnection client_fd (socket_of d) s
             then
               let ((ret, bytes, len), s1) =
                     sys (px_accept px (socket_of d) (if address_len \<noteq> 0 then Some addressLen0 else None)) s;
                   errorCode = (if sint ret < 0 then os_errno s1 else 0)
               in (ret, errorCode, bytes, if address_len \<noteq> 0 then len else addressLen0,
                   if 0 < sint ret then TrackSocketUsedByConnection client_fd ret s1 else s1)
             else (- 1, - 1, [], 0, s))
      in reply client_fd (result_header (call_id d) ret errorCode @ le32 addressLen)
           (unat (min addressLen address_len)) (buffer_of address (\<lambda>i. 0)) s1)"

text \<open>
  The address buffers of the next two handlers are not initialized: \<open>stack\<close> is what is in memory
  from the start of the buffer on, and bytes the call did not write are taken from there.
\<close>

definition Getsockname :: "'w posix \<Rightarrow> buffer \<Rightarrow> u32 \<Rightarrow> buffer \<Rightarrow> 'w proxy \<Rightarrow> 'w proxy option" where
  "Getsockname px stack client_fd d s =
     (let address_len = rd32 d 12;
          (ret, errorCode, address, addressLen, s1) =
            (if IsSocketPartOfConnection client_fd (socket_of d) s
             then
               let ((ret, bytes, len), s1) = sys (px_getsockname px (socket_of d) address_len) s
               in (ret, if ret \<noteq> 0 then os_errno s1 else 0, bytes, len, s1)
             else (- 1, - 1, [], 0, s))
      in reply client_fd (result_header (call_id d) ret errorCode @ le32 addressLen)
           (unat (min addressLen address_len)) (buffer_of address stack) s1)"

definition Getpeername :: "'w posix \<Rightarrow> buffer \<Rightarrow> u32 \<Rightarrow> buffer \<Rightarrow> 'w proxy \<Rightarrow> 'w proxy option" where
  "Getpeername px stack client_fd d s =
     (let address_len = rd32 d 12;
          (ret, errorCode, address, addressLen, s1) =
            (if IsSocketPartOfConnection client_fd (socket_of d) s
             then
               let ((ret, bytes, len), s1) = sys (px_getpeername px (socket_of d) address_len) s
               in (ret, if ret \<noteq> 0 then os_errno s1 else 0, bytes, len, s1)
             else (- 1, - 1, [], 0, s))
      in reply client_fd (result_header (call_id d) ret errorCode @ le32 addressLen)
           (unat (min addressLen address_len)) (buffer_of address stack) s1)"

text \<open>\<open>(int)numBytes - sizeof(MSG)\<close> is computed in 64-bit unsigned arithmetic.\<close>

definition Send :: "'w posix \<Rightarrow> u32 \<Rightarrow> buffer \<Rightarrow> u64 \<Rightarrow> 'w proxy \<Rightarrow> 'w proxy" where
  "Send px client_fd d numBytes s =
     (let actualBytes = ucast (min (scast (ucast numBytes :: u32) - 20 :: u64) (ucast (rd32 d 12))) :: u32;
          (ret, s1) =
            (if IsSocketPartOfConnection client_fd (socket_of d) s
             then sys (px_send px (socket_of d) (slice d 20 (unat (scast actualBytes :: u64))) (rd32 d 16)) s
             else (- 1, s))
      in SendWebSocketMessage client_fd
           (result_header (call_id d) (word_of_int ret) (if ret \<noteq> 0 then os_errno s1 else 0)) s1)"

text \<open>The receive buffers come from \<open>malloc\<close>: \<open>heap\<close> is what is in them.\<close>

definition Recv :: "'w posix \<Rightarrow> buffer \<Rightarrow> u32 \<Rightarrow> buffer \<Rightarrow> 'w proxy \<Rightarrow> 'w proxy option" where
  "Recv px heap client_fd d s =
     (let (ret, errorCode, bytes, receivedBytes, s1) =
            (if IsSocketPartOfConnection client_fd (socket_of d) s
             then
               let ((ret, bytes), s1) = sys (px_recv px (socket_of d) (rd32 d 12) (rd32 d 16)) s
               in (ret, if ret \<noteq> 0 then os_errno s1 else 0, bytes, nat (max ret 0), s1)
             else (- 1, - 1, [], 0, s))
      in reply client_fd (result_header (call_id d) (word_of_int ret) errorCode)
           receivedBytes (buffer_of bytes heap) s1)"

definition Sendto :: "'w posix \<Rightarrow> u32 \<Rightarrow> buffer \<Rightarrow> 'w proxy \<Rightarrow> 'w proxy" where
  "Sendto px client_fd d s =
     (let (ret, s1) =
            (if IsSocketPartOfConnection client_fd (socket_of d) s
             then sys (px_sendto px (socket_of d) (slice d 280 (unat (rd32 d 12))) (rd32 d 16)
                        (slice d 24 (unat (rd32 d 20)))) s
             else (- 1, s))
      in SendWebSocketMessage client_fd
           (result_header (call_id d) (word_of_int ret) (if ret \<noteq> 0 then os_errno s1 else 0)) s1)"

definition Recvfrom :: "'w posix \<Rightarrow> buffer \<Rightarrow> buffer \<Rightarrow> u32 \<Rightarrow> buffer \<Rightarrow> 'w proxy \<Rightarrow> 'w proxy option" where
  "Recvfrom px heap stack client_fd d s =
     (let wanted = rd32 d 20;
          (ret, errorCode, bytes, receivedBytes, address, address_len, s1) =
            (if IsSocketPartOfConnection client_fd (socket_of d) s
             then
               let ((ret, bytes, address, len), s1) =
                     sys (px_recvfrom px (socket_of d) (rd32 d 12) (rd32 d 16) wanted) s
               in (ret, if ret \<noteq> 0 then os_errno s1 else 0, bytes, nat (max ret 0), address, len, s1)
             else (- 1, - 1, [], 0, [], 0, s));
          actualAddressLen = unat (min address_len wanted);
          content = slice (buffer_of bytes heap) 0 receivedBytes @ slice (buffer_of address stack) 0 actualAddressLen
      in reply client_fd
           (result_header (call_id d) (word_of_int ret) errorCode @ le32 (word_of_nat receivedBytes) @ le32 wanted)
           (receivedBytes + actualAddressLen) (buffer_of content heap) s1)"

text \<open>Not implemented: no reply is sent.\<close>

definition Sendmsg :: "'w proxy \<Rightarrow> 'w proxy" where "Sendmsg s = s"
definition Recvmsg :: "'w proxy \<Rightarrow> 'w proxy" where "Recvmsg s = s"
definition Getnameinfo :: "'w proxy \<Rightarrow> 'w proxy" where "Getnameinfo s = s"

text \<open>The option name is translated as one of \<open>SOL_SOCKET\<close> whatever the level.\<close>

definition Getsockopt :: "'w posix \<Rightarrow> buffer \<Rightarrow> u32 \<Rightarrow> buffer \<Rightarrow> 'w proxy \<Rightarrow> 'w proxy option" where
  "Getsockopt px stack client_fd d s =
     (let level = Translate_Socket_Level (px_host px) (rd32 d 12);
          option_name = Translate_SOL_SOCKET_option (px_host px) (rd32 d 16);
          wanted = rd32 d 20;
          (ret, errorCode, bytes, option_len, s1) =
            (if IsSocketPartOfConnection client_fd (socket_of d) s
             then
               let ((ret, bytes, len), s1) = sys (px_getsockopt px (socket_of d) level option_name wanted) s
               in (ret, if ret \<noteq> 0 then os_errno s1 else 0, bytes, len, s1)
             else (- 1, - 1, [], 0, s))
      in reply client_fd (result_header (call_id d) ret errorCode @ le32 option_len)
           (unat (min option_len wanted)) (buffer_of bytes stack) s1)"

definition Setsockopt :: "'w posix \<Rightarrow> u32 \<Rightarrow> buffer \<Rightarrow> u64 \<Rightarrow> 'w proxy \<Rightarrow> 'w proxy" where
  "Setsockopt px client_fd d numBytes s =
     (let option_len = rd32 d 20;
          rest = ucast (numBytes - 24) :: u32;
          actualOptionLen = (if sint option_len < sint rest then option_len else rest);
          level = Translate_Socket_Level (px_host px) (rd32 d 12);
          option_name =
            (if Some level = px_host px ''SOL_SOCKET'' then Translate_SOL_SOCKET_option (px_host px) (rd32 d 16)
             else if Some level = px_host px ''IPPROTO_TCP'' then Translate_IPPROTO_TCP_option (px_host px) (rd32 d 16)
             else rd32 d 16);
          (ret, s1) =
            (if IsSocketPartOfConnection client_fd (socket_of d) s
             then sys (px_setsockopt px (socket_of d) level option_name (slice d 24 (unat actualOptionLen))) s
             else (- 1, s))
      in SendWebSocketMessage client_fd
           (result_header (call_id d) ret (if ret \<noteq> 0 then os_errno s1 else 0)) s1)"

text \<open>A C string: the search for its end does not stop at the end of the array or message.\<close>

partial_function (option) c_string :: "buffer \<Rightarrow> nat \<Rightarrow> u8 list option" where
  "c_string m i = (if m i = 0 then Some [] else Option.bind (c_string m (i + 1)) (\<lambda>cs. Some (m i # cs)))"

definition strncpy2048 :: "u8 list \<Rightarrow> u8 list" where
  "strncpy2048 cs = take 2047 cs @ replicate (2048 - length (take 2047 cs)) 0"

definition serialize_addrinfo :: "addrinfo \<Rightarrow> u8 list" where
  "serialize_addrinfo ai =
     le32 (ai_flags ai) @ le32 (ai_family ai) @ le32 (ai_socktype ai) @ le32 (ai_protocol ai) @
     le32 (word_of_nat (length (ai_addr ai))) @ ai_addr ai"

text \<open>\<open>node\<close> is at offset 8 and \<open>service\<close> at 2056. A result list on failure would overrun the reply.\<close>

definition Getaddrinfo_reply ::
  "u32 \<Rightarrow> u32 \<Rightarrow> u32 \<times> addrinfo list \<times> u8 list option \<Rightarrow> u32 \<Rightarrow> 'w proxy \<Rightarrow> 'w proxy option" where
  "Getaddrinfo_reply client_fd callId result errorCode s =
     (case result of (ret, res, canonname) \<Rightarrow>
       let ai_canonname = (case canonname of
               Some cs \<Rightarrow> if ret = 0 \<and> res \<noteq> [] then strncpy2048 cs else replicate 2048 0
             | None \<Rightarrow> replicate 2048 0);
           addrCount = (if ret = 0 then length res else 0);
           content = concat (map serialize_addrinfo res)
       in if ret \<noteq> 0 \<and> res \<noteq> [] then None
          else reply client_fd
                 (result_header callId ret errorCode @ ai_canonname @ le32 (word_of_nat addrCount))
                 (length content) (buffer_of content (\<lambda>i. 0)) s)"

definition Getaddrinfo :: "'w posix \<Rightarrow> u32 \<Rightarrow> buffer \<Rightarrow> 'w proxy \<Rightarrow> 'w proxy option" where
  "Getaddrinfo px client_fd d s =
     Option.bind (c_string d 8) (\<lambda>node.
     Option.bind (c_string d 2056) (\<lambda>service.
       let hints = (if rd32 d 2184 \<noteq> 0
                    then Some (rd32 d 2188, rd32 d 2192, rd32 d 2196, rd32 d 2200) else None);
           (result, s1) = sys (px_getaddrinfo px node service hints) s;
           errorCode = (if fst result \<noteq> 0 then os_errno s1 else 0)
       in Getaddrinfo_reply client_fd (call_id d) result errorCode s1))"

section \<open>Dispatch\<close>

definition ProcessWebSocketMessageSynchronouslyInCurrentThread ::
  "'w posix \<Rightarrow> buffer \<Rightarrow> buffer \<Rightarrow> u32 \<Rightarrow> buffer \<Rightarrow> u64 \<Rightarrow> 'w proxy \<Rightarrow> 'w proxy option" where
  "ProcessWebSocketMessageSynchronouslyInCurrentThread px heap stack client_fd payload numBytes s =
     (let function = rd32 payload 4 in
      if function = 1 then Some (Socket px client_fd payload s)
      else if function = 2 then Some (Socketpair px client_fd payload s)
      else if function = 3 then Some (Shutdown px client_fd payload s)
      else if function = 4 then Some (Bind px client_fd payload s)
      else if function = 5 then Some (Connect px client_fd payload numBytes s)
      else if function = 6 then Some (Listen px client_fd payload s)
      else if function = 7 then Accept px client_fd payload s
      else if function = 8 then Getsockname px stack client_fd payload s
      else if function = 9 then Getpeername px stack client_fd payload s
      else if function = 10 then Some (Send px client_fd payload numBytes s)
      else if function = 11 then Recv px heap client_fd payload s
      else if function = 12 then Some (Sendto px client_fd payload s)
      else if function = 13 then Recvfrom px heap stack client_fd payload s
      else if function = 14 then Some (Sendmsg s)
      else if function = 15 then Some (Recvmsg s)
      else if function = 16 then Getsockopt px stack client_fd payload s
      else if function = 17 then Some (Setsockopt px client_fd payload numBytes s)
      else if function = 18 then Getaddrinfo px client_fd payload s
      else if function = 19 then Some (Getnameinfo s)
      else Some s)"

text \<open>A background thread gets a copy of the message; \<open>thread\<close> runs the oldest one.\<close>

definition ProcessWebSocketMessageAsynchronouslyInBackgroundThread ::
  "u32 \<Rightarrow> buffer \<Rightarrow> u64 \<Rightarrow> 'w proxy \<Rightarrow> 'w proxy" where
  "ProcessWebSocketMessageAsynchronouslyInBackgroundThread client_fd payload numBytes s =
     s\<lparr>background := background s @ [(client_fd, slice payload 0 (unat numBytes))]\<rparr>"

definition message_processing_thread ::
  "'w posix \<Rightarrow> buffer \<Rightarrow> buffer \<Rightarrow> buffer \<Rightarrow> 'w proxy \<Rightarrow> 'w proxy option" where
  "message_processing_thread px heap stack rest s =
     (case background s of
        [] \<Rightarrow> Some s
      | (client_fd, payload) # others \<Rightarrow>
          ProcessWebSocketMessageSynchronouslyInCurrentThread px heap stack client_fd
            (buffer_of payload rest) (word_of_nat (length payload)) (s\<lparr>background := others\<rparr>))"

definition ProcessWebSocketMessage ::
  "'w posix \<Rightarrow> buffer \<Rightarrow> buffer \<Rightarrow> u32 \<Rightarrow> buffer \<Rightarrow> u64 \<Rightarrow> 'w proxy \<Rightarrow> 'w proxy option" where
  "ProcessWebSocketMessage px heap stack client_fd payload numBytes s =
     (if numBytes < 8 then Some s
      else if rd32 payload 4 \<in> {11, 13, 15, 5, 7}
      then Some (ProcessWebSocketMessageAsynchronouslyInBackgroundThread client_fd payload numBytes s)
      else ProcessWebSocketMessageSynchronouslyInCurrentThread px heap stack client_fd payload numBytes s)"


section \<open>Correctness\<close>

text \<open>Replies are the only chunks; every other step leaves the log alone.\<close>

lemma chunks_track [simp]: "chunks (TrackSocketUsedByConnection c k s) = chunks s"
  by (simp add: TrackSocketUsedByConnection_def)

lemma chunks_sys [simp]: "sys f s = (r, s') \<Longrightarrow> chunks s' = chunks s"
  by (auto simp: sys_def split: prod.splits)

lemma chunks_snd_sys [simp]: "chunks (snd (sys f s)) = chunks s"
  by (simp add: sys_def split: prod.splits)

lemma chunks_close [simp]: "chunks (CloseSocketByConnection px c k s) = chunks s"
  by (simp add: CloseSocketByConnection_def Let_def)

definition replied :: "u32 \<Rightarrow> u32 \<Rightarrow> 'w proxy \<Rightarrow> 'w proxy \<Rightarrow> bool" where
  "replied client_fd callId s s' \<longleftrightarrow>
     (\<exists>body. chunks s' = chunks s @
        [(client_fd, websocket_header (word_of_nat (length (le32 callId @ body)))), (client_fd, le32 callId @ body)])"

lemma replied_send:
  "chunks s1 = chunks s \<Longrightarrow> replied c i s (SendWebSocketMessage c (result_header i r e @ rest) s1)"
  "chunks s1 = chunks s \<Longrightarrow> replied c i s (SendWebSocketMessage c (result_header i r e) s1)"
  by (auto simp: replied_def SendWebSocketMessage_def result_header_def)

lemma replied_reply:
  "reply c (result_header i r e @ rest) n b s1 = Some s' \<Longrightarrow> chunks s1 = chunks s \<Longrightarrow> replied c i s s'"
  "reply c (result_header i r e) n b s1 = Some s' \<Longrightarrow> chunks s1 = chunks s \<Longrightarrow> replied c i s s'"
  by (auto simp: reply_def replied_send split: if_splits)

lemmas handler_defs =
  Socket_def Socketpair_def Shutdown_def Bind_def Connect_def Listen_def Accept_def Getsockname_def
  Getpeername_def Send_def Recv_def Sendto_def Recvfrom_def Getsockopt_def Setsockopt_def

lemma chunks_if [simp]: "chunks a = chunks s \<Longrightarrow> chunks b = chunks s \<Longrightarrow> chunks (if P then a else b) = chunks s"
  by simp

lemma small_handlers_reply:
  "replied c (call_id d) s (Socket px c d s)" "replied c (call_id d) s (Socketpair px c d s)"
  by (simp_all add: Socket_def Socketpair_def Let_def split_beta replied_send)

lemma owned_handlers_reply:
  "replied c (call_id d) s (Shutdown px c d s)" "replied c (call_id d) s (Bind px c d s)"
  "replied c (call_id d) s (Connect px c d n s)" "replied c (call_id d) s (Listen px c d s)"
  "replied c (call_id d) s (Send px c d n s)" "replied c (call_id d) s (Sendto px c d s)"
  "replied c (call_id d) s (Setsockopt px c d n s)"
  by (cases "IsSocketPartOfConnection c (socket_of d) s";
      simp add: handler_defs Let_def split_beta replied_send)+

lemma data_handlers_reply:
  "Accept px c d s = Some s' \<Longrightarrow> replied c (call_id d) s s'"
  "Getsockname px stack c d s = Some s' \<Longrightarrow> replied c (call_id d) s s'"
  "Getpeername px stack c d s = Some s' \<Longrightarrow> replied c (call_id d) s s'"
  "Recv px heap c d s = Some s' \<Longrightarrow> replied c (call_id d) s s'"
  "Recvfrom px heap stack c d s = Some s' \<Longrightarrow> replied c (call_id d) s s'"
  "Getsockopt px stack c d s = Some s' \<Longrightarrow> replied c (call_id d) s s'"
  by (cases "IsSocketPartOfConnection c (socket_of d) s";
      simp add: handler_defs Let_def split_beta; elim replied_reply; simp)+

lemma getaddrinfo_reply_replies:
  "Getaddrinfo_reply c i result e s1 = Some s' \<Longrightarrow> chunks s1 = chunks s \<Longrightarrow> replied c i s s'"
  by (auto simp: Getaddrinfo_reply_def Let_def split: prod.splits if_splits elim!: replied_reply)

lemma getaddrinfo_replies:
  "Getaddrinfo px c d s = Some s' \<Longrightarrow> replied c (call_id d) s s'"
  by (auto simp: Getaddrinfo_def bind_eq_Some_conv Let_def split_beta elim!: getaddrinfo_reply_replies)

lemma one_reply':
  assumes "ProcessWebSocketMessageSynchronouslyInCurrentThread px heap stack c d n s = Some s'"
    and "rd32 d 4 \<in> {1, 2, 3, 4, 5, 6, 7, 8, 9, 10, 11, 12, 13, 16, 17, 18}"
  shows "replied c (call_id d) s s'"
  using assms unfolding ProcessWebSocketMessageSynchronouslyInCurrentThread_def Let_def
  by (elim insertE emptyE)
     (auto intro: small_handlers_reply owned_handlers_reply dest: data_handlers_reply getaddrinfo_replies)


text \<open>A call on a socket of somebody else makes no system call and changes nothing but the log.\<close>

definition refused :: "u32 \<Rightarrow> u32 \<Rightarrow> 'w proxy \<Rightarrow> 'w proxy \<Rightarrow> bool" where
  "refused client_fd callId s s' \<longleftrightarrow>
     (\<exists>hdr rest. s' = s\<lparr>chunks := chunks s @ [(client_fd, hdr), (client_fd, le32 callId @ le32 (- 1) @ rest)]\<rparr>)"

lemma refused_send:
  "refused c i s (SendWebSocketMessage c (result_header i (- 1) e @ rest) s)"
  "refused c i s (SendWebSocketMessage c (result_header i (- 1) e) s)"
  by (auto simp: refused_def SendWebSocketMessage_def result_header_def)

lemma foreign_socket_refused':
  assumes "rd32 d 4 \<in> {3, 4, 5, 6, 7, 8, 9, 10, 11, 12, 13, 16, 17}"
    and "\<not> IsSocketPartOfConnection c (socket_of d) s"
  shows "\<exists>s'. ProcessWebSocketMessageSynchronouslyInCurrentThread px heap stack c d n s = Some s' \<and>
    refused c (call_id d) s s'"
  using assms unfolding ProcessWebSocketMessageSynchronouslyInCurrentThread_def Let_def
  by (elim insertE emptyE)
     (simp_all add: handler_defs Let_def reply_def result_header_def slice_def refused_def SendWebSocketMessage_def,
      (intro exI, rule refl)+)

section \<open>The properties\<close>

definition demo_posix :: "unit posix" where
  "demo_posix =
     \<lparr>px_host = (\<lambda>_. None), px_socket = (\<lambda>a b c w. (5, 0, w)), px_socketpair = (\<lambda>a b c w. ((0, 5, 6), 0, w)),
      px_shutdown = (\<lambda>a b w. (0, 0, w)), px_close = (\<lambda>a w. (0, 0, w)), px_bind = (\<lambda>a b w. (0, 0, w)),
      px_connect = (\<lambda>a b w. (0, 0, w)), px_listen = (\<lambda>a b w. (0, 0, w)),
      px_accept = (\<lambda>a b w. ((7, [], 0), 0, w)), px_getsockname = (\<lambda>a n w. ((0, [2, 0], 2), 0, w)),
      px_getpeername = (\<lambda>a n w. ((- 1, [], n), 107, w)), px_send = (\<lambda>a b f w. (int (length b), 0, w)),
      px_recv = (\<lambda>a n f w. ((1, [65]), 0, w)), px_sendto = (\<lambda>a b f d w. (0, 0, w)),
      px_recvfrom = (\<lambda>a n f l w. ((1, [65], [], 0), 0, w)), px_getsockopt = (\<lambda>a l k n w. ((0, [1, 0, 0, 0], 4), 0, w)),
      px_setsockopt = (\<lambda>a l k b w. (0, 0, w)), px_getaddrinfo = (\<lambda>n v h w. ((0, [], None), 0, w))\<rparr>"

definition demo_proxy :: "unit proxy" where
  "demo_proxy = \<lparr>world = (), os_errno = 0, socketsPerProxyConnection = [3 \<mapsto> [5]], chunks = [], background = []\<rparr>"

text \<open>
  A connection cannot touch a socket that is not its own: whichever of the thirteen calls
  on an existing socket it sends for one, the proxy makes no system call, keeps its registry and
  answers that call with a result of -1.
\<close>

theorem foreign_socket_refused:
  assumes "rd32 d 4 \<in> {3, 4, 5, 6, 7, 8, 9, 10, 11, 12, 13, 16, 17}"
    and "\<not> IsSocketPartOfConnection c (socket_of d) s"
  shows "\<exists>s'. ProcessWebSocketMessageSynchronouslyInCurrentThread px heap stack c d n s = Some s' \<and>
    refused c (call_id d) s s'"
  using assms by (rule foreign_socket_refused')

theorem foreign_socket_refused_witness:
  "\<exists>s'. ProcessWebSocketMessageSynchronouslyInCurrentThread demo_posix (\<lambda>_. 0) (\<lambda>_. 0) 4
      (buffer_of (le32 9 @ le32 6 @ le32 5 @ le32 10) (\<lambda>_. 0)) 16 demo_proxy = Some s' \<and>
    refused 4 9 demo_proxy s'"
  using foreign_socket_refused [of "buffer_of (le32 9 @ le32 6 @ le32 5 @ le32 10) (\<lambda>_. 0)" 4 demo_proxy]
    rd32_head [of 10 "[]"]
  by (simp add: IsSocketPartOfConnection_def demo_proxy_def socket_of_def call_id_def)

text \<open>
  Claim C40. Every call that the dispatcher knows and that is implemented gets exactly one reply:
  one header with the length of the reply, and one body that begins with the call id of the
  request, both sent to the connection that asked.
\<close>

theorem one_reply:
  assumes "ProcessWebSocketMessageSynchronouslyInCurrentThread px heap stack c d n s = Some s'"
    and "rd32 d 4 \<in> {1, 2, 3, 4, 5, 6, 7, 8, 9, 10, 11, 12, 13, 16, 17, 18}"
  shows "\<exists>body. chunks s' = chunks s @
    [(c, websocket_header (word_of_nat (length (le32 (call_id d) @ body)))), (c, le32 (call_id d) @ body)]"
  using one_reply' [OF assms] by (simp only: replied_def)

theorem one_reply_witness:
  "\<exists>body. chunks (Bind demo_posix 3 (buffer_of (le32 9 @ le32 4 @ le32 5 @ le32 2 @ [0, 0]) (\<lambda>_. 0)) demo_proxy) =
     [(3, websocket_header (word_of_nat (length (le32 9 @ body)))), (3, le32 9 @ body)]"
proof -
  let ?d = "buffer_of (le32 9 @ le32 4 @ le32 5 @ le32 2 @ [0, 0]) (\<lambda>_. 0)"
  have "ProcessWebSocketMessageSynchronouslyInCurrentThread demo_posix (\<lambda>_. 0) (\<lambda>_. 0) 3 ?d 18 demo_proxy
      = Some (Bind demo_posix 3 ?d demo_proxy)"
    by (simp add: ProcessWebSocketMessageSynchronouslyInCurrentThread_def)
  from one_reply [OF this] show ?thesis by (simp add: call_id_def demo_proxy_def)
qed

text \<open>
  A failing \<open>getpeername\<close> (for instance on a socket that is not connected) discloses the
  memory of the proxy: the call leaves the uninitialized buffer and the length alone, and the
  reply then carries as many bytes from the start of the 256-byte buffer on as the client
  asked for, also far beyond its end.
\<close>

theorem getpeername_discloses_stack:
  assumes "IsSocketPartOfConnection c (socket_of d) s"
    and "px_getpeername px (socket_of d) (rd32 d 12) (world s) = ((ret, [], rd32 d 12), e, w)" "ret \<noteq> 0"
    and "unat (rd32 d 12) < 2 ^ 31 - 16"
  shows "\<exists>s' hdr. Getpeername px stack c d s = Some s' \<and>
    chunks s' = chunks s @ [(c, hdr), (c, result_header (call_id d) ret e @ le32 (rd32 d 12) @
      slice stack 0 (unat (rd32 d 12)))]"
  using assms
  by (simp add: Getpeername_def sys_def Let_def reply_def result_header_def SendWebSocketMessage_def buffer_of_def)

theorem getpeername_discloses_stack_witness:
  "\<exists>s' hdr. Getpeername demo_posix (\<lambda>i. word_of_nat i) 3 (buffer_of (le32 9 @ le32 9 @ le32 5 @ le32 4096) (\<lambda>_. 0)) demo_proxy
     = Some s' \<and> chunks s' = [(3, hdr), (3, result_header 9 (- 1) 107 @ le32 4096 @ slice (\<lambda>i. word_of_nat i) 0 4096)]"
  using getpeername_discloses_stack
    [of 3 "buffer_of (le32 9 @ le32 9 @ le32 5 @ le32 4096) (\<lambda>_. 0)" demo_proxy demo_posix "- 1" 107 "()" "\<lambda>i. word_of_nat i"]
    rd32_head [of 4096 "[]"]
  by (simp add: IsSocketPartOfConnection_def demo_proxy_def demo_posix_def socket_of_def call_id_def)

end
