(* ===== verification/Posix_Client.thy ===== *)
theory Posix_Client
  imports Posix_Proxy
begin

text \<open>
  The client end of the sockets bridge, \<open>system/lib/websocket/websocket_to_posix_socket.c\<close>: a socket
  call is serialized into a message with a fresh call id, the caller waits until the reply with
  that id has arrived, and decodes it. The WebSocket is the parameter \<open>transport\<close>: given its
  state and a message it yields the messages that arrive while the caller waits.
\<close>

section \<open>Calls in flight\<close>

type_synonym 'n transport = "'n \<Rightarrow> u8 list \<Rightarrow> u8 list list \<times> 'n"

text \<open>A pending \<open>PosixSocketCallResult\<close> is its call id and the number of bytes it expects.\<close>

record 'n client =
  net :: 'n
  nextId :: u32
  callResultHead :: "(u32 \<times> nat) list"
  completed :: "u32 \<Rightarrow> u8 list option"
  c_errno :: u32

definition allocate_call_result :: "nat \<Rightarrow> 'n client \<Rightarrow> u32 \<times> 'n client" where
  "allocate_call_result expectedBytes s =
     (nextId s, s\<lparr>nextId := nextId s + 1, callResultHead := callResultHead s @ [(nextId s, expectedBytes)]\<rparr>)"

fun pop_call_result :: "u32 \<Rightarrow> (u32 \<times> nat) list \<Rightarrow> nat option \<times> (u32 \<times> nat) list" where
  "pop_call_result callId [] = (None, [])"
| "pop_call_result callId ((i, n) # rest) =
     (if i = callId then (Some n, rest)
      else let (r, rest') = pop_call_result callId rest in (r, (i, n) # rest'))"

text \<open>A reply that is too short for its call is dropped after the call was taken off the list.\<close>

definition bridge_socket_on_message :: "u8 list \<Rightarrow> 'n client \<Rightarrow> 'n client" where
  "bridge_socket_on_message data s =
     (if length data < 12 then s
      else
        let callId = rd32 (buffer_of data (\<lambda>_. 0)) 0
        in case pop_call_result callId (callResultHead s) of
             (None, _) \<Rightarrow> s
           | (Some bytes, rest) \<Rightarrow>
               let s1 = s\<lparr>callResultHead := rest\<rparr>
               in if length data < bytes then s1
                  else s1\<lparr>completed := (completed s1)(callId \<mapsto> data)\<rparr>)"

text \<open>Sending, waiting and freeing the result; \<^const>\<open>None\<close> when the caller waits forever.\<close>

definition wait_for_call_result :: "u32 \<Rightarrow> 'n client \<Rightarrow> (u8 list \<times> 'n client) option" where
  "wait_for_call_result callId s =
     (case completed s callId of
        None \<Rightarrow> None
      | Some data \<Rightarrow> Some (data, s\<lparr>completed := (completed s)(callId := None)\<rparr>))"

definition exchange :: "'n transport \<Rightarrow> u32 \<Rightarrow> u8 list \<Rightarrow> 'n client \<Rightarrow> (u8 list \<times> 'n client) option" where
  "exchange transport callId msg s =
     (let (incoming, n) = transport (net s) msg
      in wait_for_call_result callId (fold bridge_socket_on_message incoming (s\<lparr>net := n\<rparr>)))"

text \<open>The reply in memory, with what lies behind it, and the fields of its header.\<close>

definition ret_of :: "buffer \<Rightarrow> u32" where "ret_of r = rd32 r 4"
definition errno_of :: "buffer \<Rightarrow> u32" where "errno_of r = rd32 r 8"

definition fail_with :: "bool \<Rightarrow> buffer \<Rightarrow> 'n client \<Rightarrow> 'n client" where
  "fail_with failed r s = (if failed then s\<lparr>c_errno := errno_of r\<rparr> else s)"

definition call_header :: "u32 \<Rightarrow> u32 \<Rightarrow> u8 list" where
  "call_header callId function = le32 callId @ le32 function"

section \<open>The calls\<close>

text \<open>\<open>heap\<close> is the memory behind a reply. The first component of a result is the return value.\<close>

definition c_socket :: "'n transport \<Rightarrow> buffer \<Rightarrow> u32 \<Rightarrow> u32 \<Rightarrow> u32 \<Rightarrow> 'n client \<Rightarrow> (u32 \<times> 'n client) option" where
  "c_socket tr heap domain type protocol s =
     (let (b, s1) = allocate_call_result 12 s;
          msg = call_header b 1 @ le32 domain @ le32 type @ le32 protocol
      in case exchange tr b msg s1 of
           None \<Rightarrow> None
         | Some (data, s2) \<Rightarrow>
             let r = buffer_of data heap; ret = ret_of r
             in Some (ret, fail_with (sint ret < 0) r s2))"

definition c_socketpair ::
  "'n transport \<Rightarrow> buffer \<Rightarrow> u32 \<Rightarrow> u32 \<Rightarrow> u32 \<Rightarrow> 'n client \<Rightarrow> (u32 \<times> (u32 \<times> u32) option \<times> 'n client) option" where
  "c_socketpair tr heap domain type protocol s =
     (let (b, s1) = allocate_call_result 20 s;
          msg = call_header b 2 @ le32 domain @ le32 type @ le32 protocol
      in case exchange tr b msg s1 of
           None \<Rightarrow> None
         | Some (data, s2) \<Rightarrow>
             let r = buffer_of data heap; ret = ret_of r
             in Some (ret, if ret = 0 then Some (rd32 r 12, rd32 r 16) else None,
                  fail_with (ret \<noteq> 0) r s2))"

definition c_shutdown :: "'n transport \<Rightarrow> buffer \<Rightarrow> u32 \<Rightarrow> u32 \<Rightarrow> 'n client \<Rightarrow> (u32 \<times> 'n client) option" where
  "c_shutdown tr heap sock how s =
     (let (b, s1) = allocate_call_result 12 s;
          msg = call_header b 3 @ le32 sock @ le32 how
      in case exchange tr b msg s1 of
           None \<Rightarrow> None
         | Some (data, s2) \<Rightarrow>
             let r = buffer_of data heap; ret = ret_of r
             in Some (ret, fail_with (ret \<noteq> 0) r s2))"

text \<open>A null address is sent as zeros.\<close>

definition memory_or_zeros :: "buffer option \<Rightarrow> nat \<Rightarrow> u8 list" where
  "memory_or_zeros p n = (case p of None \<Rightarrow> replicate n 0 | Some m \<Rightarrow> slice m 0 n)"

definition c_bind ::
  "'n transport \<Rightarrow> buffer \<Rightarrow> u32 \<Rightarrow> buffer option \<Rightarrow> u32 \<Rightarrow> 'n client \<Rightarrow> (u32 \<times> 'n client) option" where
  "c_bind tr heap sock address address_len s =
     (let (b, s1) = allocate_call_result 12 s;
          msg = call_header b 4 @ le32 sock @ le32 address_len @ memory_or_zeros address (unat address_len)
      in case exchange tr b msg s1 of
           None \<Rightarrow> None
         | Some (data, s2) \<Rightarrow>
             let r = buffer_of data heap; ret = ret_of r
             in Some (ret, fail_with (ret \<noteq> 0) r s2))"

definition c_connect ::
  "'n transport \<Rightarrow> buffer \<Rightarrow> u32 \<Rightarrow> buffer option \<Rightarrow> u32 \<Rightarrow> 'n client \<Rightarrow> (u32 \<times> 'n client) option" where
  "c_connect tr heap sock address address_len s =
     (let (b, s1) = allocate_call_result 12 s;
          msg = call_header b 5 @ le32 sock @ le32 address_len @ memory_or_zeros address (unat address_len)
      in case exchange tr b msg s1 of
           None \<Rightarrow> None
         | Some (data, s2) \<Rightarrow>
             let r = buffer_of data heap; ret = ret_of r
             in Some (ret, fail_with (ret \<noteq> 0) r s2))"

definition c_listen :: "'n transport \<Rightarrow> buffer \<Rightarrow> u32 \<Rightarrow> u32 \<Rightarrow> 'n client \<Rightarrow> (u32 \<times> 'n client) option" where
  "c_listen tr heap sock backlog s =
     (let (b, s1) = allocate_call_result 12 s;
          msg = call_header b 6 @ le32 sock @ le32 backlog
      in case exchange tr b msg s1 of
           None \<Rightarrow> None
         | Some (data, s2) \<Rightarrow>
             let r = buffer_of data heap; ret = ret_of r
             in Some (ret, fail_with (ret \<noteq> 0) r s2))"

text \<open>
  The results of a call that returns an address: the bytes copied to the caller (if it gave a
  buffer) and the length stored. \<open>address_len\<close> is the caller's length.
\<close>

definition decode_address :: "nat \<Rightarrow> buffer \<Rightarrow> bool \<Rightarrow> u32 \<Rightarrow> u8 list option \<times> u32" where
  "decode_address bytes r wanted address_len =
     (let realAddressLen = min (word_of_nat bytes - 16) (rd32 r 12);
          copiedAddressLen = min address_len realAddressLen
      in (if wanted then Some (slice r 16 (unat copiedAddressLen)) else None, realAddressLen))"

text \<open>
  \<open>accept\<close>: the code decodes the address when the returned descriptor is 0. A null
  \<open>address_len\<close> is dereferenced there all the same, which reads \<open>at_null\<close>.
\<close>

definition c_accept ::
  "'n transport \<Rightarrow> buffer \<Rightarrow> u32 \<Rightarrow> u32 \<Rightarrow> bool \<Rightarrow> u32 option \<Rightarrow> 'n client \<Rightarrow>
     (u32 \<times> (u8 list option \<times> u32) option \<times> 'n client) option" where
  "c_accept tr heap at_null sock wanted address_len s =
     (let (b, s1) = allocate_call_result 12 s;
          msg = call_header b 7 @ le32 sock @ le32 (case address_len of None \<Rightarrow> 0 | Some n \<Rightarrow> n)
      in case exchange tr b msg s1 of
           None \<Rightarrow> None
         | Some (data, s2) \<Rightarrow>
             let r = buffer_of data heap; ret = ret_of r
             in Some (ret,
                  if ret = 0 then Some (decode_address (length data) r wanted
                                     (case address_len of None \<Rightarrow> at_null | Some n \<Rightarrow> n)) else None,
                  fail_with (ret \<noteq> 0) r s2))"

definition c_accept4 ::
  "'n transport \<Rightarrow> buffer \<Rightarrow> u32 \<Rightarrow> u32 \<Rightarrow> bool \<Rightarrow> u32 option \<Rightarrow> u32 \<Rightarrow> 'n client \<Rightarrow>
     (u32 \<times> (u8 list option \<times> u32) option \<times> 'n client) option" where
  "c_accept4 tr heap at_null sock wanted address_len flags s =
     (if flags \<noteq> 0 then None else c_accept tr heap at_null sock wanted address_len s)"

text \<open>
  \<open>getsockname\<close> and \<open>getpeername\<close> send \<open>sizeof(d) + *address_len - MAX_SOCKADDR_SIZE\<close> bytes from the
  address of \<open>d\<close> on, a 32-bit difference that wraps below 240; \<open>stack\<close> is what lies behind \<open>d\<close>.
\<close>

definition name_request :: "buffer \<Rightarrow> u32 \<Rightarrow> u32 \<Rightarrow> u32 \<Rightarrow> u32 \<Rightarrow> u8 list" where
  "name_request stack b function sock address_len =
     slice (buffer_of (call_header b function @ le32 sock @ le32 address_len) stack) 0
       (unat (16 + address_len - 256))"

definition c_getsockname ::
  "'n transport \<Rightarrow> buffer \<Rightarrow> buffer \<Rightarrow> u32 \<Rightarrow> bool \<Rightarrow> u32 \<Rightarrow> 'n client \<Rightarrow>
     (u32 \<times> (u8 list option \<times> u32) option \<times> 'n client) option" where
  "c_getsockname tr heap stack sock wanted address_len s =
     (let (b, s1) = allocate_call_result 16 s
      in case exchange tr b (name_request stack b 8 sock address_len) s1 of
           None \<Rightarrow> None
         | Some (data, s2) \<Rightarrow>
             let r = buffer_of data heap; ret = ret_of r
             in Some (ret, if ret = 0 then Some (decode_address (length data) r wanted address_len) else None,
                  fail_with (ret \<noteq> 0) r s2))"

definition c_getpeername ::
  "'n transport \<Rightarrow> buffer \<Rightarrow> buffer \<Rightarrow> u32 \<Rightarrow> bool \<Rightarrow> u32 \<Rightarrow> 'n client \<Rightarrow>
     (u32 \<times> (u8 list option \<times> u32) option \<times> 'n client) option" where
  "c_getpeername tr heap stack sock wanted address_len s =
     (let (b, s1) = allocate_call_result 16 s
      in case exchange tr b (name_request stack b 9 sock address_len) s1 of
           None \<Rightarrow> None
         | Some (data, s2) \<Rightarrow>
             let r = buffer_of data heap; ret = ret_of r
             in Some (ret, if ret = 0 then Some (decode_address (length data) r wanted address_len) else None,
                  fail_with (ret \<noteq> 0) r s2))"

definition c_send ::
  "'n transport \<Rightarrow> buffer \<Rightarrow> u32 \<Rightarrow> buffer option \<Rightarrow> u32 \<Rightarrow> u32 \<Rightarrow> 'n client \<Rightarrow> (u32 \<times> 'n client) option" where
  "c_send tr heap sock message len flags s =
     (let (b, s1) = allocate_call_result 12 s;
          msg = call_header b 10 @ le32 sock @ le32 len @ le32 flags @ memory_or_zeros message (unat len)
      in case exchange tr b msg s1 of
           None \<Rightarrow> None
         | Some (data, s2) \<Rightarrow>
             let r = buffer_of data heap; ret = ret_of r
             in Some (ret, fail_with (sint ret < 0) r s2))"

definition c_recv ::
  "'n transport \<Rightarrow> buffer \<Rightarrow> u32 \<Rightarrow> bool \<Rightarrow> u32 \<Rightarrow> u32 \<Rightarrow> 'n client \<Rightarrow> (u32 \<times> u8 list option \<times> 'n client) option" where
  "c_recv tr heap sock wanted len flags s =
     (let (b, s1) = allocate_call_result 12 s;
          msg = call_header b 11 @ le32 sock @ le32 len @ le32 flags
      in case exchange tr b msg s1 of
           None \<Rightarrow> None
         | Some (data, s2) \<Rightarrow>
             let r = buffer_of data heap; ret = ret_of r
             in Some (ret, if 0 \<le> sint ret \<and> wanted then Some (slice r 12 (unat (min ret len))) else None,
                  fail_with (sint ret < 0) r s2))"

text \<open>The destination address goes into a field of 256 bytes.\<close>

definition c_sendto ::
  "'n transport \<Rightarrow> buffer \<Rightarrow> u32 \<Rightarrow> buffer option \<Rightarrow> u32 \<Rightarrow> u32 \<Rightarrow> buffer option \<Rightarrow> u32 \<Rightarrow> 'n client \<Rightarrow>
     (u32 \<times> 'n client) option" where
  "c_sendto tr heap sock message len flags dest_addr dest_len s =
     (let (b, s1) = allocate_call_result 12 s;
          dest = (case dest_addr of None \<Rightarrow> replicate 256 0
                  | Some m \<Rightarrow> slice m 0 (unat dest_len) @ replicate (256 - unat dest_len) 0);
          msg = call_header b 12 @ le32 sock @ le32 len @ le32 flags @ le32 dest_len @ take 256 dest @
                memory_or_zeros message (unat len)
      in case exchange tr b msg s1 of
           None \<Rightarrow> None
         | Some (data, s2) \<Rightarrow>
             let r = buffer_of data heap; ret = ret_of r
             in Some (ret, fail_with (sint ret < 0) r s2))"

definition c_recvfrom ::
  "'n transport \<Rightarrow> buffer \<Rightarrow> u32 \<Rightarrow> bool \<Rightarrow> u32 \<Rightarrow> u32 \<Rightarrow> bool \<Rightarrow> u32 \<Rightarrow> 'n client \<Rightarrow>
     (u32 \<times> u8 list option \<times> (u8 list option \<times> u32) option \<times> 'n client) option" where
  "c_recvfrom tr heap sock wanted len flags want_addr address_len s =
     (let (b, s1) = allocate_call_result 12 s;
          msg = call_header b 13 @ le32 sock @ le32 len @ le32 flags @ le32 address_len
      in case exchange tr b msg s1 of
           None \<Rightarrow> None
         | Some (data, s2) \<Rightarrow>
             let r = buffer_of data heap; ret = ret_of r; data_len = rd32 r 12; addr_len = rd32 r 16
             in if 0 \<le> sint ret
                then Some (ret, if wanted then Some (slice r 20 (unat (min data_len len))) else None,
                       Some (if want_addr then Some (slice r (20 + unat data_len) (unat (min address_len addr_len)))
                             else None, addr_len), s2)
                else Some (ret, None, None, fail_with True r s2))"

text \<open>The code reads the value right behind the header and takes the rest of the reply for it.\<close>

definition c_getsockopt ::
  "'n transport \<Rightarrow> buffer \<Rightarrow> u32 \<Rightarrow> u32 \<Rightarrow> u32 \<Rightarrow> bool \<Rightarrow> u32 \<Rightarrow> 'n client \<Rightarrow>
     (u32 \<times> (u8 list option \<times> u32) option \<times> 'n client) option" where
  "c_getsockopt tr heap sock level option_name wanted option_len s =
     (let (b, s1) = allocate_call_result 12 s;
          msg = call_header b 16 @ le32 sock @ le32 level @ le32 option_name @ le32 option_len
      in case exchange tr b msg s1 of
           None \<Rightarrow> None
         | Some (data, s2) \<Rightarrow>
             let r = buffer_of data heap; ret = ret_of r; optLen = word_of_nat (length data) - 12
             in Some (ret,
                  if ret = 0
                  then Some (if wanted then Some (slice r 12 (unat (min option_len optLen))) else None, optLen)
                  else None,
                  fail_with (ret \<noteq> 0) r s2))"

definition c_setsockopt ::
  "'n transport \<Rightarrow> buffer \<Rightarrow> u32 \<Rightarrow> u32 \<Rightarrow> u32 \<Rightarrow> buffer option \<Rightarrow> u32 \<Rightarrow> 'n client \<Rightarrow> (u32 \<times> 'n client) option" where
  "c_setsockopt tr heap sock level option_name option_value option_len s =
     (let (b, s1) = allocate_call_result 12 s;
          msg = call_header b 17 @ le32 sock @ le32 level @ le32 option_name @ le32 option_len @
                memory_or_zeros option_value (unat option_len)
      in case exchange tr b msg s1 of
           None \<Rightarrow> None
         | Some (data, s2) \<Rightarrow>
             let r = buffer_of data heap; ret = ret_of r
             in Some (ret, fail_with (ret \<noteq> 0) r s2))"

text \<open>A C string in a zeroed array of \<open>n\<close> bytes.\<close>

definition string_field :: "nat \<Rightarrow> u8 list option \<Rightarrow> u8 list" where
  "string_field n cs = (case cs of None \<Rightarrow> replicate n 0
     | Some c \<Rightarrow> take (n - 1) c @ replicate (n - length (take (n - 1) c)) 0)"

fun decode_addrinfos :: "nat \<Rightarrow> buffer \<Rightarrow> nat \<Rightarrow> addrinfo list" where
  "decode_addrinfos 0 r off = []"
| "decode_addrinfos (Suc n) r off =
     (let len = unat (rd32 r (off + 16))
      in \<lparr>ai_flags = rd32 r off, ai_family = rd32 r (off + 4), ai_socktype = rd32 r (off + 8),
          ai_protocol = rd32 r (off + 12), ai_addr = slice r (off + 20) len\<rparr>
         # decode_addrinfos n r (off + 20 + len))"

text \<open>\<open>res\<close> tells whether the caller wants the list; the canonical name belongs to its first entry.\<close>

definition c_getaddrinfo ::
  "'n transport \<Rightarrow> buffer \<Rightarrow> u8 list option \<Rightarrow> u8 list option \<Rightarrow> (u32 \<times> u32 \<times> u32 \<times> u32) option \<Rightarrow> bool \<Rightarrow>
     'n client \<Rightarrow> (u32 \<times> addrinfo list option \<times> 'n client) option" where
  "c_getaddrinfo tr heap node service hints res s =
     (let (b, s1) = allocate_call_result 2064 s;
          (f, fam, st, pr) = (case hints of None \<Rightarrow> (0, 0, 0, 0) | Some h \<Rightarrow> h);
          msg = call_header b 18 @ string_field 2048 node @ string_field 128 service @
                le32 (if hints = None then 0 else 1) @ le32 f @ le32 fam @ le32 st @ le32 pr
      in case exchange tr b msg s1 of
           None \<Rightarrow> None
         | Some (data, s2) \<Rightarrow>
             let r = buffer_of data heap; ret = ret_of r
             in Some (ret,
                  if ret = 0 \<and> res then Some (decode_addrinfos (unat (rd32 r 2060)) r 2064) else None,
                  fail_with (ret \<noteq> 0) r s2))"

end
