(* ===== verification/Posix_Bridge.thy ===== *)
theory Posix_Bridge
  imports Posix_Client
begin

text \<open>
  The two ends of the sockets bridge put together: the client of \<open>Posix_Client\<close> talks to the proxy
  of \<open>Posix_Proxy\<close>, and what a remote call returns is what the operating system returned to the
  proxy. First the matching of replies and calls, which the client does by call id.
\<close>

section \<open>Replies and calls\<close>

text \<open>A reply is accepted by a pending call with its id that expects no more bytes than it has.\<close>

definition reply_id :: "u8 list \<Rightarrow> u32" where
  "reply_id data = rd32 (buffer_of data (\<lambda>_. 0)) 0"

lemma pop_present:
  "i \<notin> fst ` set xs \<Longrightarrow> pop_call_result i (xs @ (i, n) # ys) = (Some n, xs @ ys)"
  by (induction xs) auto

lemma pop_absent: "i \<notin> fst ` set xs \<Longrightarrow> pop_call_result i xs = (None, xs)"
  by (induction xs) auto

lemma pop_map_of:
  "distinct (map fst xs) \<Longrightarrow>
     pop_call_result i xs = (map_of xs i, filter (\<lambda>(j, n). j \<noteq> i) xs)"
proof (induction xs)
  case (Cons x xs)
  obtain j n where x: "x = (j, n)" by fastforce
  show ?case
  proof (cases "j = i")
    case True
    have "filter (\<lambda>(j, n). j \<noteq> i) xs = xs"
      using Cons.prems True x by (intro filter_True) force
    with True x show ?thesis by simp
  next
    case False
    with Cons x show ?thesis by simp
  qed
qed simp

lemma on_message_deliver:
  assumes "distinct (map fst (callResultHead s))"
    and "map_of (callResultHead s) (reply_id data) = Some n" "n \<le> length data" "12 \<le> length data"
  shows "bridge_socket_on_message data s =
    s\<lparr>callResultHead := filter (\<lambda>(j, n). j \<noteq> reply_id data) (callResultHead s),
      completed := (completed s)(reply_id data \<mapsto> data)\<rparr>"
  using assms by (simp add: bridge_socket_on_message_def Let_def reply_id_def [symmetric] pop_map_of)

lemma map_of_filter_key:
  "map_of (filter (\<lambda>(j, n). j \<noteq> i) xs) = (map_of xs)(i := None)"
  by (induction xs) (auto simp: fun_eq_iff)

lemma distinct_filter_key: "distinct (map fst xs) \<Longrightarrow> distinct (map fst (filter P xs))"
  by (induction xs) (auto simp: image_iff)

text \<open>In whatever order the replies of pending calls arrive, each completes its own call.\<close>

lemma deliver_all:
  assumes "distinct (map fst (callResultHead s))" and "distinct (map reply_id ds)"
    and "\<forall>d\<in>set ds. 12 \<le> length d \<and>
      (\<exists>n. map_of (callResultHead s) (reply_id d) = Some n \<and> n \<le> length d)"
  shows "fold bridge_socket_on_message ds s =
    s\<lparr>callResultHead := filter (\<lambda>(j, n). j \<notin> reply_id ` set ds) (callResultHead s),
      completed := completed s ++ map_of (map (\<lambda>d. (reply_id d, d)) ds)\<rparr>"
  using assms
proof (induction ds arbitrary: s)
  case (Cons d ds)
  from Cons.prems(3) obtain n where n: "map_of (callResultHead s) (reply_id d) = Some n" "n \<le> length d" "12 \<le> length d"
    by auto
  note step = on_message_deliver [OF Cons.prems(1) n]
  let ?s = "bridge_socket_on_message d s"
  have "fold bridge_socket_on_message ds ?s =
    ?s\<lparr>callResultHead := filter (\<lambda>(j, n). j \<notin> reply_id ` set ds) (callResultHead ?s),
      completed := completed ?s ++ map_of (map (\<lambda>d. (reply_id d, d)) ds)\<rparr>"
  proof (rule Cons.IH)
    show "distinct (map fst (callResultHead ?s))"
      using Cons.prems(1) by (simp add: step distinct_filter_key)
    show "distinct (map reply_id ds)" using Cons.prems(2) by simp
    show "\<forall>e\<in>set ds. 12 \<le> length e \<and> (\<exists>n. map_of (callResultHead ?s) (reply_id e) = Some n \<and> n \<le> length e)"
    proof
      fix e assume e: "e \<in> set ds"
      then have "reply_id e \<noteq> reply_id d" using Cons.prems(2) by (auto simp: image_iff)
      then show "12 \<le> length e \<and> (\<exists>n. map_of (callResultHead ?s) (reply_id e) = Some n \<and> n \<le> length e)"
        using Cons.prems(3) e by (simp add: step map_of_filter_key)
    qed
  qed
  moreover have "(completed s)(reply_id d \<mapsto> d) ++ map_of (map (\<lambda>d. (reply_id d, d)) ds)
      = completed s ++ map_of (map (\<lambda>d. (reply_id d, d)) (d # ds))"
  proof -
    have "reply_id d \<notin> dom (map_of (map (\<lambda>d. (reply_id d, d)) ds))"
      using Cons.prems(2) by (simp add: dom_map_of_conv_image_fst image_image)
    then show ?thesis by (simp add: map_add_upd_left)
  qed
  moreover have "filter (\<lambda>(j, n). j \<notin> reply_id ` set ds) (filter (\<lambda>(j, n). j \<noteq> reply_id d) (callResultHead s))
      = filter (\<lambda>(j, n). j \<notin> reply_id ` set (d # ds)) (callResultHead s)"
    by (auto simp: filter_filter intro: filter_cong)
  ultimately show ?case by (simp add: step del: map_of.simps list.map)
qed simp

section \<open>One exchange\<close>

definition fresh_call :: "'n client \<Rightarrow> bool" where
  "fresh_call s \<longleftrightarrow> nextId s \<notin> fst ` set (callResultHead s)"

lemma exchange_one:
  assumes "fresh_call s" and "tr (net s) msg = ([data], n)"
    and "reply_id data = nextId s" "bytes \<le> length data" "12 \<le> length data"
  shows "exchange tr (nextId s) msg (snd (allocate_call_result bytes s)) =
    Some (data, s\<lparr>net := n, nextId := nextId s + 1, completed := (completed s)(nextId s := None)\<rparr>)"
  using assms pop_present [of "nextId s" "callResultHead s" bytes "[]"]
  by (simp add: exchange_def allocate_call_result_def bridge_socket_on_message_def Let_def
      reply_id_def fresh_call_def wait_for_call_result_def)

lemma exchange_silence:
  assumes "tr (net s) msg = ([], n)" and "completed s (nextId s) = None"
  shows "exchange tr (nextId s) msg (snd (allocate_call_result bytes s)) = None"
  using assms by (simp add: exchange_def allocate_call_result_def wait_for_call_result_def)

lemma fst_allocate [simp]: "fst (allocate_call_result n s) = nextId s"
  by (simp add: allocate_call_result_def)

section \<open>The proxy as the transport\<close>

text \<open>
  The messages for a connection are the bodies of the frames sent to it: the header goes out as a
  chunk of its own.
\<close>

fun bodies :: "u32 \<Rightarrow> (u32 \<times> u8 list) list \<Rightarrow> u8 list list" where
  "bodies fd ((c, hdr) # (c', body) # rest) = (if c' = fd then body # bodies fd rest else bodies fd rest)"
| "bodies fd _ = []"

text \<open>
  The proxy takes one message, runs the background thread if it started one, and its replies to
  this connection arrive; a proxy that crashes is silent. \<open>behind\<close> is the memory behind a message.
\<close>

definition proxy_transport ::
  "'w posix \<Rightarrow> buffer \<Rightarrow> buffer \<Rightarrow> buffer \<Rightarrow> u32 \<Rightarrow> 'w proxy transport" where
  "proxy_transport px heap stack behind fd s msg =
     (case Option.bind (ProcessWebSocketMessage px heap stack fd (buffer_of msg behind)
                          (word_of_nat (length msg)) s)
             (message_processing_thread px heap stack behind) of
        None \<Rightarrow> ([], s)
      | Some s' \<Rightarrow> (bodies fd (drop (length (chunks s)) (chunks s')), s'))"

lemma bodies_reply [simp]: "bodies fd [(fd, h), (fd, b)] = [b]"
  by simp

lemma length_result_header [simp]: "length (result_header i r e) = 12"
  by (simp add: result_header_def)

text \<open>The fields of a reply as the client reads them.\<close>

lemma rd32_last [simp]: "rd32 (buffer_of (le32 v) rest) 0 = v"
  using rd32_head [of v "[]"] by simp

lemma reply_fields [simp]:
  "reply_id (result_header i r e @ rest) = i" "reply_id (result_header i r e) = i"
  "ret_of (buffer_of (result_header i r e @ rest) m) = r" "ret_of (buffer_of (result_header i r e) m) = r"
  "errno_of (buffer_of (result_header i r e @ rest) m) = e" "errno_of (buffer_of (result_header i r e) m) = e"
proof -
  have split: "result_header i r e = le32 i @ le32 r @ le32 e @ []" by (simp add: result_header_def)
  have full: "result_header i r e @ rest = le32 i @ le32 r @ le32 e @ rest" for rest
    by (simp add: result_header_def)
  show "reply_id (result_header i r e @ rest) = i" "ret_of (buffer_of (result_header i r e @ rest) m) = r"
    "errno_of (buffer_of (result_header i r e @ rest) m) = e"
    unfolding full reply_id_def ret_of_def errno_of_def by simp_all
  show "reply_id (result_header i r e) = i" "ret_of (buffer_of (result_header i r e) m) = r"
    "errno_of (buffer_of (result_header i r e) m) = e"
    unfolding split reply_id_def ret_of_def errno_of_def by simp_all
qed


text \<open>The fields of a request as the proxy reads them.\<close>

lemma request_fields [simp]:
  "rd32 (buffer_of (call_header b f @ rest) m) 0 = b"
  "rd32 (buffer_of (call_header b f @ rest) m) 4 = f"
  "8 \<le> i \<Longrightarrow> rd32 (buffer_of (call_header b f @ rest) m) i = rd32 (buffer_of rest (\<lambda>j. m (8 + j))) (i - 8)"
  "length (call_header b f) = 8"
  using rd32_skip [of "call_header b f" i rest m]
  by (simp_all add: call_header_def)

lemma slice_le32 [simp]:
  "4 \<le> i \<Longrightarrow> slice (buffer_of (le32 v @ ys) rest) i n = slice (buffer_of ys (\<lambda>j. rest (4 + j))) (i - 4) n"
  using slice_skip [of "le32 v" i ys rest n] by simp

lemma slice_header [simp]:
  "8 \<le> i \<Longrightarrow> slice (buffer_of (call_header b f @ ys) rest) i n = slice (buffer_of ys (\<lambda>j. rest (8 + j))) (i - 8) n"
  using slice_skip [of "call_header b f" i ys rest n] by simp

lemma slice_result [simp]:
  "12 \<le> i \<Longrightarrow> slice (buffer_of (result_header b r e @ ys) rest) i n = slice (buffer_of ys (\<lambda>j. rest (12 + j))) (i - 12) n"
  using slice_skip [of "result_header b r e" i ys rest n] by simp

lemma length_memory [simp]: "length (memory_or_zeros p n) = n"
  by (simp add: memory_or_zeros_def split: option.split)

lemma message_size:
  "8 \<le> n \<Longrightarrow> n < 2 ^ 64 \<Longrightarrow> \<not> (word_of_nat n :: u64) < 8"
  by (simp add: word_less_nat_alt unsigned_of_nat take_bit_nat_eq_self)

lemma transport_one:
  assumes "background s = []" and "8 \<le> length msg" "length msg < 2 ^ 64"
    and "ProcessWebSocketMessageSynchronouslyInCurrentThread px heap stack fd (buffer_of msg behind)
           (word_of_nat (length msg)) s = Some s'"
    and "chunks s' = chunks s @ [(fd, hdr), (fd, body)]" "background s' = []"
  shows "proxy_transport px heap stack behind fd s msg = ([body], s')"
proof -
  have same: "s\<lparr>background := []\<rparr> = s" using assms(1) by simp
  have n: "unat (word_of_nat (length msg) :: u64) = length msg"
    using assms(3) by (simp add: unsigned_of_nat take_bit_nat_eq_self)
  have copied: "slice (buffer_of msg behind) 0 (length msg) = msg" by (rule slice_all) simp
  show ?thesis
    using assms message_size [OF assms(2,3)]
    by (simp add: proxy_transport_def ProcessWebSocketMessage_def message_processing_thread_def n copied
        ProcessWebSocketMessageAsynchronouslyInBackgroundThread_def same)
qed

lemma send_effect [simp]:
  "chunks (SendWebSocketMessage fd body s) = chunks s @ [(fd, websocket_header (word_of_nat (length body))), (fd, body)]"
  "background (SendWebSocketMessage fd body s) = background s"
  "world (SendWebSocketMessage fd body s) = world s"
  by (simp_all add: SendWebSocketMessage_def)

text \<open>A remote call: the proxy answers with \<open>body\<close> in state \<open>s1\<close>, and the client gets just that.\<close>

lemma remote_call:
  assumes "fresh_call s" and "background (net s) = []" "background s1 = []" "chunks s1 = chunks (net s)"
    and "8 \<le> length msg" "length msg < 2 ^ 64"
    and "ProcessWebSocketMessageSynchronouslyInCurrentThread px heap stack fd (buffer_of msg behind)
           (word_of_nat (length msg)) (net s) = Some (SendWebSocketMessage fd body s1)"
    and "reply_id body = nextId s" "bytes \<le> length body" "12 \<le> length body"
  shows "exchange (proxy_transport px heap stack behind fd) (nextId s) msg (snd (allocate_call_result bytes s)) =
    Some (body, s\<lparr>net := SendWebSocketMessage fd body s1, nextId := nextId s + 1,
                  completed := (completed s)(nextId s := None)\<rparr>)"
  using transport_one [OF assms(2,5,6,7)] assms by (intro exchange_one) simp_all

lemma u32_size: "unat (n :: u32) < 4294967296"
  using unat_lt_2_32 [of n] by simp

lemma remote_bind':
  assumes "fresh_call s" and "background (net s) = []"
    and "IsSocketPartOfConnection fd sock (net s)"
    and "px_bind px sock (memory_or_zeros address (unat len)) (world (net s)) = (ret, e, w)"
  shows "\<exists>s'. c_bind (proxy_transport px heap stack behind fd) cheap sock address len s = Some (ret, s') \<and>
    world (net s') = w \<and> c_errno s' = (if ret = 0 then c_errno s else e)"
proof -
  let ?msg = "call_header (nextId s) 4 @ le32 sock @ le32 len @ memory_or_zeros address (unat len)"
  let ?s1 = "(net s)\<lparr>world := w, os_errno := e\<rparr>"
  let ?body = "result_header (nextId s) ret (if ret \<noteq> 0 then e else 0)"
  have arg: "slice (buffer_of (memory_or_zeros address (unat len)) m) 0 (unat len) = memory_or_zeros address (unat len)" for m
    by (rule slice_all) simp
  have "Bind px fd (buffer_of ?msg behind) (net s) = SendWebSocketMessage fd ?body ?s1"
    using assms by (simp add: Bind_def Let_def sys_def call_id_def socket_of_def arg)
  then have "exchange (proxy_transport px heap stack behind fd) (nextId s) ?msg (snd (allocate_call_result 12 s)) =
    Some (?body, s\<lparr>net := SendWebSocketMessage fd ?body ?s1, nextId := nextId s + 1,
                  completed := (completed s)(nextId s := None)\<rparr>)"
    using assms u32_size [of len]
    by (intro remote_call) (simp_all add: ProcessWebSocketMessageSynchronouslyInCurrentThread_def)
  then show ?thesis
    by (simp add: c_bind_def Let_def split_beta fail_with_def)
qed


section \<open>The remote calls\<close>

lemma sync_cases:
  "rd32 d 4 = 1 \<Longrightarrow> ProcessWebSocketMessageSynchronouslyInCurrentThread px heap stack c d n s = Some (Socket px c d s)"
  "rd32 d 4 = 7 \<Longrightarrow> ProcessWebSocketMessageSynchronouslyInCurrentThread px heap stack c d n s = Accept px c d s"
  "rd32 d 4 = 10 \<Longrightarrow> ProcessWebSocketMessageSynchronouslyInCurrentThread px heap stack c d n s = Some (Send px c d n s)"
  "rd32 d 4 = 11 \<Longrightarrow> ProcessWebSocketMessageSynchronouslyInCurrentThread px heap stack c d n s = Recv px heap c d s"
  "rd32 d 4 = 16 \<Longrightarrow> ProcessWebSocketMessageSynchronouslyInCurrentThread px heap stack c d n s = Getsockopt px stack c d s"
  by (simp_all add: ProcessWebSocketMessageSynchronouslyInCurrentThread_def)

lemma track_effect [simp]:
  "background (TrackSocketUsedByConnection c k s) = background s"
  "world (TrackSocketUsedByConnection c k s) = world s"
  "IsSocketPartOfConnection c k (TrackSocketUsedByConnection c k s)"
  by (auto simp: TrackSocketUsedByConnection_def IsSocketPartOfConnection_def registered_def split: option.split)

lemma owner_of_send [simp]:
  "IsSocketPartOfConnection c k (SendWebSocketMessage fd body s) = IsSocketPartOfConnection c k s"
  by (simp add: SendWebSocketMessage_def IsSocketPartOfConnection_def)

lemma remote_socket':
  assumes "fresh_call s" and "background (net s) = []"
    and "px_socket px (Translate_Socket_Domain (px_host px) domain) (Translate_Socket_Type (px_host px) type)
           (Translate_Socket_Protocol (px_host px) protocol) (world (net s)) = (ret, e, w)"
    and "0 \<le> sint ret"
  shows "\<exists>s'. c_socket (proxy_transport px heap stack behind fd) cheap domain type protocol s = Some (ret, s') \<and>
    world (net s') = w \<and> c_errno s' = c_errno s \<and> IsSocketPartOfConnection fd ret (net s')"
proof -
  let ?msg = "call_header (nextId s) 1 @ le32 domain @ le32 type @ le32 protocol"
  let ?s1 = "TrackSocketUsedByConnection fd ret ((net s)\<lparr>world := w, os_errno := e\<rparr>)"
  let ?body = "result_header (nextId s) ret 0"
  have "Socket px fd (buffer_of ?msg behind) (net s) = SendWebSocketMessage fd ?body ?s1"
    using assms rd32_last by (simp add: Socket_def Let_def sys_def call_id_def)
  then have "exchange (proxy_transport px heap stack behind fd) (nextId s) ?msg (snd (allocate_call_result 12 s)) =
    Some (?body, s\<lparr>net := SendWebSocketMessage fd ?body ?s1, nextId := nextId s + 1,
                  completed := (completed s)(nextId s := None)\<rparr>)"
    using assms by (intro remote_call) (simp_all add: sync_cases)
  then show ?thesis
    using assms(4) by (simp add: c_socket_def Let_def split_beta fail_with_def)
qed

lemma remote_recv':
  assumes "fresh_call s" and "background (net s) = []"
    and "IsSocketPartOfConnection fd sock (net s)"
    and "px_recv px sock len flags (world (net s)) = ((int (length bytes), bytes), e, w)"
    and "length bytes \<le> unat len" "length bytes < 2 ^ 31 - 12"
  shows "\<exists>s'. c_recv (proxy_transport px heap stack behind fd) cheap sock True len flags s =
      Some (word_of_nat (length bytes), Some bytes, s') \<and> world (net s') = w \<and> c_errno s' = c_errno s"
proof -
  let ?msg = "call_header (nextId s) 11 @ le32 sock @ le32 len @ le32 flags"
  let ?s1 = "(net s)\<lparr>world := w, os_errno := e\<rparr>"
  let ?n = "word_of_nat (length bytes) :: u32"
  let ?body = "result_header (nextId s) ?n (if bytes = [] then 0 else e) @ bytes"
  have n1: "unat ?n = length bytes" using assms(6) by (simp add: unsigned_of_nat take_bit_nat_eq_self)
  have n2: "sint ?n = int (length bytes)"
    using assms(6) by (simp add: signed_of_nat signed_take_bit_int_eq_self)
  have n3: "min ?n len = ?n" using assms(5) n1 by (intro min.absorb1) (simp add: word_le_nat_alt)
  note n = n1 n2 n3
  have "Recv px heap fd (buffer_of ?msg behind) (net s) = Some (SendWebSocketMessage fd ?body ?s1)"
    using assms by (simp add: Recv_def Let_def sys_def call_id_def socket_of_def reply_def slice_all)
  then have "exchange (proxy_transport px heap stack behind fd) (nextId s) ?msg (snd (allocate_call_result 12 s)) =
    Some (?body, s\<lparr>net := SendWebSocketMessage fd ?body ?s1, nextId := nextId s + 1,
                  completed := (completed s)(nextId s := None)\<rparr>)"
    using assms by (intro remote_call) (simp_all add: sync_cases)
  then show ?thesis
    using n by (simp add: c_recv_def Let_def split_beta fail_with_def slice_all)
qed

lemma getsockopt_shifted':
  assumes "fresh_call s" and "background (net s) = []"
    and "IsSocketPartOfConnection fd sock (net s)"
    and "px_getsockopt px sock (Translate_Socket_Level (px_host px) level)
           (Translate_SOL_SOCKET_option (px_host px) name) wanted (world (net s)) = ((0, value, word_of_nat (length value)), e, w)"
    and "length value \<le> unat wanted" "unat wanted < 2 ^ 31 - 16"
  shows "\<exists>s'. c_getsockopt (proxy_transport px heap stack behind fd) cheap sock level name True wanted s =
      Some (0, Some (Some (take (unat wanted) (le32 (word_of_nat (length value)) @ value)), word_of_nat (length value + 4)), s')"
proof -
  let ?msg = "call_header (nextId s) 16 @ le32 sock @ le32 level @ le32 name @ le32 wanted"
  let ?s1 = "(net s)\<lparr>world := w, os_errno := e\<rparr>"
  let ?n = "word_of_nat (length value) :: u32"
  let ?body = "result_header (nextId s) 0 0 @ le32 ?n @ value"
  have n1: "unat ?n = length value" "length value < 2 ^ 31 - 16"
    "unat (word_of_nat (length value + 4) :: u32) = length value + 4"
    using assms(5,6) by (simp_all add: unsigned_of_nat take_bit_nat_eq_self del: of_nat_add)
  have n2: "min ?n wanted = ?n" using assms(5) n1 by (intro min.absorb1) (simp add: word_le_nat_alt)
  note n = n1(1) n2 n1(2,3)
  have "Getsockopt px stack fd (buffer_of ?msg behind) (net s) = Some (SendWebSocketMessage fd ?body ?s1)"
    using assms n by (simp add: Getsockopt_def Let_def sys_def call_id_def socket_of_def reply_def slice_all)
  then have x: "exchange (proxy_transport px heap stack behind fd) (nextId s) ?msg (snd (allocate_call_result 12 s)) =
    Some (?body, s\<lparr>net := SendWebSocketMessage fd ?body ?s1, nextId := nextId s + 1,
                  completed := (completed s)(nextId s := None)\<rparr>)"
    using assms by (intro remote_call) (simp_all add: sync_cases)
  have len: "word_of_nat (length ?body) - 12 = (word_of_nat (length value + 4) :: u32)" by simp
  have got: "slice (buffer_of (le32 ?n @ value) m) 0 (unat (min wanted (word_of_nat (length value + 4)))) =
      take (unat wanted) (le32 ?n @ value)" for m
  proof -
    have "unat (min wanted (word_of_nat (length value + 4))) = min (unat wanted) (length value + 4)"
      using n(4) by (auto simp: min_def word_le_nat_alt simp del: of_nat_add)
    then show ?thesis by (simp add: slice_take min_def del: of_nat_add)
  qed
  show ?thesis
    using x by (simp add: c_getsockopt_def split_beta fail_with_def len Let_def got del: of_nat_add length_append)
qed

lemma accept_without_address':
  assumes "fresh_call s" and "background (net s) = []"
    and "IsSocketPartOfConnection fd sock (net s)"
    and "px_accept px sock (Some (min n 256)) (world (net s)) = ((ret, addr, addr_len), e, w)"
    and "0 < sint ret" "n \<noteq> 0" "addr_len \<le> 256"
  shows "\<exists>s'. c_accept (proxy_transport px heap stack behind fd) cheap at_null sock True (Some n) s = Some (ret, None, s') \<and>
    world (net s') = w \<and> c_errno s' = 0 \<and> IsSocketPartOfConnection fd ret (net s')"
proof -
  let ?msg = "call_header (nextId s) 7 @ le32 sock @ le32 n"
  let ?s1 = "TrackSocketUsedByConnection fd ret ((net s)\<lparr>world := w, os_errno := e\<rparr>)"
  let ?k = "unat (min addr_len n)"
  let ?body = "(result_header (nextId s) ret 0 @ le32 addr_len) @ slice (buffer_of addr (\<lambda>i. 0)) 0 ?k"
  have "min addr_len n \<le> addr_len" by simp
  then have "?k \<le> 256" using assms(7) by (simp add: word_le_nat_alt)
  moreover have "max 0 (min n 256) = min n (256 :: u32)" by simp
  moreover have "?k < 2147483632" using \<open>?k \<le> 256\<close> by simp
  ultimately have "Accept px fd (buffer_of ?msg behind) (net s) = Some (SendWebSocketMessage fd ?body ?s1)"
    using assms rd32_last
    by (simp add: Accept_def Let_def sys_def call_id_def socket_of_def reply_def max_def)
  then have "exchange (proxy_transport px heap stack behind fd) (nextId s) ?msg (snd (allocate_call_result 12 s)) =
    Some (?body, s\<lparr>net := SendWebSocketMessage fd ?body ?s1, nextId := nextId s + 1,
                  completed := (completed s)(nextId s := None)\<rparr>)"
    using assms by (intro remote_call) (simp_all add: sync_cases)
  then show ?thesis
    using assms(5) by (auto simp: c_accept_def Let_def split_beta fail_with_def)
qed

section \<open>Properties\<close>

definition demo_client :: "unit proxy client" where
  "demo_client = \<lparr>net = demo_proxy, nextId = 9, callResultHead = [(7, 12)], completed = (\<lambda>_. None), c_errno = 0\<rparr>"

abbreviation zeros :: buffer where "zeros \<equiv> (\<lambda>_. 0)"

lemma demo_client_ready:
  "fresh_call demo_client" "background (net demo_client) = []"
  "IsSocketPartOfConnection 3 5 (net demo_client)" "world (net demo_client) = ()" "c_errno demo_client = 0"
  by (simp_all add: demo_client_def demo_proxy_def fresh_call_def IsSocketPartOfConnection_def)

text \<open>
  Replies may arrive in any order: when every message that arrives is the reply of a pending
  call, one per call and long enough for it, each call gets exactly its own reply and the calls without a
  reply stay pending.
\<close>

theorem replies_reach_their_calls:
  assumes "distinct (map fst (callResultHead s))" and "distinct (map reply_id ds)"
    and "\<forall>d\<in>set ds. 12 \<le> length d \<and>
      (\<exists>n. map_of (callResultHead s) (reply_id d) = Some n \<and> n \<le> length d)"
  shows "fold bridge_socket_on_message ds s =
    s\<lparr>callResultHead := filter (\<lambda>(j, n). j \<notin> reply_id ` set ds) (callResultHead s),
      completed := completed s ++ map_of (map (\<lambda>d. (reply_id d, d)) ds)\<rparr>"
  using assms by (rule deliver_all)

theorem replies_reach_their_calls_witness:
  "completed (fold bridge_socket_on_message [result_header 9 0 0, result_header 7 5 0]
      (demo_client\<lparr>callResultHead := [(7, 12), (8, 16), (9, 12)]\<rparr>)) =
     [9 \<mapsto> result_header 9 0 0, 7 \<mapsto> result_header 7 5 0]"
  using replies_reach_their_calls [of "demo_client\<lparr>callResultHead := [(7, 12), (8, 16), (9, 12)]\<rparr>"
      "[result_header 9 0 0, result_header 7 5 0]"]
  by (simp add: demo_client_def fun_upd_twist)

text \<open>
  A remote \<open>socket\<close>: when the call on the proxy succeeds with the translated constants, the
  program gets its descriptor, and the proxy from then on accepts calls of this connection on it.
\<close>

theorem remote_socket:
  assumes "fresh_call s" and "background (net s) = []"
    and "px_socket px (Translate_Socket_Domain (px_host px) domain) (Translate_Socket_Type (px_host px) type)
           (Translate_Socket_Protocol (px_host px) protocol) (world (net s)) = (ret, e, w)"
    and "0 \<le> sint ret"
  shows "\<exists>s'. c_socket (proxy_transport px heap stack behind fd) cheap domain type protocol s = Some (ret, s') \<and>
    world (net s') = w \<and> c_errno s' = c_errno s \<and> IsSocketPartOfConnection fd ret (net s')"
  using assms by (rule remote_socket')

theorem remote_socket_witness:
  "\<exists>s'. c_socket (proxy_transport demo_posix zeros zeros zeros 4) zeros 2 1 6 demo_client = Some (5, s') \<and>
    IsSocketPartOfConnection 4 5 (net s')"
proof -
  have "px_socket demo_posix a b c w = (5, 0, w)" for a b c w by (simp add: demo_posix_def)
  from remote_socket [where fd = 4 and domain = 2 and type = 1 and protocol = 6 and heap = zeros and stack = zeros and behind = zeros and cheap = zeros, OF demo_client_ready(1,2) this]
  show ?thesis by auto
qed

text \<open>
  A remote \<open>bind\<close> on a socket of the connection: the operating system sees exactly the
  address the program passed, and the program gets its result and, on failure, its error code.
\<close>

theorem remote_bind:
  assumes "fresh_call s" and "background (net s) = []"
    and "IsSocketPartOfConnection fd sock (net s)"
    and "px_bind px sock (memory_or_zeros address (unat len)) (world (net s)) = (ret, e, w)"
  shows "\<exists>s'. c_bind (proxy_transport px heap stack behind fd) cheap sock address len s = Some (ret, s') \<and>
    world (net s') = w \<and> c_errno s' = (if ret = 0 then c_errno s else e)"
  using assms by (rule remote_bind')

theorem remote_bind_witness:
  "\<exists>s'. c_bind (proxy_transport (demo_posix\<lparr>px_bind := \<lambda>a b w. (- 1, 98, w)\<rparr>) zeros zeros zeros 3) zeros 5 None 16
      demo_client = Some (- 1, s') \<and> c_errno s' = 98"
proof -
  have "px_bind (demo_posix\<lparr>px_bind := \<lambda>a b w. (- 1, 98, w)\<rparr>) 5 b w = (- 1, 98, w)" for b w
    by simp
  from remote_bind [where address = None and len = 16 and heap = zeros and stack = zeros and behind = zeros and cheap = zeros, OF demo_client_ready(1,2,3) this]
  show ?thesis by auto
qed

text \<open>
  A remote \<open>recv\<close> hands the program exactly the bytes and the count the operating system gave
  the proxy, through the background thread the proxy runs it on; \<open>errno\<close> is untouched.
\<close>

theorem remote_recv:
  assumes "fresh_call s" and "background (net s) = []"
    and "IsSocketPartOfConnection fd sock (net s)"
    and "px_recv px sock len flags (world (net s)) = ((int (length bytes), bytes), e, w)"
    and "length bytes \<le> unat len" "length bytes < 2 ^ 31 - 12"
  shows "\<exists>s'. c_recv (proxy_transport px heap stack behind fd) cheap sock True len flags s =
      Some (word_of_nat (length bytes), Some bytes, s') \<and> world (net s') = w \<and> c_errno s' = c_errno s"
  using assms by (rule remote_recv')

theorem remote_recv_witness:
  "\<exists>s'. c_recv (proxy_transport demo_posix zeros zeros zeros 3) zeros 5 True 64 0 demo_client = Some (1, Some [65], s')"
proof -
  have "px_recv demo_posix 5 64 0 w = ((int (length [65]), [65]), 0, w)" for w by (simp add: demo_posix_def)
  from remote_recv [where heap = zeros and stack = zeros and behind = zeros and cheap = zeros, OF demo_client_ready(1,2,3) this]
  show ?thesis by auto
qed

text \<open>
  A remote \<open>accept\<close> that succeeds gives the program the new descriptor but never the address
  of its peer: the client decodes it only for the result 0, and it sets \<open>errno\<close> although nothing failed.
\<close>

theorem accept_without_address:
  assumes "fresh_call s" and "background (net s) = []"
    and "IsSocketPartOfConnection fd sock (net s)"
    and "px_accept px sock (Some (min n 256)) (world (net s)) = ((ret, addr, addr_len), e, w)"
    and "0 < sint ret" "n \<noteq> 0" "addr_len \<le> 256"
  shows "\<exists>s'. c_accept (proxy_transport px heap stack behind fd) cheap at_null sock True (Some n) s = Some (ret, None, s') \<and>
    world (net s') = w \<and> c_errno s' = 0 \<and> IsSocketPartOfConnection fd ret (net s')"
  using assms by (rule accept_without_address')

theorem accept_without_address_witness:
  "\<exists>s'. c_accept (proxy_transport demo_posix zeros zeros zeros 3) zeros 0 5 True (Some 16) demo_client = Some (7, None, s') \<and>
    IsSocketPartOfConnection 3 7 (net s')"
proof -
  have "px_accept demo_posix 5 (Some (min 16 256)) w = ((7, [], 0), 0, w)" for w by (simp add: demo_posix_def)
  from accept_without_address [where heap = zeros and stack = zeros and behind = zeros and cheap = zeros and at_null = 0, OF demo_client_ready(1,2,3) this]
  show ?thesis by auto
qed

text \<open>
  A remote \<open>getsockopt\<close> that succeeds returns the wrong value: the reply carries the length of
  the value in front of it, the client takes that length for the first four bytes of the value (all
  of it for an \<open>int\<close> option), and reports a length that is four too large.
\<close>

theorem getsockopt_shifted:
  assumes "fresh_call s" and "background (net s) = []"
    and "IsSocketPartOfConnection fd sock (net s)"
    and "px_getsockopt px sock (Translate_Socket_Level (px_host px) level)
           (Translate_SOL_SOCKET_option (px_host px) name) wanted (world (net s)) = ((0, value, word_of_nat (length value)), e, w)"
    and "length value \<le> unat wanted" "unat wanted < 2 ^ 31 - 16"
  shows "\<exists>s'. c_getsockopt (proxy_transport px heap stack behind fd) cheap sock level name True wanted s =
      Some (0, Some (Some (take (unat wanted) (le32 (word_of_nat (length value)) @ value)), word_of_nat (length value + 4)), s')"
  using assms by (rule getsockopt_shifted')

theorem getsockopt_shifted_witness:
  "\<exists>s'. c_getsockopt (proxy_transport demo_posix zeros zeros zeros 3) zeros 5 1 4 True 4 demo_client =
      Some (0, Some (Some [4, 0, 0, 0], 8), s')"
proof -
  have "px_getsockopt demo_posix 5 l k 4 w = ((0, [1, 0, 0, 0], word_of_nat (length [1 :: u8, 0, 0, 0])), 0, w)" for l k w
    by (simp add: demo_posix_def)
  from getsockopt_shifted [where heap = zeros and stack = zeros and behind = zeros and cheap = zeros, OF demo_client_ready(1,2,3) this]
  show ?thesis by (simp add: le32_def)
qed

end
