(* ===== verification/Locks.thy ===== *)
theory Locks
  imports Prelude "HOL-Library.Multiset"
begin

text \<open>
  Locks, condition variables and semaphores on wasm atomics:
  \<open>system/lib/pthread/emscripten_thread_primitives.c\<close>. Each C function is a machine: its control
  point together with the local variables that are live there, and a function that gives the
  effect of its next atomic instruction on the shared cell. A system interleaves the
  instructions of any number of threads; a call waiting in \<open>memory.atomic.wait32\<close> only moves when
  it is notified or times out.
\<close>

section \<open>The atomic instructions\<close>

text \<open>The cell after a compare-and-swap; the instruction returns the value it found.\<close>

definition atomic_cas :: "u32 \<Rightarrow> u32 \<Rightarrow> u32 \<Rightarrow> u32" where
  "atomic_cas expected replacement c = (if c = expected then replacement else c)"

section \<open>Locks and condition variables\<close>

text \<open>
  The flags of the condition variable points say whether the wait is timed. \<open>Notify\<close> and
  \<open>Cv_notify\<close> stand between the store and the \<open>atomic_notify\<close> of \<open>emscripten_lock_release\<close>;
  \<open>Sig_notify\<close> stands between the two instructions of \<open>emscripten_condvar_signal\<close>, its flag says
  whether the caller holds the lock. \<open>val\<close> is the value that the failing compare-and-swap found.
\<close>

datatype lock_pc =
    Out
  | Acquire | Inf_wait u32 | Inf_asleep
  | Timed_first | Timed_wait u32 | Timed_asleep | Timed_retry
  | Spin | Spin_timed | Try
  | Inside | Notify
  | Cv_loaded bool u32 | Cv_notify bool u32 | Cv_wait bool u32 | Cv_asleep bool u32
  | Sig_notify bool u32

text \<open>
  The acquiring functions. \<open>time_left\<close> is what the clock says when the code asks for it.
\<close>

fun emscripten_lock_waitinf_acquire :: "u32 \<Rightarrow> lock_pc \<Rightarrow> (u32 \<times> lock_pc) option" where
  "emscripten_lock_waitinf_acquire c Acquire =
     Some (atomic_cas 0 1 c, if c \<noteq> 0 then Inf_wait c else Inside)"
| "emscripten_lock_waitinf_acquire c (Inf_wait val) =
     Some (c, if c = val then Inf_asleep else Acquire)"
| "emscripten_lock_waitinf_acquire c _ = None"

fun emscripten_lock_wait_acquire :: "bool \<Rightarrow> u32 \<Rightarrow> lock_pc \<Rightarrow> (u32 \<times> lock_pc) option" where
  "emscripten_lock_wait_acquire time_left c Timed_first =
     Some (atomic_cas 0 1 c, if c = 0 then Inside else if time_left then Timed_wait c else Out)"
| "emscripten_lock_wait_acquire time_left c (Timed_wait val) =
     Some (c, if c = val then Timed_asleep else Timed_retry)"
| "emscripten_lock_wait_acquire time_left c Timed_retry =
     Some (atomic_cas 0 1 c, if c = 0 then Inside else if time_left then Timed_wait c else Out)"
| "emscripten_lock_wait_acquire time_left c _ = None"

fun emscripten_lock_busyspin_waitinf_acquire :: "u32 \<Rightarrow> lock_pc \<Rightarrow> (u32 \<times> lock_pc) option" where
  "emscripten_lock_busyspin_waitinf_acquire c Spin =
     Some (atomic_cas 0 1 c, if c \<noteq> 0 then Spin else Inside)"
| "emscripten_lock_busyspin_waitinf_acquire c _ = None"

fun emscripten_lock_busyspin_wait_acquire :: "bool \<Rightarrow> u32 \<Rightarrow> lock_pc \<Rightarrow> (u32 \<times> lock_pc) option" where
  "emscripten_lock_busyspin_wait_acquire time_left c Spin_timed =
     Some (atomic_cas 0 1 c, if c = 0 then Inside else if time_left then Spin_timed else Out)"
| "emscripten_lock_busyspin_wait_acquire time_left c _ = None"

fun emscripten_lock_try_acquire :: "u32 \<Rightarrow> lock_pc \<Rightarrow> (u32 \<times> lock_pc) option" where
  "emscripten_lock_try_acquire c Try = Some (atomic_cas 0 1 c, if c = 0 then Inside else Out)"
| "emscripten_lock_try_acquire c _ = None"

text \<open>The stores of \<open>emscripten_lock_release\<close>; the notification that follows concerns other threads.\<close>

fun emscripten_lock_release :: "u32 \<Rightarrow> lock_pc \<Rightarrow> (u32 \<times> lock_pc) option" where
  "emscripten_lock_release c Inside = Some (0, Notify)"
| "emscripten_lock_release c (Cv_loaded timed val) = Some (0, Cv_notify timed val)"
| "emscripten_lock_release c _ = None"

text \<open>The instructions of the condition variable \<open>cv\<close> that only its own thread sees.\<close>

fun emscripten_condvar_waitinf :: "u32 \<Rightarrow> lock_pc \<Rightarrow> lock_pc option" where
  "emscripten_condvar_waitinf cv Inside = Some (Cv_loaded False cv)"
| "emscripten_condvar_waitinf cv (Cv_wait False val) =
     Some (if cv = val then Cv_asleep False val else Acquire)"
| "emscripten_condvar_waitinf cv _ = None"

fun emscripten_condvar_wait :: "u32 \<Rightarrow> lock_pc \<Rightarrow> lock_pc option" where
  "emscripten_condvar_wait cv Inside = Some (Cv_loaded True cv)"
| "emscripten_condvar_wait cv (Cv_wait True val) =
     Some (if cv = val then Cv_asleep True val else Timed_first)"
| "emscripten_condvar_wait cv _ = None"

text \<open>What a thread does when its wait ends by a notification, and by a time-out.\<close>

fun woken :: "lock_pc \<Rightarrow> lock_pc" where
  "woken Inf_asleep = Acquire"
| "woken Timed_asleep = Timed_retry"
| "woken (Cv_asleep timed val) = (if timed then Timed_first else Acquire)"
| "woken p = p"

fun timed_out :: "lock_pc \<Rightarrow> lock_pc option" where
  "timed_out Timed_asleep = Some Timed_retry"
| "timed_out (Cv_asleep timed val) = (if timed then Some Out else None)"
| "timed_out p = None"

section \<open>The system\<close>

record lock_sys =
  cell :: u32
  cv :: u32
  pcs :: "nat \<Rightarrow> lock_pc"

definition on_lock :: "lock_pc \<Rightarrow> bool" where
  "on_lock p \<longleftrightarrow> p = Inf_asleep \<or> p = Timed_asleep"

definition on_cv :: "lock_pc \<Rightarrow> bool" where
  "on_cv p \<longleftrightarrow> (\<exists>t v. p = Cv_asleep t v)"

text \<open>
  \<open>memory.atomic.notify\<close> of at most \<open>n\<close> waiters wakes a set of that many sleepers, or all if
  there are fewer. \<open>calls\<close> are the points a thread outside the lock may jump to.
\<close>

definition notified :: "(lock_pc \<Rightarrow> bool) \<Rightarrow> nat \<Rightarrow> nat set \<Rightarrow> lock_sys \<Rightarrow> bool" where
  "notified P n W s \<longleftrightarrow> finite W \<and> W \<subseteq> {j. P (pcs s j)} \<and> card W \<le> n \<and>
     (card W < n \<longrightarrow> W = {j. P (pcs s j)})"

definition wake_all :: "nat set \<Rightarrow> lock_sys \<Rightarrow> lock_sys" where
  "wake_all W s = s\<lparr>pcs := \<lambda>j. if j \<in> W then woken (pcs s j) else pcs s j\<rparr>"

definition goto :: "nat \<Rightarrow> lock_pc \<Rightarrow> lock_sys \<Rightarrow> lock_sys" where
  "goto i p s = s\<lparr>pcs := (pcs s)(i := p)\<rparr>"

definition acquiring_step :: "bool \<Rightarrow> u32 \<Rightarrow> lock_pc \<Rightarrow> (u32 \<times> lock_pc) option" where
  "acquiring_step time_left c p =
     (case p of
        Acquire \<Rightarrow> emscripten_lock_waitinf_acquire c p
      | Inf_wait v \<Rightarrow> emscripten_lock_waitinf_acquire c p
      | Spin \<Rightarrow> emscripten_lock_busyspin_waitinf_acquire c p
      | Spin_timed \<Rightarrow> emscripten_lock_busyspin_wait_acquire time_left c p
      | Try \<Rightarrow> emscripten_lock_try_acquire c p
      | _ \<Rightarrow> emscripten_lock_wait_acquire time_left c p)"

inductive lock_step :: "lock_sys \<Rightarrow> lock_sys \<Rightarrow> bool" where
  call: "pcs s i = Out \<Longrightarrow> p \<in> {Acquire, Timed_first, Spin, Spin_timed, Try} \<Longrightarrow> lock_step s (goto i p s)"
| acquire: "acquiring_step time_left (cell s) (pcs s i) = Some (c, p) \<Longrightarrow>
    lock_step s ((goto i p s)\<lparr>cell := c\<rparr>)"
| release: "emscripten_lock_release (cell s) (pcs s i) = Some (c, p) \<Longrightarrow>
    lock_step s ((goto i p s)\<lparr>cell := c\<rparr>)"
| notify: "pcs s i = Notify \<Longrightarrow> notified on_lock 1 W s \<Longrightarrow> lock_step s (goto i Out (wake_all W s))"
| condvar_inf: "emscripten_condvar_waitinf (cv s) (pcs s i) = Some p \<Longrightarrow> lock_step s (goto i p s)"
| condvar_timed: "emscripten_condvar_wait (cv s) (pcs s i) = Some p \<Longrightarrow> lock_step s (goto i p s)"
| condvar_notify: "pcs s i = Cv_notify t v \<Longrightarrow> notified on_lock 1 W s \<Longrightarrow>
    lock_step s (goto i (Cv_wait t v) (wake_all W s))"
| signal: "pcs s i = (if held then Inside else Out) \<Longrightarrow>
    lock_step s ((goto i (Sig_notify held n) s)\<lparr>cv := cv s + 1\<rparr>)"
| signal_notify: "pcs s i = Sig_notify held n \<Longrightarrow>
    (if n = - 1 then W = {j. on_cv (pcs s j)} else notified on_cv (unat n) W s) \<Longrightarrow>
    lock_step s (goto i (if held then Inside else Out) (wake_all W s))"
| time_out: "timed_out (pcs s i) = Some p \<Longrightarrow> lock_step s (goto i p s)"

inductive_cases lock_stepE: "lock_step s s'"

definition emscripten_lock_init :: "lock_sys \<Rightarrow> lock_sys" where
  "emscripten_lock_init s = s\<lparr>cell := 0\<rparr>"

definition emscripten_condvar_init :: "lock_sys \<Rightarrow> lock_sys" where
  "emscripten_condvar_init s = s\<lparr>cv := 0\<rparr>"

definition lock_start :: "lock_sys \<Rightarrow> bool" where
  "lock_start s \<longleftrightarrow> (\<exists>s0. s = emscripten_lock_init (emscripten_condvar_init s0)) \<and> (\<forall>i. pcs s i = Out)"

inductive lock_reachable :: "lock_sys \<Rightarrow> bool" where
  init: "lock_start s \<Longrightarrow> lock_reachable s"
| step: "lock_reachable s \<Longrightarrow> lock_step s s' \<Longrightarrow> lock_reachable s'"

section \<open>The invariant\<close>

text \<open>Who holds the lock, and who will look at it or pass it on without being notified first.\<close>

fun holds :: "lock_pc \<Rightarrow> bool" where
  "holds Inside = True"
| "holds (Cv_loaded t v) = True"
| "holds (Sig_notify held n) = held"
| "holds p = False"

fun awake :: "lock_pc \<Rightarrow> bool" where
  "awake Acquire = True"
| "awake Timed_first = True"
| "awake Timed_retry = True"
| "awake Spin = True"
| "awake Spin_timed = True"
| "awake Try = True"
| "awake Notify = True"
| "awake (Cv_notify t v) = True"
| "awake p = False"

fun saw :: "lock_pc \<Rightarrow> u32 option" where
  "saw (Inf_wait v) = Some v"
| "saw (Timed_wait v) = Some v"
| "saw p = None"

definition lock_inv :: "lock_sys \<Rightarrow> bool" where
  "lock_inv s \<longleftrightarrow>
     (cell s = 0 \<or> cell s = 1) \<and>
     (cell s = 1 \<longleftrightarrow> (\<exists>i. holds (pcs s i))) \<and>
     (\<forall>i j. holds (pcs s i) \<longrightarrow> holds (pcs s j) \<longrightarrow> i = j) \<and>
     (\<forall>i v. saw (pcs s i) = Some v \<longrightarrow> v = 1) \<and>
     ((\<exists>i. on_lock (pcs s i)) \<longrightarrow> cell s = 1 \<or> (\<exists>j. awake (pcs s j)))"

lemma lock_invI:
  assumes "cell s = 0 \<or> cell s = 1" and "cell s = 1 \<longleftrightarrow> (\<exists>i. holds (pcs s i))"
    and "\<And>i j. holds (pcs s i) \<Longrightarrow> holds (pcs s j) \<Longrightarrow> i = j"
    and "\<And>i v. saw (pcs s i) = Some v \<Longrightarrow> v = 1"
    and "\<And>i. on_lock (pcs s i) \<Longrightarrow> cell s = 1 \<or> (\<exists>j. awake (pcs s j))"
  shows "lock_inv s"
  using assms unfolding lock_inv_def by blast

lemma lock_invD:
  assumes "lock_inv s"
  shows "cell s = 0 \<or> cell s = 1" and "cell s = 1 \<longleftrightarrow> (\<exists>i. holds (pcs s i))"
    and "holds (pcs s i) \<Longrightarrow> holds (pcs s j) \<Longrightarrow> i = j"
    and "saw (pcs s i) = Some v \<Longrightarrow> v = 1"
    and "on_lock (pcs s i) \<Longrightarrow> cell s = 1 \<or> (\<exists>j. awake (pcs s j))"
  using assms unfolding lock_inv_def by blast+

lemma lock_inv_held: "lock_inv s \<Longrightarrow> holds (pcs s i) \<Longrightarrow> cell s = 1"
  using lock_invD(2) by blast

lemma woken_simps [simp]:
  "holds (woken p) = holds p" "saw (woken p) = saw p" "on_lock (woken p) = False" "on_cv (woken p) = False"
  "on_lock p \<Longrightarrow> awake (woken p)" "awake p \<Longrightarrow> awake (woken p)"
  by (cases p; simp add: on_lock_def on_cv_def)+

lemma pcs_simps [simp]:
  "pcs (goto i p s) = (pcs s)(i := p)" "cell (goto i p s) = cell s" "cv (goto i p s) = cv s"
  "pcs (wake_all W s) j = (if j \<in> W then woken (pcs s j) else pcs s j)"
  "cell (wake_all W s) = cell s" "cv (wake_all W s) = cv s"
  by (simp_all add: goto_def wake_all_def)

text \<open>
  One thread moves from \<open>p\<close> to \<open>p'\<close> and the cell from \<open>c\<close> to \<open>c'\<close>: what must hold of the move for
  the invariant to be kept.
\<close>

definition good_move :: "u32 \<Rightarrow> lock_pc \<Rightarrow> u32 \<Rightarrow> lock_pc \<Rightarrow> bool" where
  "good_move c p c' p' \<longleftrightarrow>
     (c' = 0 \<or> c' = 1) \<and>
     (holds p \<longrightarrow> c' = (if holds p' then 1 else 0)) \<and>
     (\<not> holds p \<longrightarrow> holds p' \<longrightarrow> c = 0 \<and> c' = 1) \<and>
     (\<not> holds p \<longrightarrow> \<not> holds p' \<longrightarrow> c' = c) \<and>
     (\<forall>v. saw p' = Some v \<longrightarrow> v = 1) \<and>
     (on_lock p' \<longrightarrow> on_lock p \<or> c' = 1) \<and>
     ((awake p \<or> c = 1) \<longrightarrow> awake p' \<or> c' = 1)"

lemma good_move_inv:
  assumes inv: "lock_inv s" and move: "good_move (cell s) (pcs s i) c' p'"
  shows "lock_inv ((goto i p' s)\<lparr>cell := c'\<rparr>)"
proof -
  let ?s = "(goto i p' s)\<lparr>cell := c'\<rparr>"
  note one = lock_invD(2,1) [OF inv] and uniq = lock_invD(3) [OF inv]
    and saw1 = lock_invD(4) [OF inv] and live = lock_invD(5) [OF inv]
  have others: "\<not> holds (pcs s j)" if "holds p'" "j \<noteq> i" for j
  proof (cases "holds (pcs s i)")
    case True
    then show ?thesis using uniq that(2) by blast
  next
    case False
    then have "cell s = 0" using move that(1) by (simp add: good_move_def)
    then show ?thesis using one(1) by auto
  qed
  have A: "c' = 1 \<longleftrightarrow> (\<exists>j. holds (pcs ?s j))"
  proof (cases "holds p'")
    case True
    then have "c' = 1" using move by (auto simp: good_move_def)
    moreover have "holds (pcs ?s i)" using True by simp
    ultimately show ?thesis by blast
  next
    case no: False
    show ?thesis
    proof (cases "holds (pcs s i)")
      case True
      then have "c' = 0" using no move by (simp add: good_move_def)
      moreover have "\<not> holds (pcs ?s j)" for j using True no uniq by (cases "j = i") auto
      ultimately show ?thesis by simp
    next
      case False
      then have "c' = cell s" using no move by (simp add: good_move_def)
      moreover have "(\<exists>j. holds (pcs ?s j)) \<longleftrightarrow> (\<exists>j. holds (pcs s j))"
        using no False by auto
      ultimately show ?thesis using one(1) by simp
    qed
  qed
  have B: "j = k" if "holds (pcs ?s j)" "holds (pcs ?s k)" for j k
    using that others uniq by (auto split: if_splits)
  have C: "v = 1" if "saw (pcs ?s j) = Some v" for j v
    using that move saw1 by (auto simp: good_move_def split: if_splits)
  have D: "c' = 1 \<or> (\<exists>k. awake (pcs ?s k))" if "on_lock (pcs ?s j)" for j
  proof -
    have "cell s = 1 \<or> (\<exists>k. awake (pcs s k)) \<or> c' = 1"
      using that live move by (auto simp: good_move_def split: if_splits)
    then show ?thesis
    proof (elim disjE exE)
      assume "cell s = 1"
      then have "awake (pcs ?s i) \<or> c' = 1" using move by (auto simp: good_move_def)
      then show ?thesis by blast
    next
      fix k assume "awake (pcs s k)"
      then have "awake (pcs ?s k) \<or> awake (pcs ?s i) \<or> c' = 1" using move by (auto simp: good_move_def)
      then show ?thesis by blast
    next
      assume "c' = 1"
      then show ?thesis by blast
    qed
  qed
  have E: "c' = 0 \<or> c' = 1" "cell ?s = c'" using move by (simp_all add: good_move_def)
  show ?thesis by (rule lock_invI; (unfold E(2))?) (fact E(1), fact A, fact B, fact C, fact D)
qed

lemma goto_inv:
  assumes inv: "lock_inv s"
    and move: "cell s = 0 \<or> cell s = 1 \<Longrightarrow> (holds (pcs s i) \<Longrightarrow> cell s = 1) \<Longrightarrow>
      good_move (cell s) (pcs s i) (cell s) p'"
  shows "lock_inv (goto i p' s)"
proof -
  have "good_move (cell s) (pcs s i) (cell s) p'"
    by (rule move) (use lock_invD(1) [OF inv] lock_inv_held [OF inv] in blast)+
  moreover have "(goto i p' s)\<lparr>cell := cell s\<rparr> = goto i p' s" by (cases s) (simp add: goto_def)
  ultimately show ?thesis using good_move_inv [OF inv] by metis
qed

lemma cv_inv [simp]: "lock_inv (s\<lparr>cv := v\<rparr>) = lock_inv s"
  by (simp add: lock_inv_def)

lemma wake_inv:
  assumes inv: "lock_inv s"
  shows "lock_inv (wake_all W s)"
proof -
  have holds: "holds (pcs (wake_all W s) j) = holds (pcs s j)" for j by simp
  have saw: "saw (pcs (wake_all W s) j) = saw (pcs s j)" for j by simp
  have awake: "\<exists>k. awake (pcs (wake_all W s) k)" if "awake (pcs s j)" for j
    using that by (intro exI [of _ j]) simp
  have live: "cell s = 1 \<or> (\<exists>k. awake (pcs (wake_all W s) k))" if "on_lock (pcs (wake_all W s) j)" for j
  proof -
    have "on_lock (pcs s j)" using that by (simp split: if_splits)
    then have "cell s = 1 \<or> (\<exists>k. awake (pcs s k))" using inv unfolding lock_inv_def by blast
    then show ?thesis using awake by blast
  qed
  show ?thesis
    by (rule lock_invI; (unfold holds saw pcs_simps(5))?)
       (use lock_invD [OF inv] live in blast)+
qed

text \<open>
  The notification of a release may wake nobody only if nobody sleeps; so the thread that
  notifies can leave.
\<close>

lemma notify_leaves:
  assumes inv: "lock_inv s" and W: "notified on_lock 1 W s"
    and p: "awake (pcs s i)" "\<not> holds (pcs s i)" "\<not> holds p'" "saw p' = None" "\<not> on_lock p'" "\<not> on_lock (pcs s i)"
  shows "lock_inv (goto i p' (wake_all W s))"
proof -
  let ?s = "goto i p' (wake_all W s)"
  have live: "cell s = 1 \<or> (\<exists>k. awake (pcs ?s k))" if "on_lock (pcs ?s j)" for j
  proof -
    from that have j: "on_lock (pcs s j)" "j \<notin> W" "j \<noteq> i" using p(5) by (auto split: if_splits)
    then have "W \<noteq> {j. on_lock (pcs s j)}" by blast
    then have "card W = 1" using W unfolding notified_def by auto
    then obtain k where k: "W = {k}" by (auto simp: card_1_singleton_iff)
    then have "on_lock (pcs s k)" using W by (auto simp: notified_def)
    then have "awake (pcs ?s k)" "k \<noteq> i" using k p(6) by auto
    then show ?thesis by blast
  qed
  have holds: "holds (pcs ?s j) = holds (pcs s j)" for j using p(2,3) by simp
  have saw: "saw (pcs ?s j) = Some v \<Longrightarrow> saw (pcs s j) = Some v" for j v
    using p(4) by (auto split: if_splits)
  have cell: "cell ?s = cell s" by simp
  have saw1: "v = 1" if "saw (pcs ?s j) = Some v" for j v
    using lock_invD(4) [OF inv saw [OF that]] .
  show ?thesis
    by (rule lock_invI; (unfold holds cell)?)
       (fact lock_invD(1) [OF inv], fact lock_invD(2) [OF inv], fact lock_invD(3) [OF inv], fact saw1, fact live)
qed

lemma acquiring_good:
  "acquiring_step t c p = Some (c', p') \<Longrightarrow> c = 0 \<or> c = 1 \<Longrightarrow> \<forall>v. saw p = Some v \<longrightarrow> v = 1 \<Longrightarrow>
     \<not> on_lock p \<Longrightarrow> good_move c p c' p'"
  by (cases p) (auto simp: acquiring_step_def good_move_def atomic_cas_def on_lock_def split: if_splits)

lemma acquiring_not_asleep: "acquiring_step t c p = Some (c', p') \<Longrightarrow> \<not> on_lock p"
  by (cases p) (auto simp: acquiring_step_def on_lock_def)

lemma lock_inv_step: "lock_step s s' \<Longrightarrow> lock_inv s \<Longrightarrow> lock_inv s'"
proof (induction rule: lock_step.induct)
  case (call s i p)
  then show ?case
    by (intro goto_inv) (auto simp: good_move_def on_lock_def)
next
  case (acquire t s i c p)
  then have "good_move (cell s) (pcs s i) c p"
    using acquiring_not_asleep [OF acquire(1)] using lock_invD(1,4) [OF acquire(2)] by (intro acquiring_good) auto
  then show ?case using acquire(2) by (rule good_move_inv [rotated])
next
  case (release s i c p)
  then have "good_move (cell s) (pcs s i) c p"
    by (cases "pcs s i") (auto simp: good_move_def on_lock_def)
  then show ?case using release(2) by (rule good_move_inv [rotated])
next
  case (notify s i W)
  then show ?case by (intro notify_leaves) (auto simp: on_lock_def)
next
  case (condvar_inf s i p)
  then show ?case using condvar_inf
    by (intro goto_inv; cases "(cv s, pcs s i)" rule: emscripten_condvar_waitinf.cases)
       (auto simp: good_move_def on_lock_def split: if_splits)
next
  case (condvar_timed s i p)
  then show ?case using condvar_timed
    by (intro goto_inv; cases "(cv s, pcs s i)" rule: emscripten_condvar_wait.cases)
       (auto simp: good_move_def on_lock_def split: if_splits)
next
  case (condvar_notify s i t v W)
  then show ?case by (intro notify_leaves) (auto simp: on_lock_def)
next
  case (signal s i held n)
  have "lock_inv (goto i (Sig_notify held n) s)" using signal
    by (intro goto_inv) (auto simp: good_move_def on_lock_def split: if_splits)
  then show ?case by simp
next
  case (signal_notify s i held n W)
  have sub: "W \<subseteq> {j. on_cv (pcs s j)}"
    using signal_notify(2) by (auto simp: notified_def split: if_splits)
  then have i: "i \<notin> W" using signal_notify(1) by (auto simp: on_cv_def)
  have inv: "lock_inv (wake_all W s)" using signal_notify(3) by (rule wake_inv)
  show ?case using signal_notify(1) i
    by (intro goto_inv inv) (auto simp: good_move_def on_lock_def)
next
  case (time_out s i p)
  then show ?case
    by (intro goto_inv; cases "pcs s i") (auto simp: good_move_def on_lock_def split: if_splits)
qed

lemma lock_inv_reachable: "lock_reachable s \<Longrightarrow> lock_inv s"
proof (induction rule: lock_reachable.induct)
  case (init s)
  then show ?case by (auto simp: lock_start_def emscripten_lock_init_def emscripten_condvar_init_def lock_inv_def on_lock_def)
next
  case (step s s')
  then show ?case using lock_inv_step by blast
qed

section \<open>Progress\<close>

lemma notified_one: "P (pcs s i) \<Longrightarrow> notified P 1 {i} s"
  by (simp add: notified_def)

lemma notified_exists: "\<exists>W. notified P n W s"
proof (cases "finite {j. P (pcs s j)} \<and> card {j. P (pcs s j)} < n")
  case True
  then show ?thesis by (intro exI [of _ "{j. P (pcs s j)}"]) (auto simp: notified_def)
next
  case False
  then obtain W where "W \<subseteq> {j. P (pcs s j)}" "finite W" "card W = n"
    by (metis infinite_arbitrarily_large linorder_not_less obtain_subset_with_card_n)
  then show ?thesis by (auto simp: notified_def)
qed

text \<open>
  The threads that are in the middle of an operation finish it, and none that is outside begins
  one: \<open>own_step\<close>. Nobody who is not already at work can release or wake anybody in such a run.
\<close>

definition own_step :: "lock_sys \<Rightarrow> lock_sys \<Rightarrow> bool" where
  "own_step s s' \<longleftrightarrow> lock_step s s' \<and> (\<forall>j. pcs s j = Out \<longrightarrow> pcs s' j = Out)"

lemma own_stepI: "lock_step s s' \<Longrightarrow> (\<And>j. pcs s j = Out \<Longrightarrow> pcs s' j = Out) \<Longrightarrow> own_step s s'"
  by (simp add: own_step_def)

lemma own_step_inv: "own_step s s' \<Longrightarrow> lock_inv s \<Longrightarrow> lock_inv s'"
  unfolding own_step_def using lock_inv_step by blast

lemma own_acquire:
  assumes "acquiring_step time_left (cell s) (pcs s i) = Some (c, p)" and "pcs s i \<noteq> Out"
  shows "own_step s ((goto i p s)\<lparr>cell := c\<rparr>)"
  by (rule own_stepI [OF acquire [OF assms(1)]]) (use assms(2) in auto)

lemma own_release:
  assumes "emscripten_lock_release (cell s) (pcs s i) = Some (c, p)"
  shows "own_step s ((goto i p s)\<lparr>cell := c\<rparr>)"
  by (rule own_stepI [OF release [OF assms]]) (use assms in auto)

text \<open>Schedules that let a given sleeper in, from the point where the lock is passed on backwards.\<close>

lemma enter_from_notify:
  assumes "cell s = 0" "pcs s i = Inf_asleep" and h: "pcs s h = Notify \<or> (\<exists>t v. pcs s h = Cv_notify t v)"
  shows "\<exists>s'. own_step\<^sup>*\<^sup>* s s' \<and> pcs s' i = Inside"
proof -
  have W: "notified on_lock 1 {i} s" using assms(2) by (intro notified_one) (simp add: on_lock_def)
  have ne: "h \<noteq> i" using h assms(2) by auto
  have W_on: "pcs s j = Out \<Longrightarrow> j \<notin> {i}" for j using assms(2) by auto
  obtain p where "lock_step s (goto h p (wake_all {i} s))"
    using h notify [OF _ W] condvar_notify [OF _ W] by blast
  then have "own_step s (goto h p (wake_all {i} s))"
    by (rule own_stepI) (use h W_on in auto)
  moreover define s1 where "s1 = goto h p (wake_all {i} s)"
  have s1: "pcs s1 i = Acquire" "cell s1 = 0" using assms ne by (simp_all add: s1_def)
  have "own_step s1 ((goto i Inside s1)\<lparr>cell := 1\<rparr>)"
    by (rule own_acquire [where time_left = True]) (simp_all add: s1 acquiring_step_def atomic_cas_def)
  ultimately have "own_step\<^sup>*\<^sup>* s ((goto i Inside s1)\<lparr>cell := 1\<rparr>)"
    unfolding s1_def by (meson converse_rtranclp_into_rtranclp rtranclp.rtrancl_refl)
  then show ?thesis by (intro exI [of _ "(goto i Inside s1)\<lparr>cell := 1\<rparr>"]) simp
qed

lemma step_then: "own_step s s1 \<Longrightarrow> \<exists>s'. own_step\<^sup>*\<^sup>* s1 s' \<and> P s' \<Longrightarrow> \<exists>s'. own_step\<^sup>*\<^sup>* s s' \<and> P s'"
  by (meson converse_rtranclp_into_rtranclp)

lemma enter_from_holder:
  assumes "pcs s i = Inf_asleep" "holds (pcs s h)"
  shows "\<exists>s'. own_step\<^sup>*\<^sup>* s s' \<and> pcs s' i = Inside"
proof -
  have release: "\<exists>s'. own_step\<^sup>*\<^sup>* s s' \<and> pcs s' i = Inside"
    if i: "pcs s i = Inf_asleep" and h: "pcs s h = Inside \<or> (\<exists>t v. pcs s h = Cv_loaded t v)" for s
  proof -
    from h obtain p where p: "emscripten_lock_release (cell s) (pcs s h) = Some (0, p)"
        "p = Notify \<or> (\<exists>t v. p = Cv_notify t v)"
      by auto
    have "h \<noteq> i" using h i by auto
    then have "\<exists>s'. own_step\<^sup>*\<^sup>* ((goto h p s)\<lparr>cell := 0\<rparr>) s' \<and> pcs s' i = Inside"
      using i p(2) by (intro enter_from_notify [of _ i h]) simp_all
    then show ?thesis by (rule step_then [OF own_release [OF p(1)]])
  qed
  show ?thesis
  proof (cases "\<exists>n. pcs s h = Sig_notify True n")
    case True
    then obtain n where n: "pcs s h = Sig_notify True n" by blast
    obtain W where W: "if n = - 1 then W = {j. on_cv (pcs s j)} else notified on_cv (unat n) W s"
      using notified_exists [of on_cv "unat n" s] by (cases "n = - 1") auto
    then have "i \<notin> W" using assms(1) by (auto simp: notified_def on_cv_def split: if_splits)
    moreover have "h \<noteq> i" using n assms(1) by auto
    ultimately have "\<exists>s'. own_step\<^sup>*\<^sup>* (goto h Inside (wake_all W s)) s' \<and> pcs s' i = Inside"
      using assms(1) by (intro release) simp_all
    moreover have "own_step s (goto h Inside (wake_all W s))"
      by (rule own_stepI) (use signal_notify [OF n W] n W in \<open>auto simp: notified_def on_cv_def split: if_splits\<close>)
    ultimately show ?thesis by (rule step_then [rotated])
  next
    case False
    then show ?thesis using assms by (intro release) (cases "pcs s h"; auto)+
  qed
qed

lemma sleeper_enters:
  assumes inv: "lock_inv s" and i: "pcs s i = Inf_asleep"
  shows "\<exists>s'. own_step\<^sup>*\<^sup>* s s' \<and> pcs s' i = Inside"
proof (cases "cell s = 1")
  case True
  then show ?thesis using lock_invD(2) [OF inv] enter_from_holder [OF i] by blast
next
  case False
  then have c: "cell s = 0" using lock_invD(1) [OF inv] by blast
  obtain j where j: "awake (pcs s j)"
    using lock_invD(5) [OF inv, of i] i False by (auto simp: on_lock_def)
  show ?thesis
  proof (cases "pcs s j = Notify \<or> (\<exists>t v. pcs s j = Cv_notify t v)")
    case True
    then show ?thesis by (rule enter_from_notify [OF c i])
  next
    case no: False
    then have "acquiring_step True (cell s) (pcs s j) = Some (1, Inside)"
      using j c by (cases "pcs s j") (auto simp: acquiring_step_def atomic_cas_def)
    then have "own_step s ((goto j Inside s)\<lparr>cell := 1\<rparr>)" by (rule own_acquire) (use j in auto)
    moreover have "j \<noteq> i" using i j by auto
    then have "\<exists>s'. own_step\<^sup>*\<^sup>* ((goto j Inside s)\<lparr>cell := 1\<rparr>) s' \<and> pcs s' i = Inside"
      using i by (intro enter_from_holder [of _ i j]) simp_all
    ultimately show ?thesis by (rule step_then)
  qed
qed

definition waiting :: "lock_pc \<Rightarrow> bool" where
  "waiting p \<longleftrightarrow> p = Acquire \<or> (\<exists>v. p = Inf_wait v) \<or> p = Inf_asleep"

lemma acquirer_enters:
  assumes inv: "lock_inv s" and i: "pcs s i = Acquire"
  shows "\<exists>s'. own_step\<^sup>*\<^sup>* s s' \<and> pcs s' i = Inside"
proof (cases "cell s = 0")
  case True
  then have "acquiring_step True (cell s) (pcs s i) = Some (1, Inside)"
    using i by (simp add: acquiring_step_def atomic_cas_def)
  then have "own_step s ((goto i Inside s)\<lparr>cell := 1\<rparr>)" by (rule own_acquire) (simp add: i)
  then show ?thesis by (rule step_then) (auto intro!: exI [of _ "(goto i Inside s)\<lparr>cell := 1\<rparr>"])
next
  case False
  then have c: "cell s = 1" using lock_invD(1) [OF inv] by blast
  let ?s1 = "(goto i (Inf_wait 1) s)\<lparr>cell := 1\<rparr>" and ?s2 = "(goto i Inf_asleep s)\<lparr>cell := 1\<rparr>"
  have 1: "own_step s ?s1"
    by (rule own_acquire [where time_left = True]) (simp_all add: i c acquiring_step_def atomic_cas_def)
  have "own_step ?s1 ((goto i Inf_asleep ?s1)\<lparr>cell := 1\<rparr>)"
    by (rule own_acquire [where time_left = True]) (simp_all add: acquiring_step_def)
  then have 2: "own_step ?s1 ?s2" by (simp add: goto_def)
  have "lock_inv ?s2" by (rule own_step_inv [OF 2 own_step_inv [OF 1 inv]])
  then have "\<exists>s'. own_step\<^sup>*\<^sup>* ?s2 s' \<and> pcs s' i = Inside" by (rule sleeper_enters) simp
  then show ?thesis by (rule step_then [OF 1 step_then [OF 2]])
qed

lemma waiter_enters:
  assumes inv: "lock_inv s" and i: "waiting (pcs s i)"
  shows "\<exists>s'. own_step\<^sup>*\<^sup>* s s' \<and> pcs s' i = Inside"
proof -
  consider "pcs s i = Acquire" | "pcs s i = Inf_asleep" | v where "pcs s i = Inf_wait v"
    using i by (auto simp: waiting_def)
  then show ?thesis
  proof cases
    case 1
    then show ?thesis by (rule acquirer_enters [OF inv])
  next
    case 2
    then show ?thesis by (rule sleeper_enters [OF inv])
  next
    case (3 v)
    define p where "p = (if cell s = v then Inf_asleep else Acquire)"
    let ?s1 = "(goto i p s)\<lparr>cell := cell s\<rparr>"
    have 1: "own_step s ?s1"
      by (rule own_acquire [where time_left = True]) (simp_all add: 3 acquiring_step_def p_def)
    have inv1: "lock_inv ?s1" by (rule own_step_inv [OF 1 inv])
    have "pcs ?s1 i = Inf_asleep \<or> pcs ?s1 i = Acquire" by (simp add: p_def)
    then have "\<exists>s'. own_step\<^sup>*\<^sup>* ?s1 s' \<and> pcs s' i = Inside"
      by (rule disjE) (rule sleeper_enters [OF inv1], assumption, rule acquirer_enters [OF inv1])
    then show ?thesis by (rule step_then [OF 1])
  qed
qed

section \<open>Broadcasts\<close>

text \<open>Runs in which every signal goes to all waiters (\<open>EMSCRIPTEN_NOTIFY_ALL_WAITERS\<close>).\<close>

inductive broadcast_reachable :: "lock_sys \<Rightarrow> bool" where
  init: "lock_start s \<Longrightarrow> broadcast_reachable s"
| step: "broadcast_reachable s \<Longrightarrow> lock_step s s' \<Longrightarrow>
    (\<And>i held n. pcs s' i = Sig_notify held n \<Longrightarrow> n = - 1) \<Longrightarrow> broadcast_reachable s'"

definition cv_inv :: "lock_sys \<Rightarrow> bool" where
  "cv_inv s \<longleftrightarrow>
     (\<forall>i h n. pcs s i = Sig_notify h n \<longrightarrow> n = - 1) \<and>
     (\<forall>i t v. pcs s i = Cv_asleep t v \<longrightarrow> v = cv s \<or> (\<exists>j h n. pcs s j = Sig_notify h n))"

lemma cv_goto:
  assumes "cv_inv s" and "\<And>h n. pcs s i \<noteq> Sig_notify h n" "\<And>h n. p \<noteq> Sig_notify h n"
    and "\<And>t v. p = Cv_asleep t v \<Longrightarrow> v = cv s"
  shows "cv_inv (goto i p s)" "cv_inv ((goto i p s)\<lparr>cell := c\<rparr>)"
  using assms unfolding cv_inv_def by (auto; metis)+

lemma woken_cv [simp]:
  "woken p \<noteq> Cv_asleep t v" "woken p = Sig_notify h n \<longleftrightarrow> p = Sig_notify h n"
  by (cases p; simp)+

lemma cv_wake:
  assumes "cv_inv s"
  shows "cv_inv (wake_all W s)"
proof -
  have "pcs (wake_all W s) j = Sig_notify h n \<longleftrightarrow> pcs s j = Sig_notify h n" for j h n by simp
  moreover have "pcs s j = Cv_asleep t v" if "pcs (wake_all W s) j = Cv_asleep t v" for j t v
    using that by (simp split: if_splits)
  ultimately show ?thesis using assms unfolding cv_inv_def pcs_simps(6) by blast
qed

lemma acquiring_cv:
  "acquiring_step b c p = Some (c', p') \<Longrightarrow>
     p \<noteq> Sig_notify h n \<and> p' \<noteq> Sig_notify h n \<and> p' \<noteq> Cv_asleep t v"
  by (cases p) (auto simp: acquiring_step_def split: if_splits)

lemma cv_inv_step:
  assumes "lock_step s s'" and "cv_inv s"
    and "\<And>i held n. pcs s' i = Sig_notify held n \<Longrightarrow> n = - 1"
  shows "cv_inv s'"
  using assms
proof (induction rule: lock_step.induct)
  case (call s i p)
  then show ?case by (intro cv_goto) auto
next
  case (acquire b s i c p)
  then show ?case using acquiring_cv [OF acquire(1)] by (intro cv_goto) blast+
next
  case (release s i c p)
  then show ?case by (intro cv_goto; cases "pcs s i") auto
next
  case (notify s i W)
  then show ?case by (intro cv_goto cv_wake) auto
next
  case (condvar_inf s i p)
  then show ?case
    by (intro cv_goto; cases "(cv s, pcs s i)" rule: emscripten_condvar_waitinf.cases) (auto split: if_splits)
next
  case (condvar_timed s i p)
  then show ?case
    by (intro cv_goto; cases "(cv s, pcs s i)" rule: emscripten_condvar_wait.cases) (auto split: if_splits)
next
  case (condvar_notify s i t v W)
  then show ?case by (intro cv_goto cv_wake) auto
next
  case (signal s i held n)
  let ?s = "(goto i (Sig_notify held n) s)\<lparr>cv := cv s + 1\<rparr>"
  have "pcs ?s i = Sig_notify held n" by simp
  then have ex: "\<exists>j h n. pcs ?s j = Sig_notify h n" by blast
  show ?case unfolding cv_inv_def
  proof (intro conjI allI impI)
    show "m = - 1" if "pcs ?s j = Sig_notify h m" for j h m using that by (rule signal(3))
    show "v = cv ?s \<or> (\<exists>j h n. pcs ?s j = Sig_notify h n)" if "pcs ?s j = Cv_asleep t v" for j t v
      using ex by (rule disjI2)
  qed
next
  case (signal_notify s i held n W)
  have all: "m = - 1" if "pcs s j = Sig_notify g m" for j g m
    using signal_notify(3) that unfolding cv_inv_def by blast
  have W: "W = {j. on_cv (pcs s j)}" using signal_notify(2) all [OF signal_notify(1)] by simp
  have "pcs (goto i (if held then Inside else Out) (wake_all W s)) j \<noteq> Cv_asleep t v" for j t v
  proof (cases "j \<in> W")
    case False
    then have "pcs s j \<noteq> Cv_asleep t v" by (auto simp: W on_cv_def)
    with False show ?thesis by simp
  qed simp
  moreover have "m = - 1" if "pcs (goto i (if held then Inside else Out) (wake_all W s)) j = Sig_notify g m" for j g m
  proof -
    have "pcs s j = Sig_notify g m" using that by (simp split: if_splits)
    then show ?thesis by (rule all)
  qed
  ultimately show ?case unfolding cv_inv_def by blast
next
  case (time_out s i p)
  then show ?case by (intro cv_goto; cases "pcs s i") (auto split: if_splits)
qed

lemma cv_inv_reachable: "broadcast_reachable s \<Longrightarrow> cv_inv s"
proof (induction rule: broadcast_reachable.induct)
  case (init s)
  then show ?case by (auto simp: lock_start_def emscripten_lock_init_def emscripten_condvar_init_def cv_inv_def)
next
  case (step s s')
  then show ?case using cv_inv_step by blast
qed


section \<open>Semaphores\<close>

text \<open>
  The third component of a step is the number of units it acquires. The count is a \<open>uint32_t\<close>; the waiting functions read it as an \<open>int\<close>, \<open>try_acquire\<close> compares it
  without a sign. The number in each point is the argument \<open>num\<close>; a flag tells the timed function
  from the untimed one.
\<close>

datatype sem_pc =
    S_out
  | Try_cas u32 u32
  | S_load bool u32 | S_cas bool u32 u32 | S_wait bool u32 u32 | S_asleep bool u32
  | S_notify u32

fun emscripten_semaphore_try_acquire :: "u32 \<Rightarrow> sem_pc \<Rightarrow> (u32 \<times> sem_pc \<times> u32) option" where
  "emscripten_semaphore_try_acquire c (Try_cas num val) =
     Some (atomic_cas val (val - num) c,
       if c = val then (S_out, num) else if c < num then (S_out, 0) else (Try_cas num c, 0))"
| "emscripten_semaphore_try_acquire c _ = None"

text \<open>What the loops of the waiting functions do with a value just read.\<close>

definition sem_loop :: "bool \<Rightarrow> bool \<Rightarrow> u32 \<Rightarrow> u32 \<Rightarrow> sem_pc" where
  "sem_loop timed time_left num val =
     (if sint val < sint num then if timed \<and> \<not> time_left then S_out else S_wait timed num val
      else S_cas timed num val)"

fun sem_acquire :: "bool \<Rightarrow> bool \<Rightarrow> u32 \<Rightarrow> sem_pc \<Rightarrow> (u32 \<times> sem_pc \<times> u32) option" where
  "sem_acquire timed time_left c (S_load t num) =
     (if t = timed then Some (c, sem_loop timed time_left num c, 0) else None)"
| "sem_acquire timed time_left c (S_wait t num val) =
     (if t = timed then Some (c, if c = val then S_asleep timed num else S_load timed num, 0) else None)"
| "sem_acquire timed time_left c (S_cas t num val) =
     (if t = timed
      then Some (atomic_cas val (val - num) c, if c = val then (S_out, num) else (sem_loop timed time_left num c, 0))
      else None)"
| "sem_acquire timed time_left c _ = None"

definition emscripten_semaphore_wait_acquire :: "bool \<Rightarrow> u32 \<Rightarrow> sem_pc \<Rightarrow> (u32 \<times> sem_pc \<times> u32) option" where
  "emscripten_semaphore_wait_acquire time_left = sem_acquire True time_left"

definition emscripten_semaphore_waitinf_acquire :: "u32 \<Rightarrow> sem_pc \<Rightarrow> (u32 \<times> sem_pc \<times> u32) option" where
  "emscripten_semaphore_waitinf_acquire = sem_acquire False True"

text \<open>
  Threads are anonymous here: a multiset of points. \<open>given\<close> and \<open>taken\<close> count the units that were
  released and acquired so far.
\<close>

record sem_sys =
  count :: u32
  callers :: "sem_pc multiset"
  given :: nat
  taken :: nat

fun sem_woken :: "sem_pc \<Rightarrow> sem_pc" where
  "sem_woken (S_asleep timed num) = S_load timed num"
| "sem_woken p = p"

fun asleep :: "sem_pc \<Rightarrow> bool" where
  "asleep (S_asleep timed num) = True"
| "asleep p = False"

text \<open>\<open>allowed\<close> restricts the numbers that the program uses in its calls.\<close>

inductive sem_step :: "(u32 \<Rightarrow> bool) \<Rightarrow> sem_sys \<Rightarrow> sem_sys \<Rightarrow> bool" for allowed where
  call: "callers s = add_mset S_out T \<Longrightarrow> allowed num \<Longrightarrow> p \<in> {Try_cas num num, S_load timed num} \<Longrightarrow>
    sem_step allowed s (s\<lparr>callers := add_mset p T\<rparr>)"
| attempt: "callers s = add_mset p T \<Longrightarrow>
    Some (c, p', num) \<in> {emscripten_semaphore_try_acquire (count s) p,
      emscripten_semaphore_wait_acquire time_left (count s) p,
      emscripten_semaphore_waitinf_acquire (count s) p} \<Longrightarrow>
    sem_step allowed s
      (s\<lparr>count := c, callers := add_mset p' T, taken := taken s + unat num\<rparr>)"
| time_out: "callers s = add_mset (S_asleep True num) T \<Longrightarrow>
    sem_step allowed s (s\<lparr>callers := add_mset (S_load True num) T\<rparr>)"
| release: "callers s = add_mset S_out T \<Longrightarrow> sint num \<ge> 0 \<Longrightarrow>
    sem_step allowed s (s\<lparr>count := count s + num, callers := add_mset (S_notify num) T, given := given s + unat num\<rparr>)"
| notify: "callers s = add_mset (S_notify num) T \<Longrightarrow> T = W + U \<Longrightarrow> \<forall>p\<in>#W. asleep p \<Longrightarrow>
    size W \<le> unat num \<Longrightarrow> size W < unat num \<longrightarrow> (\<forall>p\<in>#U. \<not> asleep p) \<Longrightarrow>
    sem_step allowed s (s\<lparr>callers := add_mset S_out (image_mset sem_woken W + U)\<rparr>)"

definition emscripten_semaphore_init :: "u32 \<Rightarrow> sem_sys \<Rightarrow> sem_sys" where
  "emscripten_semaphore_init num s = s\<lparr>count := num\<rparr>"

definition sem_start :: "nat \<Rightarrow> sem_sys \<Rightarrow> bool" where
  "sem_start num s \<longleftrightarrow> (\<exists>s0. s = emscripten_semaphore_init (word_of_nat num) s0) \<and> num < 2 ^ 31 \<and> (\<forall>p\<in>#callers s. p = S_out) \<and>
     given s = 0 \<and> taken s = 0"

lemma sem_start_count: "sem_start num s \<Longrightarrow> count s = word_of_nat num"
  by (auto simp: sem_start_def emscripten_semaphore_init_def)

inductive sem_reachable :: "(u32 \<Rightarrow> bool) \<Rightarrow> nat \<Rightarrow> sem_sys \<Rightarrow> bool" for allowed num where
  init: "sem_start num s \<Longrightarrow> sem_reachable allowed num s"
| step: "sem_reachable allowed num s \<Longrightarrow> sem_step allowed s s' \<Longrightarrow> sem_reachable allowed num s'"


section \<open>What a semaphore keeps\<close>

fun sem_ok :: "(u32 \<Rightarrow> bool) \<Rightarrow> sem_pc \<Rightarrow> bool" where
  "sem_ok allowed (Try_cas num val) \<longleftrightarrow> allowed num \<and> num \<le> val"
| "sem_ok allowed (S_load timed num) \<longleftrightarrow> allowed num"
| "sem_ok allowed (S_cas timed num val) \<longleftrightarrow> allowed num \<and> sint num \<le> sint val"
| "sem_ok allowed (S_wait timed num val) \<longleftrightarrow> allowed num \<and> sint val < sint num"
| "sem_ok allowed (S_asleep timed num) \<longleftrightarrow> allowed num"
| "sem_ok allowed p \<longleftrightarrow> True"

lemma sem_ok_wake: "sem_ok allowed p \<Longrightarrow> sem_ok allowed (sem_woken p)"
  by (cases p) auto

lemma sem_loop_ok: "allowed num \<Longrightarrow> sem_ok allowed (sem_loop timed left num val)"
  by (simp add: sem_loop_def)

lemma sint_le_unsigned: "0 \<le> sint a \<Longrightarrow> sint a \<le> sint b \<Longrightarrow> (a :: u32) \<le> b"
proof -
  assume "0 \<le> sint a" "sint a \<le> sint b"
  then have "int (unat a) \<le> int (unat b)" using sint_nonneg [of a] sint_nonneg [of b] by linarith
  then show ?thesis by (simp only: of_nat_le_iff word_le_nat_alt)
qed

lemma sint_less_1: "unat (c :: u32) < 2 ^ 31 \<Longrightarrow> sint c < 1 \<longleftrightarrow> c = 0"
proof -
  assume "unat c < 2 ^ 31"
  then have "sint c < 1 \<longleftrightarrow> int (unat c) < int 1" by (simp only: sint_small of_nat_1)
  also have "\<dots> \<longleftrightarrow> unat c < 1" by (simp only: of_nat_less_iff)
  finally show ?thesis by (simp add: unat_eq_0)
qed

text \<open>One attempt: either it acquires exactly its number, which was there, or the cell stays.\<close>

lemma attempt_sound:
  assumes "Some (c', p', got) \<in> {emscripten_semaphore_try_acquire c p,
      emscripten_semaphore_wait_acquire time_left c p, emscripten_semaphore_waitinf_acquire c p}"
    and "sem_ok allowed p" and pos: "\<And>n. allowed n \<Longrightarrow> 0 \<le> sint n"
  shows "sem_ok allowed p'" and "c' = c - got" and "got \<le> c"
    and "got \<noteq> 0 \<Longrightarrow> p' = S_out \<and> allowed got"
proof -
  have le: "num \<le> val" if "allowed num" "sint num \<le> sint val" for num val
    using sint_le_unsigned [OF pos [OF that(1)] that(2)] .
  show "sem_ok allowed p'" "c' = c - got" "got \<le> c" "got \<noteq> 0 \<Longrightarrow> p' = S_out \<and> allowed got"
    using assms(1,2) le
    by (cases p; auto simp: emscripten_semaphore_wait_acquire_def emscripten_semaphore_waitinf_acquire_def
          atomic_cas_def sem_loop_ok split: if_splits)+
qed

definition sem_inv :: "(u32 \<Rightarrow> bool) \<Rightarrow> nat \<Rightarrow> sem_sys \<Rightarrow> bool" where
  "sem_inv allowed num s \<longleftrightarrow>
     (\<forall>p\<in>#callers s. sem_ok allowed p) \<and>
     (num + given s < 2 ^ 31 \<longrightarrow> unat (count s) + taken s = num + given s)"

lemma sem_inv_step:
  assumes "sem_step allowed s s'" and "sem_inv allowed num s" and pos: "\<And>n. allowed n \<Longrightarrow> 0 \<le> sint n"
  shows "sem_inv allowed num s'"
  using assms(1,2)
proof (induction rule: sem_step.induct)
  case (attempt s p T c p' got time_left)
  then have ok: "sem_ok allowed p" by (simp add: sem_inv_def)
  note sound = attempt_sound [OF attempt(2) ok pos]
  have "unat c = unat (count s) - unat got" "unat got \<le> unat (count s)"
    using sound(2,3) by (simp_all add: unat_sub word_le_nat_alt)
  with attempt sound(1) show ?case by (auto simp: sem_inv_def)
next
  case (release s T n)
  have "unat (count s + n) + taken s = num + (given s + unat n)" if "num + (given s + unat n) < 2 ^ 31"
  proof -
    have "unat (count s) + taken s = num + given s"
      using release(3) that unfolding sem_inv_def by linarith
    moreover from this that have "unat (count s) + unat n < 2 ^ 32" by simp
    then have "unat (count s + n) = unat (count s) + unat n" by (simp add: unat_word_ariths)
    ultimately show ?thesis by simp
  qed
  with release show ?case by (simp add: sem_inv_def)
next
  case (notify s n T W U)
  then show ?case using sem_ok_wake by (auto simp: sem_inv_def)
qed (auto simp: sem_inv_def)

lemma sem_inv_reachable:
  assumes "sem_reachable allowed num s" and pos: "\<And>n. allowed n \<Longrightarrow> 0 \<le> sint n"
  shows "sem_inv allowed num s"
  using assms(1)
proof (induction rule: sem_reachable.induct)
  case (init s)
  then show ?case using sem_start_count [of num s] by (auto simp: sem_start_def sem_inv_def unsigned_of_nat take_bit_nat_eq_self)
next
  case (step s s')
  then show ?case using sem_inv_step pos by blast
qed

text \<open>
  When all callers ask for one unit, the units that are there are outnumbered by the
  notifications still to come and the callers that are awake, as long as anybody sleeps.
\<close>

fun weight :: "sem_pc \<Rightarrow> nat" where
  "weight (S_notify num) = unat num"
| "weight (S_load timed num) = 1"
| "weight (S_cas timed num val) = 1"
| "weight p = 0"

lemma weight_asleep: "asleep p \<Longrightarrow> weight p = 0"
  by (cases p) auto

definition unit_inv :: "nat \<Rightarrow> sem_sys \<Rightarrow> bool" where
  "unit_inv num s \<longleftrightarrow> num + given s < 2 ^ 31 \<longrightarrow> (\<exists>p\<in>#callers s. asleep p) \<longrightarrow>
     unat (count s) \<le> (\<Sum>p\<in>#callers s. weight p)"

lemma attempt_unit:
  assumes "Some (c', p', got) \<in> {emscripten_semaphore_try_acquire c p,
      emscripten_semaphore_wait_acquire time_left c p, emscripten_semaphore_waitinf_acquire c p}"
    and "sem_ok (\<lambda>n. n = 1) p" and "unat c < 2 ^ 31"
  shows "unat c' = 0 \<or> (\<not> asleep p' \<and> unat c' + weight p \<le> unat c + weight p')"
proof -
  note c = sint_less_1 [OF assms(3)]
  have c1: "1 \<le> sint c \<longleftrightarrow> c \<noteq> 0" using c by linarith
  have dec: "c \<noteq> 0 \<Longrightarrow> unat (c - 1) = unat c - 1" by (rule unat_minus_one)
  have pos: "c \<noteq> 0 \<Longrightarrow> 0 < unat c" by (simp add: unat_gt_0)
  show ?thesis
    using assms(1,2) c c1 dec pos
    by (cases p; auto simp: emscripten_semaphore_wait_acquire_def emscripten_semaphore_waitinf_acquire_def
          atomic_cas_def sem_loop_def not_less split: if_splits)
qed

lemma not_asleep_woken [simp]: "\<not> asleep (sem_woken p)"
  by (cases p) auto

lemma unit_inv_step:
  assumes "sem_step (\<lambda>n. n = 1) s s'" and "sem_inv (\<lambda>n. n = 1) num s" and "unit_inv num s"
  shows "unit_inv num s'"
  using assms
proof (induction rule: sem_step.induct)
  case (attempt s p T c p' got time_left)
  show ?case unfolding unit_inv_def
  proof (intro impI)
    let ?s = "s\<lparr>count := c, callers := add_mset p' T, taken := taken s + unat got\<rparr>"
    assume small: "num + given ?s < 2 ^ 31" and sleeper: "\<exists>q\<in>#callers ?s. asleep q"
    have ok: "sem_ok (\<lambda>n. n = 1) p" and bound: "unat (count s) < 2 ^ 31"
      using attempt(1,3) small by (auto simp: sem_inv_def)
    have "unat c = 0 \<or> (\<not> asleep p' \<and> unat c + weight p \<le> unat (count s) + weight p')"
      by (rule attempt_unit [OF attempt(2) ok bound])
    moreover have "unat (count s) \<le> weight p + (\<Sum>q\<in>#T. weight q)" if "\<not> asleep p'"
      using attempt(1,4) small sleeper that by (auto simp: unit_inv_def)
    ultimately show "unat (count ?s) \<le> (\<Sum>q\<in>#callers ?s. weight q)" by auto
  qed
next
  case (release s T n)
  then show ?case by (auto simp: unit_inv_def unat_word_ariths intro: order_trans [OF mod_less_eq_dividend])
next
  case (notify s n T W U)
  have W: "(\<Sum>p\<in>#image_mset sem_woken W. weight p) = size W" using notify(3)
  proof (induction W)
    case (add p W)
    then show ?case by (cases p) auto
  qed simp
  show ?case
  proof (cases "size W < unat n")
    case True
    then have "\<not> asleep p" if "p \<in># image_mset sem_woken W + U" for p
      using notify(5) that True by auto
    then show ?thesis by (auto simp: unit_inv_def)
  next
    case False
    then have "size W = unat n" using notify(4) by simp
    moreover have "image_mset weight W = image_mset (\<lambda>_. 0) W"
      using notify(3) by (intro image_mset_cong) (simp add: weight_asleep)
    moreover have "\<exists>p\<in>#callers s. asleep p" if "\<exists>p\<in>#image_mset sem_woken W + U. asleep p"
      using that notify(1,2) by auto
    ultimately show ?thesis using notify(1,2,7) W by (auto simp: unit_inv_def)
  qed
qed (auto simp: unit_inv_def)

lemma unit_inv_reachable: "sem_reachable (\<lambda>n. n = 1) num s \<Longrightarrow> unit_inv num s"
proof (induction rule: sem_reachable.induct)
  case (init s)
  then show ?case by (auto simp: sem_start_def unit_inv_def)
next
  case (step s s')
  then show ?case using unit_inv_step sem_inv_reachable [OF step(1)] by auto
qed


text \<open>A sleeper is left alone as long as no notification is outstanding and nothing is released.\<close>

definition left_alone :: "sem_pc \<Rightarrow> sem_sys \<Rightarrow> bool" where
  "left_alone q s \<longleftrightarrow> q \<in># callers s \<and> (\<forall>n. S_notify n \<in># callers s \<longrightarrow> n = 0)"

lemma sem_acquire_notify:
  "Some (c', p', got) \<in> {emscripten_semaphore_try_acquire c p,
      emscripten_semaphore_wait_acquire time_left c p, emscripten_semaphore_waitinf_acquire c p} \<Longrightarrow>
     p' \<noteq> S_notify n \<and> \<not> asleep p"
  by (cases p) (auto simp: emscripten_semaphore_wait_acquire_def emscripten_semaphore_waitinf_acquire_def
      sem_loop_def split: if_splits)

lemma left_alone_step:
  assumes "sem_step allowed s s'"
  shows "given s \<le> given s' \<and> (given s' = given s \<longrightarrow> left_alone (S_asleep False k) s \<longrightarrow>
     left_alone (S_asleep False k) s')"
  using assms
proof (induction rule: sem_step.induct)
  case (attempt s p T c p' num time_left)
  then show ?case using sem_acquire_notify [OF attempt(2)] by (auto simp: left_alone_def)
next
  case (release s T num)
  then show ?case by (auto simp: left_alone_def unat_eq_0)
next
  case (notify s num T W U)
  have "S_notify m \<in># U" if "S_notify m = sem_woken p" "p \<in># W" for m p
    using that notify(3) by (cases p) auto
  moreover have "W = {#}" if "num = 0" using notify(4) that by simp
  ultimately show ?case using notify by (auto simp: left_alone_def)
qed (auto simp: left_alone_def)

lemma left_alone_steps:
  "(sem_step allowed)\<^sup>*\<^sup>* s s' \<Longrightarrow> given s \<le> given s' \<and>
     (given s' = given s \<longrightarrow> left_alone (S_asleep False k) s \<longrightarrow> left_alone (S_asleep False k) s')"
proof (induction rule: rtranclp_induct)
  case (step s1 s2)
  then show ?case using left_alone_step [OF step(2), of k] by auto
qed simp

section \<open>The properties\<close>

text \<open>A thread inside, another one asleep.\<close>

definition demo_locks :: lock_sys where
  "demo_locks = \<lparr>cell = 1, cv = 0, pcs = (\<lambda>_. Out)(0 := Inside, 1 := Inf_asleep)\<rparr>"

lemma demo_locks_reachable: "lock_reachable demo_locks"
proof -
  define s0 where "s0 = \<lparr>cell = 0, cv = 0, pcs = (\<lambda>_. Out)\<rparr>"
  have run: "lock_reachable ((goto i p s)\<lparr>cell := c\<rparr>)"
    if "lock_reachable s" "acquiring_step True (cell s) (pcs s i) = Some (c, p)" for i p s c
    using that lock_reachable.step lock_step.acquire by blast
  have enter: "lock_reachable (goto i Acquire s)" if "lock_reachable s" "pcs s i = Out" for i s
    using that lock_reachable.step lock_step.call [of s i Acquire] by blast
  have "lock_reachable s0"
    by (intro lock_reachable.init)
       (auto simp: s0_def lock_start_def emscripten_lock_init_def emscripten_condvar_init_def intro!: exI [of _ s0])
  then have "lock_reachable (goto 0 Acquire s0)" by (rule enter) (simp add: s0_def)
  then have "lock_reachable ((goto 0 Inside s0)\<lparr>cell := 1\<rparr>)" (is "lock_reachable ?s1")
    using run [of "goto 0 Acquire s0" 0 1 Inside] by (simp add: goto_def s0_def acquiring_step_def atomic_cas_def)
  then have "lock_reachable (goto 1 Acquire ?s1)" by (rule enter) (simp add: s0_def)
  then have "lock_reachable (goto 1 (Inf_wait 1) ?s1)"
    using run [of "goto 1 Acquire ?s1" 1 1 "Inf_wait 1"] by (simp add: goto_def s0_def acquiring_step_def atomic_cas_def)
  then have "lock_reachable (goto 1 Inf_asleep ?s1)"
    using run [of "goto 1 (Inf_wait 1) ?s1" 1 1 Inf_asleep] by (simp add: goto_def s0_def acquiring_step_def)
  then show ?thesis by (simp add: goto_def s0_def demo_locks_def)
qed

text \<open>
  Claim C4. Mutual exclusion: in every interleaving of acquiring (blocking, timed, spinning or
  trying), releasing, condition variable and signal calls at most one thread is past a successful
  acquire and before its release.
\<close>

theorem mutual_exclusion:
  assumes "lock_reachable s" and "holds (pcs s i)" and "holds (pcs s j)"
  shows "i = j"
  using lock_invD(3) [OF lock_inv_reachable [OF assms(1)] assms(2,3)] .

theorem mutual_exclusion_witness: "(THE i. holds (pcs demo_locks i)) = 0"
proof (rule the_equality)
  show 0: "holds (pcs demo_locks 0)" by (simp add: demo_locks_def)
  show "i = 0" if "holds (pcs demo_locks i)" for i
    using mutual_exclusion [OF demo_locks_reachable that 0] .
qed

text \<open>
  Claim C5. No lost wake-up: whenever a thread waits in \<open>emscripten_lock_waitinf_acquire\<close>, the
  operations already under way are enough to let it in: there is a continuation in which it gets
  the lock and no thread that is outside begins anything. A release between its failed attempt and
  its wait, or a notification that goes to a thread that times out, never strands it.
\<close>

theorem waiter_can_enter:
  assumes "lock_reachable s" and "waiting (pcs s i)"
  shows "\<exists>s'. own_step\<^sup>*\<^sup>* s s' \<and> pcs s' i = Inside"
  using waiter_enters [OF lock_inv_reachable [OF assms(1)] assms(2)] .

theorem waiter_can_enter_witness: "\<exists>s'. own_step\<^sup>*\<^sup>* demo_locks s' \<and> pcs s' 1 = Inside"
  by (rule waiter_can_enter [OF demo_locks_reachable]) (simp add: demo_locks_def waiting_def)

text \<open>
  No lost broadcast: a thread that sleeps on a condition variable has either read its
  current value, or the notification of a later \<open>emscripten_condvar_signal\<close> to all is still to come.
\<close>

lemma no_lost_broadcast:
  assumes "broadcast_reachable s" and "pcs s i = Cv_asleep timed v"
  shows "v = cv s \<or> (\<exists>j held n. pcs s j = Sig_notify held n)"
  using cv_inv_reachable [OF assms(1)] assms(2) unfolding cv_inv_def by blast

text \<open>
  Claim C37. A semaphore neither loses nor invents units: as long as fewer than 2^31 units exist,
  the count and the units taken add up to the units there were at the start or were released since.
\<close>

theorem semaphore_conserves:
  assumes "sem_reachable allowed num s" and "\<And>n. allowed n \<Longrightarrow> 0 \<le> sint n"
    and "num + given s < 2 ^ 31"
  shows "unat (count s) + taken s = num + given s"
  using sem_inv_reachable [OF assms(1,2)] assms(3) by (simp add: sem_inv_def)

lemma demo_taken: "sem_reachable (\<lambda>n. n = 2) 5 \<lparr>count = 3, callers = {#S_out#}, given = 0, taken = Suc (Suc 0)\<rparr>"
proof -
  let ?s = "\<lambda>c p t. \<lparr>count = c, callers = {#p#}, given = 0, taken = t\<rparr>"
  have 0: "sem_reachable (\<lambda>n. n = 2) 5 (?s 5 S_out 0)"
    by (rule sem_reachable.init)
       (auto simp: sem_start_def emscripten_semaphore_init_def intro!: exI [of _ "?s 5 S_out 0"])
  have 1: "sem_reachable (\<lambda>n. n = 2) 5 (?s 5 (S_cas False 2 5) 0)"
  proof -
    have "sem_reachable (\<lambda>n. n = 2) 5 (?s 5 (S_load False 2) 0)"
      using sem_reachable.step [OF 0 call [where T = "{#}" and num = 2 and timed = False and p = "S_load False 2"]]
      by simp
    from sem_reachable.step [OF this attempt [where p = "S_load False 2" and T = "{#}" and c = 5
          and p' = "S_cas False 2 5" and num = 0 and time_left = True]]
    show ?thesis by (simp add: emscripten_semaphore_waitinf_acquire_def sem_loop_def)
  qed
  from sem_reachable.step [OF 1 attempt [where p = "S_cas False 2 5" and T = "{#}" and c = 3
        and p' = S_out and num = 2 and time_left = True]]
  show ?thesis by (simp add: emscripten_semaphore_waitinf_acquire_def atomic_cas_def)
qed

theorem semaphore_conserves_witness: "unat (3 :: u32) + 2 = 5 + (0 :: nat)"
  using semaphore_conserves [OF demo_taken] by simp

text \<open>
  When every caller asks for one unit, no wake-up is lost: if a caller sleeps while no
  notification is outstanding and no other caller is awake, there is no unit left.
\<close>

theorem unit_semaphore_no_lost_wakeup:
  assumes "sem_reachable (\<lambda>n. n = 1) num s" and "num + given s < 2 ^ 31"
    and "p \<in># callers s" "asleep p" and "\<And>q. q \<in># callers s \<Longrightarrow> weight q = 0"
  shows "count s = 0"
proof -
  have "unat (count s) \<le> (\<Sum>q\<in>#callers s. weight q)"
    using unit_inv_reachable [OF assms(1)] assms(2-4) by (auto simp: unit_inv_def)
  also have "\<dots> = 0" using assms(5) by simp
  finally show ?thesis by (simp add: unat_eq_0)
qed

lemma demo_sleeper:
  "sem_reachable (\<lambda>n. n = 1) 0 \<lparr>count = 0, callers = {#S_asleep False 1#}, given = 0, taken = 0\<rparr>"
proof -
  let ?s = "\<lambda>p. \<lparr>count = 0, callers = {#p#}, given = 0, taken = 0\<rparr>"
  have go: "sem_reachable (\<lambda>n. n = 1) 0 (?s p')"
    if "sem_reachable (\<lambda>n. n = 1) 0 (?s p)" "emscripten_semaphore_waitinf_acquire 0 p = Some (0, p', 0)" for p p'
    using sem_reachable.step [OF that(1) attempt [where p = p and T = "{#}" and c = 0 and p' = p' and num = 0
          and time_left = True]] that(2) by simp
  have "sem_reachable (\<lambda>n. n = 1) 0 (?s S_out)"
    by (rule sem_reachable.init)
       (auto simp: sem_start_def emscripten_semaphore_init_def intro!: exI [of _ "?s S_out"])
  note 0 = this
  have "sem_reachable (\<lambda>n. n = 1) 0 (?s (S_load False 1))"
  proof -
    show ?thesis
      using sem_reachable.step [OF 0 call [where T = "{#}" and num = 1 and timed = False and p = "S_load False 1"]]
      by simp
  qed
  then have "sem_reachable (\<lambda>n. n = 1) 0 (?s (S_wait False 1 0))"
    by (rule go) (simp add: emscripten_semaphore_waitinf_acquire_def sem_loop_def)
  then show ?thesis
    by (rule go) (simp add: emscripten_semaphore_waitinf_acquire_def)
qed

theorem unit_semaphore_no_lost_wakeup_witness: "count \<lparr>count = 0, callers = {#S_asleep False 1#}, given = 0, taken = 0\<rparr> = 0"
  by (rule unit_semaphore_no_lost_wakeup [OF demo_sleeper, where p = "S_asleep False 1"]) simp_all

text \<open>
  With callers that ask for different numbers a wake-up can be lost: two callers wait for
  two units and for one, one unit is released, the notification goes to the first, which goes back
  to sleep, and the second sleeps on although its unit is there, until something else is released.
\<close>

theorem mixed_semaphore_strands_waiter:
  "\<exists>s. sem_reachable (\<lambda>n. n = 1 \<or> n = 2) 0 s \<and> count s = 1 \<and>
     callers s = {#S_out, S_asleep False 2, S_asleep False 1#} \<and>
     (\<nexists>s'. (sem_step (\<lambda>n. n = 1 \<or> n = 2))\<^sup>*\<^sup>* s s' \<and> given s' = given s \<and> S_asleep False 1 \<notin># callers s')"
proof -
  let ?al = "\<lambda>n :: u32. n = 1 \<or> n = 2"
  define st where "st c T g = \<lparr>count = c, callers = T, given = g, taken = 0\<rparr>" for c T and g :: nat
  note defs = st_def emscripten_semaphore_waitinf_acquire_def sem_loop_def
  have go: "sem_reachable ?al 0 (st c (add_mset p' T) g)"
    if "sem_reachable ?al 0 (st c (add_mset p T) g)"
      "emscripten_semaphore_waitinf_acquire c p = Some (c, p', 0)" for c p p' T g
    using sem_reachable.step [OF that(1) attempt [where p = p and T = T and c = c and p' = p' and num = 0
          and time_left = True]] that(2) by (simp add: st_def)
  have start: "sem_reachable ?al 0 (st c (add_mset (S_load False n) T) g)"
    if "sem_reachable ?al 0 (st c (add_mset S_out T) g)" "?al n" for c T g n
    using sem_reachable.step [OF that(1) call [where s = "st c (add_mset S_out T) g" and T = T and num = n
          and timed = False and p = "S_load False n"]] that(2) by (simp add: st_def)
  have "sem_reachable ?al 0 (st 0 {#S_out, S_out, S_out#} 0)"
    by (rule sem_reachable.init)
       (auto simp: sem_start_def emscripten_semaphore_init_def st_def intro!: exI [of _ "st 0 {#S_out, S_out, S_out#} 0"])
  then have "sem_reachable ?al 0 (st 0 {#S_load False 2, S_out, S_out#} 0)" by (rule start) simp
  then have "sem_reachable ?al 0 (st 0 {#S_wait False 2 0, S_out, S_out#} 0)" by (rule go) (simp add: defs)
  then have "sem_reachable ?al 0 (st 0 {#S_asleep False 2, S_out, S_out#} 0)" by (rule go) (simp add: defs)
  then have "sem_reachable ?al 0 (st 0 {#S_out, S_asleep False 2, S_out#} 0)" by (simp add: add_mset_commute)
  then have "sem_reachable ?al 0 (st 0 {#S_load False 1, S_asleep False 2, S_out#} 0)" by (rule start) simp
  then have "sem_reachable ?al 0 (st 0 {#S_wait False 1 0, S_asleep False 2, S_out#} 0)" by (rule go) (simp add: defs)
  then have "sem_reachable ?al 0 (st 0 {#S_asleep False 1, S_asleep False 2, S_out#} 0)" by (rule go) (simp add: defs)
  then have 1: "sem_reachable ?al 0 (st 0 {#S_out, S_asleep False 2, S_asleep False 1#} 0)"
    by (simp add: add_mset_commute)
  have 2: "sem_reachable ?al 0 (st 1 {#S_notify 1, S_asleep False 2, S_asleep False 1#} 1)"
    using sem_reachable.step [OF 1 release [where num = 1 and T = "{#S_asleep False 2, S_asleep False 1#}"]]
    by (simp add: st_def)
  have "sem_step ?al (st 1 {#S_notify 1, S_asleep False 2, S_asleep False 1#} 1)
      ((st 1 {#S_notify 1, S_asleep False 2, S_asleep False 1#} 1)\<lparr>callers :=
        add_mset S_out (image_mset sem_woken {#S_asleep False 2#} + {#S_asleep False 1#})\<rparr>)"
    by (rule notify) (auto simp: st_def)
  then have "sem_reachable ?al 0 (st 1 {#S_load False 2, S_asleep False 1, S_out#} 1)"
    using sem_reachable.step [OF 2] by (simp add: st_def add_mset_commute)
  then have "sem_reachable ?al 0 (st 1 {#S_wait False 2 1, S_asleep False 1, S_out#} 1)" by (rule go) (simp add: defs)
  then have "sem_reachable ?al 0 (st 1 {#S_asleep False 2, S_asleep False 1, S_out#} 1)" by (rule go) (simp add: defs)
  moreover define s where "s = st 1 {#S_asleep False 2, S_asleep False 1, S_out#} 1"
  moreover have "left_alone (S_asleep False 1) s" by (auto simp: left_alone_def s_def st_def)
  then have "S_asleep False 1 \<in># callers s'" if "(sem_step ?al)\<^sup>*\<^sup>* s s'" "given s' = given s" for s'
    using left_alone_steps [OF that(1), of 1] that(2) by (simp add: left_alone_def)
  moreover have "count s = 1" "callers s = {#S_out, S_asleep False 2, S_asleep False 1#}"
    by (simp_all add: s_def st_def add_mset_commute)
  ultimately show ?thesis by blast
qed

end
