(* ===== verification/Signals.thy ===== *)
theory Signals
  imports Prelude
begin

text \<open>
  Signals: \<open>raise.c\<close>, \<open>sigaction.c\<close>, \<open>pthread_sigmask.c\<close>, \<open>sigtimedwait.c\<close> and \<open>kill.c\<close> of
  \<open>system/lib/libc\<close>, with the set operations of musl they call. The state of one thread is its
  mask and its pending set, both 64 bits, and the table of actions. A handler is code of the
  program: a parameter that maps a state to the state in which the handler returns.
\<close>

section \<open>Sets of signals\<close>

abbreviation SIGABRT :: int where "SIGABRT \<equiv> 6"
abbreviation SIGKILL :: int where "SIGKILL \<equiv> 9"
abbreviation SIGSTOP :: int where "SIGSTOP \<equiv> 19"
abbreviation NSIG :: int where "NSIG \<equiv> 65"
abbreviation SIG_DFL :: u32 where "SIG_DFL \<equiv> 0"
abbreviation SIG_IGN :: u32 where "SIG_IGN \<equiv> - 2"
abbreviation SA_SIGINFO :: u32 where "SA_SIGINFO \<equiv> 4"
abbreviation SIG_BLOCK :: int where "SIG_BLOCK \<equiv> 0"
abbreviation SIG_UNBLOCK :: int where "SIG_UNBLOCK \<equiv> 1"
abbreviation SIG_SETMASK :: int where "SIG_SETMASK \<equiv> 2"

text \<open>musl's \<open>sigismember\<close>, \<open>sigaddset\<close>, \<open>sigdelset\<close>; \<^const>\<open>None\<close> is the failure with \<open>EINVAL\<close>.\<close>

definition sigismember :: "u64 \<Rightarrow> int \<Rightarrow> bool" where
  "sigismember ss sig = (let s = (word_of_int (sig - 1) :: u32) in s < 64 \<and> bit ss (unat s))"

definition sig_reserved :: "int \<Rightarrow> bool" where
  "sig_reserved sig \<longleftrightarrow> (word_of_int (sig - 1) :: u32) \<ge> 64 \<or> (word_of_int sig :: u32) - 32 < 3"

definition sigaddset :: "u64 \<Rightarrow> int \<Rightarrow> u64 option" where
  "sigaddset ss sig =
     (if sig_reserved sig then None
      else Some (ss OR push_bit (unat (word_of_int (sig - 1) :: u32)) 1))"

definition sigdelset :: "u64 \<Rightarrow> int \<Rightarrow> u64 option" where
  "sigdelset ss sig =
     (if sig_reserved sig then None
      else Some (ss AND NOT (push_bit (unat (word_of_int (sig - 1) :: u32)) 1)))"

section \<open>State\<close>

record sigaction =
  sa_handler :: u32
  sa_mask :: u64
  sa_flags :: u32

record sig_state =
  sig_mask :: u64
  sig_pending :: u64
  sig_actions :: "sigaction list"
  sig_errno :: int

text \<open>
  How a call ends. \<open>Wild\<close> is an access outside the 65 entries of \<open>__sig_actions\<close>, which C leaves
  undefined.
\<close>

datatype 's outcome = Running 's | Aborted | Exited int | Wild

type_synonym 'a handler = "u32 \<Rightarrow> int \<Rightarrow> 'a sig_state_scheme \<Rightarrow> 'a sig_state_scheme outcome"

fun after :: "'s outcome \<Rightarrow> ('s \<Rightarrow> 's outcome) \<Rightarrow> 's outcome" where
  "after (Running s) f = f s"
| "after Aborted f = Aborted"
| "after (Exited n) f = Exited n"
| "after Wild f = Wild"

section \<open>Raising\<close>

definition action_abort :: "int \<Rightarrow> 'a sig_state_scheme \<Rightarrow> 'a sig_state_scheme outcome" where
  "action_abort sig s = Aborted"

definition action_terminate :: "int \<Rightarrow> 'a sig_state_scheme \<Rightarrow> 'a sig_state_scheme outcome" where
  "action_terminate sig s = Exited (128 + sig)"

definition default_actions :: "int \<Rightarrow> (int \<Rightarrow> 'a sig_state_scheme \<Rightarrow> 'a sig_state_scheme outcome) option" where
  "default_actions sig =
     (if sig \<in> {6, 7, 8, 4, 3, 11, 31, 5, 24, 25} then Some action_abort
      else if sig \<in> {14, 1, 2, 9, 13, 15, 10, 12, 29, 27, 26} then Some action_terminate
      else None)"

definition sig_is_blocked :: "int \<Rightarrow> 'a sig_state_scheme \<Rightarrow> bool" where
  "sig_is_blocked sig s = sigismember (sig_mask s) sig"

definition raise :: "'a handler \<Rightarrow> int \<Rightarrow> 'a sig_state_scheme \<Rightarrow> 'a sig_state_scheme outcome" where
  "raise call sig s =
     (if sig_is_blocked sig s
      then Running (case sigaddset (sig_pending s) sig of
                      None \<Rightarrow> s\<lparr>sig_errno := EINVAL\<rparr>
                    | Some p \<Rightarrow> s\<lparr>sig_pending := p\<rparr>)
      else if sig < 0 \<or> NSIG \<le> sig then Wild
      else
        let act = sig_actions s ! nat sig
        in if sa_flags act AND SA_SIGINFO \<noteq> 0 then call (sa_handler act) sig s
           else if sa_handler act = SIG_DFL
           then (case default_actions sig of None \<Rightarrow> Running s | Some f \<Rightarrow> f sig s)
           else if sa_handler act \<noteq> SIG_IGN then call (sa_handler act) sig s
           else Running s)"

definition kill :: "'a handler \<Rightarrow> int \<Rightarrow> int \<Rightarrow> int \<Rightarrow> 'a sig_state_scheme \<Rightarrow> int \<times> 'a sig_state_scheme outcome" where
  "kill call own_pid pid sig s =
     (if pid = own_pid then (0, raise call sig s)
      else (- 1, Running (s\<lparr>sig_errno := EPERM\<rparr>)))"

text \<open>\<open>sigaction\<close>: the result and the old action.\<close>

definition sigaction_call :: "int \<Rightarrow> sigaction option \<Rightarrow> 'a sig_state_scheme \<Rightarrow> int \<times> sigaction option \<times> 'a sig_state_scheme" where
  "sigaction_call sig sa s =
     (if sig < 0 \<or> NSIG \<le> sig then (- 1, None, s\<lparr>sig_errno := EINVAL\<rparr>)
      else (0, Some (sig_actions s ! nat sig),
            case sa of None \<Rightarrow> s | Some a \<Rightarrow> s\<lparr>sig_actions := (sig_actions s)[nat sig := a]\<rparr>))"

section \<open>Masks\<close>

definition set_or_errno :: "u64 option \<Rightarrow> (u64 \<Rightarrow> 'a sig_state_scheme \<Rightarrow> 'a sig_state_scheme) \<Rightarrow> 'a sig_state_scheme \<Rightarrow> 'a sig_state_scheme" where
  "set_or_errno r f s = (case r of None \<Rightarrow> s\<lparr>sig_errno := EINVAL\<rparr> | Some v \<Rightarrow> f v s)"

definition del_pending :: "int \<Rightarrow> 'a sig_state_scheme \<Rightarrow> 'a sig_state_scheme" where
  "del_pending sig s = set_or_errno (sigdelset (sig_pending s) sig) (\<lambda>v. sig_pending_update (\<lambda>_. v)) s"

definition del_mask :: "int \<Rightarrow> 'a sig_state_scheme \<Rightarrow> 'a sig_state_scheme" where
  "del_mask sig s = set_or_errno (sigdelset (sig_mask s) sig) (\<lambda>v. sig_mask_update (\<lambda>_. v)) s"

text \<open>The loop of \<open>raise_pending_signals\<close>; a handler may change the sets while it runs.\<close>

fun raise_pending_loop :: "'a handler \<Rightarrow> int list \<Rightarrow> 'a sig_state_scheme \<Rightarrow> 'a sig_state_scheme outcome" where
  "raise_pending_loop call [] s = Running s"
| "raise_pending_loop call (sig # sigs) s =
     (if sigismember (sig_pending s) sig \<and> \<not> sigismember (sig_mask s) sig
      then after (raise call sig (del_pending sig s)) (raise_pending_loop call sigs)
      else raise_pending_loop call sigs s)"

definition raise_pending_signals :: "'a handler \<Rightarrow> 'a sig_state_scheme \<Rightarrow> 'a sig_state_scheme outcome" where
  "raise_pending_signals call = raise_pending_loop call [0..NSIG - 1]"

text \<open>
  A null \<open>set\<close> is not checked: the code then reads the eight bytes at address 0, the argument
  \<open>zero_page\<close>. The result of the call is the first component.
\<close>

definition pthread_sigmask :: "'a handler \<Rightarrow> u64 \<Rightarrow> int \<Rightarrow> u64 option \<Rightarrow> 'a sig_state_scheme \<Rightarrow> int \<times> 'a sig_state_scheme outcome" where
  "pthread_sigmask call zero_page how set0 s =
     (let ss = (case set0 of None \<Rightarrow> zero_page | Some v \<Rightarrow> v);
          set_mask = (\<lambda>m. (0, raise_pending_signals call
            (del_mask SIGSTOP (del_mask SIGKILL (s\<lparr>sig_mask := m\<rparr>)))))
      in if how = SIG_SETMASK then set_mask ss
         else if how = SIG_BLOCK then set_mask (sig_mask s OR ss)
         else if how = SIG_UNBLOCK then set_mask (sig_mask s AND NOT ss)
         else (EINVAL, Running s))"

definition sigpending :: "'a sig_state_scheme \<Rightarrow> u64" where
  "sigpending s = sig_pending s"

definition sigtimedwait :: "u64 \<Rightarrow> 'a sig_state_scheme \<Rightarrow> int \<times> 'a sig_state_scheme" where
  "sigtimedwait ss s =
     (case filter (\<lambda>sig. sigismember ss sig \<and> sigismember (sig_pending s) sig) [0..NSIG - 1] of
        sig # _ \<Rightarrow> (sig, del_pending sig s)
      | [] \<Rightarrow> (- 1, s\<lparr>sig_errno := EINVAL\<rparr>))"

section \<open>Sets, bit by bit\<close>

lemma word_sig:
  assumes "1 \<le> sig" "sig \<le> 64"
  shows "unat (word_of_int (sig - 1) :: u32) = nat (sig - 1)" "(word_of_int (sig - 1) :: u32) < 64"
proof -
  have "uint (word_of_int (sig - 1) :: u32) = sig - 1"
    unfolding uint_word_of_int using assms by (simp add: take_bit_int_eq_self)
  then show "unat (word_of_int (sig - 1) :: u32) = nat (sig - 1)"
    by (simp only: unat_eq_nat_uint)
  then show "(word_of_int (sig - 1) :: u32) < 64"
    unfolding word_less_nat_alt using assms by simp
qed

lemma sigismember_bit: "1 \<le> sig \<Longrightarrow> sig \<le> 64 \<Longrightarrow> sigismember ss sig \<longleftrightarrow> bit ss (nat (sig - 1))"
  by (simp only: sigismember_def word_sig Let_def simp_thms)

lemma sigismember_0: "\<not> sigismember ss 0"
  by (simp add: sigismember_def Let_def)

lemma sig_reserved_iff:
  assumes "1 \<le> sig" "sig \<le> 64"
  shows "sig_reserved sig \<longleftrightarrow> sig \<in> {32, 33, 34}"
proof -
  have eq: "word_of_int sig - 32 = (word_of_int (sig - 32) :: u32)" by simp
  have "(word_of_int (sig - 32) :: u32) < 3 \<longleftrightarrow> sig \<in> {32, 33, 34}"
  proof (cases "32 \<le> sig")
    case True
    then have "uint (word_of_int (sig - 32) :: u32) = sig - 32"
      unfolding uint_word_of_int using assms by (simp add: take_bit_int_eq_self)
    then show ?thesis unfolding word_less_def using True by auto
  next
    case False
    have "(sig - 32) mod 2 ^ 32 = (sig - 32 + 2 ^ 32) mod 2 ^ 32" by (simp only: mod_add_self2)
    also have "\<dots> = sig - 32 + 2 ^ 32" using False assms by (intro mod_pos_pos_trivial) simp_all
    finally have "uint (word_of_int (sig - 32) :: u32) = sig - 32 + 2 ^ 32"
      unfolding uint_word_of_int by (simp add: take_bit_eq_mod)
    then show ?thesis unfolding word_less_def using False assms by auto
  qed
  moreover have "\<not> (word_of_int (sig - 1) :: u32) \<ge> 64" using word_sig(2) [OF assms] by (simp only: not_le)
  ultimately show ?thesis unfolding sig_reserved_def eq by blast
qed

lemma sigdelset_Some:
  assumes "1 \<le> sig" "sig \<le> 64" "sig \<notin> {32, 33, 34}"
  shows "\<exists>v. sigdelset ss sig = Some v \<and> (\<forall>i<64. bit v i \<longleftrightarrow> bit ss i \<and> i \<noteq> nat (sig - 1))"
proof -
  have "sigdelset ss sig = Some (ss AND NOT (push_bit (nat (sig - 1)) 1))"
    unfolding sigdelset_def using assms word_sig(1) [OF assms(1,2)] sig_reserved_iff [OF assms(1,2)] by simp
  then show ?thesis by (auto simp: bit_simps bit_1_iff)
qed

lemma sigaddset_Some:
  assumes "1 \<le> sig" "sig \<le> 64" "sig \<notin> {32, 33, 34}"
  shows "\<exists>v. sigaddset ss sig = Some v \<and> (\<forall>i<64. bit v i \<longleftrightarrow> bit ss i \<or> i = nat (sig - 1))"
proof -
  have "sigaddset ss sig = Some (ss OR push_bit (nat (sig - 1)) 1)"
    unfolding sigaddset_def using assms word_sig(1) [OF assms(1,2)] sig_reserved_iff [OF assms(1,2)] by simp
  moreover have "bit (push_bit k 1 :: u64) i \<longleftrightarrow> i = k" if "i < 64" "k < 64" for i k
    using that by (auto simp: bit_simps bit_1_iff)
  moreover have "nat (sig - 1) < 64" using assms by simp
  ultimately show ?thesis by (auto simp: bit_simps simp del: One_nat_def)
qed

section \<open>The invariant\<close>

text \<open>
  \<open>SIGKILL\<close> and \<open>SIGSTOP\<close> are not blocked, and the three signals that musl reserves are not pending.
\<close>

definition sig_inv :: "'a sig_state_scheme \<Rightarrow> bool" where
  "sig_inv s \<longleftrightarrow>
     \<not> sigismember (sig_mask s) SIGKILL \<and> \<not> sigismember (sig_mask s) SIGSTOP \<and>
     (\<forall>sig\<in>{32, 33, 34}. \<not> sigismember (sig_pending s) sig) \<and> length (sig_actions s) = 65"

definition keeps :: "'a handler \<Rightarrow> bool" where
  "keeps call \<longleftrightarrow> (\<forall>h sig s s'. sig_inv s \<longrightarrow> call h sig s = Running s' \<longrightarrow> sig_inv s')"

lemma sigismember_add:
  "sigaddset ss sig = Some v \<Longrightarrow> k \<in> {32, 33, 34} \<Longrightarrow> sigismember v k \<longleftrightarrow> sigismember ss k"
proof -
  assume v: "sigaddset ss sig = Some v" and k: "k \<in> {32, 33, 34}"
  define w where "w = (word_of_int (sig - 1) :: u32)"
  have sig: "(word_of_int sig :: u32) - 32 = w - 31" by (simp add: w_def)
  have "\<not> sig_reserved sig" using v by (auto simp: sigaddset_def split: if_splits)
  then have "\<not> w - 31 < 3" unfolding sig_reserved_def sig by blast
  then have "w \<noteq> 31" "w \<noteq> 32" "w \<noteq> 33" by (intro notI; simp)+
  then have ne: "unat w \<noteq> 31" "unat w \<noteq> 32" "unat w \<noteq> 33" by (simp_all add: word_unat_eq_iff)
  have "v = ss OR push_bit (unat w) 1"
    using v by (auto simp: sigaddset_def w_def split: if_splits)
  then have "bit v i \<longleftrightarrow> bit ss i" if "unat w \<noteq> i" for i
    using that by (auto simp: bit_or_iff bit_exp_iff)
  then have "bit v 31 \<longleftrightarrow> bit ss 31" "bit v 32 \<longleftrightarrow> bit ss 32" "bit v 33 \<longleftrightarrow> bit ss 33"
    using ne by blast+
  then show ?thesis using k by (elim insertE emptyE) (simp_all add: sigismember_bit)
qed

lemma sigismember_del:
  "sigdelset ss sig = Some v \<Longrightarrow> sigismember v k \<Longrightarrow> sigismember ss k"
  by (auto simp: sigdelset_def sigismember_def Let_def bit_simps split: if_splits)

lemma sigismember_or: "sigismember (a OR b) k \<longleftrightarrow> sigismember a k \<or> sigismember b k"
  by (auto simp: sigismember_def Let_def bit_simps)

lemma del_pending_inv: "sig_inv s \<Longrightarrow> sig_inv (del_pending sig s)"
  using sigismember_del by (auto simp: sig_inv_def del_pending_def set_or_errno_def split: option.split)

lemma raise_inv:
  assumes "keeps call" "sig_inv s" "raise call sig s = Running s'"
  shows "sig_inv s'"
proof -
  have "sig_inv (case sigaddset (sig_pending s) sig of None \<Rightarrow> s\<lparr>sig_errno := EINVAL\<rparr>
      | Some p \<Rightarrow> s\<lparr>sig_pending := p\<rparr>)"
    using assms(2) sigismember_add by (auto simp: sig_inv_def split: option.split)
  moreover have "default_actions sig = Some f \<Longrightarrow> f sig s \<noteq> Running s'" for f
    by (auto simp: default_actions_def action_abort_def action_terminate_def split: if_splits)
  ultimately show ?thesis
    using assms unfolding raise_def keeps_def Let_def
    by (auto split: if_splits option.splits)
qed

lemma after_Running: "after r f = Running s' \<longleftrightarrow> (\<exists>s. r = Running s \<and> f s = Running s')"
  by (cases r) auto

lemma raise_pending_loop_inv:
  "keeps call \<Longrightarrow> sig_inv s \<Longrightarrow> raise_pending_loop call sigs s = Running s' \<Longrightarrow> sig_inv s'"
proof (induction call sigs s rule: raise_pending_loop.induct)
  case (2 call sig sigs s)
  show ?case
  proof (cases "sigismember (sig_pending s) sig \<and> \<not> sigismember (sig_mask s) sig")
    case True
    then obtain s1 where "raise call sig (del_pending sig s) = Running s1"
        "raise_pending_loop call sigs s1 = Running s'"
      using 2(5) by (auto simp: after_Running)
    then show ?thesis
      using 2(1) [OF True] raise_inv [OF 2(3) del_pending_inv [OF 2(4)]] 2(3) by blast
  qed (use 2 in auto)
qed simp

lemma del_mask_clears:
  assumes "sig \<in> {SIGKILL, SIGSTOP}"
  shows "\<not> sigismember (sig_mask (del_mask sig s)) sig"
    and "\<not> sigismember (sig_mask s) k \<Longrightarrow> \<not> sigismember (sig_mask (del_mask sig s)) k"
    and "sig_pending (del_mask sig s) = sig_pending s" "sig_actions (del_mask sig s) = sig_actions s"
proof -
  from assms obtain v where v: "sigdelset (sig_mask s) sig = Some v"
      "\<forall>i<64. bit v i \<longleftrightarrow> bit (sig_mask s) i \<and> i \<noteq> nat (sig - 1)"
    using sigdelset_Some [of sig "sig_mask s"] by auto
  then show "\<not> sigismember (sig_mask (del_mask sig s)) sig"
    using assms by (auto simp: del_mask_def set_or_errno_def sigismember_bit)
  show "\<not> sigismember (sig_mask s) k \<Longrightarrow> \<not> sigismember (sig_mask (del_mask sig s)) k"
    using v(1) sigismember_del by (auto simp: del_mask_def set_or_errno_def)
  show "sig_pending (del_mask sig s) = sig_pending s" "sig_actions (del_mask sig s) = sig_actions s"
    by (auto simp: del_mask_def set_or_errno_def split: option.split)
qed

lemma del_mask_bits:
  assumes "sig \<in> {SIGKILL, SIGSTOP}" "1 \<le> k" "k \<le> 64"
  shows "sigismember (sig_mask (del_mask sig s)) k \<longleftrightarrow> sigismember (sig_mask s) k \<and> k \<noteq> sig"
proof -
  from assms obtain v where v: "sigdelset (sig_mask s) sig = Some v"
      "\<forall>i<64. bit v i \<longleftrightarrow> bit (sig_mask s) i \<and> i \<noteq> nat (sig - 1)"
    using sigdelset_Some [of sig "sig_mask s"] by auto
  then have "sigismember (sig_mask (del_mask sig s)) k \<longleftrightarrow> bit (sig_mask s) (nat (k - 1)) \<and> nat (k - 1) \<noteq> nat (sig - 1)"
    using assms(2,3) by (simp add: del_mask_def set_or_errno_def sigismember_bit)
  moreover have "nat (k - 1) \<noteq> nat (sig - 1) \<longleftrightarrow> k \<noteq> sig" using assms by (auto simp: nat_eq_iff)
  ultimately show ?thesis using assms(2,3) by (simp add: sigismember_bit)
qed

lemma unblockable_cleared:
  assumes "sig_inv s"
  shows "sig_inv (del_mask SIGSTOP (del_mask SIGKILL (s\<lparr>sig_mask := m\<rparr>)))"
  using assms
  by (simp add: sig_inv_def del_mask_clears(1) [of SIGSTOP] del_mask_clears(2) [of SIGSTOP _ SIGKILL]
      del_mask_clears(1) [of SIGKILL] del_mask_clears(3,4) [of SIGSTOP] del_mask_clears(3,4) [of SIGKILL])

lemma pthread_sigmask_inv:
  assumes "keeps call" "sig_inv s" "pthread_sigmask call zero how ss s = (r, Running s')"
  shows "sig_inv s'"
proof -
  have "sig_inv s'" if "raise_pending_signals call (del_mask SIGSTOP (del_mask SIGKILL (s\<lparr>sig_mask := m\<rparr>))) = Running s'" for m
    using raise_pending_loop_inv [OF assms(1) unblockable_cleared [OF assms(2)]] that
    unfolding raise_pending_signals_def by blast
  then show ?thesis using assms(2,3)
    by (auto simp: pthread_sigmask_def Let_def split: if_splits)
qed

section \<open>Delivery\<close>

text \<open>Handlers that only record that they were called.\<close>

record logged = sig_state +
  calls :: "(u32 \<times> int) list"

definition log_call :: "u32 \<Rightarrow> int \<Rightarrow> logged \<Rightarrow> logged outcome" where
  "log_call h sig s = Running (s\<lparr>calls := calls s @ [(h, sig)]\<rparr>)"

definition has_handler :: "'a sig_state_scheme \<Rightarrow> int \<Rightarrow> bool" where
  "has_handler s sig \<longleftrightarrow>
     (let act = sig_actions s ! nat sig
      in sa_flags act AND SA_SIGINFO \<noteq> 0 \<or> sa_handler act \<notin> {SIG_DFL, SIG_IGN})"

definition due :: "'a sig_state_scheme \<Rightarrow> int \<Rightarrow> bool" where
  "due s sig \<longleftrightarrow> sigismember (sig_pending s) sig \<and> \<not> sigismember (sig_mask s) sig"

lemma raise_handled:
  "\<not> sigismember (sig_mask s) sig \<Longrightarrow> 0 \<le> sig \<Longrightarrow> sig < 65 \<Longrightarrow> has_handler s sig \<Longrightarrow>
     raise call sig s = call (sa_handler (sig_actions s ! nat sig)) sig s"
  by (auto simp: raise_def sig_is_blocked_def has_handler_def Let_def)

lemma del_pending_bits:
  assumes "1 \<le> sig" "sig \<le> 64" "sig \<notin> {32, 33, 34}"
  shows "sig_mask (del_pending sig s) = sig_mask s" "sig_actions (del_pending sig s) = sig_actions s"
    and "calls (del_pending sig (t :: logged)) = calls t"
    and "1 \<le> k \<Longrightarrow> k \<le> 64 \<Longrightarrow>
      sigismember (sig_pending (del_pending sig s)) k \<longleftrightarrow> sigismember (sig_pending s) k \<and> k \<noteq> sig"
proof -
  obtain v where v: "sigdelset (sig_pending s) sig = Some v"
      "\<forall>i<64. bit v i \<longleftrightarrow> bit (sig_pending s) i \<and> i \<noteq> nat (sig - 1)"
    using sigdelset_Some [OF assms] by blast
  show "sig_mask (del_pending sig s) = sig_mask s" "sig_actions (del_pending sig s) = sig_actions s"
    using v(1) by (simp_all add: del_pending_def set_or_errno_def)
  show "calls (del_pending sig t) = calls t"
    by (simp add: del_pending_def set_or_errno_def split: option.split)
  show "sigismember (sig_pending (del_pending sig s)) k \<longleftrightarrow> sigismember (sig_pending s) k \<and> k \<noteq> sig"
    if "1 \<le> k" "k \<le> 64"
    using v that assms by (auto simp: del_pending_def set_or_errno_def sigismember_bit nat_eq_iff)
qed

lemma delivery_loop:
  assumes "distinct sigs" "set sigs \<subseteq> {1..64}" "\<forall>sig\<in>{32, 33, 34}. \<not> sigismember (sig_pending s) sig"
    and "\<forall>sig\<in>set sigs. due s sig \<longrightarrow> has_handler s sig"
  shows "\<exists>s'. raise_pending_loop log_call sigs s = Running s' \<and>
    sig_mask s' = sig_mask s \<and> sig_actions s' = sig_actions s \<and>
    calls s' = calls s @ map (\<lambda>sig. (sa_handler (sig_actions s ! nat sig), sig)) (filter (due s) sigs) \<and>
    (\<forall>k\<in>{1..64}. sigismember (sig_pending s') k \<longleftrightarrow> sigismember (sig_pending s) k \<and> \<not> (k \<in> set sigs \<and> due s k))"
  using assms
proof (induction sigs arbitrary: s)
  case Nil
  then show ?case by simp
next
  case (Cons sig sigs)
  show ?case
  proof (cases "due s sig")
    case False
    then have "raise_pending_loop log_call (sig # sigs) s = raise_pending_loop log_call sigs s"
      by (auto simp: due_def)
    then show ?thesis using Cons.IH [of s] Cons.prems False by auto
  next
    case True
    have sig: "1 \<le> sig" "sig \<le> 64" "sig \<notin> {32, 33, 34}"
      using Cons.prems(2,3) True by (auto simp: due_def)
    let ?h = "sa_handler (sig_actions s ! nat sig)"
    define s1 where "s1 = (del_pending sig s)\<lparr>calls := calls s @ [(?h, sig)]\<rparr>"
    note del = del_pending_bits(1,2) [OF sig, where s = s] del_pending_bits(3) [OF sig, where t = s]
      and pend_bits = del_pending_bits(4) [OF sig, where s = s]
    have "has_handler (del_pending sig s) sig"
      using Cons.prems(4) True by (simp add: has_handler_def del)
    then have "raise log_call sig (del_pending sig s) = Running s1"
      using True sig by (subst raise_handled) (auto simp: due_def del log_call_def s1_def)
    then have loop: "raise_pending_loop log_call (sig # sigs) s = raise_pending_loop log_call sigs s1"
      using True by (simp add: due_def)
    have s1: "sig_mask s1 = sig_mask s" "sig_actions s1 = sig_actions s" "calls s1 = calls s @ [(?h, sig)]"
      by (simp_all add: s1_def del)
    have pend: "sigismember (sig_pending s1) k \<longleftrightarrow> sigismember (sig_pending s) k \<and> k \<noteq> sig"
      if "1 \<le> k" "k \<le> 64" for k
      using pend_bits [OF that] by (simp add: s1_def)
    have due1: "due s1 k \<longleftrightarrow> due s k" if "k \<in> set sigs" for k
      using that Cons.prems(1,2) pend [of k] by (auto simp: due_def s1)
    have hh: "has_handler s1 k = has_handler s k" for k by (simp add: has_handler_def s1)
    have "\<exists>s'. raise_pending_loop log_call sigs s1 = Running s' \<and>
        sig_mask s' = sig_mask s1 \<and> sig_actions s' = sig_actions s1 \<and>
        calls s' = calls s1 @ map (\<lambda>sig. (sa_handler (sig_actions s1 ! nat sig), sig)) (filter (due s1) sigs) \<and>
        (\<forall>k\<in>{1..64}. sigismember (sig_pending s') k \<longleftrightarrow>
          sigismember (sig_pending s1) k \<and> \<not> (k \<in> set sigs \<and> due s1 k))"
      using Cons.prems due1 pend by (intro Cons.IH) (auto simp: hh)
    moreover have "filter (due s1) sigs = filter (due s) sigs" using due1 by (rule filter_cong [OF refl])
    ultimately show ?thesis
      using True pend due1 unfolding loop s1 by auto
  qed
qed

lemma unblock_delivers':
  assumes inv: "sig_inv s" and handled: "\<forall>sig\<in>{1..64}. sigismember (sig_pending s) sig \<longrightarrow>
      (sigismember ss sig \<or> \<not> sigismember (sig_mask s) sig) \<longrightarrow> has_handler s sig"
  shows "\<exists>s'. pthread_sigmask log_call zero SIG_UNBLOCK (Some ss) s = (0, Running s') \<and>
    (\<forall>sig\<in>{1..64}. sigismember (sig_mask s') sig \<longleftrightarrow> sigismember (sig_mask s) sig \<and> \<not> sigismember ss sig) \<and>
    calls s' = calls s @ map (\<lambda>sig. (sa_handler (sig_actions s ! nat sig), sig))
      (filter (\<lambda>sig. sigismember (sig_pending s) sig \<and> (sigismember ss sig \<or> \<not> sigismember (sig_mask s) sig)) [1..64]) \<and>
    (\<forall>sig\<in>{1..64}. sigismember (sig_pending s') sig \<longleftrightarrow>
      sigismember (sig_pending s) sig \<and> sigismember (sig_mask s) sig \<and> \<not> sigismember ss sig)"
proof -
  define s1 where "s1 = del_mask SIGSTOP (del_mask SIGKILL (s\<lparr>sig_mask := sig_mask s AND NOT ss\<rparr>))"
  have calls1: "calls (del_mask k t) = calls t" for k and t :: logged
    by (simp add: del_mask_def set_or_errno_def split: option.split)
  have s1: "sig_pending s1 = sig_pending s" "sig_actions s1 = sig_actions s" "calls s1 = calls s"
    by (simp_all add: s1_def del_mask_clears(3,4) calls1)
  have mask1: "sigismember (sig_mask s1) k \<longleftrightarrow> sigismember (sig_mask s) k \<and> \<not> sigismember ss k"
    if k: "k \<in> {1..64}" for k
  proof -
    have "sigismember (sig_mask s1) k \<longleftrightarrow> sigismember (sig_mask s AND NOT ss) k \<and> k \<noteq> SIGKILL \<and> k \<noteq> SIGSTOP"
      using k by (auto simp: s1_def del_mask_bits)
    then show ?thesis using k inv by (auto simp: sigismember_bit bit_simps sig_inv_def)
  qed
  have run: "pthread_sigmask log_call zero SIG_UNBLOCK (Some ss) s = (0, raise_pending_loop log_call [0..64] s1)"
    by (simp add: pthread_sigmask_def raise_pending_signals_def Let_def s1_def)
  have zero: "raise_pending_loop log_call [0..64] s1 = raise_pending_loop log_call [1..64] s1"
    by (subst upto_rec1) (simp_all add: sigismember_0)
  have due1: "due s1 k \<longleftrightarrow> sigismember (sig_pending s) k \<and> (sigismember ss k \<or> \<not> sigismember (sig_mask s) k)"
    if "k \<in> {1..64}" for k
    using mask1 [OF that] by (auto simp: due_def s1)
  have ex: "\<exists>s'. raise_pending_loop log_call [1..64] s1 = Running s' \<and>
    sig_mask s' = sig_mask s1 \<and> sig_actions s' = sig_actions s1 \<and>
    calls s' = calls s1 @ map (\<lambda>sig. (sa_handler (sig_actions s1 ! nat sig), sig)) (filter (due s1) [1..64]) \<and>
    (\<forall>k\<in>{1..64}. sigismember (sig_pending s') k \<longleftrightarrow> sigismember (sig_pending s1) k \<and> \<not> (k \<in> set [1..64] \<and> due s1 k))"
  proof (rule delivery_loop)
    show "\<forall>sig\<in>{32, 33, 34}. \<not> sigismember (sig_pending s1) sig" using inv by (simp add: sig_inv_def s1)
    show "\<forall>sig\<in>set [1..64]. due s1 sig \<longrightarrow> has_handler s1 sig"
      using handled due1 by (auto simp: has_handler_def s1)
  qed simp_all
  have filter: "filter (due s1) [1..64] =
      filter (\<lambda>sig. sigismember (sig_pending s) sig \<and> (sigismember ss sig \<or> \<not> sigismember (sig_mask s) sig)) [1..64]"
    by (rule filter_cong) (simp_all only: set_upto due1)
  from ex obtain s' where run': "raise_pending_loop log_call [1..64] s1 = Running s'"
    and mask': "sig_mask s' = sig_mask s1"
    and calls': "calls s' = calls s1 @ map (\<lambda>sig. (sa_handler (sig_actions s1 ! nat sig), sig)) (filter (due s1) [1..64])"
    and pend': "\<forall>k\<in>{1..64}. sigismember (sig_pending s') k \<longleftrightarrow>
      sigismember (sig_pending s1) k \<and> \<not> (k \<in> set [1..64] \<and> due s1 k)"
    by blast
  show ?thesis
  proof (intro exI conjI)
    show "pthread_sigmask log_call zero SIG_UNBLOCK (Some ss) s = (0, Running s')"
      using run zero run' by simp
    show "\<forall>sig\<in>{1..64}. sigismember (sig_mask s') sig \<longleftrightarrow> sigismember (sig_mask s) sig \<and> \<not> sigismember ss sig"
      using mask1 mask' by simp
    show "\<forall>sig\<in>{1..64}. sigismember (sig_pending s') sig \<longleftrightarrow>
        sigismember (sig_pending s) sig \<and> sigismember (sig_mask s) sig \<and> \<not> sigismember ss sig"
      using pend' due1 unfolding s1 by (simp only: set_upto) blast
  qed (use calls' in \<open>simp only: s1 filter\<close>)
qed

section \<open>The properties\<close>

text \<open>
  Claim C33. Whatever a program does with \<open>pthread_sigmask\<close>, \<open>raise\<close>, \<open>kill\<close>, \<open>sigaction\<close> and
  \<open>sigtimedwait\<close>, from its handlers too, \<open>SIGKILL\<close> and \<open>SIGSTOP\<close> are never blocked and none of the
  signals that musl reserves becomes pending: each call that returns keeps the invariant, for any
  handlers that keep it.
\<close>

theorem signal_calls_keep_invariant:
  assumes "keeps call" and "sig_inv s"
  shows "(\<forall>s'. raise call sig s = Running s' \<longrightarrow> sig_inv s') \<and>
    (\<forall>r s'. kill call own pid sig s = (r, Running s') \<longrightarrow> sig_inv s') \<and>
    (\<forall>r s'. pthread_sigmask call zero how ss s = (r, Running s') \<longrightarrow> sig_inv s') \<and>
    sig_inv (snd (snd (sigaction_call sig sa s))) \<and> sig_inv (snd (sigtimedwait m s))"
proof (intro conjI allI impI)
  show "sig_inv s'" if "raise call sig s = Running s'" for s' by (rule raise_inv [OF assms that])
  show "sig_inv s'" if "kill call own pid sig s = (r, Running s')" for r s'
    using that raise_inv [OF assms] assms(2) by (auto simp: kill_def sig_inv_def split: if_splits)
  show "sig_inv s'" if "pthread_sigmask call zero how ss s = (r, Running s')" for r s'
    by (rule pthread_sigmask_inv [OF assms that])
  show "sig_inv (snd (snd (sigaction_call sig sa s)))"
    using assms(2) by (auto simp: sigaction_call_def sig_inv_def split: option.split)
  show "sig_inv (snd (sigtimedwait m s))"
    using assms(2) del_pending_inv [OF assms(2)]
    by (auto simp: sigtimedwait_def sig_inv_def split: list.split)
qed

definition demo_signals :: logged where
  "demo_signals =
     \<lparr>sig_mask = 0x4002, sig_pending = 0x4002,
      sig_actions = (replicate 65 \<lparr>sa_handler = SIG_DFL, sa_mask = 0, sa_flags = 0\<rparr>)
        [2 := \<lparr>sa_handler = 100, sa_mask = 0, sa_flags = 0\<rparr>, 15 := \<lparr>sa_handler = 200, sa_mask = 0, sa_flags = 0\<rparr>],
      sig_errno = 0, calls = []\<rparr>"

lemma demo_signals_inv: "sig_inv demo_signals"
  by (simp add: sig_inv_def demo_signals_def sigismember_def Let_def bit_simps)

lemma log_keeps: "keeps log_call"
  by (auto simp: keeps_def log_call_def sig_inv_def)

theorem signal_calls_keep_invariant_witness:
  "sig_inv (snd (sigtimedwait 2 demo_signals))"
  using signal_calls_keep_invariant [OF log_keeps demo_signals_inv, where m = 2] by blast

text \<open>
  Unblocking delivers: \<open>pthread_sigmask\<close> with \<open>SIG_UNBLOCK\<close> removes exactly the given
  signals from the mask and calls the handler of every pending signal that is now unblocked, each
  once and in increasing order; the pending signals that remain are those still blocked.
\<close>

theorem unblock_delivers:
  assumes "sig_inv s"
    and "\<forall>sig\<in>{1..64}. sigismember (sig_pending s) sig \<longrightarrow>
      (sigismember ss sig \<or> \<not> sigismember (sig_mask s) sig) \<longrightarrow> has_handler s sig"
  shows "\<exists>s'. pthread_sigmask log_call zero SIG_UNBLOCK (Some ss) s = (0, Running s') \<and>
    (\<forall>sig\<in>{1..64}. sigismember (sig_mask s') sig \<longleftrightarrow> sigismember (sig_mask s) sig \<and> \<not> sigismember ss sig) \<and>
    calls s' = calls s @ map (\<lambda>sig. (sa_handler (sig_actions s ! nat sig), sig))
      (filter (\<lambda>sig. sigismember (sig_pending s) sig \<and> (sigismember ss sig \<or> \<not> sigismember (sig_mask s) sig)) [1..64]) \<and>
    (\<forall>sig\<in>{1..64}. sigismember (sig_pending s') sig \<longleftrightarrow>
      sigismember (sig_pending s) sig \<and> sigismember (sig_mask s) sig \<and> \<not> sigismember ss sig)"
  using assms by (rule unblock_delivers')

lemma demo_pending:
  assumes "sig \<in> {1..64}" "sigismember (sig_pending demo_signals) sig"
  shows "sig = 2 \<or> sig = 15"
proof -
  have "sig_pending demo_signals = push_bit 1 1 OR push_bit 14 1" by (simp add: demo_signals_def)
  then have "bit (push_bit 1 1 OR push_bit 14 1 :: u64) (nat (sig - 1))"
    using assms sigismember_bit [of sig] by (simp only:) simp
  then have "nat (sig - 1) = 1 \<or> nat (sig - 1) = 14"
    unfolding bit_or_iff bit_push_bit_iff bit_1_iff by auto
  then show ?thesis by linarith
qed

theorem unblock_delivers_witness:
  "\<exists>s'. pthread_sigmask log_call 0 SIG_UNBLOCK (Some 2) demo_signals = (0, Running s') \<and> calls s' = [(100, 2)]"
proof -
  have "\<forall>sig\<in>{1..64}. sigismember (sig_pending demo_signals) sig \<longrightarrow>
      (sigismember 2 sig \<or> \<not> sigismember (sig_mask demo_signals) sig) \<longrightarrow> has_handler demo_signals sig"
    using demo_pending by (fastforce simp: has_handler_def demo_signals_def Let_def)
  from unblock_delivers [OF demo_signals_inv this, of 0] obtain s' where s':
    "pthread_sigmask log_call 0 SIG_UNBLOCK (Some 2) demo_signals = (0, Running s')"
    "calls s' = map (\<lambda>sig. (sa_handler (sig_actions demo_signals ! nat sig), sig))
      (filter (\<lambda>sig. sigismember (sig_pending demo_signals) sig \<and> (sigismember 2 sig \<or> \<not> sigismember (sig_mask demo_signals) sig)) [1..64])"
    by (auto simp: demo_signals_def)
  have "filter (\<lambda>sig. sigismember (sig_pending demo_signals) sig \<and> (sigismember 2 sig \<or> \<not> sigismember (sig_mask demo_signals) sig)) [1..64]
      = filter (\<lambda>sig. sig = 2) [1..64]"
    by (rule filter_cong [OF refl])
       (use demo_pending in \<open>fastforce simp: sigismember_bit demo_signals_def bit_simps\<close>)
  also have "\<dots> = [2]" by (simp add: upto_rec1)
  finally show ?thesis using s' by (simp add: demo_signals_def)
qed

text \<open>
  \<open>raise\<close> and a \<open>kill\<close> of the own process do not check the signal number: exactly for the
  numbers that \<open>sigaction\<close> rejects with \<open>EINVAL\<close> they read outside the table of actions.
\<close>

theorem raise_unchecked:
  assumes "\<And>h k t. call h k t \<noteq> Wild" and "- (2 ^ 31) \<le> sig" "sig < 2 ^ 31"
  shows "(raise call sig s = Wild \<longleftrightarrow> fst (sigaction_call sig sa s) = - 1) \<and>
    (snd (kill call own own sig s) = Wild \<longleftrightarrow> fst (sigaction_call sig sa s) = - 1)"
proof -
  have "\<not> sig_is_blocked sig s" if "sig < 0 \<or> 65 \<le> sig"
  proof -
    have "64 \<le> (word_of_int (sig - 1) :: u32)" using that
    proof
      assume "65 \<le> sig"
      then have "uint (word_of_int (sig - 1) :: u32) = sig - 1"
        unfolding uint_word_of_int using assms(3) by (simp add: take_bit_int_eq_self)
      then show ?thesis unfolding word_le_def using \<open>65 \<le> sig\<close> by simp
    next
      assume neg: "sig < 0"
      have "(sig - 1) mod 2 ^ 32 = (sig - 1 + 2 ^ 32) mod 2 ^ 32" by (simp only: mod_add_self2)
      also have "\<dots> = sig - 1 + 2 ^ 32" using neg assms(2) by (intro mod_pos_pos_trivial) simp_all
      finally have "uint (word_of_int (sig - 1) :: u32) = sig - 1 + 2 ^ 32"
        unfolding uint_word_of_int by (simp add: take_bit_eq_mod)
      then show ?thesis unfolding word_le_def using neg assms(2) by simp
    qed
    then show ?thesis by (simp only: sig_is_blocked_def sigismember_def Let_def not_le [symmetric] simp_thms)
  qed
  moreover have "default_actions sig = Some f \<Longrightarrow> f sig s \<noteq> Wild" for f
    by (auto simp: default_actions_def action_abort_def action_terminate_def split: if_splits)
  ultimately have "raise call sig s = Wild \<longleftrightarrow> sig < 0 \<or> 65 \<le> sig"
    using assms(1) unfolding raise_def Let_def by (auto split: option.split)
  then show ?thesis by (auto simp: kill_def sigaction_call_def)
qed

theorem raise_unchecked_witness:
  "raise log_call 65 demo_signals = Wild \<and> raise log_call 64 demo_signals \<noteq> Wild"
  using raise_unchecked [of log_call 65 demo_signals] raise_unchecked [of log_call 64 demo_signals]
  by (simp add: log_call_def sigaction_call_def)

end
