(* ===== verification/Wasmfs_Record_Locks.thy ===== *)
theory Wasmfs_Record_Locks
  imports Prelude "HOL-Library.Multiset"
begin

text \<open>
  The POSIX record locks of a WasmFS file: \<open>File::Handle::applyRecordLock\<close> of
  \<open>system/lib/wasmfs/file.cpp\<close> and the range normalization and access checks of \<open>fcntl\<close> in
  \<open>system/lib/wasmfs/syscalls.cpp\<close>. The list of locks is read as a map from byte offsets to lock
  types; applying a lock is overwriting a range of that map.
\<close>

section \<open>The lock list\<close>

datatype lock_type = F_RDLCK | F_WRLCK | F_UNLCK

text \<open>Offsets are \<open>off_t\<close>, 64 bits signed; the end is exclusive, and missing for end-of-file.\<close>

record record_lock =
  lk_type :: lock_type
  lk_start :: int
  lk_end :: "int option"

definition ranges_overlap :: "record_lock \<Rightarrow> record_lock \<Rightarrow> bool" where
  "ranges_overlap lhs rhs \<longleftrightarrow>
     (case lk_end lhs of None \<Rightarrow> True | Some e \<Rightarrow> lk_start rhs < e) \<and>
     (case lk_end rhs of None \<Rightarrow> True | Some e \<Rightarrow> lk_start lhs < e)"

definition ends_before_or_at :: "int option \<Rightarrow> int \<Rightarrow> bool" where
  "ends_before_or_at lhs rhs \<longleftrightarrow> (case lhs of None \<Rightarrow> False | Some e \<Rightarrow> e \<le> rhs)"

definition ends_after :: "int option \<Rightarrow> int option \<Rightarrow> bool" where
  "ends_after lhs rhs \<longleftrightarrow>
     (case lhs of None \<Rightarrow> rhs \<noteq> None | Some a \<Rightarrow> (case rhs of None \<Rightarrow> False | Some b \<Rightarrow> b < a))"

text \<open>What is left of one old lock.\<close>

definition remains :: "record_lock \<Rightarrow> record_lock \<Rightarrow> record_lock list" where
  "remains lock current =
     (if \<not> ranges_overlap current lock then [current]
      else
        (if lk_start current < lk_start lock
         then [current\<lparr>lk_end := Some (lk_start lock)\<rparr>] else []) @
        (case lk_end lock of
           None \<Rightarrow> []
         | Some e \<Rightarrow> if \<not> ends_before_or_at (lk_end current) e then [current\<lparr>lk_start := e\<rparr>] else []))"

text \<open>The last loop; the result so far is kept in reverse, so that its back is the head.\<close>

fun merge_locks :: "record_lock list \<Rightarrow> record_lock list \<Rightarrow> record_lock list" where
  "merge_locks acc [] = rev acc"
| "merge_locks [] (current # rest) = merge_locks [current] rest"
| "merge_locks (back # acc) (current # rest) =
     (if lk_type back = lk_type current \<and>
         (case lk_end back of None \<Rightarrow> True | Some e \<Rightarrow> lk_start current \<le> e)
      then merge_locks
             ((if ends_after (lk_end current) (lk_end back) then back\<lparr>lk_end := lk_end current\<rparr> else back) # acc) rest
      else merge_locks (current # back # acc) rest)"

definition apply_record_lock :: "lock_type \<Rightarrow> int \<Rightarrow> int option \<Rightarrow> record_lock list \<Rightarrow> record_lock list" where
  "apply_record_lock ty start e locks =
     (let lock = \<lparr>lk_type = ty, lk_start = start, lk_end = e\<rparr>;
          updated = concat (map (remains lock) locks) @ (if ty \<noteq> F_UNLCK then [lock] else [])
      in merge_locks [] (sort_key lk_start updated))"

section \<open>Ranges\<close>

definition OFF_MAX :: int where "OFF_MAX = 2 ^ 63 - 1"
definition OFF_MIN :: int where "OFF_MIN = - (2 ^ 63)"

definition add_would_overflow :: "int \<Rightarrow> int \<Rightarrow> bool" where
  "add_would_overflow lhs rhs \<longleftrightarrow>
     (if 0 < rhs then OFF_MAX - rhs < lhs else if rhs < 0 then lhs < OFF_MIN - rhs else False)"

datatype whence = SEEK_SET | SEEK_CUR | SEEK_END | OTHER_WHENCE

text \<open>The range, or the negative error code. The size of the file may itself be an error.\<close>

definition normalize_record_lock_range ::
  "whence \<Rightarrow> int \<Rightarrow> int \<Rightarrow> int \<Rightarrow> int \<Rightarrow> int + (int \<times> int option)" where
  "normalize_record_lock_range l_whence l_start l_len position size_of_file =
     (case (case l_whence of
              SEEK_SET \<Rightarrow> Inr 0
            | SEEK_CUR \<Rightarrow> Inr position
            | SEEK_END \<Rightarrow> if size_of_file < 0 then Inl size_of_file else Inr size_of_file
            | OTHER_WHENCE \<Rightarrow> Inl (- EINVAL)) of
        Inl err \<Rightarrow> Inl err
      | Inr base \<Rightarrow>
          if add_would_overflow base l_start then Inl (- EOVERFLOW)
          else
            let start = base + l_start
            in if start < 0 then Inl (- EINVAL)
               else if l_len = 0 then Inr (start, None)
               else if add_would_overflow start l_len then Inl (- EOVERFLOW)
               else
                 let e = start + l_len
                 in if e < 0 then Inl (- EINVAL)
                    else if e < start then Inr (e, Some start)
                    else Inr (start, Some e))"

text \<open>The access mode is what \<open>O_ACCMODE\<close> selects of the flags a file was opened with.\<close>

definition O_RDONLY :: u32 where "O_RDONLY = 0"
definition O_WRONLY :: u32 where "O_WRONLY = 1"
definition O_RDWR :: u32 where "O_RDWR = 2"
definition O_ACCMODE :: u32 where "O_ACCMODE = 0x200003"

definition check_record_lock_access :: "u32 \<Rightarrow> lock_type \<Rightarrow> int" where
  "check_record_lock_access oflags ty =
     (if ty = F_UNLCK then 0
      else
        let mode = oflags AND O_ACCMODE
        in if (ty = F_RDLCK \<and> mode = O_WRONLY) \<or> (ty = F_WRLCK \<and> mode = O_RDONLY) then - EBADF
           else 0)"

section \<open>The map of a lock list\<close>

definition covers :: "record_lock \<Rightarrow> int \<Rightarrow> bool" where
  "covers l x \<longleftrightarrow> lk_start l \<le> x \<and> (case lk_end l of None \<Rightarrow> True | Some e \<Rightarrow> x < e)"

definition locked :: "record_lock list \<Rightarrow> int \<Rightarrow> lock_type \<Rightarrow> bool" where
  "locked ls x ty \<longleftrightarrow> (\<exists>l\<in>set ls. covers l x \<and> lk_type l = ty)"

definition proper :: "record_lock \<Rightarrow> bool" where
  "proper l \<longleftrightarrow> lk_type l \<noteq> F_UNLCK \<and> (case lk_end l of None \<Rightarrow> True | Some e \<Rightarrow> lk_start l < e)"

definition before :: "record_lock \<Rightarrow> record_lock \<Rightarrow> bool" where
  "before a b \<longleftrightarrow> (case lk_end a of None \<Rightarrow> False | Some e \<Rightarrow> e \<le> lk_start b)"

text \<open>
  The invariant: non-empty ranges in increasing order, disjoint, and no two neighbours that could
  be one lock.
\<close>

definition apart :: "record_lock \<Rightarrow> record_lock \<Rightarrow> bool" where
  "apart a b \<longleftrightarrow> lk_type a = lk_type b \<longrightarrow> lk_end a \<noteq> Some (lk_start b)"

definition locks_inv :: "record_lock list \<Rightarrow> bool" where
  "locks_inv ls \<longleftrightarrow> (\<forall>l\<in>set ls. proper l) \<and> sorted_wrt before ls \<and> successively apart ls"

lemma remains_locked:
  assumes "proper current" "case lk_end lock of None \<Rightarrow> True | Some e \<Rightarrow> lk_start lock < e"
  shows "locked (remains lock current) x ty \<longleftrightarrow> covers current x \<and> \<not> covers lock x \<and> lk_type current = ty"
  using assms
  by (auto simp: remains_def locked_def covers_def proper_def ranges_overlap_def ends_before_or_at_def
      split: option.splits if_splits)

lemma remains_proper:
  assumes "proper current" "l \<in> set (remains lock current)"
  shows "proper l"
  using assms
  by (auto simp: remains_def proper_def ranges_overlap_def ends_before_or_at_def
      split: option.splits if_splits)

text \<open>How many locks cover a byte; it does not depend on the order.\<close>

definition cover_count :: "record_lock list \<Rightarrow> int \<Rightarrow> nat" where
  "cover_count ls x = length (filter (\<lambda>l. covers l x) ls)"

lemma cover_count_simps [simp]:
  "cover_count [] x = 0"
  "cover_count (l # ls) x = (if covers l x then Suc (cover_count ls x) else cover_count ls x)"
  "cover_count (ks @ ls) x = cover_count ks x + cover_count ls x"
  by (simp_all add: cover_count_def)

lemma cover_count_pos: "0 < cover_count ls x \<longleftrightarrow> (\<exists>l\<in>set ls. covers l x)"
  by (induction ls) auto

lemma cover_count_sort [simp]: "cover_count (sort_key f ls) x = cover_count ls x"
  unfolding cover_count_def
  by (metis mset_filter mset_sort size_mset)

lemma proper_covers_start: "proper l \<Longrightarrow> covers l (lk_start l)"
  by (auto simp: proper_def covers_def split: option.splits)

lemma sorted_wrt_before:
  assumes "\<forall>l\<in>set ls. proper l" "sorted (map lk_start ls)" "\<And>x. cover_count ls x \<le> 1"
  shows "sorted_wrt before ls"
  using assms
proof (induction ls)
  case (Cons a ls)
  have "before a b" if "b \<in> set ls" for b
  proof (rule ccontr)
    assume not: "\<not> before a b"
    have "lk_start a \<le> lk_start b" using Cons.prems(2) that by auto
    with not have "covers a (lk_start b)"
      by (auto simp: before_def covers_def split: option.splits)
    moreover have "0 < cover_count ls (lk_start b)"
      unfolding cover_count_pos using that Cons.prems(1) proper_covers_start by auto
    ultimately show False using Cons.prems(3) [of "lk_start b"] by simp
  qed
  moreover have "cover_count ls x \<le> 1" for x
    using Cons.prems(3) [of x] by (simp split: if_splits)
  ultimately show ?case using Cons by simp
qed simp

lemma before_not_covers: "before a b \<Longrightarrow> covers a x \<Longrightarrow> \<not> covers b x"
  by (auto simp: before_def covers_def split: option.splits)

lemma sorted_cover_count:
  assumes "sorted_wrt before ls"
  shows "cover_count ls x \<le> 1"
  using assms
proof (induction ls)
  case (Cons a ls)
  show ?case
  proof (cases "covers a x")
    case True
    then have "\<not> (\<exists>l\<in>set ls. covers l x)" using Cons.prems before_not_covers by auto
    then have "cover_count ls x = 0" by (simp add: cover_count_pos [symmetric])
    then show ?thesis by simp
  next
    case False
    then show ?thesis using Cons by simp
  qed
qed simp

lemma cover_count_remains:
  assumes "proper current" "case lk_end lock of None \<Rightarrow> True | Some e \<Rightarrow> lk_start lock < e"
  shows "cover_count (remains lock current) x = (if covers current x \<and> \<not> covers lock x then 1 else 0)"
  using assms
  by (auto simp: remains_def covers_def proper_def ranges_overlap_def ends_before_or_at_def
      split: option.splits)

lemma cover_count_rest:
  assumes "\<forall>l\<in>set ls. proper l" "case lk_end lock of None \<Rightarrow> True | Some e \<Rightarrow> lk_start lock < e"
  shows "cover_count (concat (map (remains lock) ls)) x = (if covers lock x then 0 else cover_count ls x)"
  using assms by (induction ls) (simp_all add: cover_count_remains)

lemma locked_append [simp]: "locked (ks @ ls) x ty \<longleftrightarrow> locked ks x ty \<or> locked ls x ty"
  by (auto simp: locked_def)

lemma locked_Cons: "locked (l # ls) x ty \<longleftrightarrow> covers l x \<and> lk_type l = ty \<or> locked ls x ty"
  by (auto simp: locked_def)

lemma locked_Nil [simp]: "\<not> locked [] x ty"
  by (simp add: locked_def)

lemma locked_rest:
  assumes "\<forall>l\<in>set ls. proper l" "case lk_end lock of None \<Rightarrow> True | Some e \<Rightarrow> lk_start lock < e"
  shows "locked (concat (map (remains lock) ls)) x ty \<longleftrightarrow> \<not> covers lock x \<and> locked ls x ty"
  using assms by (induction ls) (auto simp: remains_locked locked_Cons)

lemma merge_same_type:
  assumes "proper back" "proper current" "before back current" "lk_type back = lk_type current"
    "case lk_end back of None \<Rightarrow> True | Some e \<Rightarrow> lk_start current \<le> e"
  shows "lk_end back = Some (lk_start current)" "ends_after (lk_end current) (lk_end back)"
  using assms by (auto simp: before_def proper_def ends_after_def split: option.splits)

lemma covers_joined:
  assumes "proper back" "proper current" "lk_end back = Some (lk_start current)"
  shows "covers (back\<lparr>lk_end := lk_end current\<rparr>) x \<longleftrightarrow> covers back x \<or> covers current x"
  using assms by (auto simp: covers_def proper_def split: option.splits)

lemma proper_joined:
  assumes "proper back" "proper current" "lk_end back = Some (lk_start current)"
  shows "proper (back\<lparr>lk_end := lk_end current\<rparr>)"
  using assms by (auto simp: proper_def split: option.splits)

lemma before_joined [simp]:
  "before x (bk\<lparr>lk_end := e\<rparr>) = before x bk"
  "before (bk\<lparr>lk_end := lk_end current\<rparr>) y = before current y"
  by (simp_all add: before_def cong: option.case_cong)

lemma apart_joined [simp]: "apart x (bk\<lparr>lk_end := e\<rparr>) = apart x bk"
  by (simp add: apart_def)

lemma merge_locks_correct:
  assumes "\<forall>l\<in>set (rev acc @ ls). proper l" "sorted_wrt before (rev acc @ ls)"
    "successively apart (rev acc)"
  shows "locks_inv (merge_locks acc ls) \<and>
    (\<forall>x ty. locked (merge_locks acc ls) x ty \<longleftrightarrow> locked (rev acc @ ls) x ty)"
  using assms
proof (induction acc ls rule: merge_locks.induct)
  case (1 acc)
  then show ?case by (simp add: locks_inv_def)
next
  case (2 current rest)
  then show ?case by simp
next
  case (3 bk acc current rest)
  have pb: "proper bk" and pc: "proper current" and bc: "before bk current"
    using "3.prems" by (auto simp: sorted_wrt_append)
  show ?case
  proof (cases "lk_type bk = lk_type current \<and>
      (case lk_end bk of None \<Rightarrow> True | Some e \<Rightarrow> lk_start current \<le> e)")
    case True
    note m = merge_same_type [OF pb pc bc conjunct1 [OF True] conjunct2 [OF True]]
    let ?j = "bk\<lparr>lk_end := lk_end current\<rparr>"
    have eq: "merge_locks (bk # acc) (current # rest) = merge_locks (?j # acc) rest"
      using True m(2) by simp
    note ih_joined = "3.IH"(1) [OF True, unfolded if_P [OF m(2)]]
    have ih: "locks_inv (merge_locks (?j # acc) rest) \<and>
      (\<forall>x ty. locked (merge_locks (?j # acc) rest) x ty \<longleftrightarrow> locked (rev (?j # acc) @ rest) x ty)"
    proof (rule ih_joined)
      show "\<forall>l\<in>set (rev (?j # acc) @ rest). proper l"
        using "3.prems"(1) proper_joined [OF pb pc m(1)] by auto
      show "sorted_wrt before (rev (?j # acc) @ rest)"
        using "3.prems"(2) by (auto simp: sorted_wrt_append)
      show "successively apart (rev (?j # acc))"
        using "3.prems"(3) by (auto simp: successively_append_iff)
    qed
    have "locked (rev (?j # acc) @ rest) x ty \<longleftrightarrow> locked (rev (bk # acc) @ current # rest) x ty" for x ty
      using True covers_joined [OF pb pc m(1), of x] by (auto simp: locked_Cons)
    with ih show ?thesis unfolding eq by blast
  next
    case False
    have eq: "merge_locks (bk # acc) (current # rest) = merge_locks (current # bk # acc) rest"
      unfolding merge_locks.simps(3) if_not_P [OF False] by (rule refl)
    have "apart bk current"
      using False by (auto simp: apart_def)
    then have "successively apart (rev (current # bk # acc))"
      using "3.prems"(3) by (simp add: successively_append_iff)
    with "3.IH"(2) [OF False] "3.prems" show ?thesis unfolding eq by simp
  qed
qed

lemma apply_record_lock_correct:
  assumes "locks_inv locks" "case e of None \<Rightarrow> True | Some e' \<Rightarrow> start < e'"
  shows "locks_inv (apply_record_lock ty start e locks) \<and>
    (\<forall>x t. locked (apply_record_lock ty start e locks) x t \<longleftrightarrow>
       (if start \<le> x \<and> (case e of None \<Rightarrow> True | Some e' \<Rightarrow> x < e') then t = ty \<and> ty \<noteq> F_UNLCK
        else locked locks x t))"
proof -
  define lock where "lock = \<lparr>lk_type = ty, lk_start = start, lk_end = e\<rparr>"
  define tl where "tl = (if ty \<noteq> F_UNLCK then [lock] else [])"
  define hd where "hd = concat (map (remains lock) locks)"
  have proper: "\<forall>l\<in>set locks. proper l" and cnt: "cover_count locks x \<le> 1" for x
    using assms(1) sorted_cover_count by (auto simp: locks_inv_def)
  have lock: "case lk_end lock of None \<Rightarrow> True | Some e \<Rightarrow> lk_start lock < e"
    using assms(2) by (cases e) (auto simp: lock_def)
  have hd: "cover_count hd x = (if covers lock x then 0 else cover_count locks x)"
    "locked hd x t \<longleftrightarrow> \<not> covers lock x \<and> locked locks x t" for x t
    unfolding hd_def by (rule cover_count_rest [OF proper lock], rule locked_rest [OF proper lock])
  have tl: "cover_count tl x \<le> (if covers lock x then 1 else 0)"
    "locked tl x t \<longleftrightarrow> covers lock x \<and> t = ty \<and> ty \<noteq> F_UNLCK" for x t
    by (auto simp: tl_def lock_def locked_Cons)
  have phd: "\<forall>l\<in>set hd. proper l"
    unfolding hd_def using proper remains_proper by auto
  have ptl: "\<forall>l\<in>set tl. proper l"
    using assms(2) by (cases e) (auto simp: tl_def lock_def proper_def)
  have "cover_count (hd @ tl) x \<le> 1" for x
    using cnt [of x] hd(1) [of x] tl(1) [of x] by (simp split: if_splits)
  then have "sorted_wrt before (sort_key lk_start (hd @ tl))"
    using phd ptl by (intro sorted_wrt_before) (auto simp del: cover_count_simps)
  with phd ptl have m: "locks_inv (merge_locks [] (sort_key lk_start (hd @ tl))) \<and>
      (\<forall>x t. locked (merge_locks [] (sort_key lk_start (hd @ tl))) x t \<longleftrightarrow>
        locked (rev [] @ sort_key lk_start (hd @ tl)) x t)"
    by (intro merge_locks_correct) auto
  have "locked (sort_key lk_start (hd @ tl)) x t \<longleftrightarrow> locked hd x t \<or> locked tl x t" for x t
    by (auto simp: locked_def)
  moreover have "apply_record_lock ty start e locks = merge_locks [] (sort_key lk_start (hd @ tl))"
    by (simp add: apply_record_lock_def Let_def hd_def tl_def lock_def)
  moreover have "covers lock x \<longleftrightarrow> start \<le> x \<and> (case e of None \<Rightarrow> True | Some e' \<Rightarrow> x < e')" for x
    by (simp add: covers_def lock_def)
  ultimately show ?thesis
    using m hd(2) tl(2) by (intro conjI allI) (auto simp only: append_Nil rev.simps split: if_splits)
qed


lemmas apply_record_lock_inv = apply_record_lock_correct [THEN conjunct1]

text \<open>
  Claim C32. Setting a record lock keeps the list of locks a sorted list of disjoint, non-empty
  ranges in which no two neighbours could be one lock, and its effect on the file is that of
  overwriting the range: every byte of the range has exactly the new lock (none, when the call
  unlocks), and every other byte has the locks it had.
\<close>

theorem record_lock_overwrites_range:
  assumes "locks_inv locks" "case e of None \<Rightarrow> True | Some e' \<Rightarrow> start < e'"
  shows "locks_inv (apply_record_lock ty start e locks) \<and>
    (\<forall>x t. locked (apply_record_lock ty start e locks) x t \<longleftrightarrow>
       (if start \<le> x \<and> (case e of None \<Rightarrow> True | Some e' \<Rightarrow> x < e') then t = ty \<and> ty \<noteq> F_UNLCK
        else locked locks x t))"
  using apply_record_lock_correct [OF assms] .

theorem record_lock_overwrites_range_witness:
  "locked (apply_record_lock F_UNLCK 10 (Some 20)
     [\<lparr>lk_type = F_WRLCK, lk_start = 0, lk_end = None\<rparr>]) 25 F_WRLCK \<and>
   apply_record_lock F_UNLCK 10 (Some 20) [\<lparr>lk_type = F_WRLCK, lk_start = 0, lk_end = None\<rparr>] =
     [\<lparr>lk_type = F_WRLCK, lk_start = 0, lk_end = Some 10\<rparr>,
      \<lparr>lk_type = F_WRLCK, lk_start = 20, lk_end = None\<rparr>]"
proof -
  let ?l = "[\<lparr>lk_type = F_WRLCK, lk_start = 0, lk_end = None\<rparr>]"
  have inv: "locks_inv ?l" by (simp add: locks_inv_def proper_def)
  have "locked (apply_record_lock F_UNLCK 10 (Some 20) ?l) 25 F_WRLCK"
    using record_lock_overwrites_range [OF inv, where e = "Some 20" and start = 10 and ty = F_UNLCK]
    by (simp add: locked_def covers_def)
  moreover have "apply_record_lock F_UNLCK 10 (Some 20) ?l =
     [\<lparr>lk_type = F_WRLCK, lk_start = 0, lk_end = Some 10\<rparr>,
      \<lparr>lk_type = F_WRLCK, lk_start = 20, lk_end = None\<rparr>]"
    by (simp add: apply_record_lock_def Let_def remains_def ranges_overlap_def ends_before_or_at_def)
  ultimately show ?thesis by blast
qed

section \<open>The fcntl commands\<close>

text \<open>
  \<open>struct flock\<close>, with \<open>None\<close> for a type that is none of the three. Offsets are values of the signed
  64-bit \<open>off_t\<close>.
\<close>

record flock =
  l_type :: "lock_type option"
  l_whence :: whence
  l_start :: int
  l_len :: int

definition off_t :: "int \<Rightarrow> bool" where
  "off_t x \<longleftrightarrow> OFF_MIN \<le> x \<and> x \<le> OFF_MAX"

fun is_valid_record_lock_type :: "lock_type option \<Rightarrow> bool \<Rightarrow> bool" where
  "is_valid_record_lock_type None query = False"
| "is_valid_record_lock_type (Some ty) query = (if query then ty = F_RDLCK \<or> ty = F_WRLCK else True)"

text \<open>
  What the call reads of the open file: whether its file can use record locks
  (\<open>canUseRecordLocks\<close>), its size, the position and the flags of the descriptor.
\<close>

record lock_target =
  can_use_record_locks :: bool
  file_size :: int
  file_position :: int
  file_flags :: u32

text \<open>The result, what is left in the caller's structure, and the new list of locks.\<close>

definition handle_record_lock ::
  "lock_target \<Rightarrow> flock option \<Rightarrow> bool \<Rightarrow> record_lock list \<Rightarrow> int \<times> flock option \<times> record_lock list" where
  "handle_record_lock t lock query locks =
     (case lock of
        None \<Rightarrow> (- EINVAL, lock, locks)
      | Some l \<Rightarrow>
          (case l_type l of
             None \<Rightarrow> (- EINVAL, lock, locks)
           | Some ty \<Rightarrow>
               if \<not> is_valid_record_lock_type (Some ty) query then (- EINVAL, lock, locks)
               else if \<not> can_use_record_locks t then (- ENOTSUP, lock, locks)
               else
                 (case normalize_record_lock_range (l_whence l) (l_start l) (l_len l)
                         (file_position t) (file_size t) of
                    Inl err \<Rightarrow> (err, lock, locks)
                  | Inr (start, e) \<Rightarrow>
                      if query then (0, Some (l\<lparr>l_type := Some F_UNLCK\<rparr>), locks)
                      else
                        (let err = check_record_lock_access (file_flags t) ty
                         in if err \<noteq> 0 then (err, lock, locks)
                            else (0, lock, apply_record_lock ty start e locks)))))"

lemma off_t_0 [simp]: "off_t 0"
  by (simp add: off_t_def OFF_MAX_def OFF_MIN_def)

lemma add_would_overflow_iff:
  "off_t a \<Longrightarrow> off_t b \<Longrightarrow> add_would_overflow a b \<longleftrightarrow> \<not> off_t (a + b)"
  by (auto simp: add_would_overflow_def off_t_def OFF_MAX_def OFF_MIN_def)

lemma normalize_error:
  "normalize_record_lock_range w st ln position size_of_file = Inl err \<Longrightarrow> err < 0"
  by (auto simp: normalize_record_lock_range_def Let_def split: sum.splits whence.splits if_splits)

lemma normalize_range:
  assumes "off_t st" "off_t ln" "off_t position" "off_t size_of_file"
    "normalize_record_lock_range w st ln position size_of_file = Inr (start, e)"
  shows "0 \<le> start \<and> off_t start \<and> (case e of None \<Rightarrow> ln = 0 | Some e' \<Rightarrow> start < e' \<and> off_t e')"
  using assms
  by (auto simp: normalize_record_lock_range_def Let_def add_would_overflow_iff
      split: sum.splits whence.splits if_splits)

text \<open>
  The range that \<open>fcntl\<close> computes from a \<open>struct flock\<close> never wraps: the call either
  fails with \<open>EINVAL\<close>, \<open>EOVERFLOW\<close> or the error of the size query, or yields a range
  \<open>0 \<le> start < end\<close> of offsets that fit an \<open>off_t\<close> and that is exactly the set of bytes between
  the base plus \<open>l_start\<close> and that plus \<open>l_len\<close>, in either direction; without a length it runs to the end of
  the file.
\<close>

theorem lock_range_bounds:
  assumes "off_t st" "off_t ln" "off_t position" "off_t size_of_file"
    "base = (case w of SEEK_SET \<Rightarrow> 0 | SEEK_CUR \<Rightarrow> position | _ \<Rightarrow> size_of_file)"
  shows "case normalize_record_lock_range w st ln position size_of_file of
      Inl err \<Rightarrow> err = - EINVAL \<or> err = - EOVERFLOW \<or> err = size_of_file \<and> size_of_file < 0
    | Inr (start, None) \<Rightarrow> ln = 0 \<and> start = base + st \<and> 0 \<le> start \<and> off_t start
    | Inr (start, Some e) \<Rightarrow> 0 \<le> start \<and> start < e \<and> off_t e \<and>
        {start..<e} = {min (base + st) (base + st + ln)..<max (base + st) (base + st + ln)}"
  unfolding assms(5)
  using assms(1-4)
  by (auto simp: normalize_record_lock_range_def Let_def add_would_overflow_iff
      split: sum.splits whence.splits if_splits option.splits)

text \<open>
  Every \<open>fcntl\<close> record-lock call keeps the lock list well formed. A query changes no lock
  and reports the range as unlocked; a failing call changes neither the locks nor the caller's structure.
\<close>

theorem record_lock_calls_keep_invariant:
  assumes "locks_inv locks" "off_t (file_position t)" "off_t (file_size t)"
    "\<And>l. lock = Some l \<Longrightarrow> off_t (l_start l) \<and> off_t (l_len l)"
    "handle_record_lock t lock query locks = (r, lock', locks')"
  shows "locks_inv locks' \<and> (query \<or> r \<noteq> 0 \<longrightarrow> locks' = locks) \<and> (r \<noteq> 0 \<longrightarrow> lock' = lock) \<and>
    (query \<and> r = 0 \<longrightarrow> map_option l_type lock' = Some (Some F_UNLCK))"
proof (cases lock)
  case None
  then show ?thesis using assms by (auto simp: handle_record_lock_def)
next
  case (Some l)
  show ?thesis
  proof (cases "normalize_record_lock_range (l_whence l) (l_start l) (l_len l)
      (file_position t) (file_size t)")
    case (Inl err)
    then show ?thesis
      using assms(1,5) Some normalize_error [OF Inl] by (auto simp: handle_record_lock_def split: option.splits if_splits)
  next
    case (Inr p)
    obtain start e where p: "p = (start, e)" by (cases p)
    have "case e of None \<Rightarrow> True | Some e' \<Rightarrow> start < e'"
      using normalize_range [OF _ _ assms(2,3) Inr [unfolded p]] assms(4) [OF Some]
      by (auto split: option.splits)
    note keep = apply_record_lock_inv [OF assms(1) this]
    show ?thesis
      using assms(1,5) Some Inr p keep
      by (auto simp: handle_record_lock_def Let_def split: option.splits if_splits)
  qed
qed

theorem lock_range_bounds_witness:
  "normalize_record_lock_range SEEK_CUR (- 4) (- 6) 100 0 = Inr (90, Some 96) \<and>
   {90..<96} = {min (100 + (- 4)) (100 + (- 4) + (- 6))..<max (100 + (- 4)) (100 + (- 4) + (- 6 :: int))}"
  using lock_range_bounds [of "- 4" "- 6" 100 0 100 SEEK_CUR]
  by (simp add: normalize_record_lock_range_def add_would_overflow_def off_t_def OFF_MAX_def OFF_MIN_def)

theorem record_lock_calls_keep_invariant_witness:
  "locks_inv (snd (snd (handle_record_lock
     \<lparr>can_use_record_locks = True, file_size = 9, file_position = 0, file_flags = O_RDWR\<rparr>
     (Some \<lparr>l_type = Some F_RDLCK, l_whence = SEEK_END, l_start = - 4, l_len = 0\<rparr>) False [])))"
  using record_lock_calls_keep_invariant [where locks = "[]" and query = False and
      t = "\<lparr>can_use_record_locks = True, file_size = 9, file_position = 0, file_flags = O_RDWR\<rparr>" and
      lock = "Some \<lparr>l_type = Some F_RDLCK, l_whence = SEEK_END, l_start = - 4, l_len = 0\<rparr>",
      OF _ _ _ _ prod.collapse [symmetric, THEN trans [OF _ arg_cong [where f = "Pair _", OF prod.collapse [symmetric]]]]]
  by (simp add: locks_inv_def off_t_def OFF_MAX_def OFF_MIN_def)

end
