(* ===== verification/Wasmfs_Files.thy ===== *)
theory Wasmfs_Files
  imports Wasmfs_Record_Locks "HOL-Library.Char_ord" "HOL-Library.List_Lexorder"
begin

text \<open>
  The file objects of WasmFS: \<open>system/lib/wasmfs/file.h\<close>, \<open>file.cpp\<close> and the memory backend
  (\<open>memory_backend.h\<close>, \<open>backends/memory_backend.cpp\<close>). A \<open>shared_ptr<File>\<close> is a file number in
  a heap of nodes; a node is never destroyed, so the weak pointer to a parent never expires (in the
  code a directory that still has a child or a mount cannot be removed). Every directory of the model
  is a \<open>MemoryDirectory\<close>, for which \<open>maintainsFileIdentity()\<close> holds; mount points join the trees of
  several backends.
\<close>

section \<open>Nodes\<close>

type_synonym fid = nat
type_synonym backend_id = nat

definition NullBackend :: backend_id where [simp]: "NullBackend = 0"

text \<open>
  The special files of \<open>special_files.cpp\<close>, of which the two output files have a line buffer, and the
  two ends of a pipe (\<open>pipe_backend.h\<close>), which share the data of a number.
\<close>

datatype device = Null_file | Stdin_file | Stdout_file "u8 list" | Stderr_file "u8 list" | Random_file
  | Pipe_file nat

datatype content = Data "u8 list" | Dir "(string \<times> fid) list" | Link string | Device device

datatype dcache_kind = Normal | Mount

record node =
  content :: content
  fmode :: u32
  backend :: backend_id
  parent_of :: "fid option"
  dcache :: "(string \<times> dcache_kind \<times> fid) list"
  record_locks :: "record_lock list"
  atime :: nat
  mtime :: nat
  ctime :: nat

text \<open>
  The environment is part of the state: what \<open>emscripten_date_now()\<close> would return, the results that
  \<open>_wasmfs_stdin_get_char()\<close> will give (a negative one is "no input", and so is the end of the list),
  the bytes \<open>getentropy\<close> will give, and the lines passed to \<open>emscripten_out\<close> (\<open>False\<close>) and
  \<open>emscripten_err\<close> (\<open>True\<close>), newest first.
\<close>

record fs =
  files :: "fid \<Rightarrow> node option"
  next_fid :: fid
  now :: nat
  stdin_chars :: "int list"
  entropy :: "nat \<Rightarrow> u8"
  drawn :: nat
  console :: "(bool \<times> u8 list) list"
  pipes :: "nat \<Rightarrow> u8 list"
  next_pipe :: nat

definition S_IFMT :: u32 where "S_IFMT = 0xF000"
definition S_IFREG :: u32 where "S_IFREG = 0x8000"
definition S_IFDIR :: u32 where "S_IFDIR = 0x4000"
definition S_IFLNK :: u32 where "S_IFLNK = 0xA000"
definition S_IFCHR :: u32 where "S_IFCHR = 0x2000"

definition is_data :: "fs \<Rightarrow> fid \<Rightarrow> bool" where
  "is_data s f = (case files s f of
                  Some n \<Rightarrow> (case content n of Data _ \<Rightarrow> True | Device _ \<Rightarrow> True | _ \<Rightarrow> False)
                | None \<Rightarrow> False)"

text \<open>Every file is seekable but the streams and the random files.\<close>

definition is_seekable :: "fs \<Rightarrow> fid \<Rightarrow> bool" where
  "is_seekable s f = (case files s f of
                        Some n \<Rightarrow> (case content n of Device d \<Rightarrow> d = Null_file | _ \<Rightarrow> True)
                      | None \<Rightarrow> True)"

definition is_dir :: "fs \<Rightarrow> fid \<Rightarrow> bool" where
  "is_dir s f = (case files s f of Some n \<Rightarrow> (case content n of Dir _ \<Rightarrow> True | _ \<Rightarrow> False) | None \<Rightarrow> False)"

definition link_target :: "fs \<Rightarrow> fid \<Rightarrow> string option" where
  "link_target s f =
     (case files s f of Some n \<Rightarrow> (case content n of Link t \<Rightarrow> Some t | _ \<Rightarrow> None) | None \<Rightarrow> None)"

definition entries :: "fs \<Rightarrow> fid \<Rightarrow> (string \<times> fid) list" where
  "entries s d = (case files s d of Some n \<Rightarrow> (case content n of Dir es \<Rightarrow> es | _ \<Rightarrow> []) | None \<Rightarrow> [])"

definition mounts :: "fs \<Rightarrow> fid \<Rightarrow> (string \<times> dcache_kind \<times> fid) list" where
  "mounts s d = (case files s d of Some n \<Rightarrow> dcache n | None \<Rightarrow> [])"

definition data :: "fs \<Rightarrow> fid \<Rightarrow> u8 list" where
  "data s f = (case files s f of Some n \<Rightarrow> (case content n of Data b \<Rightarrow> b | _ \<Rightarrow> []) | None \<Rightarrow> [])"

definition get_parent :: "fs \<Rightarrow> fid \<Rightarrow> fid option" where
  "get_parent s f = (case files s f of Some n \<Rightarrow> parent_of n | None \<Rightarrow> None)"

definition get_mode :: "fs \<Rightarrow> fid \<Rightarrow> u32" where
  "get_mode s f = (case files s f of Some n \<Rightarrow> fmode n | None \<Rightarrow> 0)"

definition get_backend :: "fs \<Rightarrow> fid \<Rightarrow> backend_id" where
  "get_backend s f = (case files s f of Some n \<Rightarrow> backend n | None \<Rightarrow> NullBackend)"

definition update :: "fid \<Rightarrow> (node \<Rightarrow> node) \<Rightarrow> fs \<Rightarrow> fs" where
  "update f g s = s\<lparr>files := (files s)(f := map_option g (files s f))\<rparr>"

definition set_parent :: "fid \<Rightarrow> fid option \<Rightarrow> fs \<Rightarrow> fs" where
  "set_parent f p = update f (\<lambda>n. n\<lparr>parent_of := p\<rparr>)"

definition set_entries :: "fid \<Rightarrow> (string \<times> fid) list \<Rightarrow> fs \<Rightarrow> fs" where
  "set_entries d es = update d (\<lambda>n. n\<lparr>content := Dir es\<rparr>)"

definition set_dcache :: "fid \<Rightarrow> (string \<times> dcache_kind \<times> fid) list \<Rightarrow> fs \<Rightarrow> fs" where
  "set_dcache d c = update d (\<lambda>n. n\<lparr>dcache := c\<rparr>)"

definition update_mtime :: "fid \<Rightarrow> fs \<Rightarrow> fs" where
  "update_mtime f s = update f (\<lambda>n. n\<lparr>mtime := now s\<rparr>) s"

definition update_ctime :: "fid \<Rightarrow> fs \<Rightarrow> fs" where
  "update_ctime f s = update f (\<lambda>n. n\<lparr>ctime := now s\<rparr>) s"

text \<open>\<open>setMode\<close> never changes the type bits.\<close>

definition set_mode :: "fid \<Rightarrow> u32 \<Rightarrow> fs \<Rightarrow> fs" where
  "set_mode f m = update f (\<lambda>n. n\<lparr>fmode := (fmode n AND S_IFMT) OR (m AND NOT S_IFMT)\<rparr>)"

definition clear_record_locks :: "fid \<Rightarrow> fs \<Rightarrow> fs" where
  "clear_record_locks f = update f (\<lambda>n. n\<lparr>record_locks := []\<rparr>)"

text \<open>The size: the bytes of a data file, 4096 for a directory, the target's length for a link.\<close>

definition get_size :: "fs \<Rightarrow> fid \<Rightarrow> int" where
  "get_size s f =
     (case files s f of
        None \<Rightarrow> 0
      | Some n \<Rightarrow>
          (case content n of
             Data b \<Rightarrow> int (length b) | Dir _ \<Rightarrow> 4096 | Link t \<Rightarrow> int (length t)
           | Device (Pipe_file p) \<Rightarrow> int (length (pipes s p)) | Device _ \<Rightarrow> 0))"

text \<open>A new node; the constructors add the type bits.\<close>

definition new_node :: "content \<Rightarrow> u32 \<Rightarrow> backend_id \<Rightarrow> nat \<Rightarrow> node" where
  "new_node c m b t =
     \<lparr>content = c, fmode = m, backend = b, parent_of = None, dcache = [], record_locks = [],
      atime = t, mtime = t, ctime = t\<rparr>"

definition create_node :: "content \<Rightarrow> u32 \<Rightarrow> backend_id \<Rightarrow> fs \<Rightarrow> fs \<times> fid" where
  "create_node c m b s =
     (s\<lparr>files := (files s)(next_fid s := Some (new_node c m b (now s))), next_fid := Suc (next_fid s)\<rparr>,
      next_fid s)"

definition create_file :: "u32 \<Rightarrow> backend_id \<Rightarrow> fs \<Rightarrow> fs \<times> fid" where
  "create_file m = create_node (Data []) (m OR S_IFREG)"

definition create_directory :: "u32 \<Rightarrow> backend_id \<Rightarrow> fs \<Rightarrow> fs \<times> fid" where
  "create_directory m = create_node (Dir []) (m OR S_IFDIR)"

definition create_symlink :: "string \<Rightarrow> backend_id \<Rightarrow> fs \<Rightarrow> fs \<times> fid" where
  "create_symlink target = create_node (Link target) S_IFLNK"

section \<open>The memory backend: data\<close>

text \<open>\<open>buffer.max_size()\<close> of a byte vector on wasm32.\<close>

definition MAX_BUFFER :: nat where "MAX_BUFFER = 2147483647"

definition overwrite :: "nat \<Rightarrow> 'a list \<Rightarrow> 'a list \<Rightarrow> 'a list" where
  "overwrite off buf bytes = take off bytes @ buf @ drop (off + length buf) bytes"

definition memory_write :: "u8 list \<Rightarrow> nat \<Rightarrow> u8 list \<Rightarrow> u8 list \<times> int" where
  "memory_write buf off buffer =
     (if length buffer < off + length buf then
        if MAX_BUFFER < off + length buf then (buffer, - EIO)
        else (overwrite off buf (buffer @ replicate (off + length buf - length buffer) 0), int (length buf))
      else (overwrite off buf buffer, int (length buf)))"

definition memory_read :: "nat \<Rightarrow> nat \<Rightarrow> u8 list \<Rightarrow> u8 list" where
  "memory_read n off buffer =
     (let len = (if length buffer \<le> off then 0
                 else if length buffer \<le> off + n then length buffer - off
                 else n)
      in take len (drop off buffer))"

definition memory_set_size :: "int \<Rightarrow> u8 list \<Rightarrow> u8 list \<times> int" where
  "memory_set_size sz buffer =
     (if int MAX_BUFFER < sz then (buffer, - EOVERFLOW)
      else (take (nat sz) buffer @ replicate (nat sz - length buffer) 0, 0))"

section \<open>Data files\<close>

text \<open>\<open>writeToJS\<close>: a line is passed on at a newline or a null, which is not part of it.\<close>

fun write_to_js :: "bool \<Rightarrow> u8 list \<Rightarrow> u8 list \<Rightarrow> (bool \<times> u8 list) list \<Rightarrow> u8 list \<times> (bool \<times> u8 list) list" where
  "write_to_js err [] line out = (line, out)"
| "write_to_js err (c # cs) line out =
     (if c = 0 \<or> c = 10 then write_to_js err cs [] ((err, line) # out)
      else write_to_js err cs (line @ [c]) out)"

text \<open>The stream reader stops at the first negative character, which it consumes.\<close>

fun read_stdin :: "nat \<Rightarrow> int list \<Rightarrow> u8 list \<times> int list" where
  "read_stdin 0 cs = ([], cs)"
| "read_stdin (Suc n) [] = ([], [])"
| "read_stdin (Suc n) (c # cs) =
     (if c < 0 then ([], cs) else (let (bs, cs') = read_stdin n cs in (word_of_int c # bs, cs')))"

definition set_content :: "fid \<Rightarrow> content \<Rightarrow> fs \<Rightarrow> fs" where
  "set_content f c = update f (\<lambda>n. n\<lparr>content := c\<rparr>)"

definition device_write :: "fid \<Rightarrow> device \<Rightarrow> u8 list \<Rightarrow> fs \<Rightarrow> fs \<times> int" where
  "device_write f d buf s =
     (case d of
        Null_file \<Rightarrow> (s, int (length buf))
      | Stdin_file \<Rightarrow> (s, - EINVAL)
      | Random_file \<Rightarrow> (s, - EINVAL)
      | Pipe_file p \<Rightarrow> (s\<lparr>pipes := (pipes s)(p := pipes s p @ buf)\<rparr>, int (length buf))
      | Stdout_file line \<Rightarrow>
          let (line', out) = write_to_js False buf line (console s)
          in (set_content f (Device (Stdout_file line')) (s\<lparr>console := out\<rparr>), int (length buf))
      | Stderr_file line \<Rightarrow>
          let (line', out) = write_to_js True buf line (console s)
          in (set_content f (Device (Stderr_file line')) (s\<lparr>console := out\<rparr>), int (length buf)))"

definition file_write :: "fid \<Rightarrow> u8 list \<Rightarrow> nat \<Rightarrow> fs \<Rightarrow> fs \<times> int" where
  "file_write f buf off s =
     (case content (the (files s f)) of
        Device d \<Rightarrow> device_write f d buf s
      | _ \<Rightarrow> (let (b, r) = memory_write buf off (data s f) in (set_content f (Data b) s, r)))"

text \<open>A read gives the bytes read, or a negative error code.\<close>

definition file_read :: "fid \<Rightarrow> nat \<Rightarrow> nat \<Rightarrow> fs \<Rightarrow> fs \<times> (int + u8 list)" where
  "file_read f n off s =
     (case content (the (files s f)) of
        Device Null_file \<Rightarrow> (s, Inr [])
      | Device Stdin_file \<Rightarrow>
          let (bs, cs) = read_stdin n (stdin_chars s) in (s\<lparr>stdin_chars := cs\<rparr>, Inr bs)
      | Device Random_file \<Rightarrow> (s\<lparr>drawn := drawn s + n\<rparr>, Inr (map (\<lambda>i. entropy s (drawn s + i)) [0..<n]))
      | Device (Pipe_file p) \<Rightarrow> (s\<lparr>pipes := (pipes s)(p := drop n (pipes s p))\<rparr>, Inr (take n (pipes s p)))
      | Device _ \<Rightarrow> (s, Inl (- EINVAL))
      | _ \<Rightarrow> (s, Inr (memory_read n off (data s f))))"

definition file_set_size :: "fid \<Rightarrow> int \<Rightarrow> fs \<Rightarrow> fs \<times> int" where
  "file_set_size f sz s =
     (case content (the (files s f)) of
        Device (Pipe_file _) \<Rightarrow> (s, - EINVAL)
      | Device _ \<Rightarrow> (s, - EPERM)
      | _ \<Rightarrow> (let (b, r) = memory_set_size sz (data s f) in (set_content f (Data b) s, r)))"

text \<open>Flushing writes a null to an output stream whose line buffer is not empty.\<close>

definition file_flush :: "fid \<Rightarrow> fs \<Rightarrow> fs" where
  "file_flush f s =
     (case content (the (files s f)) of
        Device (Stdout_file line) \<Rightarrow> if line \<noteq> [] then fst (file_write f [0] 0 s) else s
      | Device (Stderr_file line) \<Rightarrow> if line \<noteq> [] then fst (file_write f [0] 0 s) else s
      | _ \<Rightarrow> s)"

section \<open>The memory backend: directories\<close>

text \<open>The entry vector of a directory.\<close>

definition memory_get_child :: "fs \<Rightarrow> fid \<Rightarrow> string \<Rightarrow> fid option" where
  "memory_get_child s d name = map_of (entries s d) name"

fun erase_name :: "string \<Rightarrow> (string \<times> fid) list \<Rightarrow> (string \<times> fid) list" where
  "erase_name name [] = []"
| "erase_name name (e # es) = (if fst e = name then es else e # erase_name name es)"

fun erase_child :: "fid \<Rightarrow> (string \<times> fid) list \<Rightarrow> (string \<times> fid) list" where
  "erase_child f [] = []"
| "erase_child f (e # es) = (if snd e = f then es else e # erase_child f es)"

definition memory_remove_child :: "fid \<Rightarrow> string \<Rightarrow> fs \<Rightarrow> fs" where
  "memory_remove_child d name s =
     (case memory_get_child s d name of
        None \<Rightarrow> s
      | Some c \<Rightarrow>
          let s1 = set_parent c None s in set_entries d (erase_name name (entries s1 d)) s1)"

definition memory_insert_child :: "fid \<Rightarrow> string \<Rightarrow> fid \<Rightarrow> fs \<Rightarrow> fs" where
  "memory_insert_child d name c s = set_entries d (entries s d @ [(name, c)]) s"

definition memory_insert_move :: "fid \<Rightarrow> string \<Rightarrow> fid \<Rightarrow> fs \<Rightarrow> fs" where
  "memory_insert_move d name f s =
     (let old = the (get_parent s f);
          s1 = set_entries old (erase_child f (entries s old)) s;
          s2 = memory_remove_child d name s1
      in memory_insert_child d name f s2)"

definition memory_get_name :: "fs \<Rightarrow> fid \<Rightarrow> fid \<Rightarrow> string" where
  "memory_get_name s d f =
     (case find (\<lambda>e. snd e = f) (entries s d) of Some e \<Rightarrow> fst e | None \<Rightarrow> [])"

section \<open>Directory handles\<close>

definition maintains_file_identity :: "fs \<Rightarrow> fid \<Rightarrow> bool" where
  "maintains_file_identity s d = True"

definition dcache_find :: "fs \<Rightarrow> fid \<Rightarrow> string \<Rightarrow> (dcache_kind \<times> fid) option" where
  "dcache_find s d name = map_of (mounts s d) name"

text \<open>\<open>std::map::insert\<close>: kept in the order of the names, without effect when the name is there.\<close>

definition dcache_insert ::
  "string \<Rightarrow> dcache_kind \<times> fid \<Rightarrow> (string \<times> dcache_kind \<times> fid) list \<Rightarrow> (string \<times> dcache_kind \<times> fid) list" where
  "dcache_insert name e c = (if name \<in> fst ` set c then c else insort_key fst (name, e) c)"

definition cache_child :: "fid \<Rightarrow> string \<Rightarrow> fid \<Rightarrow> dcache_kind \<Rightarrow> fs \<Rightarrow> fs" where
  "cache_child d name child kind s =
     set_parent child (Some d)
       (if kind = Mount \<or> \<not> maintains_file_identity s d
        then set_dcache d (dcache_insert name (kind, child) (mounts s d)) s else s)"

definition get_child :: "fid \<Rightarrow> string \<Rightarrow> fs \<Rightarrow> fs \<times> fid option" where
  "get_child d name s =
     (case get_parent s d of
        None \<Rightarrow> (s, None)
      | Some p \<Rightarrow>
          if name = ''.'' then (s, Some d)
          else if name = ''..'' then (s, Some p)
          else
            (case dcache_find s d name of
               Some (_, f) \<Rightarrow> (s, Some f)
             | None \<Rightarrow>
                 (case memory_get_child s d name of
                    None \<Rightarrow> (s, None)
                  | Some c \<Rightarrow> (cache_child d name c Normal s, Some c))))"

definition mount_child :: "fid \<Rightarrow> string \<Rightarrow> fid \<Rightarrow> fs \<Rightarrow> fs \<times> bool" where
  "mount_child d name child s =
     (case get_parent s d of
        None \<Rightarrow> (s, False)
      | Some _ \<Rightarrow> (cache_child d name child Mount s, True))"

text \<open>
  \<open>insertDataFile\<close>, \<open>insertDirectory\<close> and \<open>insertSymlink\<close> differ in what they ask the backend to
  create; the memory backend never refuses.
\<close>

definition insert_created :: "(backend_id \<Rightarrow> fs \<Rightarrow> fs \<times> fid) \<Rightarrow> fid \<Rightarrow> string \<Rightarrow> fs \<Rightarrow> fs \<times> fid option" where
  "insert_created create d name s =
     (case get_parent s d of
        None \<Rightarrow> (s, None)
      | Some _ \<Rightarrow>
          let (s1, child) = create (get_backend s d) s;
              s2 = memory_insert_child d name child s1;
              s3 = cache_child d name child Normal s2
          in (update_mtime d s3, Some child))"

definition insert_data_file :: "fid \<Rightarrow> string \<Rightarrow> u32 \<Rightarrow> fs \<Rightarrow> fs \<times> fid option" where
  "insert_data_file d name m = insert_created (create_file m) d name"

definition insert_directory :: "fid \<Rightarrow> string \<Rightarrow> u32 \<Rightarrow> fs \<Rightarrow> fs \<times> fid option" where
  "insert_directory d name m = insert_created (create_directory m) d name"

definition insert_symlink :: "fid \<Rightarrow> string \<Rightarrow> string \<Rightarrow> fs \<Rightarrow> fs \<times> fid option" where
  "insert_symlink d name target = insert_created (create_symlink target) d name"

definition insert_move :: "fid \<Rightarrow> string \<Rightarrow> fid \<Rightarrow> fs \<Rightarrow> fs \<times> int" where
  "insert_move d name f s =
     (case get_parent s d of
        None \<Rightarrow> (s, - EPERM)
      | Some _ \<Rightarrow>
          let old = the (get_parent s f);
              it = find (\<lambda>e. snd (snd e) = f) (mounts s old);
              s1 = memory_insert_move d name f s;
              s2 = (case it of
                      None \<Rightarrow> s1
                    | Some (old_name, entry) \<Rightarrow>
                        let s3 = set_dcache old (filter (\<lambda>e. fst e \<noteq> old_name) (mounts s1 old)) s1
                        in (case dcache_find s3 d name of
                              None \<Rightarrow> set_dcache d (dcache_insert name entry (mounts s3 d)) s3
                            | Some (_, g) \<Rightarrow>
                                let s4 = set_parent g None s3
                                in set_dcache d (map (\<lambda>e. if fst e = name then (name, entry) else e) (mounts s4 d)) s4));
              s5 = set_parent f (Some d) s2
          in (update_mtime d (update_mtime old s5), 0))"

definition remove_child :: "fid \<Rightarrow> string \<Rightarrow> fs \<Rightarrow> fs \<times> int" where
  "remove_child d name s =
     (case dcache_find s d name of
        Some (Mount, _) \<Rightarrow> (set_dcache d (filter (\<lambda>e. fst e \<noteq> name) (mounts s d)) s, 0)
      | it \<Rightarrow>
          let s1 = memory_remove_child d name s;
              s2 = (case it of
                      None \<Rightarrow> s1
                    | Some (_, f) \<Rightarrow>
                        set_dcache d (filter (\<lambda>e. fst e \<noteq> name) (mounts s1 d)) (set_parent f None s1))
          in (update_mtime d s2, 0))"

definition get_name :: "fs \<Rightarrow> fid \<Rightarrow> fid \<Rightarrow> string" where
  "get_name s d f =
     (if maintains_file_identity s d then memory_get_name s d f
      else (case find (\<lambda>e. snd (snd e) = f) (mounts s d) of Some e \<Rightarrow> fst e | None \<Rightarrow> []))"

definition is_mount :: "string \<times> dcache_kind \<times> fid \<Rightarrow> bool" where
  "is_mount e \<longleftrightarrow> fst (snd e) = Mount"

definition get_num_entries :: "fs \<Rightarrow> fid \<Rightarrow> nat" where
  "get_num_entries s d = length (entries s d) + length (filter is_mount (mounts s d))"

datatype file_kind = DataFileKind | DirectoryKind | SymlinkKind

definition kind_of :: "fs \<Rightarrow> fid \<Rightarrow> file_kind" where
  "kind_of s f =
     (if is_dir s f then DirectoryKind else if link_target s f = None then DataFileKind else SymlinkKind)"

type_synonym dirent = "string \<times> file_kind \<times> fid"

definition get_entries :: "fs \<Rightarrow> fid \<Rightarrow> dirent list" where
  "get_entries s d =
     map (\<lambda>(name, c). (name, kind_of s c, c)) (entries s d) @
     map (\<lambda>(name, _, c). (name, kind_of s c, c)) (filter is_mount (mounts s d))"

section \<open>The root directory\<close>

text \<open>
  The singletons of \<open>SpecialFiles\<close>, in the order of their numbers here: null, stdin, stdout, stderr,
  random, urandom.
\<close>

definition special_file :: "device \<Rightarrow> u32 \<Rightarrow> fs \<Rightarrow> fs" where
  "special_file d m s = fst (create_node (Device d) (m OR S_IFCHR) NullBackend s)"

definition special_files :: "fs \<Rightarrow> fs" where
  "special_files s =
     special_file Random_file 0x124 (special_file Random_file 0x124
       (special_file (Stderr_file []) 0x92 (special_file (Stdout_file []) 0x92
         (special_file Stdin_file 0x124 (special_file Null_file 0x1B6 s)))))"

definition init_root_directory :: "backend_id \<Rightarrow> fs \<Rightarrow> fs \<times> fid" where
  "init_root_directory b s =
     (let (s1, r) = create_directory 0x1FF b s;
          s2 = set_parent r (Some r) s1;
          (s3, dev) = insert_directory r ''dev'' 0x16D s2;
          s4 = (case dev of
                  None \<Rightarrow> s3
                | Some d \<Rightarrow>
                    foldl (\<lambda>t (name, f). fst (mount_child d name f t)) s3
                      [(''null'', 0), (''stdin'', 1), (''stdout'', 2), (''stderr'', 3), (''random'', 4),
                       (''urandom'', 5)]);
          (s5, _) = insert_directory r ''tmp'' 0x1FF s4
      in (s5, r))"

definition empty_fs :: fs where
  "empty_fs = \<lparr>files = (\<lambda>_. None), next_fid = 0, now = 0, stdin_chars = [], entropy = (\<lambda>_. 0), drawn = 0, console = [],
     pipes = (\<lambda>_. []), next_pipe = 0\<rparr>"

section \<open>Readings of the primitive updates\<close>

lemma files_update: "files (update f g s) x = (if x = f then map_option g (files s f) else files s x)"
  by (simp add: update_def)

named_theorems readings \<open>what the observers of a file system see after a primitive update\<close>

lemmas observers = is_dir_def is_data_def link_target_def entries_def mounts_def data_def get_parent_def
  get_mode_def get_backend_def

lemma set_parent_readings [readings]:
  "is_dir (set_parent f p s) x = is_dir s x"
  "is_data (set_parent f p s) x = is_data s x"
  "link_target (set_parent f p s) x = link_target s x"
  "entries (set_parent f p s) x = entries s x"
  "mounts (set_parent f p s) x = mounts s x"
  "data (set_parent f p s) x = data s x"
  "get_mode (set_parent f p s) x = get_mode s x"
  "get_backend (set_parent f p s) x = get_backend s x"
  "get_parent (set_parent f p s) x = (if x = f \<and> files s f \<noteq> None then p else get_parent s x)"
  "files (set_parent f p s) x = None \<longleftrightarrow> files s x = None"
  "next_fid (set_parent f p s) = next_fid s"
  "now (set_parent f p s) = now s"
  by (simp_all add: set_parent_def update_def observers split: option.splits content.splits)

lemma set_entries_readings [readings]:
  "is_dir (set_entries d es s) x = (if x = d then files s d \<noteq> None else is_dir s x)"
  "entries (set_entries d es s) x = (if x = d \<and> files s d \<noteq> None then es else entries s x)"
  "mounts (set_entries d es s) x = mounts s x"
  "get_mode (set_entries d es s) x = get_mode s x"
  "get_backend (set_entries d es s) x = get_backend s x"
  "get_parent (set_entries d es s) x = get_parent s x"
  "files (set_entries d es s) x = None \<longleftrightarrow> files s x = None"
  "next_fid (set_entries d es s) = next_fid s"
  "now (set_entries d es s) = now s"
  by (auto simp: set_entries_def update_def observers split: option.splits content.splits)

lemma set_entries_readings_dir [readings]:
  "is_dir s d \<Longrightarrow> is_data (set_entries d es s) x = is_data s x"
  "is_dir s d \<Longrightarrow> link_target (set_entries d es s) x = link_target s x"
  "is_dir s d \<Longrightarrow> data (set_entries d es s) x = data s x"
  by (auto simp: set_entries_def update_def observers split: option.splits content.splits)

lemma set_dcache_readings [readings]:
  "is_dir (set_dcache d c s) x = is_dir s x"
  "is_data (set_dcache d c s) x = is_data s x"
  "link_target (set_dcache d c s) x = link_target s x"
  "entries (set_dcache d c s) x = entries s x"
  "mounts (set_dcache d c s) x = (if x = d \<and> files s d \<noteq> None then c else mounts s x)"
  "data (set_dcache d c s) x = data s x"
  "get_mode (set_dcache d c s) x = get_mode s x"
  "get_backend (set_dcache d c s) x = get_backend s x"
  "get_parent (set_dcache d c s) x = get_parent s x"
  "files (set_dcache d c s) x = None \<longleftrightarrow> files s x = None"
  "next_fid (set_dcache d c s) = next_fid s"
  "now (set_dcache d c s) = now s"
  by (auto simp: set_dcache_def update_def observers split: option.splits content.splits)

lemma update_mtime_readings [readings]:
  "is_dir (update_mtime f s) x = is_dir s x"
  "is_data (update_mtime f s) x = is_data s x"
  "link_target (update_mtime f s) x = link_target s x"
  "entries (update_mtime f s) x = entries s x"
  "mounts (update_mtime f s) x = mounts s x"
  "data (update_mtime f s) x = data s x"
  "get_mode (update_mtime f s) x = get_mode s x"
  "get_backend (update_mtime f s) x = get_backend s x"
  "get_parent (update_mtime f s) x = get_parent s x"
  "files (update_mtime f s) x = None \<longleftrightarrow> files s x = None"
  "next_fid (update_mtime f s) = next_fid s"
  "now (update_mtime f s) = now s"
  by (auto simp: update_mtime_def update_def observers split: option.splits content.splits)

lemma is_dir_exists: "is_dir s d \<Longrightarrow> files s d \<noteq> None"
  by (auto simp: is_dir_def split: option.splits)

end
