(* ===== verification/Wasmfs_Tree.thy ===== *)
theory Wasmfs_Tree
  imports Wasmfs_Files
begin

text \<open>
  The invariant of the WasmFS directory tree, and that the operations of a directory handle keep it:
  entries and mounts of a directory have distinct names and distinct files, every listed file has the
  directory as its parent, and following parents ends at the root or at an unlinked file.
\<close>

section \<open>The invariant\<close>

definition all_names :: "fs \<Rightarrow> fid \<Rightarrow> string list" where
  "all_names s d = map fst (entries s d) @ map fst (mounts s d)"

definition all_children :: "fs \<Rightarrow> fid \<Rightarrow> fid list" where
  "all_children s d = map snd (entries s d) @ map (\<lambda>e. snd (snd e)) (mounts s d)"

definition child_rel :: "fid \<Rightarrow> fs \<Rightarrow> (fid \<times> fid) set" where
  "child_rel root_dir s = {(p, f). get_parent s f = Some p \<and> f \<noteq> root_dir}"

definition tree :: "fid \<Rightarrow> fs \<Rightarrow> bool" where
  "tree root_dir s \<longleftrightarrow>
     is_dir s root_dir \<and> get_parent s root_dir = Some root_dir \<and>
     (\<forall>f. next_fid s \<le> f \<longrightarrow> files s f = None) \<and>
     (\<forall>f p. get_parent s f = Some p \<longrightarrow> is_dir s p) \<and>
     (\<forall>d. \<forall>c\<in>set (all_children s d). get_parent s c = Some d \<and> c \<noteq> root_dir) \<and>
     (\<forall>d. distinct (all_names s d) \<and> distinct (all_children s d)) \<and>
     (\<forall>d. \<forall>e\<in>set (mounts s d). is_mount e) \<and>
     wf (child_rel root_dir s)"

lemma treeI:
  assumes "is_dir s root_dir" "get_parent s root_dir = Some root_dir"
    "\<And>f. next_fid s \<le> f \<Longrightarrow> files s f = None"
    "\<And>f p. get_parent s f = Some p \<Longrightarrow> is_dir s p"
    "\<And>d c. c \<in> set (all_children s d) \<Longrightarrow> get_parent s c = Some d"
    "\<And>d c. c \<in> set (all_children s d) \<Longrightarrow> c \<noteq> root_dir"
    "\<And>d. distinct (all_names s d)" "\<And>d. distinct (all_children s d)"
    "\<And>d e. e \<in> set (mounts s d) \<Longrightarrow> is_mount e"
    "wf (child_rel root_dir s)"
  shows "tree root_dir s"
  using assms unfolding tree_def by blast

lemma treeD:
  assumes "tree root_dir s"
  shows "is_dir s root_dir" "get_parent s root_dir = Some root_dir"
    "\<And>f. next_fid s \<le> f \<Longrightarrow> files s f = None"
    "\<And>f p. get_parent s f = Some p \<Longrightarrow> is_dir s p"
    "\<And>d c. c \<in> set (all_children s d) \<Longrightarrow> get_parent s c = Some d"
    "\<And>d c. c \<in> set (all_children s d) \<Longrightarrow> c \<noteq> root_dir"
    "\<And>d. distinct (all_names s d)" "\<And>d. distinct (all_children s d)"
    "\<And>d e. e \<in> set (mounts s d) \<Longrightarrow> is_mount e"
    "wf (child_rel root_dir s)"
  using assms unfolding tree_def by blast+

lemma tree_cong:
  assumes "tree root_dir s"
    "\<And>x. is_dir s' x = is_dir s x" "\<And>x. get_parent s' x = get_parent s x"
    "\<And>x. entries s' x = entries s x" "\<And>x. mounts s' x = mounts s x"
    "next_fid s' = next_fid s" "\<And>x. files s' x = None \<longleftrightarrow> files s x = None"
  shows "tree root_dir s'"
  using assms(1)
  unfolding tree_def all_names_def all_children_def child_rel_def assms(2-7) .

lemma tree_update_mtime: "tree root_dir s \<Longrightarrow> tree root_dir (update_mtime f s)"
  by (rule tree_cong) (simp_all add: readings)

lemma entries_child: "(n, c) \<in> set (entries s d) \<Longrightarrow> c \<in> set (all_children s d)"
  by (force simp: all_children_def)

lemma mounts_child: "(n, k, c) \<in> set (mounts s d) \<Longrightarrow> c \<in> set (all_children s d)"
  by (force simp: all_children_def)

lemma parent_exists: "get_parent s f = Some p \<Longrightarrow> files s f \<noteq> None"
  by (auto simp: get_parent_def split: option.splits)

lemma entries_exist: "entries s d \<noteq> [] \<Longrightarrow> is_dir s d"
  by (auto simp: entries_def is_dir_def split: option.splits content.splits)

section \<open>Lookup\<close>

text \<open>Asking for a child changes nothing: the cached parent is the one that is there already.\<close>

lemma set_parent_same: "get_parent s c = p \<Longrightarrow> set_parent c p s = s"
  by (auto simp: set_parent_def update_def get_parent_def fun_eq_iff intro!: fs.equality split: option.splits)

lemma get_child_state:
  assumes "tree root_dir s"
  shows "fst (get_child d name s) = s"
proof -
  have "set_parent c (Some d) s = s" if "map_of (entries s d) name = Some c" for c
    using treeD(5) [OF assms entries_child [OF map_of_SomeD [OF that]]] by (rule set_parent_same)
  then show ?thesis
    by (auto simp: get_child_def cache_child_def maintains_file_identity_def memory_get_child_def
        split: option.splits)
qed

definition lookup :: "fs \<Rightarrow> fid \<Rightarrow> string \<Rightarrow> fid option" where
  "lookup s d name = snd (get_child d name s)"

lemma get_child_lookup: "tree root_dir s \<Longrightarrow> get_child d name s = (s, lookup s d name)"
  by (metis get_child_state lookup_def prod.collapse)

lemma lookup_eq:
  "lookup s d name =
     (case get_parent s d of
        None \<Rightarrow> None
      | Some p \<Rightarrow>
          if name = ''.'' then Some d
          else if name = ''..'' then Some p
          else
            (case map_of (mounts s d) name of
               Some (_, f) \<Rightarrow> Some f
             | None \<Rightarrow> map_of (entries s d) name))"
  by (simp add: lookup_def get_child_def dcache_find_def memory_get_child_def split: option.splits)

lemma lookup_none_not_listed:
  assumes "lookup s d name = None" "get_parent s d \<noteq> None"
  shows "name \<notin> set (all_names s d)" "name \<noteq> ''.''" "name \<noteq> ''..''"
  using assms by (auto simp: lookup_eq all_names_def map_of_eq_None_iff split: option.splits if_splits)

section \<open>Creating a child\<close>

lemma create_node_readings:
  assumes "create_node c m b s = (s', f)" "files s (next_fid s) = None"
  shows "f = next_fid s" "next_fid s' = Suc (next_fid s)"
    "\<And>x. is_dir s' x = (if x = f then (case c of Dir _ \<Rightarrow> True | _ \<Rightarrow> False) else is_dir s x)"
    "\<And>x. get_parent s' x = get_parent s x"
    "\<And>x. entries s' x = (if x = f then (case c of Dir es \<Rightarrow> es | _ \<Rightarrow> []) else entries s x)"
    "\<And>x. mounts s' x = mounts s x"
    "\<And>x. files s' x = None \<longleftrightarrow> x \<noteq> f \<and> files s x = None"
    "\<And>x. get_backend s' x = (if x = f then b else get_backend s x)"
    "\<And>x. get_mode s' x = (if x = f then m else get_mode s x)"
    "\<And>x. data s' x = (if x = f then (case c of Data t \<Rightarrow> t | _ \<Rightarrow> []) else data s x)"
    "\<And>x. link_target s' x = (if x = f then (case c of Link t \<Rightarrow> Some t | _ \<Rightarrow> None) else link_target s x)"
    "now s' = now s"
proof -
  have f: "f = next_fid s"
    and s': "s' = s\<lparr>files := (files s)(f := Some (new_node c m b (now s))), next_fid := Suc (next_fid s)\<rparr>"
    using assms(1) unfolding create_node_def by (metis prod.inject)+
  show "f = next_fid s" by (fact f)
  show "next_fid s' = Suc (next_fid s)" "now s' = now s" by (simp_all add: s')
  show "is_dir s' x = (if x = f then (case c of Dir _ \<Rightarrow> True | _ \<Rightarrow> False) else is_dir s x)"
    "entries s' x = (if x = f then (case c of Dir es \<Rightarrow> es | _ \<Rightarrow> []) else entries s x)"
    "files s' x = None \<longleftrightarrow> x \<noteq> f \<and> files s x = None"
    "get_backend s' x = (if x = f then b else get_backend s x)"
    "get_mode s' x = (if x = f then m else get_mode s x)"
    "data s' x = (if x = f then (case c of Data t \<Rightarrow> t | _ \<Rightarrow> []) else data s x)"
    "link_target s' x = (if x = f then (case c of Link t \<Rightarrow> Some t | _ \<Rightarrow> None) else link_target s x)" for x
    by (simp_all add: s' observers new_node_def)
  show "get_parent s' x = get_parent s x" "mounts s' x = mounts s x" for x
    using assms(2) by (simp_all add: s' f observers new_node_def)
qed

text \<open>What the four ways to make a node have in common: nothing in it yet.\<close>

definition fresh_content :: "content \<Rightarrow> bool" where
  "fresh_content c \<longleftrightarrow> (case c of Dir es \<Rightarrow> es = [] | Data b \<Rightarrow> b = [] | _ \<Rightarrow> True)"

lemma tree_create_node:
  assumes "tree root_dir s" "create_node c m b s = (s', f)" "fresh_content c"
  shows "tree root_dir s'"
proof -
  note T = treeD [OF assms(1)]
  have fresh: "files s (next_fid s) = None" using T(3) by simp
  note R = create_node_readings [OF assms(2) fresh]
  have es: "entries s' x = entries s x" for x
    unfolding R(5) using assms(3) fresh R(1)
    by (auto simp: fresh_content_def entries_def split: content.splits)
  have dir: "is_dir s x \<Longrightarrow> is_dir s' x" for x
    using fresh is_dir_exists [of s x] by (auto simp: R(1,3))
  have ch: "all_children s' d = all_children s d" "all_names s' d = all_names s d" for d
    by (simp_all add: all_children_def all_names_def es R(6))
  show ?thesis
  proof (rule treeI)
    show "wf (child_rel root_dir s')" using T(10) by (simp add: child_rel_def R(4))
    show "files s' x = None" if "next_fid s' \<le> x" for x
      using that T(3) [of x] by (simp add: R)
  qed (use T dir in \<open>simp_all add: ch R(4) R(6)\<close>)
qed

lemma child_rel_leaf:
  assumes "wf (child_rel root_dir s)" "child_rel root_dir s' \<subseteq> insert (d, f) (child_rel root_dir s)"
    "(f, d) \<notin> (child_rel root_dir s)\<^sup>*"
  shows "wf (child_rel root_dir s')"
  using assms by (meson wf_insert wf_subset)

lemma no_children_rtrancl:
  assumes "\<And>x. get_parent s x \<noteq> Some f" "(f, d) \<in> (child_rel root_dir s)\<^sup>*"
  shows "d = f"
  using assms(2,1) by (cases rule: converse_rtranclE) (auto simp: child_rel_def)

text \<open>Hanging a file that is in no directory into one that is not below it.\<close>

lemma tree_rehang:
  assumes T: "tree root_dir s" and d: "is_dir s d"
    and f: "files s f \<noteq> None" "f \<noteq> root_dir" "\<And>x. f \<notin> set (all_children s x)"
    and below: "(f, d) \<notin> (child_rel root_dir s)\<^sup>*" and new: "name \<notin> set (all_names s d)"
    and R: "\<And>x. is_dir s' x = is_dir s x" "\<And>x. files s' x = None \<longleftrightarrow> files s x = None"
      "next_fid s' = next_fid s"
      "\<And>x. get_parent s' x = (if x = f then Some d else get_parent s x)"
      "\<And>x. mset (all_names s' x) = mset (all_names s x) + (if x = d then {#name#} else {#})"
      "\<And>x. mset (all_children s' x) = mset (all_children s x) + (if x = d then {#f#} else {#})"
      "\<And>x e. e \<in> set (mounts s' x) \<Longrightarrow> e \<in> set (mounts s x) \<or> is_mount e"
  shows "tree root_dir s'"
proof -
  note D = treeD [OF T]
  have names: "distinct (all_names s' x)" for x
  proof -
    have "distinct (if x = d then name # all_names s x else all_names s x)" using D(7) new by auto
    moreover have "mset (all_names s' x) = mset (if x = d then name # all_names s x else all_names s x)"
      using R(5) [of x] by simp
    ultimately show ?thesis by (metis mset_eq_imp_distinct_iff)
  qed
  have children: "mset (all_children s' x) = mset (if x = d then f # all_children s x else all_children s x)" for x
    using R(6) [of x] by simp
  have dist: "distinct (all_children s' x)" for x
  proof -
    have "distinct (if x = d then f # all_children s x else all_children s x)" using D(8) f(3) by auto
    then show ?thesis using children by (metis mset_eq_imp_distinct_iff)
  qed
  have set_ch: "set (all_children s' x) = (if x = d then insert f (set (all_children s x)) else set (all_children s x))" for x
    using mset_eq_setD [OF children [of x]] by (simp split: if_splits)
  show ?thesis
  proof (rule treeI)
    show "wf (child_rel root_dir s')"
    proof (rule child_rel_leaf [OF D(10) _ below])
      show "child_rel root_dir s' \<subseteq> insert (d, f) (child_rel root_dir s)"
        by (auto simp: child_rel_def R(4) split: if_splits)
    qed
    show "get_parent s' c = Some x" if "c \<in> set (all_children s' x)" for x c
      using that D(5) [of c x] f(3) [of x] by (auto simp: set_ch R(4) split: if_splits)
    show "c \<noteq> root_dir" if "c \<in> set (all_children s' x)" for x c
      using that D(6) [of c x] f(2) by (auto simp: set_ch split: if_splits)
    show "get_parent s' root_dir = Some root_dir" using D(2) f(2) by (simp add: R(4))
    show "is_mount e" if "e \<in> set (mounts s' x)" for x e using R(7) [OF that] D(9) by blast
    show "is_dir s' p" if "get_parent s' x = Some p" for x p
      using that d D(4) by (auto simp: R(1,4) split: if_splits)
  qed (use D(1,3) R(1-3) names dist in simp_all)
qed

text \<open>A file without a parent is in no directory; without children it is above nothing.\<close>

lemma no_parent_not_listed:
  "tree root_dir s \<Longrightarrow> get_parent s f = None \<Longrightarrow> f \<notin> set (all_children s x)"
  using treeD(5) by fastforce

lemma created_not_above:
  assumes "tree root_dir s" "\<not> is_dir s f" "f \<noteq> d"
  shows "(f, d) \<notin> (child_rel root_dir s)\<^sup>*"
  using no_children_rtrancl [of s f d root_dir] treeD(4) [OF assms(1)] assms(2,3) by blast

text \<open>Taking files out of directories.\<close>

lemma distinct_sub_mset: "mset xs \<subseteq># mset ys \<Longrightarrow> distinct ys \<Longrightarrow> distinct xs"
proof -
  assume sub: "mset xs \<subseteq># mset ys" and d: "distinct ys"
  obtain zs where "mset zs = mset ys - mset xs" using ex_mset by blast
  then have "mset (xs @ zs) = mset ys" using sub by (simp add: subset_mset.add_diff_inverse)
  then have "distinct (xs @ zs)" using d mset_eq_imp_distinct_iff by blast
  then show "distinct xs" by simp
qed

lemma tree_shrink:
  assumes T: "tree root_dir s"
    and R: "\<And>x. is_dir s' x = is_dir s x" "\<And>x. files s' x = None \<longleftrightarrow> files s x = None"
      "next_fid s' = next_fid s" "get_parent s' root_dir = get_parent s root_dir"
      "\<And>x. get_parent s' x = None \<or> get_parent s' x = get_parent s x"
      "\<And>x. mset (all_names s' x) \<subseteq># mset (all_names s x)"
      "\<And>x. mset (all_children s' x) \<subseteq># mset (all_children s x)"
      "\<And>x c. c \<in> set (all_children s' x) \<Longrightarrow> get_parent s' c = get_parent s c"
      "\<And>x e. e \<in> set (mounts s' x) \<Longrightarrow> e \<in> set (mounts s x)"
  shows "tree root_dir s'"
proof -
  note D = treeD [OF T]
  have sub: "c \<in> set (all_children s x)" if "c \<in> set (all_children s' x)" for c x
    using that set_mset_mono [OF R(7) [of x]] by auto
  show ?thesis
  proof (rule treeI)
    show "wf (child_rel root_dir s')"
    proof (rule wf_subset [OF D(10)])
      have "get_parent s x = Some p" if "get_parent s' x = Some p" for x p
        using R(5) [of x] that by auto
      then show "child_rel root_dir s' \<subseteq> child_rel root_dir s" by (auto simp: child_rel_def)
    qed
    show "is_dir s' p" if "get_parent s' x = Some p" for x p
      using that R(5) [of x] D(4) [of x p] by (auto simp: R(1))
    show "get_parent s' c = Some x" if "c \<in> set (all_children s' x)" for x c
      using R(8) [OF that] D(5) [OF sub [OF that]] by simp
    show "c \<noteq> root_dir" if "c \<in> set (all_children s' x)" for x c
      by (rule D(6) [OF sub [OF that]])
    show "distinct (all_names s' x)" "distinct (all_children s' x)" for x
      using distinct_sub_mset [OF R(6) D(7)] distinct_sub_mset [OF R(7) D(8)] by blast+
    show "is_mount e" if "e \<in> set (mounts s' x)" for x e using D(9) [OF R(9) [OF that]] .
  qed (use D(1-3) R(1-4) in simp_all)
qed

section \<open>Inserting and mounting\<close>

definition creator :: "(backend_id \<Rightarrow> fs \<Rightarrow> fs \<times> fid) \<Rightarrow> bool" where
  "creator create \<longleftrightarrow> (\<exists>c m. fresh_content c \<and> create = create_node c m)"

lemma creators [simp]:
  "creator (create_file m)" "creator (create_directory m)" "creator (create_symlink t)"
proof -
  have "fresh_content (Data [])" "fresh_content (Dir [])" "fresh_content (Link t)"
    by (simp_all add: fresh_content_def)
  then show "creator (create_file m)" "creator (create_directory m)" "creator (create_symlink t)"
    unfolding creator_def create_file_def create_directory_def create_symlink_def by blast+
qed

lemma created_facts:
  assumes "tree root_dir s" "creator create" "create b s = (s1, f)"
  shows "tree root_dir s1" "f = next_fid s" "files s1 f \<noteq> None" "get_parent s1 f = None"
    "f \<noteq> root_dir" "\<And>x. f \<notin> set (all_children s1 x)" "\<And>x. get_parent s1 x \<noteq> Some f"
    "\<And>x. x \<noteq> f \<Longrightarrow> is_dir s1 x = is_dir s x" "\<And>x. get_parent s1 x = get_parent s x"
    "\<And>x. entries s1 x = entries s x" "\<And>x. mounts s1 x = mounts s x"
    "next_fid s1 = Suc (next_fid s)" "\<And>x. files s1 x = None \<longleftrightarrow> x \<noteq> f \<and> files s x = None"
    "get_backend s1 f = b" "\<And>x. x \<noteq> f \<Longrightarrow> get_backend s1 x = get_backend s x"
    "\<And>x. x \<noteq> f \<Longrightarrow> get_mode s1 x = get_mode s x" "\<And>x. x \<noteq> f \<Longrightarrow> data s1 x = data s x" "data s1 f = []"
proof -
  obtain c m where c: "fresh_content c" "create_node c m b s = (s1, f)"
    using assms(2,3) by (auto simp: creator_def)
  note T = treeD [OF assms(1)]
  have fresh: "files s (next_fid s) = None" using T(3) by simp
  note R = create_node_readings [OF c(2) fresh]
  show t1: "tree root_dir s1" by (rule tree_create_node [OF assms(1) c(2,1)])
  show "f = next_fid s" by (rule R(1))
  show "files s1 f \<noteq> None" "\<And>x. get_parent s1 x = get_parent s x"
    "\<And>x. mounts s1 x = mounts s x" "next_fid s1 = Suc (next_fid s)"
    "\<And>x. files s1 x = None \<longleftrightarrow> x \<noteq> f \<and> files s x = None" "get_backend s1 f = b"
    "\<And>x. x \<noteq> f \<Longrightarrow> get_backend s1 x = get_backend s x" "\<And>x. x \<noteq> f \<Longrightarrow> get_mode s1 x = get_mode s x"
    "\<And>x. x \<noteq> f \<Longrightarrow> data s1 x = data s x" "\<And>x. x \<noteq> f \<Longrightarrow> is_dir s1 x = is_dir s x"
    by (simp_all add: R)
  show p: "get_parent s1 f = None" unfolding R(4) using fresh by (simp add: R(1) get_parent_def)
  show "f \<noteq> root_dir" using p T(2) by (auto simp: R(4))
  show "f \<notin> set (all_children s1 x)" for x by (rule no_parent_not_listed [OF t1 p])
  show "get_parent s1 x \<noteq> Some f" for x
    using T(4) [of x f] is_dir_exists [of s f] fresh by (auto simp: R(1,4))
  show "entries s1 x = entries s x" for x
    unfolding R(5) using c(1) fresh R(1)
    by (auto simp: fresh_content_def entries_def split: content.splits)
  show "data s1 f = []" unfolding R(10) using c(1) by (simp add: fresh_content_def split: content.splits)
qed

lemma set_parent_exists: "get_parent (set_parent f p s) x = (if x = f \<and> files s f \<noteq> None then p else get_parent s x)"
  by (simp add: readings)

lemma insert_created_readings:
  assumes "tree root_dir s" "creator create" "is_dir s d" "get_parent s d \<noteq> None"
    "insert_created create d name s = (s', r)"
  defines "f \<equiv> next_fid s"
  shows "r = Some f" "next_fid s' = Suc (next_fid s)" "f \<noteq> d"
    "\<And>x. get_parent s' x = (if x = f then Some d else get_parent s x)"
    "\<And>x. entries s' x = (if x = d then entries s d @ [(name, f)] else entries s x)"
    "\<And>x. mounts s' x = mounts s x"
    "\<And>x. x \<noteq> f \<Longrightarrow> is_dir s' x = is_dir s x"
    "\<And>x. files s' x = None \<longleftrightarrow> x \<noteq> f \<and> files s x = None"
    "get_backend s' f = get_backend s d" "\<And>x. x \<noteq> f \<Longrightarrow> get_backend s' x = get_backend s x"
    "\<And>x. x \<noteq> f \<Longrightarrow> get_mode s' x = get_mode s x"
proof -
  obtain s1 g where c: "create (get_backend s d) s = (s1, g)" by fastforce
  note C = created_facts [OF assms(1,2) c]
  have s': "s' = update_mtime d (set_parent g (Some d) (set_entries d (entries s1 d @ [(name, g)]) s1))"
    and r: "r = Some g"
    using assms(4,5) c
    by (auto simp: insert_created_def cache_child_def maintains_file_identity_def memory_insert_child_def
        split: option.splits)
  have dg: "g \<noteq> d" using is_dir_exists [OF assms(3)] treeD(3) [OF assms(1)] C(2) by auto
  have g: "g = f" by (simp add: C(2) f_def)
  have d1: "is_dir s1 d" using C(8) [of d] dg assms(3) by simp
  have dx: "files s1 d \<noteq> None" by (rule is_dir_exists [OF d1])
  show "r = Some f" using r g by simp
  show "next_fid s' = Suc (next_fid s)" "f \<noteq> d" using dg g by (simp_all add: s' readings C(12))
  show "get_parent s' x = (if x = f then Some d else get_parent s x)" for x
    using C(3) by (simp add: s' readings g C(9))
  show "entries s' x = (if x = d then entries s d @ [(name, f)] else entries s x)" for x
    using dx by (simp add: s' readings g C(10))
  show "mounts s' x = mounts s x" for x by (simp add: s' readings C(11))
  show "is_dir s' x = is_dir s x" if "x \<noteq> f" for x
    using d1 dx assms(3) C(8) [of x] that g by (simp add: s' readings)
  show "files s' x = None \<longleftrightarrow> x \<noteq> f \<and> files s x = None" for x by (simp add: s' readings C(13) g)
  show "get_backend s' f = get_backend s d" using C(14) g by (simp add: s' readings)
  show "get_backend s' x = get_backend s x" "get_mode s' x = get_mode s x" if "x \<noteq> f" for x
    using C(15,16) [of x] that g by (simp_all add: s' readings)
qed

lemma tree_insert_created:
  assumes "tree root_dir s" "creator create" "is_dir s d" "get_parent s d \<noteq> None"
    "name \<notin> set (all_names s d)" "insert_created create d name s = (s', r)"
  shows "tree root_dir s'"
proof -
  obtain s1 g where c: "create (get_backend s d) s = (s1, g)" by fastforce
  note C = created_facts [OF assms(1,2) c]
  have s': "s' = update_mtime d (set_parent g (Some d) (set_entries d (entries s1 d @ [(name, g)]) s1))"
    using assms(4,6) c
    by (auto simp: insert_created_def cache_child_def maintains_file_identity_def memory_insert_child_def
        split: option.splits)
  have dg: "g \<noteq> d" using is_dir_exists [OF assms(3)] treeD(3) [OF assms(1)] C(2) by auto
  have d1: "is_dir s1 d" using C(8) [of d] dg assms(3) by simp
  have dx: "files s1 d \<noteq> None" by (rule is_dir_exists [OF d1])
  show ?thesis
    unfolding s'
  proof (rule tree_update_mtime, rule tree_rehang [OF C(1) d1 C(3,5,6)])
    show "(g, d) \<notin> (child_rel root_dir s1)\<^sup>*"
      using no_children_rtrancl [of s1 g d root_dir] C(7) dg by blast
    show "name \<notin> set (all_names s1 d)" using assms(5) by (simp add: all_names_def C(10,11))
  qed (use C(3) d1 dx in \<open>auto simp: readings all_names_def all_children_def\<close>)
qed

lemma mount_child_readings:
  assumes "get_parent s d \<noteq> None" "files s d \<noteq> None" "files s c \<noteq> None" "name \<notin> set (all_names s d)"
    "mount_child d name c s = (s', r)"
  shows "r = True" "s' = set_parent c (Some d) (set_dcache d (insort_key fst (name, Mount, c) (mounts s d)) s)"
    "\<And>x. get_parent s' x = (if x = c then Some d else get_parent s x)"
    "\<And>x. mounts s' x = (if x = d then insort_key fst (name, Mount, c) (mounts s d) else mounts s x)"
    "\<And>x. entries s' x = entries s x" "\<And>x. is_dir s' x = is_dir s x"
proof -
  have new: "name \<notin> fst ` set (mounts s d)" using assms(4) by (auto simp: all_names_def)
  show s': "s' = set_parent c (Some d) (set_dcache d (insort_key fst (name, Mount, c) (mounts s d)) s)"
    and "r = True"
    using assms(1,5) new by (auto simp: mount_child_def cache_child_def dcache_insert_def split: option.splits)
  show "get_parent s' x = (if x = c then Some d else get_parent s x)" for x
    using assms(3) by (simp add: s' readings)
  show "mounts s' x = (if x = d then insort_key fst (name, Mount, c) (mounts s d) else mounts s x)" for x
    using assms(2) by (simp add: s' readings)
  show "entries s' x = entries s x" "is_dir s' x = is_dir s x" for x by (simp_all add: s' readings)
qed

lemma mset_map_insort: "mset (map g (insort_key k x xs)) = add_mset (g x) (mset (map g xs))"
  by (induction xs) auto

lemma tree_mount_child:
  assumes "tree root_dir s" "is_dir s d" "get_parent s d \<noteq> None" "name \<notin> set (all_names s d)"
    "files s c \<noteq> None" "get_parent s c = None" "(c, d) \<notin> (child_rel root_dir s)\<^sup>*"
    "mount_child d name c s = (s', r)"
  shows "tree root_dir s'"
proof -
  have dx: "files s d \<noteq> None" by (rule is_dir_exists [OF assms(2)])
  note M = mount_child_readings [OF assms(3) dx assms(5,4,8)]
  have c: "c \<noteq> root_dir" using assms(6) treeD(2) [OF assms(1)] by auto
  show ?thesis
  proof (rule tree_rehang [OF assms(1,2,5) c no_parent_not_listed [OF assms(1,6)] assms(7,4)])
    show "mset (all_names s' x) = mset (all_names s x) + (if x = d then {#name#} else {#})" for x
      by (simp add: all_names_def M(4,5) mset_map_insort del: mset_map)
    show "mset (all_children s' x) = mset (all_children s x) + (if x = d then {#c#} else {#})" for x
      by (simp add: all_children_def M(4,5) mset_map_insort del: mset_map)
    show "e \<in> set (mounts s x) \<or> is_mount e" if "e \<in> set (mounts s' x)" for x e
      using that by (auto simp: M(4) set_insort_key is_mount_def split: if_splits)
  qed (simp_all add: M(2) readings assms(5) M(3))
qed

section \<open>Removing and moving\<close>

lemma erase_name_sub: "mset (erase_name n es) \<subseteq># mset es"
  by (induction es) auto

lemma erase_child_sub: "mset (erase_child f es) \<subseteq># mset es"
  by (induction es) auto

lemma erase_name_set: "distinct (map fst es) \<Longrightarrow> set (erase_name n es) = {e \<in> set es. fst e \<noteq> n}"
  by (induction es) (auto simp: image_iff)

lemma erase_child_set: "distinct (map snd es) \<Longrightarrow> set (erase_child f es) = {e \<in> set es. snd e \<noteq> f}"
  by (induction es) (auto simp: image_iff)

lemma tree_entries:
  assumes "tree root_dir s"
  shows "distinct (map fst (entries s d))" "distinct (map snd (entries s d))"
    "distinct (map fst (mounts s d))" "set (map fst (entries s d)) \<inter> set (map fst (mounts s d)) = {}"
    "set (map snd (entries s d)) \<inter> set (map (\<lambda>e. snd (snd e)) (mounts s d)) = {}"
  using treeD(7,8) [OF assms, of d] by (auto simp: all_names_def all_children_def)

lemma tree_erase:
  assumes "tree root_dir s" "is_dir s d" "mset es \<subseteq># mset (entries s d)"
  shows "tree root_dir (set_entries d es s)"
proof (rule tree_shrink [OF assms(1)])
  have dx: "files s d \<noteq> None" by (rule is_dir_exists [OF assms(2)])
  show "mset (all_names (set_entries d es s) x) \<subseteq># mset (all_names s x)"
    "mset (all_children (set_entries d es s) x) \<subseteq># mset (all_children s x)" for x
    using image_mset_subseteq_mono [OF assms(3)] dx
    by (auto simp: all_names_def all_children_def readings)
qed (use assms(2) is_dir_exists [OF assms(2)] in \<open>auto simp: readings\<close>)

lemma erase_name_other: "name \<notin> fst ` set es \<Longrightarrow> erase_name name es = es"
  by (induction es) auto

lemma erase_child_other: "f \<notin> snd ` set es \<Longrightarrow> erase_child f es = es"
  by (induction es) auto

lemma memory_remove_child_readings:
  fixes name :: string
  assumes "is_dir s d"
  defines "s' \<equiv> memory_remove_child d name s"
  shows "\<And>x. is_dir s' x = is_dir s x" "\<And>x. files s' x = None \<longleftrightarrow> files s x = None"
    "next_fid s' = next_fid s" "\<And>x. mounts s' x = mounts s x"
    "\<And>x. entries s' x = (if x = d then erase_name name (entries s d) else entries s x)"
    "\<And>x. get_parent s' x = (if map_of (entries s d) name = Some x then None else get_parent s x)"
    "\<And>x. get_backend s' x = get_backend s x" "\<And>x. get_mode s' x = get_mode s x"
    "\<And>x. data s' x = data s x" "\<And>x. link_target s' x = link_target s x"
proof -
  have dx: "files s d \<noteq> None" by (rule is_dir_exists [OF assms(1)])
  have np: "files s x = None \<Longrightarrow> get_parent s x = None" for x by (simp add: get_parent_def)
  show "is_dir s' x = is_dir s x" "files s' x = None \<longleftrightarrow> files s x = None"
    "mounts s' x = mounts s x" "get_backend s' x = get_backend s x" "get_mode s' x = get_mode s x"
    "next_fid s' = next_fid s" "data s' x = data s x" "link_target s' x = link_target s x"
    "get_parent s' x = (if map_of (entries s d) name = Some x then None else get_parent s x)" for x
    using assms(1) dx np [of x]
    by (auto simp: s'_def memory_remove_child_def memory_get_child_def Let_def readings split: option.splits)
  show "entries s' x = (if x = d then erase_name name (entries s d) else entries s x)" for x
  proof (cases "map_of (entries s d) name")
    case None
    then have "erase_name name (entries s d) = entries s d"
      by (intro erase_name_other) (auto simp: map_of_eq_None_iff)
    with None show ?thesis by (simp add: s'_def memory_remove_child_def memory_get_child_def)
  next
    case (Some c)
    then show ?thesis using dx
      by (auto simp: s'_def memory_remove_child_def memory_get_child_def Let_def readings)
  qed
qed

lemma tree_memory_remove_child:
  assumes T: "tree root_dir s" and d: "is_dir s d"
  shows "tree root_dir (memory_remove_child d name s)"
proof (rule tree_shrink [OF T])
  note R = memory_remove_child_readings [OF d, of name]
  let ?s = "memory_remove_child d name s"
  note E = tree_entries [OF T, of d]
  show "get_parent ?s root_dir = get_parent s root_dir"
    using treeD(6) [OF T entries_child [OF map_of_SomeD]] by (auto simp: R(6))
  have sub: "mset (entries ?s x) \<subseteq># mset (entries s x)" for x
    by (simp add: R(5) erase_name_sub)
  show "mset (all_names ?s x) \<subseteq># mset (all_names s x)"
    "mset (all_children ?s x) \<subseteq># mset (all_children s x)" for x
    using image_mset_subseteq_mono [OF sub [of x]] by (simp_all add: all_names_def all_children_def R(4))
  show "get_parent ?s c = get_parent s c" if c: "c \<in> set (all_children ?s x)" for x c
  proof -
    have "map_of (entries s d) name \<noteq> Some c"
    proof
      assume m: "map_of (entries s d) name = Some c"
      then have mem: "(name, c) \<in> set (entries s d)" by (rule map_of_SomeD)
      have "c \<in> set (all_children s x)"
        using c image_mset_subseteq_mono [OF sub [of x], of snd, THEN set_mset_mono]
        by (auto simp: all_children_def R(4))
      then have xd: "x = d"
        using treeD(5) [OF T, of c x] treeD(5) [OF T entries_child [OF mem]] by simp
      have "n = name" if "(n, c) \<in> set (entries s d)" for n
        using E(2) mem that by (metis distinct_map inj_onD prod.inject snd_conv)
      then have "c \<notin> snd ` set (erase_name name (entries s d))"
        using E(1) by (auto simp: erase_name_set)
      moreover have "c \<notin> set (map (\<lambda>e. snd (snd e)) (mounts s d))"
        using E(5) mem by force
      ultimately show False using c xd by (simp add: all_children_def R(4,5))
    qed
    then show ?thesis by (simp add: R(6))
  qed
qed (simp_all add: memory_remove_child_readings [OF d])

text \<open>\<open>removeChild\<close>: a mount only leaves the cache, anything else leaves the backend too.\<close>

lemma remove_child_readings:
  assumes T: "tree root_dir s" and d: "is_dir s d" and r: "remove_child d name s = (s', r)"
  shows "r = 0" "\<And>x. is_dir s' x = is_dir s x" "\<And>x. files s' x = None \<longleftrightarrow> files s x = None"
    "next_fid s' = next_fid s"
    "\<And>x. mounts s' x = (if x = d then filter (\<lambda>e. fst e \<noteq> name) (mounts s d) else mounts s x)"
    "\<And>x. entries s' x = (if x = d then erase_name name (entries s d) else entries s x)"
    "\<And>x. get_parent s' x = (if map_of (entries s d) name = Some x then None else get_parent s x)"
    "\<And>x. data s' x = data s x"
proof -
  have dx: "files s d \<noteq> None" by (rule is_dir_exists [OF d])
  note R = memory_remove_child_readings [OF d, of name]
  have main: "r = 0 \<and> (\<forall>x. is_dir s' x = is_dir s x) \<and> (\<forall>x. files s' x = None \<longleftrightarrow> files s x = None) \<and>
    next_fid s' = next_fid s \<and>
    (\<forall>x. mounts s' x = (if x = d then filter (\<lambda>e. fst e \<noteq> name) (mounts s d) else mounts s x)) \<and>
    (\<forall>x. entries s' x = (if x = d then erase_name name (entries s d) else entries s x)) \<and>
    (\<forall>x. get_parent s' x = (if map_of (entries s d) name = Some x then None else get_parent s x)) \<and>
    (\<forall>x. data s' x = data s x)"
  proof (cases "map_of (mounts s d) name")
    case None
    then have "filter (\<lambda>e. fst e \<noteq> name) (mounts s d) = mounts s d"
      by (auto simp: map_of_eq_None_iff image_iff intro!: filter_True)
    with None r show ?thesis
      by (auto simp: remove_child_def dcache_find_def Let_def readings R)
  next
    case (Some e)
    obtain k c where e: "e = (k, c)" by (cases e)
    have mem: "(name, k, c) \<in> set (mounts s d)" using Some e map_of_SomeD by fastforce
    then have k: "k = Mount" using treeD(9) [OF T, of _ d] by (auto simp: is_mount_def)
    have "name \<notin> fst ` set (entries s d)"
      using tree_entries(4) [OF T, of d] mem by force
    then have "erase_name name (entries s d) = entries s d" "map_of (entries s d) name = None"
      by (auto simp: erase_name_other map_of_eq_None_iff)
    with Some r k e dx show ?thesis
      by (auto simp: remove_child_def dcache_find_def readings)
  qed
  then show "r = 0" "\<And>x. is_dir s' x = is_dir s x" "\<And>x. files s' x = None \<longleftrightarrow> files s x = None"
    "next_fid s' = next_fid s"
    "\<And>x. mounts s' x = (if x = d then filter (\<lambda>e. fst e \<noteq> name) (mounts s d) else mounts s x)"
    "\<And>x. entries s' x = (if x = d then erase_name name (entries s d) else entries s x)"
    "\<And>x. get_parent s' x = (if map_of (entries s d) name = Some x then None else get_parent s x)"
    "\<And>x. data s' x = data s x"
    by blast+
qed

lemma filter_sub: "mset (filter P xs) \<subseteq># mset xs"
  by simp

lemma tree_set_dcache_filter:
  assumes "tree root_dir s"
  shows "tree root_dir (set_dcache d (filter P (mounts s d)) s)"
proof (rule tree_shrink [OF assms])
  let ?s = "set_dcache d (filter P (mounts s d)) s"
  have sub: "mset (mounts ?s x) \<subseteq># mset (mounts s x)" for x
    by (simp add: readings)
  have same: "entries ?s x = entries s x" for x by (simp add: readings)
  show "mset (all_names ?s x) \<subseteq># mset (all_names s x)"
    "mset (all_children ?s x) \<subseteq># mset (all_children s x)" for x
    using image_mset_subseteq_mono [OF sub [of x]] by (simp_all add: all_names_def all_children_def same)
qed (auto simp: readings split: if_splits)

lemma tree_remove_child:
  assumes T: "tree root_dir s" and d: "is_dir s d" and r: "remove_child d name s = (s', r)"
  shows "tree root_dir s'"
proof (cases "map_of (mounts s d) name")
  case None
  then have "s' = update_mtime d (memory_remove_child d name s)"
    using r by (simp add: remove_child_def dcache_find_def Let_def)
  then show ?thesis using tree_update_mtime [OF tree_memory_remove_child [OF T d]] by simp
next
  case (Some e)
  then have "(name, e) \<in> set (mounts s d)" by (rule map_of_SomeD)
  then have "fst e = Mount" using treeD(9) [OF T] by (fastforce simp: is_mount_def)
  then have "s' = set_dcache d (filter (\<lambda>e. fst e \<noteq> name) (mounts s d)) s"
    using r Some by (cases e) (simp add: remove_child_def dcache_find_def)
  then show ?thesis using tree_set_dcache_filter [OF T] by simp
qed

text \<open>The entries of a directory once a file has left its old one.\<close>

definition entries_without :: "fid \<Rightarrow> fs \<Rightarrow> fid \<Rightarrow> (string \<times> fid) list" where
  "entries_without f s x = (if get_parent s f = Some x then erase_child f (entries s x) else entries s x)"

lemma entries_without_set:
  assumes "tree root_dir s"
  shows "set (entries_without f s x) = {e \<in> set (entries s x). snd e \<noteq> f}"
  using tree_entries(2) [OF assms, of x] treeD(5) [OF assms entries_child]
  by (auto simp: entries_without_def erase_child_set)

lemma insert_move_state:
  assumes T: "tree root_dir s" and d: "is_dir s d" "get_parent s d \<noteq> None"
    and f: "get_parent s f = Some old" "f \<notin> (\<lambda>e. snd (snd e)) ` set (mounts s old)"
    and r: "insert_move d name f s = (s', r)"
  defines "s1 \<equiv> set_entries old (erase_child f (entries s old)) s"
  defines "s2 \<equiv> memory_remove_child d name s1"
  shows "r = 0"
    "s' = update_mtime d (update_mtime old
       (set_parent f (Some d) (set_entries d (entries s2 d @ [(name, f)]) s2)))"
proof -
  have "find (\<lambda>e. snd (snd e) = f) (mounts s old) = None"
    using f(2) by (force simp: find_None_iff)
  then show "r = 0" "s' = update_mtime d (update_mtime old
       (set_parent f (Some d) (set_entries d (entries s2 d @ [(name, f)]) s2)))"
    using r d(2) f(1)
    by (auto simp: insert_move_def memory_insert_move_def memory_insert_child_def Let_def s1_def s2_def)
qed

lemma insert_move_readings:
  assumes T: "tree root_dir s" and d: "is_dir s d" "get_parent s d \<noteq> None"
    and f: "get_parent s f = Some old" "f \<notin> (\<lambda>e. snd (snd e)) ` set (mounts s old)"
    and r: "insert_move d name f s = (s', r)"
  shows "r = 0" "\<And>x. is_dir s' x = is_dir s x" "\<And>x. files s' x = None \<longleftrightarrow> files s x = None"
    "next_fid s' = next_fid s" "\<And>x. mounts s' x = mounts s x"
    "\<And>x. entries s' x = (if x = d then erase_name name (entries_without f s d) @ [(name, f)]
                          else entries_without f s x)"
    "\<And>x. get_parent s' x = (if x = f then Some d
                            else if map_of (entries_without f s d) name = Some x then None
                            else get_parent s x)"
    "\<And>x. data s' x = data s x" "\<And>x. link_target s' x = link_target s x"
    "\<And>x. get_backend s' x = get_backend s x" "\<And>x. get_mode s' x = get_mode s x"
proof -
  have old: "is_dir s old" by (rule treeD(4) [OF T f(1)])
  have ox: "files s old \<noteq> None" by (rule is_dir_exists [OF old])
  have dx: "files s d \<noteq> None" by (rule is_dir_exists [OF d(1)])
  define s1 where "s1 = set_entries old (erase_child f (entries s old)) s"
  have e1: "entries s1 x = entries_without f s x" for x
    using f(1) ox by (simp add: s1_def readings entries_without_def)
  have d1: "is_dir s1 d" using d(1) ox by (auto simp: s1_def readings)
  have R1: "is_dir s1 x = is_dir s x" "files s1 x = None \<longleftrightarrow> files s x = None" "next_fid s1 = next_fid s"
    "mounts s1 x = mounts s x" "get_parent s1 x = get_parent s x" "data s1 x = data s x"
    "link_target s1 x = link_target s x" "get_backend s1 x = get_backend s x" "get_mode s1 x = get_mode s x" for x
    using old ox by (simp_all add: s1_def readings)
  define s2 where "s2 = memory_remove_child d name s1"
  note R2 = memory_remove_child_readings [OF d1, of name, folded s2_def, unfolded e1 R1]
  have d2: "is_dir s2 d" using d(1) by (simp add: R2)
  note S = insert_move_state [OF T d f r, folded s1_def, folded s2_def]
  have x2: "files s2 d \<noteq> None" "files s2 f \<noteq> None" using dx parent_exists [OF f(1)] by (simp_all add: R2)
  show "r = 0" by (rule S(1))
  show "is_dir s' x = is_dir s x" "files s' x = None \<longleftrightarrow> files s x = None"
    "next_fid s' = next_fid s" "mounts s' x = mounts s x" "data s' x = data s x"
    "link_target s' x = link_target s x" "get_backend s' x = get_backend s x" "get_mode s' x = get_mode s x" for x
    using d2 x2 d(1) by (simp_all add: S(2) readings R2)
  show "entries s' x = (if x = d then erase_name name (entries_without f s d) @ [(name, f)]
                          else entries_without f s x)" for x
    using x2 by (simp add: S(2) readings R2)
  show "get_parent s' x = (if x = f then Some d
                            else if map_of (entries_without f s d) name = Some x then None
                            else get_parent s x)" for x
    using x2 by (simp add: S(2) readings R2)
qed

lemma tree_insert_move:
  assumes T: "tree root_dir s" and d: "is_dir s d" "get_parent s d \<noteq> None"
    and f: "get_parent s f = Some old" "f \<notin> (\<lambda>e. snd (snd e)) ` set (mounts s old)"
    and r: "insert_move d name f s = (s', r)"
    and nr: "f \<noteq> root_dir" and name: "name \<notin> fst ` set (mounts s d)"
    and below: "(f, d) \<notin> (child_rel root_dir s)\<^sup>*"
  shows "tree root_dir s'"
proof -
  have old: "is_dir s old" by (rule treeD(4) [OF T f(1)])
  have ox: "files s old \<noteq> None" by (rule is_dir_exists [OF old])
  define s1 where "s1 = set_entries old (erase_child f (entries s old)) s"
  have T1: "tree root_dir s1" unfolding s1_def by (rule tree_erase [OF T old erase_child_sub])
  have e1: "entries s1 x = entries_without f s x" for x
    using f(1) ox by (simp add: s1_def readings entries_without_def)
  have d1: "is_dir s1 d" using d(1) ox by (auto simp: s1_def readings)
  define s2 where "s2 = memory_remove_child d name s1"
  have T2: "tree root_dir s2" unfolding s2_def by (rule tree_memory_remove_child [OF T1 d1])
  have m1: "mounts s1 x = mounts s x" "get_parent s1 x = get_parent s x" "files s1 x = None \<longleftrightarrow> files s x = None"
    "is_dir s1 x = is_dir s x" for x
    using old ox by (simp_all add: s1_def readings)
  note R2 = memory_remove_child_readings [OF d1, of name, folded s2_def, unfolded e1 m1]
  note S = insert_move_state [OF T d f r, folded s1_def, folded s2_def]
  have d2: "is_dir s2 d" using d(1) by (simp add: R2)
  have x2: "files s2 d \<noteq> None" "files s2 f \<noteq> None"
    using is_dir_exists [OF d2] parent_exists [OF f(1)] by (simp_all add: R2)
  have sub: "e \<in> set (entries_without f s x)" if "e \<in> set (entries s2 x)" for x e
    using that erase_name_sub [of name "entries_without f s d", THEN set_mset_mono]
    by (auto simp: R2 split: if_splits)
  have out: "f \<notin> set (all_children s2 x)" for x
  proof
    assume "f \<in> set (all_children s2 x)"
    then have "f \<in> (\<lambda>e. snd (snd e)) ` set (mounts s x)"
      using sub [of _ x] entries_without_set [OF T, of f x] by (auto simp: all_children_def R2)
    moreover from this have "get_parent s f = Some x"
      using treeD(5) [OF T mounts_child] by auto
    ultimately show False using f by auto
  qed
  show ?thesis
    unfolding S(2)
  proof (intro tree_update_mtime, rule tree_rehang [OF T2 d2 x2(2) nr out])
    have "child_rel root_dir s2 \<subseteq> child_rel root_dir s"
      by (auto simp: child_rel_def R2 split: if_splits)
    then show "(f, d) \<notin> (child_rel root_dir s2)\<^sup>*" using below rtrancl_mono by blast
    show "name \<notin> set (all_names s2 d)"
    proof -
      have "distinct (map fst (entries_without f s d))"
        using tree_entries(1) [OF T1, of d] by (simp add: e1)
      then show ?thesis using name by (auto simp: all_names_def R2 erase_name_set)
    qed
  qed (use d2 x2 in \<open>auto simp: readings all_names_def all_children_def\<close>)
qed

end
