(* ===== verification/Wasmfs_Table.thy ===== *)
theory Wasmfs_Table
  imports Wasmfs_Tree
begin

text \<open>
  The descriptor table of WasmFS: \<open>system/lib/wasmfs/file_table.h\<close> and \<open>file_table.cpp\<close>, over the
  state of the whole file system object. An open file state is a number in a heap, so that descriptors can
  share it. The functions \<open>open_error\<close>, \<open>close_error\<close>, \<open>flush_error\<close> and \<open>admission\<close> of the
  state are what the backends answer (all 0 for the memory backend), and \<open>opened\<close> counts the
  backend's \<open>open\<close> calls on a data file less its \<open>close\<close> calls.
\<close>

section \<open>State\<close>

record open_file =
  of_file :: fid
  position :: int
  oflags :: u32
  uses :: int
  dirents :: "dirent list"

record wasmfs =
  fsys :: fs
  open_files :: "nat \<Rightarrow> open_file option"
  next_oid :: nat
  table :: "nat option list"
  root_dir :: fid
  cwd :: fid
  opened :: "fid \<Rightarrow> int"
  open_error :: "fid \<Rightarrow> int"
  close_error :: "fid \<Rightarrow> int"
  flush_error :: "fid \<Rightarrow> int"
  admission :: "backend_id \<Rightarrow> int"

definition WASMFS_FD_MAX :: nat where "WASMFS_FD_MAX = 4096"

definition on_fs :: "(fs \<Rightarrow> fs) \<Rightarrow> wasmfs \<Rightarrow> wasmfs" where
  "on_fs g w = w\<lparr>fsys := g (fsys w)\<rparr>"

definition on_open_file :: "nat \<Rightarrow> (open_file \<Rightarrow> open_file) \<Rightarrow> wasmfs \<Rightarrow> wasmfs" where
  "on_open_file o' g w = w\<lparr>open_files := (open_files w)(o' := map_option g (open_files w o'))\<rparr>"

definition open_file :: "wasmfs \<Rightarrow> nat \<Rightarrow> open_file" where
  "open_file w o' = the (open_files w o')"

text \<open>The file that an open file state refers to.\<close>

definition file_of :: "wasmfs \<Rightarrow> nat \<Rightarrow> fid" where
  "file_of w o' = of_file (open_file w o')"

text \<open>The special files and the pipes always answer 0.\<close>

definition is_device :: "fs \<Rightarrow> fid \<Rightarrow> bool" where
  "is_device s f = (case files s f of
                      Some n \<Rightarrow> (case content n of Device _ \<Rightarrow> True | _ \<Rightarrow> False)
                    | None \<Rightarrow> False)"

definition backend_answer :: "wasmfs \<Rightarrow> (fid \<Rightarrow> int) \<Rightarrow> fid \<Rightarrow> int" where
  "backend_answer w answers f = (if is_device (fsys w) f then 0 else answers f)"

definition data_open :: "fid \<Rightarrow> wasmfs \<Rightarrow> wasmfs \<times> int" where
  "data_open f w =
     (let err = backend_answer w (open_error w) f
      in if err \<noteq> 0 then (w, err)
         else (w\<lparr>opened := (opened w)(f := opened w f + 1)\<rparr>, 0))"

definition data_close :: "fid \<Rightarrow> wasmfs \<Rightarrow> wasmfs \<times> int" where
  "data_close f w = (w\<lparr>opened := (opened w)(f := opened w f - 1)\<rparr>, backend_answer w (close_error w) f)"

definition data_flush :: "fid \<Rightarrow> wasmfs \<Rightarrow> wasmfs \<times> int" where
  "data_flush f w = (on_fs (file_flush f) w, backend_answer w (flush_error w) f)"

section \<open>Open file states\<close>

text \<open>
  \<open>OpenFileState::create\<close>; opening a directory takes a snapshot of its entries. For a directory that has been removed the code
  dereferences the null parent; here the entry \<open>..\<close> is an unspecified file and the call goes on.
\<close>

definition create_open_file :: "fid \<Rightarrow> u32 \<Rightarrow> wasmfs \<Rightarrow> wasmfs \<times> (int + nat)" where
  "create_open_file f fl w =
     (let (w1, err) = (if is_data (fsys w) f then data_open f w else (w, 0))
      in if err \<noteq> 0 then (w1, Inl err)
         else
           let ds = (if is_dir (fsys w) f
                     then (''.'', DirectoryKind, f) # (''..'', DirectoryKind, the (get_parent (fsys w) f)) #
                          get_entries (fsys w) f
                     else []);
               o' = next_oid w1
           in (w1\<lparr>open_files := (open_files w1)(o' \<mapsto>
                    \<lparr>of_file = f, position = 0, oflags = fl, uses = 0, dirents = ds\<rparr>),
                  next_oid := Suc o'\<rparr>, Inr o'))"

section \<open>The table\<close>

text \<open>A descriptor is unsigned, as \<open>__wasi_fd_t\<close> is.\<close>

definition get_entry :: "wasmfs \<Rightarrow> u32 \<Rightarrow> nat option" where
  "get_entry w fd = (if length (table w) \<le> unat fd then None else table w ! unat fd)"

definition add_use :: "nat option \<Rightarrow> int \<Rightarrow> wasmfs \<Rightarrow> wasmfs" where
  "add_use o' n w = (case o' of None \<Rightarrow> w | Some o' \<Rightarrow> on_open_file o' (\<lambda>s. s\<lparr>uses := uses s + n\<rparr>) w)"

definition set_entry :: "u32 \<Rightarrow> nat option \<Rightarrow> wasmfs \<Rightarrow> wasmfs \<times> fid option" where
  "set_entry fd new w =
     (let i = unat fd;
          t = table w @ replicate (Suc i - length (table w)) None;
          w1 = add_use new 1 w;
          (w2, ret) =
            (case t ! i of
               None \<Rightarrow> (w1, None)
             | Some old \<Rightarrow>
                 let f = file_of w1 old;
                     w3 = add_use (Some old) (- 1) (on_fs (clear_record_locks f) w1)
                 in (w3, if uses (open_file w3 old) = 0 \<and> is_data (fsys w3) f then Some f else None))
      in (w2\<lparr>table := t[i := new]\<rparr>, ret))"

definition free_fd :: "wasmfs \<Rightarrow> nat option" where
  "free_fd w = find (\<lambda>i. get_entry w (of_nat i) = None) [0..<WASMFS_FD_MAX]"

definition add_entry :: "nat \<Rightarrow> wasmfs \<Rightarrow> wasmfs \<times> int" where
  "add_entry o' w =
     (case free_fd w of
        None \<Rightarrow> (w, - EMFILE)
      | Some i \<Rightarrow> (fst (set_entry (of_nat i) (Some o') w), int i))"

fun detach_fds :: "(wasmfs \<Rightarrow> nat \<Rightarrow> bool) \<Rightarrow> nat list \<Rightarrow> wasmfs \<Rightarrow> wasmfs \<times> fid list \<times> nat" where
  "detach_fds P [] w = (w, [], 0)"
| "detach_fds P (i # is) w =
     (if \<not> P w i then detach_fds P is w
      else
        let (w1, closee) = set_entry (of_nat i) None w;
            (w2, closees, n) = detach_fds P is w1
        in (w2, (case closee of None \<Rightarrow> closees | Some f \<Rightarrow> f # closees), Suc n))"

definition detach_all :: "wasmfs \<Rightarrow> wasmfs \<times> fid list" where
  "detach_all w = (let (w1, closees, _) = detach_fds (\<lambda>_ _. True) [0..<length (table w)] w in (w1, closees))"

definition belongs :: "backend_id \<Rightarrow> wasmfs \<Rightarrow> nat \<Rightarrow> bool" where
  "belongs b w i =
     (case get_entry w (of_nat i) of
        None \<Rightarrow> False
      | Some o' \<Rightarrow> get_backend (fsys w) (file_of w o') = b)"

definition detach_backend :: "backend_id \<Rightarrow> wasmfs \<Rightarrow> wasmfs \<times> fid list \<times> nat" where
  "detach_backend b w = detach_fds (belongs b) [0..<length (table w)] w"

text \<open>The constructors of the table and of the file system: a memory backend, numbered 1, at the root.\<close>

definition init_wasmfs :: wasmfs where
  "init_wasmfs =
     (let (s, r) = init_root_directory 1 (special_files empty_fs);
          w0 = \<lparr>fsys = s, open_files = (\<lambda>_. None), next_oid = 0, table = [], root_dir = r, cwd = r,
                opened = (\<lambda>_. 0), open_error = (\<lambda>_. 0), close_error = (\<lambda>_. 0), flush_error = (\<lambda>_. 0),
                admission = (\<lambda>_. 0)\<rparr>;
          w1 = fst (create_open_file 1 O_RDONLY w0);
          w2 = fst (create_open_file 2 O_WRONLY w1);
          w3 = fst (create_open_file 3 O_WRONLY w2)
      in fst (set_entry 2 (Some 2) (fst (set_entry 1 (Some 1) (fst (set_entry 0 (Some 0) w3))))))"

text \<open>Admission of the backend of a file, as every system call asks for it.\<close>

definition admit_backend :: "wasmfs \<Rightarrow> backend_id \<Rightarrow> int" where
  "admit_backend w b = (if b = NullBackend then 0 else admission w b)"

definition admit_file :: "wasmfs \<Rightarrow> fid \<Rightarrow> int" where
  "admit_file w f = admit_backend w (get_backend (fsys w) f)"

section \<open>The invariant of the table\<close>

text \<open>
  Every slot refers to an open file state, which counts its slots; a data file has been opened once
  for every state that is in the table, or that has been created and not yet installed (\<open>extra\<close>).
\<close>

definition live_states :: "wasmfs \<Rightarrow> fid \<Rightarrow> nat set" where
  "live_states w f = {o'. \<exists>s. open_files w o' = Some s \<and> of_file s = f \<and> 0 < uses s}"

definition table_inv :: "wasmfs \<Rightarrow> bool" where
  "table_inv w \<longleftrightarrow>
     length (table w) \<le> WASMFS_FD_MAX \<and>
     (\<forall>o'. Some o' \<in> set (table w) \<longrightarrow> open_files w o' \<noteq> None) \<and>
     (\<forall>o' s. open_files w o' = Some s \<longrightarrow>
        o' < next_oid w \<and> uses s = int (count_list (table w) (Some o')) \<and> files (fsys w) (of_file s) \<noteq> None)"

definition handles_inv :: "(fid \<Rightarrow> int) \<Rightarrow> wasmfs \<Rightarrow> bool" where
  "handles_inv extra w \<longleftrightarrow>
     (\<forall>f. opened w f = (if is_data (fsys w) f then int (card (live_states w f)) else 0) + extra f)"


section \<open>What the table operations do\<close>

lemma count_list_mset: "count_list xs x = count (mset xs) x"
  by (induction xs) auto

lemma count_list_update:
  assumes "i < length xs"
  shows "int (count_list (xs[i := v]) x) =
    int (count_list xs x) + (if v = x then 1 else 0) - (if xs ! i = x then 1 else 0)"
proof -
  have "xs ! i \<in># mset xs" using assms by simp
  then show ?thesis
    using assms by (auto simp: count_list_mset mset_update)
qed

lemma count_list_padded: "count_list (xs @ replicate n None) (Some x) = count_list xs (Some x)"
  by (induction n) (simp_all add: count_list_append)

lemma clear_record_locks_readings [readings]:
  "is_dir (clear_record_locks f s) x = is_dir s x"
  "is_data (clear_record_locks f s) x = is_data s x"
  "link_target (clear_record_locks f s) x = link_target s x"
  "entries (clear_record_locks f s) x = entries s x"
  "mounts (clear_record_locks f s) x = mounts s x"
  "data (clear_record_locks f s) x = data s x"
  "get_mode (clear_record_locks f s) x = get_mode s x"
  "get_backend (clear_record_locks f s) x = get_backend s x"
  "get_parent (clear_record_locks f s) x = get_parent s x"
  "files (clear_record_locks f s) x = None \<longleftrightarrow> files s x = None"
  "next_fid (clear_record_locks f s) = next_fid s"
  by (auto simp: clear_record_locks_def update_def observers split: option.splits content.splits)

lemma tree_clear_record_locks: "tree r s \<Longrightarrow> tree r (clear_record_locks f s)"
  by (rule tree_cong) (simp_all add: readings)

text \<open>The state that a slot held before, if any.\<close>

definition slot :: "wasmfs \<Rightarrow> u32 \<Rightarrow> nat option" where
  "slot w fd = (if unat fd < length (table w) then table w ! unat fd else None)"

lemma slot_get_entry: "slot w fd = get_entry w fd"
  by (auto simp: slot_def get_entry_def)

lemma set_entry_readings:
  assumes "set_entry fd new w = (w', ret)"
    "\<forall>n. new = Some n \<longrightarrow> open_files w n \<noteq> None"
    "\<forall>n. get_entry w fd = Some n \<longrightarrow> open_files w n \<noteq> None"
  shows "table w' = (table w @ replicate (Suc (unat fd) - length (table w)) None)[unat fd := new]"
    "\<And>x. open_files w' x =
       map_option (\<lambda>s. s\<lparr>uses := uses s + (if new = Some x then 1 else 0) - (if get_entry w fd = Some x then 1 else 0)\<rparr>)
         (open_files w x)"
    "fsys w' = (case get_entry w fd of None \<Rightarrow> fsys w | Some n \<Rightarrow> clear_record_locks (file_of w n) (fsys w))"
    "ret = (case get_entry w fd of
              None \<Rightarrow> None
            | Some n \<Rightarrow>
                if uses (open_file w n) + (if new = Some n then 1 else 0) = 1 \<and> is_data (fsys w) (file_of w n)
                then Some (file_of w n) else None)"
    "next_oid w' = next_oid w" "opened w' = opened w" "root_dir w' = root_dir w" "cwd w' = cwd w"
    "close_error w' = close_error w" "admission w' = admission w" "flush_error w' = flush_error w"
proof -
  have nth: "(table w @ replicate (Suc (unat fd) - length (table w)) None) ! unat fd = get_entry w fd"
    by (auto simp: get_entry_def nth_append)
  have id: "map_option (\<lambda>s. s) v = v" "map_option (\<lambda>s. s\<lparr>uses := uses s\<rparr>) v = v" for v :: "open_file option"
    by (cases v; simp)+
  note defs = set_entry_def Let_def nth add_use_def on_open_file_def on_fs_def file_of_def open_file_def
  have main: "table w' = (table w @ replicate (Suc (unat fd) - length (table w)) None)[unat fd := new] \<and>
    (\<forall>x. open_files w' x =
       map_option (\<lambda>s. s\<lparr>uses := uses s + (if new = Some x then 1 else 0) - (if get_entry w fd = Some x then 1 else 0)\<rparr>)
         (open_files w x)) \<and>
    fsys w' = (case get_entry w fd of None \<Rightarrow> fsys w | Some n \<Rightarrow> clear_record_locks (file_of w n) (fsys w)) \<and>
    ret = (case get_entry w fd of
              None \<Rightarrow> None
            | Some n \<Rightarrow>
                if uses (open_file w n) + (if new = Some n then 1 else 0) = 1 \<and> is_data (fsys w) (file_of w n)
                then Some (file_of w n) else None) \<and>
    next_oid w' = next_oid w \<and> opened w' = opened w \<and> root_dir w' = root_dir w \<and> cwd w' = cwd w \<and>
    close_error w' = close_error w \<and> admission w' = admission w \<and> flush_error w' = flush_error w"
  proof (cases "get_entry w fd")
    case None
    then show ?thesis
      using assms(1,2) by (cases new) (auto simp: defs id)
  next
    case (Some n)
    then obtain sn where sn: "open_files w n = Some sn" using assms(3) by auto
    show ?thesis
    proof (cases new)
      case None
      then show ?thesis
        using assms(1) Some sn by (auto simp: defs id readings)
    next
      case new: (Some m)
      then obtain sm where sm: "open_files w m = Some sm" using assms(2) by auto
      show ?thesis
        using assms(1) Some new sn sm by (cases "m = n") (auto simp: defs id readings)
    qed
  qed
  then show "table w' = (table w @ replicate (Suc (unat fd) - length (table w)) None)[unat fd := new]"
    "\<And>x. open_files w' x =
       map_option (\<lambda>s. s\<lparr>uses := uses s + (if new = Some x then 1 else 0) - (if get_entry w fd = Some x then 1 else 0)\<rparr>)
         (open_files w x)"
    "fsys w' = (case get_entry w fd of None \<Rightarrow> fsys w | Some n \<Rightarrow> clear_record_locks (file_of w n) (fsys w))"
    "ret = (case get_entry w fd of
              None \<Rightarrow> None
            | Some n \<Rightarrow>
                if uses (open_file w n) + (if new = Some n then 1 else 0) = 1 \<and> is_data (fsys w) (file_of w n)
                then Some (file_of w n) else None)"
    "next_oid w' = next_oid w" "opened w' = opened w" "root_dir w' = root_dir w" "cwd w' = cwd w"
    "close_error w' = close_error w" "admission w' = admission w" "flush_error w' = flush_error w"
    by blast+
qed

lemma table_inv_entry:
  assumes "table_inv w" "get_entry w fd = Some n"
  shows "open_files w n \<noteq> None" "unat fd < length (table w)" "0 < uses (open_file w n)"
    "files (fsys w) (file_of w n) \<noteq> None"
proof -
  have i: "unat fd < length (table w)" "table w ! unat fd = Some n"
    using assms(2) by (auto simp: get_entry_def split: if_splits)
  then have mem: "Some n \<in> set (table w)" by (metis nth_mem)
  then show e: "open_files w n \<noteq> None" using assms(1) by (simp add: table_inv_def)
  then obtain s where s: "open_files w n = Some s" by auto
  then have "uses s = int (count_list (table w) (Some n))" "files (fsys w) (of_file s) \<noteq> None"
    using assms(1) unfolding table_inv_def by blast+
  moreover have "0 < count_list (table w) (Some n)"
    using mem by (metis count_list_0_iff gr0I)
  ultimately show "0 < uses (open_file w n)" "files (fsys w) (file_of w n) \<noteq> None"
    using s by (simp_all add: open_file_def file_of_def)
  show "unat fd < length (table w)" by (fact i)
qed

lemma set_entry_table_inv:
  assumes inv: "table_inv w" and fd: "unat fd < WASMFS_FD_MAX"
    and new: "\<forall>n. new = Some n \<longrightarrow> open_files w n \<noteq> None"
    and r: "set_entry fd new w = (w', ret)"
  shows "table_inv w'"
proof -
  have old: "\<forall>n. get_entry w fd = Some n \<longrightarrow> open_files w n \<noteq> None"
    using table_inv_entry(1) [OF inv] by blast
  note R = set_entry_readings [OF r new old]
  let ?t = "table w @ replicate (Suc (unat fd) - length (table w)) None"
  have len: "unat fd < length ?t" by simp
  have nth: "?t ! unat fd = get_entry w fd"
    by (auto simp: get_entry_def nth_append)
  have cnt: "int (count_list (table w') (Some x)) = int (count_list (table w) (Some x)) +
      (if new = Some x then 1 else 0) - (if get_entry w fd = Some x then 1 else 0)" for x
    using count_list_update [OF len, of new "Some x"] unfolding R(1) [symmetric] nth count_list_padded .
  have files: "files (fsys w') x = None \<longleftrightarrow> files (fsys w) x = None" for x
    by (simp add: R(3) readings split: option.splits)
  show ?thesis
    unfolding table_inv_def
  proof (intro conjI allI impI)
    show "length (table w') \<le> WASMFS_FD_MAX"
    proof -
      have "length (table w) \<le> WASMFS_FD_MAX" using inv by (simp add: table_inv_def)
      then show ?thesis using fd unfolding R(1) by simp
    qed
    fix x assume "Some x \<in> set (table w')"
    then have "new = Some x \<or> Some x \<in> set ?t"
      using set_update_subset_insert [of ?t "unat fd" new] unfolding R(1) by blast
    then have "new = Some x \<or> Some x \<in> set (table w)" by auto
    then show "open_files w' x \<noteq> None" using new inv by (auto simp: R(2) table_inv_def)
  next
    fix x s assume "open_files w' x = Some s"
    then obtain s0 where s0: "open_files w x = Some s0"
      "s = s0\<lparr>uses := uses s0 + (if new = Some x then 1 else 0) - (if get_entry w fd = Some x then 1 else 0)\<rparr>"
      by (auto simp: R(2))
    have "x < next_oid w" "uses s0 = int (count_list (table w) (Some x))" "files (fsys w) (of_file s0) \<noteq> None"
      using inv s0(1) unfolding table_inv_def by blast+
    then show "x < next_oid w'" "uses s = int (count_list (table w') (Some x))" "files (fsys w') (of_file s) \<noteq> None"
      using cnt [of x] by (simp_all add: s0(2) R(5) files)
  qed
qed

lemma table_inv_state:
  assumes "table_inv w" "open_files w x = Some s"
  shows "x < next_oid w" "uses s = int (count_list (table w) (Some x))" "files (fsys w) (of_file s) \<noteq> None"
  using assms unfolding table_inv_def by blast+

lemma finite_live: "table_inv w \<Longrightarrow> finite (live_states w f)"
  by (rule finite_subset [of _ "{..<next_oid w}"]) (auto simp: live_states_def dest: table_inv_state(1))

lemma int_card_insert: "finite A \<Longrightarrow> n \<notin> A \<Longrightarrow> int (card (insert n A)) = int (card A) + 1"
  by simp

lemma int_card_remove:
  assumes "finite A" "m \<in> A"
  shows "int (card (A - {m})) = int (card A) - 1"
proof -
  have "card A = Suc (card (A - {m}))" by (rule card.remove [OF assms, THEN trans]) simp
  then show ?thesis by simp
qed

text \<open>Whether installing a state makes a data file's state live.\<close>

definition born :: "wasmfs \<Rightarrow> nat option \<Rightarrow> fid \<Rightarrow> int" where
  "born w new f =
     (case new of
        None \<Rightarrow> 0
      | Some n \<Rightarrow> if uses (open_file w n) = 0 \<and> file_of w n = f \<and> is_data (fsys w) f then 1 else 0)"

lemma set_entry_live:
  assumes inv: "table_inv w" and new: "\<forall>n. new = Some n \<longrightarrow> open_files w n \<noteq> None"
    and r: "set_entry fd new w = (w', ret)" and f: "is_data (fsys w) f"
  shows "int (card (live_states w' f)) =
    int (card (live_states w f)) + born w new f - (if ret = Some f then 1 else 0)"
proof -
  have old: "\<forall>n. get_entry w fd = Some n \<longrightarrow> open_files w n \<noteq> None"
    using table_inv_entry(1) [OF inv] by blast
  note R = set_entry_readings [OF r new old]
  note fin = finite_live [OF inv, of f]
  define d where "d x = (if new = Some x then 1 else 0) - (if get_entry w fd = Some x then 1 else (0::int))" for x
  have live: "x \<in> live_states w' f \<longleftrightarrow>
      (\<exists>s. open_files w x = Some s \<and> of_file s = f \<and> 0 < uses s + d x)" for x
    by (auto simp: live_states_def R(2) d_def)
  have pos: "0 \<le> uses s" if "open_files w x = Some s" for x s
    using table_inv_state(2) [OF inv that] by simp
  have gone: "0 < uses s" if "open_files w x = Some s" "get_entry w fd = Some x" for x s
    using table_inv_entry(3) [OF inv that(2)] that(1) by (simp add: open_file_def)
  show ?thesis
  proof (cases "ret = Some f")
    case True
    then obtain m sm where m: "get_entry w fd = Some m" "open_files w m = Some sm" "of_file sm = f"
      "uses sm + (if new = Some m then 1 else 0) = 1"
      using old by (auto simp: R(4) open_file_def file_of_def split: option.splits if_splits)
    have nm: "new \<noteq> Some m" "uses sm = 1" using m(4) gone [OF m(2,1)] by (auto split: if_splits)
    show ?thesis
    proof (cases "born w new f = 1")
      case born: True
      then obtain n sn where n: "new = Some n" "open_files w n = Some sn" "of_file sn = f" "uses sn = 0"
        using new by (auto simp: born_def open_file_def file_of_def split: option.splits if_splits)
      have "live_states w' f = insert n (live_states w f - {m})"
      proof (intro set_eqI iffI)
        fix x assume "x \<in> live_states w' f"
        then obtain s where "open_files w x = Some s" "of_file s = f" "0 < uses s + d x" unfolding live by blast
        then show "x \<in> insert n (live_states w f - {m})"
          using m n nm by (auto simp: d_def live_states_def split: if_splits)
      next
        fix x assume "x \<in> insert n (live_states w f - {m})"
        then show "x \<in> live_states w' f"
          unfolding live using m n nm by (auto simp: d_def live_states_def)
      qed
      moreover have "m \<in> live_states w f" "n \<notin> live_states w f"
        using m n nm by (auto simp: live_states_def)
      ultimately show ?thesis
        using int_card_insert [of "live_states w f - {m}" n] int_card_remove [of "live_states w f" m] fin True born
        by simp
    next
      case False
      then have b0: "born w new f = 0" by (auto simp: born_def split: option.splits if_splits)
      have "live_states w' f = live_states w f - {m}"
      proof (intro set_eqI iffI)
        fix x assume "x \<in> live_states w' f"
        then obtain s where "open_files w x = Some s" "of_file s = f" "0 < uses s + d x" unfolding live by blast
        then show "x \<in> live_states w f - {m}"
          using m nm b0 f pos [of x] by (auto simp: d_def live_states_def born_def open_file_def file_of_def split: if_splits)
      next
        fix x assume "x \<in> live_states w f - {m}"
        then show "x \<in> live_states w' f"
          unfolding live using m nm by (auto simp: d_def live_states_def)
      qed
      moreover have "m \<in> live_states w f" using m nm by (auto simp: live_states_def)
      ultimately show ?thesis
        using int_card_remove [of "live_states w f" m] fin True b0 by simp
    qed
  next
    case False
    have stay: "0 < uses s + d x" if "open_files w x = Some s" "of_file s = f" "0 < uses s" for x s
      using False that f gone [OF that(1)]
      by (auto simp: R(4) d_def open_file_def file_of_def split: option.splits if_splits)
    show ?thesis
    proof (cases "born w new f = 1")
      case born: True
      then obtain n sn where n: "new = Some n" "open_files w n = Some sn" "of_file sn = f" "uses sn = 0"
        using new by (auto simp: born_def open_file_def file_of_def split: option.splits if_splits)
      have nd: "get_entry w fd \<noteq> Some n" using gone [OF n(2)] n(4) by auto
      have "live_states w' f = insert n (live_states w f)"
      proof (intro set_eqI iffI)
        fix x assume "x \<in> live_states w' f"
        then obtain s where "open_files w x = Some s" "of_file s = f" "0 < uses s + d x" unfolding live by blast
        then show "x \<in> insert n (live_states w f)"
          using n by (auto simp: d_def live_states_def split: if_splits)
      next
        fix x assume "x \<in> insert n (live_states w f)"
        then show "x \<in> live_states w' f"
          unfolding live using n nd stay [of x] by (auto simp: d_def live_states_def)
      qed
      moreover have "n \<notin> live_states w f" using n by (auto simp: live_states_def)
      ultimately show ?thesis using fin False born by simp
    next
      case nb: False
      then have b0: "born w new f = 0" by (auto simp: born_def split: option.splits if_splits)
      have "live_states w' f = live_states w f"
      proof (intro set_eqI iffI)
        fix x assume "x \<in> live_states w' f"
        then obtain s where "open_files w x = Some s" "of_file s = f" "0 < uses s + d x" unfolding live by blast
        then show "x \<in> live_states w f"
          using b0 f pos [of x] by (auto simp: d_def live_states_def born_def open_file_def file_of_def split: if_splits)
      next
        fix x assume "x \<in> live_states w f"
        then show "x \<in> live_states w' f"
          unfolding live using stay [of x] by (auto simp: live_states_def)
      qed
      then show ?thesis using False b0 by simp
    qed
  qed
qed

lemma set_entry_handles:
  assumes inv: "table_inv w" and new: "\<forall>n. new = Some n \<longrightarrow> open_files w n \<noteq> None"
    and r: "set_entry fd new w = (w', ret)" and h: "handles_inv extra w"
  shows "handles_inv (\<lambda>f. extra f - born w new f + (if ret = Some f then 1 else 0)) w'"
proof -
  have old: "\<forall>n. get_entry w fd = Some n \<longrightarrow> open_files w n \<noteq> None"
    using table_inv_entry(1) [OF inv] by blast
  note R = set_entry_readings [OF r new old]
  have same: "is_data (fsys w') f = is_data (fsys w) f" for f
    by (simp add: R(3) readings split: option.splits)
  have "opened w' f = (if is_data (fsys w') f then int (card (live_states w' f)) else 0) +
      (extra f - born w new f + (if ret = Some f then 1 else 0))" for f
  proof (cases "is_data (fsys w) f")
    case True
    then show ?thesis
      using set_entry_live [OF inv new r True] h by (simp add: handles_inv_def same R(6))
  next
    case False
    then have "ret \<noteq> Some f" "born w new f = 0"
      by (auto simp: R(4) born_def split: option.splits if_splits)
    then show ?thesis using False h by (simp add: handles_inv_def same R(6))
  qed
  then show ?thesis by (simp add: handles_inv_def)
qed

section \<open>Creating and installing\<close>

lemma create_open_file_ok:
  assumes inv: "table_inv w" and h: "handles_inv extra w" and f: "files (fsys w) f \<noteq> None"
    and c: "create_open_file f fl w = (w', Inr n)"
  shows "table_inv w'" "handles_inv (\<lambda>g. extra g + (if g = f \<and> is_data (fsys w) f then 1 else 0)) w'"
    "fsys w' = fsys w" "table w' = table w" "n = next_oid w" "open_files w' n \<noteq> None"
    "uses (open_file w' n) = 0" "file_of w' n = f" "root_dir w' = root_dir w" "cwd w' = cwd w"
    "oflags (open_file w' n) = fl" "position (open_file w' n) = 0"
proof -
  have fresh: "open_files w (next_oid w) = None"
    using table_inv_state(1) [OF inv, of "next_oid w"] by fastforce
  have notin: "count_list (table w) (Some (next_oid w)) = 0"
    using inv fresh unfolding table_inv_def by (metis count_list_0_iff)
  have n: "n = next_oid w"
    and of: "open_files w' = (open_files w)(n \<mapsto> open_file w' n)" "uses (open_file w' n) = 0"
      "of_file (open_file w' n) = f" "oflags (open_file w' n) = fl" "position (open_file w' n) = 0"
    and rest: "fsys w' = fsys w" "table w' = table w" "next_oid w' = Suc (next_oid w)"
      "root_dir w' = root_dir w" "cwd w' = cwd w"
    and op: "opened w' g = opened w g + (if g = f \<and> is_data (fsys w) f then 1 else 0)" for g
    using c by (auto simp: create_open_file_def data_open_def Let_def open_file_def split: if_splits prod.splits)
  show "fsys w' = fsys w" "table w' = table w" "n = next_oid w" "uses (open_file w' n) = 0"
    "file_of w' n = f" "root_dir w' = root_dir w" "cwd w' = cwd w"
    "oflags (open_file w' n) = fl" "position (open_file w' n) = 0" "open_files w' n \<noteq> None"
    using n of rest by (simp_all add: file_of_def)
  have new: "open_files w' x = Some s \<longleftrightarrow> (if x = n then s = open_file w' n else open_files w x = Some s)" for x s
    by (subst of(1)) auto
  show "table_inv w'"
    unfolding table_inv_def
  proof (intro conjI allI impI)
    show "length (table w') \<le> WASMFS_FD_MAX" using inv by (simp add: rest table_inv_def)
    show "open_files w' x \<noteq> None" if "Some x \<in> set (table w')" for x
    proof -
      have "open_files w x \<noteq> None" using that inv by (simp add: rest table_inv_def)
      then show ?thesis by (subst of(1)) auto
    qed
    fix x s assume s: "open_files w' x = Some s"
    show "x < next_oid w'" "uses s = int (count_list (table w') (Some x))" "files (fsys w') (of_file s) \<noteq> None"
      using s table_inv_state [OF inv, of x s] notin f of(2,3) n
      by (auto simp: new rest split: if_splits)
  qed
  have "live_states w' g = live_states w g" for g
    using fresh of(2) n by (auto simp: live_states_def new split: if_splits)
  then show "handles_inv (\<lambda>g. extra g + (if g = f \<and> is_data (fsys w) f then 1 else 0)) w'"
    using h by (simp add: handles_inv_def op rest)
qed

lemma unat_fd: "i < WASMFS_FD_MAX \<Longrightarrow> unat (of_nat i :: u32) = i"
  by (simp add: WASMFS_FD_MAX_def unat_of_nat)

lemma free_fd_Some:
  assumes "free_fd w = Some i"
  shows "i < WASMFS_FD_MAX" "get_entry w (of_nat i) = None"
    "\<And>j. j < i \<Longrightarrow> get_entry w (of_nat j) \<noteq> None"
proof -
  obtain k where k: "k < WASMFS_FD_MAX" "[0..<WASMFS_FD_MAX] ! k = i" "get_entry w (of_nat i) = None"
    "\<forall>j<k. get_entry w (of_nat ([0..<WASMFS_FD_MAX] ! j)) \<noteq> None"
    using assms unfolding free_fd_def find_Some_iff by auto
  have ki: "k = i" using k(1,2) by simp
  show "i < WASMFS_FD_MAX" "get_entry w (of_nat i) = None" using k ki by auto
  show "get_entry w (of_nat j) \<noteq> None" if "j < i" for j
    using that k(1,4) ki by fastforce
qed

lemma add_entry_ok:
  assumes inv: "table_inv w" and n: "open_files w n \<noteq> None" and a: "add_entry n w = (w', r)"
  shows "table_inv w'" "r < 0 \<Longrightarrow> w' = w \<and> r = - EMFILE"
    "0 \<le> r \<Longrightarrow> set_entry (of_nat (nat r)) (Some n) w = (w', None) \<and> nat r < WASMFS_FD_MAX \<and>
       get_entry w (of_nat (nat r)) = None \<and> (\<forall>j<nat r. get_entry w (of_nat j) \<noteq> None)"
proof -
  consider (full) "free_fd w = None" "w' = w" "r = - EMFILE"
    | (ok) i where "free_fd w = Some i" "r = int i" "fst (set_entry (of_nat i) (Some n) w) = w'"
    using a by (auto simp: add_entry_def split: option.splits)
  then have "table_inv w' \<and> (r < 0 \<longrightarrow> w' = w \<and> r = - EMFILE) \<and>
    (0 \<le> r \<longrightarrow> set_entry (of_nat (nat r)) (Some n) w = (w', None) \<and> nat r < WASMFS_FD_MAX \<and>
       get_entry w (of_nat (nat r)) = None \<and> (\<forall>j<nat r. get_entry w (of_nat j) \<noteq> None))"
  proof cases
    case full
    then show ?thesis using inv by simp
  next
    case ok
    obtain ret where s: "set_entry (of_nat i) (Some n) w = (w', ret)"
      using ok(3) by (metis prod.collapse)
    note F = free_fd_Some [OF ok(1)]
    have new: "\<forall>m. Some n = Some m \<longrightarrow> open_files w m \<noteq> None" using n by simp
    have old: "\<forall>m. get_entry w (of_nat i) = Some m \<longrightarrow> open_files w m \<noteq> None" using F(2) by simp
    have "ret = None" using set_entry_readings(4) [OF s new old] F(2) by simp
    moreover have "table_inv w'"
      using set_entry_table_inv [OF inv _ new s] F(1) by (simp add: unat_fd)
    ultimately show ?thesis using s F ok(2) by simp
  qed
  then show "table_inv w'" "r < 0 \<Longrightarrow> w' = w \<and> r = - EMFILE"
    "0 \<le> r \<Longrightarrow> set_entry (of_nat (nat r)) (Some n) w = (w', None) \<and> nat r < WASMFS_FD_MAX \<and>
       get_entry w (of_nat (nat r)) = None \<and> (\<forall>j<nat r. get_entry w (of_nat j) \<noteq> None)"
    by blast+
qed

section \<open>Detaching\<close>

text \<open>Emptying a slot leaves the other slots, and the files that they refer to, alone.\<close>

lemma get_entry_set:
  assumes "unat fd < length (table w)" "set_entry fd None w = (w', ret)" "table_inv w"
  shows "length (table w') = length (table w)"
    "\<And>x. get_entry w' x = (if x = fd then None else get_entry w x)"
    "\<And>x. open_files w x \<noteq> None \<Longrightarrow> file_of w' x = file_of w x"
    "\<And>f. get_backend (fsys w') f = get_backend (fsys w) f" "\<And>f. is_data (fsys w') f = is_data (fsys w) f"
    "\<And>x. open_files w' x = None \<longleftrightarrow> open_files w x = None"
proof -
  have old: "\<forall>n. get_entry w fd = Some n \<longrightarrow> open_files w n \<noteq> None"
    using table_inv_entry(1) [OF assms(3)] by blast
  note R = set_entry_readings [OF assms(2) _ old, simplified]
  have t: "table w' = (table w)[unat fd := None]" using assms(1) by (simp add: R(1))
  then show "length (table w') = length (table w)" by simp
  show "get_entry w' x = (if x = fd then None else get_entry w x)" for x
    using assms(1) by (auto simp: t get_entry_def nth_list_update word_unat_eq_iff)
  show "file_of w' x = file_of w x" if "open_files w x \<noteq> None" for x
    using that by (auto simp: file_of_def open_file_def R(2))
  show "get_backend (fsys w') f = get_backend (fsys w) f" "is_data (fsys w') f = is_data (fsys w) f" for f
    by (simp_all add: R(3) readings split: option.splits)
  show "open_files w' x = None \<longleftrightarrow> open_files w x = None" for x by (simp add: R(2))
qed

lemma detach_fds_inv:
  assumes "table_inv w" "handles_inv extra w" "\<forall>i\<in>set is. i < length (table w)"
    "detach_fds P is w = (w', cs, n)"
  shows "table_inv w' \<and> handles_inv (\<lambda>f. extra f + int (count_list cs f)) w' \<and>
    length (table w') = length (table w) \<and> opened w' = opened w \<and> close_error w' = close_error w"
  using assms
proof (induction P "is" w arbitrary: extra w' cs n rule: detach_fds.induct)
  case (1 P w)
  then show ?case by simp
next
  case (2 P i "is" w)
  show ?case
  proof (cases "P w i")
    case False
    then show ?thesis using 2 by auto
  next
    case True
    obtain w1 c where s: "set_entry (of_nat i) None w = (w1, c)" by fastforce
    obtain w2 cs2 n2 where d: "detach_fds P is w1 = (w2, cs2, n2)" by (metis prod_cases3)
    have i: "i < length (table w)" "i < WASMFS_FD_MAX"
      using "2.prems"(1,3) by (auto simp: table_inv_def)
    have none: "\<forall>n. None = Some n \<longrightarrow> open_files w n \<noteq> None" by simp
    have old: "\<forall>n. get_entry w (of_nat i) = Some n \<longrightarrow> open_files w n \<noteq> None"
      using table_inv_entry(1) [OF "2.prems"(1)] by blast
    note R = set_entry_readings [OF s none old]
    have t1: "table_inv w1"
      using set_entry_table_inv [OF "2.prems"(1) _ none s] i by (simp add: unat_fd)
    have len: "length (table w1) = length (table w)"
      using i by (simp add: R(1) unat_fd)
    have h1: "handles_inv (\<lambda>f. extra f + (if c = Some f then 1 else 0)) w1"
      using set_entry_handles [OF "2.prems"(1) none s "2.prems"(2)] by (simp add: born_def)
    have r: "w' = w2" "cs = (case c of None \<Rightarrow> cs2 | Some f \<Rightarrow> f # cs2)"
      using "2.prems"(4) True s d by (auto split: option.splits)
    have ih: "table_inv w2 \<and> handles_inv (\<lambda>f. extra f + (if c = Some f then 1 else 0) + int (count_list cs2 f)) w2 \<and>
      length (table w2) = length (table w1) \<and> opened w2 = opened w1 \<and> close_error w2 = close_error w1"
      using "2.IH"(2) [OF _ _ _ t1 h1 _ d] True s "2.prems"(3) len by auto
    have eq: "(\<lambda>f. extra f + (if c = Some f then 1 else 0) + int (count_list cs2 f)) =
        (\<lambda>f. extra f + int (count_list cs f))"
      by (rule ext) (simp add: r(2) split: option.splits)
    show ?thesis using ih len unfolding eq by (simp add: r(1) R(6,9))
  qed
qed

text \<open>Which slots a detach empties, and which it leaves.\<close>

definition stable :: "(wasmfs \<Rightarrow> nat \<Rightarrow> bool) \<Rightarrow> bool" where
  "stable P \<longleftrightarrow> (\<forall>w w1 c i j. table_inv w \<longrightarrow> i < length (table w) \<longrightarrow> j < length (table w) \<longrightarrow> j \<noteq> i \<longrightarrow>
     set_entry (of_nat i) None w = (w1, c) \<longrightarrow> P w1 j = P w j)"

lemma of_nat_fd_eq:
  "i < WASMFS_FD_MAX \<Longrightarrow> j < WASMFS_FD_MAX \<Longrightarrow> (of_nat i :: u32) = of_nat j \<longleftrightarrow> i = j"
  using unat_fd [of i] unat_fd [of j] by metis

lemma stable_true: "stable (\<lambda>_ _. True)"
  by (simp add: stable_def)

lemma stable_belongs: "stable (belongs b)"
  unfolding stable_def
proof (intro allI impI)
  fix w w1 c i j
  assume a: "table_inv w" "i < length (table w)" "j < length (table w)" "j \<noteq> i"
    "set_entry (of_nat i) None w = (w1, c)"
  have lt: "i < WASMFS_FD_MAX" "j < WASMFS_FD_MAX" using a(1-3) by (auto simp: table_inv_def)
  have "unat (of_nat i :: u32) < length (table w)" using a(2) lt by (simp add: unat_fd)
  note G = get_entry_set [OF this a(5,1)]
  have e: "get_entry w1 (of_nat j) = get_entry w (of_nat j)"
    using G(2) of_nat_fd_eq [OF lt(2,1)] a(4) by simp
  then show "belongs b w1 j = belongs b w j"
    using G(3,4) table_inv_entry(1) [OF a(1)] by (auto simp: belongs_def split: option.splits)
qed

lemma detach_fds_slots:
  assumes "stable P" "table_inv w" "distinct is" "\<forall>i\<in>set is. i < length (table w)"
    "detach_fds P is w = (w', cs, n)"
  shows "(\<forall>j<length (table w). get_entry w' (of_nat j) = (if j \<in> set is \<and> P w j then None else get_entry w (of_nat j))) \<and>
    n = length (filter (P w) is)"
  using assms
proof (induction P "is" w arbitrary: w' cs n rule: detach_fds.induct)
  case (1 P w)
  then show ?case by simp
next
  case (2 P i "is" w)
  show ?case
  proof (cases "P w i")
    case False
    then show ?thesis using 2 by (auto split: if_splits)
  next
    case True
    obtain w1 c where s: "set_entry (of_nat i) None w = (w1, c)" by fastforce
    obtain w2 cs2 n2 where d: "detach_fds P is w1 = (w2, cs2, n2)" by (metis prod_cases3)
    have i: "i < length (table w)" "i < WASMFS_FD_MAX"
      using "2.prems"(2,4) by (auto simp: table_inv_def)
    have "unat (of_nat i :: u32) < length (table w)" using i by (simp add: unat_fd)
    note G = get_entry_set [OF this s "2.prems"(2)]
    have t1: "table_inv w1"
      using set_entry_table_inv [OF "2.prems"(2) _ _ s] i by (simp add: unat_fd)
    have P1: "P w1 j = P w j" if "j < length (table w)" "j \<noteq> i" for j
      using "2.prems"(1,2) i(1) that s unfolding stable_def by blast
    have r: "w' = w2" "n = Suc n2"
      using "2.prems"(5) True s d by (auto split: option.splits)
    have ih: "(\<forall>j<length (table w1). get_entry w2 (of_nat j) = (if j \<in> set is \<and> P w1 j then None else get_entry w1 (of_nat j))) \<and>
      n2 = length (filter (P w1) is)"
      using "2.IH"(2) [OF _ _ _ "2.prems"(1) t1 _ _ d] True s "2.prems"(3,4) G(1) by auto
    have ni: "i \<notin> set is" using "2.prems"(3) by simp
    have fil: "filter (P w1) is = filter (P w) is"
      using P1 "2.prems"(4) ni by (intro filter_cong) auto
    have "get_entry w' (of_nat j) = (if j \<in> set (i # is) \<and> P w j then None else get_entry w (of_nat j))"
      if j: "j < length (table w)" for j
    proof -
      have jm: "j < WASMFS_FD_MAX" using j "2.prems"(2) by (simp add: table_inv_def)
      show ?thesis
        using ih j P1 [OF j] G(1) G(2) [of "of_nat j"] of_nat_fd_eq [OF jm i(2)] True ni
        by (cases "j = i") (auto simp: r(1))
    qed
    then show ?thesis using ih fil True by (simp add: r(2))
  qed
qed

text \<open>
  Detaching the whole table returns every data file exactly as often as it has been
  opened and not closed: closing the returned files, as the terminal drain does, leaves no handle
  of any backend open, and descriptors duplicated from one \<open>open\<close> are closed once.
\<close>

theorem detach_all_closes_every_handle:
  assumes "table_inv w" "handles_inv (\<lambda>_. 0) w" "detach_all w = (w', closees)"
  shows "(\<forall>fd. get_entry w' fd = None) \<and> table_inv w' \<and> (\<forall>f. int (count_list closees f) = opened w' f)"
proof -
  obtain n where d: "detach_fds (\<lambda>_ _. True) [0..<length (table w)] w = (w', closees, n)"
    using assms(3) by (auto simp: detach_all_def split: prod.splits)
  have I: "table_inv w' \<and> handles_inv (\<lambda>f. 0 + int (count_list closees f)) w' \<and>
    length (table w') = length (table w) \<and> opened w' = opened w \<and> close_error w' = close_error w"
    by (rule detach_fds_inv [OF assms(1,2) _ d]) simp
  have S: "\<forall>j<length (table w). get_entry w' (of_nat j) = None"
    using detach_fds_slots [OF stable_true assms(1) _ _ d] by simp
  have none: "get_entry w' fd = None" for fd
  proof (cases "unat fd < length (table w)")
    case True
    then have "get_entry w' (of_nat (unat fd)) = None" using S by blast
    then show ?thesis by simp
  next
    case False
    then show ?thesis using I by (simp add: get_entry_def)
  qed
  have "Some m \<notin> set (table w')" for m
  proof
    assume "Some m \<in> set (table w')"
    then obtain j where j: "j < length (table w')" "table w' ! j = Some m" by (metis in_set_conv_nth)
    then have "unat (of_nat j :: u32) = j" using I by (intro unat_fd) (auto simp: table_inv_def)
    then show False using none [of "of_nat j"] j by (simp add: get_entry_def)
  qed
  then have "count_list (table w') (Some m) = 0" for m by (metis count_list_0_iff)
  then have live: "live_states w' f = {}" for f
    using I table_inv_state(2) [of w'] by (fastforce simp: live_states_def)
  have H: "handles_inv (\<lambda>f. 0 + int (count_list closees f)) w'" using I by blast
  have "int (count_list closees f) = opened w' f" for f
    using H live by (simp add: handles_inv_def)
  then show ?thesis using I none by blast
qed

text \<open>
  Detaching one backend empties exactly the slots whose file belongs to it, counts
  them, and leaves every other descriptor as it was.
\<close>

theorem detach_backend_exact:
  assumes "table_inv w" "detach_backend b w = (w', closees, n)"
  shows "table_inv w' \<and> n = card {j. j < length (table w) \<and> belongs b w j} \<and>
    (\<forall>j<length (table w). get_entry w' (of_nat j) = (if belongs b w j then None else get_entry w (of_nat j)))"
proof -
  have d: "detach_fds (belongs b) [0..<length (table w)] w = (w', closees, n)"
    using assms(2) by (simp add: detach_backend_def)
  define extra where "extra f = opened w f - (if is_data (fsys w) f then int (card (live_states w f)) else 0)" for f
  have h: "handles_inv extra w" by (simp add: handles_inv_def extra_def)
  have I: "table_inv w'" using detach_fds_inv [OF assms(1) h _ d] by simp
  have S: "(\<forall>j<length (table w). get_entry w' (of_nat j) =
      (if j \<in> set [0..<length (table w)] \<and> belongs b w j then None else get_entry w (of_nat j))) \<and>
    n = length (filter (belongs b w) [0..<length (table w)])"
    by (rule detach_fds_slots [OF stable_belongs assms(1) _ _ d]) simp_all
  have "length (filter (belongs b w) [0..<length (table w)]) = card {j. j < length (table w) \<and> belongs b w j}"
    by (simp flip: distinct_card [OF distinct_filter [OF distinct_upt]] add: set_filter)
  then show ?thesis using I S by simp
qed

section \<open>The initial state\<close>

text \<open>The initial state written out.\<close>

definition init_fs :: fs where
  "init_fs = fst (init_root_directory 1 (special_files empty_fs))"

lemmas node_operations = init_root_directory_def special_files_def special_file_def empty_fs_def create_node_def
  create_directory_def insert_directory_def insert_created_def set_parent_def update_def get_parent_def
  memory_insert_child_def cache_child_def maintains_file_identity_def set_entries_def set_dcache_def
  entries_def mounts_def get_backend_def update_mtime_def mount_child_def dcache_insert_def new_node_def Let_def

definition init_nodes :: "node list" where
  "init_nodes =
     map (\<lambda>(c, m, b, p, ms).
            \<lparr>content = c, fmode = m, backend = b, parent_of = Some p, dcache = ms, record_locks = [],
             atime = 0, mtime = 0, ctime = 0\<rparr>)
       [(Device Null_file, 0x21B6, 0, 7, []), (Device Stdin_file, 0x2124, 0, 7, []),
        (Device (Stdout_file []), 0x2092, 0, 7, []), (Device (Stderr_file []), 0x2092, 0, 7, []),
        (Device Random_file, 0x2124, 0, 7, []), (Device Random_file, 0x2124, 0, 7, []),
        (Dir [(''dev'', 7), (''tmp'', 8)], 0x41FF, 1, 6, []),
        (Dir [], 0x416D, 1, 6,
           [(''null'', Mount, 0), (''random'', Mount, 4), (''stderr'', Mount, 3), (''stdin'', Mount, 1),
            (''stdout'', Mount, 2), (''urandom'', Mount, 5)]),
        (Dir [], 0x41FF, 1, 6, [])]"

lemma init_fs_eq:
  "init_fs = \<lparr>files = (\<lambda>f. if f < 9 then Some (init_nodes ! f) else None), next_fid = 9, now = 0,
     stdin_chars = [], entropy = (\<lambda>_. 0), drawn = 0, console = [],
     pipes = (\<lambda>_. []), next_pipe = 0\<rparr>"
  by (simp add: init_fs_def node_operations init_nodes_def fun_eq_iff less_Suc_eq eval_nat_numeral S_IFCHR_def S_IFDIR_def)

lemma init_root: "snd (init_root_directory 1 (special_files empty_fs)) = 6"
  by (simp add: init_fs_def node_operations)

lemma below_9: "(f::nat) < 9 \<longleftrightarrow> f = 0 \<or> f = 1 \<or> f = 2 \<or> f = 3 \<or> f = 4 \<or> f = 5 \<or> f = 6 \<or> f = 7 \<or> f = 8"
  by auto

lemma init_observed:
  "next_fid init_fs = 9"
  "get_parent init_fs f = (if f = 6 \<or> f = 7 \<or> f = 8 then Some 6 else if f < 6 then Some 7 else None)"
  "is_dir init_fs f \<longleftrightarrow> f = 6 \<or> f = 7 \<or> f = 8"
  "is_data init_fs f \<longleftrightarrow> f < 6"
  "entries init_fs f = (if f = 6 then [(''dev'', 7), (''tmp'', 8)] else [])"
  "mounts init_fs f = (if f = 7 then
     [(''null'', Mount, 0), (''random'', Mount, 4), (''stderr'', Mount, 3), (''stdin'', Mount, 1),
      (''stdout'', Mount, 2), (''urandom'', Mount, 5)] else [])"
  "files init_fs f = None \<longleftrightarrow> 9 \<le> f"
  "get_backend init_fs f = (if f = 6 \<or> f = 7 \<or> f = 8 then 1 else 0)"
  "link_target init_fs f = None"
  by (cases "f < 9"; auto simp: init_fs_eq observers init_nodes_def below_9)+

lemma tree_init: "tree 6 init_fs"
proof (rule treeI)
  show "wf (child_rel 6 init_fs)"
  proof (rule wf_subset)
    show "wf (inv_image less_than (\<lambda>f. if f = 6 then 0 else if f < 6 then 2 else 1 :: nat))" by simp
    show "child_rel 6 init_fs \<subseteq> inv_image less_than (\<lambda>f. if f = 6 then 0 else if f < 6 then 2 else 1 :: nat)"
      by (auto simp: child_rel_def init_observed split: if_splits)
  qed
qed (auto simp: init_observed all_children_def all_names_def is_mount_def split: if_splits)

lemma create_open_data:
  assumes "is_data (fsys w) f" "open_error w f = 0" "\<not> is_dir (fsys w) f"
  shows "create_open_file f fl w =
    (w\<lparr>opened := (opened w)(f := opened w f + 1),
       open_files := (open_files w)(next_oid w \<mapsto>
         \<lparr>of_file = f, position = 0, oflags = fl, uses = 0, dirents = []\<rparr>),
       next_oid := Suc (next_oid w)\<rparr>, Inr (next_oid w))"
  using assms by (simp add: create_open_file_def data_open_def backend_answer_def Let_def)

lemma set_entry_append:
  assumes "unat fd = length (table w)"
  shows "set_entry fd (Some n) w =
    (w\<lparr>open_files := (open_files w)(n := map_option (\<lambda>s. s\<lparr>uses := uses s + 1\<rparr>) (open_files w n)),
       table := table w @ [Some n]\<rparr>, None)"
  using assms by (simp add: set_entry_def add_use_def on_open_file_def nth_append list_update_append)

lemma init_wasmfs_literal:
  "init_wasmfs =
     \<lparr>fsys = init_fs,
      open_files = [0 \<mapsto> \<lparr>of_file = 1, position = 0, oflags = O_RDONLY, uses = 1, dirents = []\<rparr>,
        1 \<mapsto> \<lparr>of_file = 2, position = 0, oflags = O_WRONLY, uses = 1, dirents = []\<rparr>,
        2 \<mapsto> \<lparr>of_file = 3, position = 0, oflags = O_WRONLY, uses = 1, dirents = []\<rparr>],
      next_oid = 3, table = [Some 0, Some 1, Some 2], root_dir = 6, cwd = 6,
      opened = (\<lambda>_. 0)(1 := 1, 2 := 1, 3 := 1),
      open_error = (\<lambda>_. 0), close_error = (\<lambda>_. 0), flush_error = (\<lambda>_. 0), admission = (\<lambda>_. 0)\<rparr>"
proof -
  have s: "init_root_directory 1 (special_files empty_fs) = (init_fs, 6)"
    using init_root by (metis init_fs_def prod.collapse)
  define w0 where "w0 = \<lparr>fsys = init_fs, open_files = (\<lambda>_. None), next_oid = 0, table = [], root_dir = 6, cwd = 6,
      opened = (\<lambda>_. 0), open_error = (\<lambda>_. 0), close_error = (\<lambda>_. 0), flush_error = (\<lambda>_. 0),
      admission = (\<lambda>_. 0)\<rparr>"
  define w3 where "w3 = fst (create_open_file 3 O_WRONLY (fst (create_open_file 2 O_WRONLY (fst (create_open_file 1 O_RDONLY w0)))))"
  have w3: "w3 = w0\<lparr>opened := (\<lambda>_. 0)(1 := 1, 2 := 1, 3 := 1),
      open_files := [0 \<mapsto> \<lparr>of_file = 1, position = 0, oflags = O_RDONLY, uses = 0, dirents = []\<rparr>,
        1 \<mapsto> \<lparr>of_file = 2, position = 0, oflags = O_WRONLY, uses = 0, dirents = []\<rparr>,
        2 \<mapsto> \<lparr>of_file = 3, position = 0, oflags = O_WRONLY, uses = 0, dirents = []\<rparr>], next_oid := 3\<rparr>"
    by (simp add: w3_def create_open_data w0_def init_observed numeral_2_eq_2 numeral_3_eq_3)
  have "init_wasmfs = fst (set_entry 2 (Some 2) (fst (set_entry 1 (Some 1) (fst (set_entry 0 (Some 0) w3)))))"
    unfolding init_wasmfs_def s w3_def w0_def Let_def by simp
  then show ?thesis
    by (simp add: set_entry_append w3 w0_def fun_eq_iff)
qed

lemma init_wasmfs_eq:
  "fsys init_wasmfs = init_fs" "root_dir init_wasmfs = 6" "cwd init_wasmfs = 6" "next_oid init_wasmfs = 3"
  "table init_wasmfs = [Some 0, Some 1, Some 2]"
  "open_files init_wasmfs = [0 \<mapsto> \<lparr>of_file = 1, position = 0, oflags = O_RDONLY, uses = 1, dirents = []\<rparr>,
     1 \<mapsto> \<lparr>of_file = 2, position = 0, oflags = O_WRONLY, uses = 1, dirents = []\<rparr>,
     2 \<mapsto> \<lparr>of_file = 3, position = 0, oflags = O_WRONLY, uses = 1, dirents = []\<rparr>]"
  "opened init_wasmfs = (\<lambda>f. if f = 1 \<or> f = 2 \<or> f = 3 then 1 else 0)"
  "admission init_wasmfs = (\<lambda>_. 0)" "open_error init_wasmfs = (\<lambda>_. 0)" "close_error init_wasmfs = (\<lambda>_. 0)"
  by (simp_all add: init_wasmfs_literal fun_eq_iff)

lemma table_inv_init: "table_inv init_wasmfs"
  by (auto simp: table_inv_def init_wasmfs_eq WASMFS_FD_MAX_def init_observed split: if_splits)

lemma handles_inv_init: "handles_inv (\<lambda>_. 0) init_wasmfs"
proof -
  have "live_states init_wasmfs f = (if f = 1 then {0} else if f = 2 then {1} else if f = 3 then {2} else {})" for f
    by (auto simp: live_states_def init_wasmfs_eq split: if_splits)
  then show ?thesis by (auto simp: handles_inv_def init_wasmfs_eq init_observed)
qed

theorem detach_all_closes_every_handle_witness:
  "int (count_list (snd (detach_all init_wasmfs)) 2) = opened (fst (detach_all init_wasmfs)) 2"
  using detach_all_closes_every_handle [OF table_inv_init handles_inv_init prod.collapse [symmetric]] by blast

theorem detach_backend_exact_witness:
  "map (\<lambda>j. get_entry (fst (detach_backend NullBackend init_wasmfs)) (of_nat j)) [0, 1, 2] = [None, None, None]"
proof -
  let ?d = "detach_backend NullBackend init_wasmfs"
  have b: "belongs NullBackend init_wasmfs j" if "j < 3" for j
    using that by (auto simp: belongs_def get_entry_def init_wasmfs_eq file_of_def open_file_def init_observed
        numeral_3_eq_3 less_Suc_eq)
  have "\<forall>j<length (table init_wasmfs). get_entry (fst ?d) (of_nat j)
      = (if belongs NullBackend init_wasmfs j then None else get_entry init_wasmfs (of_nat j))"
    using detach_backend_exact [OF table_inv_init, of NullBackend "fst ?d" "fst (snd ?d)" "snd (snd ?d)"] by simp
  moreover have "length (table init_wasmfs) = 3" by (simp add: init_wasmfs_eq)
  ultimately have none: "get_entry (fst ?d) (of_nat j) = None" if "j < 3" for j using b that by simp
  show ?thesis using none [of 0] none [of 1] none [of 2] by simp
qed

end
