(* ===== verification/Wasmfs_Paths.thy ===== *)
theory Wasmfs_Paths
  imports Wasmfs_Table
begin

text \<open>
  Pathname resolution: \<open>system/lib/wasmfs/paths.cpp\<close>. A lookup does not change the tree
  (\<open>get_child_state\<close>), so the parser reads the state. The nesting of symbolic links is bounded by the
  counter of the code; the parser has a fuel argument, and enough fuel is shown to give a result on
  every path and every state.
\<close>

section \<open>The parser\<close>

definition MAX_RECURSIONS :: nat where "MAX_RECURSIONS = 40"

text \<open>A parsed file with the counter after it; \<open>None\<close> when the fuel has run out.\<close>

type_synonym 'a parsed = "((int + 'a) \<times> nat) option"

text \<open>The recursive call on a link's target, from a directory.\<close>

type_synonym parse_link = "string \<Rightarrow> fid \<Rightarrow> nat \<Rightarrow> fid parsed"

text \<open>The loop over a chain of links of \<open>getChild\<close>.\<close>

fun follow_links :: "wasmfs \<Rightarrow> parse_link \<Rightarrow> nat \<Rightarrow> fid \<Rightarrow> fid \<Rightarrow> nat \<Rightarrow> fid parsed" where
  "follow_links w pf 0 dir child rec = None"
| "follow_links w pf (Suc n) dir child rec =
     (case link_target (fsys w) child of
        None \<Rightarrow> Some (Inr child, rec)
      | Some target \<Rightarrow>
          let rec1 = Suc rec
          in if MAX_RECURSIONS < rec1 then Some (Inl (- ELOOP), rec1)
             else if target = [] then Some (Inl (- ENOENT), rec1)
             else
               (case pf target dir rec1 of
                  None \<Rightarrow> None
                | Some (Inl err, rec2) \<Rightarrow> Some (Inl err, rec2)
                | Some (Inr child', rec2) \<Rightarrow> follow_links w pf n dir child' rec2))"

definition path_child :: "wasmfs \<Rightarrow> parse_link \<Rightarrow> nat \<Rightarrow> fid \<Rightarrow> string \<Rightarrow> bool \<Rightarrow> nat \<Rightarrow> fid parsed" where
  "path_child w pf n dir name follow rec =
     (let err = admit_file w dir
      in if err \<noteq> 0 then Some (Inl err, rec)
         else
           (case lookup (fsys w) dir name of
              None \<Rightarrow> Some (Inl (- ENOENT), rec)
            | Some child \<Rightarrow>
                let err = admit_file w child
                in if err \<noteq> 0 then Some (Inl err, rec)
                   else if follow then follow_links w pf n dir child rec
                   else Some (Inr child, rec)))"

definition remove_trailing :: "string \<Rightarrow> string" where
  "remove_trailing path = rev (dropWhile (\<lambda>c. c = CHR ''/'') (rev path))"

definition is_sep :: "char \<Rightarrow> bool" where
  "is_sep c \<longleftrightarrow> c = CHR ''/''"

text \<open>The loop over the segments: the directory reached and the name of the leaf.\<close>

function parse_segments ::
  "wasmfs \<Rightarrow> parse_link \<Rightarrow> nat \<Rightarrow> string \<Rightarrow> fid \<Rightarrow> nat \<Rightarrow> (fid \<times> string) parsed" where
  "parse_segments w pf n path0 dir0 rec =
     (let path = dropWhile is_sep path0
      in if \<not> list_ex is_sep path then
           (let err = admit_file w dir0
            in if err \<noteq> 0 then Some (Inl err, rec) else Some (Inr (dir0, path), rec))
         else
           let segment = takeWhile (\<lambda>c. \<not> is_sep c) path
           in (case path_child w pf n dir0 segment True rec of
                 None \<Rightarrow> None
               | Some (Inl err, rec1) \<Rightarrow> Some (Inl err, rec1)
               | Some (Inr child, rec1) \<Rightarrow>
                   if \<not> is_dir (fsys w) child then Some (Inl (- ENOTDIR), rec1)
                   else parse_segments w pf n (dropWhile (\<lambda>c. \<not> is_sep c) path) child rec1))"
  by pat_completeness auto

lemma dropWhile_shorter:
  assumes "list_ex P (dropWhile P xs)"
  shows "length (dropWhile (\<lambda>c. \<not> P c) (dropWhile P xs)) < length xs"
proof -
  have ne: "dropWhile P xs \<noteq> []" using assms by (cases "dropWhile P xs") simp_all
  then obtain y ys where y: "dropWhile P xs = y # ys" by (cases "dropWhile P xs") auto
  then have "\<not> P y" by (metis hd_dropWhile list.sel(1) ne)
  then have "length (dropWhile (\<lambda>c. \<not> P c) (dropWhile P xs)) \<le> length ys"
    by (simp add: y length_dropWhile_le)
  also have "length ys < length xs" using length_dropWhile_le [of P xs] y by simp
  finally show ?thesis .
qed

termination parse_segments
  by (relation "measure (\<lambda>(w, pf, n, path, dir0, rec). length path)")
     (auto simp: dropWhile_shorter)

declare parse_segments.simps [simp del]

definition do_parse_parent ::
  "wasmfs \<Rightarrow> parse_link \<Rightarrow> nat \<Rightarrow> string \<Rightarrow> fid \<Rightarrow> nat \<Rightarrow> (fid \<times> string) parsed" where
  "do_parse_parent w pf n path base rec =
     (if path = [] then Some (Inl (- ENOENT), rec)
      else
        let absolute = is_sep (hd path);
            dir0 = (if absolute then root_dir w else base);
            err = (if absolute then admit_file w dir0 else 0)
        in if err \<noteq> 0 then Some (Inl err, rec)
           else
             let rest = remove_trailing (if absolute then tl path else path)
             in if rest = [] then Some (Inr (dir0, ''.''), rec)
                else parse_segments w pf n rest dir0 rec)"

fun do_parse_file :: "wasmfs \<Rightarrow> nat \<Rightarrow> bool \<Rightarrow> string \<Rightarrow> fid \<Rightarrow> nat \<Rightarrow> fid parsed" where
  "do_parse_file w 0 follow path base rec = None"
| "do_parse_file w (Suc n) follow path base rec =
     (case do_parse_parent w (do_parse_file w n True) (Suc n) path base rec of
        None \<Rightarrow> None
      | Some (Inl err, rec1) \<Rightarrow> Some (Inl err, rec1)
      | Some (Inr (dir, name), rec1) \<Rightarrow> path_child w (do_parse_file w n True) (Suc n) dir name follow rec1)"

text \<open>The fuel that is always enough.\<close>

definition path_fuel :: nat where "path_fuel = Suc (Suc MAX_RECURSIONS)"

section \<open>Entry points\<close>

definition AT_FDCWD :: u32 where "AT_FDCWD = word_of_int (- 100)"
definition AT_SYMLINK_NOFOLLOW :: u32 where "AT_SYMLINK_NOFOLLOW = 0x100"
definition AT_REMOVEDIR :: u32 where "AT_REMOVEDIR = 0x200"
definition AT_NO_AUTOMOUNT :: u32 where "AT_NO_AUTOMOUNT = 0x800"
definition AT_EMPTY_PATH :: u32 where "AT_EMPTY_PATH = 0x1000"

definition get_base_dir :: "wasmfs \<Rightarrow> u32 \<Rightarrow> int + fid" where
  "get_base_dir w basefd =
     (if basefd = AT_FDCWD then
        (let err = admit_file w (cwd w) in if err \<noteq> 0 then Inl err else Inr (cwd w))
      else
        (case get_entry w basefd of
           None \<Rightarrow> Inl (- EBADF)
         | Some o' \<Rightarrow>
             let f = file_of w o'; err = admit_file w f
             in if err \<noteq> 0 then Inl err
                else if is_dir (fsys w) f then Inr f
                else Inl (- ENOTDIR)))"

definition starting_dir :: "wasmfs \<Rightarrow> string \<Rightarrow> u32 \<Rightarrow> int + fid" where
  "starting_dir w path basefd =
     (if path \<noteq> [] \<and> is_sep (hd path) then
        (let err = admit_file w (root_dir w) in if err \<noteq> 0 then Inl err else Inr (root_dir w))
      else get_base_dir w basefd)"

text \<open>The result of a parse with enough fuel.\<close>

definition parsed_result :: "'a parsed \<Rightarrow> int + 'a" where
  "parsed_result p = fst (the p)"

definition parse_parent :: "wasmfs \<Rightarrow> string \<Rightarrow> u32 \<Rightarrow> int + fid \<times> string" where
  "parse_parent w path basefd =
     (case starting_dir w path basefd of
        Inl err \<Rightarrow> Inl err
      | Inr base \<Rightarrow> parsed_result (do_parse_parent w (do_parse_file w path_fuel True) (Suc path_fuel) path base 0))"

definition parse_file :: "wasmfs \<Rightarrow> string \<Rightarrow> u32 \<Rightarrow> bool \<Rightarrow> int + fid" where
  "parse_file w path basefd follow =
     (case starting_dir w path basefd of
        Inl err \<Rightarrow> Inl err
      | Inr base \<Rightarrow> parsed_result (do_parse_file w (Suc path_fuel) follow path base 0))"

definition get_file_at :: "wasmfs \<Rightarrow> u32 \<Rightarrow> string \<Rightarrow> u32 \<Rightarrow> int + fid" where
  "get_file_at w fd path flags =
     (if flags AND AT_EMPTY_PATH \<noteq> 0 \<and> path = [] then
        if fd = AT_FDCWD then
          (let err = admit_file w (cwd w) in if err \<noteq> 0 then Inl err else Inr (cwd w))
        else
          (case get_entry w fd of
             None \<Rightarrow> Inl (- EBADF)
           | Some o' \<Rightarrow>
               let f = file_of w o'; err = admit_file w f in if err \<noteq> 0 then Inl err else Inr f)
      else parse_file w path fd (flags AND AT_SYMLINK_NOFOLLOW = 0))"

definition get_file_from :: "wasmfs \<Rightarrow> fid \<Rightarrow> string \<Rightarrow> int + fid" where
  "get_file_from w base path =
     (let err = admit_file w base
      in if err \<noteq> 0 then Inl err
         else parsed_result (do_parse_file w (Suc path_fuel) True path base 0))"


section \<open>Resolution ends\<close>

text \<open>What holds of the recursive call when it has fuel for the links that may still be followed.\<close>

definition ends :: "wasmfs \<Rightarrow> nat \<Rightarrow> parse_link \<Rightarrow> bool" where
  "ends w m pf \<longleftrightarrow>
     (\<forall>path base rec. MAX_RECURSIONS < m + rec \<longrightarrow> rec \<le> MAX_RECURSIONS \<longrightarrow>
        (\<exists>r rec'. pf path base rec = Some (r, rec') \<and> rec \<le> rec' \<and>
           (\<forall>c. r = Inr c \<longrightarrow> link_target (fsys w) c = None)))"

lemma follow_links_ends:
  assumes pf: "ends w m pf" and fuel: "MAX_RECURSIONS < Suc m + rec"
  shows "\<exists>r rec'. follow_links w pf (Suc m) dir child rec = Some (r, rec') \<and> rec \<le> rec' \<and>
    (\<forall>c. r = Inr c \<longrightarrow> link_target (fsys w) c = None)"
proof (cases "link_target (fsys w) child")
  case None
  then show ?thesis by simp
next
  case (Some target)
  show ?thesis
  proof (cases "MAX_RECURSIONS < Suc rec \<or> target = []")
    case True
    then show ?thesis using Some by (auto simp: Let_def)
  next
    case False
    then have m: "m \<noteq> 0" using fuel by auto
    then obtain m' where m': "m = Suc m'" by (cases m) auto
    obtain r rec' where r: "pf target dir (Suc rec) = Some (r, rec')" "Suc rec \<le> rec'"
      "\<forall>c. r = Inr c \<longrightarrow> link_target (fsys w) c = None"
      using pf fuel False unfolding ends_def by (metis add_Suc_right add_Suc not_less)
    show ?thesis
    proof (cases r)
      case (Inl err)
      then show ?thesis using Some False r by (simp add: Let_def)
    next
      case (Inr c)
      then show ?thesis using Some False r m' by (simp add: Let_def)
    qed
  qed
qed

lemma path_child_ends:
  assumes "ends w m pf" "MAX_RECURSIONS < Suc m + rec"
  shows "\<exists>r rec'. path_child w pf (Suc m) dir name follow rec = Some (r, rec') \<and> rec \<le> rec' \<and>
    (follow \<longrightarrow> (\<forall>c. r = Inr c \<longrightarrow> link_target (fsys w) c = None))"
  using follow_links_ends [OF assms]
  by (auto simp: path_child_def Let_def split: option.splits)

lemma parse_segments_ends:
  assumes "ends w m pf" "MAX_RECURSIONS < Suc m + rec"
  shows "\<exists>r rec'. parse_segments w pf (Suc m) path dir rec = Some (r, rec') \<and> rec \<le> rec'"
  using assms
proof (induction w pf "Suc m" path dir rec rule: parse_segments.induct)
  case (1 w pf path0 dir rec)
  define path where "path = dropWhile is_sep path0"
  show ?case
  proof (cases "list_ex is_sep path")
    case False
    then show ?thesis
      by (subst parse_segments.simps) (simp add: path_def Let_def)
  next
    case True
    obtain r rec' where r: "path_child w pf (Suc m) dir (takeWhile (\<lambda>c. \<not> is_sep c) path) True rec = Some (r, rec')"
      "rec \<le> rec'"
      using path_child_ends [OF "1.prems"] by blast
    show ?thesis
    proof (cases "\<exists>c. r = Inr c \<and> is_dir (fsys w) c")
      case False
      then show ?thesis
        using True r by (subst parse_segments.simps) (auto simp: path_def Let_def split: sum.splits)
    next
      case t: True
      then obtain c where c: "r = Inr c" "is_dir (fsys w) c" by blast
      have eq: "parse_segments w pf (Suc m) path0 dir rec =
          parse_segments w pf (Suc m) (dropWhile (\<lambda>c. \<not> is_sep c) path) c rec'"
        using True r c by (subst parse_segments.simps) (simp add: path_def Let_def)
      have fuel: "MAX_RECURSIONS < Suc m + rec'" using "1.prems"(2) r(2) by simp
      have "\<exists>r2 rec2. parse_segments w pf (Suc m) (dropWhile (\<lambda>c. \<not> is_sep c) path) c rec' = Some (r2, rec2) \<and> rec' \<le> rec2"
        using "1.hyps" [OF path_def _ refl _ refl _ _ "1.prems"(1) fuel] True r(1) c by auto
      then show ?thesis unfolding eq using r(2) by (meson le_trans)
    qed
  qed
qed

lemma do_parse_parent_ends:
  assumes "ends w m pf" "MAX_RECURSIONS < Suc m + rec"
  shows "\<exists>r rec'. do_parse_parent w pf (Suc m) path base rec = Some (r, rec') \<and> rec \<le> rec'"
  using parse_segments_ends [OF assms]
  by (auto simp: do_parse_parent_def Let_def)

lemma do_parse_file_step:
  assumes "ends w m (do_parse_file w m True)" "MAX_RECURSIONS < Suc m + rec"
  shows "\<exists>r rec'. do_parse_file w (Suc m) follow path base rec = Some (r, rec') \<and> rec \<le> rec' \<and>
    (follow \<longrightarrow> (\<forall>c. r = Inr c \<longrightarrow> link_target (fsys w) c = None))"
proof -
  obtain r rec' where r: "do_parse_parent w (do_parse_file w m True) (Suc m) path base rec = Some (r, rec')" "rec \<le> rec'"
    using do_parse_parent_ends [OF assms] by blast
  show ?thesis
  proof (cases r)
    case (Inl err)
    then show ?thesis using r by simp
  next
    case (Inr p)
    obtain dir name where p: "p = (dir, name)" by (cases p)
    have fuel: "MAX_RECURSIONS < Suc m + rec'" using assms(2) r(2) by simp
    obtain r2 rec2 where "path_child w (do_parse_file w m True) (Suc m) dir name follow rec' = Some (r2, rec2)"
      "rec' \<le> rec2" "follow \<longrightarrow> (\<forall>c. r2 = Inr c \<longrightarrow> link_target (fsys w) c = None)"
      using path_child_ends [OF assms(1) fuel] by blast
    then show ?thesis using r Inr p by (auto intro: le_trans)
  qed
qed

lemma do_parse_file_ends: "ends w m (do_parse_file w m True)"
proof (induction m)
  case 0
  then show ?case by (simp add: ends_def)
next
  case (Suc m)
  show ?case
    unfolding ends_def using do_parse_file_step [OF Suc, where follow = True] by simp
qed

text \<open>
  Claim C31. Resolving a path always ends, whatever the tree holds, cycles of symbolic links
  included: with the fuel of the model the parser gives a file or an error on every path, and a file that
  it gives while following links is never itself a link.
\<close>

theorem resolution_ends:
  "(\<exists>r rec. do_parse_file w (Suc path_fuel) follow path base 0 = Some (r, rec) \<and>
      \<not> (follow \<and> (\<exists>c. r = Inr c \<and> link_target (fsys w) c \<noteq> None))) \<and>
   (\<exists>r rec. do_parse_parent w (do_parse_file w path_fuel True) (Suc path_fuel) path base 0 = Some (r, rec))"
proof -
  have fuel: "MAX_RECURSIONS < Suc path_fuel + 0" by (simp add: path_fuel_def)
  obtain r rec where "do_parse_file w (Suc path_fuel) follow path base 0 = Some (r, rec)"
    "follow \<longrightarrow> (\<forall>c. r = Inr c \<longrightarrow> link_target (fsys w) c = None)"
    using do_parse_file_step [OF do_parse_file_ends fuel] by blast
  moreover have "\<exists>r rec. do_parse_parent w (do_parse_file w path_fuel True) (Suc path_fuel) path base 0 = Some (r, rec)"
    using do_parse_parent_ends [OF do_parse_file_ends fuel] by blast
  ultimately show ?thesis by blast
qed

section \<open>Paths without symbolic links\<close>

text \<open>The non-empty components of a path.\<close>

fun splits :: "string \<Rightarrow> string list" where
  "splits [] = [[]]"
| "splits (c # cs) =
     (if is_sep c then [] # splits cs else (case splits cs of [] \<Rightarrow> [[c]] | s # ss \<Rightarrow> (c # s) # ss))"

definition segments :: "string \<Rightarrow> string list" where
  "segments path = filter (\<lambda>s. s \<noteq> []) (splits path)"

text \<open>The reference resolution: descend by one component after the other.\<close>

fun walk :: "wasmfs \<Rightarrow> fid \<Rightarrow> string list \<Rightarrow> int + fid" where
  "walk w d [] = Inr d"
| "walk w d (n # ns) =
     (case lookup (fsys w) d n of
        None \<Rightarrow> Inl (- ENOENT)
      | Some c \<Rightarrow> if ns = [] then Inr c else if is_dir (fsys w) c then walk w c ns else Inl (- ENOTDIR))"

lemma splits_Cons: "splits p \<noteq> []"
  by (induction p) (auto split: list.splits)

lemma splits_eq:
  "splits p =
     (if list_ex is_sep p then takeWhile (\<lambda>c. \<not> is_sep c) p # splits (tl (dropWhile (\<lambda>c. \<not> is_sep c) p))
      else [p])"
  by (induction p) auto

lemma segments_sep: "is_sep c \<Longrightarrow> segments (c # p) = segments p"
  by (simp add: segments_def)

lemma segments_dropWhile: "segments (dropWhile is_sep p) = segments p"
  by (induction p) (simp_all add: segments_sep)

lemma splits_append_sep: "is_sep c \<Longrightarrow> splits (p @ [c]) = splits p @ [[]]"
  by (induction p) (auto split: list.splits simp: splits_Cons)

lemma segments_remove_trailing: "segments (remove_trailing p) = segments p"
proof (induction p rule: rev_induct)
  case (snoc c p)
  then show ?case
    by (cases "is_sep c") (simp_all add: remove_trailing_def is_sep_def segments_def splits_append_sep)
qed (simp add: remove_trailing_def)

lemma segments_first:
  assumes "p = dropWhile is_sep q" "p \<noteq> []"
  shows "segments p =
     (if list_ex is_sep p then takeWhile (\<lambda>c. \<not> is_sep c) p # segments (dropWhile (\<lambda>c. \<not> is_sep c) p) else [p])"
proof -
  have "\<not> is_sep (hd p)" using assms by (metis hd_dropWhile)
  then have ne: "takeWhile (\<lambda>c. \<not> is_sep c) p \<noteq> []" using assms(2) by (cases p) auto
  have tl: "segments (dropWhile (\<lambda>c. \<not> is_sep c) p) = segments (tl (dropWhile (\<lambda>c. \<not> is_sep c) p))"
    if "list_ex is_sep p"
  proof -
    have "dropWhile (\<lambda>c. \<not> is_sep c) p \<noteq> []" using that by (auto simp: list_ex_iff)
    then obtain c r where c: "dropWhile (\<lambda>c. \<not> is_sep c) p = c # r" by (cases "dropWhile (\<lambda>c. \<not> is_sep c) p") auto
    then have "is_sep c" by (metis (mono_tags, lifting) hd_dropWhile list.sel(1) list.distinct(1))
    then show ?thesis by (simp add: c segments_sep)
  qed
  show ?thesis
    using splits_eq [of p] ne assms(2) tl by (simp add: segments_def)
qed

fun walk_parent :: "wasmfs \<Rightarrow> fid \<Rightarrow> string list \<Rightarrow> int + fid \<times> string" where
  "walk_parent w d [] = Inr (d, [])"
| "walk_parent w d (n # ns) =
     (if ns = [] then Inr (d, n)
      else
        (case lookup (fsys w) d n of
           None \<Rightarrow> Inl (- ENOENT)
         | Some c \<Rightarrow> if is_dir (fsys w) c then walk_parent w c ns else Inl (- ENOTDIR)))"

lemma walk_via_parent:
  "ns \<noteq> [] \<Longrightarrow> walk w d ns =
     (case walk_parent w d ns of
        Inl err \<Rightarrow> Inl err
      | Inr (p, n) \<Rightarrow> (case lookup (fsys w) p n of None \<Rightarrow> Inl (- ENOENT) | Some c \<Rightarrow> Inr c))"
  by (induction ns arbitrary: d) (auto split: option.splits)

lemma path_child_plain:
  assumes "\<forall>f. link_target (fsys w) f = None" "\<forall>f. admit_file w f = 0"
  shows "path_child w pf (Suc n) d name follow rec =
    Some (case lookup (fsys w) d name of None \<Rightarrow> Inl (- ENOENT) | Some c \<Rightarrow> Inr c, rec)"
  using assms by (auto simp: path_child_def Let_def split: option.splits)

lemma parse_segments_plain:
  assumes "\<forall>f. link_target (fsys w) f = None" "\<forall>f. admit_file w f = 0"
    "path \<noteq> []" "\<not> is_sep (last path)"
  shows "parse_segments w pf (Suc n) path d rec = Some (walk_parent w d (segments path), rec)"
  using assms
proof (induction w pf "Suc n" path d rec rule: parse_segments.induct)
  case (1 w pf path0 d rec)
  define path where "path = dropWhile is_sep path0"
  have ne: "path \<noteq> []"
    using "1.prems"(3,4) unfolding path_def by (metis dropWhile_eq_Nil_conv last_in_set)
  have last: "last path = last path0" unfolding path_def
    using ne path_def by (metis dropWhile_append append_take_drop_id last_appendR dropWhile_eq_drop)
  have seg: "segments path0 = segments path" by (simp add: path_def segments_dropWhile)
  note first = segments_first [OF path_def ne]
  show ?case
  proof (cases "list_ex is_sep path")
    case False
    then show ?thesis
      using "1.prems"(2) first seg
      by (subst parse_segments.simps) (simp add: Let_def flip: path_def)
  next
    case True
    let ?rest = "dropWhile (\<lambda>c. \<not> is_sep c) path"
    let ?name = "takeWhile (\<lambda>c. \<not> is_sep c) path"
    have rne: "?rest \<noteq> []" using True by (auto simp: list_ex_iff)
    have rlast: "last ?rest = last path0"
      using rne last by (metis append_take_drop_id dropWhile_eq_drop last_appendR)
    have rseg: "segments ?rest \<noteq> []"
    proof -
      have "\<not> (\<forall>c\<in>set ?rest. is_sep c)" using rne rlast "1.prems"(4) by (metis last_in_set)
      then have "dropWhile is_sep ?rest \<noteq> []" by simp
      then have "segments (dropWhile is_sep ?rest) \<noteq> []"
        using segments_first [OF refl, of ?rest] by (auto split: if_splits)
      then show ?thesis by (simp add: segments_dropWhile)
    qed
    have s: "segments path0 = ?name # segments ?rest" using seg first True by simp
    note child = path_child_plain [OF "1.prems"(1,2), of pf n d ?name True rec]
    show ?thesis
    proof (cases "\<exists>c. lookup (fsys w) d ?name = Some c \<and> is_dir (fsys w) c")
      case False
      then show ?thesis
        using True child rseg
        by (subst parse_segments.simps) (auto simp: s Let_def simp flip: path_def split: option.splits)
    next
      case t: True
      then obtain c where c: "lookup (fsys w) d ?name = Some c" "is_dir (fsys w) c" by blast
      have "parse_segments w pf (Suc n) ?rest c rec = Some (walk_parent w c (segments ?rest), rec)"
        using "1.hyps" [OF path_def _ refl _ refl _ _ "1.prems"(1,2) rne] True child c rlast "1.prems"(4) by simp
      then show ?thesis
        using True child c rseg
        by (subst parse_segments.simps) (simp add: s Let_def flip: path_def)
    qed
  qed
qed

lemma remove_trailing_last: "remove_trailing p \<noteq> [] \<Longrightarrow> \<not> is_sep (last (remove_trailing p))"
  unfolding remove_trailing_def is_sep_def
  by (metis (mono_tags, lifting) hd_dropWhile last_rev rev_is_Nil_conv)

lemma remove_trailing_Nil: "remove_trailing p = [] \<longleftrightarrow> segments p = []"
proof
  assume "remove_trailing p = []"
  then show "segments p = []" using segments_remove_trailing [of p] by (simp add: segments_def)
next
  assume seg: "segments p = []"
  show "remove_trailing p = []"
  proof (rule ccontr)
    assume ne: "remove_trailing p \<noteq> []"
    let ?q = "dropWhile is_sep (remove_trailing p)"
    have "?q \<noteq> []" using ne remove_trailing_last [OF ne] by (metis dropWhile_eq_Nil_conv last_in_set)
    then have "segments ?q \<noteq> []" using segments_first [OF refl, of "remove_trailing p"] by (auto split: if_splits)
    then show False using seg by (simp add: segments_dropWhile segments_remove_trailing)
  qed
qed

text \<open>
  On a tree without symbolic links, resolving a path is walking down its non-empty components,
  one directory after the other, from the root for an absolute path and from the given directory
  otherwise: repeated, leading and trailing slashes do not matter, the path of only slashes is the root,
  a missing component is \<open>ENOENT\<close> and a component below a file is \<open>ENOTDIR\<close>.
\<close>

theorem resolution_is_walk:
  assumes "\<forall>f. link_target (fsys w) f = None" "\<forall>f. admit_file w f = 0" "path \<noteq> []"
  shows "do_parse_file w (Suc n) follow path base rec =
    Some (walk w (if is_sep (hd path) then root_dir w else base)
            (if segments path = [] then [''.''] else segments path), rec)"
proof -
  let ?start = "if is_sep (hd path) then root_dir w else base"
  let ?p = "if is_sep (hd path) then tl path else path"
  have seg: "segments ?p = segments path"
    using assms(3) by (cases path) (simp_all add: segments_sep)
  have parent: "do_parse_parent w pf (Suc n) path base rec =
      Some (if segments path = [] then Inr (?start, ''.'') else walk_parent w ?start (segments path), rec)" for pf
  proof (cases "remove_trailing ?p = []")
    case True
    then have "segments path = []" using remove_trailing_Nil [of ?p] seg by simp
    then show ?thesis using True assms(2,3) by (simp add: do_parse_parent_def Let_def)
  next
    case False
    then have ne: "segments path \<noteq> []" using remove_trailing_Nil [of ?p] seg by simp
    have "parse_segments w pf (Suc n) (remove_trailing ?p) ?start rec = Some (walk_parent w ?start (segments path), rec)"
      using parse_segments_plain [OF assms(1,2) False remove_trailing_last [OF False]]
      by (simp add: segments_remove_trailing seg)
    then show ?thesis using False ne assms(2,3) by (simp add: do_parse_parent_def Let_def)
  qed
  show ?thesis
  proof (cases "segments path = []")
    case True
    then show ?thesis
      using parent path_child_plain [OF assms(1,2)] by (simp split: option.splits)
  next
    case False
    then show ?thesis
      using parent path_child_plain [OF assms(1,2)] walk_via_parent [OF False, of w ?start]
      by (auto split: sum.splits prod.splits)
  qed
qed

lemma init_plain: "link_target (fsys init_wasmfs) f = None" "admit_file init_wasmfs f = 0"
  by (simp_all add: init_wasmfs_eq init_observed admit_file_def admit_backend_def)

theorem resolution_is_walk_witness:
  "do_parse_file init_wasmfs 3 True ''//dev///null/'' 8 0 = Some (Inr 0, 0)"
proof -
  have "segments ''//dev///null/'' = [''dev'', ''null'']" by (simp add: segments_def is_sep_def)
  moreover have "walk init_wasmfs 6 [''dev'', ''null''] = Inr 0"
    by (simp add: init_wasmfs_eq lookup_eq init_observed)
  ultimately show ?thesis
    using resolution_is_walk [of init_wasmfs "''//dev///null/''" 2 True 8 0] init_plain
    by (simp add: init_wasmfs_eq is_sep_def numeral_3_eq_3)
qed

end
