(* ===== verification/Wasmfs_IO.thy ===== *)
theory Wasmfs_IO
  imports Wasmfs_Paths
begin

text \<open>
  The descriptor operations on file contents: the WASI reads and writes, \<open>fd_seek\<close>, \<open>fd_close\<close>,
  \<open>fd_sync\<close>, \<open>dup\<close>, \<open>dup3\<close>, the truncations, \<open>fallocate\<close>, \<open>fcntl\<close> and \<open>pipe2\<close> of
  \<open>system/lib/wasmfs/syscalls.cpp\<close>. WASI calls return positive error codes, the others negative ones.
  The guard that admits a call while no drain is in progress is in the theory of the drain.
\<close>

section \<open>Vectors\<close>

text \<open>An I/O vector: a null buffer of some length, or a buffer.\<close>

datatype 'a iov = Null_buffer nat | Buffer 'a

definition ciov_len :: "u8 list iov \<Rightarrow> nat" where
  "ciov_len v = (case v of Null_buffer n \<Rightarrow> n | Buffer b \<Rightarrow> length b)"

text \<open>A buffer to read into is its length.\<close>

definition iov_len :: "nat iov \<Rightarrow> nat" where
  "iov_len v = (case v of Null_buffer n \<Rightarrow> n | Buffer n \<Rightarrow> n)"

definition UIO_MAXIOV :: nat where "UIO_MAXIOV = 1024"
definition SSIZE_MAX :: nat where "SSIZE_MAX = 2147483647"
definition MAX_OFFSET :: nat where "MAX_OFFSET = 9223372036854775807"

definition is_valid_offset :: "nat \<Rightarrow> bool" where
  "is_valid_offset offset \<longleftrightarrow> offset \<le> MAX_OFFSET"

fun fits_iov_range :: "nat list \<Rightarrow> nat \<Rightarrow> bool" where
  "fits_iov_range [] offset = True"
| "fits_iov_range (l # ls) offset = (if MAX_OFFSET - offset < l then False else fits_iov_range ls (offset + l))"

fun validate_total :: "nat list \<Rightarrow> nat \<Rightarrow> int" where
  "validate_total [] acc = 0"
| "validate_total (l # ls) acc = (if SSIZE_MAX - acc < l then EINVAL else validate_total ls (acc + l))"

text \<open>The vector of the call: its length, and its elements unless the pointer is null.\<close>

definition validate_iovs :: "nat \<Rightarrow> nat list option \<Rightarrow> int" where
  "validate_iovs n lens =
     (if UIO_MAXIOV < n then EINVAL
      else if n \<noteq> 0 \<and> lens = None then EFAULT
      else validate_total (case lens of None \<Rightarrow> [] | Some ls \<Rightarrow> ls) 0)"

section \<open>Writing\<close>

datatype offset_handling = Position | Argument nat

definition operation_error_to_wasi :: "int \<Rightarrow> int" where
  "operation_error_to_wasi err =
     (if err = ESHUTDOWN then ECANCELED else if err = EDEADLK then EDEADLK
      else if err = EBUSY then EBUSY else EIO)"

definition admission_error_to_wasi :: "int \<Rightarrow> int" where
  "admission_error_to_wasi err = operation_error_to_wasi (- err)"

definition O_APPEND :: u32 where "O_APPEND = 0x400"

definition access_mode :: "wasmfs \<Rightarrow> nat \<Rightarrow> u32" where
  "access_mode w o' = oflags (open_file w o') AND O_ACCMODE"

definition set_position :: "nat \<Rightarrow> int \<Rightarrow> wasmfs \<Rightarrow> wasmfs" where
  "set_position o' p = on_open_file o' (\<lambda>s. s\<lparr>position := p\<rparr>)"

text \<open>The loop over the vector: the bytes written, or the error to return at once.\<close>

fun write_loop :: "fid \<Rightarrow> nat \<Rightarrow> u8 list iov list \<Rightarrow> nat \<Rightarrow> fs \<Rightarrow> fs \<times> (int + nat)" where
  "write_loop f offset [] written s = (s, Inr written)"
| "write_loop f offset (v # vs) written s =
     (if ciov_len v = 0 then write_loop f offset vs written s
      else
        (case v of
           Null_buffer _ \<Rightarrow> (s, Inl EINVAL)
         | Buffer buf \<Rightarrow>
             if 0 < offset \<and> 2 ^ 64 - 1 - offset < written then (s, Inl EFBIG)
             else
               let (s1, result) = file_write f buf (offset + written) s
               in if result < 0 then (s1, if 0 < written then Inr written else Inl (- result))
                  else
                    let written1 = written + nat result
                    in if nat result < length buf then (s1, Inr written1)
                       else write_loop f offset vs written1 s1))"

text \<open>
  The part that writes: the position is set before for an append, and after for every write at the
  position of a seekable file. The error code, and what is stored through \<open>nwritten\<close>.
\<close>

definition do_write ::
  "nat \<Rightarrow> fid \<Rightarrow> bool \<Rightarrow> bool \<Rightarrow> int \<Rightarrow> u8 list iov list \<Rightarrow> wasmfs \<Rightarrow> wasmfs \<times> int \<times> nat option" where
  "do_write o' f at_position appending offset vs w =
     (let w1 = (if at_position \<and> appending then set_position o' offset w else w);
          (s1, r) = write_loop f (nat offset) vs 0 (fsys w1);
          w2 = w1\<lparr>fsys := s1\<rparr>
      in (case r of
            Inl e \<Rightarrow> (w2, e, None)
          | Inr written \<Rightarrow>
              let w3 = (if at_position \<and> is_seekable (fsys w2) f
                        then set_position o' (offset + int written) w2 else w2);
                  w4 = (if 0 < written then on_fs (update_mtime f) w3 else w3)
              in (w4, 0, Some written)))"

definition write_at_offset ::
  "offset_handling \<Rightarrow> u32 \<Rightarrow> nat \<Rightarrow> u8 list iov list option \<Rightarrow> wasmfs \<Rightarrow> wasmfs \<times> int \<times> nat option" where
  "write_at_offset h fd n iovs w =
     (case get_entry w fd of
        None \<Rightarrow> (w, EBADF, None)
      | Some o' \<Rightarrow>
          let f = file_of w o';
              err = admit_file w f;
              lens = map_option (map ciov_len) iovs;
              vs = (case iovs of None \<Rightarrow> [] | Some vs \<Rightarrow> vs)
          in if err \<noteq> 0 then (w, admission_error_to_wasi err, None)
             else if (case h of Argument off \<Rightarrow> \<not> is_valid_offset off | Position \<Rightarrow> False) then (w, EINVAL, None)
             else if h \<noteq> Position \<and> \<not> is_seekable (fsys w) f then (w, ESPIPE, None)
             else if access_mode w o' = O_RDONLY then (w, EBADF, None)
             else if validate_iovs n lens \<noteq> 0 then (w, validate_iovs n lens, None)
             else if n = 0 then (w, 0, Some 0)
             else if \<not> is_data (fsys w) f then (w, EISDIR, None)
             else
               let appending = (oflags (open_file w o') AND O_APPEND \<noteq> 0);
                   offset = (case h of
                               Argument off \<Rightarrow> int off
                             | Position \<Rightarrow> if appending then get_size (fsys w) f else position (open_file w o'))
               in if offset < 0 then (w, (if h = Position \<and> appending then - offset else EINVAL), None)
                  else if \<not> is_valid_offset (nat offset) \<or> \<not> fits_iov_range (map ciov_len vs) (nat offset)
                  then (w, EINVAL, None)
                  else
                    do_write o' f (h = Position) appending offset vs w)"

section \<open>Reading\<close>

fun read_loop :: "fid \<Rightarrow> nat \<Rightarrow> nat iov list \<Rightarrow> nat \<Rightarrow> fs \<Rightarrow> fs \<times> (int + nat) \<times> u8 list" where
  "read_loop f offset [] got s = (s, Inr got, [])"
| "read_loop f offset (v # vs) got s =
     (if iov_len v = 0 then read_loop f offset vs got s
      else
        (case v of
           Null_buffer _ \<Rightarrow> (s, Inl EINVAL, [])
         | Buffer len \<Rightarrow>
             (case file_read f len (offset + got) s of
                (s1, Inl err) \<Rightarrow> (s1, if 0 < got then Inr got else Inl (- err), [])
              | (s1, Inr bytes) \<Rightarrow>
                  let got1 = got + length bytes
                  in if length bytes < len then (s1, Inr got1, bytes)
                     else (let (s2, r, rest) = read_loop f offset vs got1 s1 in (s2, r, bytes @ rest)))))"

text \<open>The error code, what is stored through \<open>nread\<close>, and the bytes put into the buffers in order.\<close>

definition do_read ::
  "nat \<Rightarrow> fid \<Rightarrow> bool \<Rightarrow> int \<Rightarrow> nat iov list \<Rightarrow> wasmfs \<Rightarrow> wasmfs \<times> int \<times> nat option \<times> u8 list" where
  "do_read o' f at_position offset vs w =
     (let (s1, r, bytes) = read_loop f (nat offset) vs 0 (fsys w);
          w1 = w\<lparr>fsys := s1\<rparr>
      in (case r of
            Inl e \<Rightarrow> (w1, e, None, bytes)
          | Inr got \<Rightarrow>
              (if at_position \<and> is_seekable (fsys w1) f then set_position o' (offset + int got) w1 else w1,
               0, Some got, bytes)))"

definition read_at_offset ::
  "offset_handling \<Rightarrow> u32 \<Rightarrow> nat \<Rightarrow> nat iov list option \<Rightarrow> wasmfs \<Rightarrow> wasmfs \<times> int \<times> nat option \<times> u8 list" where
  "read_at_offset h fd n iovs w =
     (case get_entry w fd of
        None \<Rightarrow> (w, EBADF, None, [])
      | Some o' \<Rightarrow>
          let f = file_of w o';
              err = admit_file w f;
              lens = map_option (map iov_len) iovs;
              vs = (case iovs of None \<Rightarrow> [] | Some vs \<Rightarrow> vs);
              offset = (case h of Argument off \<Rightarrow> int off | Position \<Rightarrow> position (open_file w o'))
          in if err \<noteq> 0 then (w, admission_error_to_wasi err, None, [])
             else if offset < 0 \<or> \<not> is_valid_offset (nat offset) then (w, EINVAL, None, [])
             else if h \<noteq> Position \<and> \<not> is_seekable (fsys w) f then (w, ESPIPE, None, [])
             else if access_mode w o' = O_WRONLY then (w, EBADF, None, [])
             else if validate_iovs n lens \<noteq> 0 then (w, validate_iovs n lens, None, [])
             else if n = 0 then (w, 0, Some 0, [])
             else if \<not> is_data (fsys w) f then (w, EISDIR, None, [])
             else if \<not> fits_iov_range (map iov_len vs) (nat offset) then (w, EINVAL, None, [])
             else
               do_read o' f (h = Position) offset vs w)"

definition fd_write :: "u32 \<Rightarrow> nat \<Rightarrow> u8 list iov list option \<Rightarrow> wasmfs \<Rightarrow> wasmfs \<times> int \<times> nat option" where
  "fd_write = write_at_offset Position"

definition fd_read :: "u32 \<Rightarrow> nat \<Rightarrow> nat iov list option \<Rightarrow> wasmfs \<Rightarrow> wasmfs \<times> int \<times> nat option \<times> u8 list" where
  "fd_read = read_at_offset Position"

definition fd_pwrite :: "u32 \<Rightarrow> nat \<Rightarrow> u8 list iov list option \<Rightarrow> nat \<Rightarrow> wasmfs \<Rightarrow> wasmfs \<times> int \<times> nat option" where
  "fd_pwrite fd n iovs offset = write_at_offset (Argument offset) fd n iovs"

definition fd_pread ::
  "u32 \<Rightarrow> nat \<Rightarrow> nat iov list option \<Rightarrow> nat \<Rightarrow> wasmfs \<Rightarrow> wasmfs \<times> int \<times> nat option \<times> u8 list" where
  "fd_pread fd n iovs offset = read_at_offset (Argument offset) fd n iovs"

section \<open>Descriptors\<close>

definition close_closee :: "fid option \<Rightarrow> wasmfs \<Rightarrow> wasmfs \<times> int" where
  "close_closee closee w = (case closee of None \<Rightarrow> (w, 0) | Some f \<Rightarrow> data_close f w)"

definition fd_close :: "u32 \<Rightarrow> wasmfs \<Rightarrow> wasmfs \<times> int" where
  "fd_close fd w =
     (case get_entry w fd of
        None \<Rightarrow> (w, EBADF)
      | Some o' \<Rightarrow>
          let err = admit_file w (file_of w o')
          in if err \<noteq> 0 then (w, admission_error_to_wasi err)
             else
               let (w1, closee) = set_entry fd None w;
                   (w2, r) = close_closee closee w1
               in (w2, - r))"

definition O_CLOEXEC :: u32 where "O_CLOEXEC = 0x80000"

definition syscall_dup3 :: "u32 \<Rightarrow> u32 \<Rightarrow> u32 \<Rightarrow> wasmfs \<Rightarrow> wasmfs \<times> int" where
  "syscall_dup3 oldfd newfd flags w =
     (if flags AND NOT O_CLOEXEC \<noteq> 0 then (w, - EINVAL)
      else if oldfd = newfd then (w, - EINVAL)
      else
        (case get_entry w oldfd of
           None \<Rightarrow> (w, - EBADF)
         | Some old \<Rightarrow>
             let err = admit_file w (file_of w old)
             in if err \<noteq> 0 then (w, err)
                else if sint newfd < 0 \<or> int WASMFS_FD_MAX \<le> sint newfd then (w, - EBADF)
                else
                  let err = (case get_entry w newfd of None \<Rightarrow> 0 | Some o' \<Rightarrow> admit_file w (file_of w o'))
                  in if err \<noteq> 0 then (w, err)
                     else
                       let (w1, closee) = set_entry newfd (Some old) w;
                           (w2, _) = close_closee closee w1
                       in (w2, sint newfd)))"

definition syscall_dup :: "u32 \<Rightarrow> wasmfs \<Rightarrow> wasmfs \<times> int" where
  "syscall_dup fd w =
     (case get_entry w fd of
        None \<Rightarrow> (w, - EBADF)
      | Some o' \<Rightarrow>
          let err = admit_file w (file_of w o')
          in if err \<noteq> 0 then (w, err) else add_entry o' w)"

definition fd_sync :: "u32 \<Rightarrow> wasmfs \<Rightarrow> wasmfs \<times> int" where
  "fd_sync fd w =
     (case get_entry w fd of
        None \<Rightarrow> (w, EBADF)
      | Some o' \<Rightarrow>
          let f = file_of w o'; err = admit_file w f
          in if err \<noteq> 0 then (w, admission_error_to_wasi err)
             else if is_data (fsys w) f then (let (w1, r) = data_flush f w in (w1, - r))
             else if is_dir (fsys w) f then (w, ENOTSUP)
             else (w, 0))"

definition JS_EXACT_LIMIT :: int where "JS_EXACT_LIMIT = 9007199254740992"

text \<open>The result and the new position, which is also what is stored through \<open>newoffset\<close>.\<close>

definition do_fd_seek :: "u32 \<Rightarrow> int \<Rightarrow> whence \<Rightarrow> int \<Rightarrow> wasmfs \<Rightarrow> wasmfs \<times> int \<times> int option" where
  "do_fd_seek fd offset wh max_position w =
     (case get_entry w fd of
        None \<Rightarrow> (w, EBADF, None)
      | Some o' \<Rightarrow>
          let f = file_of w o'; err = admit_file w f
          in if err \<noteq> 0 then (w, admission_error_to_wasi err, None)
             else if \<not> is_seekable (fsys w) f then (w, ESPIPE, None)
             else
               let pos =
                 (case wh of
                    SEEK_SET \<Rightarrow> Inr offset
                  | SEEK_CUR \<Rightarrow>
                      let p = position (open_file w o') + offset
                      in if off_t p then Inr p else Inl EINVAL
                  | SEEK_END \<Rightarrow>
                      let sz = get_size (fsys w) f
                      in if sz < 0 then Inl (- sz)
                         else if off_t (sz + offset) then Inr (sz + offset) else Inl EINVAL
                  | OTHER_WHENCE \<Rightarrow> Inl EINVAL)
               in (case pos of
                     Inl e \<Rightarrow> (w, e, None)
                   | Inr p \<Rightarrow>
                       if p < 0 then (w, EINVAL, None)
                       else if max_position < p then (w, EOVERFLOW, None)
                       else (set_position o' p w, 0, Some p)))"

definition fd_seek :: "u32 \<Rightarrow> int \<Rightarrow> whence \<Rightarrow> wasmfs \<Rightarrow> wasmfs \<times> int \<times> int option" where
  "fd_seek fd offset wh = do_fd_seek fd offset wh OFF_MAX"

definition fd_seek_for_js :: "u32 \<Rightarrow> int \<Rightarrow> whence \<Rightarrow> wasmfs \<Rightarrow> wasmfs \<times> int \<times> int option" where
  "fd_seek_for_js fd offset wh = do_fd_seek fd offset wh JS_EXACT_LIMIT"

section \<open>Sizes\<close>

definition WASMFS_PERM_READ :: u32 where "WASMFS_PERM_READ = 0x124"
definition WASMFS_PERM_WRITE :: u32 where "WASMFS_PERM_WRITE = 0x92"
definition WASMFS_PERM_EXECUTE :: u32 where "WASMFS_PERM_EXECUTE = 0x49"

definition set_size :: "fid \<Rightarrow> int \<Rightarrow> wasmfs \<Rightarrow> wasmfs \<times> int" where
  "set_size f sz w = (let (s, r) = file_set_size f sz (fsys w) in (w\<lparr>fsys := s\<rparr>, r))"

definition do_truncate :: "fid \<Rightarrow> int \<Rightarrow> bool \<Rightarrow> wasmfs \<Rightarrow> wasmfs \<times> int" where
  "do_truncate f sz check w =
     (if \<not> is_data (fsys w) f then (w, - EISDIR)
      else if check \<and> get_mode (fsys w) f AND WASMFS_PERM_WRITE = 0 then (w, - EACCES)
      else if sz < 0 then (w, - EINVAL)
      else set_size f sz w)"

definition syscall_truncate :: "string \<Rightarrow> int \<Rightarrow> wasmfs \<Rightarrow> wasmfs \<times> int" where
  "syscall_truncate path sz w =
     (case parse_file w path AT_FDCWD True of Inl err \<Rightarrow> (w, err) | Inr f \<Rightarrow> do_truncate f sz True w)"

definition syscall_ftruncate :: "u32 \<Rightarrow> int \<Rightarrow> wasmfs \<Rightarrow> wasmfs \<times> int" where
  "syscall_ftruncate fd sz w =
     (case get_entry w fd of
        None \<Rightarrow> (w, - EBADF)
      | Some o' \<Rightarrow>
          let err = admit_file w (file_of w o')
          in if err \<noteq> 0 then (w, err)
             else if access_mode w o' = O_RDONLY then (w, - EINVAL)
             else do_truncate (file_of w o') sz False w)"

definition syscall_fallocate :: "u32 \<Rightarrow> int \<Rightarrow> int \<Rightarrow> int \<Rightarrow> wasmfs \<Rightarrow> wasmfs \<times> int" where
  "syscall_fallocate fd mode offset len w =
     (case get_entry w fd of
        None \<Rightarrow> (w, - EBADF)
      | Some o' \<Rightarrow>
          let f = file_of w o'; err = admit_file w f
          in if err \<noteq> 0 then (w, err)
             else if offset < 0 \<or> len \<le> 0 then (w, - EINVAL)
             else if mode \<noteq> 0 then (w, - ENOTSUP)
             else if access_mode w o' = O_RDONLY then (w, - EBADF)
             else if \<not> is_seekable (fsys w) f then (w, - ESPIPE)
             else if \<not> is_data (fsys w) f then (w, - ENODEV)
             else if OFF_MAX - len < offset then (w, - EFBIG)
             else
               let needed = offset + len; sz = get_size (fsys w) f
               in if sz < 0 then (w, sz)
                  else if sz < needed then set_size f needed w
                  else (w, 0))"

section \<open>Pipes\<close>

definition make_pipe_end :: "nat \<Rightarrow> u32 \<Rightarrow> fs \<Rightarrow> fs \<times> fid" where
  "make_pipe_end p m = create_node (Device (Pipe_file p)) (m OR S_IFREG) NullBackend"

definition close_file :: "fid \<Rightarrow> wasmfs \<Rightarrow> wasmfs" where
  "close_file f w = fst (data_close f w)"

text \<open>The result, and the descriptors stored when it is 0. \<open>PipeFile::open\<close> never fails.\<close>

definition syscall_pipe2 :: "u32 \<Rightarrow> wasmfs \<Rightarrow> wasmfs \<times> int \<times> (int \<times> int) option" where
  "syscall_pipe2 flags w =
     (if flags \<noteq> 0 \<and> flags \<noteq> O_CLOEXEC then (w, - ENOTSUP, None)
      else
        let p = next_pipe (fsys w);
            (s1, reader) = make_pipe_end p 0x124 (fsys w\<lparr>next_pipe := Suc p, pipes := (pipes (fsys w))(p := [])\<rparr>);
            (s2, writer) = make_pipe_end p 0x92 s1;
            (w1, open_reader) = create_open_file reader O_RDONLY (w\<lparr>fsys := s2\<rparr>);
            (w2, open_writer) = create_open_file writer O_WRONLY w1;
            (w3, reader_fd) = add_entry (projr open_reader) w2
        in if 0 \<le> reader_fd then
             let (w4, writer_fd) = add_entry (projr open_writer) w3
             in if 0 \<le> writer_fd then (w4, 0, Some (reader_fd, writer_fd))
                else
                  let (w5, closee) = set_entry (word_of_int reader_fd) None w4;
                      w6 = fst (close_closee closee w5)
                  in (close_file writer w6, writer_fd, None)
           else (close_file writer (close_file reader w3), reader_fd, None))"

section \<open>fcntl\<close>

datatype fcntl_cmd = F_GETLK "flock option" | F_SETLK "flock option" | F_SETLKW "flock option"
  | F_DUPFD u32 | F_GETFD | F_SETFD | F_GETFL | F_SETFL u32 | F_OTHER

definition can_use_locks :: "(backend_id \<Rightarrow> bool) \<Rightarrow> wasmfs \<Rightarrow> fid \<Rightarrow> bool" where
  "can_use_locks supports w f \<longleftrightarrow>
     get_mode (fsys w) f AND S_IFMT = S_IFREG \<and> get_backend (fsys w) f \<noteq> NullBackend \<and>
     supports (get_backend (fsys w) f)"

definition locks_of :: "wasmfs \<Rightarrow> fid \<Rightarrow> record_lock list" where
  "locks_of w f = (case files (fsys w) f of None \<Rightarrow> [] | Some n \<Rightarrow> record_locks n)"

definition set_locks :: "fid \<Rightarrow> record_lock list \<Rightarrow> wasmfs \<Rightarrow> wasmfs" where
  "set_locks f ls = on_fs (update f (\<lambda>n. n\<lparr>record_locks := ls\<rparr>))"

text \<open>The lock commands; \<open>supports\<close> is \<open>supportsRecordLocks\<close> of a backend.\<close>

definition record_lock_call ::
  "(backend_id \<Rightarrow> bool) \<Rightarrow> nat \<Rightarrow> flock option \<Rightarrow> bool \<Rightarrow> wasmfs \<Rightarrow> wasmfs \<times> int \<times> flock option" where
  "record_lock_call supports o' lock query w =
     (let f = file_of w o';
          t = \<lparr>can_use_record_locks = can_use_locks supports w f, file_size = get_size (fsys w) f,
               file_position = position (open_file w o'), file_flags = oflags (open_file w o')\<rparr>;
          (r, lock', ls) = handle_record_lock t lock query (locks_of w f)
      in (if r = 0 \<and> \<not> query then set_locks f ls w else w, r, lock'))"

definition O_CREAT :: u32 where "O_CREAT = 0x40"
definition O_EXCL :: u32 where "O_EXCL = 0x80"
definition O_NOCTTY :: u32 where "O_NOCTTY = 0x100"
definition O_TRUNC :: u32 where "O_TRUNC = 0x200"
definition O_NONBLOCK :: u32 where "O_NONBLOCK = 0x800"
definition O_DSYNC :: u32 where "O_DSYNC = 0x1000"
definition O_ASYNC :: u32 where "O_ASYNC = 0x2000"
definition O_DIRECT :: u32 where "O_DIRECT = 0x4000"
definition O_LARGEFILE :: u32 where "O_LARGEFILE = 0x8000"
definition O_DIRECTORY :: u32 where "O_DIRECTORY = 0x10000"
definition O_NOFOLLOW :: u32 where "O_NOFOLLOW = 0x20000"
definition O_NOATIME :: u32 where "O_NOATIME = 0x40000"
definition O_SYNC :: u32 where "O_SYNC = 0x101000"
definition O_TMPFILE :: u32 where "O_TMPFILE = 0x410000"

text \<open>The loop of \<open>F_DUPFD\<close>.\<close>

definition free_fd_from :: "wasmfs \<Rightarrow> nat \<Rightarrow> nat option" where
  "free_fd_from w start = find (\<lambda>i. get_entry w (of_nat i) = None) [start..<WASMFS_FD_MAX]"

text \<open>The result, with what is left in the caller's \<open>struct flock\<close> of a lock command.\<close>

definition syscall_fcntl ::
  "(backend_id \<Rightarrow> bool) \<Rightarrow> u32 \<Rightarrow> fcntl_cmd \<Rightarrow> wasmfs \<Rightarrow> wasmfs \<times> int \<times> flock option" where
  "syscall_fcntl supports fd cmd w =
     (case get_entry w fd of
        None \<Rightarrow> (w, - EBADF, None)
      | Some o' \<Rightarrow>
          let err = admit_file w (file_of w o')
          in if err \<noteq> 0 then (w, err, None)
             else
               (case cmd of
                  F_GETLK lock \<Rightarrow> record_lock_call supports o' lock True w
                | F_SETLK lock \<Rightarrow> record_lock_call supports o' lock False w
                | F_SETLKW lock \<Rightarrow> record_lock_call supports o' lock False w
                | F_DUPFD newfd \<Rightarrow>
                    if sint newfd < 0 \<or> int WASMFS_FD_MAX \<le> sint newfd then (w, - EINVAL, None)
                    else
                      (case free_fd_from w (unat newfd) of
                         None \<Rightarrow> (w, - EMFILE, None)
                       | Some i \<Rightarrow> (fst (set_entry (of_nat i) (Some o') w), int i, None))
                | F_GETFD \<Rightarrow> (w, 0, None)
                | F_SETFD \<Rightarrow> (w, 0, None)
                | F_GETFL \<Rightarrow> (w, sint (oflags (open_file w o')), None)
                | F_SETFL flags \<Rightarrow>
                    let old = oflags (open_file w o');
                        flags1 = flags AND NOT (O_RDONLY OR O_WRONLY OR O_RDWR OR O_CREAT OR O_EXCL OR
                                                O_NOCTTY OR O_TRUNC);
                        flags2 = flags1 AND NOT O_LARGEFILE;
                        supported = flags2 AND O_APPEND
                    in if flags2 \<noteq> supported then (w, - EINVAL, None)
                       else (on_open_file o' (\<lambda>s. s\<lparr>oflags := (old AND NOT O_APPEND) OR supported\<rparr>) w, 0, None)
                | F_OTHER \<Rightarrow> (w, - EINVAL, None)))"

section \<open>The bytes of a memory file\<close>

lemma memory_read_eq: "memory_read n off b = take n (drop off b)"
  by (auto simp: memory_read_def Let_def)

lemma length_overwrite: "off + length buf \<le> length b \<Longrightarrow> length (overwrite off buf b) = length b"
  by (simp add: overwrite_def)

lemma nth_overwrite:
  assumes "off + length buf \<le> length b" "i < length b"
  shows "overwrite off buf b ! i = (if off \<le> i \<and> i < off + length buf then buf ! (i - off) else b ! i)"
  using assms by (auto simp: overwrite_def nth_append min_def)

lemma memory_write_bytes:
  assumes "off + length buf \<le> MAX_BUFFER"
  shows "snd (memory_write buf off b) = int (length buf)"
    "length (fst (memory_write buf off b)) = max (length b) (off + length buf)"
    "\<And>i. i < max (length b) (off + length buf) \<Longrightarrow>
       fst (memory_write buf off b) ! i =
         (if off \<le> i \<and> i < off + length buf then buf ! (i - off) else if i < length b then b ! i else 0)"
  using assms
  by (auto simp: memory_write_def length_overwrite nth_overwrite nth_append max_def)

lemma memory_write_append:
  assumes "off + length a + length c \<le> MAX_BUFFER"
  shows "fst (memory_write c (off + length a) (fst (memory_write a off b))) = fst (memory_write (a @ c) off b)"
proof (rule nth_equalityI)
  have A: "off + length a \<le> MAX_BUFFER" using assms by simp
  have AC: "off + length (a @ c) \<le> MAX_BUFFER" using assms by simp
  note W = memory_write_bytes [OF A, where b = b]
    memory_write_bytes [OF assms, where b = "fst (memory_write a off b)"]
    memory_write_bytes [OF AC, where b = b]
  show "length (fst (memory_write c (off + length a) (fst (memory_write a off b)))) =
      length (fst (memory_write (a @ c) off b))"
    by (simp add: W)
  fix i assume "i < length (fst (memory_write c (off + length a) (fst (memory_write a off b))))"
  then have i: "i < max (max (length b) (off + length a)) (off + length a + length c)" by (simp add: W)
  show "fst (memory_write c (off + length a) (fst (memory_write a off b))) ! i = fst (memory_write (a @ c) off b) ! i"
    using i by (auto simp: W nth_append)
qed

section \<open>What reading and writing leave alone\<close>

text \<open>Everything of a file system but the contents of its data files and the environment.\<close>

definition shape_eq :: "fs \<Rightarrow> fs \<Rightarrow> bool" where
  "shape_eq s s' \<longleftrightarrow>
     (\<forall>x. is_dir s' x = is_dir s x) \<and> (\<forall>x. is_data s' x = is_data s x) \<and>
     (\<forall>x. link_target s' x = link_target s x) \<and> (\<forall>x. entries s' x = entries s x) \<and>
     (\<forall>x. mounts s' x = mounts s x) \<and> (\<forall>x. get_parent s' x = get_parent s x) \<and>
     (\<forall>x. get_backend s' x = get_backend s x) \<and> (\<forall>x. is_seekable s' x = is_seekable s x) \<and>
     (\<forall>x. files s' x = None \<longleftrightarrow> files s x = None) \<and> next_fid s' = next_fid s"

lemma shape_eq_refl [simp]: "shape_eq s s"
  by (simp add: shape_eq_def)

lemma shape_eq_trans: "shape_eq s t \<Longrightarrow> shape_eq t u \<Longrightarrow> shape_eq s u"
  by (simp add: shape_eq_def)

lemma shape_eq_update:
  assumes "\<And>n. files s f = Some n \<Longrightarrow> (case content n of
      Data _ \<Rightarrow> (\<exists>b. content (g n) = Data b)
    | Device d \<Rightarrow> (\<exists>d'. content (g n) = Device d' \<and> (d' = Null_file \<longleftrightarrow> d = Null_file))
    | c \<Rightarrow> content (g n) = c)"
    "\<And>n. dcache (g n) = dcache n" "\<And>n. parent_of (g n) = parent_of n" "\<And>n. backend (g n) = backend n"
  shows "shape_eq s (update f g s)"
proof (cases "files s f")
  case None
  then show ?thesis by (simp add: shape_eq_def update_def observers is_seekable_def)
next
  case (Some n)
  then show ?thesis
    using assms(1) [OF Some] assms(2-4)
    by (auto simp: shape_eq_def update_def observers is_seekable_def split: content.splits)
qed

lemma shape_eq_env:
  "files s' = files s \<Longrightarrow> next_fid s' = next_fid s \<Longrightarrow> shape_eq s s'"
  by (simp add: shape_eq_def observers is_seekable_def)

lemma tree_shape: "shape_eq s s' \<Longrightarrow> tree r s \<Longrightarrow> tree r s'"
  by (rule tree_cong) (simp_all add: shape_eq_def)

lemma content_node: "is_data s f \<Longrightarrow> \<exists>n. files s f = Some n \<and>
    ((\<exists>b. content n = Data b) \<or> (\<exists>d. content n = Device d))"
  by (auto simp: is_data_def split: option.splits content.splits)

lemma shape_eq_update_mtime: "shape_eq s (update_mtime f s)"
  unfolding update_mtime_def by (rule shape_eq_update) (auto split: content.splits)

lemma shape_eq_device_write:
  assumes "files s f = Some n" "content n = Device d"
  shows "shape_eq s (fst (device_write f d buf s))"
proof (cases d)
  case (Stdout_file line)
  show ?thesis
    using assms Stdout_file
    by (auto simp: device_write_def set_content_def Let_def split: prod.splits
        intro!: shape_eq_trans [OF shape_eq_env shape_eq_update])
next
  case (Stderr_file line)
  show ?thesis
    using assms Stderr_file
    by (auto simp: device_write_def set_content_def Let_def split: prod.splits
        intro!: shape_eq_trans [OF shape_eq_env shape_eq_update])
qed (auto simp: device_write_def intro: shape_eq_env)

lemma shape_eq_file_write:
  assumes "is_data s f"
  shows "shape_eq s (fst (file_write f buf off s))"
proof -
  obtain n where n: "files s f = Some n" "(\<exists>b. content n = Data b) \<or> (\<exists>d. content n = Device d)"
    using content_node [OF assms] by blast
  then show ?thesis
    by (auto simp: file_write_def set_content_def split: prod.splits
        intro!: shape_eq_update shape_eq_device_write)
qed

lemma shape_eq_file_read: "shape_eq s (fst (file_read f n off s))"
  by (auto simp: file_read_def Let_def split: content.splits device.splits prod.splits intro: shape_eq_env)

lemma shape_eq_file_set_size:
  assumes "is_data s f"
  shows "shape_eq s (fst (file_set_size f sz s))"
proof -
  obtain n where n: "files s f = Some n" "(\<exists>b. content n = Data b) \<or> (\<exists>d. content n = Device d)"
    using content_node [OF assms] by blast
  then show ?thesis
    by (auto simp: file_set_size_def set_content_def split: prod.splits device.splits intro!: shape_eq_update)
qed

lemma shape_eq_file_flush:
  assumes "is_data s f"
  shows "shape_eq s (file_flush f s)"
  using shape_eq_file_write [OF assms]
  by (auto simp: file_flush_def split: content.splits device.splits)

lemma shape_eq_is_data: "shape_eq s s' \<Longrightarrow> is_data s' x = is_data s x"
  by (simp add: shape_eq_def)

lemma shape_eq_write_loop:
  "is_data s f \<Longrightarrow> shape_eq s (fst (write_loop f offset vs written s))"
proof (induction f offset vs written s rule: write_loop.induct)
  case (1 f offset written s)
  then show ?case by simp
next
  case (2 f offset v vs written s)
  have w: "shape_eq s (fst (file_write f buf off s))" for buf off by (rule shape_eq_file_write [OF "2.prems"])
  show ?case
  proof (cases "ciov_len v = 0")
    case True
    then show ?thesis using "2.IH"(1) "2.prems" by simp
  next
    case False
    show ?thesis
    proof (cases v)
      case (Null_buffer x)
      then show ?thesis using False by simp
    next
      case (Buffer buf)
      obtain s1 r where fw: "file_write f buf (offset + written) s = (s1, r)" by fastforce
      have s1: "shape_eq s s1" using w [of buf "offset + written"] fw by simp
      then have "is_data s1 f" using "2.prems" shape_eq_is_data by blast
      then show ?thesis
        using "2.IH"(2) [OF False Buffer _ fw [symmetric] refl _ refl] False Buffer fw s1
        by (auto simp: Let_def split: if_splits intro: shape_eq_trans)
    qed
  qed
qed

lemma shape_eq_read_loop: "shape_eq s (fst (read_loop f offset vs got s))"
proof (induction f offset vs got s rule: read_loop.induct)
  case (1 f offset got s)
  then show ?case by simp
next
  case (2 f offset v vs got s)
  show ?case
  proof (cases "iov_len v = 0")
    case True
    then show ?thesis using "2.IH"(1) by simp
  next
    case False
    show ?thesis
    proof (cases v)
      case (Null_buffer x)
      then show ?thesis using False by simp
    next
      case (Buffer len)
      obtain s1 r where fr: "file_read f len (offset + got) s = (s1, r)" by fastforce
      have s1: "shape_eq s s1" using shape_eq_file_read [of s f len "offset + got"] fr by simp
      show ?thesis
      proof (cases r)
        case (Inl e)
        then show ?thesis using False Buffer fr s1 by simp
      next
        case (Inr bytes)
        then show ?thesis
          using "2.IH"(2) [OF False Buffer fr [symmetric] Inr refl] False Buffer fr s1
          by (auto simp: Let_def split: prod.splits intro: shape_eq_trans)
      qed
    qed
  qed
qed

section \<open>The invariant of the file system object\<close>

definition wasmfs_inv :: "wasmfs \<Rightarrow> bool" where
  "wasmfs_inv w \<longleftrightarrow>
     tree (root_dir w) (fsys w) \<and> table_inv w \<and> handles_inv (\<lambda>_. 0) w \<and> is_dir (fsys w) (cwd w)"

lemma wasmfs_invD:
  assumes "wasmfs_inv w"
  shows "tree (root_dir w) (fsys w)" "table_inv w" "handles_inv (\<lambda>_. 0) w" "is_dir (fsys w) (cwd w)"
  using assms by (simp_all add: wasmfs_inv_def)

lemma wasmfs_inv_init: "wasmfs_inv init_wasmfs"
  using tree_init table_inv_init handles_inv_init by (simp add: wasmfs_inv_def init_wasmfs_eq init_observed)

text \<open>A change of contents, positions and flags only.\<close>

definition quiet :: "wasmfs \<Rightarrow> wasmfs \<Rightarrow> bool" where
  "quiet w w' \<longleftrightarrow>
     shape_eq (fsys w) (fsys w') \<and> table w' = table w \<and> next_oid w' = next_oid w \<and> opened w' = opened w \<and>
     root_dir w' = root_dir w \<and> cwd w' = cwd w \<and>
     (\<forall>x. map_option of_file (open_files w' x) = map_option of_file (open_files w x) \<and>
          map_option uses (open_files w' x) = map_option uses (open_files w x))"

lemma quiet_refl [simp]: "quiet w w"
  by (simp add: quiet_def)

lemma quiet_trans: "quiet u v \<Longrightarrow> quiet v w \<Longrightarrow> quiet u w"
  by (auto simp: quiet_def intro: shape_eq_trans)

lemma quiet_fsys: "shape_eq (fsys w) s \<Longrightarrow> quiet w (w\<lparr>fsys := s\<rparr>)"
  by (simp add: quiet_def)

lemma quiet_set_position: "quiet w (set_position o' p w)"
  by (cases "open_files w o'") (simp_all add: quiet_def set_position_def on_open_file_def)

lemma quiet_mtime: "quiet w (on_fs (update_mtime f) w)"
  unfolding on_fs_def by (rule quiet_fsys [OF shape_eq_update_mtime])

lemma quiet_states:
  assumes "quiet w w'" "open_files w' x = Some s'"
  obtains s where "open_files w x = Some s" "of_file s = of_file s'" "uses s = uses s'"
proof -
  have "map_option of_file (open_files w x) = map_option of_file (open_files w' x)"
    "map_option uses (open_files w x) = map_option uses (open_files w' x)"
    using assms(1) unfolding quiet_def by metis+
  then show thesis using that assms(2) by (cases "open_files w x") auto
qed

lemma quiet_sym_states:
  assumes "quiet w w'" "open_files w x = Some s"
  obtains s' where "open_files w' x = Some s'" "of_file s' = of_file s" "uses s' = uses s"
proof -
  have "map_option of_file (open_files w' x) = map_option of_file (open_files w x)"
    "map_option uses (open_files w' x) = map_option uses (open_files w x)"
    using assms(1) unfolding quiet_def by metis+
  then show thesis using that assms(2) by (cases "open_files w' x") auto
qed

lemma quiet_none: "quiet w w' \<Longrightarrow> open_files w' x = None \<longleftrightarrow> open_files w x = None"
  by (metis (no_types, lifting) quiet_def option.map_disc_iff)

lemma quiet_live:
  assumes q: "quiet w w'"
  shows "live_states w' f = live_states w f"
proof (intro set_eqI iffI)
  fix x assume "x \<in> live_states w' f"
  then obtain s' where s': "open_files w' x = Some s'" "of_file s' = f" "0 < uses s'"
    unfolding live_states_def by blast
  obtain s where "open_files w x = Some s" "of_file s = of_file s'" "uses s = uses s'"
    by (rule quiet_states [OF q s'(1)])
  then show "x \<in> live_states w f" using s' by (simp add: live_states_def)
next
  fix x assume "x \<in> live_states w f"
  then obtain s where s: "open_files w x = Some s" "of_file s = f" "0 < uses s"
    unfolding live_states_def by blast
  obtain s' where "open_files w' x = Some s'" "of_file s' = of_file s" "uses s' = uses s"
    by (rule quiet_sym_states [OF q s(1)])
  then show "x \<in> live_states w' f" using s by (simp add: live_states_def)
qed

lemma quiet_handles: "quiet w w' \<Longrightarrow> handles_inv e w \<Longrightarrow> handles_inv e w'"
  by (simp add: handles_inv_def quiet_live) (simp add: quiet_def shape_eq_def)

lemma quiet_table:
  assumes q: "quiet w w'" and t: "table_inv w"
  shows "table_inv w'"
  unfolding table_inv_def
proof (intro conjI allI impI)
  have sh: "shape_eq (fsys w) (fsys w')" and eqs: "table w' = table w" "next_oid w' = next_oid w"
    using q by (auto simp: quiet_def)
  show "length (table w') \<le> WASMFS_FD_MAX" using t by (simp add: eqs table_inv_def)
  show "open_files w' x \<noteq> None" if "Some x \<in> set (table w')" for x
    using that t quiet_none [OF q] by (simp add: eqs table_inv_def)
  fix x s' assume "open_files w' x = Some s'"
  then obtain s where s: "open_files w x = Some s" "of_file s = of_file s'" "uses s = uses s'"
    by (rule quiet_states [OF q])
  show "x < next_oid w'" "uses s' = int (count_list (table w') (Some x))" "files (fsys w') (of_file s') \<noteq> None"
    using table_inv_state [OF t s(1)] s(2,3) sh by (simp_all add: eqs shape_eq_def)
qed

lemma quiet_tree:
  assumes "quiet w w'" "tree (root_dir w) (fsys w)" "is_dir (fsys w) (cwd w)"
  shows "tree (root_dir w') (fsys w')" "is_dir (fsys w') (cwd w')"
  using assms tree_shape by (auto simp: quiet_def shape_eq_def)

lemma quiet_inv:
  assumes "quiet w w'" "wasmfs_inv w"
  shows "wasmfs_inv w'"
  using quiet_tree [OF assms(1)] quiet_handles [OF assms(1)] quiet_table [OF assms(1)] assms(2)
  by (simp add: wasmfs_inv_def)

section \<open>System calls keep the invariant\<close>

lemma quiet_do_write:
  assumes "is_data (fsys w) f"
  shows "quiet w (fst (do_write o' f at_position appending offset vs w))"
proof -
  define w1 where "w1 = (if at_position \<and> appending then set_position o' offset w else w)"
  have q1: "quiet w w1" unfolding w1_def using quiet_set_position by simp
  then have d: "is_data (fsys w1) f" using assms by (simp add: quiet_def shape_eq_def)
  obtain s1 r where l: "write_loop f (nat offset) vs 0 (fsys w1) = (s1, r)" by fastforce
  have q2: "quiet w (w1\<lparr>fsys := s1\<rparr>)"
    using quiet_trans [OF q1 quiet_fsys] shape_eq_write_loop [OF d] l by (metis fst_conv)
  show ?thesis
  proof (cases r)
    case (Inl e)
    then show ?thesis using q2 l by (simp add: do_write_def Let_def flip: w1_def)
  next
    case (Inr n)
    define w3 where "w3 = (if at_position \<and> is_seekable s1 f
        then set_position o' (offset + int n) (w1\<lparr>fsys := s1\<rparr>) else w1\<lparr>fsys := s1\<rparr>)"
    have q3: "quiet w w3" unfolding w3_def using q2 quiet_trans [OF q2 quiet_set_position] by simp
    have "fst (do_write o' f at_position appending offset vs w) = (if 0 < n then on_fs (update_mtime f) w3 else w3)"
      using Inr l by (simp add: do_write_def Let_def w3_def flip: w1_def)
    then show ?thesis using q3 quiet_trans [OF q3 quiet_mtime] by simp
  qed
qed

lemma quiet_write: "quiet w (fst (write_at_offset h fd n iovs w))"
  using quiet_do_write by (auto simp: write_at_offset_def Let_def split: option.splits)

lemma quiet_read: "quiet w (fst (read_at_offset h fd n iovs w))"
proof -
  have "quiet w (fst (do_read o' f at_position offset vs w))" for o' f at_position offset vs
  proof -
    obtain s1 r bytes where l: "read_loop f (nat offset) vs 0 (fsys w) = (s1, r, bytes)" by (metis prod_cases3)
    have q: "quiet w (w\<lparr>fsys := s1\<rparr>)"
      using quiet_fsys shape_eq_read_loop l by (metis fst_conv)
    then show ?thesis
      using l quiet_trans [OF q quiet_set_position] by (auto simp: do_read_def Let_def split: sum.splits)
  qed
  then show ?thesis by (auto simp: read_at_offset_def Let_def split: option.splits)
qed

lemma quiet_seek: "quiet w (fst (do_fd_seek fd offset wh max_position w))"
  using quiet_set_position
  by (auto simp: do_fd_seek_def Let_def split: option.splits sum.splits)

lemma quiet_set_size:
  assumes "is_data (fsys w) f"
  shows "quiet w (fst (set_size f sz w))"
  using shape_eq_file_set_size [OF assms, of sz] quiet_fsys
  by (auto simp: set_size_def split: prod.splits)

lemma quiet_truncate: "quiet w (fst (do_truncate f sz check w))"
  using quiet_set_size by (auto simp: do_truncate_def)

lemma quiet_sizes:
  "quiet w (fst (syscall_truncate path sz w))" "quiet w (fst (syscall_ftruncate fd sz w))"
  "quiet w (fst (syscall_fallocate fd mode offset len w))"
  using quiet_truncate quiet_set_size
  by (auto simp: syscall_truncate_def syscall_ftruncate_def syscall_fallocate_def Let_def split: sum.splits option.splits)

lemma quiet_sync: "quiet w (fst (fd_sync fd w))"
  using quiet_fsys [OF shape_eq_file_flush]
  by (auto simp: fd_sync_def data_flush_def Let_def on_fs_def split: option.splits)

lemma handles_ext: "handles_inv e w \<Longrightarrow> (\<And>f. e f = e' f) \<Longrightarrow> handles_inv e' w"
  by (simp add: handles_inv_def)

lemma live_states_opened [simp]: "live_states (w\<lparr>opened := op\<rparr>) g = live_states w g"
  by (simp add: live_states_def)

lemma data_close_inv:
  assumes "table_inv w" "handles_inv extra w" "data_close f w = (w', r)"
  shows "table_inv w'" "handles_inv (\<lambda>g. extra g - (if g = f then 1 else 0)) w'" "fsys w' = fsys w"
    "root_dir w' = root_dir w" "cwd w' = cwd w"
proof -
  have w': "w' = w\<lparr>opened := (opened w)(f := opened w f - 1)\<rparr>"
    using assms(3) by (simp add: data_close_def)
  show "table_inv w'" using assms(1) by (simp add: w' table_inv_def)
  show "handles_inv (\<lambda>g. extra g - (if g = f then 1 else 0)) w'"
    using assms(2) by (simp add: handles_inv_def w')
  show "fsys w' = fsys w" "root_dir w' = root_dir w" "cwd w' = cwd w" by (simp_all add: w')
qed

text \<open>Putting a state that is in use, or nothing, into a slot, and closing what fell out.\<close>

lemma set_entry_close_inv:
  assumes inv: "wasmfs_inv w" and fd: "unat fd < WASMFS_FD_MAX"
    and new: "\<forall>n. new = Some n \<longrightarrow> open_files w n \<noteq> None \<and> 0 < uses (open_file w n)"
    and s: "set_entry fd new w = (w1, c)" and c: "close_closee c w1 = (w2, r)"
  shows "wasmfs_inv w2"
proof -
  note I = wasmfs_invD [OF inv]
  have new': "\<forall>n. new = Some n \<longrightarrow> open_files w n \<noteq> None" using new by blast
  have old: "\<forall>n. get_entry w fd = Some n \<longrightarrow> open_files w n \<noteq> None"
    using table_inv_entry(1) [OF I(2)] by blast
  note R = set_entry_readings [OF s new' old]
  have t1: "table_inv w1" by (rule set_entry_table_inv [OF I(2) fd new' s])
  have "born w new f = 0" for f using new by (auto simp: born_def split: option.splits)
  then have h1: "handles_inv (\<lambda>f. if c = Some f then 1 else 0) w1"
    using set_entry_handles [OF I(2) new' s I(3)] by (rule_tac handles_ext) auto
  have tr: "tree (root_dir w1) (fsys w1)" "is_dir (fsys w1) (cwd w1)"
    using I(1,4) tree_clear_record_locks by (auto simp: R readings split: option.splits)
  show ?thesis
  proof (cases c)
    case None
    then show ?thesis using t1 h1 tr assms(5) by (simp add: wasmfs_inv_def close_closee_def)
  next
    case (Some f)
    then have d: "data_close f w1 = (w2, r)" using assms(5) by (simp add: close_closee_def)
    note D = data_close_inv [OF t1 h1 d]
    have "handles_inv (\<lambda>_. 0) w2" by (rule handles_ext [OF D(2)]) (simp add: Some)
    then show ?thesis using D tr by (simp add: wasmfs_inv_def)
  qed
qed

lemma entry_in_use:
  assumes "wasmfs_inv w" "get_entry w fd = Some n"
  shows "open_files w n \<noteq> None" "0 < uses (open_file w n)" "unat fd < WASMFS_FD_MAX"
    "files (fsys w) (file_of w n) \<noteq> None"
proof -
  note E = table_inv_entry [OF wasmfs_invD(2) [OF assms(1)] assms(2)]
  show "open_files w n \<noteq> None" "0 < uses (open_file w n)" "files (fsys w) (file_of w n) \<noteq> None" by (fact E)+
  show "unat fd < WASMFS_FD_MAX" using E(2) wasmfs_invD(2) [OF assms(1)] by (simp add: table_inv_def)
qed

lemma inv_close: "wasmfs_inv w \<Longrightarrow> wasmfs_inv (fst (fd_close fd w))"
proof (cases "get_entry w fd")
  case None
  then show "wasmfs_inv w \<Longrightarrow> ?thesis" by (simp add: fd_close_def)
next
  case (Some n)
  assume inv: "wasmfs_inv w"
  obtain w1 c where s: "set_entry fd None w = (w1, c)" by fastforce
  obtain w2 r where d: "close_closee c w1 = (w2, r)" by fastforce
  have "wasmfs_inv w2"
    by (rule set_entry_close_inv [OF inv entry_in_use(3) [OF inv Some] _ s d]) simp
  then show ?thesis using inv Some s d by (simp add: fd_close_def Let_def)
qed

lemma inv_dup3: "wasmfs_inv w \<Longrightarrow> wasmfs_inv (fst (syscall_dup3 oldfd newfd flags w))"
proof -
  assume inv: "wasmfs_inv w"
  show ?thesis
  proof (cases "get_entry w oldfd")
    case None
    then show ?thesis using inv by (simp add: syscall_dup3_def)
  next
    case (Some n)
    obtain w1 c where s: "set_entry newfd (Some n) w = (w1, c)" by fastforce
    obtain w2 r where d: "close_closee c w1 = (w2, r)" by fastforce
    note E = entry_in_use [OF inv Some]
    have ok: "wasmfs_inv w2" if "0 \<le> sint newfd" "sint newfd < int WASMFS_FD_MAX"
    proof (rule set_entry_close_inv [OF inv _ _ s d])
      have "int (unat newfd) < int WASMFS_FD_MAX" using that(2) sint_nonneg [OF that(1)] by (simp only:)
      then show "unat newfd < WASMFS_FD_MAX" by (simp only: of_nat_less_iff)
      show "\<forall>m. Some n = Some m \<longrightarrow> open_files w m \<noteq> None \<and> 0 < uses (open_file w m)" using E by blast
    qed
    show ?thesis using inv Some s d ok by (simp add: syscall_dup3_def Let_def)
  qed
qed

lemma set_entry_free_inv:
  assumes inv: "wasmfs_inv w" and i: "i < WASMFS_FD_MAX" "get_entry w (of_nat i) = None"
    and n: "open_files w n \<noteq> None" "0 < uses (open_file w n)"
  shows "wasmfs_inv (fst (set_entry (of_nat i) (Some n) w))"
proof -
  obtain w1 c where s: "set_entry (of_nat i) (Some n) w = (w1, c)" by fastforce
  have new: "\<forall>m. Some n = Some m \<longrightarrow> open_files w m \<noteq> None" using n by simp
  have "c = None"
    using set_entry_readings(4) [OF s new] i(2) by simp
  then have "close_closee c w1 = (w1, 0)" by (simp add: close_closee_def)
  then have "wasmfs_inv w1"
    using set_entry_close_inv [OF inv _ _ s] n i(1) by (simp add: unat_fd)
  then show ?thesis by (simp add: s)
qed

lemma inv_dup: "wasmfs_inv w \<Longrightarrow> wasmfs_inv (fst (syscall_dup fd w))"
proof -
  assume inv: "wasmfs_inv w"
  have "wasmfs_inv (fst (add_entry n w))" if "get_entry w fd = Some n" for n
    using inv entry_in_use [OF inv that] free_fd_Some [of w] set_entry_free_inv [OF inv, of _ n]
    by (auto simp: add_entry_def split: option.splits)
  then show ?thesis using inv by (auto simp: syscall_dup_def Let_def split: option.splits)
qed

lemma free_fd_from_Some:
  assumes "free_fd_from w start = Some i"
  shows "start \<le> i" "i < WASMFS_FD_MAX" "get_entry w (of_nat i) = None"
    "\<And>j. start \<le> j \<Longrightarrow> j < i \<Longrightarrow> get_entry w (of_nat j) \<noteq> None"
proof -
  obtain k where k: "k < WASMFS_FD_MAX - start" "start + k = i" "get_entry w (of_nat i) = None"
    "\<forall>j<k. get_entry w (of_nat (start + j)) \<noteq> None"
    using assms unfolding free_fd_from_def find_Some_iff by auto
  show "start \<le> i" "i < WASMFS_FD_MAX" "get_entry w (of_nat i) = None" using k by auto
  show "get_entry w (of_nat j) \<noteq> None" if "start \<le> j" "j < i" for j
  proof -
    have "j - start < k" "start + (j - start) = j" using that k(2) by auto
    then show ?thesis using k(4) by metis
  qed
qed

lemma quiet_set_locks: "quiet w (set_locks f ls w)"
  unfolding set_locks_def on_fs_def
  by (rule quiet_fsys, rule shape_eq_update) (auto split: content.splits)

lemma quiet_record_lock: "quiet w (fst (record_lock_call supports o' lock query w))"
  using quiet_set_locks by (auto simp: record_lock_call_def Let_def split: prod.splits)

lemma quiet_oflags: "quiet w (on_open_file o' (\<lambda>s. s\<lparr>oflags := fl\<rparr>) w)"
  by (cases "open_files w o'") (simp_all add: quiet_def on_open_file_def)

lemma inv_fcntl: "wasmfs_inv w \<Longrightarrow> wasmfs_inv (fst (syscall_fcntl supports fd cmd w))"
proof -
  assume inv: "wasmfs_inv w"
  have d: "wasmfs_inv (fst (set_entry (of_nat i) (Some n) w))"
    if "get_entry w fd = Some n" "free_fd_from w j = Some i" for n i j
    using set_entry_free_inv [OF inv free_fd_from_Some(2,3) [OF that(2)]] entry_in_use [OF inv that(1)] by blast
  have q: "wasmfs_inv (fst (record_lock_call supports n lock query w))" for n lock query
    by (rule quiet_inv [OF quiet_record_lock inv])
  have o: "wasmfs_inv (on_open_file n (\<lambda>s. s\<lparr>oflags := fl\<rparr>) w)" for n fl
    by (rule quiet_inv [OF quiet_oflags inv])
  show ?thesis
    using inv q d o by (auto simp: syscall_fcntl_def Let_def split: option.splits fcntl_cmd.splits)
qed

text \<open>Creating a node, and opening and installing a file.\<close>

lemma inv_create_node:
  assumes inv: "wasmfs_inv w" and c: "create_node c m b (fsys w) = (s, f)" "fresh_content c"
  shows "wasmfs_inv (w\<lparr>fsys := s\<rparr>)" "f = next_fid (fsys w)" "files s f \<noteq> None"
proof -
  note I = wasmfs_invD [OF inv]
  have fresh: "files (fsys w) (next_fid (fsys w)) = None" using treeD(3) [OF I(1)] by simp
  note R = create_node_readings [OF c(1) fresh]
  show f: "f = next_fid (fsys w)" "files s f \<noteq> None" by (simp_all add: R)
  have live: "live_states (w\<lparr>fsys := s\<rparr>) g = live_states w g" for g by (simp add: live_states_def)
  have nolive: "live_states w f = {}"
    using table_inv_state(3) [OF I(2)] fresh f by (fastforce simp: live_states_def)
  have op: "opened w f = 0" using I(3) nolive by (simp add: handles_inv_def)
  have data: "is_data s x = is_data (fsys w) x" if "x \<noteq> f" for x
    using that c(1) f by (auto simp: create_node_def is_data_def)
  have h: "handles_inv (\<lambda>_. 0) (w\<lparr>fsys := s\<rparr>)"
    unfolding handles_inv_def
  proof
    fix g
    show "opened (w\<lparr>fsys := s\<rparr>) g = (if is_data (fsys (w\<lparr>fsys := s\<rparr>)) g then int (card (live_states (w\<lparr>fsys := s\<rparr>) g)) else 0) + 0"
      using I(3) op nolive data [of g] by (cases "g = f") (auto simp: live handles_inv_def)
  qed
  have "cwd w \<noteq> f" using I(4) fresh f is_dir_exists by metis
  then have "is_dir s (cwd w)" using I(4) by (simp add: R(3))
  moreover have "table_inv (w\<lparr>fsys := s\<rparr>)" using I(2) by (simp add: table_inv_def R(7))
  ultimately show "wasmfs_inv (w\<lparr>fsys := s\<rparr>)"
    using tree_create_node [OF I(1) c] h by (simp add: wasmfs_inv_def)
qed

lemma install_inv:
  assumes t: "table_inv w" and h: "handles_inv (\<lambda>g. extra g + (if g = f \<and> is_data (fsys w) f then 1 else 0)) w"
    and tr: "tree (root_dir w) (fsys w)" "is_dir (fsys w) (cwd w)"
    and n: "open_files w n \<noteq> None" "uses (open_file w n) = 0" "file_of w n = f"
    and a: "add_entry n w = (w', r)"
  shows "table_inv w'" "tree (root_dir w') (fsys w')" "is_dir (fsys w') (cwd w')" "root_dir w' = root_dir w" "cwd w' = cwd w"
    "0 \<le> r \<Longrightarrow> handles_inv extra w'" "r < 0 \<Longrightarrow> w' = w" "fsys w' = fsys w"
    "0 \<le> r \<Longrightarrow> get_entry w' (of_nat (nat r)) = Some n"
    "\<And>x. x \<noteq> n \<Longrightarrow> open_files w' x = open_files w x" "open_files w' n \<noteq> None" "r < int WASMFS_FD_MAX"
    "0 \<le> r \<Longrightarrow> nat r < WASMFS_FD_MAX"
proof -
  note A = add_entry_ok [OF t n(1) a]
  have main: "table_inv w' \<and> tree (root_dir w') (fsys w') \<and> is_dir (fsys w') (cwd w') \<and> root_dir w' = root_dir w \<and>
    cwd w' = cwd w \<and> (0 \<le> r \<longrightarrow> handles_inv extra w') \<and> (r < 0 \<longrightarrow> w' = w) \<and> fsys w' = fsys w \<and>
    (0 \<le> r \<longrightarrow> get_entry w' (of_nat (nat r)) = Some n) \<and> (\<forall>x. x \<noteq> n \<longrightarrow> open_files w' x = open_files w x) \<and>
    open_files w' n \<noteq> None \<and> r < int WASMFS_FD_MAX"
  proof (cases "0 \<le> r")
    case False
    then show ?thesis using A(1,2) tr n by simp
  next
    case True
    then have s: "set_entry (of_nat (nat r)) (Some n) w = (w', None)" "nat r < WASMFS_FD_MAX"
      "get_entry w (of_nat (nat r)) = None" using A(3) by blast+
    have new: "\<forall>m. Some n = Some m \<longrightarrow> open_files w m \<noteq> None" using n by simp
    have old: "\<forall>m. get_entry w (of_nat (nat r)) = Some m \<longrightarrow> open_files w m \<noteq> None" using s(3) by simp
    note R = set_entry_readings [OF s(1) new old]
    have fs: "fsys w' = fsys w" by (simp add: R(3) s(3))
    have "handles_inv extra w'"
      using set_entry_handles [OF t new s(1) h]
      by (rule handles_ext) (auto simp: born_def n)
    moreover have "get_entry w' (of_nat (nat r)) = Some n"
      by (simp add: get_entry_def R(1))
    moreover have "open_files w' x = open_files w x" if "x \<noteq> n" for x
      using that s(3) by (cases "open_files w x") (simp_all add: R(2))
    moreover have "open_files w' n \<noteq> None" using n(1) by (simp add: R(2))
    ultimately show ?thesis
      using True A(1) tr s(2) by (simp add: R(5-8) fs)
  qed
  then show "table_inv w'" "tree (root_dir w') (fsys w')" "is_dir (fsys w') (cwd w')" "root_dir w' = root_dir w" "cwd w' = cwd w"
    "0 \<le> r \<Longrightarrow> handles_inv extra w'" "r < 0 \<Longrightarrow> w' = w" "fsys w' = fsys w"
    "0 \<le> r \<Longrightarrow> get_entry w' (of_nat (nat r)) = Some n"
    "\<And>x. x \<noteq> n \<Longrightarrow> open_files w' x = open_files w x" "open_files w' n \<noteq> None" "r < int WASMFS_FD_MAX"
    by blast+
  then show "0 \<le> r \<Longrightarrow> nat r < WASMFS_FD_MAX" by linarith
qed

end
