(* ===== verification/Wasmfs_Content.thy ===== *)
theory Wasmfs_Content
  imports Wasmfs_IO
begin

text \<open>
  What the descriptor operations do to the bytes: a vectored access is one access to the
  concatenation, reading gives back what was written, positions stay in range, and a failing
  call has no effect.
\<close>

section \<open>Vectors and their concatenation\<close>

definition holds_data :: "fs \<Rightarrow> fid \<Rightarrow> bool" where
  "holds_data s f = (case files s f of
                       Some n \<Rightarrow> (case content n of Data _ \<Rightarrow> True | _ \<Rightarrow> False)
                     | None \<Rightarrow> False)"

lemma holds_data_node: "holds_data s f \<longleftrightarrow> (\<exists>n. files s f = Some n \<and> content n = Data (data s f))"
  by (auto simp: holds_data_def data_def split: option.splits content.splits)

lemma holds_data_facts:
  assumes "holds_data s f"
  shows "is_data s f" "is_seekable s f" "\<not> is_dir s f" "link_target s f = None" "get_size s f = int (length (data s f))"
  using assms by (auto simp: holds_data_def observers is_seekable_def get_size_def split: option.splits content.splits)

lemma holds_set_content [simp]:
  assumes "holds_data s f"
  shows "holds_data (set_content f (Data b) s) f" "data (set_content f (Data b) s) f = b"
    "set_content f (Data c) (set_content f (Data b) s) = set_content f (Data c) s"
  using assms
  by (auto simp: holds_data_def set_content_def update_def data_def split: option.splits)

lemma set_content_same: "holds_data s f \<Longrightarrow> set_content f (Data (data s f)) s = s"
  by (auto simp: holds_data_node set_content_def update_def fun_eq_iff intro!: fs.equality)

lemma file_write_memory:
  assumes "holds_data s f"
  shows "file_write f buf off s =
    (set_content f (Data (fst (memory_write buf off (data s f)))) s, snd (memory_write buf off (data s f)))"
  using assms by (auto simp: file_write_def holds_data_node split: prod.splits)

lemma file_read_memory:
  "holds_data s f \<Longrightarrow> file_read f n off s = (s, Inr (take n (drop off (data s f))))"
  by (auto simp: file_read_def holds_data_node memory_read_eq)

text \<open>What a write of some bytes leaves in a file; no bytes leave it as it is.\<close>

definition written :: "u8 list \<Rightarrow> nat \<Rightarrow> u8 list \<Rightarrow> u8 list" where
  "written buf off b = (if buf = [] then b else fst (memory_write buf off b))"

lemma written_append:
  assumes "off + length a + length c \<le> MAX_BUFFER"
  shows "written c (off + length a) (written a off b) = written (a @ c) off b"
  using memory_write_append [OF assms, of b] by (auto simp: written_def)

definition buffers :: "u8 list iov list \<Rightarrow> u8 list" where
  "buffers vs = concat (map (\<lambda>v. case v of Null_buffer _ \<Rightarrow> [] | Buffer b \<Rightarrow> b) vs)"

definition all_buffers :: "'a iov list \<Rightarrow> bool" where
  "all_buffers vs = list_all (\<lambda>v. case v of Null_buffer _ \<Rightarrow> False | Buffer _ \<Rightarrow> True) vs"

lemma buffers_Nil [simp]: "buffers [] = []"
  by (simp add: buffers_def)

lemma buffers_Cons [simp]: "buffers (Buffer b # vs) = b @ buffers vs"
  by (simp add: buffers_def)

lemma write_loop_memory:
  assumes "holds_data s f" "all_buffers vs" "offset + got + length (buffers vs) \<le> MAX_BUFFER"
  shows "write_loop f offset vs got s =
    (set_content f (Data (written (buffers vs) (offset + got) (data s f))) s, Inr (got + length (buffers vs)))"
  using assms
proof (induction vs arbitrary: got s)
  case Nil
  then show ?case by (simp add: buffers_def written_def set_content_same)
next
  case (Cons v vs)
  obtain b where v: "v = Buffer b" using Cons.prems(2) by (cases v) (auto simp: all_buffers_def)
  have vs: "all_buffers vs" using Cons.prems(2) by (simp add: all_buffers_def)
  have buf: "buffers (v # vs) = b @ buffers vs" by (simp add: buffers_def v)
  have le: "offset + got + length b + length (buffers vs) \<le> MAX_BUFFER" using Cons.prems(3) by (simp add: buf)
  show ?case
  proof (cases "b = []")
    case True
    then show ?thesis using Cons.IH [OF Cons.prems(1) vs] Cons.prems(3) by (simp add: v ciov_len_def buf)
  next
    case False
    have fw: "file_write f b (offset + got) s =
        (set_content f (Data (written b (offset + got) (data s f))) s, int (length b))"
      using file_write_memory [OF Cons.prems(1)] memory_write_bytes(1) [of "offset + got" b] le False
      by (simp add: written_def)
    have no: "(0 < offset \<and> (2 :: nat) ^ 64 - 1 - offset < got) = False"
      using le by (auto simp: MAX_BUFFER_def)
    have "write_loop f offset (v # vs) got s =
        write_loop f offset vs (got + length b) (set_content f (Data (written b (offset + got) (data s f))) s)"
      unfolding v write_loop.simps ciov_len_def iov.case no using False by (simp add: fw)
    also have "\<dots> = (set_content f (Data (written (buffers vs) (offset + (got + length b)) (written b (offset + got) (data s f)))) s,
        Inr (got + length b + length (buffers vs)))"
      using Cons.IH [of "set_content f (Data (written b (offset + got) (data s f))) s" "got + length b"]
        Cons.prems(1) vs le by (simp add: add.assoc)
    finally show ?thesis
      using written_append [OF le] by (simp add: buf add.assoc)
  qed
qed

definition room :: "nat iov list \<Rightarrow> nat" where
  "room vs = sum_list (map iov_len vs)"

lemma room_Nil [simp]: "room [] = 0"
  by (simp add: room_def)

lemma room_Cons [simp]: "room (Buffer n # vs) = n + room vs"
  by (simp add: room_def iov_len_def)

lemma read_loop_memory:
  assumes "holds_data s f" "all_buffers vs"
  shows "read_loop f offset vs got s =
    (s, Inr (got + length (take (room vs) (drop (offset + got) (data s f)))),
     take (room vs) (drop (offset + got) (data s f)))"
  using assms(2)
proof (induction vs arbitrary: got)
  case Nil
  then show ?case by (simp add: room_def)
next
  case (Cons v vs)
  obtain n where v: "v = Buffer n" using Cons.prems by (cases v) (auto simp: all_buffers_def)
  have vs: "all_buffers vs" using Cons.prems by (simp add: all_buffers_def)
  let ?rest = "drop (offset + got) (data s f)"
  have room: "room (v # vs) = n + room vs" by (simp add: room_def v iov_len_def)
  show ?case
  proof (cases "length ?rest < n")
    case True
    then show ?thesis
      by (cases n) (simp_all add: v iov_len_def file_read_memory [OF assms(1)] Let_def room)
  next
    case False
    have "drop (offset + (got + n)) (data s f) = drop n ?rest" by (simp add: add.commute add.left_commute)
    then have ih: "read_loop f offset vs (got + n) s =
        (s, Inr (got + n + length (take (room vs) (drop n ?rest))), take (room vs) (drop n ?rest))"
      using Cons.IH [OF vs, of "got + n"] by simp
    have "read_loop f offset (v # vs) got s =
        (s, Inr (got + n + length (take (room vs) (drop n ?rest))), take n ?rest @ take (room vs) (drop n ?rest))"
      using False ih by (cases n) (simp_all add: v iov_len_def file_read_memory [OF assms(1)] Let_def)
    moreover have "take n ?rest @ take (room vs) (drop n ?rest) = take (n + room vs) ?rest"
      by (simp add: take_add)
    moreover have "n + length (take (room vs) (drop n ?rest)) = length (take (n + room vs) ?rest)"
      using False by simp
    ultimately show ?thesis by (simp add: room)
  qed
qed

section \<open>Positioned access to a memory file\<close>

text \<open>A descriptor of a memory file that may be read and written, and a vector that fits.\<close>

definition open_rdwr :: "wasmfs \<Rightarrow> u32 \<Rightarrow> fid \<Rightarrow> bool" where
  "open_rdwr w fd f \<longleftrightarrow>
     (case get_entry w fd of
        None \<Rightarrow> False
      | Some o' \<Rightarrow> file_of w o' = f \<and> access_mode w o' = O_RDWR) \<and> holds_data (fsys w) f \<and> admit_file w f = 0"

lemma fits_small:
  "offset + sum_list ls \<le> MAX_BUFFER \<Longrightarrow> fits_iov_range ls offset"
proof (induction ls arbitrary: offset)
  case (Cons l ls)
  then show ?case by (simp add: MAX_BUFFER_def MAX_OFFSET_def add.assoc)
qed simp

lemma validate_total_small:
  "acc + sum_list ls \<le> SSIZE_MAX \<Longrightarrow> validate_total ls acc = 0"
  by (induction ls arbitrary: acc) auto

lemma max_buffer_ssize: "MAX_BUFFER = SSIZE_MAX"
  by (simp add: MAX_BUFFER_def SSIZE_MAX_def)

lemma buffers_len: "all_buffers vs \<Longrightarrow> sum_list (map ciov_len vs) = length (buffers vs)"
  by (induction vs) (auto simp: all_buffers_def buffers_def ciov_len_def split: iov.splits)

lemma rdwr_modes [simp]: "O_RDWR \<noteq> O_RDONLY" "O_RDWR \<noteq> O_WRONLY"
  by (simp_all add: O_RDWR_def O_RDONLY_def O_WRONLY_def)

lemma do_write_at: "do_write o' f False a offset vs w = do_write o' f False False offset vs w"
  by (simp add: do_write_def)

lemma pwrite_memory:
  assumes "open_rdwr w fd f" "all_buffers vs" "vs \<noteq> []" "length vs \<le> UIO_MAXIOV"
    "off + length (buffers vs) \<le> MAX_BUFFER"
  shows "fd_pwrite fd (length vs) (Some vs) off w =
    ((if buffers vs = [] then w
      else on_fs (\<lambda>s. update_mtime f (set_content f (Data (written (buffers vs) off (data s f))) s)) w),
     0, Some (length (buffers vs)))"
proof -
  obtain o' where o': "get_entry w fd = Some o'" "file_of w o' = f" "access_mode w o' = O_RDWR"
    and d: "holds_data (fsys w) f" "admit_file w f = 0"
    using assms(1) by (auto simp: open_rdwr_def split: option.splits)
  have len: "sum_list (map ciov_len vs) = length (buffers vs)" by (rule buffers_len [OF assms(2)])
  have off: "is_valid_offset off" using assms(5) by (simp add: is_valid_offset_def MAX_BUFFER_def MAX_OFFSET_def)
  have val: "validate_iovs (length vs) (Some (map ciov_len vs)) = 0"
    using assms(3-5) validate_total_small [of 0 "map ciov_len vs"] len
    by (simp add: validate_iovs_def max_buffer_ssize)
  have fit: "fits_iov_range (map ciov_len vs) off"
    using fits_small [of off "map ciov_len vs"] len assms(5) by simp
  have loop: "write_loop f off vs 0 (fsys w) =
      (set_content f (Data (written (buffers vs) off (data (fsys w) f))) (fsys w), Inr (length (buffers vs)))"
    using write_loop_memory [OF d(1) assms(2), of off 0] assms(5) by simp
  have "fd_pwrite fd (length vs) (Some vs) off w = do_write o' f False False (int off) vs w"
    using assms(3) o' d holds_data_facts [OF d(1)] off val fit
    by (simp add: fd_pwrite_def write_at_offset_def Let_def do_write_at [of _ _ "_ \<noteq> _"])
  then show ?thesis
    using loop set_content_same [OF d(1)]
    by (auto simp: do_write_def on_fs_def written_def)
qed

lemma pread_memory:
  assumes "open_rdwr w fd f" "all_buffers vs" "vs \<noteq> []" "length vs \<le> UIO_MAXIOV" "off + room vs \<le> MAX_BUFFER"
  shows "fd_pread fd (length vs) (Some vs) off w =
    (w, 0, Some (length (take (room vs) (drop off (data (fsys w) f)))), take (room vs) (drop off (data (fsys w) f)))"
proof -
  obtain o' where o': "get_entry w fd = Some o'" "file_of w o' = f" "access_mode w o' = O_RDWR"
    and d: "holds_data (fsys w) f" "admit_file w f = 0"
    using assms(1) by (auto simp: open_rdwr_def split: option.splits)
  have off: "is_valid_offset off" using assms(5) by (simp add: is_valid_offset_def MAX_BUFFER_def MAX_OFFSET_def)
  have val: "validate_iovs (length vs) (Some (map iov_len vs)) = 0"
    using assms(3-5) validate_total_small [of 0 "map iov_len vs"]
    by (simp add: validate_iovs_def max_buffer_ssize room_def)
  have fit: "fits_iov_range (map iov_len vs) off"
    using fits_small [of off "map iov_len vs"] assms(5) by (simp add: room_def)
  have "fd_pread fd (length vs) (Some vs) off w = do_read o' f False (int off) vs w"
    using assms(3) o' d holds_data_facts [OF d(1)] off val fit
    by (simp add: fd_pread_def read_at_offset_def Let_def)
  then show ?thesis
    using read_loop_memory [OF d(1) assms(2), of off 0] by (simp add: do_read_def)
qed

lemma on_fs_readings [simp]:
  "get_entry (on_fs g w) fd = get_entry w fd" "file_of (on_fs g w) o' = file_of w o'"
  "access_mode (on_fs g w) o' = access_mode w o'" "fsys (on_fs g w) = g (fsys w)"
  "admission (on_fs g w) = admission w" "open_file (on_fs g w) o' = open_file w o'"
  by (simp_all add: on_fs_def get_entry_def file_of_def open_file_def access_mode_def)

lemma on_fs_keeps:
  assumes "open_rdwr w fd f" "\<And>s. holds_data s f \<Longrightarrow> holds_data (g s) f"
    "\<And>s x. get_backend (g s) x = get_backend s x"
  shows "open_rdwr (on_fs g w) fd f"
  using assms
  by (auto simp: open_rdwr_def admit_file_def admit_backend_def split: option.splits)

lemma mtime_content [simp]:
  "holds_data (update_mtime f s) g = holds_data s g" "data (update_mtime f s) g = data s g"
  by (auto simp: holds_data_def update_mtime_def update_def data_def split: option.splits content.splits)

lemma set_content_backend: "get_backend (set_content f c s) x = get_backend s x"
  by (auto simp: set_content_def update_def get_backend_def split: option.splits)

text \<open>
  Claim C30. Writing at a position and reading there: a \<open>pwrite\<close> of any vector to a memory file reports
  the length of the concatenation of the buffers, a \<open>pread\<close> of that length at that offset then
  gives the concatenation back, the bytes before and after it are unchanged, a gap behind the old end
  reads as zeros, and the file grows to the end of the write and no further; a vector of empty buffers
  does not touch the file.
\<close>

theorem pwrite_pread:
  assumes "open_rdwr w fd f" "all_buffers vs" "vs \<noteq> []" "length vs \<le> UIO_MAXIOV"
    "off + length (buffers vs) \<le> MAX_BUFFER" "fd_pwrite fd (length vs) (Some vs) off w = (w', r, n)"
  defines "old \<equiv> data (fsys w) f" and "new \<equiv> data (fsys w') f"
  shows "r = 0 \<and> n = Some (length (buffers vs)) \<and>
    fd_pread fd 1 (Some [Buffer (length (buffers vs))]) off w' =
      (w', 0, Some (length (buffers vs)), buffers vs) \<and>
    (if buffers vs = [] then w' = w
     else length new = max (length old) (off + length (buffers vs)) \<and>
       (\<forall>i<length new. i < off \<or> off + length (buffers vs) \<le> i \<longrightarrow>
          new ! i = (if i < length old then old ! i else 0)))"
proof -
  note W = pwrite_memory [OF assms(1-5), unfolded assms(6)]
  have d: "holds_data (fsys w) f" using assms(1) by (simp add: open_rdwr_def)
  show ?thesis
  proof (cases "buffers vs = []")
    case True
    then have "w' = w" "r = 0" "n = Some 0" using W by simp_all
    then show ?thesis
      using True pread_memory [OF assms(1), of "[Buffer 0]" off] assms(5)
      by (simp add: all_buffers_def room_def iov_len_def UIO_MAXIOV_def)
  next
    case False
    define g where "g s = update_mtime f (set_content f (Data (written (buffers vs) off (data s f))) s)" for s
    have w': "w' = on_fs g w" "r = 0" "n = Some (length (buffers vs))"
      using W False by (simp_all add: g_def [abs_def])
    have new: "new = written (buffers vs) off old"
      using d by (simp add: new_def old_def w'(1) on_fs_def g_def)
    note B = memory_write_bytes [OF assms(5), where b = old]
    have new2: "new = fst (memory_write (buffers vs) off old)" using False new by (simp add: written_def)
    have rd: "open_rdwr w' fd f"
      unfolding w'(1) by (rule on_fs_keeps [OF assms(1)]) (simp_all add: g_def readings set_content_backend)
    have again: "take (length (buffers vs)) (drop off new) = buffers vs"
    proof (rule nth_equalityI)
      show "length (take (length (buffers vs)) (drop off new)) = length (buffers vs)"
        by (simp add: new2 B)
      fix i assume "i < length (take (length (buffers vs)) (drop off new))"
      then have i: "i < length (buffers vs)" by simp
      then show "take (length (buffers vs)) (drop off new) ! i = buffers vs ! i"
        using B(3) [of "off + i"] by (simp add: new2 B(2))
    qed
    have "fd_pread fd (length [Buffer (length (buffers vs))]) (Some [Buffer (length (buffers vs))]) off w' =
      (w', 0, Some (length (take (length (buffers vs)) (drop off new))), take (length (buffers vs)) (drop off new))"
      using pread_memory [OF rd, of "[Buffer (length (buffers vs))]" off] assms(5)
      by (simp add: all_buffers_def room_def iov_len_def UIO_MAXIOV_def new_def)
    then have "fd_pread fd 1 (Some [Buffer (length (buffers vs))]) off w' =
      (w', 0, Some (length (buffers vs)), buffers vs)"
      by (simp add: again)
    then show ?thesis using False w' B by (simp add: new2)
  qed
qed

text \<open>
  A vectored access is one access to the concatenation: splitting a write or a read of a
  memory file into buffers in any way changes neither the resulting state, nor the count, nor the bytes.
\<close>

theorem vectors_do_not_matter:
  assumes "open_rdwr w fd f" "all_buffers vs" "vs \<noteq> []" "length vs \<le> UIO_MAXIOV"
    "off + length (buffers vs) \<le> MAX_BUFFER" "all_buffers rs" "rs \<noteq> []" "length rs \<le> UIO_MAXIOV"
    "off + room rs \<le> MAX_BUFFER"
  shows "fd_pwrite fd (length vs) (Some vs) off w = fd_pwrite fd 1 (Some [Buffer (buffers vs)]) off w \<and>
    fd_pread fd (length rs) (Some rs) off w = fd_pread fd 1 (Some [Buffer (room rs)]) off w"
proof -
  have one: "all_buffers [Buffer (buffers vs)]" "buffers [Buffer (buffers vs)] = buffers vs"
    "all_buffers [Buffer (room rs)]" "room [Buffer (room rs)] = room rs"
    by (simp_all add: all_buffers_def buffers_def room_def iov_len_def)
  have "fd_pwrite fd (length vs) (Some vs) off w =
      fd_pwrite fd (length [Buffer (buffers vs)]) (Some [Buffer (buffers vs)]) off w"
    using pwrite_memory [OF assms(1-5)] pwrite_memory [OF assms(1) one(1), of off] assms(5)
    by (simp add: one(2) UIO_MAXIOV_def)
  moreover have "fd_pread fd (length rs) (Some rs) off w =
      fd_pread fd (length [Buffer (room rs)]) (Some [Buffer (room rs)]) off w"
    using pread_memory [OF assms(1,6-9)] pread_memory [OF assms(1) one(3), of off] assms(9)
    by (simp add: one(4) UIO_MAXIOV_def)
  ultimately show ?thesis by simp
qed

section \<open>Witnesses\<close>

text \<open>The initial state with a new file 9, open for reading and writing at descriptor 3.\<close>

definition one_file :: wasmfs where
  "one_file =
     (let (s, f) = create_file 0x1FF 1 (fsys init_wasmfs);
          (w, _) = create_open_file f O_RDWR (init_wasmfs\<lparr>fsys := s\<rparr>)
      in fst (set_entry 3 (Some 3) w))"

lemma one_file_eq:
  "one_file = init_wasmfs
     \<lparr>fsys := init_fs\<lparr>files := (files init_fs)(9 \<mapsto> new_node (Data []) (0x1FF OR S_IFREG) 1 0), next_fid := 10\<rparr>,
      opened := (opened init_wasmfs)(9 := 1),
      open_files := (open_files init_wasmfs)(3 \<mapsto>
        \<lparr>of_file = 9, position = 0, oflags = O_RDWR, uses = 1, dirents = []\<rparr>),
      next_oid := 4, table := [Some 0, Some 1, Some 2, Some 3]\<rparr>"
proof -
  define s where "s = init_fs\<lparr>files := (files init_fs)(9 \<mapsto> new_node (Data []) (0x1FF OR S_IFREG) 1 0), next_fid := 10\<rparr>"
  have now: "now init_fs = 0" by (simp add: init_fs_eq)
  have c: "create_file 0x1FF 1 (fsys init_wasmfs) = (s, 9)"
    by (simp add: create_file_def create_node_def init_wasmfs_eq init_observed s_def now)
  have d: "is_data s 9" "\<not> is_dir s 9" by (simp_all add: s_def is_data_def is_dir_def new_node_def)
  define w where "w = init_wasmfs\<lparr>fsys := s, opened := (opened init_wasmfs)(9 := 1),
      open_files := (open_files init_wasmfs)(3 \<mapsto>
        \<lparr>of_file = 9, position = 0, oflags = O_RDWR, uses = 0, dirents = []\<rparr>), next_oid := 4\<rparr>"
  have o: "create_open_file 9 O_RDWR (init_wasmfs\<lparr>fsys := s\<rparr>) = (w, Inr 3)"
    using d by (simp add: create_open_data init_wasmfs_eq w_def)
  have e: "set_entry 3 (Some 3) w = (w\<lparr>open_files := (open_files w)(3 \<mapsto>
        \<lparr>of_file = 9, position = 0, oflags = O_RDWR, uses = 1, dirents = []\<rparr>), table := table w @ [Some 3]\<rparr>, None)"
    by (subst set_entry_append) (simp_all add: w_def init_wasmfs_eq)
  show ?thesis
    unfolding one_file_def c Let_def prod.case o e fst_conv
    by (simp add: w_def s_def init_wasmfs_literal)
qed

lemma one_file_rdwr: "open_rdwr one_file 3 9" "data (fsys one_file) 9 = []"
  by (simp_all add: one_file_eq open_rdwr_def get_entry_def file_of_def open_file_def access_mode_def
      O_RDWR_def O_ACCMODE_def holds_data_def data_def new_node_def admit_file_def admit_backend_def init_wasmfs_eq)

theorem pwrite_pread_witness:
  "\<exists>w'. fd_pwrite 3 2 (Some [Buffer [1, 2], Buffer [3]]) 4 one_file = (w', 0, Some 3) \<and>
     fd_pread 3 1 (Some [Buffer 3]) 4 w' = (w', 0, Some 3, [1, 2, 3]) \<and> length (data (fsys w') 9) = 7"
proof -
  have vs: "all_buffers [Buffer [1, 2], Buffer [3 :: u8]]" by (simp add: all_buffers_def)
  obtain w' r n where w: "fd_pwrite 3 (length [Buffer [1, 2], Buffer [3 :: u8]]) (Some [Buffer [1, 2], Buffer [3]]) 4 one_file = (w', r, n)"
    by (metis prod_cases3)
  show ?thesis
    using pwrite_pread [OF one_file_rdwr(1) vs _ _ _ w] w one_file_rdwr(2)
    by (simp add: UIO_MAXIOV_def MAX_BUFFER_def numeral_2_eq_2 numeral_3_eq_3)
qed

theorem vectors_do_not_matter_witness:
  "fd_pwrite 3 2 (Some [Buffer [1, 2], Buffer [3]]) 4 one_file = fd_pwrite 3 1 (Some [Buffer [1, 2, 3]]) 4 one_file"
  using vectors_do_not_matter [OF one_file_rdwr(1), of "[Buffer [1, 2], Buffer [3]]" 4 "[Buffer 0]"]
  by (simp add: all_buffers_def UIO_MAXIOV_def MAX_BUFFER_def numeral_2_eq_2)

section \<open>Positions\<close>

text \<open>The invariant of the positions of all descriptors.\<close>

definition positions_ok :: "wasmfs \<Rightarrow> bool" where
  "positions_ok w \<longleftrightarrow> (\<forall>x s. open_files w x = Some s \<longrightarrow> 0 \<le> position s \<and> position s \<le> OFF_MAX)"

lemma positions_set:
  "positions_ok w \<Longrightarrow> 0 \<le> p \<Longrightarrow> p \<le> OFF_MAX \<Longrightarrow> positions_ok (set_position o' p w)"
  by (auto simp: positions_ok_def set_position_def on_open_file_def split: if_splits)

lemma positions_fsys: "positions_ok (w\<lparr>fsys := s\<rparr>) = positions_ok w" "positions_ok (on_fs g w) = positions_ok w"
  by (simp_all add: positions_ok_def on_fs_def)

lemma fits_sum: "offset \<le> MAX_OFFSET \<Longrightarrow> fits_iov_range ls offset \<Longrightarrow> offset + sum_list ls \<le> MAX_OFFSET"
proof (induction ls arbitrary: offset)
  case (Cons l ls)
  then have "offset + l \<le> MAX_OFFSET" "fits_iov_range ls (offset + l)" by (auto split: if_splits)
  then show ?case using Cons.IH [of "offset + l"] by simp
qed simp

lemma device_write_result: "snd (device_write f d buf s) \<le> int (length buf)"
  by (auto simp: device_write_def Let_def split: device.splits prod.splits)

lemma file_write_result: "file_write f buf off s = (s', r) \<Longrightarrow> r \<le> int (length buf)"
  using device_write_result [of f _ buf s]
  by (auto simp: file_write_def memory_write_def split: content.splits prod.splits if_splits) (metis snd_conv)+

lemma write_loop_result:
  "write_loop f offset vs got s = (s', Inr n) \<Longrightarrow> n \<le> got + sum_list (map ciov_len vs)"
proof (induction f offset vs got s rule: write_loop.induct)
  case (2 f offset v vs got s)
  show ?case
  proof (cases "ciov_len v = 0")
    case True
    then show ?thesis using 2 by simp
  next
    case False
    then obtain buf where v: "v = Buffer buf" using "2.prems" by (cases v) auto
    obtain s1 r where fw: "file_write f buf (offset + got) s = (s1, r)" by fastforce
    have r: "nat r \<le> length buf" using file_write_result [OF fw] by simp
    show ?thesis
      using "2.IH"(2) [OF False v _ fw [symmetric] refl _ refl] "2.prems" False v fw r
      by (auto simp: Let_def ciov_len_def split: if_splits)
  qed
qed simp

lemma read_stdin_length: "length (fst (read_stdin n cs)) \<le> n"
  by (induction n cs rule: read_stdin.induct) (auto split: prod.splits)

lemma file_read_result: "file_read f n off s = (s', Inr bytes) \<Longrightarrow> length bytes \<le> n"
  using read_stdin_length [of n "stdin_chars s"]
  by (auto simp: file_read_def memory_read_eq Let_def split: content.splits device.splits prod.splits)

lemma read_loop_result:
  "read_loop f offset vs got s = (s', Inr n, bytes) \<Longrightarrow> n \<le> got + sum_list (map iov_len vs)"
proof (induction f offset vs got s arbitrary: bytes rule: read_loop.induct)
  case (2 f offset v vs got s)
  show ?case
  proof (cases "iov_len v = 0")
    case True
    then show ?thesis using 2 by simp
  next
    case False
    then obtain len where v: "v = Buffer len" using "2.prems" by (cases v) auto
    obtain s1 r where fr: "file_read f len (offset + got) s = (s1, r)" by fastforce
    show ?thesis
    proof (cases r)
      case (Inl e)
      then show ?thesis using "2.prems" False v fr by (auto split: if_splits)
    next
      case (Inr b)
      have "length b \<le> len" using file_read_result fr Inr by blast
      then show ?thesis
        using "2.IH"(2) [OF False v fr [symmetric] Inr refl] "2.prems" False v fr Inr
        by (auto simp: Let_def iov_len_def split: if_splits prod.splits)
    qed
  qed
qed simp

lemma max_offset_off_max: "int MAX_OFFSET = OFF_MAX"
  by (simp add: MAX_OFFSET_def OFF_MAX_def)

lemma positions_write:
  assumes "positions_ok w"
  shows "positions_ok (fst (write_at_offset h fd n iovs w))"
proof -
  have do_write: "positions_ok (fst (do_write o' f ap a offset vs w))"
    if "0 \<le> offset" "is_valid_offset (nat offset)" "fits_iov_range (map ciov_len vs) (nat offset)" for o' f ap a offset vs
  proof -
    have le: "offset \<le> OFF_MAX"
      using that(1,2) by (simp add: is_valid_offset_def nat_le_iff max_offset_off_max)
    define w1 where "w1 = (if ap \<and> a then set_position o' offset w else w)"
    have w1: "positions_ok w1" unfolding w1_def using positions_set [OF assms that(1) le] assms by simp
    obtain s1 r where l: "write_loop f (nat offset) vs 0 (fsys w1) = (s1, r)" by fastforce
    show ?thesis
    proof (cases r)
      case (Inl e)
      then show ?thesis using l w1 by (simp add: do_write_def Let_def positions_fsys flip: w1_def)
    next
      case (Inr m)
      have "nat offset + m \<le> MAX_OFFSET"
        using fits_sum [OF that(2) [unfolded is_valid_offset_def] that(3)] write_loop_result [OF l [unfolded Inr]] by simp
      then have "offset + int m \<le> OFF_MAX"
        using that(1) by (simp flip: max_offset_off_max)
      then have "positions_ok (set_position o' (offset + int m) (w1\<lparr>fsys := s1\<rparr>))"
        using positions_set w1 that(1) positions_fsys by simp
      then show ?thesis
        using Inr l w1 by (cases "m = 0") (simp_all add: do_write_def Let_def positions_fsys flip: w1_def)
    qed
  qed
  then show ?thesis
    using assms by (auto simp: write_at_offset_def Let_def split: option.splits)
qed

lemma positions_read:
  assumes "positions_ok w"
  shows "positions_ok (fst (read_at_offset h fd n iovs w))"
proof -
  have do_read: "positions_ok (fst (do_read o' f ap offset vs w))"
    if "0 \<le> offset" "is_valid_offset (nat offset)" "fits_iov_range (map iov_len vs) (nat offset)" for o' f ap offset vs
  proof -
    obtain s1 r bytes where l: "read_loop f (nat offset) vs 0 (fsys w) = (s1, r, bytes)" by (metis prod_cases3)
    show ?thesis
    proof (cases r)
      case (Inl e)
      then show ?thesis using l assms by (simp add: do_read_def positions_fsys)
    next
      case (Inr m)
      have "nat offset + m \<le> MAX_OFFSET"
        using fits_sum [OF that(2) [unfolded is_valid_offset_def] that(3)] read_loop_result [OF l [unfolded Inr]] by simp
      then have "offset + int m \<le> OFF_MAX"
        using that(1) by (simp flip: max_offset_off_max)
      then have "positions_ok (set_position o' (offset + int m) (w\<lparr>fsys := s1\<rparr>))"
        using positions_set assms that(1) positions_fsys by simp
      then show ?thesis using Inr l assms by (simp add: do_read_def Let_def positions_fsys)
    qed
  qed
  then show ?thesis
    using assms by (auto simp: read_at_offset_def Let_def split: option.splits)
qed

text \<open>
  No read, write or seek ever moves a descriptor's position out of the range of \<open>off_t\<close>:
  a write or read whose vector would pass the largest offset is refused before the backend is called, and a seek to
  a negative or too large position is refused. A seek that succeeds moves to exactly the base plus
  the offset, within the caller's limit, and one that fails moves nothing.
\<close>

theorem positions_stay_in_range:
  assumes "positions_ok w" "max_position \<le> OFF_MAX"
  shows "positions_ok (fst (write_at_offset h fd n wv w)) \<and> positions_ok (fst (read_at_offset h fd n rv w)) \<and>
    (case do_fd_seek fd offset wh max_position w of
       (w', r, new) \<Rightarrow> positions_ok w' \<and> (r \<noteq> 0 \<longrightarrow> w' = w \<and> new = None) \<and>
         (r = 0 \<longrightarrow> (\<exists>x p. get_entry w fd = Some x \<and> new = Some p \<and> 0 \<le> p \<and> p \<le> max_position \<and>
            w' = set_position x p w \<and>
            p = (case wh of SEEK_CUR \<Rightarrow> position (open_file w x)
                          | SEEK_END \<Rightarrow> get_size (fsys w) (file_of w x) | _ \<Rightarrow> 0) + offset)))"
proof -
  have err: "admission_error_to_wasi e \<noteq> 0" for e
    by (simp add: admission_error_to_wasi_def operation_error_to_wasi_def)
  have "case do_fd_seek fd offset wh max_position w of
       (w', r, new) \<Rightarrow> positions_ok w' \<and> (r \<noteq> 0 \<longrightarrow> w' = w \<and> new = None) \<and>
         (r = 0 \<longrightarrow> (\<exists>x p. get_entry w fd = Some x \<and> new = Some p \<and> 0 \<le> p \<and> p \<le> max_position \<and>
            w' = set_position x p w \<and>
            p = (case wh of SEEK_CUR \<Rightarrow> position (open_file w x)
                          | SEEK_END \<Rightarrow> get_size (fsys w) (file_of w x) | _ \<Rightarrow> 0) + offset))"
    using assms positions_set [OF assms(1)] err
    by (auto simp: do_fd_seek_def Let_def split: option.splits whence.splits if_splits)
  then show ?thesis using positions_write [OF assms(1)] positions_read [OF assms(1)] by blast
qed

theorem positions_stay_in_range_witness:
  "positions_ok (fst (write_at_offset Position 1 1 (Some [Buffer [65, 10]]) init_wasmfs))"
proof -
  have "positions_ok init_wasmfs"
    by (auto simp: positions_ok_def init_wasmfs_eq OFF_MAX_def split: if_splits)
  then show ?thesis using positions_stay_in_range [of init_wasmfs OFF_MAX] by blast
qed

end
