(* ===== verification/Wasmfs_Syscalls.thy ===== *)
theory Wasmfs_Syscalls
  imports Wasmfs_IO
begin

text \<open>
  The system calls on names: \<open>openat\<close>, \<open>mknodat\<close>, \<open>mkdirat\<close>, \<open>unlinkat\<close>, \<open>wasmfs_unmount\<close>,
  \<open>renameat\<close>, \<open>symlinkat\<close>, \<open>readlinkat\<close>, \<open>chdir\<close>, \<open>fchdir\<close>, \<open>getcwd\<close>, \<open>getdents64\<close>, \<open>faccessat\<close>,
  the mode changes and \<open>newfstatat\<close> of \<open>system/lib/wasmfs/syscalls.cpp\<close>. A backend argument of 0 is
  \<open>NullBackend\<close>. A loop that climbs to the root is a partial function; \<open>None\<close> stands for a loop
  that does not end, and \<open>renameat\<close> gives \<open>None\<close> where the code follows a null pointer.
\<close>

section \<open>Opening\<close>

definition S_IALLUGO :: u32 where "S_IALLUGO = 0xFFF"
definition S_IRWXUGO_VTX :: u32 where "S_IRWXUGO_VTX = 0x3FF"
definition WASMFS_NAME_MAX :: nat where "WASMFS_NAME_MAX = 255"

definition validate_open_flags :: "u32 \<Rightarrow> int" where
  "validate_open_flags flags =
     (let access = flags AND O_ACCMODE
      in if access \<noteq> O_WRONLY \<and> access \<noteq> O_RDONLY \<and> access \<noteq> O_RDWR then - EINVAL
         else if flags AND (O_SYNC OR O_DSYNC) \<noteq> 0 then - ENOTSUP
         else if flags AND O_TMPFILE = O_TMPFILE then - ENOTSUP
         else if flags AND (O_DIRECT OR O_ASYNC OR O_NOATIME) \<noteq> 0 then - ENOTSUP
         else if flags AND NOT (O_CREAT OR O_EXCL OR O_DIRECTORY OR O_TRUNC OR O_APPEND OR O_RDWR OR O_WRONLY OR
                                O_RDONLY OR O_LARGEFILE OR O_NOFOLLOW OR O_CLOEXEC OR O_NONBLOCK OR O_NOCTTY) \<noteq> 0
         then - EINVAL
         else 0)"

definition abandon_open_file :: "nat \<Rightarrow> wasmfs \<Rightarrow> wasmfs \<times> int" where
  "abandon_open_file o' w = (if is_data (fsys w) (file_of w o') then data_close (file_of w o') w else (w, 0))"

definition install_open_file :: "nat \<Rightarrow> wasmfs \<Rightarrow> wasmfs \<times> int" where
  "install_open_file o' w =
     (let (w1, fd) = add_entry o' w
      in if 0 \<le> fd then (w1, fd)
         else
           let (w2, err) = abandon_open_file o' w1
           in if err \<noteq> 0 then (w2, err) else (w2, fd))"

text \<open>The part of \<open>doOpen\<close> that creates a missing file.\<close>

definition create_child ::
  "fid \<Rightarrow> string \<Rightarrow> u32 \<Rightarrow> u32 \<Rightarrow> backend_id \<Rightarrow> bool \<Rightarrow> wasmfs \<Rightarrow> wasmfs \<times> int" where
  "create_child parent name flags mode b return_fd w =
     (if flags AND O_CREAT = 0 then (w, - ENOENT)
      else if get_parent (fsys w) parent = None then (w, - ENOENT)
      else if get_mode (fsys w) parent AND WASMFS_PERM_WRITE = 0 then (w, - EACCES)
      else
        let m = mode AND S_IALLUGO;
            b1 = (if b = NullBackend then get_backend (fsys w) parent else b);
            err = admit_backend w b1
        in if err \<noteq> 0 then (w, err)
           else
             let (s1, created) =
               (if b1 = get_backend (fsys w) parent then insert_data_file parent name m (fsys w)
                else
                  (let (s, f) = create_file m b1 (fsys w); (s', _) = mount_child parent name f s in (s', Some f)))
             in (case created of
                   None \<Rightarrow> (w\<lparr>fsys := s1\<rparr>, - EIO)
                 | Some f \<Rightarrow>
                     if \<not> return_fd then (w\<lparr>fsys := s1\<rparr>, 0)
                     else
                       (case create_open_file f flags (w\<lparr>fsys := s1\<rparr>) of
                          (w1, Inl err) \<Rightarrow> (w1, err)
                        | (w1, Inr o') \<Rightarrow> install_open_file o' w1)))"

text \<open>The part that opens the file found, after links.\<close>

definition open_existing :: "fid \<Rightarrow> u32 \<Rightarrow> wasmfs \<Rightarrow> wasmfs \<times> int" where
  "open_existing child flags w =
     (let access = flags AND O_ACCMODE; m = get_mode (fsys w) child
      in if flags AND O_EXCL \<noteq> 0 \<and> flags AND O_CREAT \<noteq> 0 then (w, - EEXIST)
         else if is_dir (fsys w) child \<and> (access \<noteq> O_RDONLY \<or> flags AND O_CREAT \<noteq> 0) then (w, - EISDIR)
         else if (access = O_RDONLY \<or> access = O_RDWR) \<and> m AND WASMFS_PERM_READ = 0 then (w, - EACCES)
         else if (access = O_WRONLY \<or> access = O_RDWR) \<and> m AND WASMFS_PERM_WRITE = 0 then (w, - EACCES)
         else if flags AND O_DIRECTORY \<noteq> 0 \<and> \<not> is_dir (fsys w) child then (w, - ENOTDIR)
         else
           (case create_open_file child flags w of
              (w1, Inl err) \<Rightarrow> (w1, err)
            | (w1, Inr o') \<Rightarrow>
                if flags AND O_TRUNC = 0 then install_open_file o' w1
                else if \<not> is_data (fsys w1) child then
                  (let (w2, err) = abandon_open_file o' w1 in (w2, if err \<noteq> 0 then err else - EISDIR))
                else if m AND WASMFS_PERM_WRITE = 0 then
                  (let (w2, err) = abandon_open_file o' w1 in (w2, if err \<noteq> 0 then err else - EACCES))
                else
                  let (w2, terr) = set_size child 0 w1
                  in if terr \<noteq> 0 \<and> access \<noteq> O_RDONLY then
                       (let (w3, cerr) = abandon_open_file o' w2 in (w3, if cerr \<noteq> 0 then cerr else terr))
                     else install_open_file o' w2))"

definition do_open ::
  "int + fid \<times> string \<Rightarrow> u32 \<Rightarrow> u32 \<Rightarrow> backend_id \<Rightarrow> bool \<Rightarrow> wasmfs \<Rightarrow> wasmfs \<times> int" where
  "do_open parsed flags mode b return_fd w =
     (if validate_open_flags flags \<noteq> 0 then (w, validate_open_flags flags)
      else
        (case parsed of
           Inl err \<Rightarrow> (w, err)
         | Inr (parent, name) \<Rightarrow>
             if WASMFS_NAME_MAX < length name then (w, - ENAMETOOLONG)
             else
               (case lookup (fsys w) parent name of
                  None \<Rightarrow> create_child parent name flags mode b return_fd w
                | Some child \<Rightarrow>
                    let err = admit_file w child
                    in if err \<noteq> 0 then (w, err)
                       else
                         (case link_target (fsys w) child of
                            None \<Rightarrow> open_existing child flags w
                          | Some target \<Rightarrow>
                              if flags AND O_NOFOLLOW \<noteq> 0 then (w, - ELOOP)
                              else
                                (case get_file_from w parent target of
                                   Inl err \<Rightarrow> (w, err)
                                 | Inr child1 \<Rightarrow> open_existing child1 flags w)))))"

definition syscall_openat :: "u32 \<Rightarrow> string \<Rightarrow> u32 \<Rightarrow> u32 \<Rightarrow> wasmfs \<Rightarrow> wasmfs \<times> int" where
  "syscall_openat dirfd path flags mode w =
     (if validate_open_flags flags \<noteq> 0 then (w, validate_open_flags flags)
      else do_open (parse_parent w path dirfd) flags mode NullBackend True w)"

definition wasmfs_create_file :: "string \<Rightarrow> u32 \<Rightarrow> backend_id \<Rightarrow> wasmfs \<Rightarrow> wasmfs \<times> int" where
  "wasmfs_create_file path mode b w =
     do_open (parse_parent w path AT_FDCWD) (O_CREAT OR O_EXCL OR O_RDWR) mode b True w"

definition S_IFBLK :: u32 where "S_IFBLK = 0x6000"
definition S_IFIFO :: u32 where "S_IFIFO = 0x1000"
definition S_IFSOCK :: u32 where "S_IFSOCK = 0xC000"

definition syscall_mknodat :: "u32 \<Rightarrow> string \<Rightarrow> u32 \<Rightarrow> wasmfs \<Rightarrow> wasmfs \<times> int" where
  "syscall_mknodat dirfd path mode w =
     (let t = mode AND S_IFMT
      in if t = 0 \<or> t = S_IFREG
         then do_open (parse_parent w path dirfd) (O_CREAT OR O_EXCL) mode NullBackend False w
         else if t = S_IFCHR \<or> t = S_IFBLK \<or> t = S_IFIFO \<or> t = S_IFSOCK then (w, - ENOTSUP)
         else (w, - EINVAL))"

section \<open>Directories and links\<close>

definition do_mkdir :: "int + fid \<times> string \<Rightarrow> u32 \<Rightarrow> backend_id \<Rightarrow> wasmfs \<Rightarrow> wasmfs \<times> int" where
  "do_mkdir parsed mode b w =
     (case parsed of
        Inl err \<Rightarrow> (w, err)
      | Inr (parent, name) \<Rightarrow>
          if WASMFS_NAME_MAX < length name then (w, - ENAMETOOLONG)
          else
            (case lookup (fsys w) parent name of
               Some child \<Rightarrow> let err = admit_file w child in (w, if err \<noteq> 0 then err else - EEXIST)
             | None \<Rightarrow>
                 let m = mode AND S_IRWXUGO_VTX
                 in if get_mode (fsys w) parent AND WASMFS_PERM_WRITE = 0 then (w, - EACCES)
                    else
                      let b1 = (if b = NullBackend then get_backend (fsys w) parent else b);
                          err = admit_backend w b1
                      in if err \<noteq> 0 then (w, err)
                         else if b1 = get_backend (fsys w) parent then
                           (case insert_directory parent name m (fsys w) of
                              (s1, None) \<Rightarrow> (w\<lparr>fsys := s1\<rparr>, - EIO)
                            | (s1, Some _) \<Rightarrow> (w\<lparr>fsys := s1\<rparr>, 0))
                         else
                           let (s, f) = create_directory m b1 (fsys w);
                               (s1, _) = mount_child parent name f s
                           in (w\<lparr>fsys := s1\<rparr>, 0)))"

definition syscall_mkdirat :: "u32 \<Rightarrow> string \<Rightarrow> u32 \<Rightarrow> wasmfs \<Rightarrow> wasmfs \<times> int" where
  "syscall_mkdirat dirfd path mode w = do_mkdir (parse_parent w path dirfd) mode NullBackend w"

definition wasmfs_create_directory :: "string \<Rightarrow> u32 \<Rightarrow> backend_id \<Rightarrow> wasmfs \<Rightarrow> wasmfs \<times> int" where
  "wasmfs_create_directory path mode b w = do_mkdir (parse_parent w path AT_FDCWD) mode b w"

definition syscall_symlinkat :: "string \<Rightarrow> u32 \<Rightarrow> string \<Rightarrow> wasmfs \<Rightarrow> wasmfs \<times> int" where
  "syscall_symlinkat target newdirfd path w =
     (case parse_parent w path newdirfd of
        Inl err \<Rightarrow> (w, err)
      | Inr (parent, name) \<Rightarrow>
          if WASMFS_NAME_MAX < length name then (w, - ENAMETOOLONG)
          else
            (case lookup (fsys w) parent name of
               Some child \<Rightarrow> let err = admit_file w child in (w, if err \<noteq> 0 then err else - EEXIST)
             | None \<Rightarrow>
                 (case insert_symlink parent name target (fsys w) of
                    (s1, None) \<Rightarrow> (w\<lparr>fsys := s1\<rparr>, - EPERM)
                  | (s1, Some _) \<Rightarrow> (w\<lparr>fsys := s1\<rparr>, 0))))"

text \<open>The result, and the bytes copied to the buffer.\<close>

definition syscall_readlinkat :: "u32 \<Rightarrow> string \<Rightarrow> nat \<Rightarrow> wasmfs \<Rightarrow> int \<times> string" where
  "syscall_readlinkat dirfd path bufsize w =
     (case parse_file w path dirfd False of
        Inl err \<Rightarrow> (err, [])
      | Inr f \<Rightarrow>
          (case link_target (fsys w) f of
             None \<Rightarrow> (- EINVAL, [])
           | Some target \<Rightarrow> (int (min bufsize (length target)), take (min bufsize (length target)) target)))"

definition ends_in_dot :: "string \<Rightarrow> bool" where
  "ends_in_dot path =
     (let p = remove_trailing path in 2 \<le> length p \<and> drop (length p - 2) p = ''/.'')"

definition syscall_unlinkat :: "u32 \<Rightarrow> string \<Rightarrow> u32 \<Rightarrow> wasmfs \<Rightarrow> wasmfs \<times> int" where
  "syscall_unlinkat dirfd path flags w =
     (if flags AND NOT AT_REMOVEDIR \<noteq> 0 then (w, - EINVAL)
      else if flags = AT_REMOVEDIR \<and> ends_in_dot path then (w, - EINVAL)
      else
        (case parse_parent w path dirfd of
           Inl err \<Rightarrow> (w, err)
         | Inr (parent, name) \<Rightarrow>
             (case lookup (fsys w) parent name of
                None \<Rightarrow> (w, - ENOENT)
              | Some f \<Rightarrow>
                  let err = admit_file w f;
                      s = fsys w;
                      derr =
                        (if is_dir s f then
                           (if flags \<noteq> AT_REMOVEDIR then - EISDIR
                            else if get_backend s parent \<noteq> get_backend s f then - EBUSY
                            else if 0 < get_num_entries s f then - ENOTEMPTY
                            else 0)
                         else if flags = AT_REMOVEDIR then - ENOTDIR else 0)
                  in if err \<noteq> 0 then (w, err)
                     else if f = root_dir w then (w, - EBUSY)
                     else if derr \<noteq> 0 then (w, derr)
                     else if get_mode s parent AND WASMFS_PERM_WRITE = 0 then (w, - EACCES)
                     else (let (s1, r) = remove_child parent name s in (w\<lparr>fsys := s1\<rparr>, r)))))"

definition syscall_rmdir :: "string \<Rightarrow> wasmfs \<Rightarrow> wasmfs \<times> int" where
  "syscall_rmdir path = syscall_unlinkat AT_FDCWD path AT_REMOVEDIR"

partial_function (option) at_or_below :: "fs \<Rightarrow> fid \<Rightarrow> fid \<Rightarrow> bool option" where
  "at_or_below s f d =
     (if f = d then Some True
      else
        (case get_parent s f of
           None \<Rightarrow> Some False
         | Some p \<Rightarrow> if p = f then Some False else at_or_below s p d))"

text \<open>
  \<open>wasmfs_unmount\<close>. The check that no other thread has changed the mount point meanwhile
  succeeds at once in a sequential run. File objects are never destroyed, so the children of a mount that is removed keep it as
  their parent, where the weak pointer of the code may have expired.
\<close>

definition wasmfs_unmount :: "string \<Rightarrow> wasmfs \<Rightarrow> (wasmfs \<times> int) option" where
  "wasmfs_unmount path w =
     (case parse_parent w path AT_FDCWD of
        Inl err \<Rightarrow> Some (w, err)
      | Inr (parent, name) \<Rightarrow>
          (case lookup (fsys w) parent name of
             None \<Rightarrow> Some (w, - ENOENT)
           | Some f \<Rightarrow>
               let err = admit_file w f
               in if err \<noteq> 0 then Some (w, err)
                  else if f = root_dir w then Some (w, - EBUSY)
                  else if \<not> is_dir (fsys w) f then Some (w, - ENOTDIR)
                  else if get_backend (fsys w) parent = get_backend (fsys w) f then Some (w, - EINVAL)
                  else
                    (case at_or_below (fsys w) (cwd w) f of
                       None \<Rightarrow> None
                     | Some True \<Rightarrow> Some (w, - EBUSY)
                     | Some False \<Rightarrow>
                         (let (s1, r) = remove_child parent name (fsys w) in Some (w\<lparr>fsys := s1\<rparr>, r)))))"

section \<open>Renaming\<close>

datatype climb = Found | Reached_root | Null_parent

partial_function (option) rename_climb :: "fs \<Rightarrow> fid \<Rightarrow> fid \<Rightarrow> fid \<Rightarrow> climb option" where
  "rename_climb s r f old =
     (if f = r then Some Reached_root
      else if f = old then Some Found
      else
        (case get_parent s f of
           None \<Rightarrow> Some Null_parent
         | Some p \<Rightarrow> rename_climb s r p old))"

definition overwrite_error :: "fs \<Rightarrow> fid \<Rightarrow> fid option \<Rightarrow> int" where
  "overwrite_error s old new =
     (case new of
        None \<Rightarrow> 0
      | Some n \<Rightarrow>
          if is_dir s n then
            (if \<not> is_dir s old then - EISDIR
             else if 0 < get_num_entries s n then - ENOTEMPTY
             else 0)
          else if is_dir s old then - ENOTDIR
          else 0)"

definition syscall_renameat :: "u32 \<Rightarrow> string \<Rightarrow> u32 \<Rightarrow> string \<Rightarrow> wasmfs \<Rightarrow> (wasmfs \<times> int) option" where
  "syscall_renameat olddirfd oldpath newdirfd newpath w =
     (case parse_parent w oldpath olddirfd of
        Inl err \<Rightarrow> Some (w, err)
      | Inr (old_parent, old_name) \<Rightarrow>
          (case parse_parent w newpath newdirfd of
             Inl err \<Rightarrow> Some (w, err)
           | Inr (new_parent, new_name) \<Rightarrow>
               if WASMFS_NAME_MAX < length new_name then Some (w, - ENAMETOOLONG)
               else
                 let s = fsys w;
                     old_file = lookup s old_parent old_name;
                     new_file = lookup s new_parent new_name;
                     err1 = (case old_file of None \<Rightarrow> 0 | Some f \<Rightarrow> admit_file w f);
                     err2 = (case new_file of None \<Rightarrow> 0 | Some f \<Rightarrow> admit_file w f)
                 in if err1 \<noteq> 0 then Some (w, err1)
                    else if err2 \<noteq> 0 then Some (w, err2)
                    else
                      (case old_file of
                         None \<Rightarrow> Some (w, - ENOENT)
                       | Some old \<Rightarrow>
                           if new_file = Some old then Some (w, 0)
                           else if old = root_dir w \<or> new_file = Some (root_dir w) then Some (w, - EBUSY)
                           else if get_mode s old_parent AND WASMFS_PERM_WRITE = 0 \<or>
                                   get_mode s new_parent AND WASMFS_PERM_WRITE = 0 then Some (w, - EACCES)
                           else if get_backend s old_parent \<noteq> get_backend s new_parent then Some (w, - EXDEV)
                           else
                             (case rename_climb s (root_dir w) new_parent old of
                                None \<Rightarrow> None
                              | Some Null_parent \<Rightarrow> None
                              | Some Found \<Rightarrow> Some (w, - EINVAL)
                              | Some Reached_root \<Rightarrow>
                                  if overwrite_error s old new_file \<noteq> 0
                                  then Some (w, overwrite_error s old new_file)
                                  else
                                    (let (s1, r) = insert_move new_parent new_name old s
                                     in Some (w\<lparr>fsys := s1\<rparr>, r))))))"

section \<open>The current directory\<close>

definition do_chdir :: "fid \<Rightarrow> wasmfs \<Rightarrow> wasmfs \<times> int" where
  "do_chdir f w = (if is_dir (fsys w) f then (w\<lparr>cwd := f\<rparr>, 0) else (w, - ENOTDIR))"

definition syscall_chdir :: "string \<Rightarrow> wasmfs \<Rightarrow> wasmfs \<times> int" where
  "syscall_chdir path w =
     (case parse_file w path AT_FDCWD True of Inl err \<Rightarrow> (w, err) | Inr f \<Rightarrow> do_chdir f w)"

definition syscall_fchdir :: "u32 \<Rightarrow> wasmfs \<Rightarrow> wasmfs \<times> int" where
  "syscall_fchdir fd w =
     (case get_entry w fd of
        None \<Rightarrow> (w, - EBADF)
      | Some o' \<Rightarrow>
          let f = file_of w o'; err = admit_file w f
          in if err \<noteq> 0 then (w, err) else do_chdir f w)"

partial_function (option) getcwd_loop :: "wasmfs \<Rightarrow> fid \<Rightarrow> string \<Rightarrow> (int + string) option" where
  "getcwd_loop w f result =
     (if f = root_dir w then Some (Inr result)
      else if admit_file w f \<noteq> 0 then Some (Inl (admit_file w f))
      else
        (case get_parent (fsys w) f of
           None \<Rightarrow> Some (Inl (- ENOENT))
         | Some p \<Rightarrow> getcwd_loop w p (''/'' @ get_name (fsys w) p f @ result)))"

text \<open>The result, and the string copied to the buffer; \<open>buf\<close> tells whether the pointer is not null.\<close>

definition syscall_getcwd :: "bool \<Rightarrow> nat \<Rightarrow> wasmfs \<Rightarrow> (int \<times> string option) option" where
  "syscall_getcwd buf sz w =
     (if \<not> buf \<and> 0 < sz then Some (- EFAULT, None)
      else if buf \<and> sz = 0 then Some (- EINVAL, None)
      else if admit_file w (cwd w) \<noteq> 0 then Some (admit_file w (cwd w), None)
      else
        (case getcwd_loop w (cwd w) [] of
           None \<Rightarrow> None
         | Some (Inl err) \<Rightarrow> Some (err, None)
         | Some (Inr result) \<Rightarrow>
             let path = (if result = [] then ''/'' else result); len = length path + 1
             in if sz < len then Some (- ERANGE, None) else Some (int len, Some path)))"

section \<open>Listing\<close>

text \<open>\<open>sizeof(dirent)\<close> and \<open>sizeof(d_name)\<close>.\<close>

definition DIRENT_SIZE :: nat where "DIRENT_SIZE = 280"
definition D_NAME_SIZE :: nat where "D_NAME_SIZE = 256"

text \<open>The result and the records written, each with its offset cookie.\<close>

definition syscall_getdents64 :: "u32 \<Rightarrow> nat \<Rightarrow> wasmfs \<Rightarrow> wasmfs \<times> int \<times> (dirent \<times> int) list" where
  "syscall_getdents64 fd room w =
     (if room div DIRENT_SIZE = 0 then (w, - EINVAL, [])
      else
        (case get_entry w fd of
           None \<Rightarrow> (w, - EBADF, [])
         | Some o' \<Rightarrow>
             let f = file_of w o'; err = admit_file w f; index = position (open_file w o');
                 ds = dirents (open_file w o')
             in if err \<noteq> 0 then (w, err, [])
                else if \<not> is_dir (fsys w) f then (w, - ENOTDIR, [])
                else if get_parent (fsys w) f = None then (w, 0, [])
                else if index < 0 then (w, - EINVAL, [])
                else if length ds \<le> nat index then (w, 0, [])
                else
                  let batch = take (room div DIRENT_SIZE) (drop (nat index) ds)
                  in if list_ex (\<lambda>d. D_NAME_SIZE \<le> length (fst d)) batch then (w, - ENAMETOOLONG, [])
                     else (set_position o' (index + int (length batch)) w, int (length batch * DIRENT_SIZE),
                           zip batch (map (\<lambda>i. index + int i + 1) [0..<length batch]))))"

section \<open>Modes and status\<close>

definition F_OK :: u32 where "F_OK = 0"
definition R_OK :: u32 where "R_OK = 4"
definition W_OK :: u32 where "W_OK = 2"
definition X_OK :: u32 where "X_OK = 1"
definition AT_EACCESS :: u32 where "AT_EACCESS = 0x200"

definition syscall_faccessat :: "u32 \<Rightarrow> string \<Rightarrow> u32 \<Rightarrow> u32 \<Rightarrow> wasmfs \<Rightarrow> int" where
  "syscall_faccessat dirfd path amode flags w =
     (if amode \<noteq> F_OK \<and> amode AND NOT (R_OK OR W_OK OR X_OK) \<noteq> 0 then - EINVAL
      else if flags AND NOT (AT_EACCESS OR AT_SYMLINK_NOFOLLOW) \<noteq> 0 then - EINVAL
      else
        (case parse_file w path dirfd True of
           Inl err \<Rightarrow> err
         | Inr f \<Rightarrow>
             let m = get_mode (fsys w) f
             in if amode = F_OK then 0
                else if amode AND R_OK \<noteq> 0 \<and> m AND WASMFS_PERM_READ = 0 then - EACCES
                else if amode AND W_OK \<noteq> 0 \<and> m AND WASMFS_PERM_WRITE = 0 then - EACCES
                else if amode AND X_OK \<noteq> 0 \<and> m AND WASMFS_PERM_EXECUTE = 0 then - EACCES
                else 0))"

text \<open>\<open>mutable\<close> is \<open>supportsExplicitMetadataMutation\<close> of a backend.\<close>

definition can_mutate :: "(backend_id \<Rightarrow> bool) \<Rightarrow> wasmfs \<Rightarrow> fid \<Rightarrow> bool" where
  "can_mutate mutable w f \<longleftrightarrow> get_backend (fsys w) f = NullBackend \<or> mutable (get_backend (fsys w) f)"

definition change_mode :: "(backend_id \<Rightarrow> bool) \<Rightarrow> fid \<Rightarrow> u32 \<Rightarrow> wasmfs \<Rightarrow> wasmfs \<times> int" where
  "change_mode mutable f m w =
     (if \<not> can_mutate mutable w f then (w, - ENOTSUP)
      else (on_fs (\<lambda>s. update_ctime f (set_mode f m s)) w, 0))"

definition syscall_fchmodat2 :: "(backend_id \<Rightarrow> bool) \<Rightarrow> u32 \<Rightarrow> string \<Rightarrow> u32 \<Rightarrow> u32 \<Rightarrow> wasmfs \<Rightarrow> wasmfs \<times> int" where
  "syscall_fchmodat2 mutable dirfd path m flags w =
     (if flags AND NOT AT_SYMLINK_NOFOLLOW \<noteq> 0 then (w, - EINVAL)
      else
        (case get_file_at w dirfd path flags of
           Inl err \<Rightarrow> (w, err)
         | Inr f \<Rightarrow> change_mode mutable f m w))"

definition syscall_fchmod :: "(backend_id \<Rightarrow> bool) \<Rightarrow> u32 \<Rightarrow> u32 \<Rightarrow> wasmfs \<Rightarrow> wasmfs \<times> int" where
  "syscall_fchmod mutable fd m w =
     (case get_entry w fd of
        None \<Rightarrow> (w, - EBADF)
      | Some o' \<Rightarrow>
          let f = file_of w o'; err = admit_file w f
          in if err \<noteq> 0 then (w, err) else change_mode mutable f m w)"

definition syscall_fchownat :: "u32 \<Rightarrow> string \<Rightarrow> int \<Rightarrow> int \<Rightarrow> u32 \<Rightarrow> wasmfs \<Rightarrow> int" where
  "syscall_fchownat dirfd path uid gid flags w =
     (if flags AND NOT (AT_EMPTY_PATH OR AT_SYMLINK_NOFOLLOW) \<noteq> 0 then - EINVAL
      else
        (case get_file_at w dirfd path flags of
           Inl err \<Rightarrow> err
         | Inr f \<Rightarrow> if uid = - 1 \<and> gid = - 1 then 0 else - ENOTSUP))"

record stat =
  st_size :: int
  st_mode :: u32
  st_ino :: nat
  st_nlink :: nat
  st_blocks :: int

definition syscall_newfstatat :: "u32 \<Rightarrow> string \<Rightarrow> u32 \<Rightarrow> wasmfs \<Rightarrow> int + stat" where
  "syscall_newfstatat dirfd path flags w =
     (if flags AND NOT (AT_EMPTY_PATH OR AT_NO_AUTOMOUNT OR AT_SYMLINK_NOFOLLOW) \<noteq> 0 then Inl (- EINVAL)
      else
        (case get_file_at w dirfd path flags of
           Inl err \<Rightarrow> Inl err
         | Inr f \<Rightarrow>
             let sz = get_size (fsys w) f
             in if sz < 0 then Inl sz
                else Inr \<lparr>st_size = sz, st_mode = get_mode (fsys w) f, st_ino = f, st_nlink = 1,
                          st_blocks = (sz + 511) div 512\<rparr>))"

section \<open>What resolution gives\<close>

lemma parse_segments_dir:
  assumes "is_dir (fsys w) dir" "parse_segments w pf n path dir rec = Some (Inr (p, name), rec')"
  shows "is_dir (fsys w) p"
  using assms
proof (induction w pf n path dir rec rule: parse_segments.induct)
  case (1 w pf n path0 dir rec)
  define path where "path = dropWhile is_sep path0"
  show ?case
  proof (cases "list_ex is_sep path")
    case False
    then show ?thesis
      using "1.prems" by (subst (asm) parse_segments.simps) (simp add: Let_def split: if_splits flip: path_def)
  next
    case True
    let ?c = "path_child w pf n dir (takeWhile (\<lambda>c. \<not> is_sep c) path) True rec"
    have eq: "parse_segments w pf n path0 dir rec =
        (case ?c of None \<Rightarrow> None
         | Some (Inl err, rec1) \<Rightarrow> Some (Inl err, rec1)
         | Some (Inr child, rec1) \<Rightarrow>
             if \<not> is_dir (fsys w) child then Some (Inl (- ENOTDIR), rec1)
             else parse_segments w pf n (dropWhile (\<lambda>c. \<not> is_sep c) path) child rec1)"
      using True by (subst parse_segments.simps) (simp add: Let_def flip: path_def)
    then obtain child rec1 where c: "?c = Some (Inr child, rec1)" "is_dir (fsys w) child"
      "parse_segments w pf n (dropWhile (\<lambda>c. \<not> is_sep c) path) child rec1 = Some (Inr (p, name), rec')"
      using "1.prems"(2) by (auto split: option.splits sum.splits prod.splits if_splits)
    show ?thesis
      by (rule "1.IH" [OF path_def _ refl c(1) refl refl _ c(2,3)]) (use True c(2) in simp_all)
  qed
qed

lemma starting_dir_is_dir:
  assumes "wasmfs_inv w" "starting_dir w path fd = Inr d"
  shows "is_dir (fsys w) d"
  using assms treeD(1) [OF wasmfs_invD(1) [OF assms(1)]] wasmfs_invD(4) [OF assms(1)]
  by (auto simp: starting_dir_def get_base_dir_def Let_def split: if_splits option.splits)

lemma do_parse_parent_dir:
  assumes "wasmfs_inv w" "is_dir (fsys w) base" "do_parse_parent w pf n path base rec = Some (Inr (p, name), rec')"
  shows "is_dir (fsys w) p"
proof -
  have "is_dir (fsys w) (root_dir w)" using treeD(1) [OF wasmfs_invD(1) [OF assms(1)]] .
  then show ?thesis
    using assms(2,3) parse_segments_dir [of w] by (auto simp: do_parse_parent_def Let_def split: if_splits)
qed

lemma parse_parent_dir:
  assumes "wasmfs_inv w" "parse_parent w path fd = Inr (p, name)"
  shows "is_dir (fsys w) p"
proof -
  obtain base where b: "starting_dir w path fd = Inr base"
    "parsed_result (do_parse_parent w (do_parse_file w path_fuel True) (Suc path_fuel) path base 0) = Inr (p, name)"
    using assms(2) by (auto simp: parse_parent_def split: sum.splits)
  have fuel: "MAX_RECURSIONS < Suc path_fuel + 0" by (simp add: path_fuel_def)
  obtain r rec where "do_parse_parent w (do_parse_file w path_fuel True) (Suc path_fuel) path base 0 = Some (r, rec)"
    using do_parse_parent_ends [OF do_parse_file_ends fuel] by blast
  then have "do_parse_parent w (do_parse_file w path_fuel True) (Suc path_fuel) path base 0 = Some (Inr (p, name), rec)"
    using b(2) by (simp add: parsed_result_def)
  then show ?thesis using do_parse_parent_dir [OF assms(1) starting_dir_is_dir [OF assms(1) b(1)]] by blast
qed

lemma lookup_exists:
  assumes "tree r s" "lookup s d name = Some f"
  shows "files s f \<noteq> None"
proof -
  obtain p where p: "get_parent s d = Some p" using assms(2) by (auto simp: lookup_eq split: option.splits)
  consider "f = d" | "f = p" | "f \<in> set (all_children s d)"
    using assms(2) p map_of_SomeD [of "entries s d"] map_of_SomeD [of "mounts s d"] entries_child [of _ _ s d]
      mounts_child [of _ _ _ s d]
    by (fastforce simp: lookup_eq split: if_splits option.splits)
  then show ?thesis
    using p parent_exists [of s] is_dir_exists [OF treeD(4) [OF assms(1) p]] treeD(5) [OF assms(1)]
    by cases blast+
qed

section \<open>The system calls keep the invariant\<close>

text \<open>A change of the directory structure that keeps the tree and what is a data file.\<close>

lemma inv_fs_step:
  assumes inv: "wasmfs_inv w" and t: "tree (root_dir w) s"
    and ex: "\<And>x. files (fsys w) x \<noteq> None \<Longrightarrow> files s x \<noteq> None \<and> is_data s x = is_data (fsys w) x"
    and cwd: "is_dir s (cwd w)"
  shows "wasmfs_inv (w\<lparr>fsys := s\<rparr>)"
proof -
  note I = wasmfs_invD [OF inv]
  have live: "live_states (w\<lparr>fsys := s\<rparr>) g = live_states w g" for g by (simp add: live_states_def)
  have none: "live_states w g = {} \<and> opened w g = 0" if "files (fsys w) g = None" for g
  proof -
    have "live_states w g = {}" using that table_inv_state(3) [OF I(2)] by (fastforce simp: live_states_def)
    then show ?thesis using I(3) by (simp add: handles_inv_def)
  qed
  have "handles_inv (\<lambda>_. 0) (w\<lparr>fsys := s\<rparr>)"
    unfolding handles_inv_def
  proof
    fix g
    show "opened (w\<lparr>fsys := s\<rparr>) g = (if is_data (fsys (w\<lparr>fsys := s\<rparr>)) g
        then int (card (live_states (w\<lparr>fsys := s\<rparr>) g)) else 0) + 0"
    proof (cases "files (fsys w) g = None")
      case True
      then show ?thesis using none [OF True] by (simp add: live)
    next
      case False
      then show ?thesis using I(3) ex [OF False] by (simp add: live handles_inv_def)
    qed
  qed
  moreover have "table_inv (w\<lparr>fsys := s\<rparr>)"
    using I(2) ex by (simp add: table_inv_def)
  ultimately show ?thesis using t cwd by (simp add: wasmfs_inv_def)
qed

text \<open>A state that has been created and not installed.\<close>

definition pending :: "wasmfs \<Rightarrow> nat \<Rightarrow> fid \<Rightarrow> bool" where
  "pending w n f \<longleftrightarrow>
     tree (root_dir w) (fsys w) \<and> is_dir (fsys w) (cwd w) \<and> table_inv w \<and>
     handles_inv (\<lambda>g. if g = f \<and> is_data (fsys w) f then 1 else 0) w \<and>
     open_files w n \<noteq> None \<and> uses (open_file w n) = 0 \<and> file_of w n = f"

lemma pending_created:
  assumes inv: "wasmfs_inv w" and f: "files (fsys w) f \<noteq> None" and c: "create_open_file f fl w = (w', Inr n)"
  shows "pending w' n f"
proof -
  note I = wasmfs_invD [OF inv]
  note C = create_open_file_ok [OF I(2,3) f c]
  have "handles_inv (\<lambda>g. if g = f \<and> is_data (fsys w') f then 1 else 0) w'"
    by (rule handles_ext [OF C(2)]) (simp add: C(3))
  then show ?thesis using C I by (simp add: pending_def)
qed

lemma create_open_file_error: "create_open_file f fl w = (w', Inl err) \<Longrightarrow> w' = w"
  by (auto simp: create_open_file_def data_open_def Let_def split: if_splits prod.splits)

lemma pending_abandon:
  assumes "pending w n f" "abandon_open_file n w = (w', r)"
  shows "wasmfs_inv w'"
proof (cases "is_data (fsys w) f")
  case False
  have "handles_inv (\<lambda>_. 0) w"
    using assms(1) False by (auto simp: pending_def elim: handles_ext)
  then show ?thesis using assms False by (simp add: abandon_open_file_def pending_def wasmfs_inv_def)
next
  case True
  then have d: "data_close f w = (w', r)" using assms by (simp add: abandon_open_file_def pending_def)
  have t: "table_inv w" and h: "handles_inv (\<lambda>g. if g = f \<and> is_data (fsys w) f then 1 else 0) w"
    using assms(1) by (simp_all add: pending_def)
  note D = data_close_inv [OF t h d]
  have "handles_inv (\<lambda>_. 0) w'" by (rule handles_ext [OF D(2)]) (use True in auto)
  then show ?thesis using D assms(1) by (simp add: pending_def wasmfs_inv_def)
qed

lemma pending_install:
  assumes o: "pending w n f" and i: "install_open_file n w = (w', r)"
  shows "wasmfs_inv w'"
proof -
  obtain w1 fd where a: "add_entry n w = (w1, fd)" by fastforce
  have h: "handles_inv (\<lambda>g. 0 + (if g = f \<and> is_data (fsys w) f then 1 else 0)) w"
    using o by (auto simp: pending_def elim: handles_ext)
  have p: "table_inv w" "tree (root_dir w) (fsys w)" "is_dir (fsys w) (cwd w)" "open_files w n \<noteq> None"
    "uses (open_file w n) = 0" "file_of w n = f" using o by (simp_all add: pending_def)
  note A = install_inv [where extra = "\<lambda>_. 0", OF p(1) h p(2-6) a]
  show ?thesis
  proof (cases "0 \<le> fd")
    case True
    then show ?thesis using i a A(1-3) A(6) by (simp add: install_open_file_def wasmfs_inv_def)
  next
    case False
    then have "w1 = w" using A(7) by simp
    obtain w2 err where ab: "abandon_open_file n w = (w2, err)" by fastforce
    then have "w' = w2" using i a False \<open>w1 = w\<close> by (auto simp: install_open_file_def split: if_splits)
    then show ?thesis using pending_abandon [OF o ab] by simp
  qed
qed

lemma pending_quiet:
  assumes "quiet w w'" "pending w n f"
  shows "pending w' n f"
proof -
  obtain s where s: "open_files w n = Some s" "uses s = 0" "of_file s = f"
    using assms(2) by (auto simp: pending_def open_file_def file_of_def)
  obtain s' where "open_files w' n = Some s'" "of_file s' = of_file s" "uses s' = uses s"
    by (rule quiet_sym_states [OF assms(1) s(1)])
  moreover have "is_data (fsys w') f = is_data (fsys w) f" using assms(1) by (simp add: quiet_def shape_eq_def)
  ultimately show ?thesis
    using assms(2) s quiet_tree [OF assms(1)] quiet_table [OF assms(1)] quiet_handles [OF assms(1)]
    by (simp add: pending_def open_file_def file_of_def)
qed

lemma inv_open_existing:
  assumes inv: "wasmfs_inv w" and f: "files (fsys w) f \<noteq> None" and r: "open_existing f flags w = (w', r)"
  shows "wasmfs_inv w'"
proof (cases "\<exists>w1 n. create_open_file f flags w = (w1, Inr n)")
  case False
  then obtain err where "create_open_file f flags w = (w, Inl err)"
    using create_open_file_error by (metis obj_sumE surj_pair)
  then show ?thesis using r inv by (auto simp: open_existing_def Let_def split: if_splits)
next
  case True
  then obtain w1 n where c: "create_open_file f flags w = (w1, Inr n)" by blast
  have p: "pending w1 n f" by (rule pending_created [OF inv f c])
  obtain wi ri where i: "install_open_file n w1 = (wi, ri)" by fastforce
  obtain wa ra where a: "abandon_open_file n w1 = (wa, ra)" by fastforce
  obtain w2 terr where t: "set_size f 0 w1 = (w2, terr)" by fastforce
  obtain wi2 ri2 where i2: "install_open_file n w2 = (wi2, ri2)" by fastforce
  obtain wa2 ra2 where a2: "abandon_open_file n w2 = (wa2, ra2)" by fastforce
  have p2: "pending w2 n f" if "is_data (fsys w1) f"
    using pending_quiet [OF _ p] quiet_set_size [OF that, of 0] t by simp
  show ?thesis
    using r inv c i a t i2 a2 pending_install [OF p i] pending_abandon [OF p a]
      pending_install [OF p2 i2] pending_abandon [OF p2 a2]
    by (auto simp: open_existing_def Let_def split: if_splits)
qed

lemma is_data_insert:
  assumes "tree r s" "insert_created (create_node c m) d name s = (s', q)" "is_dir s d" "get_parent s d \<noteq> None"
    "files s x \<noteq> None"
  shows "is_data s' x = is_data s x"
proof -
  obtain s1 g where cr: "create_node c m (get_backend s d) s = (s1, g)" by fastforce
  have fresh: "files s (next_fid s) = None" using treeD(3) [OF assms(1)] by simp
  note R = create_node_readings [OF cr fresh]
  have ne: "x \<noteq> g" using assms(5) fresh R(1) by auto
  have dg: "g \<noteq> d" using is_dir_exists [OF assms(3)] fresh R(1) by auto
  have d1: "is_dir s1 d" using assms(3) dg by (simp add: R(3))
  have s': "s' = update_mtime d (set_parent g (Some d) (set_entries d (entries s1 d @ [(name, g)]) s1))"
    using assms(2,4) cr
    by (auto simp: insert_created_def cache_child_def maintains_file_identity_def memory_insert_child_def
        split: option.splits)
  have "is_data s1 x = is_data s x" using cr ne by (auto simp: create_node_def is_data_def)
  then show ?thesis using d1 by (simp add: s' readings)
qed

lemma inv_insert:
  assumes inv: "wasmfs_inv w" and c: "create = create_node ct m" "fresh_content ct"
    and d: "is_dir (fsys w) d" and n: "lookup (fsys w) d name = None"
    and i: "insert_created create d name (fsys w) = (s, r)"
  shows "wasmfs_inv (w\<lparr>fsys := s\<rparr>)" "r = (if get_parent (fsys w) d = None then None else Some (next_fid (fsys w)))"
    "r \<noteq> None \<Longrightarrow> files s (next_fid (fsys w)) \<noteq> None"
proof -
  note I = wasmfs_invD [OF inv]
  have cr: "creator create" using c by (auto simp: creator_def)
  have main: "wasmfs_inv (w\<lparr>fsys := s\<rparr>) \<and>
    r = (if get_parent (fsys w) d = None then None else Some (next_fid (fsys w))) \<and>
    (r \<noteq> None \<longrightarrow> files s (next_fid (fsys w)) \<noteq> None)"
  proof (cases "get_parent (fsys w) d")
    case None
    then have "s = fsys w" "r = None" using i by (simp_all add: insert_created_def)
    moreover have "w\<lparr>fsys := fsys w\<rparr> = w" by (cases w) simp
    ultimately show ?thesis using inv None by simp
  next
    case (Some p)
    then have p: "get_parent (fsys w) d \<noteq> None" by simp
    note R = insert_created_readings [OF I(1) cr d p i]
    have t: "tree (root_dir w) s"
      by (rule tree_insert_created [OF I(1) cr d p lookup_none_not_listed(1) [OF n p] i])
    have cn: "next_fid (fsys w) \<noteq> cwd w" using treeD(3) [OF I(1)] is_dir_exists [OF I(4)] by auto
    have "wasmfs_inv (w\<lparr>fsys := s\<rparr>)"
    proof (rule inv_fs_step [OF inv t])
      show "files s x \<noteq> None \<and> is_data s x = is_data (fsys w) x" if "files (fsys w) x \<noteq> None" for x
        using R(8) [of x] that is_data_insert [OF I(1) i [unfolded c] d p that] by blast
      show "is_dir s (cwd w)" using R(7) [of "cwd w"] cn I(4) by simp
    qed
    then show ?thesis using R(1,8) p by simp
  qed
  then show "wasmfs_inv (w\<lparr>fsys := s\<rparr>)" "r = (if get_parent (fsys w) d = None then None else Some (next_fid (fsys w)))"
    "r \<noteq> None \<Longrightarrow> files s (next_fid (fsys w)) \<noteq> None" by blast+
qed

lemma is_data_mount:
  assumes "mount_child d name c s = (s', b)"
  shows "is_data s' x = is_data s x" "is_dir s' x = is_dir s x" "files s' x = None \<longleftrightarrow> files s x = None"
  using assms by (auto simp: mount_child_def cache_child_def readings split: option.splits)

lemma inv_mount_created:
  assumes inv: "wasmfs_inv w" and ct: "fresh_content ct" "create_node ct m b (fsys w) = (s, f)"
    and d: "is_dir (fsys w) d" and n: "lookup (fsys w) d name = None" and mc: "mount_child d name f s = (s', q)"
  shows "wasmfs_inv (w\<lparr>fsys := s'\<rparr>)" "files s' f \<noteq> None"
proof -
  note I = wasmfs_invD [OF inv]
  have fresh: "files (fsys w) (next_fid (fsys w)) = None" using treeD(3) [OF I(1)] by simp
  note R = create_node_readings [OF ct(2) fresh]
  note C = inv_create_node [OF inv ct(2,1)]
  note J = wasmfs_invD [OF C(1), simplified]
  have fd: "f \<noteq> d" using is_dir_exists [OF d] fresh R(1) by auto
  have d1: "is_dir s d" using d fd by (simp add: R(3))
  note M = is_data_mount [OF mc]
  have "tree (root_dir w) s'"
  proof (cases "get_parent s d")
    case None
    then have "s' = s" using mc by (simp add: mount_child_def)
    then show ?thesis using J(1) by simp
  next
    case (Some p)
    show ?thesis
    proof (rule tree_mount_child [OF J(1) d1 _ _ C(3) _ _ mc])
      show "get_parent s d \<noteq> None" using Some by simp
      have "entries s d = entries (fsys w) d" "mounts s d = mounts (fsys w) d" using fd by (simp_all add: R(5,6))
      then show "name \<notin> set (all_names s d)"
        using lookup_none_not_listed(1) [OF n] Some by (simp add: all_names_def R(4))
      show fp: "get_parent s f = None"
        using ct(2) by (auto simp: create_node_def new_node_def get_parent_def)
      have "get_parent s x \<noteq> Some f" for x
        using treeD(4) [OF I(1), of x f] is_dir_exists [of "fsys w" f] fresh by (auto simp: R(1,4))
      then show "(f, d) \<notin> (child_rel (root_dir w) s)\<^sup>*" using no_children_rtrancl [of s f d "root_dir w"] fd by blast
    qed
  qed
  then have "wasmfs_inv (w\<lparr>fsys := s\<rparr>\<lparr>fsys := s'\<rparr>)"
    by (intro inv_fs_step [OF C(1)]) (use M J(4) in simp_all)
  then show "wasmfs_inv (w\<lparr>fsys := s'\<rparr>)" by simp
  show "files s' f \<noteq> None" using M(3) [of f] C(3) by simp
qed

end
