(* ===== verification/Wasmfs_Calls.thy ===== *)
theory Wasmfs_Calls
  imports Wasmfs_Syscalls
begin

text \<open>
  Every system call of WasmFS keeps the invariant of the whole file system, renaming is total where
  its parents are attached, and names are found where they were created. The calls that fall outside are
  exhibited at the end: renaming a mount, and paths inside a mount.
\<close>

section \<open>Removing\<close>

lemma is_data_kinds:
  "is_data s x \<longleftrightarrow> files s x \<noteq> None \<and> \<not> is_dir s x \<and> link_target s x = None"
  by (auto simp: is_data_def is_dir_def link_target_def split: option.splits content.splits)

lemma link_target_remove:
  assumes "is_dir s d" "remove_child d name s = (s', r)"
  shows "link_target s' x = link_target s x"
  using assms
  by (auto simp: remove_child_def memory_remove_child_def Let_def readings split: option.splits dcache_kind.splits)

lemma inv_remove:
  assumes inv: "wasmfs_inv w" and d: "is_dir (fsys w) d" and r: "remove_child d name (fsys w) = (s, q)"
  shows "wasmfs_inv (w\<lparr>fsys := s\<rparr>)"
proof -
  note I = wasmfs_invD [OF inv]
  note R = remove_child_readings [OF I(1) d r]
  show ?thesis
    by (rule inv_fs_step [OF inv tree_remove_child [OF I(1) d r]])
       (use I(4) in \<open>simp_all add: is_data_kinds R(2,3) link_target_remove [OF d r]\<close>)
qed

lemma inv_unlinkat: "wasmfs_inv w \<Longrightarrow> wasmfs_inv (fst (syscall_unlinkat dirfd path flags w))"
proof -
  assume inv: "wasmfs_inv w"
  have "wasmfs_inv (w\<lparr>fsys := fst (remove_child p name (fsys w))\<rparr>)"
    if "parse_parent w path dirfd = Inr (p, name)" for p name
    by (rule inv_remove [OF inv parse_parent_dir [OF inv that], of name _ "snd (remove_child p name (fsys w))"]) simp
  then show ?thesis
    using inv by (auto simp: syscall_unlinkat_def Let_def split: sum.splits option.splits prod.splits)
qed

section \<open>Files that resolution gives\<close>

lemma follow_links_exists:
  assumes "\<And>t r f r'. pf t dir r = Some (Inr f, r') \<Longrightarrow> files (fsys w) f \<noteq> None"
    and "files (fsys w) child \<noteq> None" "follow_links w pf n dir child rec = Some (Inr f, rec')"
  shows "files (fsys w) f \<noteq> None"
  using assms(2,3)
proof (induction n arbitrary: child rec)
  case (Suc n)
  show ?case
  proof (cases "link_target (fsys w) child")
    case None
    then show ?thesis using Suc.prems by simp
  next
    case (Some t)
    then obtain c r where "pf t dir (Suc rec) = Some (Inr c, r)" "follow_links w pf n dir c r = Some (Inr f, rec')"
      using Suc.prems(2) by (auto simp: Let_def split: if_splits option.splits sum.splits)
    then show ?thesis using Suc.IH assms(1) by blast
  qed
qed simp

lemma do_parse_file_exists:
  assumes inv: "wasmfs_inv w"
  shows "is_dir (fsys w) base \<Longrightarrow> do_parse_file w n follow path base rec = Some (Inr f, rec') \<Longrightarrow>
    files (fsys w) f \<noteq> None"
proof (induction n arbitrary: follow path base rec f rec')
  case (Suc n)
  let ?pf = "do_parse_file w n True"
  obtain p name r where p: "do_parse_parent w ?pf (Suc n) path base rec = Some (Inr (p, name), r)"
    "path_child w ?pf (Suc n) p name follow r = Some (Inr f, rec')"
    using Suc.prems(2) by (auto split: option.splits sum.splits)
  have d: "is_dir (fsys w) p" by (rule do_parse_parent_dir [OF inv Suc.prems(1) p(1)])
  obtain c where c: "lookup (fsys w) p name = Some c"
    "(if follow then follow_links w ?pf (Suc n) p c r else Some (Inr c, r)) = Some (Inr f, rec')"
    using p(2) by (auto simp: path_child_def Let_def simp del: follow_links.simps split: if_splits option.splits)
  have e: "files (fsys w) c \<noteq> None" by (rule lookup_exists [OF wasmfs_invD(1) [OF inv] c(1)])
  show ?case
  proof (cases follow)
    case True
    then have "follow_links w ?pf (Suc n) p c r = Some (Inr f, rec')" using c(2) by simp
    then show ?thesis by (rule follow_links_exists [rotated 2]) (use Suc.IH [OF d] e in blast)+
  qed (use c(2) e in simp)
qed simp

lemma parsed_file_exists:
  assumes "wasmfs_inv w" "is_dir (fsys w) base"
    "parsed_result (do_parse_file w (Suc path_fuel) follow path base 0) = Inr f"
  shows "files (fsys w) f \<noteq> None"
proof -
  have fuel: "MAX_RECURSIONS < Suc path_fuel + 0" by (simp add: path_fuel_def)
  obtain r rec where r: "do_parse_file w (Suc path_fuel) follow path base 0 = Some (r, rec)"
    using do_parse_file_step [OF do_parse_file_ends fuel] by blast
  then have "r = Inr f" using assms(3) by (simp add: parsed_result_def)
  then show ?thesis using do_parse_file_exists [OF assms(1,2)] r by blast
qed

lemma parse_file_exists:
  assumes "wasmfs_inv w" "parse_file w path fd follow = Inr f"
  shows "files (fsys w) f \<noteq> None"
  using assms parsed_file_exists [OF assms(1) starting_dir_is_dir [OF assms(1)]]
  by (auto simp: parse_file_def simp del: do_parse_file.simps split: sum.splits)

lemma get_file_from_exists:
  assumes "wasmfs_inv w" "is_dir (fsys w) d" "get_file_from w d path = Inr f"
  shows "files (fsys w) f \<noteq> None"
  using assms parsed_file_exists [OF assms(1,2)]
  by (auto simp: get_file_from_def Let_def simp del: do_parse_file.simps split: if_splits)

section \<open>Creating\<close>

lemma inv_open_created:
  assumes inv: "wasmfs_inv w" and f: "files (fsys w) f \<noteq> None"
    and r: "(case create_open_file f flags w of
               (w1, Inl err) \<Rightarrow> (w1, err) | (w1, Inr n) \<Rightarrow> install_open_file n w1) = (w', q)"
  shows "wasmfs_inv w'"
proof -
  obtain w1 t where c: "create_open_file f flags w = (w1, t)" by fastforce
  show ?thesis
  proof (cases t)
    case (Inl err)
    then have "w1 = w" "w' = w1" using create_open_file_error c r by auto
    then show ?thesis using inv by simp
  next
    case (Inr n)
    then have "install_open_file n w1 = (w', q)" using r c by simp
    then show ?thesis using pending_install [OF pending_created [OF inv f]] c Inr by blast
  qed
qed

lemma inv_create_child:
  assumes inv: "wasmfs_inv w" and d: "is_dir (fsys w) d" and n: "lookup (fsys w) d name = None"
    and r: "create_child d name flags mode b ret w = (w', q)"
  shows "wasmfs_inv w'"
proof -
  define m where "m = mode AND S_IALLUGO"
  define b1 where "b1 = (if b = NullBackend then get_backend (fsys w) d else b)"
  obtain s f where i: "insert_data_file d name m (fsys w) = (s, f)" by fastforce
  have c: "insert_data_file d name m = insert_created (create_node (Data []) (m OR S_IFREG)) d name"
    by (simp add: insert_data_file_def create_file_def [abs_def])
  have fresh: "fresh_content (Data [])" by (simp add: fresh_content_def)
  note C = inv_insert [OF inv refl fresh d n i [unfolded c]]
  obtain s1 g where cr: "create_file m b1 (fsys w) = (s1, g)" by fastforce
  obtain s2 ok where mo: "mount_child d name g s1 = (s2, ok)" by fastforce
  note D = inv_mount_created [OF inv fresh cr [unfolded create_file_def] d n mo]
  have finish: "wasmfs_inv w'"
    if "wasmfs_inv (w\<lparr>fsys := t\<rparr>)" "files t h \<noteq> None"
      "(if \<not> ret then (w\<lparr>fsys := t\<rparr>, 0)
        else case create_open_file h flags (w\<lparr>fsys := t\<rparr>) of
               (w1, Inl err) \<Rightarrow> (w1, err) | (w1, Inr n) \<Rightarrow> install_open_file n w1) = (w', q)" for t h
    using that inv_open_created [OF that(1), of h flags w' q] by (auto split: if_splits)
  have f: "f = Some h \<Longrightarrow> files s h \<noteq> None" for h using C by (auto split: if_splits)
  show ?thesis
    using r inv finish [of s] finish [of s2 g] C(1) D f i cr mo
    unfolding create_child_def Let_def m_def [symmetric] b1_def [symmetric]
    by (cases f) (auto split: if_splits)
qed

lemma inv_do_open:
  assumes inv: "wasmfs_inv w" and p: "\<And>d n. parsed = Inr (d, n) \<Longrightarrow> is_dir (fsys w) d"
  shows "wasmfs_inv (fst (do_open parsed flags mode b ret w))"
proof (cases parsed)
  case (Inl err)
  then show ?thesis using inv by (simp add: do_open_def)
next
  case (Inr dn)
  obtain d n where dn: "dn = (d, n)" by fastforce
  have d: "is_dir (fsys w) d" using p Inr dn by simp
  note I = wasmfs_invD [OF inv]
  have open_it: "wasmfs_inv (fst (open_existing f flags w))" if "files (fsys w) f \<noteq> None" for f
    using inv_open_existing [OF inv that, of flags] by (metis prod.collapse)
  show ?thesis
  proof (cases "lookup (fsys w) d n")
    case None
    have "wasmfs_inv (fst (create_child d n flags mode b ret w))"
      using inv_create_child [OF inv d None, of flags mode b ret] by (metis prod.collapse)
    then show ?thesis using inv Inr dn None by (simp add: do_open_def)
  next
    case (Some f)
    have f: "files (fsys w) f \<noteq> None" by (rule lookup_exists [OF I(1) Some])
    have g: "files (fsys w) g \<noteq> None" if "get_file_from w d t = Inr g" for t g
      by (rule get_file_from_exists [OF inv d that])
    show ?thesis
      using inv Inr dn Some open_it [OF f] open_it [OF g]
      by (auto simp: do_open_def Let_def split: option.splits sum.splits)
  qed
qed

lemma inv_mkdir:
  assumes inv: "wasmfs_inv w" and p: "\<And>d n. parsed = Inr (d, n) \<Longrightarrow> is_dir (fsys w) d"
  shows "wasmfs_inv (fst (do_mkdir parsed mode b w))"
proof (cases parsed)
  case (Inl err)
  then show ?thesis using inv by (simp add: do_mkdir_def)
next
  case (Inr dn)
  obtain d name where dn: "dn = (d, name)" by fastforce
  have d: "is_dir (fsys w) d" using p Inr dn by simp
  define m where "m = mode AND S_IRWXUGO_VTX"
  define b1 where "b1 = (if b = NullBackend then get_backend (fsys w) d else b)"
  obtain s f where i: "insert_directory d name m (fsys w) = (s, f)" by fastforce
  have c: "insert_directory d name m = insert_created (create_node (Dir []) (m OR S_IFDIR)) d name"
    by (simp add: insert_directory_def create_directory_def [abs_def])
  have fresh: "fresh_content (Dir [])" by (simp add: fresh_content_def)
  obtain s1 g where cr: "create_directory m b1 (fsys w) = (s1, g)" by fastforce
  obtain s2 ok where mo: "mount_child d name g s1 = (s2, ok)" by fastforce
  show ?thesis
  proof (cases "lookup (fsys w) d name")
    case None
    note C = inv_insert [OF inv refl fresh d None i [unfolded c]]
    note D = inv_mount_created [OF inv fresh cr [unfolded create_directory_def] d None mo]
    show ?thesis
      using inv None C(1) D(1) i cr mo
      unfolding do_mkdir_def Inr dn sum.case prod.case Let_def m_def [symmetric] b1_def [symmetric]
      by (cases f) auto
  next
    case (Some f)
    then show ?thesis using inv Inr dn by (simp add: do_mkdir_def Let_def)
  qed
qed

lemma inv_symlinkat: "wasmfs_inv w \<Longrightarrow> wasmfs_inv (fst (syscall_symlinkat target dirfd path w))"
proof -
  assume inv: "wasmfs_inv w"
  have c: "insert_symlink d n target = insert_created (create_node (Link target) S_IFLNK) d n" for d n
    by (simp add: insert_symlink_def create_symlink_def [abs_def])
  have "wasmfs_inv (w\<lparr>fsys := s\<rparr>)"
    if "parse_parent w path dirfd = Inr (d, n)" "lookup (fsys w) d n = None"
      "insert_symlink d n target (fsys w) = (s, f)" for d n s f
    by (rule inv_insert(1) [OF inv refl _ parse_parent_dir [OF inv that(1)] that(2,3) [unfolded c]])
       (simp add: fresh_content_def)
  then show ?thesis
    using inv by (auto simp: syscall_symlinkat_def Let_def split: sum.splits option.splits prod.splits)
qed

lemmas create_calls = syscall_openat_def wasmfs_create_file_def syscall_mknodat_def syscall_mkdirat_def
  wasmfs_create_directory_def Let_def

lemma inv_creating_calls:
  assumes inv: "wasmfs_inv w"
  shows "wasmfs_inv (fst (syscall_openat dirfd path flags mode w))"
    "wasmfs_inv (fst (wasmfs_create_file path mode b w))"
    "wasmfs_inv (fst (syscall_mknodat dirfd path mode w))"
    "wasmfs_inv (fst (syscall_mkdirat dirfd path mode w))"
    "wasmfs_inv (fst (wasmfs_create_directory path mode b w))"
  using inv inv_do_open [OF inv parse_parent_dir [OF inv]] inv_mkdir [OF inv parse_parent_dir [OF inv]]
  by (simp_all add: create_calls)

section \<open>Directories, modes, pipes\<close>

lemma inv_do_chdir: "wasmfs_inv w \<Longrightarrow> wasmfs_inv (fst (do_chdir f w))"
  by (simp add: do_chdir_def wasmfs_inv_def table_inv_def handles_inv_def live_states_def)

lemma inv_chdir: "wasmfs_inv w \<Longrightarrow> wasmfs_inv (fst (syscall_chdir path w))"
  using inv_do_chdir by (auto simp: syscall_chdir_def split: sum.splits)

lemma inv_fchdir: "wasmfs_inv w \<Longrightarrow> wasmfs_inv (fst (syscall_fchdir fd w))"
  using inv_do_chdir by (auto simp: syscall_fchdir_def Let_def split: option.splits)

lemma inv_getdents: "wasmfs_inv w \<Longrightarrow> wasmfs_inv (fst (syscall_getdents64 fd n w))"
  using quiet_inv [OF quiet_set_position] by (auto simp: syscall_getdents64_def Let_def split: option.splits)

lemma quiet_mode: "quiet w (on_fs (\<lambda>s. update_ctime f (set_mode f m s)) w)"
proof -
  have "shape_eq s (set_mode f m s)" for s
    unfolding set_mode_def by (rule shape_eq_update) (auto split: content.splits)
  moreover have "shape_eq s (update_ctime f s)" for s
    unfolding update_ctime_def by (rule shape_eq_update) (auto split: content.splits)
  ultimately show ?thesis unfolding on_fs_def by (intro quiet_fsys) (rule shape_eq_trans)
qed

lemma inv_chmod:
  assumes "wasmfs_inv w"
  shows "wasmfs_inv (fst (syscall_fchmodat2 mutable dirfd path m flags w))"
    "wasmfs_inv (fst (syscall_fchmod mutable fd m w))"
  using assms quiet_inv [OF quiet_mode assms]
  by (auto simp: syscall_fchmodat2_def syscall_fchmod_def change_mode_def Let_def split: sum.splits option.splits)

lemma inv_unmount:
  assumes inv: "wasmfs_inv w" and r: "wasmfs_unmount path w = Some (w', q)"
  shows "wasmfs_inv w'"
proof -
  have "wasmfs_inv (w\<lparr>fsys := s\<rparr>)"
    if "parse_parent w path AT_FDCWD = Inr (p, name)" "remove_child p name (fsys w) = (s, e)" for p name s e
    by (rule inv_remove [OF inv parse_parent_dir [OF inv that(1)] that(2)])
  then show ?thesis
    using inv r
    by (auto simp: wasmfs_unmount_def Let_def split: sum.splits option.splits bool.splits if_splits prod.splits)
qed

section \<open>Pipes\<close>

lemma set_entry_close_extra:
  assumes t: "table_inv w" and h: "handles_inv extra w"
    and tr: "tree (root_dir w) (fsys w)" "is_dir (fsys w) (cwd w)" and fd: "unat fd < WASMFS_FD_MAX"
    and new: "\<forall>n. new = Some n \<longrightarrow> open_files w n \<noteq> None \<and> 0 < uses (open_file w n)"
    and s: "set_entry fd new w = (w1, c)" and c: "close_closee c w1 = (w2, r)"
  shows "table_inv w2" "handles_inv extra w2" "tree (root_dir w2) (fsys w2)" "is_dir (fsys w2) (cwd w2)"
proof -
  have new': "\<forall>n. new = Some n \<longrightarrow> open_files w n \<noteq> None" using new by blast
  have old: "\<forall>n. get_entry w fd = Some n \<longrightarrow> open_files w n \<noteq> None"
    using table_inv_entry(1) [OF t] by blast
  note R = set_entry_readings [OF s new' old]
  have t1: "table_inv w1" by (rule set_entry_table_inv [OF t fd new' s])
  have "born w new f = 0" for f using new by (auto simp: born_def split: option.splits)
  then have h1: "handles_inv (\<lambda>f. extra f + (if c = Some f then 1 else 0)) w1"
    using set_entry_handles [OF t new' s h] by (rule_tac handles_ext) auto
  have tr1: "tree (root_dir w1) (fsys w1)" "is_dir (fsys w1) (cwd w1)"
    using tr tree_clear_record_locks by (auto simp: R readings split: option.splits)
  have "table_inv w2 \<and> handles_inv extra w2 \<and> tree (root_dir w2) (fsys w2) \<and> is_dir (fsys w2) (cwd w2)"
  proof (cases c)
    case None
    then show ?thesis using t1 h1 tr1 assms(8) by (simp add: close_closee_def)
  next
    case (Some f)
    then have d: "data_close f w1 = (w2, r)" using assms(8) by (simp add: close_closee_def)
    note D = data_close_inv [OF t1 h1 d]
    have "handles_inv extra w2" by (rule handles_ext [OF D(2)]) (simp add: Some)
    then show ?thesis using D tr1 by simp
  qed
  then show "table_inv w2" "handles_inv extra w2" "tree (root_dir w2) (fsys w2)" "is_dir (fsys w2) (cwd w2)"
    by blast+
qed

lemma close_file_inv:
  assumes "table_inv w" "handles_inv (\<lambda>g. extra g + (if g = f then 1 else 0)) w"
    "tree (root_dir w) (fsys w)" "is_dir (fsys w) (cwd w)"
  shows "table_inv (close_file f w)" "handles_inv extra (close_file f w)"
    "tree (root_dir (close_file f w)) (fsys (close_file f w))"
    "is_dir (fsys (close_file f w)) (cwd (close_file f w))"
proof -
  obtain w' r where c: "data_close f w = (w', r)" by fastforce
  note D = data_close_inv [OF assms(1,2) c]
  have "handles_inv extra w'" by (rule handles_ext [OF D(2)]) simp
  then show "table_inv (close_file f w)" "handles_inv extra (close_file f w)"
    "tree (root_dir (close_file f w)) (fsys (close_file f w))"
    "is_dir (fsys (close_file f w)) (cwd (close_file f w))"
    using D assms(3,4) c by (simp_all add: close_file_def)
qed

lemma create_open_pipe:
  assumes "\<exists>n. files (fsys w) f = Some n \<and> content n = Device (Pipe_file p)"
  obtains w' n where "create_open_file f fl w = (w', Inr n)"
proof -
  have "is_device (fsys w) f" using assms by (auto simp: is_device_def)
  then have "snd (if is_data (fsys w) f then data_open f w else (w, 0)) = 0"
    by (simp add: data_open_def backend_answer_def Let_def)
  then obtain w1 where "(if is_data (fsys w) f then data_open f w else (w, 0)) = (w1, 0)" by (metis prod.collapse)
  then show thesis by (intro that) (simp add: create_open_file_def Let_def)
qed

lemma inv_create_pipes:
  assumes inv: "wasmfs_inv w"
    and s1: "make_pipe_end p m1 (fsys w\<lparr>next_pipe := k, pipes := q\<rparr>) = (s1, reader)"
    and s2: "make_pipe_end p m2 s1 = (s2, writer)"
  shows "wasmfs_inv (w\<lparr>fsys := s2\<rparr>)" "reader \<noteq> writer" "is_data s2 reader" "is_data s2 writer"
    "\<exists>n. files s2 reader = Some n \<and> content n = Device (Pipe_file p)"
    "\<exists>n. files s2 writer = Some n \<and> content n = Device (Pipe_file p)"
proof -
  have q: "wasmfs_inv (w\<lparr>fsys := fsys w\<lparr>next_pipe := k, pipes := q\<rparr>\<rparr>)"
    by (rule quiet_inv [OF quiet_fsys [OF shape_eq_env] inv]) simp_all
  have fresh: "fresh_content (Device (Pipe_file p))" by (simp add: fresh_content_def)
  note C = inv_create_node [OF q, simplified, OF s1 [unfolded make_pipe_end_def] fresh]
  note D = inv_create_node [OF C(1), simplified, OF s2 [unfolded make_pipe_end_def] fresh]
  show "wasmfs_inv (w\<lparr>fsys := s2\<rparr>)" using D(1) by simp
  show rw: "reader \<noteq> writer"
    using s1 s2 by (auto simp: make_pipe_end_def create_node_def)
  show "\<exists>n. files s2 reader = Some n \<and> content n = Device (Pipe_file p)"
    "\<exists>n. files s2 writer = Some n \<and> content n = Device (Pipe_file p)"
    "is_data s2 reader" "is_data s2 writer"
    using s1 s2 rw by (auto simp: make_pipe_end_def create_node_def new_node_def is_data_def)
qed

lemma inv_pipe2: "wasmfs_inv w \<Longrightarrow> wasmfs_inv (fst (syscall_pipe2 flags w))"
proof (cases "flags \<noteq> 0 \<and> flags \<noteq> O_CLOEXEC")
  case True
  then show "wasmfs_inv w \<Longrightarrow> ?thesis" by (simp add: syscall_pipe2_def)
next
  case False
  assume inv: "wasmfs_inv w"
  let ?p = "next_pipe (fsys w)"
  obtain s1 reader where s1: "make_pipe_end ?p 0x124 (fsys w\<lparr>next_pipe := Suc ?p, pipes := (pipes (fsys w))(?p := [])\<rparr>) = (s1, reader)"
    by fastforce
  obtain s2 writer where s2: "make_pipe_end ?p 0x92 s1 = (s2, writer)" by fastforce
  note P = inv_create_pipes [OF inv s1 s2]
  note I = wasmfs_invD [OF P(1), simplified]
  obtain w1 nr where c1: "create_open_file reader O_RDONLY (w\<lparr>fsys := s2\<rparr>) = (w1, Inr nr)"
    using create_open_pipe [of "w\<lparr>fsys := s2\<rparr>" reader ?p] P(5) by auto
  have fr: "files (fsys (w\<lparr>fsys := s2\<rparr>)) reader \<noteq> None" using P(5) by auto
  note A = create_open_file_ok [OF I(2,3) fr c1]
  have fs1: "fsys w1 = s2" "root_dir w1 = root_dir w" "cwd w1 = cwd w" using A by simp_all
  obtain w2 nw where c2: "create_open_file writer O_WRONLY w1 = (w2, Inr nw)"
    using create_open_pipe [of w1 writer ?p] P(6) fs1 by auto
  have fw: "files (fsys w1) writer \<noteq> None" using P(6) fs1 by auto
  note B = create_open_file_ok [OF A(1,2) fw c2]
  have fs2: "fsys w2 = s2" "root_dir w2 = root_dir w" "cwd w2 = cwd w" using B fs1 by simp_all
  have tr2: "tree (root_dir w2) (fsys w2)" "is_dir (fsys w2) (cwd w2)" using I(1,4) fs2 by simp_all
  have nrw: "nr \<noteq> nw" using A(6) B(5) table_inv_state(1) [OF A(1), of nr] by fastforce
  have r2: "open_files w2 nr = open_files w1 nr"
    using c2 nrw by (auto simp: create_open_file_def data_open_def Let_def split: if_splits prod.splits)
  have st: "open_files w2 nr \<noteq> None" "uses (open_file w2 nr) = 0" "file_of w2 nr = reader"
    using A r2 by (simp_all add: open_file_def file_of_def)
  have h2: "handles_inv (\<lambda>g. (if g = writer then 1 else 0) + (if g = reader \<and> is_data (fsys w2) reader then 1 else 0)) w2"
    by (rule handles_ext [OF B(2)]) (use P(3,4) fs1 fs2 in auto)
  obtain w3 rfd where a3: "add_entry nr w2 = (w3, rfd)" by fastforce
  note C = install_inv [OF B(1) h2 tr2 st a3]
  have fs3: "fsys w3 = s2" using C(8) fs2 by simp
  obtain w4 wfd where a4: "add_entry nw w3 = (w4, wfd)" by fastforce
  have eq: "fst (syscall_pipe2 flags w) =
    (if 0 \<le> rfd then
       if 0 \<le> wfd then w4
       else close_file writer (fst (close_closee (snd (set_entry (word_of_int rfd) None w4)) (fst (set_entry (word_of_int rfd) None w4))))
     else close_file writer (close_file reader w3))"
    using False s1 s2 c1 c2 a3 a4 by (auto simp: syscall_pipe2_def Let_def split: prod.splits)
  show ?thesis
  proof (cases "0 \<le> rfd")
    case False
    then have w3: "w3 = w2" using C(7) by simp
    have h2': "handles_inv (\<lambda>g. (\<lambda>g. if g = writer then 1 else 0) g + (if g = reader then 1 else 0)) w3"
      unfolding w3 by (rule handles_ext [OF h2]) (use P(3) fs2 in simp)
    have E: "table_inv (close_file reader w3)" "handles_inv (\<lambda>g. 0 + (if g = writer then 1 else 0)) (close_file reader w3)"
      "tree (root_dir (close_file reader w3)) (fsys (close_file reader w3))"
      "is_dir (fsys (close_file reader w3)) (cwd (close_file reader w3))"
      using close_file_inv [OF _ h2'] B(1) tr2 w3 by simp_all
    show ?thesis using close_file_inv [OF E] eq False by (simp add: wasmfs_inv_def)
  next
    case True
    have h3: "handles_inv (\<lambda>g. (\<lambda>_. 0) g + (if g = writer \<and> is_data (fsys w3) writer then 1 else 0)) w3"
      by (rule handles_ext [OF C(6) [OF True]]) (use P(4) fs3 in simp)
    have stw: "open_files w3 nw \<noteq> None" "uses (open_file w3 nw) = 0" "file_of w3 nw = writer"
      using B(6-8) C(10) [of nw] nrw by (simp_all add: open_file_def file_of_def)
    note D = install_inv [OF C(1) h3 C(2,3) stw a4]
    show ?thesis
    proof (cases "0 \<le> wfd")
      case True
      then show ?thesis using D(1-3) D(6) eq \<open>0 \<le> rfd\<close> by (simp add: wasmfs_inv_def)
    next
      case False
      then have w4: "w4 = w3" using D(7) by simp
      obtain w5 c where s5: "set_entry (word_of_int rfd) None w4 = (w5, c)" by fastforce
      obtain w6 q where c6: "close_closee c w5 = (w6, q)" by fastforce
      have fd: "unat (word_of_int rfd :: u32) < WASMFS_FD_MAX"
        using C(12) \<open>0 \<le> rfd\<close> unat_fd [of "nat rfd"] by (simp add: nat_less_iff flip: of_nat_nat)
      have h4: "handles_inv (\<lambda>g. 0 + (if g = writer then 1 else 0)) w4"
        unfolding w4 by (rule handles_ext [OF h3]) (use P(4) fs3 in simp)
      note E = set_entry_close_extra [OF _ h4 _ _ fd _ s5 c6]
      have E: "table_inv w6" "handles_inv (\<lambda>g. 0 + (if g = writer then 1 else 0)) w6"
        "tree (root_dir w6) (fsys w6)" "is_dir (fsys w6) (cwd w6)"
        using E C(1-3) w4 by simp_all
      show ?thesis using close_file_inv [OF E] eq False \<open>0 \<le> rfd\<close> s5 c6 by (simp add: wasmfs_inv_def)
    qed
  qed
qed

section \<open>Renaming\<close>

text \<open>The climb from the new parent always ends; what its result says about the tree.\<close>

lemma rename_climb_result:
  assumes wf: "wf (child_rel r s)"
  shows "\<exists>c. rename_climb s r d old = Some c \<and>
    (c = Reached_root \<longrightarrow> old \<noteq> r \<longrightarrow> (old, d) \<notin> (child_rel r s)\<^sup>*) \<and>
    (c = Null_parent \<longrightarrow> (\<exists>x. get_parent s x = None \<and> (x, d) \<in> (child_rel r s)\<^sup>*))"
  using wf
proof (induction d rule: wf_induct_rule)
  case (less d)
  have top: "old = r" if "(old, r) \<in> (child_rel r s)\<^sup>*"
    using that by (cases rule: rtranclE) (auto simp: child_rel_def)
  consider "d = r" | "d \<noteq> r" "d = old" | "d \<noteq> r" "d \<noteq> old" "get_parent s d = None"
    | p where "d \<noteq> r" "d \<noteq> old" "get_parent s d = Some p"
    by blast
  then show ?case
  proof cases
    case (4 p)
    then have pd: "(p, d) \<in> child_rel r s" by (simp add: child_rel_def)
    obtain c where c: "rename_climb s r p old = Some c"
      "c = Reached_root \<longrightarrow> old \<noteq> r \<longrightarrow> (old, p) \<notin> (child_rel r s)\<^sup>*"
      "c = Null_parent \<longrightarrow> (\<exists>x. get_parent s x = None \<and> (x, p) \<in> (child_rel r s)\<^sup>*)"
      using less.IH [OF pd] by blast
    have "(old, p) \<in> (child_rel r s)\<^sup>*" if "(old, d) \<in> (child_rel r s)\<^sup>*"
      using that 4(2,3) by (cases rule: rtranclE) (auto simp: child_rel_def)
    moreover have "rename_climb s r d old = Some c" using 4 c(1) by (simp add: rename_climb.simps [of s r d old])
    ultimately show ?thesis using c pd by (meson rtrancl.rtrancl_into_rtrancl)
  next
    case 1
    then have "rename_climb s r d old = Some Reached_root" by (subst rename_climb.simps) simp
    then show ?thesis using top 1 by auto
  next
    case 2
    then have "rename_climb s r d old = Some Found" by (subst rename_climb.simps) simp
    then show ?thesis by simp
  next
    case 3
    then have "rename_climb s r d old = Some Null_parent" by (simp add: rename_climb.simps [of s r d old])
    then show ?thesis using 3 by auto
  qed
qed

text \<open>Neither the file that moves nor the name that it gets is a mount.\<close>

definition moves_no_mount :: "wasmfs \<Rightarrow> fid \<Rightarrow> fid \<Rightarrow> string \<Rightarrow> bool" where
  "moves_no_mount w f d name \<longleftrightarrow>
     (case get_parent (fsys w) f of
        None \<Rightarrow> False
      | Some p \<Rightarrow> f \<notin> (\<lambda>e. snd (snd e)) ` set (mounts (fsys w) p)) \<and>
     name \<notin> fst ` set (mounts (fsys w) d)"

definition renames_no_mount :: "u32 \<Rightarrow> string \<Rightarrow> u32 \<Rightarrow> string \<Rightarrow> wasmfs \<Rightarrow> bool" where
  "renames_no_mount olddirfd oldpath newdirfd newpath w \<longleftrightarrow>
     (case (parse_parent w oldpath olddirfd, parse_parent w newpath newdirfd) of
        (Inr (p, n), Inr (d, m)) \<Rightarrow>
          (case lookup (fsys w) p n of None \<Rightarrow> True | Some f \<Rightarrow> moves_no_mount w f d m)
      | _ \<Rightarrow> True)"

text \<open>When the call moves a file, and otherwise changes nothing.\<close>

lemma renameat_cases:
  assumes inv: "wasmfs_inv w" and r: "syscall_renameat olddirfd oldpath newdirfd newpath w = Some (w', q)"
  obtains (same) "w' = w"
  | (moved) p n d m f s where "parse_parent w oldpath olddirfd = Inr (p, n)" "parse_parent w newpath newdirfd = Inr (d, m)"
      "lookup (fsys w) p n = Some f" "lookup (fsys w) d m \<noteq> Some f" "f \<noteq> root_dir w"
      "lookup (fsys w) d m \<noteq> Some (root_dir w)" "rename_climb (fsys w) (root_dir w) d f = Some Reached_root"
      "insert_move d m f (fsys w) = (s, q)" "w' = w\<lparr>fsys := s\<rparr>"
proof (cases "\<exists>p n d m f. parse_parent w oldpath olddirfd = Inr (p, n) \<and> parse_parent w newpath newdirfd = Inr (d, m) \<and>
    lookup (fsys w) p n = Some f")
  case False
  have "w' = w"
  proof (cases "parse_parent w oldpath olddirfd")
    case (Inl e)
    then show ?thesis using r by (simp add: syscall_renameat_def)
  next
    case (Inr pn)
    obtain p n where pn: "pn = (p, n)" by fastforce
    show ?thesis
    proof (cases "parse_parent w newpath newdirfd")
      case (Inl e)
      then show ?thesis using r Inr pn by (simp add: syscall_renameat_def)
    next
      case (Inr dm)
      obtain d m where dm: "dm = (d, m)" by fastforce
      have none: "lookup (fsys w) p n = None" using False Inr dm \<open>parse_parent w oldpath olddirfd = Inr pn\<close> pn by auto
      show ?thesis
        using r unfolding syscall_renameat_def \<open>parse_parent w oldpath olddirfd = Inr pn\<close> Inr pn dm sum.case prod.case
        by (simp add: none Let_def split: if_splits)
    qed
  qed
  then show thesis by (rule same)
next
  case True
  then obtain p n d m f where H: "parse_parent w oldpath olddirfd = Inr (p, n)"
    "parse_parent w newpath newdirfd = Inr (d, m)" "lookup (fsys w) p n = Some f" by blast
  define e2 where "e2 = (case lookup (fsys w) d m of None \<Rightarrow> 0 | Some g \<Rightarrow> admit_file w g)"
  obtain s q' where mv: "insert_move d m f (fsys w) = (s, q')" by fastforce
  have "w' = w \<or> lookup (fsys w) d m \<noteq> Some f \<and> f \<noteq> root_dir w \<and> lookup (fsys w) d m \<noteq> Some (root_dir w) \<and>
      rename_climb (fsys w) (root_dir w) d f = Some Reached_root \<and> q' = q \<and> w' = w\<lparr>fsys := s\<rparr>"
    using r unfolding syscall_renameat_def H sum.case prod.case Let_def e2_def [symmetric] option.case
    by (simp add: mv split: if_splits option.splits climb.splits)
  then show thesis using same moved [OF H] mv by auto
qed

lemma inv_insert_move:
  assumes inv: "wasmfs_inv w" and d: "is_dir (fsys w) d" "get_parent (fsys w) d \<noteq> None"
    and f: "get_parent (fsys w) f = Some p" "f \<notin> (\<lambda>e. snd (snd e)) ` set (mounts (fsys w) p)" "f \<noteq> root_dir w"
    and m: "m \<notin> fst ` set (mounts (fsys w) d)"
    and below: "(f, d) \<notin> (child_rel (root_dir w) (fsys w))\<^sup>*" and r: "insert_move d m f (fsys w) = (s, q)"
  shows "wasmfs_inv (w\<lparr>fsys := s\<rparr>)"
proof -
  note I = wasmfs_invD [OF inv]
  note R = insert_move_readings [OF I(1) d f(1,2) r]
  show ?thesis
    by (rule inv_fs_step [OF inv tree_insert_move [OF I(1) d f(1,2) r f(3) m below]])
       (use I(4) in \<open>simp_all add: is_data_kinds R(2,3,9)\<close>)
qed

lemma inv_renameat:
  assumes inv: "wasmfs_inv w" and ok: "renames_no_mount olddirfd oldpath newdirfd newpath w"
    and r: "syscall_renameat olddirfd oldpath newdirfd newpath w = Some (w', q)"
  shows "wasmfs_inv w'"
proof (rule renameat_cases [OF inv r])
  show "w' = w \<Longrightarrow> wasmfs_inv w'" using inv by simp
next
  fix p n d m f s
  assume H: "parse_parent w oldpath olddirfd = Inr (p, n)" "parse_parent w newpath newdirfd = Inr (d, m)"
      "lookup (fsys w) p n = Some f" "lookup (fsys w) d m \<noteq> Some f" "f \<noteq> root_dir w"
      "lookup (fsys w) d m \<noteq> Some (root_dir w)" "rename_climb (fsys w) (root_dir w) d f = Some Reached_root"
      "insert_move d m f (fsys w) = (s, q)" "w' = w\<lparr>fsys := s\<rparr>"
  have dir: "is_dir (fsys w) d" by (rule parse_parent_dir [OF inv H(2)])
  have below: "(f, d) \<notin> (child_rel (root_dir w) (fsys w))\<^sup>*"
    using rename_climb_result [OF treeD(10) [OF wasmfs_invD(1) [OF inv]], of d f] H(5,7) by auto
  have ok': "moves_no_mount w f d m" using ok H(1-3) by (simp add: renames_no_mount_def)
  show "wasmfs_inv w'"
  proof (cases "get_parent (fsys w) d")
    case None
    then have "s = fsys w" using H(8) by (simp add: insert_move_def)
    then show ?thesis using H(9) inv by (cases w) simp
  next
    case (Some g)
    obtain p' where "get_parent (fsys w) f = Some p'" "f \<notin> (\<lambda>e. snd (snd e)) ` set (mounts (fsys w) p')"
      "m \<notin> fst ` set (mounts (fsys w) d)"
      using ok' by (auto simp: moves_no_mount_def split: option.splits)
    then show ?thesis
      unfolding H(9) using inv_insert_move [OF inv dir _ _ _ H(5) _ below H(8)] Some by auto
  qed
qed

section \<open>All calls\<close>

text \<open>
  One call of the interface; \<open>mutable\<close> and \<open>supports\<close> say which backends allow explicit metadata changes
  and record locks.
\<close>

inductive wasmfs_step :: "(backend_id \<Rightarrow> bool) \<Rightarrow> (backend_id \<Rightarrow> bool) \<Rightarrow> wasmfs \<Rightarrow> wasmfs \<Rightarrow> bool"
  for mutable supports where
  call_write: "wasmfs_step mutable supports w (fst (fd_write fd n iovs w))"
| call_pwrite: "wasmfs_step mutable supports w (fst (fd_pwrite fd n iovs offset w))"
| call_read: "wasmfs_step mutable supports w (fst (fd_read fd n bufs w))"
| call_pread: "wasmfs_step mutable supports w (fst (fd_pread fd n bufs offset w))"
| call_seek: "wasmfs_step mutable supports w (fst (fd_seek fd off wh w))"
| call_seek_js: "wasmfs_step mutable supports w (fst (fd_seek_for_js fd off wh w))"
| call_sync: "wasmfs_step mutable supports w (fst (fd_sync fd w))"
| call_close: "wasmfs_step mutable supports w (fst (fd_close fd w))"
| call_dup: "wasmfs_step mutable supports w (fst (syscall_dup fd w))"
| call_dup3: "wasmfs_step mutable supports w (fst (syscall_dup3 fd fd' flags w))"
| call_fcntl: "wasmfs_step mutable supports w (fst (syscall_fcntl supports fd cmd w))"
| call_pipe: "wasmfs_step mutable supports w (fst (syscall_pipe2 flags w))"
| call_truncate: "wasmfs_step mutable supports w (fst (syscall_truncate path sz w))"
| call_ftruncate: "wasmfs_step mutable supports w (fst (syscall_ftruncate fd sz w))"
| call_fallocate: "wasmfs_step mutable supports w (fst (syscall_fallocate fd md off len w))"
| call_open: "wasmfs_step mutable supports w (fst (syscall_openat dirfd path flags mode w))"
| call_create: "wasmfs_step mutable supports w (fst (wasmfs_create_file path mode b w))"
| call_mknod: "wasmfs_step mutable supports w (fst (syscall_mknodat dirfd path mode w))"
| call_mkdir: "wasmfs_step mutable supports w (fst (syscall_mkdirat dirfd path mode w))"
| call_create_directory: "wasmfs_step mutable supports w (fst (wasmfs_create_directory path mode b w))"
| call_symlink: "wasmfs_step mutable supports w (fst (syscall_symlinkat target dirfd path w))"
| call_unlink: "wasmfs_step mutable supports w (fst (syscall_unlinkat dirfd path flags w))"
| call_unmount: "wasmfs_unmount path w = Some (w', r) \<Longrightarrow> wasmfs_step mutable supports w w'"
| call_rename: "renames_no_mount dirfd path dirfd' path' w \<Longrightarrow> syscall_renameat dirfd path dirfd' path' w = Some (w', r) \<Longrightarrow>
    wasmfs_step mutable supports w w'"
| call_chdir: "wasmfs_step mutable supports w (fst (syscall_chdir path w))"
| call_fchdir: "wasmfs_step mutable supports w (fst (syscall_fchdir fd w))"
| call_getdents: "wasmfs_step mutable supports w (fst (syscall_getdents64 fd n w))"
| call_fchmodat: "wasmfs_step mutable supports w (fst (syscall_fchmodat2 mutable dirfd path mode flags w))"
| call_fchmod: "wasmfs_step mutable supports w (fst (syscall_fchmod mutable fd mode w))"

lemma wasmfs_step_inv: "wasmfs_step mutable supports w w' \<Longrightarrow> wasmfs_inv w \<Longrightarrow> wasmfs_inv w'"
proof (induction rule: wasmfs_step.induct)
qed (auto simp: fd_write_def fd_pwrite_def fd_read_def fd_pread_def fd_seek_def fd_seek_for_js_def
    intro: quiet_inv [OF quiet_write] quiet_inv [OF quiet_read] quiet_inv [OF quiet_seek] quiet_inv [OF quiet_sync]
      quiet_inv [OF quiet_sizes(1)] quiet_inv [OF quiet_sizes(2)] quiet_inv [OF quiet_sizes(3)]
      inv_close inv_dup inv_dup3 inv_fcntl inv_pipe2 inv_creating_calls inv_symlinkat inv_unlinkat inv_unmount
      inv_renameat inv_chdir inv_fchdir inv_getdents inv_chmod)

section \<open>What the calls do to names\<close>

abbreviation ordinary :: "string \<Rightarrow> bool" where
  "ordinary n \<equiv> n \<noteq> ''.'' \<and> n \<noteq> ''..''"

definition listed :: "fs \<Rightarrow> fid \<Rightarrow> string \<Rightarrow> fid \<Rightarrow> bool" where
  "listed s d n f \<longleftrightarrow> (n, f) \<in> set (entries s d) \<or> (\<exists>k. (n, k, f) \<in> set (mounts s d))"

lemma listed_child: "listed s d n f \<Longrightarrow> f \<in> set (all_children s d)"
  using entries_child mounts_child by (fastforce simp: listed_def)

lemma listed_parent: "tree r s \<Longrightarrow> listed s d n f \<Longrightarrow> get_parent s f = Some d \<and> f \<noteq> r"
  using treeD(5,6) listed_child by blast

lemma listed_unique:
  assumes "tree r s" "listed s d n f" "listed s d n g"
  shows "f = g"
proof -
  note E = tree_entries [OF assms(1), of d]
  have "\<not> ((n, f) \<in> set (entries s d) \<and> (n, k, g) \<in> set (mounts s d))" for f g k
    using E(4) by force
  moreover have "f = g" if "(n, k, f) \<in> set (mounts s d)" "(n, k', g) \<in> set (mounts s d)" for k k'
    using eq_key_imp_eq_value [OF E(3) that] by simp
  ultimately show ?thesis
    using assms(2,3) eq_key_imp_eq_value [OF E(1), of n f g] unfolding listed_def by blast
qed

lemma lookup_listed:
  assumes T: "tree r s" and n: "ordinary n"
  shows "lookup s d n = Some f \<longleftrightarrow> get_parent s d \<noteq> None \<and> listed s d n f"
proof (cases "get_parent s d")
  case None
  then show ?thesis by (simp add: lookup_eq)
next
  case (Some p)
  have "lookup s d n = Some f \<Longrightarrow> listed s d n f"
    using Some n by (auto simp: lookup_eq listed_def split: option.splits dest: map_of_SomeD)
  moreover have "lookup s d n \<noteq> None" if "listed s d n f"
    using that Some n by (force simp: lookup_eq listed_def map_of_eq_None_iff split: option.splits)
  moreover have "lookup s d n = Some g \<Longrightarrow> listed s d n g" for g
    using Some n by (auto simp: lookup_eq listed_def split: option.splits dest: map_of_SomeD)
  ultimately show ?thesis using Some listed_unique [OF T] by fastforce
qed

lemma insert_move_listed:
  assumes T: "tree r s" and d: "is_dir s d" "get_parent s d \<noteq> None"
    and f: "get_parent s f = Some p" "f \<notin> (\<lambda>e. snd (snd e)) ` set (mounts s p)"
    and m: "m \<notin> fst ` set (mounts s d)" and mv: "insert_move d m f s = (s', q)"
  shows "listed s' x k g \<longleftrightarrow> x = d \<and> k = m \<and> g = f \<or> listed s x k g \<and> g \<noteq> f \<and> (x, k) \<noteq> (d, m)"
proof -
  note R = insert_move_readings [OF T d f mv]
  have nf: "(k, j, f) \<notin> set (mounts s x)" for x k j
  proof
    assume a: "(k, j, f) \<in> set (mounts s x)"
    then have "x = p" using treeD(5) [OF T mounts_child [OF a]] f(1) by simp
    then show False using a f(2) by force
  qed
  have dist: "distinct (map fst (entries_without f s d))"
  proof (cases "p = d")
    case True
    then show ?thesis
      using tree_entries(1) [OF T, of d] f(1) distinct_sub_mset [OF _ tree_entries(1) [OF T, of d]]
      by (simp add: entries_without_def) (metis erase_child_sub image_mset_subseteq_mono mset_map)
  next
    case False
    then show ?thesis using tree_entries(1) [OF T, of d] f(1) by (simp add: entries_without_def)
  qed
  have nm: "(m, j, g) \<notin> set (mounts s d)" for j g using m by force
  show ?thesis
    using nf [of k _ x] nm
    by (auto simp: listed_def R(5,6) erase_name_set [OF dist] entries_without_set [OF T])
qed

lemma insert_move_lookup:
  assumes T: "tree r s" and d: "is_dir s d" "get_parent s d \<noteq> None"
    and f: "lookup s p n = Some f" "f \<notin> (\<lambda>e. snd (snd e)) ` set (mounts s p)" "f \<noteq> r"
    and m: "m \<notin> fst ` set (mounts s d)" and nm: "ordinary n" "ordinary m"
    and below: "(f, d) \<notin> (child_rel r s)\<^sup>*" and mv: "insert_move d m f s = (s', q)" and ne: "lookup s d m \<noteq> Some f"
  shows "lookup s' d m = Some f" "lookup s' p n = None"
    "\<And>x k. ordinary k \<Longrightarrow> (x, k) \<noteq> (p, n) \<Longrightarrow> (x, k) \<noteq> (d, m) \<Longrightarrow> lookup s d m \<noteq> Some x \<Longrightarrow>
       lookup s' x k = lookup s x k"
proof -
  have lf: "listed s p n f" using f(1) by (simp add: lookup_listed [OF T nm(1)])
  have pf: "get_parent s f = Some p" using listed_parent [OF T lf] by simp
  have T': "tree r s'" by (rule tree_insert_move [OF T d pf f(2) mv f(3) m below])
  note L = insert_move_listed [OF T d pf f(2) m mv]
  note R = insert_move_readings [OF T d pf f(2) mv]
  have gone: "lookup s d m = Some x" if "map_of (entries_without f s d) m = Some x" for x
  proof -
    have "listed s d m x"
      using map_of_SomeD [OF that] entries_without_set [OF T, of f d] by (auto simp: listed_def)
    then show ?thesis using d(2) by (simp add: lookup_listed [OF T nm(2)])
  qed
  have dd: "lookup s d m \<noteq> Some d"
  proof
    assume "lookup s d m = Some d"
    then have "get_parent s d = Some d \<and> d \<noteq> r"
      using listed_parent [OF T, of d m d] lookup_listed [OF T nm(2), of d d] by blast
    then have "(d, d) \<in> child_rel r s" by (simp add: child_rel_def)
    then show False using treeD(10) [OF T] by simp
  qed
  have fd: "f \<noteq> d" using below by blast
  have pd': "get_parent s' d \<noteq> None" using d(2) dd gone fd by (auto simp: R(7))
  then show "lookup s' d m = Some f" by (simp add: lookup_listed [OF T' nm(2)] L)
  have "\<not> listed s' p n g" for g
    using L [of p n g] listed_unique [OF T lf] ne f(1) by auto
  then show "lookup s' p n = None" using lookup_listed [OF T' nm(1), of p] by (metis not_None_eq)
  fix x k
  assume H: "ordinary k" "(x, k) \<noteq> (p, n)" "(x, k) \<noteq> (d, m)" "lookup s d m \<noteq> Some x"
  have par: "get_parent s' x \<noteq> None \<longleftrightarrow> get_parent s x \<noteq> None"
    using gone [of x] H(4) pf by (auto simp: R(7))
  have "\<not> listed s x k f"
  proof
    assume a: "listed s x k f"
    then have xp: "x = p" using listed_parent [OF T a] pf by simp
    have "k = n"
    proof -
      have "(k, f) \<in> set (entries s p)" "(n, f) \<in> set (entries s p)"
        using a lf f(2) unfolding xp listed_def by force+
      then show ?thesis using inj_onD [of snd "set (entries s p)" "(k, f)" "(n, f)"] tree_entries(2) [OF T, of p]
        by (simp add: distinct_map)
    qed
    then show False using H(2) xp by simp
  qed
  then have "listed s' x k g \<longleftrightarrow> listed s x k g" for g using L [of x k g] H(3) by auto
  then have "lookup s' x k = Some g \<longleftrightarrow> lookup s x k = Some g" for g
    using par by (simp only: lookup_listed [OF T' H(1)] lookup_listed [OF T H(1)])
  then show "lookup s' x k = lookup s x k" by (metis not_None_eq)
qed

end
