(* ===== verification/Wasmfs_Correct.thy ===== *)
theory Wasmfs_Correct
  imports Wasmfs_Calls
begin

text \<open>
  What the system calls on names promise, on the initial file system and on every reachable one: the
  invariant, the effect of creating, removing and renaming on lookups, the current directory as a path;
  and the calls that break these promises around mounts and unlinked directories.
\<close>

section \<open>Parsing short paths\<close>

lemma dropWhile_plain: "\<not> list_ex P n \<Longrightarrow> dropWhile P n = n"
  by (cases n) auto

lemma remove_trailing_plain: "\<not> list_ex is_sep n \<Longrightarrow> remove_trailing n = n"
  using dropWhile_plain [of is_sep "rev n"] by (simp add: remove_trailing_def is_sep_def [abs_def])

lemma parse_segments_leaf:
  assumes "\<not> list_ex is_sep n" "admit_file w d = 0"
  shows "parse_segments w pf k n d rec = Some (Inr (d, n), rec)"
  using assms by (subst parse_segments.simps) (simp add: dropWhile_plain)

lemma parse_absolute:
  assumes "n \<noteq> []" "\<not> list_ex is_sep n" "admit_file w (root_dir w) = 0"
  shows "parse_parent w (CHR ''/'' # n) fd = Inr (root_dir w, n)"
  using assms
  by (simp add: parse_parent_def starting_dir_def is_sep_def do_parse_parent_def remove_trailing_plain parsed_result_def
      parse_segments_leaf)

lemma parse_relative:
  assumes "n \<noteq> []" "\<not> list_ex is_sep n" "admit_file w (cwd w) = 0"
  shows "parse_parent w n AT_FDCWD = Inr (cwd w, n)"
proof -
  have "\<not> is_sep (hd n)" using assms(1,2) by (cases n) simp_all
  then show ?thesis
    using assms
    by (simp add: parse_parent_def starting_dir_def get_base_dir_def do_parse_parent_def remove_trailing_plain
        parsed_result_def parse_segments_leaf)
qed

section \<open>Paths that go down directories\<close>

definition good_name :: "string \<Rightarrow> bool" where
  "good_name n \<longleftrightarrow> ordinary n \<and> n \<noteq> [] \<and> \<not> list_ex is_sep n"

fun descends :: "wasmfs \<Rightarrow> fid \<Rightarrow> string list \<Rightarrow> fid \<Rightarrow> bool" where
  "descends w d [] f \<longleftrightarrow> d = f"
| "descends w d (n # ns) f \<longleftrightarrow>
     good_name n \<and> (\<exists>c. lookup (fsys w) d n = Some c \<and> is_dir (fsys w) c \<and> descends w c ns f)"

definition path_of :: "string list \<Rightarrow> string" where
  "path_of ns = concat (map (\<lambda>n. CHR ''/'' # n) ns)"

lemma path_of_simps [simp]: "path_of [] = []" "path_of (n # ns) = CHR ''/'' # n @ path_of ns"
  by (simp_all add: path_of_def)

lemma path_child_dir:
  assumes "\<forall>f. admit_file w f = 0" "lookup (fsys w) d n = Some c" "is_dir (fsys w) c"
  shows "path_child w pf (Suc k) d n follow rec = Some (Inr c, rec)"
proof -
  have "link_target (fsys w) c = None"
    using assms(3) by (auto simp: is_dir_def link_target_def split: option.splits content.splits)
  then show ?thesis using assms by (simp add: path_child_def)
qed

lemma first_segment:
  assumes "\<not> list_ex P n" "P (hd rest)" "rest \<noteq> []"
  shows "takeWhile (\<lambda>c. \<not> P c) (n @ rest) = n" "dropWhile (\<lambda>c. \<not> P c) (n @ rest) = rest"
  using assms by (cases rest; auto simp: takeWhile_append list_ex_iff dropWhile_append)+

lemma parse_segments_down:
  assumes adm: "\<forall>f. admit_file w f = 0"
  shows "descends w d (ns @ [m]) f \<Longrightarrow>
    \<exists>p. parse_segments w pf (Suc k) (path_of (ns @ [m])) d rec = Some (Inr (p, m), rec) \<and> lookup (fsys w) p m = Some f \<and>
        is_dir (fsys w) f"
proof (induction ns arbitrary: d)
  case Nil
  then have m: "\<not> list_ex is_sep m" "lookup (fsys w) d m = Some f" "is_dir (fsys w) f" by (auto simp: good_name_def)
  have "dropWhile is_sep (path_of [m]) = m" using m(1) by (simp add: is_sep_def [of "CHR ''/''"] dropWhile_plain)
  then have "parse_segments w pf (Suc k) (path_of [m]) d rec = Some (Inr (d, m), rec)"
    using m adm by (subst parse_segments.simps) simp
  then show ?case using m by simp
next
  case (Cons n ns)
  obtain c where n: "good_name n" "lookup (fsys w) d n = Some c" "is_dir (fsys w) c" "descends w c (ns @ [m]) f"
    using Cons.prems by auto
  let ?r = "path_of (ns @ [m])"
  obtain x xs where r: "?r = CHR ''/'' # xs" by (cases ns) auto
  have sep: "is_sep (CHR ''/'')" by (simp add: is_sep_def)
  have gn: "n \<noteq> []" "\<not> list_ex is_sep n" using n(1) by (simp_all add: good_name_def)
  have dn: "dropWhile is_sep (path_of ((n # ns) @ [m])) = n @ ?r"
    using gn sep by (cases n) auto
  have ex: "list_ex is_sep (n @ ?r)" using r sep by (simp add: list_ex_iff)
  have tw: "takeWhile (\<lambda>c. \<not> is_sep c) (n @ ?r) = n" "dropWhile (\<lambda>c. \<not> is_sep c) (n @ ?r) = ?r"
    using first_segment [OF gn(2), of ?r] r sep by auto
  have "parse_segments w pf (Suc k) (path_of ((n # ns) @ [m])) d rec = parse_segments w pf (Suc k) ?r c rec"
    using path_child_dir [OF adm n(2,3)] n(3) ex
    by (subst parse_segments.simps) (simp only: dn tw Let_def not_True_eq_False if_False option.case prod.case sum.case if_True)
  then show ?case using Cons.IH [OF n(4)] by simp
qed

lemma parse_segments_sep:
  assumes "is_sep c"
  shows "parse_segments w pf k (c # path) d rec = parse_segments w pf k path d rec"
proof -
  have "dropWhile is_sep (c # path) = dropWhile is_sep path" using assms by simp
  then show ?thesis by (simp only: parse_segments.simps [of w pf k "c # path"] parse_segments.simps [of w pf k path])
qed

lemma remove_trailing_last_plain: "p \<noteq> [] \<Longrightarrow> \<not> is_sep (last p) \<Longrightarrow> remove_trailing p = p"
  by (cases p rule: rev_cases) (simp_all add: remove_trailing_def is_sep_def)

lemma parse_file_down:
  assumes adm: "\<forall>f. admit_file w f = 0" and d: "descends w (root_dir w) ns f" and ne: "ns \<noteq> []"
  shows "parse_file w (path_of ns) fd follow = Inr f"
proof -
  obtain ms m where ns: "ns = ms @ [m]" using ne by (cases ns rule: rev_cases) auto
  have "good_name m" if "descends w c (ms @ [m]) f" for c
    using that by (induction ms arbitrary: c) auto
  then have gm: "m \<noteq> []" "\<not> list_ex is_sep m" using d ns by (auto simp: good_name_def)
  obtain rest where r: "path_of ns = CHR ''/'' # rest" using ns by (cases ms) auto
  have last: "rest \<noteq> []" "\<not> is_sep (last rest)"
  proof -
    have "path_of ns = path_of ms @ CHR ''/'' # m" by (simp add: ns path_of_def)
    then have "last (path_of ns) = last m" "length (path_of ns) = Suc (length (path_of ms) + length m)"
      using gm(1) by simp_all
    then show "rest \<noteq> []" "\<not> is_sep (last rest)"
      using r gm by (auto simp: list_ex_iff split: if_splits)
  qed
  let ?pf = "do_parse_file w path_fuel True"
  obtain p where p: "parse_segments w ?pf (Suc path_fuel) (path_of ns) (root_dir w) 0 = Some (Inr (p, m), 0)"
    "lookup (fsys w) p m = Some f" "is_dir (fsys w) f"
    using parse_segments_down [OF adm d [unfolded ns], of ?pf path_fuel 0] ns by blast
  have sep: "is_sep (CHR ''/'')" by (simp add: is_sep_def)
  have "do_parse_parent w ?pf (Suc path_fuel) (path_of ns) b 0 = Some (Inr (p, m), 0)" for b
    using p(1) adm last unfolding r
    by (simp add: do_parse_parent_def sep remove_trailing_last_plain parse_segments_sep)
  then have "do_parse_file w (Suc path_fuel) follow (path_of ns) b 0 = Some (Inr f, 0)" for b
    using path_child_dir [OF adm p(2,3)] by simp
  then show ?thesis
    using adm r by (simp add: parse_file_def starting_dir_def sep parsed_result_def del: do_parse_file.simps)
qed

lemma parse_root:
  assumes "\<forall>f. admit_file w f = 0" "get_parent (fsys w) (root_dir w) \<noteq> None" "is_dir (fsys w) (root_dir w)"
  shows "parse_file w ''/'' fd follow = Inr (root_dir w)"
proof -
  have l: "lookup (fsys w) (root_dir w) ''.'' = Some (root_dir w)"
    using assms(2) by (auto simp: lookup_eq)
  have "do_parse_parent w pf k ''/'' d rec = Some (Inr (root_dir w, ''.''), rec)" for pf k d rec
    using assms(1) by (simp add: do_parse_parent_def is_sep_def remove_trailing_def Let_def)
  then show ?thesis
    using path_child_dir [OF assms(1) l assms(3)] assms(1)
    by (simp add: parse_file_def starting_dir_def is_sep_def parsed_result_def)
qed

section \<open>The current directory as a path\<close>

text \<open>Every directory on the way up is an ordinary entry of its parent, with a proper name.\<close>

definition named_by_entries :: "wasmfs \<Rightarrow> fid \<Rightarrow> bool" where
  "named_by_entries w f \<longleftrightarrow>
     (\<forall>x. (x, f) \<in> (child_rel (root_dir w) (fsys w))\<^sup>* \<and> x \<noteq> root_dir w \<longrightarrow>
        (\<exists>p n. get_parent (fsys w) x = Some p \<and> (n, x) \<in> set (entries (fsys w) p) \<and> good_name n))"

lemma named_parent:
  assumes "named_by_entries w f" "f \<noteq> root_dir w"
  obtains p n where "get_parent (fsys w) f = Some p" "(n, f) \<in> set (entries (fsys w) p)" "good_name n"
    "named_by_entries w p"
proof -
  obtain p n where p: "get_parent (fsys w) f = Some p" "(n, f) \<in> set (entries (fsys w) p)" "good_name n"
    using assms unfolding named_by_entries_def by blast
  have "(p, f) \<in> child_rel (root_dir w) (fsys w)" using p(1) assms(2) by (simp add: child_rel_def)
  then have "named_by_entries w p"
    using assms(1) unfolding named_by_entries_def by (meson rtrancl.rtrancl_into_rtrancl)
  then show thesis using that p by blast
qed

lemma memory_get_name_entry:
  assumes "tree r s" "(n, f) \<in> set (entries s p)"
  shows "memory_get_name s p f = n"
proof -
  obtain e where e: "find (\<lambda>e. snd e = f) (entries s p) = Some e"
    using assms(2) by (metis (mono_tags, lifting) find_None_iff not_None_eq snd_conv)
  then have "e \<in> set (entries s p)" "snd e = f" by (auto simp: find_Some_iff)
  then have "e = (n, f)"
    using inj_onD [of snd "set (entries s p)" e "(n, f)"] tree_entries(2) [OF assms(1), of p] assms(2)
    by (simp add: distinct_map)
  then show ?thesis using e by (simp add: memory_get_name_def)
qed

lemma descends_append:
  "descends w d ns c \<Longrightarrow> good_name n \<Longrightarrow> lookup (fsys w) c n = Some f \<Longrightarrow> is_dir (fsys w) f \<Longrightarrow>
    descends w d (ns @ [n]) f"
  by (induction ns arbitrary: d) auto

lemma getcwd_loop_path:
  assumes inv: "wasmfs_inv w" and adm: "\<forall>f. admit_file w f = 0"
  shows "named_by_entries w f \<Longrightarrow> is_dir (fsys w) f \<Longrightarrow>
    \<exists>ns. descends w (root_dir w) ns f \<and> (\<forall>result. getcwd_loop w f result = Some (Inr (path_of ns @ result)))"
  using treeD(10) [OF wasmfs_invD(1) [OF inv]]
proof (induction f rule: wf_induct_rule)
  case (less f)
  note T = wasmfs_invD(1) [OF inv]
  show ?case
  proof (cases "f = root_dir w")
    case True
    then show ?thesis by (intro exI [of _ "[]"]) (simp add: getcwd_loop.simps [of w "root_dir w"])
  next
    case False
    obtain p n where p: "get_parent (fsys w) f = Some p" "(n, f) \<in> set (entries (fsys w) p)" "good_name n"
      "named_by_entries w p"
      by (rule named_parent [OF less.prems(1) False])
    have pd: "is_dir (fsys w) p" by (rule treeD(4) [OF T p(1)])
    have "(p, f) \<in> child_rel (root_dir w) (fsys w)" using p(1) False by (simp add: child_rel_def)
    then obtain ns where ns: "descends w (root_dir w) ns p"
      "\<And>result. getcwd_loop w p result = Some (Inr (path_of ns @ result))"
      using less.IH p(4) pd by blast
    have pp: "get_parent (fsys w) p \<noteq> None"
      using named_parent [OF p(4)] treeD(2) [OF T] by (metis option.distinct(1))
    have "lookup (fsys w) p n = Some f"
      using p(2,3) pp by (simp add: lookup_listed [OF T] listed_def good_name_def)
    then have "descends w (root_dir w) (ns @ [n]) f" by (rule descends_append [OF ns(1) p(3) _ less.prems(2)])
    moreover have "getcwd_loop w f result = Some (Inr (path_of (ns @ [n]) @ result))" for result
      using False adm p(1) ns(2) memory_get_name_entry [OF T p(2)]
      by (subst getcwd_loop.simps) (simp add: get_name_def maintains_file_identity_def path_of_def)
    ultimately show ?thesis by blast
  qed
qed

text \<open>
  Claim C27. The current directory round trip, outside of mounts: if every directory from the current one up to the root is an entry
  of its parent (\<open>named_by_entries\<close>: none of them is a mount, and none has been removed) and the backends admit the thread, then
  \<open>getcwd\<close> returns a path, whenever the buffer has room for it, and resolving that path gives
  the current directory again. Inside a mount it does not (\<open>getcwd_loses_mount\<close>).
\<close>

theorem getcwd_resolves:
  assumes "wasmfs_inv w" and "named_by_entries w (cwd w)" and "\<forall>f. admit_file w f = 0"
  shows "\<exists>path. parse_file w path AT_FDCWD follow = Inr (cwd w) \<and>
    (\<forall>sz. syscall_getcwd True sz w =
       Some (if sz = 0 then (- EINVAL, None) else if sz \<le> length path then (- ERANGE, None)
             else (int (length path) + 1, Some path)))"
proof -
  note I = wasmfs_invD [OF assms(1)]
  obtain ns where ns: "descends w (root_dir w) ns (cwd w)"
    "\<And>result. getcwd_loop w (cwd w) result = Some (Inr (path_of ns @ result))"
    using getcwd_loop_path [OF assms(1,3,2) I(4)] by blast
  define path where "path = (if ns = [] then ''/'' else path_of ns)"
  have "path_of ns = [] \<longleftrightarrow> ns = []" by (cases ns) simp_all
  then have "syscall_getcwd True sz w =
       Some (if sz = 0 then (- EINVAL, None) else if sz \<le> length path then (- ERANGE, None)
             else (int (length path) + 1, Some path))" for sz
    using ns(2) [of "[]"] assms(3) by (auto simp: syscall_getcwd_def path_def Let_def)
  moreover have "parse_file w path AT_FDCWD follow = Inr (cwd w)"
  proof (cases "ns = []")
    case True
    then show ?thesis using parse_root [OF assms(3)] treeD(1,2) [OF I(1)] ns(1) by (simp add: path_def)
  next
    case False
    then show ?thesis using parse_file_down [OF assms(3) ns(1)] by (simp add: path_def)
  qed
  ultimately show ?thesis by blast
qed

lemma inv_chdir_tmp: "wasmfs_inv (init_wasmfs\<lparr>cwd := 8\<rparr>)"
  using wasmfs_inv_init
  by (simp add: wasmfs_inv_def table_inv_def handles_inv_def live_states_def init_wasmfs_eq init_observed)

theorem getcwd_resolves_witness:
  "\<exists>path. parse_file (init_wasmfs\<lparr>cwd := 8\<rparr>) path AT_FDCWD True = Inr 8 \<and>
     syscall_getcwd True 1 (init_wasmfs\<lparr>cwd := 8\<rparr>) = Some (- ERANGE, None)"
proof -
  let ?w = "init_wasmfs\<lparr>cwd := 8\<rparr>"
  have below: "x = 8 \<or> x = 6" if "(x, 8) \<in> (child_rel 6 init_fs)\<^sup>*" for x
    using that by (induction rule: converse_rtrancl_induct) (auto simp: child_rel_def init_observed split: if_splits)
  have named: "named_by_entries ?w (cwd ?w)"
    unfolding named_by_entries_def using below
    by (auto simp: init_wasmfs_eq init_observed good_name_def is_sep_def)
  have adm: "\<forall>f. admit_file ?w f = 0" by (simp add: admit_file_def admit_backend_def init_wasmfs_eq)
  obtain path where path: "parse_file ?w path AT_FDCWD True = Inr (cwd ?w)"
    "syscall_getcwd True 1 ?w = Some (if 1 \<le> length path then (- ERANGE, None) else (int (length path) + 1, Some path))"
    using getcwd_resolves [OF inv_chdir_tmp named adm, where follow = True] by auto
  moreover have "path \<noteq> []"
  proof
    assume "path = []"
    then show False using path(1)
      by (simp add: parse_file_def starting_dir_def get_base_dir_def adm do_parse_parent_def parsed_result_def)
  qed
  then have "1 \<le> length path" by (cases path) simp_all
  ultimately show ?thesis by auto
qed

section \<open>Every call keeps the invariant\<close>

lemma wasmfs_reachable_inv: "(wasmfs_step mutable supports)\<^sup>*\<^sup>* init_wasmfs w \<Longrightarrow> wasmfs_inv w"
  by (induction rule: rtranclp_induct) (auto intro: wasmfs_inv_init wasmfs_step_inv)

text \<open>
  Claim C25. Whatever calls a program makes, as long as it does not rename a mount or onto a mount:
  directories and parents stay a tree without cycles in which no name or file is listed twice, every
  open file description counts its descriptors, every data file is open in the backend exactly once per
  description in use, and the current directory is a directory.
\<close>

theorem calls_keep_invariant:
  assumes "(wasmfs_step mutable supports)\<^sup>*\<^sup>* init_wasmfs w"
  shows "tree (root_dir w) (fsys w) \<and> table_inv w \<and> handles_inv (\<lambda>_. 0) w \<and> is_dir (fsys w) (cwd w)"
  using wasmfs_reachable_inv [OF assms] by (simp add: wasmfs_inv_def)

theorem calls_keep_invariant_witness:
  "tree (root_dir (fst (syscall_mkdirat AT_FDCWD ''/d'' 0x1FF init_wasmfs)))
     (fsys (fst (syscall_mkdirat AT_FDCWD ''/d'' 0x1FF init_wasmfs)))"
proof -
  have "(wasmfs_step (\<lambda>_. True) (\<lambda>_. True))\<^sup>*\<^sup>* init_wasmfs (fst (syscall_mkdirat AT_FDCWD ''/d'' 0x1FF init_wasmfs))"
    by (rule r_into_rtranclp, rule call_mkdir)
  then show ?thesis using calls_keep_invariant by blast
qed

section \<open>Renaming moves\<close>

lemma renameat_ok:
  assumes H: "parse_parent w oldpath olddirfd = Inr (p, n)" "parse_parent w newpath newdirfd = Inr (d, m)"
    "lookup (fsys w) p n = Some f" and ne: "lookup (fsys w) d m \<noteq> Some f"
    and r: "syscall_renameat olddirfd oldpath newdirfd newpath w = Some (w', 0)"
  shows "\<exists>s. insert_move d m f (fsys w) = (s, 0) \<and> w' = w\<lparr>fsys := s\<rparr> \<and> f \<noteq> root_dir w \<and>
    rename_climb (fsys w) (root_dir w) d f = Some Reached_root"
proof -
  define e2 where "e2 = (case lookup (fsys w) d m of None \<Rightarrow> 0 | Some g \<Rightarrow> admit_file w g)"
  obtain s q' where mv: "insert_move d m f (fsys w) = (s, q')" by fastforce
  have "f \<noteq> root_dir w \<and> rename_climb (fsys w) (root_dir w) d f = Some Reached_root \<and> q' = 0 \<and> w' = w\<lparr>fsys := s\<rparr>"
    using r ne unfolding syscall_renameat_def H sum.case prod.case Let_def e2_def [symmetric] option.case
    by (simp add: mv split: if_splits option.splits climb.splits)
  then show ?thesis using mv by simp
qed

text \<open>
  Claim C26. A successful \<open>rename\<close> of a file that is not a mount to a name that is not a mount makes the
  file found under the new name and no longer under the old one, replaces what had the new name,
  and changes no other lookup and no contents.
\<close>

theorem rename_moves:
  assumes "wasmfs_inv w" and "parse_parent w oldpath olddirfd = Inr (p, n)" and "parse_parent w newpath newdirfd = Inr (d, m)"
    and "lookup (fsys w) p n = Some f" and "lookup (fsys w) d m \<noteq> Some f" and "ordinary n" and "ordinary m"
    and "moves_no_mount w f d m" and "syscall_renameat olddirfd oldpath newdirfd newpath w = Some (w', 0)"
  shows "lookup (fsys w') d m = Some f \<and> lookup (fsys w') p n = None \<and>
    (\<forall>x k. ordinary k \<and> (x, k) \<notin> {(p, n), (d, m)} \<and> lookup (fsys w) d m \<noteq> Some x \<longrightarrow>
       lookup (fsys w') x k = lookup (fsys w) x k) \<and>
    (\<forall>x. data (fsys w') x = data (fsys w) x)"
proof -
  note T = wasmfs_invD(1) [OF assms(1)]
  obtain s where s: "insert_move d m f (fsys w) = (s, 0)" "w' = w\<lparr>fsys := s\<rparr>" "f \<noteq> root_dir w"
    "rename_climb (fsys w) (root_dir w) d f = Some Reached_root"
    using renameat_ok [OF assms(2-5,9)] by blast
  have dir: "is_dir (fsys w) d" by (rule parse_parent_dir [OF assms(1,3)])
  have pd: "get_parent (fsys w) d \<noteq> None" using s(1) by (auto simp: insert_move_def split: option.splits)
  have pf: "get_parent (fsys w) f = Some p"
    using assms(4) listed_parent [OF T, of p n f] by (simp add: lookup_listed [OF T assms(6)])
  have nm: "f \<notin> (\<lambda>e. snd (snd e)) ` set (mounts (fsys w) p)" "m \<notin> fst ` set (mounts (fsys w) d)"
    using assms(8) pf by (auto simp: moves_no_mount_def)
  have below: "(f, d) \<notin> (child_rel (root_dir w) (fsys w))\<^sup>*"
    using rename_climb_result [OF treeD(10) [OF T], of d f] s(3,4) by auto
  note L = insert_move_lookup [OF T dir pd assms(4) nm(1) s(3) nm(2) assms(6,7) below s(1) assms(5)]
  note R = insert_move_readings [OF T dir pd pf nm(1) s(1)]
  show ?thesis using L R(8) by (simp add: s(2))
qed

lemma snd_Some: "map_option snd x = Some q \<Longrightarrow> \<exists>w. x = Some (w, q)"
  by (cases x) auto

lemma init_rename: "map_option snd (syscall_renameat AT_FDCWD ''/tmp'' AT_FDCWD ''/t'' init_wasmfs) = Some 0"
proof -
  have "parse_parent init_wasmfs ''/tmp'' AT_FDCWD = Inr (6, ''tmp'')"
    "parse_parent init_wasmfs ''/t'' AT_FDCWD = Inr (6, ''t'')"
    by (simp_all add: parse_absolute is_sep_def init_plain init_wasmfs_eq)
  moreover have "snd (insert_move 6 ''t'' 8 init_fs) = 0"
    by (simp add: insert_move_def init_observed Let_def)
  moreover have "get_mode init_fs 6 AND WASMFS_PERM_WRITE \<noteq> 0"
    by (simp add: init_fs_eq init_nodes_def get_mode_def WASMFS_PERM_WRITE_def)
  ultimately show ?thesis
    by (cases "insert_move 6 ''t'' 8 init_fs")
       (simp add: syscall_renameat_def init_plain init_wasmfs_eq lookup_eq init_observed WASMFS_NAME_MAX_def
        rename_climb.simps [of _ 6 6] overwrite_error_def)
qed

theorem rename_moves_witness:
  "\<exists>w'. syscall_renameat AT_FDCWD ''/tmp'' AT_FDCWD ''/t'' init_wasmfs = Some (w', 0) \<and>
     lookup (fsys w') 6 ''t'' = Some 8 \<and> lookup (fsys w') 6 ''tmp'' = None"
proof -
  obtain w' where w': "syscall_renameat AT_FDCWD ''/tmp'' AT_FDCWD ''/t'' init_wasmfs = Some (w', 0)"
    using snd_Some [OF init_rename] by blast
  have p: "parse_parent init_wasmfs ''/tmp'' AT_FDCWD = Inr (6, ''tmp'')"
    "parse_parent init_wasmfs ''/t'' AT_FDCWD = Inr (6, ''t'')"
    by (simp_all add: parse_absolute is_sep_def init_plain init_wasmfs_eq)
  have l: "lookup (fsys init_wasmfs) 6 ''tmp'' = Some 8" "lookup (fsys init_wasmfs) 6 ''t'' \<noteq> Some 8"
    "moves_no_mount init_wasmfs 8 6 ''t''"
    by (simp_all add: init_wasmfs_eq lookup_eq init_observed moves_no_mount_def)
  have o: "ordinary ''tmp''" "ordinary ''t''" by simp_all
  show ?thesis using rename_moves [OF wasmfs_inv_init p l(1,2) o l(3) w'] w' by blast
qed

section \<open>Removing removes\<close>

lemma unlinkat_ok:
  assumes p: "parse_parent w path dirfd = Inr (p, n)" and r: "syscall_unlinkat dirfd path flags w = (w', 0)"
  shows "\<exists>f s. lookup (fsys w) p n = Some f \<and> f \<noteq> root_dir w \<and> remove_child p n (fsys w) = (s, 0) \<and> w' = w\<lparr>fsys := s\<rparr>"
proof -
  obtain s q where mv: "remove_child p n (fsys w) = (s, q)" by fastforce
  show ?thesis
  proof (cases "lookup (fsys w) p n")
    case None
    then show ?thesis using r p by (simp add: syscall_unlinkat_def split: if_splits)
  next
    case (Some f)
    show ?thesis
      using r unfolding syscall_unlinkat_def p sum.case prod.case Some option.case Let_def
      by (simp add: mv split: if_splits)
  qed
qed

lemma remove_child_listed:
  assumes T: "tree r s" and d: "is_dir s d" and rm: "remove_child d n s = (s', q)"
  shows "listed s' x k g \<longleftrightarrow> listed s x k g \<and> (x, k) \<noteq> (d, n)"
  using tree_entries(1) [OF T, of d]
  by (auto simp: listed_def remove_child_readings(5,6) [OF T d rm] erase_name_set)

text \<open>
  A successful \<open>unlink\<close> or \<open>rmdir\<close> removes exactly the name it is given: nothing is found
  under it any more, every other lookup (but in a directory that was removed) and all contents stay,
  and descriptors of the removed file keep working on the same contents.
\<close>

theorem unlink_removes:
  assumes "wasmfs_inv w" and "parse_parent w path dirfd = Inr (p, n)" and "ordinary n"
    and "syscall_unlinkat dirfd path flags w = (w', 0)"
  shows "lookup (fsys w') p n = None \<and>
    (\<forall>x k. ordinary k \<and> (x, k) \<noteq> (p, n) \<and> lookup (fsys w) p n \<noteq> Some x \<longrightarrow>
       lookup (fsys w') x k = lookup (fsys w) x k) \<and>
    (\<forall>x. data (fsys w') x = data (fsys w) x) \<and> table w' = table w \<and> open_files w' = open_files w"
proof -
  note T = wasmfs_invD(1) [OF assms(1)]
  have d: "is_dir (fsys w) p" by (rule parse_parent_dir [OF assms(1,2)])
  obtain f s where s: "lookup (fsys w) p n = Some f" "f \<noteq> root_dir w" "remove_child p n (fsys w) = (s, 0)" "w' = w\<lparr>fsys := s\<rparr>"
    using unlinkat_ok [OF assms(2,4)] by blast
  note R = remove_child_readings [OF T d s(3)]
  note L = remove_child_listed [OF T d s(3)]
  have T': "tree (root_dir w) s" by (rule tree_remove_child [OF T d s(3)])
  have "lookup s p n = None"
    using lookup_listed [OF T' assms(3), of p] L [of p n] by (metis not_None_eq)
  moreover have "lookup s x k = lookup (fsys w) x k"
    if k: "ordinary k" "(x, k) \<noteq> (p, n)" "lookup (fsys w) p n \<noteq> Some x" for x k
  proof -
    have "map_of (entries (fsys w) p) n \<noteq> Some x"
    proof
      assume "map_of (entries (fsys w) p) n = Some x"
      then have "listed (fsys w) p n x" by (auto simp: listed_def dest: map_of_SomeD)
      then have "lookup (fsys w) p n = Some x" using s(1) by (simp add: lookup_listed [OF T assms(3)])
      then show False using k(3) by simp
    qed
    then have "get_parent s x = get_parent (fsys w) x" by (simp add: R(7))
    then have "lookup s x k = Some g \<longleftrightarrow> lookup (fsys w) x k = Some g" for g
      using L [of x k g] k(2) by (simp add: lookup_listed [OF T' k(1)] lookup_listed [OF T k(1)])
    then show ?thesis by (metis not_None_eq)
  qed
  ultimately show ?thesis using R(8) by (simp add: s(4))
qed

theorem unlink_removes_witness:
  "\<exists>w'. syscall_unlinkat AT_FDCWD ''/tmp'' AT_REMOVEDIR init_wasmfs = (w', 0) \<and> lookup (fsys w') 6 ''tmp'' = None"
proof -
  have p: "parse_parent init_wasmfs ''/tmp'' AT_FDCWD = Inr (6, ''tmp'')"
    by (simp add: parse_absolute is_sep_def init_plain init_wasmfs_eq)
  have l: "lookup init_fs 6 ''tmp'' = Some 8" by (simp add: lookup_eq init_observed)
  have m: "get_mode init_fs 6 AND WASMFS_PERM_WRITE \<noteq> 0"
    by (simp add: init_fs_eq init_nodes_def get_mode_def WASMFS_PERM_WRITE_def)
  have d: "is_dir init_fs 6" by (simp add: init_observed)
  obtain s where s: "remove_child 6 ''tmp'' init_fs = (s, 0)"
    using remove_child_readings(1) [OF tree_init d] by (metis prod.collapse)
  have e: "\<not> ends_in_dot ''/tmp''" by (simp add: ends_in_dot_def remove_trailing_def Let_def)
  have r: "syscall_unlinkat AT_FDCWD ''/tmp'' AT_REMOVEDIR init_wasmfs = (init_wasmfs\<lparr>fsys := s\<rparr>, 0)"
    using m s l unfolding syscall_unlinkat_def p sum.case prod.case
    by (simp add: e init_plain init_wasmfs_eq init_observed get_num_entries_def AT_REMOVEDIR_def)
  have "ordinary ''tmp''" by simp
  then show ?thesis using unlink_removes [OF wasmfs_inv_init p _ r] r by blast
qed

section \<open>Around mounts and unlinked directories\<close>

text \<open>A file system with a second backend mounted on \<open>/m\<close>.\<close>

definition demo_mounted :: wasmfs where
  "demo_mounted = fst (wasmfs_create_directory ''/m'' 0x1FF 2 init_wasmfs)"

lemma demo_mounted_inv: "wasmfs_inv demo_mounted"
  unfolding demo_mounted_def by (rule inv_creating_calls(5) [OF wasmfs_inv_init])

lemma demo_mounted_eq:
  obtains s where "demo_mounted = init_wasmfs\<lparr>fsys := s\<rparr>" "mounts s 6 = [(''m'', Mount, 9)]" "entries s 6 = entries init_fs 6"
    "get_parent s 6 = Some 6" "get_parent s 9 = Some 6" "is_dir s 9" "is_dir s 6" "get_mode s 6 = get_mode init_fs 6" "get_backend s 6 = 1"
    "link_target s 9 = None"
proof -
  define m where "m = (0x1FF AND S_IRWXUGO_VTX :: u32)"
  have p: "parse_parent init_wasmfs ''/m'' AT_FDCWD = Inr (6, ''m'')"
    by (simp add: parse_absolute is_sep_def init_plain init_wasmfs_eq)
  have w: "get_mode init_fs 6 AND WASMFS_PERM_WRITE \<noteq> 0"
    by (simp add: init_fs_eq init_nodes_def get_mode_def WASMFS_PERM_WRITE_def)
  have l: "lookup init_fs 6 ''m'' = None" by (simp add: lookup_eq init_observed)
  obtain s1 f where c: "create_node (Dir []) (m OR S_IFDIR) 2 init_fs = (s1, f)" by fastforce
  have fresh: "files init_fs (next_fid init_fs) = None" by (simp add: init_observed)
  note R = create_node_readings [OF c fresh]
  have f: "f = 9" using R(1) by (simp add: init_observed)
  define s where "s = fst (mount_child 6 ''m'' f s1)"
  have s: "s = set_parent 9 (Some 6) (set_dcache 6 [(''m'', Mount, 9)] s1)"
    by (simp add: s_def f mount_child_def cache_child_def R(4,6) init_observed dcache_insert_def)
  have "demo_mounted = init_wasmfs\<lparr>fsys := s\<rparr>"
    unfolding demo_mounted_def wasmfs_create_directory_def do_mkdir_def p sum.case prod.case Let_def m_def [symmetric]
    using w c by (simp add: l init_wasmfs_eq init_observed WASMFS_NAME_MAX_def admit_backend_def create_directory_def s_def
        split: prod.splits)
  moreover have "files s1 6 \<noteq> None" "files s1 9 \<noteq> None" using R(7) f by (simp_all add: init_observed)
  ultimately show thesis
    using f by (intro that [of s]) (simp_all add: s readings R init_observed)
qed

text \<open>
  Inside a mount on the root directory \<open>getcwd\<close> answers \<open>/\<close>, which resolves to the root and not to the
  current directory: the name of a mount is in the cache, which \<open>getName\<close> does not look at.
\<close>

theorem getcwd_loses_mount:
  assumes "wasmfs_inv w" and "(n, k, cwd w) \<in> set (mounts (fsys w) (root_dir w))" and "\<forall>f. admit_file w f = 0"
  shows "syscall_getcwd True (sz + 2) w = Some (2, Some ''/'') \<and> parse_file w ''/'' AT_FDCWD follow = Inr (root_dir w) \<and>
    cwd w \<noteq> root_dir w"
proof -
  note T = wasmfs_invD(1) [OF assms(1)]
  have c: "get_parent (fsys w) (cwd w) = Some (root_dir w)" "cwd w \<noteq> root_dir w"
    using treeD(5,6) [OF T mounts_child [OF assms(2)]] by blast+
  have "cwd w \<notin> snd ` set (entries (fsys w) (root_dir w))"
    using tree_entries(5) [OF T, of "root_dir w"] assms(2) by force
  then have "find (\<lambda>e. snd e = cwd w) (entries (fsys w) (root_dir w)) = None" by (force simp: find_None_iff)
  then have "get_name (fsys w) (root_dir w) (cwd w) = []"
    by (simp add: get_name_def maintains_file_identity_def memory_get_name_def)
  then have "getcwd_loop w (cwd w) [] = Some (Inr ''/'')"
    using c assms(3) getcwd_loop.simps [of w "root_dir w" "''/''"]
    by (subst getcwd_loop.simps) simp
  then show ?thesis
    using assms(3) parse_root [OF assms(3)] treeD(1,2) [OF T] c by (simp add: syscall_getcwd_def)
qed

lemma filter_is_replicate: "filter (\<lambda>y. y = x) ys = replicate (count (mset ys) x) x"
  by (induction ys) auto

text \<open>What \<open>insertMove\<close> does with a mount: both the backend and the cache get the new name.\<close>

lemma insert_move_mount:
  assumes T: "tree r s" and d: "is_dir s d" "get_parent s d \<noteq> None" and f: "(n, k, f) \<in> set (mounts s p)"
    and m: "m \<notin> set (all_names s d)" and mv: "insert_move d m f s = (s', q)"
  shows "entries s' d = entries s d @ [(m, f)]"
    "mounts s' d = insort_key fst (m, Mount, f) (if d = p then filter (\<lambda>e. fst e \<noteq> n) (mounts s p) else mounts s d)"
proof -
  have pf: "get_parent s f = Some p" using treeD(5) [OF T mounts_child [OF f]] .
  have px: "is_dir s p" "files s p \<noteq> None" using treeD(4) [OF T pf] is_dir_exists by blast+
  have dx: "files s d \<noteq> None" by (rule is_dir_exists [OF d(1)])
  have k: "k = Mount" using treeD(9) [OF T f] by (simp add: is_mount_def)
  have "f \<notin> snd ` set (entries s p)" using tree_entries(5) [OF T, of p] f by force
  then have e: "erase_child f (entries s p) = entries s p" by (rule erase_child_other)
  define s1 where "s1 = set_entries p (entries s p) s"
  have "map_of (entries s1 d) m = None"
    using m by (auto simp: s1_def readings all_names_def map_of_eq_None_iff)
  then have "memory_remove_child d m s1 = s1" by (simp add: memory_remove_child_def memory_get_child_def)
  then have m1: "memory_insert_move d m f s = set_entries d (entries s1 d @ [(m, f)]) s1"
    using pf e by (simp add: memory_insert_move_def memory_insert_child_def s1_def Let_def)
  obtain e where fe: "find (\<lambda>e. snd (snd e) = f) (mounts s p) = Some e"
    using f by (metis (mono_tags, lifting) find_None_iff not_None_eq snd_conv)
  then have "e \<in> set (mounts s p)" "snd (snd e) = f" by (auto simp: find_Some_iff)
  moreover have "distinct (map (\<lambda>e. snd (snd e)) (mounts s p))"
    using treeD(8) [OF T, of p] by (simp add: all_children_def)
  ultimately have e: "e = (n, Mount, f)"
    using inj_onD [of "\<lambda>e. snd (snd e)" "set (mounts s p)" e "(n, k, f)"] f k by (simp add: distinct_map)
  define s2 where "s2 = memory_insert_move d m f s"
  define s3 where "s3 = set_dcache p (filter (\<lambda>e. fst e \<noteq> n) (mounts s2 p)) s2"
  have M: "mounts s3 d = (if d = p then filter (\<lambda>e. fst e \<noteq> n) (mounts s p) else mounts s d)"
    using px dx by (simp add: s3_def s2_def m1 s1_def readings)
  have x3: "files s3 d \<noteq> None" using dx by (simp add: s3_def s2_def m1 s1_def readings)
  have new: "m \<notin> fst ` set (mounts s3 d)" using m M by (auto simp: all_names_def)
  then have "dcache_find s3 d m = None" by (simp add: dcache_find_def map_of_eq_None_iff)
  then have s': "s' = update_mtime d (update_mtime p (set_parent f (Some d)
      (set_dcache d (dcache_insert m (Mount, f) (mounts s3 d)) s3)))"
    using mv d(2) pf fe by (auto simp: insert_move_def e Let_def s2_def s3_def)
  show "entries s' d = entries s d @ [(m, f)]"
    using dx px by (simp add: s' readings s3_def s2_def m1 s1_def)
  show "mounts s' d = insort_key fst (m, Mount, f) (if d = p then filter (\<lambda>e. fst e \<noteq> n) (mounts s p) else mounts s d)"
    using x3 new by (simp add: s' readings M dcache_insert_def)
qed

theorem getcwd_loses_mount_witness:
  "syscall_getcwd True 4096 (demo_mounted\<lparr>cwd := 9\<rparr>) = Some (2, Some ''/'')"
proof -
  obtain s where s: "demo_mounted = init_wasmfs\<lparr>fsys := s\<rparr>" "mounts s 6 = [(''m'', Mount, 9)]" "is_dir s 9"
    by (rule demo_mounted_eq)
  have "fst (do_chdir 9 demo_mounted) = demo_mounted\<lparr>cwd := 9\<rparr>" using s(3) by (simp add: do_chdir_def s(1))
  then have "wasmfs_inv (demo_mounted\<lparr>cwd := 9\<rparr>)" using inv_do_chdir [OF demo_mounted_inv, of 9] by simp
  moreover have "(''m'', Mount, cwd (demo_mounted\<lparr>cwd := 9\<rparr>)) \<in>
      set (mounts (fsys (demo_mounted\<lparr>cwd := 9\<rparr>)) (root_dir (demo_mounted\<lparr>cwd := 9\<rparr>)))"
    using s(2) by (simp add: s(1) init_wasmfs_eq)
  moreover have "\<forall>f. admit_file (demo_mounted\<lparr>cwd := 9\<rparr>) f = 0"
    by (simp add: s(1) admit_file_def admit_backend_def init_wasmfs_eq)
  ultimately show ?thesis using getcwd_loses_mount [where sz = 4094] by fastforce
qed

text \<open>
  Renaming a mount leaves the file system broken: the call succeeds, and afterwards the new name is listed
  twice in its directory, once by the backend and once by the cache.
\<close>

theorem renamed_mount_listed_twice:
  assumes "wasmfs_inv w" and "parse_parent w oldpath olddirfd = Inr (p, n)" and "parse_parent w newpath newdirfd = Inr (d, m)"
    and "ordinary n" and "(n, k, f) \<in> set (mounts (fsys w) p)" and "get_parent (fsys w) p \<noteq> None"
    and "lookup (fsys w) d m = None" and "syscall_renameat olddirfd oldpath newdirfd newpath w = Some (w', 0)"
  shows "map fst (filter (\<lambda>e. fst e = m) (get_entries (fsys w') d)) = [m, m] \<and> \<not> tree (root_dir w') (fsys w')"
proof -
  note T = wasmfs_invD(1) [OF assms(1)]
  have lf: "lookup (fsys w) p n = Some f"
    using assms(4-6) by (auto simp: lookup_listed [OF T] listed_def)
  obtain s where s: "insert_move d m f (fsys w) = (s, 0)" "w' = w\<lparr>fsys := s\<rparr>"
    using renameat_ok [OF assms(2,3) lf _ assms(8)] assms(7) by auto
  have d: "is_dir (fsys w) d" by (rule parse_parent_dir [OF assms(1,3)])
  have pd: "get_parent (fsys w) d \<noteq> None" using s(1) by (auto simp: insert_move_def split: option.splits)
  have m: "m \<notin> set (all_names (fsys w) d)" by (rule lookup_none_not_listed(1) [OF assms(7) pd])
  note M = insert_move_mount [OF T d pd assms(5) m s(1)]
  have names: "map fst (get_entries s d) = map fst (entries s d) @ map fst (filter is_mount (mounts s d))"
    by (simp add: get_entries_def comp_def case_prod_beta)
  have "count (mset (map fst (entries s d))) m = 1"
    using m by (simp add: M(1) all_names_def count_eq_zero_iff flip: mset_map)
  moreover have "count (mset (map fst (filter is_mount (mounts s d)))) m = 1"
  proof -
    define ms where "ms = (if d = p then filter (\<lambda>e. fst e \<noteq> n) (mounts (fsys w) p) else mounts (fsys w) d)"
    have ms: "m \<notin> fst ` set ms" using m by (auto simp: ms_def all_names_def)
    have "mset (filter is_mount (insort_key fst (m, Mount, f) ms)) = add_mset (m, Mount, f) (mset (filter is_mount ms))"
      by (simp add: is_mount_def)
    then have "mset (map fst (filter is_mount (mounts s d))) = add_mset m (mset (map fst (filter is_mount ms)))"
      by (simp only: M(2) ms_def [symmetric] mset_map image_mset_add_mset fst_conv)
    moreover have "count (mset (map fst (filter is_mount ms))) m = 0"
      unfolding count_eq_zero_iff using ms by auto
    ultimately show ?thesis by (simp only: count_add_mset) simp
  qed
  ultimately have "filter (\<lambda>n. n = m) (map fst (get_entries s d)) = [m, m]"
    unfolding names filter_is_replicate by (simp add: numeral_2_eq_2)
  moreover have "filter (\<lambda>n. n = m) (map fst (get_entries s d)) = map fst (filter (\<lambda>e. fst e = m) (get_entries s d))"
    by (simp add: filter_map comp_def)
  moreover have "\<not> distinct (all_names s d)"
    using M by (auto simp: all_names_def set_insort_key)
  then have "\<not> tree (root_dir w) s" using treeD(7) by blast
  ultimately show ?thesis by (simp add: s(2))
qed

theorem renamed_mount_listed_twice_witness:
  "\<exists>w'. syscall_renameat AT_FDCWD ''/m'' AT_FDCWD ''/x'' demo_mounted = Some (w', 0) \<and>
     map fst (filter (\<lambda>e. fst e = ''x'') (get_entries (fsys w') 6)) = [''x'', ''x'']"
proof -
  obtain s where s: "demo_mounted = init_wasmfs\<lparr>fsys := s\<rparr>" "mounts s 6 = [(''m'', Mount, 9)]" "entries s 6 = entries init_fs 6"
    "get_parent s 6 = Some 6" "get_parent s 9 = Some 6" "get_mode s 6 = get_mode init_fs 6" "get_backend s 6 = 1"
    by (rule demo_mounted_eq)
  have adm: "admit_file demo_mounted f = 0" for f
    by (simp add: s(1) admit_file_def admit_backend_def init_wasmfs_eq)
  have p: "parse_parent demo_mounted ''/m'' AT_FDCWD = Inr (6, ''m'')" "parse_parent demo_mounted ''/x'' AT_FDCWD = Inr (6, ''x'')"
    using adm by (simp_all add: parse_absolute is_sep_def s(1) init_wasmfs_eq)
  have l: "lookup (fsys demo_mounted) 6 ''m'' = Some 9" "lookup (fsys demo_mounted) 6 ''x'' = None"
    using s(2-5) by (simp_all add: s(1) lookup_eq init_observed)
  have w: "get_mode s 6 AND WASMFS_PERM_WRITE \<noteq> 0"
    unfolding s(6) by (simp add: init_fs_eq init_nodes_def get_mode_def WASMFS_PERM_WRITE_def)
  obtain s' q where mv: "insert_move 6 ''x'' 9 s = (s', q)" by fastforce
  then have q: "q = 0" using s(4) by (simp add: insert_move_def Let_def)
  have r: "syscall_renameat AT_FDCWD ''/m'' AT_FDCWD ''/x'' demo_mounted = Some (demo_mounted\<lparr>fsys := s'\<rparr>, 0)"
    unfolding syscall_renameat_def p sum.case prod.case l option.case Let_def
    using adm w mv by (simp add: q s(1,7) init_wasmfs_eq WASMFS_NAME_MAX_def rename_climb.simps [of _ 6 6] overwrite_error_def)
  have o: "ordinary ''m''" by simp
  have mem: "(''m'', Mount, 9) \<in> set (mounts (fsys demo_mounted) 6)" "get_parent (fsys demo_mounted) 6 \<noteq> None"
    using s(2,4) by (simp_all add: s(1))
  show ?thesis
    by (rule exI, rule conjI, rule r)
       (rule renamed_mount_listed_twice [OF demo_mounted_inv p o mem l(2) r, THEN conjunct1])
qed

section \<open>The loops that climb end\<close>

lemma climb_induct [consumes 1, case_names climb]:
  assumes "wasmfs_inv w" and "\<And>f. (\<And>p. get_parent (fsys w) f = Some p \<Longrightarrow> f \<noteq> root_dir w \<Longrightarrow> P p) \<Longrightarrow> P f"
  shows "P f"
  using treeD(10) [OF wasmfs_invD(1) [OF assms(1)]]
  by (induction f rule: wf_induct_rule) (auto intro: assms(2) simp: child_rel_def)

lemma at_or_below_ends:
  assumes "wasmfs_inv w"
  shows "\<exists>b. at_or_below (fsys w) f d = Some b"
  using assms
proof (induction f rule: climb_induct)
  case (climb f)
  have "get_parent (fsys w) (root_dir w) = Some (root_dir w)" by (rule treeD(2) [OF wasmfs_invD(1) [OF assms]])
  then show ?case
    using climb by (subst at_or_below.simps) (cases "f = root_dir w"; auto split: option.splits)
qed

lemma getcwd_loop_ends:
  assumes "wasmfs_inv w"
  shows "\<exists>r. getcwd_loop w f result = Some r"
  using assms
proof (induction f arbitrary: result rule: climb_induct)
  case (climb f)
  then show ?case by (subst getcwd_loop.simps) (auto split: option.splits)
qed

definition attached :: "wasmfs \<Rightarrow> fid \<Rightarrow> bool" where
  "attached w d \<longleftrightarrow> (\<forall>x. (x, d) \<in> (child_rel (root_dir w) (fsys w))\<^sup>* \<longrightarrow> get_parent (fsys w) x \<noteq> None)"

text \<open>
  Claim C28. The calls that climb the tree return: \<open>getcwd\<close> and \<open>wasmfs_unmount\<close> always, \<open>renameat\<close> whenever no
  directory from the new parent upwards has been unlinked (it follows no null pointer then).
\<close>

theorem climbing_calls_return:
  assumes "wasmfs_inv w" and "\<And>d m. parse_parent w newpath newdirfd = Inr (d, m) \<Longrightarrow> attached w d"
  shows "(\<exists>r. syscall_getcwd buf sz w = Some r) \<and> (\<exists>r. wasmfs_unmount path w = Some r) \<and>
    (\<exists>r. syscall_renameat olddirfd oldpath newdirfd newpath w = Some r)"
proof (intro conjI)
  obtain r where "getcwd_loop w (cwd w) [] = Some r" using getcwd_loop_ends [OF assms(1)] by blast
  then show "\<exists>r. syscall_getcwd buf sz w = Some r"
    by (cases r) (auto simp: syscall_getcwd_def Let_def)
  have "\<exists>b. at_or_below (fsys w) (cwd w) f = Some b" for f by (rule at_or_below_ends [OF assms(1)])
  then show "\<exists>r. wasmfs_unmount path w = Some r"
    by (auto simp: wasmfs_unmount_def Let_def split: sum.splits option.splits prod.splits bool.splits)
       (metis option.distinct(1))+
  show "\<exists>r. syscall_renameat olddirfd oldpath newdirfd newpath w = Some r"
  proof (rule ccontr)
    assume none: "\<not> ?thesis"
    have climb: "rename_climb (fsys w) (root_dir w) d f \<notin> {None, Some Null_parent}"
      if "parse_parent w newpath newdirfd = Inr (d, m)" for d m f
      using rename_climb_result [OF treeD(10) [OF wasmfs_invD(1) [OF assms(1)]], of d f] assms(2) [OF that]
      unfolding attached_def by auto
    show False
    proof (cases "\<exists>p n d m. parse_parent w oldpath olddirfd = Inr (p, n) \<and> parse_parent w newpath newdirfd = Inr (d, m)")
      case False
      then show False using none by (auto simp: syscall_renameat_def split: sum.splits)
    next
      case True
      then obtain p n d m where H: "parse_parent w oldpath olddirfd = Inr (p, n)" "parse_parent w newpath newdirfd = Inr (d, m)"
        by blast
      define e1 where "e1 = (case lookup (fsys w) p n of None \<Rightarrow> 0 | Some f \<Rightarrow> admit_file w f)"
      define e2 where "e2 = (case lookup (fsys w) d m of None \<Rightarrow> 0 | Some f \<Rightarrow> admit_file w f)"
      have some: "\<exists>c. rename_climb (fsys w) (root_dir w) d f = Some c \<and> c \<noteq> Null_parent" for f
        using climb [OF H(2), of f] by (cases "rename_climb (fsys w) (root_dir w) d f") auto
      then obtain g where g: "rename_climb (fsys w) (root_dir w) d f = Some (g f)" "g f \<noteq> Null_parent" for f by metis
      show False
        using none g(2) unfolding syscall_renameat_def H sum.case prod.case Let_def e1_def [symmetric] e2_def [symmetric] g(1)
        by (auto split: if_splits option.splits climb.splits prod.splits)
    qed
  qed
qed

lemma init_attached: "attached init_wasmfs 6"
proof -
  have "x = 6" if "(x, 6) \<in> (child_rel 6 init_fs)\<^sup>*" for x
    using that by (cases rule: rtranclE) (auto simp: child_rel_def)
  then show ?thesis by (auto simp: attached_def init_wasmfs_eq init_observed)
qed

theorem climbing_calls_return_witness:
  "\<exists>r. syscall_renameat AT_FDCWD ''/tmp'' AT_FDCWD ''/t'' init_wasmfs = Some r"
proof -
  have "parse_parent init_wasmfs ''/t'' AT_FDCWD = Inr (6, ''t'')"
    by (simp add: parse_absolute is_sep_def init_plain init_wasmfs_eq)
  then have "parse_parent init_wasmfs ''/t'' AT_FDCWD = Inr (d, m) \<Longrightarrow> attached init_wasmfs d" for d m
    using init_attached by simp
  then show ?thesis using climbing_calls_return [OF wasmfs_inv_init] by blast
qed

text \<open>
  Claim C29. Renaming into the current directory after it has been removed follows the null parent pointer: the loop
  that looks for the source among the ancestors does not stop at an unlinked directory.
\<close>

theorem rename_into_unlinked:
  assumes "wasmfs_inv w" and "parse_parent w oldpath olddirfd = Inr (p, n)" and "ordinary n" and "lookup (fsys w) p n = Some f"
    and "get_parent (fsys w) (cwd w) = None" and "\<forall>f. admit_file w f = 0"
    and "m \<noteq> []" and "\<not> list_ex is_sep m" and "length m \<le> WASMFS_NAME_MAX"
    and "get_mode (fsys w) p AND WASMFS_PERM_WRITE \<noteq> 0" and "get_mode (fsys w) (cwd w) AND WASMFS_PERM_WRITE \<noteq> 0"
    and "get_backend (fsys w) p = get_backend (fsys w) (cwd w)"
  shows "syscall_renameat olddirfd oldpath AT_FDCWD m w = None"
proof -
  note T = wasmfs_invD(1) [OF assms(1)]
  have new: "parse_parent w m AT_FDCWD = Inr (cwd w, m)" by (rule parse_relative [OF assms(7,8)]) (simp add: assms(6))
  have none: "lookup (fsys w) (cwd w) m = None" using assms(5) by (simp add: lookup_eq)
  have f: "get_parent (fsys w) f = Some p" "f \<noteq> root_dir w"
    using assms(4) listed_parent [OF T, of p n f] by (simp_all add: lookup_listed [OF T assms(3)])
  have ne: "cwd w \<noteq> root_dir w" "cwd w \<noteq> f" using assms(5) treeD(2) [OF T] f(1) by auto
  have "rename_climb (fsys w) (root_dir w) (cwd w) f = Some Null_parent"
    using ne assms(5) by (subst rename_climb.simps) simp
  then show ?thesis
    unfolding syscall_renameat_def assms(2) new sum.case prod.case assms(4) none option.case Let_def
    using assms(6,9-12) f(2) by simp
qed


lemma init_modes: "get_mode init_fs 6 AND WASMFS_PERM_WRITE \<noteq> 0" "get_mode init_fs 8 AND WASMFS_PERM_WRITE \<noteq> 0"
  by (simp_all add: init_fs_eq init_nodes_def get_mode_def WASMFS_PERM_WRITE_def S_IFDIR_def)

theorem rename_into_unlinked_witness:
  "syscall_renameat AT_FDCWD ''/dev'' AT_FDCWD ''y''
     (init_wasmfs\<lparr>cwd := 8, fsys := fst (remove_child 6 ''tmp'' init_fs)\<rparr>) = None"
proof -
  define s where "s = update_mtime 6 (memory_remove_child 6 ''tmp'' init_fs)"
  have s: "remove_child 6 ''tmp'' init_fs = (s, 0)"
    by (simp add: remove_child_def dcache_find_def init_observed s_def)
  note R = remove_child_readings [OF tree_init _ s, simplified init_observed, simplified]
  note M = memory_remove_child_readings [of init_fs 6 "''tmp''", simplified init_observed, simplified]
  have m: "get_mode s x = get_mode init_fs x" "get_backend s x = get_backend init_fs x" "link_target s x = None" for x
    by (simp_all add: s_def readings M init_observed)
  let ?w = "init_wasmfs\<lparr>cwd := 8, fsys := s\<rparr>"
  have "wasmfs_inv (init_wasmfs\<lparr>cwd := 8\<rparr>)" by (rule inv_chdir_tmp)
  from inv_remove [OF this, of 6 "''tmp''"] s have inv: "wasmfs_inv ?w" by (simp add: init_wasmfs_eq init_observed)
  have "parse_parent ?w ''/dev'' AT_FDCWD = Inr (6, ''dev'')"
    by (simp add: parse_absolute is_sep_def init_wasmfs_eq admit_file_def admit_backend_def m)
  from rename_into_unlinked [OF inv this, of 7 "''y''"] show ?thesis
    by (simp add: s lookup_eq R m init_wasmfs_eq init_observed init_modes is_sep_def WASMFS_NAME_MAX_def admit_file_def
        admit_backend_def dcache_find_def)
qed

end
