(* ===== verification/Wasmfs_Lease.thy ===== *)
theory Wasmfs_Lease
  imports Prelude
begin

text \<open>
  The profile lease of an OPFS backend: class \<open>ProfileLeaseState\<close> of \<open>wasmfs/backends/opfs_backend.cpp\<close> and the
  hooks of \<open>OPFSBackend\<close> that drain and retire it. A mutex makes each function one step, apart from the two
  that wait on a condition variable, whose sleep and wake-up are steps of their own. The dedicated worker and the browser behind it are parameters.
\<close>

section \<open>The state of a lease\<close>

datatype lease_phase = Unleased | Active | Sealing | Released | Retiring | Retired | Failed

text \<open>
  \<open>drain_state t\<close> says that the thread-local \<open>drainState\<close> of \<open>t\<close> is this state, \<open>external t\<close> is the number of its occurrences in
  the thread-local \<open>externalStates\<close>. \<open>operation_asleep\<close> and \<open>destructor_asleep\<close> say that a drain sleeps on \<open>operationCV\<close> and on
  \<open>destructorProxyCV\<close>; \<open>notify_all\<close> clears them.
\<close>

record lease =
  phase :: lease_phase
  active_operations :: nat
  destructor_operations :: nat
  destructor_closed :: bool
  drain_state :: "u32 \<Rightarrow> bool"
  external :: "u32 \<Rightarrow> nat"
  operation_asleep :: bool
  destructor_asleep :: bool

definition new_lease :: lease where
  "new_lease = \<lparr>phase = Unleased, active_operations = 0, destructor_operations = 0, destructor_closed = False,
     drain_state = (\<lambda>_. False), external = (\<lambda>_. 0), operation_asleep = False, destructor_asleep = False\<rparr>"

definition acquired_lease :: "lease \<Rightarrow> lease" where
  "acquired_lease s = s\<lparr>phase := Active\<rparr>"

definition acquire_external_operation :: "u32 \<Rightarrow> lease \<Rightarrow> int \<times> lease" where
  "acquire_external_operation t s =
     (if phase s = Unleased then (0, s)
      else if phase s \<noteq> Active then (- ESHUTDOWN, s)
      else (0, s\<lparr>active_operations := active_operations s + 1, external := (external s)(t := external s t + 1)\<rparr>))"

definition operation_notify_all :: "lease \<Rightarrow> lease" where
  "operation_notify_all s = s\<lparr>operation_asleep := False\<rparr>"

definition release_operation :: "lease \<Rightarrow> lease" where
  "release_operation s =
     (let s1 = s\<lparr>active_operations := active_operations s - 1\<rparr>
      in if active_operations s1 = 0 then operation_notify_all s1 else s1)"

definition release_external_operation :: "u32 \<Rightarrow> lease \<Rightarrow> lease" where
  "release_external_operation t s =
     (if phase s = Unleased then s
      else
        let s1 = s\<lparr>external := (external s)(t := external s t - 1), active_operations := active_operations s - 1\<rparr>
        in if active_operations s1 = 0 then operation_notify_all s1 else s1)"

text \<open>The constructor of \<open>InternalOperation\<close> gives the error and whether the operation is tracked.\<close>

definition internal_operation :: "u32 \<Rightarrow> lease \<Rightarrow> int \<times> bool \<times> lease" where
  "internal_operation t s =
     (if phase s = Unleased then (0, False, s)
      else if phase s = Active then (0, True, s\<lparr>active_operations := active_operations s + 1\<rparr>)
      else if phase s = Sealing \<and> (drain_state s t \<or> external s t \<noteq> 0) then (0, False, s)
      else (- ESHUTDOWN, False, s))"

definition destructor_operation :: "lease \<Rightarrow> bool \<times> lease" where
  "destructor_operation s =
     (if destructor_closed s then (False, s)
      else (True, s\<lparr>destructor_operations := destructor_operations s + 1\<rparr>))"

definition destructor_notify_all :: "lease \<Rightarrow> lease" where
  "destructor_notify_all s = s\<lparr>destructor_asleep := False\<rparr>"

definition release_destructor :: "lease \<Rightarrow> lease" where
  "release_destructor s =
     (let s1 = s\<lparr>destructor_operations := destructor_operations s - 1\<rparr>
      in if destructor_operations s1 = 0 then destructor_notify_all s1 else s1)"

definition is_leased_profile_backend :: "lease \<Rightarrow> bool" where
  "is_leased_profile_backend s \<longleftrightarrow> phase s \<noteq> Unleased"

definition supports_record_locks :: "u32 \<Rightarrow> lease \<Rightarrow> bool" where
  "supports_record_locks t s \<longleftrightarrow> phase s = Active \<or> phase s = Sealing \<and> external s t \<noteq> 0"

definition has_live_lease :: "lease \<Rightarrow> bool" where
  "has_live_lease s \<longleftrightarrow> phase s = Active \<or> phase s = Sealing \<or> phase s = Failed"

definition has_incomplete_scoped_drain :: "lease \<Rightarrow> bool" where
  "has_incomplete_scoped_drain s \<longleftrightarrow> phase s = Failed \<or> phase s = Retiring"

definition needs_terminal_lease_finalizer :: "lease \<Rightarrow> bool" where
  "needs_terminal_lease_finalizer s \<longleftrightarrow>
     phase s = Active \<or> phase s = Sealing \<or> phase s = Failed \<or> phase s = Retiring"

text \<open>
  The two functions that wait, up to the wait and from it on: \<^const>\<open>None\<close> if the predicate of the wait does not hold, and
  then the caller goes to sleep on the condition variable.
\<close>

definition operation_wait :: "lease \<Rightarrow> lease" where
  "operation_wait s = s\<lparr>operation_asleep := True\<rparr>"

definition destructor_wait :: "lease \<Rightarrow> lease" where
  "destructor_wait s = s\<lparr>destructor_asleep := True\<rparr>"

definition close_gate :: "lease \<Rightarrow> lease" where
  "close_gate s = s\<lparr>destructor_closed := True\<rparr>"

definition close_destructor_proxying :: "lease \<Rightarrow> lease option" where
  "close_destructor_proxying s = (let s1 = close_gate s in if destructor_operations s1 = 0 then Some s1 else None)"

definition seal :: "lease \<Rightarrow> int \<times> lease" where
  "seal s =
     (if phase s = Unleased then (- ENOTSUP, s)
      else if phase s = Sealing then (- EBUSY, s)
      else if phase s = Released \<or> phase s = Retiring \<or> phase s = Retired \<or> phase s = Failed then (- ESHUTDOWN, s)
      else (0, s\<lparr>phase := Sealing\<rparr>))"

definition await_operations :: "u32 \<Rightarrow> lease \<Rightarrow> lease option" where
  "await_operations t s =
     (if active_operations s = 0 then Some (s\<lparr>drain_state := (drain_state s)(t := True)\<rparr>) else None)"

definition begin_drain :: "u32 \<Rightarrow> lease \<Rightarrow> (int \<times> lease) option" where
  "begin_drain t s =
     (let (err, s1) = seal s
      in if err \<noteq> 0 then Some (err, s1)
         else case await_operations t s1 of None \<Rightarrow> None | Some s2 \<Rightarrow> Some (0, s2))"

text \<open>\<open>release_error\<close> is what the worker answers, 0 if the call does not reach it.\<close>

definition end_drain :: "u32 \<Rightarrow> lease_phase \<Rightarrow> lease \<Rightarrow> lease" where
  "end_drain t p s = s\<lparr>phase := p, drain_state := (drain_state s)(t := False)\<rparr>"

definition finish_drain :: "u32 \<Rightarrow> bool \<Rightarrow> int \<Rightarrow> lease \<Rightarrow> int \<times> lease" where
  "finish_drain t success release_error s =
     (if phase s \<noteq> Sealing then (- ESHUTDOWN, s\<lparr>drain_state := (drain_state s)(t := False)\<rparr>)
      else if \<not> success then (0, end_drain t Failed s)
      else (release_error, end_drain t (if release_error = 0 then Released else Failed) s))"

text \<open>The answer of the worker: whether the call completed, and then whether the lock was released and an error.\<close>

definition finish_scoped_drain :: "u32 \<Rightarrow> bool \<times> bool \<times> int \<Rightarrow> lease \<Rightarrow> (int \<times> bool) \<times> lease" where
  "finish_scoped_drain t answer s =
     (if phase s \<noteq> Sealing then ((- ESHUTDOWN, False), s\<lparr>drain_state := (drain_state s)(t := False)\<rparr>)
      else
        let (proxied, rel, err) = answer;
            err1 = (if proxied then err else - EIO);
            released = (proxied \<and> rel)
        in ((err1, released), end_drain t (if released then Released else Failed) s))"

definition begin_retirement :: "lease \<Rightarrow> int \<times> lease" where
  "begin_retirement s = (if phase s \<noteq> Released then (- ESHUTDOWN, s) else (0, s\<lparr>phase := Retiring\<rparr>))"

definition finish_retirement :: "bool \<Rightarrow> lease \<Rightarrow> lease" where
  "finish_retirement success s = (if success then s\<lparr>phase := Retired\<rparr> else s)"

section \<open>All threads\<close>

text \<open>
  What a thread holds on its stack: the token of an outer operation, an internal operation, the guard of
  a destructor. They end in the reverse order, as C++ destroys them.
\<close>

datatype guard = Token | Tracked | Untracked | Destructor

datatype drain_pc = Waiting | Draining | Closing | Fenced | Finished

record lease_system =
  shared :: lease
  guards :: "u32 \<Rightarrow> guard list"
  drainer :: "(u32 \<times> drain_pc) option"

fun release_guard :: "guard \<Rightarrow> u32 \<Rightarrow> lease \<Rightarrow> lease" where
  "release_guard Token t s = release_external_operation t s"
| "release_guard Tracked t s = release_operation s"
| "release_guard Untracked t s = s"
| "release_guard Destructor t s = release_destructor s"

definition hold :: "u32 \<Rightarrow> guard \<Rightarrow> lease \<Rightarrow> lease_system \<Rightarrow> lease_system" where
  "hold t g l s = s\<lparr>shared := l, guards := (guards s)(t := g # guards s t)\<rparr>"

definition waits :: "u32 \<Rightarrow> lease_system \<Rightarrow> bool" where
  "waits t s \<longleftrightarrow> drainer s = Some (t, Waiting) \<or> drainer s = Some (t, Closing)"

text \<open>
  A thread drains outside of every operation, and not while another drain is in progress: the callers check
  both. A drain that sleeps goes on only when it has been notified; it then looks at its predicate again. The destructor
  gate closes before the lease is given up, as \<open>prepareOPFSProfileRetirement\<close> does.
\<close>

inductive lease_step :: "lease_system \<Rightarrow> lease_system \<Rightarrow> bool" where
  token: "\<not> waits t s \<Longrightarrow> acquire_external_operation t (shared s) = (0, l) \<Longrightarrow> lease_step s (hold t Token l s)"
| internal: "\<not> waits t s \<Longrightarrow> internal_operation t (shared s) = (0, tracked, l) \<Longrightarrow>
    lease_step s (hold t (if tracked then Tracked else Untracked) l s)"
| destructor: "\<not> waits t s \<Longrightarrow> destructor_operation (shared s) = (True, l) \<Longrightarrow> lease_step s (hold t Destructor l s)"
| guard_ends: "guards s t = g # gs \<Longrightarrow>
    lease_step s (s\<lparr>shared := release_guard g t (shared s), guards := (guards s)(t := gs)\<rparr>)"
| sealed: "drainer s = None \<Longrightarrow> guards s t = [] \<Longrightarrow> seal (shared s) = (0, l) \<Longrightarrow>
    lease_step s (s\<lparr>shared := l, drainer := Some (t, Waiting)\<rparr>)"
| sleeps: "drainer s = Some (t, Waiting) \<Longrightarrow> await_operations t (shared s) = None \<Longrightarrow>
    lease_step s (s\<lparr>shared := operation_wait (shared s)\<rparr>)"
| quiet: "drainer s = Some (t, Waiting) \<Longrightarrow> \<not> operation_asleep (shared s) \<Longrightarrow> await_operations t (shared s) = Some l \<Longrightarrow>
    lease_step s (s\<lparr>shared := l, drainer := Some (t, Draining)\<rparr>)"
| gate_closed: "drainer s = Some (t, Draining) \<Longrightarrow> guards s t = [] \<Longrightarrow>
    lease_step s (s\<lparr>shared := close_gate (shared s), drainer := Some (t, Closing)\<rparr>)"
| gate_sleeps: "drainer s = Some (t, Closing) \<Longrightarrow> close_destructor_proxying (shared s) = None \<Longrightarrow>
    lease_step s (s\<lparr>shared := destructor_wait (shared s)\<rparr>)"
| gate_quiet: "drainer s = Some (t, Closing) \<Longrightarrow> \<not> destructor_asleep (shared s) \<Longrightarrow> close_destructor_proxying (shared s) = Some l \<Longrightarrow>
    lease_step s (s\<lparr>shared := l, drainer := Some (t, Fenced)\<rparr>)"
| gives_up: "drainer s = Some (t, Fenced) \<Longrightarrow> guards s t = [] \<Longrightarrow> finish_drain t False err (shared s) = (r, l) \<Longrightarrow>
    lease_step s (s\<lparr>shared := l, drainer := Some (t, Finished)\<rparr>)"
| releases: "drainer s = Some (t, Fenced) \<Longrightarrow> guards s t = [] \<Longrightarrow> finish_scoped_drain t answer (shared s) = (r, l) \<Longrightarrow>
    lease_step s (s\<lparr>shared := l, drainer := Some (t, Finished)\<rparr>)"
| retires: "drainer s = Some (t, Finished) \<Longrightarrow> begin_retirement (shared s) = (0, l) \<Longrightarrow>
    lease_step s (s\<lparr>shared := finish_retirement success l\<rparr>)"
| drain_ends: "drainer s = Some (t, Finished) \<Longrightarrow> lease_step s (s\<lparr>drainer := None\<rparr>)"

text \<open>The lease is acquired before the backend is published.\<close>

definition init_lease :: lease_system where
  "init_lease = \<lparr>shared = acquired_lease new_lease, guards = (\<lambda>_. []), drainer = None\<rparr>"

section \<open>The invariant\<close>

definition counted :: "guard \<Rightarrow> bool" where
  "counted g \<longleftrightarrow> g = Token \<or> g = Tracked"

text \<open>An untracked operation runs under a token further down the stack, or on the draining thread.\<close>

fun covered :: "bool \<Rightarrow> guard list \<Rightarrow> bool" where
  "covered d [] = True"
| "covered d (g # gs) = ((g = Untracked \<longrightarrow> d \<or> Token \<in> set gs) \<and> covered d gs)"

definition in_drain :: "drain_pc \<Rightarrow> bool" where
  "in_drain pc \<longleftrightarrow> pc \<in> {Draining, Closing, Fenced}"

definition drain_inv :: "lease_system \<Rightarrow> bool" where
  "drain_inv s \<longleftrightarrow>
     (case drainer s of
        None \<Rightarrow> phase (shared s) \<noteq> Sealing \<and> drain_state (shared s) = (\<lambda>_. False)
      | Some (t, pc) \<Rightarrow>
          (if pc = Waiting then phase (shared s) = Sealing \<and> drain_state (shared s) = (\<lambda>_. False) \<and> guards s t = []
           else if in_drain pc
           then phase (shared s) = Sealing \<and> drain_state (shared s) = (\<lambda>_. False)(t := True) \<and> active_operations (shared s) = 0
           else phase (shared s) \<notin> {Active, Sealing} \<and> drain_state (shared s) = (\<lambda>_. False)) \<and>
          (pc = Closing \<longrightarrow> guards s t = [] \<and> destructor_closed (shared s)) \<and>
          (pc \<in> {Fenced, Finished} \<longrightarrow> destructor_closed (shared s) \<and> destructor_operations (shared s) = 0)) \<and>
     phase (shared s) \<noteq> Unleased \<and>
     (phase (shared s) \<notin> {Active, Sealing} \<longrightarrow> active_operations (shared s) = 0)"

definition lease_inv :: "lease_system \<Rightarrow> bool" where
  "lease_inv s \<longleftrightarrow>
     active_operations (shared s) = (\<Sum>t\<in>UNIV. length (filter counted (guards s t))) \<and>
     destructor_operations (shared s) = (\<Sum>t\<in>UNIV. count_list (guards s t) Destructor) \<and>
     (\<forall>t. external (shared s) t = count_list (guards s t) Token) \<and>
     (\<forall>t. covered (drain_state (shared s) t) (guards s t)) \<and> drain_inv s"

lemma sum_upd:
  fixes f :: "'a \<Rightarrow> nat"
  shows "(\<Sum>t\<in>UNIV. f ((g(a := x)) (t :: u32))) + f (g a) = (\<Sum>t\<in>UNIV. f (g t)) + f x"
proof -
  have "(\<Sum>t\<in>UNIV. f ((g(a := x)) t)) = f x + (\<Sum>t\<in>UNIV - {a}. f ((g(a := x)) t))"
    using sum.remove [of UNIV a "\<lambda>t. f ((g(a := x)) t)"] by simp
  moreover have "(\<Sum>t\<in>UNIV - {a}. f ((g(a := x)) t)) = (\<Sum>t\<in>UNIV - {a}. f (g t))"
    by (rule sum.cong) auto
  moreover have "(\<Sum>t\<in>UNIV. f (g t)) = f (g a) + (\<Sum>t\<in>UNIV - {a}. f (g t))"
    using sum.remove [of UNIV a "\<lambda>t. f (g t)"] by simp
  ultimately show ?thesis by simp
qed

lemma covered_mono: "covered d gs \<Longrightarrow> covered True gs"
  by (induction gs) auto

lemma covered_alone:
  assumes "covered False gs" and "filter counted gs = []"
  shows "set gs \<subseteq> {Destructor}"
proof -
  have "g = Destructor" if "g \<in> set gs" for g
    using assms that
  proof (induction gs)
    case (Cons a gs)
    then show ?case by (cases a) (auto simp: counted_def filter_empty_conv split: if_splits)
  qed simp
  then show ?thesis by blast
qed


lemmas lease_defs = acquire_external_operation_def release_external_operation_def internal_operation_def release_operation_def
  destructor_operation_def release_destructor_def close_gate_def close_destructor_proxying_def seal_def await_operations_def
  end_drain_def finish_drain_def finish_scoped_drain_def begin_retirement_def finish_retirement_def
  operation_wait_def destructor_wait_def operation_notify_all_def destructor_notify_all_def Let_def

lemma counted_simps [simp]: "counted Token" "counted Tracked" "\<not> counted Untracked" "\<not> counted Destructor"
  by (simp_all add: counted_def)

text \<open>The three sums when the stack of one thread changes.\<close>

lemma guard_sums:
  fixes gs :: "u32 \<Rightarrow> guard list"
  shows "(\<Sum>u\<in>UNIV. length (filter counted ((gs(t := x)) u))) + length (filter counted (gs t)) =
      (\<Sum>u\<in>UNIV. length (filter counted (gs u))) + length (filter counted x)"
    "(\<Sum>u\<in>UNIV. count_list ((gs(t := x)) u) Destructor) + count_list (gs t) Destructor =
      (\<Sum>u\<in>UNIV. count_list (gs u) Destructor) + count_list x Destructor"
  by (rule sum_upd)+

lemma sum_zero_stack:
  "(\<Sum>u\<in>UNIV. length (filter counted (gs (u :: u32)))) = 0 \<Longrightarrow> filter counted (gs t) = []"
  "(\<Sum>u\<in>UNIV. count_list (gs (u :: u32)) Destructor) = 0 \<Longrightarrow> Destructor \<notin> set (gs t)"
  by (auto simp: filter_empty_conv count_list_0_iff)

lemma lease_invI:
  assumes "lease_inv s"
    and "active_operations l + length (filter counted (guards s t)) = active_operations (shared s) + length (filter counted x)"
    and "destructor_operations l + count_list (guards s t) Destructor = destructor_operations (shared s) + count_list x Destructor"
    and "external l = (external (shared s))(t := count_list x Token)"
    and "drain_state l = drain_state (shared s)" and "covered (drain_state l t) x"
    and "drain_inv (s\<lparr>shared := l, guards := (guards s)(t := x)\<rparr>)"
  shows "lease_inv (s\<lparr>shared := l, guards := (guards s)(t := x)\<rparr>)"
  using assms guard_sums [of "guards s" t x] unfolding lease_inv_def by simp

lemma hold_inv:
  assumes inv: "lease_inv s" and w: "\<not> waits t s"
    and ops: "g = Token \<and> acquire_external_operation t (shared s) = (0, l) \<or>
      g = (if tracked then Tracked else Untracked) \<and> internal_operation t (shared s) = (0, tracked, l) \<or>
      g = Destructor \<and> destructor_operation (shared s) = (True, l)"
  shows "lease_inv (hold t g l s)"
proof -
  have ext: "external (shared s) t = count_list (guards s t) Token" and D: "drain_inv s"
    and cov: "covered (drain_state (shared s) t) (guards s t)" using inv by (simp_all add: lease_inv_def)
  show ?thesis unfolding hold_def
  proof (rule lease_invI [OF inv])
    show "drain_inv (s\<lparr>shared := l, guards := (guards s)(t := g # guards s t)\<rparr>)"
      using D w ops
      by (auto simp: drain_inv_def waits_def in_drain_def lease_defs split: option.splits prod.splits if_splits)
    show "covered (drain_state l t) (g # guards s t)"
      using ops cov ext D by (auto simp: lease_defs drain_inv_def count_list_0_iff split: if_splits)
  qed (use ops ext D in \<open>auto simp: lease_defs drain_inv_def fun_upd_triv split: if_splits\<close>)
qed

lemma guard_ends_inv:
  assumes inv: "lease_inv s" and top: "guards s t = g # gs"
  shows "lease_inv (s\<lparr>shared := release_guard g t (shared s), guards := (guards s)(t := gs)\<rparr>)"
proof -
  have ext: "external (shared s) t = count_list (guards s t) Token" and D: "drain_inv s"
    and cov: "covered (drain_state (shared s) t) (guards s t)" using inv by (simp_all add: lease_inv_def)
  have "length (filter counted (guards s t)) \<le> active_operations (shared s)"
    "count_list (guards s t) Destructor \<le> destructor_operations (shared s)"
    using inv guard_sums [of "guards s" t "[]"] by (simp_all add: lease_inv_def)
  then have pos: "counted g \<Longrightarrow> 0 < active_operations (shared s)" "g = Destructor \<Longrightarrow> 0 < destructor_operations (shared s)"
    using top by auto
  have leased: "phase (shared s) \<noteq> Unleased" using D by (simp add: drain_inv_def)
  show ?thesis
  proof (rule lease_invI [OF inv])
    show "drain_inv (s\<lparr>shared := release_guard g t (shared s), guards := (guards s)(t := gs)\<rparr>)"
      using D top pos leased
      by (cases g) (auto simp: drain_inv_def in_drain_def lease_defs split: option.splits prod.splits if_splits)
  qed (use top ext cov pos leased in \<open>cases g; auto simp: lease_defs fun_upd_triv\<close>)+
qed

lemma lease_inv_drain: "lease_inv s \<Longrightarrow> drain_inv s"
  by (simp add: lease_inv_def)

lemma drain_over:
  assumes inv: "lease_inv s" and d: "drainer s = Some (t, Fenced)" and t: "guards s t = []" and p: "p \<in> {Released, Failed}"
  shows "lease_inv (s\<lparr>shared := end_drain t p (shared s), drainer := Some (t, Finished)\<rparr>)"
proof -
  have D: "drain_state (shared s) = (\<lambda>_. False)(t := True)" "active_operations (shared s) = 0"
    "destructor_closed (shared s)" "destructor_operations (shared s) = 0"
    using lease_inv_drain [OF inv] d by (simp_all add: drain_inv_def in_drain_def)
  then have off: "drain_state (end_drain t p (shared s)) = (\<lambda>_. False)" by (simp add: end_drain_def fun_eq_iff)
  have "covered False (guards s u)" for u
    using inv t D(1) by (cases "u = t") (auto simp: lease_inv_def dest!: spec [of _ u])
  moreover have "drain_inv (s\<lparr>shared := end_drain t p (shared s), drainer := Some (t, Finished)\<rparr>)"
    using off D p by (auto simp: drain_inv_def in_drain_def end_drain_def)
  ultimately show ?thesis using inv off by (simp add: lease_inv_def end_drain_def)
qed

lemma lease_step_inv:
  assumes "lease_step s s'" and inv: "lease_inv s"
  shows "lease_inv s'"
proof -
  have D: "drain_inv s" using inv by (simp add: lease_inv_def)
  have keep: "lease_inv s'" if "guards s' = guards s" "active_operations (shared s') = active_operations (shared s)"
    "destructor_operations (shared s') = destructor_operations (shared s)" "external (shared s') = external (shared s)"
    "\<And>u. covered (drain_state (shared s) u) (guards s u) \<Longrightarrow> covered (drain_state (shared s') u) (guards s u)" "drain_inv s'"
    using inv that unfolding lease_inv_def by simp
  from assms(1) show ?thesis
  proof cases
    case (token t l) then show ?thesis using hold_inv [OF inv token(2)] by blast
  next
    case (internal t tracked l) then show ?thesis using hold_inv [OF inv internal(2)] by blast
  next
    case (destructor t l) then show ?thesis using hold_inv [OF inv destructor(2)] by blast
  next
    case (guard_ends t g gs) then show ?thesis using guard_ends_inv [OF inv] by blast
  next
    case (sealed t l)
    then show ?thesis using D by (intro keep) (auto simp: drain_inv_def in_drain_def lease_defs split: if_splits)
  next
    case (sleeps t)
    then show ?thesis using D by (intro keep) (auto simp: drain_inv_def in_drain_def lease_defs)
  next
    case (gate_sleeps t)
    then show ?thesis using D by (intro keep) (auto simp: drain_inv_def in_drain_def lease_defs)
  next
    case (quiet t l)
    then show ?thesis using D
      by (intro keep) (auto simp: drain_inv_def in_drain_def lease_defs fun_eq_iff covered_mono split: if_splits)
  next
    case (gate_closed t)
    then show ?thesis using D by (intro keep) (auto simp: drain_inv_def in_drain_def lease_defs split: if_splits)
  next
    case (gate_quiet t l)
    then show ?thesis using D by (intro keep) (auto simp: drain_inv_def in_drain_def lease_defs Let_def split: if_splits)
  next
    case (gives_up t err r l)
    then have "phase (shared s) = Sealing" using D by (simp add: drain_inv_def in_drain_def)
    then have "l = end_drain t Failed (shared s)" using gives_up(4) by (simp add: finish_drain_def)
    then show ?thesis using drain_over [OF inv gives_up(2,3)] gives_up(1) by simp
  next
    case (releases t answer r l)
    then have "phase (shared s) = Sealing" using D by (simp add: drain_inv_def in_drain_def)
    then have "l = end_drain t Released (shared s) \<or> l = end_drain t Failed (shared s)"
      using releases(4) by (auto simp: finish_scoped_drain_def Let_def split: prod.splits if_splits)
    then show ?thesis using drain_over [OF inv releases(2,3)] releases(1) by auto
  next
    case (retires t l success)
    then show ?thesis using D by (intro keep) (auto simp: drain_inv_def in_drain_def lease_defs split: if_splits)
  next
    case (drain_ends t)
    then show ?thesis using D by (intro keep) (auto simp: drain_inv_def in_drain_def split: if_splits)
  qed
qed


lemma lease_reachable_inv: "lease_step\<^sup>*\<^sup>* init_lease s \<Longrightarrow> lease_inv s"
proof (induction rule: rtranclp_induct)
  case base
  show ?case by (simp add: lease_inv_def drain_inv_def init_lease_def acquired_lease_def new_lease_def)
next
  case (step s s')
  then show ?case using lease_step_inv by blast
qed

lemma no_guards:
  assumes "lease_inv s" and "active_operations (shared s) = 0" and "\<not> drain_state (shared s) t"
  shows "set (guards s t) \<subseteq> {Destructor}"
proof (rule covered_alone)
  have "(\<Sum>u\<in>UNIV. length (filter counted (guards s u))) = 0" using assms(1,2) by (simp add: lease_inv_def)
  then show "filter counted (guards s t) = []" by (rule sum_zero_stack(1))
  show "covered False (guards s t)" using assms(1,3) unfolding lease_inv_def by metis
qed

section \<open>What a drain may rely on\<close>

text \<open>
  Claim C16. Once a drain has waited for the operations in progress it is alone: no other thread is inside an operation on the
  backend, whatever the threads do. Once it has waited for the destructors too, no other thread is about to use the worker at all.
\<close>

theorem drain_is_alone:
  assumes "lease_step\<^sup>*\<^sup>* init_lease s" and "drainer s = Some (t, pc)" and "pc \<noteq> Waiting" and "t' \<noteq> t"
  shows "set (guards s t') \<subseteq> {Destructor} \<and> (pc \<in> {Fenced, Finished} \<longrightarrow> guards s t' = [])"
proof -
  note inv = lease_reachable_inv [OF assms(1)]
  have D: "active_operations (shared s) = 0" "\<not> drain_state (shared s) t'"
    "pc \<in> {Fenced, Finished} \<Longrightarrow> destructor_operations (shared s) = 0"
    using lease_inv_drain [OF inv] assms(2-4) by (auto simp: drain_inv_def in_drain_def split: if_splits)
  have sub: "set (guards s t') \<subseteq> {Destructor}" by (rule no_guards [OF inv D(1,2)])
  moreover have "Destructor \<notin> set (guards s t')" if "pc \<in> {Fenced, Finished}"
    using D(3) [OF that] inv by (intro sum_zero_stack(2)) (simp add: lease_inv_def)
  ultimately show ?thesis by (cases "guards s t'") auto
qed

text \<open>
  Sealing does not split an operation: as long as a thread holds the token of its outer operation, its
  operations on the backend are admitted and record locks are supported, even while a drain waits.
\<close>

theorem token_keeps_admission:
  assumes "lease_step\<^sup>*\<^sup>* init_lease s" and "Token \<in> set (guards s t)"
  shows "fst (internal_operation t (shared s)) = 0 \<and> supports_record_locks t (shared s)"
proof -
  note inv = lease_reachable_inv [OF assms(1)]
  have "external (shared s) t \<noteq> 0" using inv assms(2) by (simp add: lease_inv_def count_list_0_iff)
  moreover have "filter counted (guards s t) \<noteq> []" using assms(2) by (auto simp: filter_empty_conv intro: bexI [of _ Token])
  then have "active_operations (shared s) \<noteq> 0"
    using inv sum_zero_stack(1) [of "guards s" t] unfolding lease_inv_def by metis
  then have "phase (shared s) \<in> {Active, Sealing}"
    using lease_inv_drain [OF inv] by (auto simp: drain_inv_def)
  ultimately show ?thesis by (auto simp: internal_operation_def supports_record_locks_def)
qed

text \<open>No drain sleeps unless something is still to end that will notify it.\<close>

definition sleep_inv :: "lease_system \<Rightarrow> bool" where
  "sleep_inv s \<longleftrightarrow>
     (operation_asleep (shared s) \<longrightarrow> (\<exists>t. drainer s = Some (t, Waiting)) \<and> active_operations (shared s) \<noteq> 0) \<and>
     (destructor_asleep (shared s) \<longrightarrow> (\<exists>t. drainer s = Some (t, Closing)) \<and> destructor_operations (shared s) \<noteq> 0)"

lemma sleep_inv_step:
  assumes "lease_step s s'" and inv: "sleep_inv s"
  shows "sleep_inv s'"
  using assms(1)
proof cases
  case (guard_ends t g gs)
  then show ?thesis using inv by (cases g) (auto simp: sleep_inv_def lease_defs)
next
  case (releases t answer r l)
  then show ?thesis using inv by (auto simp: sleep_inv_def lease_defs split: prod.splits if_splits)
qed (use inv in \<open>auto simp: sleep_inv_def lease_defs hold_def split: if_splits\<close>)

lemma sleep_inv_reachable: "lease_step\<^sup>*\<^sup>* init_lease s \<Longrightarrow> sleep_inv s"
proof (induction rule: rtranclp_induct)
  case base
  show ?case by (simp add: sleep_inv_def init_lease_def acquired_lease_def new_lease_def)
next
  case (step s s')
  then show ?case using sleep_inv_step by blast
qed

text \<open>Threads end what they have begun, and none begins anything.\<close>

definition finishing :: "lease_system \<Rightarrow> lease_system \<Rightarrow> bool" where
  "finishing s s' \<longleftrightarrow> lease_step s s' \<and> (\<forall>u. \<exists>gs. guards s u = gs @ guards s' u)"

lemma finishingI: "lease_step s s' \<Longrightarrow> guards s' = guards s \<Longrightarrow> finishing s s'"
  by (auto simp: finishing_def)

lemma finishing_guard:
  assumes "guards s t = g # gs"
  shows "finishing s (s\<lparr>shared := release_guard g t (shared s), guards := (guards s)(t := gs)\<rparr>)"
  unfolding finishing_def using guard_ends [OF assms] assms by (auto intro: exI [of _ "[g]"])

lemma guards_finish:
  assumes "lease_inv s" and "sleep_inv s" and "drainer s = Some (t, pc)" and "waits t s"
  shows "\<exists>s'. finishing\<^sup>*\<^sup>* s s' \<and> drainer s' = Some (t, pc) \<and> lease_inv s' \<and> sleep_inv s' \<and> (\<forall>u. guards s' u = [])"
  using assms
proof (induction "\<Sum>u\<in>UNIV. length (guards s (u :: u32))" arbitrary: s rule: less_induct)
  case less
  show ?case
  proof (cases "\<forall>u. guards s u = []")
    case True
    then show ?thesis using less.prems by blast
  next
    case False
    then obtain u g gs where u: "guards s u = g # gs" by (meson neq_Nil_conv)
    let ?s = "s\<lparr>shared := release_guard g u (shared s), guards := (guards s)(u := gs)\<rparr>"
    have step: "lease_step s ?s" by (rule guard_ends [OF u])
    have "(\<Sum>v\<in>UNIV. length (guards ?s v)) < (\<Sum>v\<in>UNIV. length (guards s v))"
      using sum_upd [of length "guards s" u gs] u by simp
    moreover have "lease_inv ?s" "sleep_inv ?s"
      using lease_step_inv [OF step] sleep_inv_step [OF step] less.prems(1,2) by blast+
    moreover have "drainer ?s = Some (t, pc)" "waits t ?s" using less.prems(3,4) by (simp_all add: waits_def)
    ultimately have "\<exists>s'. finishing\<^sup>*\<^sup>* ?s s' \<and> drainer s' = Some (t, pc) \<and> lease_inv s' \<and> sleep_inv s' \<and> (\<forall>u. guards s' u = [])"
      by (rule less.hyps)
    then show ?thesis using finishing_guard [OF u] by (meson converse_rtranclp_into_rtranclp)
  qed
qed

lemma waiting_goes_on:
  assumes "lease_inv s" and "sleep_inv s" and "drainer s = Some (t, pc)" and "waits t s"
  shows "\<exists>s'. finishing\<^sup>*\<^sup>* s s' \<and> drainer s' = Some (t, if pc = Waiting then Draining else Fenced)"
proof -
  obtain s1 where s1: "finishing\<^sup>*\<^sup>* s s1" "drainer s1 = Some (t, pc)" "lease_inv s1" "sleep_inv s1" "\<forall>u. guards s1 u = []"
    using guards_finish [OF assms] by blast
  have zero: "active_operations (shared s1) = 0" "destructor_operations (shared s1) = 0"
    using s1(3,5) by (simp_all add: lease_inv_def)
  then have awake: "\<not> operation_asleep (shared s1)" "\<not> destructor_asleep (shared s1)"
    using s1(4) by (simp_all add: sleep_inv_def)
  have pc: "pc = Waiting \<or> pc = Closing" using assms(3,4) by (auto simp: waits_def)
  have "\<exists>s2. finishing s1 s2 \<and> drainer s2 = Some (t, if pc = Waiting then Draining else Fenced)"
  proof (cases "pc = Waiting")
    case True
    obtain l where l: "await_operations t (shared s1) = Some l" using zero(1) by (simp add: await_operations_def)
    have "lease_step s1 (s1\<lparr>shared := l, drainer := Some (t, Draining)\<rparr>)"
      by (rule quiet [OF s1(2) [unfolded True] awake(1) l])
    then show ?thesis using True
      by (intro exI [of _ "s1\<lparr>shared := l, drainer := Some (t, Draining)\<rparr>"] conjI finishingI) simp_all
  next
    case False
    then have c: "pc = Closing" using pc by blast
    obtain l where l: "close_destructor_proxying (shared s1) = Some l"
      using zero(2) by (simp add: close_destructor_proxying_def close_gate_def Let_def)
    have "lease_step s1 (s1\<lparr>shared := l, drainer := Some (t, Fenced)\<rparr>)"
      by (rule gate_quiet [OF s1(2) [unfolded c] awake(2) l])
    then show ?thesis using c
      by (intro exI [of _ "s1\<lparr>shared := l, drainer := Some (t, Fenced)\<rparr>"] conjI finishingI) simp_all
  qed
  then show ?thesis using s1(1) by (meson rtranclp.rtrancl_into_rtrancl)
qed

text \<open>
  Claim C17. A drain that waits is not starved and its wake-up is not lost: it sleeps only while something is still in progress
  that will notify it when it ends; no step lets what it waits for grow; and from every reachable state, if the threads end what they
  have begun and none begins anything new, the drain goes on, from the wait for operations to draining and from
  the wait for destructors to the point where it gives up the lease.
\<close>

theorem waiting_drain_progresses:
  assumes "lease_step\<^sup>*\<^sup>* init_lease s" and "drainer s = Some (t, pc)" and "pc = Waiting \<or> pc = Closing"
  shows "(\<exists>s'. finishing\<^sup>*\<^sup>* s s' \<and> drainer s' = Some (t, if pc = Waiting then Draining else Fenced)) \<and>
    (operation_asleep (shared s) \<longrightarrow> pc = Waiting \<and> active_operations (shared s) \<noteq> 0) \<and>
    (destructor_asleep (shared s) \<longrightarrow> pc = Closing \<and> destructor_operations (shared s) \<noteq> 0) \<and>
    (\<forall>s'. lease_step s s' \<longrightarrow>
       (if pc = Waiting then active_operations (shared s') \<le> active_operations (shared s)
        else destructor_operations (shared s') \<le> destructor_operations (shared s)))"
proof -
  note inv = lease_reachable_inv [OF assms(1)] and sleep = sleep_inv_reachable [OF assms(1)]
  have "waits t s" using assms(2,3) by (auto simp: waits_def)
  then have on: "\<exists>s'. finishing\<^sup>*\<^sup>* s s' \<and> drainer s' = Some (t, if pc = Waiting then Draining else Fenced)"
    by (rule waiting_goes_on [OF inv sleep assms(2)])
  have D: "phase (shared s) = Sealing" "pc = Closing \<Longrightarrow> destructor_closed (shared s)"
    using lease_inv_drain [OF inv] assms(2,3) by (auto simp: drain_inv_def in_drain_def split: if_splits)
  have "if pc = Waiting then active_operations (shared s') \<le> active_operations (shared s)
        else destructor_operations (shared s') \<le> destructor_operations (shared s)" if "lease_step s s'" for s'
    using that
  proof cases
    case (guard_ends t g gs)
    then show ?thesis by (cases g) (simp_all add: lease_defs)
  next
    case (releases t answer r l)
    then show ?thesis using assms(2,3) by simp
  qed (use D assms(2,3) in \<open>auto simp: lease_defs hold_def split: if_splits\<close>)
  then show ?thesis using on sleep assms(2) by (auto simp: sleep_inv_def)
qed

text \<open>The phases in their order; the last two are final outcomes.\<close>

fun phase_rank :: "lease_phase \<Rightarrow> nat" where
  "phase_rank Unleased = 0"
| "phase_rank Active = 1"
| "phase_rank Sealing = 2"
| "phase_rank Failed = 3"
| "phase_rank Released = 3"
| "phase_rank Retiring = 4"
| "phase_rank Retired = 5"

lemma lease_step_rank:
  assumes "lease_step s s'"
  shows "phase_rank (phase (shared s)) \<le> phase_rank (phase (shared s'))"
  using assms
proof cases
  case (guard_ends t g gs)
  then show ?thesis by (cases g) (simp_all add: lease_defs)
next
  case (sealed t l)
  then show ?thesis by (cases "phase (shared s)") (auto simp: seal_def)
qed (auto simp: lease_defs hold_def Let_def split: if_splits prod.splits)

text \<open>
  Sealing is one-way: once a drain has begun no later operation is ever given a token, nor a thread without
  one record locks, whatever the drain ends in.
\<close>

theorem sealed_forever:
  assumes "lease_step\<^sup>*\<^sup>* init_lease s" and "phase (shared s) \<noteq> Active" and "lease_step\<^sup>*\<^sup>* s s'"
  shows "acquire_external_operation t (shared s') = (- ESHUTDOWN, shared s') \<and>
    (Token \<notin> set (guards s' t) \<longrightarrow> \<not> supports_record_locks t (shared s')) \<and> fst (seal (shared s')) \<noteq> 0"
proof -
  have inv: "lease_inv s" "lease_inv s'" using lease_reachable_inv assms(1,3) by (blast intro: rtranclp_trans)+
  have "phase_rank (phase (shared s)) \<le> phase_rank (phase (shared s'))"
    using assms(3) by (induction rule: rtranclp_induct) (auto dest: lease_step_rank)
  moreover have "phase (shared s) \<noteq> Unleased" using lease_inv_drain [OF inv(1)] by (simp add: drain_inv_def)
  ultimately have "phase (shared s') \<noteq> Active \<and> phase (shared s') \<noteq> Unleased"
    using assms(2) by (cases "phase (shared s)"; cases "phase (shared s')") simp_all
  moreover have "external (shared s') t = count_list (guards s' t) Token" using inv(2) by (simp add: lease_inv_def)
  ultimately show ?thesis
    by (cases "phase (shared s')") (auto simp: acquire_external_operation_def supports_record_locks_def seal_def count_list_0_iff)
qed


section \<open>Examples\<close>

text \<open>Thread 3 holds a token while thread 1 waits to drain; then thread 3 has returned it and thread 1 drains.\<close>

definition demo_tokened :: lease_system where
  "demo_tokened = hold 3 Token (snd (acquire_external_operation 3 (shared init_lease))) init_lease"

definition demo_waiting :: lease_system where
  "demo_waiting = demo_tokened\<lparr>shared := snd (seal (shared demo_tokened)), drainer := Some (1, Waiting)\<rparr>"

definition demo_draining :: lease_system where
  "demo_draining = (init_lease)\<lparr>shared := (shared init_lease)\<lparr>phase := Sealing, drain_state := (\<lambda>_. False)(1 := True)\<rparr>,
     drainer := Some (1, Draining)\<rparr>"

lemma demo_lease_steps:
  "lease_step init_lease demo_tokened" "lease_step demo_tokened demo_waiting"
  "lease_step\<^sup>*\<^sup>* init_lease demo_draining"
proof -
  show "lease_step init_lease demo_tokened"
    unfolding demo_tokened_def
    by (rule token) (simp_all add: waits_def init_lease_def acquired_lease_def new_lease_def acquire_external_operation_def)
  show "lease_step demo_tokened demo_waiting"
    using sealed [of demo_tokened 1 "snd (seal (shared demo_tokened))"]
    by (simp add: demo_waiting_def demo_tokened_def hold_def init_lease_def acquired_lease_def new_lease_def
        acquire_external_operation_def seal_def)
  let ?s = "init_lease\<lparr>shared := (shared init_lease)\<lparr>phase := Sealing\<rparr>, drainer := Some (1, Waiting)\<rparr>"
  have "lease_step init_lease ?s"
    by (rule sealed) (simp_all add: init_lease_def acquired_lease_def new_lease_def seal_def)
  moreover have "lease_step ?s demo_draining"
    using quiet [of ?s 1 "(shared init_lease)\<lparr>phase := Sealing, drain_state := (\<lambda>_. False)(1 := True)\<rparr>"]
    by (simp add: demo_draining_def init_lease_def acquired_lease_def new_lease_def await_operations_def)
  ultimately show "lease_step\<^sup>*\<^sup>* init_lease demo_draining" by (meson rtranclp.simps)
qed

lemma demo_waiting_reachable: "lease_step\<^sup>*\<^sup>* init_lease demo_waiting"
  using demo_lease_steps(1,2) by (meson rtranclp.simps)

theorem drain_is_alone_witness:
  "set (guards demo_draining 3) \<subseteq> {Destructor}"
  using drain_is_alone [OF demo_lease_steps(3), of 1 Draining 3] by (simp add: demo_draining_def)

theorem token_keeps_admission_witness:
  "fst (internal_operation 3 (shared demo_waiting)) = 0 \<and> supports_record_locks 3 (shared demo_waiting)"
  using token_keeps_admission [OF demo_waiting_reachable, of 3] by (simp add: demo_waiting_def demo_tokened_def hold_def)

theorem waiting_drain_progresses_witness:
  "await_operations 1 (shared demo_waiting) = None \<and>
   (\<exists>s'. finishing\<^sup>*\<^sup>* demo_waiting s' \<and> drainer s' = Some (1, Draining))"
proof -
  have "await_operations 1 (shared demo_waiting) = None"
    by (simp add: demo_waiting_def demo_tokened_def hold_def init_lease_def acquired_lease_def new_lease_def
        acquire_external_operation_def seal_def await_operations_def)
  then show ?thesis
    using waiting_drain_progresses [OF demo_waiting_reachable, of 1 Waiting] by (auto simp: demo_waiting_def)
qed

theorem sealed_forever_witness:
  "acquire_external_operation 7 (shared demo_draining) = (- ESHUTDOWN, shared demo_draining)"
proof -
  have "phase (shared demo_draining) \<noteq> Active" by (simp add: demo_draining_def)
  then show ?thesis using sealed_forever [OF demo_lease_steps(3) _ rtranclp.rtrancl_refl, of 7] by blast
qed

end
