(* ===== verification/Wasmfs_Operations.thy ===== *)
theory Wasmfs_Operations
  imports Wasmfs_Lease
begin

text \<open>
  Admission to WasmFS: the constructor, the destructor and \<open>admitBackend\<close> of class \<open>WasmFS::Operation\<close> in
  \<open>wasmfs/wasmfs.cpp\<close>, with the thread-local variables they share, for any number of threads and the drains that close the gate.
\<close>

section \<open>The gate\<close>

datatype terminal_state = Run | Drain | Drained | Drain_failed

datatype op_kind = General | Stdio_flush_write

text \<open>An object of the class, by its flags: not admitted, owner of the active operation, nested in one, and the same for libc's flush.\<close>

datatype operation = Refused int | Owner | Nested | Bypass | Bypass_nested

datatype root_kind = Owning | Bypassing

text \<open>
  \<open>running\<close> is \<open>activeOperations\<close>. Per thread: \<open>depth\<close> is \<open>activeOperationDepth\<close>, which is not 0 exactly if
  \<open>activeOperationWasmFS\<close> is set; \<open>root\<close> describes the object that \<open>activeOperationRoot\<close> points to, \<open>admitted\<close> its list of backends;
  \<open>flushing\<close> is \<^const>\<open>None\<close> if \<open>stdioFlushWasmFS\<close> is null and gives \<open>stdioFlushBackend\<close> otherwise, which is 0 in a terminal drain.
\<close>

record gate =
  gate_state :: terminal_state
  running :: nat
  scoped :: bool
  depth :: "u32 \<Rightarrow> nat"
  root :: "u32 \<Rightarrow> root_kind option"
  admitted :: "u32 \<Rightarrow> nat list"
  flushing :: "u32 \<Rightarrow> nat option"
  leases :: "nat \<Rightarrow> lease"

definition set_root :: "u32 \<Rightarrow> root_kind \<Rightarrow> gate \<Rightarrow> gate" where
  "set_root t k g = g\<lparr>root := (root g)(t := Some k), admitted := (admitted g)(t := [])\<rparr>"

definition enter :: "op_kind \<Rightarrow> u32 \<Rightarrow> gate \<Rightarrow> operation \<times> gate" where
  "enter kind t g =
     (if flushing g t \<noteq> None then
        (if kind \<noteq> Stdio_flush_write then (Refused ESHUTDOWN, g)
         else if root g t \<noteq> None then (Bypass_nested, g)
         else (Bypass, set_root t Bypassing g))
      else if 0 < depth g t then (Nested, g\<lparr>depth := (depth g)(t := depth g t + 1)\<rparr>)
      else if gate_state g \<noteq> Run then (Refused ESHUTDOWN, g)
      else (Owner, set_root t Owning (g\<lparr>running := running g + 1, depth := (depth g)(t := 1)\<rparr>)))"

definition release_backend :: "u32 \<Rightarrow> nat \<Rightarrow> gate \<Rightarrow> gate" where
  "release_backend t b g = g\<lparr>leases := (leases g)(b := release_external_operation t (leases g b))\<rparr>"

definition clear_root :: "u32 \<Rightarrow> gate \<Rightarrow> gate" where
  "clear_root t g =
     (let g1 = fold (release_backend t) (admitted g t) g
      in g1\<lparr>root := (root g1)(t := None), admitted := (admitted g1)(t := [])\<rparr>)"

definition leave :: "operation \<Rightarrow> u32 \<Rightarrow> gate \<Rightarrow> gate" where
  "leave op t g =
     (case op of
        Refused e \<Rightarrow> g
      | Bypass \<Rightarrow> clear_root t g
      | Bypass_nested \<Rightarrow> g
      | _ \<Rightarrow>
          (let g1 = g\<lparr>depth := (depth g)(t := depth g t - 1)\<rparr>
           in if depth g1 t \<noteq> 0 then g1
              else let g2 = clear_root t g1 in g2\<lparr>running := running g2 - 1\<rparr>))"

text \<open>\<open>Operation::admitBackend\<close>; a nested operation asks the root, which shares its flag with \<open>root\<close>.\<close>

definition admit_at_root :: "nat \<Rightarrow> u32 \<Rightarrow> gate \<Rightarrow> int \<times> gate" where
  "admit_at_root b t g =
     (if root g t = Some Bypassing \<and> (flushing g t = Some 0 \<or> flushing g t = Some b) then (0, g)
      else if b \<in> set (admitted g t) then (0, g)
      else
        let (err, l) = acquire_external_operation t (leases g b)
        in if err \<noteq> 0 then (err, g)
           else (0, g\<lparr>leases := (leases g)(b := l), admitted := (admitted g)(t := admitted g t @ [b])\<rparr>))"

definition op_admit_backend :: "operation \<Rightarrow> nat \<Rightarrow> u32 \<Rightarrow> gate \<Rightarrow> int \<times> gate" where
  "op_admit_backend op b t g =
     (if b = 0 then (0, g)
      else case op of
             Refused e \<Rightarrow> (if e \<noteq> 0 then - e else - EDEADLK, g)
           | _ \<Rightarrow> admit_at_root b t g)"

text \<open>\<open>WasmFS::admitBackend\<close>.\<close>

definition fs_admit_backend :: "nat \<Rightarrow> u32 \<Rightarrow> gate \<Rightarrow> int \<times> gate" where
  "fs_admit_backend b t g =
     (if b = 0 then (0, g) else if root g t = None then (- EDEADLK, g) else admit_at_root b t g)"

definition begin_scoped_drain :: "gate \<Rightarrow> int \<times> gate" where
  "begin_scoped_drain g =
     (if gate_state g \<noteq> Run then (if gate_state g = Drain then - EBUSY else - ESHUTDOWN, g)
      else if scoped g then (- EBUSY, g)
      else (0, g\<lparr>scoped := True\<rparr>))"

definition end_scoped_drain :: "gate \<Rightarrow> gate" where
  "end_scoped_drain g = g\<lparr>scoped := False\<rparr>"

text \<open>The first part of \<open>terminalDrain\<close>, up to the wait, on a thread that may block.\<close>

definition close_terminal_gate :: "u32 \<Rightarrow> gate \<Rightarrow> int \<times> gate" where
  "close_terminal_gate t g =
     (if 0 < depth g t then (- EDEADLK, g)
      else if scoped g \<or> gate_state g = Drain then (- EBUSY, g)
      else if gate_state g \<noteq> Run then (- ESHUTDOWN, g)
      else (0, g\<lparr>gate_state := Drain\<rparr>))"

definition set_flushing :: "u32 \<Rightarrow> nat option \<Rightarrow> gate \<Rightarrow> gate" where
  "set_flushing t b g = g\<lparr>flushing := (flushing g)(t := b)\<rparr>"

section \<open>All threads\<close>

datatype gate_pc = Gate_waits | Gate_flushes | Gate_closes

text \<open>\<open>ops\<close> holds the operations on the stack of each thread, \<open>terminal_drainer\<close> and \<open>scoped_drainer\<close> the drains in progress.\<close>

record gate_system =
  the_gate :: gate
  ops :: "u32 \<Rightarrow> operation list"
  terminal_drainer :: "(u32 \<times> gate_pc) option"
  scoped_drainer :: "(u32 \<times> nat option) option"

definition idle :: "u32 \<Rightarrow> gate_system \<Rightarrow> bool" where
  "idle t s \<longleftrightarrow> ops s t = [] \<and> (\<forall>pc. terminal_drainer s \<noteq> Some (t, pc)) \<and> (\<forall>b. scoped_drainer s \<noteq> Some (t, b))"

text \<open>
  A thread that drains enters WasmFS from libc's flush only; the phases of the leases may change at any time, as the
  drain of a profile changes them.
\<close>

inductive gate_step :: "gate_system \<Rightarrow> gate_system \<Rightarrow> bool" where
  enters: "terminal_drainer s \<noteq> Some (t, Gate_waits) \<Longrightarrow> terminal_drainer s \<noteq> Some (t, Gate_closes) \<Longrightarrow>
    scoped_drainer s \<noteq> Some (t, None) \<Longrightarrow> enter kind t (the_gate s) = (op, g) \<Longrightarrow> (\<forall>e. op \<noteq> Refused e) \<Longrightarrow>
    gate_step s (s\<lparr>the_gate := g, ops := (ops s)(t := op # ops s t)\<rparr>)"
| leaves: "ops s t = op # rest \<Longrightarrow> gate_step s (s\<lparr>the_gate := leave op t (the_gate s), ops := (ops s)(t := rest)\<rparr>)"
| admits: "ops s t = op # rest \<Longrightarrow> op_admit_backend op b t (the_gate s) = (err, g) \<Longrightarrow> gate_step s (s\<lparr>the_gate := g\<rparr>)"
| lease_moves: "phase (leases (the_gate s) b) \<noteq> Unleased \<Longrightarrow> p \<noteq> Unleased \<Longrightarrow>
    gate_step s (s\<lparr>the_gate := (the_gate s)\<lparr>leases := (leases (the_gate s))(b := (leases (the_gate s) b)\<lparr>phase := p\<rparr>)\<rparr>\<rparr>)"
| terminal_begins: "idle t s \<Longrightarrow> close_terminal_gate t (the_gate s) = (0, g) \<Longrightarrow>
    gate_step s (s\<lparr>the_gate := g, terminal_drainer := Some (t, Gate_waits)\<rparr>)"
| terminal_flushes: "terminal_drainer s = Some (t, Gate_waits) \<Longrightarrow> running (the_gate s) = 0 \<Longrightarrow>
    gate_step s (s\<lparr>the_gate := set_flushing t (Some 0) (the_gate s), terminal_drainer := Some (t, Gate_flushes)\<rparr>)"
| terminal_closes: "terminal_drainer s = Some (t, Gate_flushes) \<Longrightarrow> ops s t = [] \<Longrightarrow>
    gate_step s (s\<lparr>the_gate := set_flushing t None (the_gate s), terminal_drainer := Some (t, Gate_closes)\<rparr>)"
| terminal_ends: "terminal_drainer s = Some (t, Gate_closes) \<Longrightarrow>
    gate_step s (s\<lparr>the_gate := (the_gate s)\<lparr>gate_state := (if ok then Drained else Drain_failed)\<rparr>, terminal_drainer := None\<rparr>)"
| scoped_begins: "idle t s \<Longrightarrow> begin_scoped_drain (the_gate s) = (0, g) \<Longrightarrow>
    gate_step s (s\<lparr>the_gate := g, scoped_drainer := Some (t, None)\<rparr>)"
| scoped_flushes: "scoped_drainer s = Some (t, None) \<Longrightarrow> b \<noteq> 0 \<Longrightarrow>
    gate_step s (s\<lparr>the_gate := set_flushing t (Some b) (the_gate s), scoped_drainer := Some (t, Some b)\<rparr>)"
| scoped_flushed: "scoped_drainer s = Some (t, Some b) \<Longrightarrow> ops s t = [] \<Longrightarrow>
    gate_step s (s\<lparr>the_gate := set_flushing t None (the_gate s), scoped_drainer := Some (t, None)\<rparr>)"
| scoped_ends: "scoped_drainer s = Some (t, None) \<Longrightarrow>
    gate_step s (s\<lparr>the_gate := end_scoped_drain (the_gate s), scoped_drainer := None\<rparr>)"

definition init_gate :: "(nat \<Rightarrow> lease) \<Rightarrow> gate_system" where
  "init_gate ls = \<lparr>the_gate = \<lparr>gate_state = Run, running = 0, scoped = False, depth = (\<lambda>_. 0), root = (\<lambda>_. None),
       admitted = (\<lambda>_. []), flushing = (\<lambda>_. None), leases = ls\<rparr>,
     ops = (\<lambda>_. []), terminal_drainer = None, scoped_drainer = None\<rparr>"

section \<open>The invariant\<close>

text \<open>The shape of the stack of a thread, and what the thread-local variables say of it.\<close>

definition thread_inv :: "operation list \<Rightarrow> nat \<Rightarrow> root_kind option \<Rightarrow> nat list \<Rightarrow> nat option \<Rightarrow> bool" where
  "thread_inv os d r as fl \<longleftrightarrow> distinct as \<and>
     (os = [] \<and> d = 0 \<and> r = None \<and> as = [] \<or>
      (\<exists>n. os = replicate n Nested @ [Owner] \<and> d = Suc n \<and> r = Some Owning \<and> fl = None) \<or>
      (\<exists>n. os = replicate n Bypass_nested @ [Bypass] \<and> d = 0 \<and> r = Some Bypassing \<and> fl \<noteq> None))"

definition flush_of :: "gate_system \<Rightarrow> u32 \<Rightarrow> nat option" where
  "flush_of s t =
     (if terminal_drainer s = Some (t, Gate_flushes) then Some 0
      else case scoped_drainer s of Some (u, Some b) \<Rightarrow> if u = t then Some b else None | _ \<Rightarrow> None)"

definition terminal_inv :: "gate_system \<Rightarrow> bool" where
  "terminal_inv s \<longleftrightarrow>
     (terminal_drainer s = None \<longrightarrow> gate_state (the_gate s) \<noteq> Drain) \<and>
     (\<forall>t pc. terminal_drainer s = Some (t, pc) \<longrightarrow> gate_state (the_gate s) = Drain \<and>
        (pc \<noteq> Gate_flushes \<longrightarrow> ops s t = []) \<and> (pc \<noteq> Gate_waits \<longrightarrow> running (the_gate s) = 0)) \<and>
     (gate_state (the_gate s) \<in> {Drained, Drain_failed} \<longrightarrow> running (the_gate s) = 0) \<and>
     (scoped (the_gate s) \<longleftrightarrow> scoped_drainer s \<noteq> None) \<and>
     (scoped_drainer s \<noteq> None \<longrightarrow> gate_state (the_gate s) = Run) \<and>
     (\<forall>t. scoped_drainer s = Some (t, None) \<longrightarrow> ops s t = [])"

definition tokens_inv :: "gate \<Rightarrow> bool" where
  "tokens_inv g \<longleftrightarrow> (\<forall>b t. phase (leases g b) \<noteq> Unleased \<longrightarrow> external (leases g b) t = count_list (admitted g t) b)"

definition gate_inv :: "gate_system \<Rightarrow> bool" where
  "gate_inv s \<longleftrightarrow>
     (\<forall>t. thread_inv (ops s t) (depth (the_gate s) t) (root (the_gate s) t) (admitted (the_gate s) t) (flushing (the_gate s) t)) \<and>
     running (the_gate s) = (\<Sum>t\<in>UNIV. if depth (the_gate s) t = 0 then 0 else 1) \<and>
     (\<forall>t. flushing (the_gate s) t = flush_of s t) \<and> terminal_inv s \<and> tokens_inv (the_gate s)"


definition inside :: "nat \<Rightarrow> nat" where
  "inside d = (if d = 0 then 0 else 1)"

lemma sum_inside: "(\<Sum>t\<in>UNIV. if f (t :: u32) = (0 :: nat) then 0 else 1) = (\<Sum>t\<in>UNIV. inside (f t))"
  by (simp add: inside_def)

lemma fold_release_lease:
  "phase (leases (fold (release_backend t) as g) b) = phase (leases g b)"
  "external (leases (fold (release_backend t) as g) b) =
     (if phase (leases g b) = Unleased then external (leases g b)
      else (external (leases g b))(t := external (leases g b) t - count_list as b))"
proof (induction as arbitrary: g)
  case (Cons a as)
  {
    case 1
    show ?case using Cons(1) [of "release_backend t a g"]
      by (simp add: release_backend_def release_external_operation_def operation_notify_all_def Let_def)
  next
    case 2
    show ?case using Cons(2) [of "release_backend t a g"]
      by (auto simp: release_backend_def release_external_operation_def operation_notify_all_def Let_def)
  }
qed (simp_all add: fun_upd_triv)

lemma fold_release_simps [simp]:
  "gate_state (fold (release_backend t) as g) = gate_state g" "running (fold (release_backend t) as g) = running g"
  "scoped (fold (release_backend t) as g) = scoped g" "depth (fold (release_backend t) as g) = depth g"
  "root (fold (release_backend t) as g) = root g" "admitted (fold (release_backend t) as g) = admitted g"
  "flushing (fold (release_backend t) as g) = flushing g"
  by (induction as arbitrary: g) (simp_all add: release_backend_def)

lemma clear_root_simps [simp]:
  "gate_state (clear_root t g) = gate_state g" "running (clear_root t g) = running g"
  "scoped (clear_root t g) = scoped g" "depth (clear_root t g) = depth g"
  "root (clear_root t g) = (root g)(t := None)" "admitted (clear_root t g) = (admitted g)(t := [])"
  "flushing (clear_root t g) = flushing g"
  by (simp_all add: clear_root_def Let_def)

lemma clear_root_tokens: "tokens_inv g \<Longrightarrow> tokens_inv (clear_root t g)"
  by (auto simp: tokens_inv_def clear_root_def Let_def fold_release_lease split: if_splits)

lemma tokens_inv_simps [simp]:
  "tokens_inv (g\<lparr>depth := d\<rparr>) = tokens_inv g" "tokens_inv (g\<lparr>running := n\<rparr>) = tokens_inv g"
  by (simp_all add: tokens_inv_def)

lemma thread_inv_cases:
  assumes "thread_inv os d r as fl"
  obtains "os = []" "d = 0" "r = None" "as = []"
  | n where "os = replicate n Nested @ [Owner]" "d = Suc n" "r = Some Owning" "fl = None"
  | n where "os = replicate n Bypass_nested @ [Bypass]" "d = 0" "r = Some Bypassing" "fl \<noteq> None"
  using assms unfolding thread_inv_def by metis

lemma enter_effect:
  assumes inv: "thread_inv os (depth g t) (root g t) (admitted g t) (flushing g t)"
    and e: "enter kind t g = (op, g')" "\<forall>e. op \<noteq> Refused e"
  shows "thread_inv (op # os) (depth g' t) (root g' t) (admitted g' t) (flushing g' t) \<and>
    (\<forall>u. u \<noteq> t \<longrightarrow> depth g' u = depth g u \<and> root g' u = root g u \<and> admitted g' u = admitted g u) \<and>
    flushing g' = flushing g \<and> leases g' = leases g \<and> gate_state g' = gate_state g \<and> scoped g' = scoped g \<and>
    running g' + inside (depth g t) = running g + inside (depth g' t) \<and>
    (running g' = running g \<or> gate_state g = Run) \<and> (tokens_inv g \<longrightarrow> tokens_inv g')"
  using inv
proof (cases rule: thread_inv_cases)
  case 1
  then show ?thesis
    using e by (auto simp: enter_def set_root_def thread_inv_def inside_def tokens_inv_def split: if_splits intro: exI [of _ 0])
next
  case (2 n)
  then have "op = Nested" "g' = g\<lparr>depth := (depth g)(t := depth g t + 1)\<rparr>" using e by (auto simp: enter_def)
  then show ?thesis using 2 inv by (auto simp: thread_inv_def inside_def tokens_inv_def intro: exI [of _ "Suc n"])
next
  case (3 n)
  then have "op = Bypass_nested" "g' = g" using e by (auto simp: enter_def split: if_splits)
  then show ?thesis using 3 inv by (auto simp: thread_inv_def intro: exI [of _ "Suc n"])
qed

lemma leave_effect:
  assumes inv: "thread_inv (op # os) (depth g t) (root g t) (admitted g t) (flushing g t)"
  shows "thread_inv os (depth (leave op t g) t) (root (leave op t g) t) (admitted (leave op t g) t) (flushing (leave op t g) t) \<and>
    (\<forall>u. u \<noteq> t \<longrightarrow> depth (leave op t g) u = depth g u \<and> root (leave op t g) u = root g u \<and> admitted (leave op t g) u = admitted g u) \<and>
    flushing (leave op t g) = flushing g \<and> gate_state (leave op t g) = gate_state g \<and> scoped (leave op t g) = scoped g \<and>
    (0 < running g \<or> depth g t = 0 \<longrightarrow> running (leave op t g) + inside (depth g t) = running g + inside (depth (leave op t g) t)) \<and>
    running (leave op t g) \<le> running g \<and> (tokens_inv g \<longrightarrow> tokens_inv (leave op t g))"
  using inv
proof (cases rule: thread_inv_cases)
  case (2 n)
  show ?thesis
  proof (cases n)
    case 0
    then show ?thesis using 2
      by (auto simp: leave_def thread_inv_def inside_def Let_def intro!: clear_root_tokens)
  next
    case (Suc k)
    then show ?thesis using 2 inv by (auto simp: leave_def thread_inv_def inside_def Let_def intro: exI [of _ k])
  qed
next
  case (3 n)
  show ?thesis
  proof (cases n)
    case 0
    then show ?thesis using 3 by (auto simp: leave_def thread_inv_def inside_def clear_root_tokens)
  next
    case (Suc k)
    then show ?thesis using 3 inv by (auto simp: leave_def thread_inv_def inside_def intro: exI [of _ k])
  qed
qed simp

lemma admit_effect:
  assumes "op_admit_backend op b t g = (err, g')"
  shows "depth g' = depth g \<and> root g' = root g \<and> flushing g' = flushing g \<and> gate_state g' = gate_state g \<and>
    running g' = running g \<and> scoped g' = scoped g \<and> (\<forall>u. u \<noteq> t \<longrightarrow> admitted g' u = admitted g u) \<and>
    (distinct (admitted g t) \<longrightarrow> distinct (admitted g' t)) \<and>
    (tokens_inv g \<longrightarrow> tokens_inv g')"
  using assms
  by (auto simp: op_admit_backend_def admit_at_root_def acquire_external_operation_def tokens_inv_def
      split: operation.splits if_splits prod.splits)


lemma sum_inside_upd:
  assumes "\<forall>u. u \<noteq> t \<longrightarrow> d' u = d u"
  shows "(\<Sum>u\<in>UNIV. inside (d' (u :: u32))) + inside (d t) = (\<Sum>u\<in>UNIV. inside (d u)) + inside (d' t)"
proof -
  have "d' = d(t := d' t)" using assms by auto
  then show ?thesis using sum_upd [of inside d t "d' t"] by metis
qed

lemma gate_inv_parts:
  assumes "gate_inv s"
  shows "thread_inv (ops s t) (depth (the_gate s) t) (root (the_gate s) t) (admitted (the_gate s) t) (flushing (the_gate s) t)"
    "terminal_inv s" "tokens_inv (the_gate s)" "flushing (the_gate s) t = flush_of s t"
    "running (the_gate s) = (\<Sum>u\<in>UNIV. inside (depth (the_gate s) u))"
  using assms unfolding gate_inv_def sum_inside by blast+

lemma terminal_inv_cong:
  "gate_state g = gate_state (the_gate s) \<Longrightarrow> scoped g = scoped (the_gate s) \<Longrightarrow> running g = running (the_gate s) \<Longrightarrow>
    terminal_inv (s\<lparr>the_gate := g\<rparr>) = terminal_inv s"
  by (simp add: terminal_inv_def)

lemma terminal_inv_own:
  assumes "terminal_inv s" and "gate_state g = gate_state (the_gate s)" and "scoped g = scoped (the_gate s)"
    and "running g \<le> running (the_gate s) \<or> gate_state (the_gate s) = Run"
    and "\<And>pc. terminal_drainer s = Some (t, pc) \<Longrightarrow> pc = Gate_flushes" and "scoped_drainer s \<noteq> Some (t, None)"
  shows "terminal_inv (s\<lparr>the_gate := g, ops := (ops s)(t := x)\<rparr>)"
proof -
  have T: "gate_state g \<noteq> Drain" if "terminal_drainer s = None"
    using assms(1,2) that by (simp add: terminal_inv_def)
  have P: "gate_state g = Drain \<and> (pc \<noteq> Gate_flushes \<longrightarrow> ((ops s)(t := x)) u = []) \<and> (pc \<noteq> Gate_waits \<longrightarrow> running g = 0)"
    if d: "terminal_drainer s = Some (u, pc)" for u pc
  proof -
    have "gate_state (the_gate s) = Drain" "pc \<noteq> Gate_flushes \<longrightarrow> ops s u = []" "pc \<noteq> Gate_waits \<longrightarrow> running (the_gate s) = 0"
      using assms(1) d by (simp_all add: terminal_inv_def)
    then show ?thesis using assms(2,4,5) d by (cases "u = t") auto
  qed
  have S: "((ops s)(t := x)) u = []" if d: "scoped_drainer s = Some (u, None)" for u
    using assms(1,6) d by (auto simp: terminal_inv_def)
  have "gate_state g \<in> {Drained, Drain_failed} \<longrightarrow> running g = 0"
    using assms(1,2,4) by (auto simp: terminal_inv_def)
  moreover have "(scoped g \<longleftrightarrow> scoped_drainer s \<noteq> None) \<and> (scoped_drainer s \<noteq> None \<longrightarrow> gate_state g = Run)"
    using assms(1,2,3) by (simp add: terminal_inv_def)
  ultimately show ?thesis
    unfolding terminal_inv_def using T P S by simp
qed

text \<open>A step of one thread on its own operations.\<close>

lemma gate_invI:
  assumes inv: "gate_inv s"
    and "thread_inv x (depth g t) (root g t) (admitted g t) (flushing g t)"
    and "\<forall>u. u \<noteq> t \<longrightarrow> depth g u = depth (the_gate s) u \<and> root g u = root (the_gate s) u \<and> admitted g u = admitted (the_gate s) u"
    and "flushing g = flushing (the_gate s)"
    and "running g + inside (depth (the_gate s) t) = running (the_gate s) + inside (depth g t)"
    and "terminal_inv (s\<lparr>the_gate := g, ops := (ops s)(t := x)\<rparr>)" and "tokens_inv g"
  shows "gate_inv (s\<lparr>the_gate := g, ops := (ops s)(t := x)\<rparr>)"
proof -
  have "\<forall>u. u \<noteq> t \<longrightarrow> depth g u = depth (the_gate s) u" using assms(3) by blast
  then have "running g = (\<Sum>u\<in>UNIV. inside (depth g u))"
    using sum_inside_upd [of t "depth g" "depth (the_gate s)"] assms(5) gate_inv_parts(5) [OF inv] by simp
  moreover have "thread_inv (((ops s)(t := x)) u) (depth g u) (root g u) (admitted g u) (flushing g u)" for u
    using assms(2,3,4) gate_inv_parts(1) [OF inv, of u] by (cases "u = t") simp_all
  moreover have "flushing g u = flush_of (s\<lparr>the_gate := g, ops := (ops s)(t := x)\<rparr>) u" for u
    using assms(4) gate_inv_parts(4) [OF inv, of u] by (simp add: flush_of_def)
  ultimately show ?thesis using assms(6,7) unfolding gate_inv_def sum_inside by simp
qed

text \<open>A step of a drain.\<close>

lemma drain_invI:
  assumes inv: "gate_inv s" and "ops s' = ops s" "depth (the_gate s') = depth (the_gate s)" "root (the_gate s') = root (the_gate s)"
    "admitted (the_gate s') = admitted (the_gate s)" "running (the_gate s') = running (the_gate s)"
    and "tokens_inv (the_gate s')" "terminal_inv s'" "\<And>u. flushing (the_gate s') u = flush_of s' u"
    and "\<And>u. flushing (the_gate s') u = flushing (the_gate s) u \<or> ops s u = []"
  shows "gate_inv s'"
proof -
  have "thread_inv (ops s' u) (depth (the_gate s') u) (root (the_gate s') u) (admitted (the_gate s') u) (flushing (the_gate s') u)" for u
    using gate_inv_parts(1) [OF inv, of u] assms(2-5) assms(10) [of u] by (auto simp: thread_inv_def)
  then show ?thesis using assms(3,6-9) gate_inv_parts(5) [OF inv] unfolding gate_inv_def sum_inside by simp
qed

lemma running_pos:
  assumes "gate_inv s" and "depth (the_gate s) t \<noteq> 0"
  shows "0 < running (the_gate s)"
proof -
  have "inside (depth (the_gate s) t) \<le> (\<Sum>u\<in>UNIV. inside (depth (the_gate s) u))" by (rule member_le_sum) auto
  then show ?thesis using assms(2) gate_inv_parts(5) [OF assms(1)] by (simp add: inside_def)
qed

lemma gate_step_inv:
  assumes "gate_step s s'" and inv: "gate_inv s"
  shows "gate_inv s'"
  using assms(1)
proof cases
  case (enters t kind op g)
  note E = enter_effect [OF gate_inv_parts(1) [OF inv] enters(5,6)]
  note T = gate_inv_parts(2) [OF inv] and K = gate_inv_parts(3) [OF inv]
  have "terminal_inv (s\<lparr>the_gate := g, ops := (ops s)(t := op # ops s t)\<rparr>)"
    by (rule terminal_inv_own [OF T]) (use E enters(2-4) in \<open>auto intro: gate_pc.exhaust\<close>)
  then show ?thesis unfolding enters(1) by (intro gate_invI [OF inv]) (use E K in blast)+
next
  case (leaves t op rest)
  have L: "thread_inv (op # rest) (depth (the_gate s) t) (root (the_gate s) t) (admitted (the_gate s) t) (flushing (the_gate s) t)"
    using gate_inv_parts(1) [OF inv, of t] leaves(2) by simp
  note E = leave_effect [OF L]
  note T = gate_inv_parts(2) [OF inv] and K = gate_inv_parts(3) [OF inv]
  have "terminal_inv (s\<lparr>the_gate := leave op t (the_gate s), ops := (ops s)(t := rest)\<rparr>)"
    by (rule terminal_inv_own [OF T]) (use E T leaves(2) in \<open>auto simp: terminal_inv_def split: option.splits\<close>)
  moreover have "0 < running (the_gate s) \<or> depth (the_gate s) t = 0" using running_pos [OF inv] by blast
  ultimately show ?thesis unfolding leaves(1) by (intro gate_invI [OF inv]) (use E K in blast)+
next
  case (admits t op rest b err g)
  note E = admit_effect [OF admits(3)]
  have "thread_inv (ops s t) (depth g t) (root g t) (admitted g t) (flushing g t)"
    using gate_inv_parts(1) [OF inv, of t] E admits(2) by (auto simp: thread_inv_def)
  moreover have "terminal_inv (s\<lparr>the_gate := g, ops := (ops s)(t := ops s t)\<rparr>)"
    using gate_inv_parts(2) [OF inv] E by (simp add: terminal_inv_cong)
  ultimately have "gate_inv (s\<lparr>the_gate := g, ops := (ops s)(t := ops s t)\<rparr>)"
    using E gate_inv_parts(3) [OF inv] by (intro gate_invI [OF inv]) auto
  then show ?thesis using admits(1) by simp
next
  case (lease_moves b p)
  then show ?thesis using gate_inv_parts [OF inv]
    by (intro drain_invI [OF inv]) (auto simp: terminal_inv_def tokens_inv_def flush_of_def)
next
  case (terminal_begins t g)
  then show ?thesis using gate_inv_parts [OF inv]
    by (intro drain_invI [OF inv])
      (auto simp: terminal_inv_def tokens_inv_def flush_of_def close_terminal_gate_def idle_def split: if_splits)
next
  case (terminal_flushes t)
  have "scoped_drainer s = None" using gate_inv_parts(2) [OF inv] terminal_flushes(2) by (cases "scoped_drainer s") (auto simp: terminal_inv_def)
  then show ?thesis using terminal_flushes gate_inv_parts [OF inv]
    by (intro drain_invI [OF inv]) (auto simp: terminal_inv_def tokens_inv_def flush_of_def set_flushing_def)
next
  case (terminal_closes t)
  have "scoped_drainer s = None" using gate_inv_parts(2) [OF inv] terminal_closes(2) by (cases "scoped_drainer s") (auto simp: terminal_inv_def)
  then show ?thesis using terminal_closes gate_inv_parts [OF inv]
    by (intro drain_invI [OF inv]) (auto simp: terminal_inv_def tokens_inv_def flush_of_def set_flushing_def)
next
  case (terminal_ends t ok)
  then show ?thesis using gate_inv_parts [OF inv]
    by (intro drain_invI [OF inv]) (auto simp: terminal_inv_def tokens_inv_def flush_of_def)
next
  case (scoped_begins t g)
  then show ?thesis using gate_inv_parts [OF inv]
    by (intro drain_invI [OF inv])
      (auto simp: terminal_inv_def tokens_inv_def flush_of_def begin_scoped_drain_def idle_def split: if_splits option.splits)
next
  case (scoped_flushes t b)
  then show ?thesis using gate_inv_parts [OF inv]
    by (intro drain_invI [OF inv]) (auto simp: terminal_inv_def tokens_inv_def flush_of_def set_flushing_def split: option.splits)
next
  case (scoped_flushed t b)
  then show ?thesis using gate_inv_parts [OF inv]
    by (intro drain_invI [OF inv]) (auto simp: terminal_inv_def tokens_inv_def flush_of_def set_flushing_def split: option.splits)
next
  case (scoped_ends t)
  then show ?thesis using gate_inv_parts [OF inv]
    by (intro drain_invI [OF inv]) (auto simp: terminal_inv_def tokens_inv_def flush_of_def end_scoped_drain_def)
qed


definition fresh_leases :: "(nat \<Rightarrow> lease) \<Rightarrow> bool" where
  "fresh_leases ls \<longleftrightarrow> (\<forall>b. ls b = new_lease \<or> ls b = acquired_lease new_lease)"

lemma gate_reachable_inv:
  assumes "gate_step\<^sup>*\<^sup>* (init_gate ls) s" and "fresh_leases ls"
  shows "gate_inv s"
  using assms(1)
proof (induction rule: rtranclp_induct)
  case base
  have "external (ls b) t = 0" for b t
    using assms(2) by (auto simp: fresh_leases_def new_lease_def acquired_lease_def dest!: spec [of _ b])
  then show ?case
    by (simp add: gate_inv_def init_gate_def thread_inv_def flush_of_def terminal_inv_def tokens_inv_def)
next
  case (step s s')
  then show ?case using gate_step_inv by blast
qed

lemma nobody_inside:
  assumes "gate_inv s" and "running (the_gate s) = 0"
  shows "depth (the_gate s) t = 0" "Owner \<notin> set (ops s t)" "Nested \<notin> set (ops s t)" "flushing (the_gate s) t = None \<Longrightarrow> ops s t = []"
proof -
  show d: "depth (the_gate s) t = 0" using running_pos [OF assms(1)] assms(2) by (metis less_irrefl)
  show "Owner \<notin> set (ops s t)" "Nested \<notin> set (ops s t)" "flushing (the_gate s) t = None \<Longrightarrow> ops s t = []"
    using gate_inv_parts(1) [OF assms(1), of t] d by (auto simp: thread_inv_def)
qed

lemma distinct_count_list: "distinct xs \<Longrightarrow> count_list xs x = (if x \<in> set xs then 1 else 0)"
  by (induction xs) auto

section \<open>What a drain may rely on\<close>

text \<open>
  Claim C18. Once the terminal drain has waited for the operations in progress it is alone in WasmFS for good: no other thread is inside an
  operation or can begin one, and on the draining thread only the descriptor writes of libc's flush are let in.
\<close>

theorem terminal_drain_is_alone:
  assumes "gate_step\<^sup>*\<^sup>* (init_gate ls) s" and "fresh_leases ls"
    and "terminal_drainer s = Some (t, pc) \<and> pc \<noteq> Gate_waits \<or> gate_state (the_gate s) \<in> {Drained, Drain_failed} \<and> t = t'"
  shows "(t' \<noteq> t \<longrightarrow> ops s t' = [] \<and> enter kind t' (the_gate s) = (Refused ESHUTDOWN, the_gate s)) \<and>
    set (ops s t) \<subseteq> {Bypass, Bypass_nested} \<and> enter General t (the_gate s) = (Refused ESHUTDOWN, the_gate s)"
proof -
  note inv = gate_reachable_inv [OF assms(1,2)]
  have z: "running (the_gate s) = 0" and st: "gate_state (the_gate s) \<noteq> Run"
    using gate_inv_parts(2) [OF inv] assms(3) by (auto simp: terminal_inv_def)
  have fl: "flushing (the_gate s) t' = None" if "t' \<noteq> t"
    using that assms(3) gate_inv_parts(2,4) [OF inv] st by (cases "scoped_drainer s") (auto simp: flush_of_def terminal_inv_def)
  have "set (ops s t) \<subseteq> {Bypass, Bypass_nested}"
    using gate_inv_parts(1) [OF inv, of t] nobody_inside(1) [OF inv z, of t] by (auto simp: thread_inv_def)
  then show ?thesis
    using fl nobody_inside [OF inv z] st by (auto simp: enter_def)
qed

text \<open>
  A drain splits no operation: what a thread inside an operation calls is admitted as part of it until it has
  returned, even while a drain waits, and a drain that waits finds WasmFS quiet or another thread inside.
\<close>

theorem operations_are_not_split:
  assumes "gate_step\<^sup>*\<^sup>* (init_gate ls) s" and "fresh_leases ls"
  shows "(Owner \<in> set (ops s t) \<longrightarrow> fst (enter kind t (the_gate s)) = Nested) \<and>
    (terminal_drainer s = Some (t, Gate_waits) \<longrightarrow>
      running (the_gate s) = 0 \<or> (\<exists>t' op rest. t' \<noteq> t \<and> ops s t' = op # rest \<and> Owner \<in> set (op # rest)))"
proof -
  note inv = gate_reachable_inv [OF assms]
  have "fst (enter kind t (the_gate s)) = Nested" if "Owner \<in> set (ops s t)"
    using gate_inv_parts(1) [OF inv, of t] that by (auto simp: thread_inv_def enter_def)
  moreover have "\<exists>t' op rest. t' \<noteq> t \<and> ops s t' = op # rest \<and> Owner \<in> set (op # rest)"
    if w: "terminal_drainer s = Some (t, Gate_waits)" and r: "running (the_gate s) \<noteq> 0"
  proof -
    have "\<exists>t'. depth (the_gate s) t' \<noteq> 0"
    proof (rule ccontr)
      assume "\<nexists>t'. depth (the_gate s) t' \<noteq> 0"
      then have "(\<Sum>u\<in>UNIV. inside (depth (the_gate s) u)) = 0" by (simp add: inside_def)
      then show False using gate_inv_parts(5) [OF inv] r by simp
    qed
    then obtain t' where d: "depth (the_gate s) t' \<noteq> 0" by blast
    then obtain n where o: "ops s t' = replicate n Nested @ [Owner]"
      using gate_inv_parts(1) [OF inv, of t'] by (auto simp: thread_inv_def)
    then have o': "Owner \<in> set (ops s t')" "ops s t' \<noteq> []" by simp_all
    have "ops s t = []" using gate_inv_parts(2) [OF inv] w by (simp add: terminal_inv_def)
    then have "t' \<noteq> t" using o'(2) by auto
    then show ?thesis using o' by (metis list.exhaust)
  qed
  ultimately show ?thesis by blast
qed

text \<open>
  Claim C19. An operation, with everything nested in it, holds at most one token of each leased backend, and none is left
  when it has ended.
\<close>

theorem tokens_returned:
  assumes "gate_step\<^sup>*\<^sup>* (init_gate ls) s" and "fresh_leases ls" and "phase (leases (the_gate s) b) \<noteq> Unleased"
  shows "external (leases (the_gate s) b) t \<le> 1 \<and> (ops s t = [] \<longrightarrow> external (leases (the_gate s) b) t = 0)"
proof -
  note inv = gate_reachable_inv [OF assms(1,2)]
  have "external (leases (the_gate s) b) t = count_list (admitted (the_gate s) t) b"
    using gate_inv_parts(3) [OF inv] assms(3) by (simp add: tokens_inv_def)
  moreover have "distinct (admitted (the_gate s) t)" "ops s t = [] \<longrightarrow> admitted (the_gate s) t = []"
    using gate_inv_parts(1) [OF inv, of t] by (auto simp: thread_inv_def)
  ultimately show ?thesis by (auto simp: distinct_count_list)
qed


section \<open>Examples\<close>

definition demo_leases :: "nat \<Rightarrow> lease" where
  "demo_leases b = (if b = 2 then acquired_lease new_lease else new_lease)"

lemma demo_fresh_leases: "fresh_leases demo_leases"
  by (simp add: fresh_leases_def demo_leases_def)

definition demo_flush :: gate_system where
  "demo_flush = (init_gate demo_leases)\<lparr>the_gate := set_flushing 1 (Some 0)
     ((the_gate (init_gate demo_leases))\<lparr>gate_state := Drain\<rparr>), terminal_drainer := Some (1, Gate_flushes)\<rparr>"

lemma demo_flush_reachable: "gate_step\<^sup>*\<^sup>* (init_gate demo_leases) demo_flush"
proof -
  let ?s1 = "(init_gate demo_leases)\<lparr>the_gate := (the_gate (init_gate demo_leases))\<lparr>gate_state := Drain\<rparr>,
    terminal_drainer := Some (1, Gate_waits)\<rparr>"
  have "gate_step (init_gate demo_leases) ?s1"
    by (rule terminal_begins) (simp_all add: idle_def init_gate_def close_terminal_gate_def)
  moreover have "gate_step ?s1 demo_flush"
    using terminal_flushes [of ?s1 1] by (simp add: demo_flush_def init_gate_def)
  ultimately show ?thesis by (meson rtranclp.simps)
qed

theorem terminal_drain_is_alone_witness:
  "enter General 5 (the_gate demo_flush) = (Refused ESHUTDOWN, the_gate demo_flush)"
proof -
  have "terminal_drainer demo_flush = Some (1, Gate_flushes) \<and> Gate_flushes \<noteq> Gate_waits" by (simp add: demo_flush_def)
  then show ?thesis
    using terminal_drain_is_alone [OF demo_flush_reachable demo_fresh_leases disjI1, of 1 Gate_flushes 5]
    by (simp add: enter_def demo_flush_def init_gate_def set_flushing_def)
qed

text \<open>Thread 3 is inside an operation that holds a token of backend 2.\<close>

definition demo_inside :: gate_system where
  "demo_inside = (init_gate demo_leases)\<lparr>the_gate := snd (enter General 3 (the_gate (init_gate demo_leases))), ops := (\<lambda>_. [])(3 := [Owner])\<rparr>"

definition demo_token :: gate_system where
  "demo_token = demo_inside\<lparr>the_gate := snd (op_admit_backend Owner 2 3 (the_gate demo_inside))\<rparr>"

lemma demo_token_reachable: "gate_step\<^sup>*\<^sup>* (init_gate demo_leases) demo_token"
proof -
  have "gate_step (init_gate demo_leases) demo_inside"
    using enters [of "init_gate demo_leases" 3 General Owner "snd (enter General 3 (the_gate (init_gate demo_leases)))"]
    by (simp add: demo_inside_def init_gate_def enter_def)
  moreover have "gate_step demo_inside demo_token"
    using admits [of demo_inside 3 Owner "[]" 2 "fst (op_admit_backend Owner 2 3 (the_gate demo_inside))"
        "snd (op_admit_backend Owner 2 3 (the_gate demo_inside))"]
    by (simp add: demo_token_def demo_inside_def)
  ultimately show ?thesis by (meson rtranclp.simps)
qed

theorem operations_are_not_split_witness:
  "fst (enter General 3 (the_gate demo_token)) = Nested"
  using operations_are_not_split [OF demo_token_reachable demo_fresh_leases, of 3 General]
  by (simp add: demo_token_def demo_inside_def)

theorem tokens_returned_witness:
  "external (leases (the_gate demo_token) 2) 3 \<le> 1 \<and> external (leases (the_gate demo_token) 2) 4 = 0"
proof -
  have "phase (leases (the_gate demo_token) 2) \<noteq> Unleased"
    by (simp add: demo_token_def demo_inside_def init_gate_def enter_def set_root_def op_admit_backend_def admit_at_root_def
        demo_leases_def acquired_lease_def new_lease_def acquire_external_operation_def)
  then show ?thesis
    using tokens_returned [OF demo_token_reachable demo_fresh_leases, of 2 3]
      tokens_returned [OF demo_token_reachable demo_fresh_leases, of 2 4]
    by (simp add: demo_token_def demo_inside_def)
qed

end
