(* ===== verification/Wasmfs_Drain.thy ===== *)
theory Wasmfs_Drain
  imports Wasmfs_Operations Wasmfs_Table
begin

text \<open>
  Draining WasmFS: \<open>terminalDrain\<close> and \<open>drainOPFSProfileBackend\<close> of \<open>wasmfs/wasmfs.cpp\<close> and the hooks of \<open>OPFSBackend\<close> that
  they call. The locale \<open>terminal_backend\<close> is what the terminal drain needs of a backend. What libc's \<open>fflush\<close> does and what
  the worker of the backend answers are parameters.
\<close>

section \<open>The hooks of the backend\<close>

datatype worker_call =
    Fence | Check_resources | Release_and_retire | Heartbeat_stopped | Join_worker | Abandon_worker

text \<open>\<open>close_latch\<close> is the error that \<open>TerminalCloseState\<close> has recorded.\<close>

record opfs_backend =
  b_lease :: lease
  worker_log :: "worker_call list"
  close_latch :: int

record worker_answers =
  fence_answer :: int
  check_answer :: "bool \<times> int"
  transaction_answer :: "bool \<times> bool \<times> int"
  join_answer :: int

definition log_call :: "worker_call \<Rightarrow> opfs_backend \<Rightarrow> opfs_backend" where
  "log_call c b = b\<lparr>worker_log := worker_log b @ [c]\<rparr>"

text \<open>\<^const>\<open>None\<close>: the caller waits for another thread.\<close>

definition prepare_retirement :: "worker_answers \<Rightarrow> bool \<Rightarrow> opfs_backend \<Rightarrow> (int \<times> opfs_backend) option" where
  "prepare_retirement wk check b =
     (case close_destructor_proxying (b_lease b) of
        None \<Rightarrow> None
      | Some l \<Rightarrow>
          let b1 = log_call Fence (b\<lparr>b_lease := l\<rparr>)
          in if fence_answer wk \<noteq> 0 then Some (fence_answer wk, b1)
             else if \<not> check then Some (0, b1)
             else let b2 = log_call Check_resources b1
                  in Some (if fst (check_answer wk) then snd (check_answer wk) else - EIO, b2))"

definition finish_profile_drain :: "worker_answers \<Rightarrow> u32 \<Rightarrow> bool \<Rightarrow> opfs_backend \<Rightarrow> (int \<times> bool) \<times> opfs_backend" where
  "finish_profile_drain wk t success b =
     (if \<not> success
      then let (err, l) = finish_drain t False 0 (b_lease b)
           in ((err, False), log_call Abandon_worker (b\<lparr>b_lease := l\<rparr>))
      else
        let b1 = (if phase (b_lease b) = Sealing then log_call Release_and_retire b else b);
            ((err, released), l) = finish_scoped_drain t (transaction_answer wk) (b_lease b1);
            b2 = b1\<lparr>b_lease := l\<rparr>
        in ((err, released), log_call (if released then Heartbeat_stopped else Abandon_worker) b2))"

definition retire_profile_backend :: "worker_answers \<Rightarrow> bool \<Rightarrow> opfs_backend \<Rightarrow> int \<times> opfs_backend" where
  "retire_profile_backend wk ok b =
     (let (err, l) = begin_retirement (b_lease b)
      in if err \<noteq> 0 then (err, b\<lparr>b_lease := l\<rparr>)
         else
           let err = join_answer wk;
               b1 = log_call Join_worker (b\<lparr>b_lease := l\<rparr>)
           in (err, b1\<lparr>b_lease := finish_retirement (err = 0 \<and> ok) (b_lease b1)\<rparr>))"

definition terminal_drain_finished :: "worker_answers \<Rightarrow> u32 \<Rightarrow> bool \<Rightarrow> opfs_backend \<Rightarrow> (int \<times> opfs_backend) option" where
  "terminal_drain_finished wk t success b =
     (if has_incomplete_scoped_drain (b_lease b) then Some (- ESHUTDOWN, b)
      else if \<not> has_live_lease (b_lease b) then Some (0, b)
      else
        case begin_drain t (b_lease b) of
          None \<Rightarrow> None
        | Some (begin_error, l) \<Rightarrow>
            let b1 = b\<lparr>b_lease := l\<rparr>
            in if begin_error = - ESHUTDOWN
               then Some (if has_incomplete_scoped_drain l then - ESHUTDOWN else 0, b1)
               else if begin_error \<noteq> 0 then Some (begin_error, b1)
               else
                 let first = (if success then close_latch b1 else 0);
                     clean = (success \<and> first = 0)
                 in case prepare_retirement wk clean b1 of
                      None \<Rightarrow> None
                    | Some (err, b2) \<Rightarrow>
                        let first1 = (if err \<noteq> 0 \<and> first = 0 then err else first);
                            clean1 = (clean \<and> err = 0);
                            ((err, released), b3) = finish_profile_drain wk t clean1 b2;
                            first2 = (if err \<noteq> 0 \<and> first1 = 0 then err else first1)
                        in if \<not> released
                           then Some (if first2 \<noteq> 0 then first2 else if clean1 then - EIO else 0, b3)
                           else
                             let (err, b4) = retire_profile_backend wk (first2 = 0) b3
                             in Some (if err \<noteq> 0 \<and> first2 = 0 then err else first2, b4))"

text \<open>A backend of another kind keeps the defaults of class \<open>Backend\<close>.\<close>

datatype backend = Plain | Opfs opfs_backend

definition releases_terminal_lease :: "backend \<Rightarrow> bool" where
  "releases_terminal_lease b = (case b of Plain \<Rightarrow> False | Opfs o' \<Rightarrow> needs_terminal_lease_finalizer (b_lease o'))"

definition finish_backend :: "worker_answers \<Rightarrow> u32 \<Rightarrow> bool \<Rightarrow> backend \<Rightarrow> (int \<times> backend) option" where
  "finish_backend wk t success b =
     (case b of
        Plain \<Rightarrow> Some (0, Plain)
      | Opfs o' \<Rightarrow> map_option (\<lambda>(r, b1). (r, Opfs b1)) (terminal_drain_finished wk t success o'))"

section \<open>The terminal drain\<close>

record terminal_result =
  t_error :: int
  data_file_states :: nat
  libc_flush_failed :: nat
  data_flush_failures :: nat
  data_close_failures :: nat
  backend_terminal_failures :: nat

definition no_terminal_result :: terminal_result where
  "no_terminal_result = \<lparr>t_error = 0, data_file_states = 0, libc_flush_failed = 0, data_flush_failures = 0,
     data_close_failures = 0, backend_terminal_failures = 0\<rparr>"

definition normalize_drain_error :: "int \<Rightarrow> int" where
  "normalize_drain_error err = (if err < 0 then err else if 0 < err then - err else - EIO)"

text \<open>\<open>recordDrainError\<close>: \<open>count\<close> increments the counter it is given.\<close>

definition record_error :: "int \<Rightarrow> (terminal_result \<Rightarrow> terminal_result) \<Rightarrow> terminal_result \<Rightarrow> terminal_result" where
  "record_error err count' r =
     (let r1 = count' r in if t_error r1 = 0 then r1\<lparr>t_error := normalize_drain_error err\<rparr> else r1)"

text \<open>The loop over the files that have been detached: flush, then close in any case.\<close>

definition flush_and_close :: "fid \<Rightarrow> wasmfs \<times> terminal_result \<Rightarrow> wasmfs \<times> terminal_result" where
  "flush_and_close f wr =
     (let (w, r) = wr;
          (w1, err) = data_flush f w;
          r1 = (if err \<noteq> 0 then record_error err (data_flush_failures_update Suc) r else r);
          (w2, err) = data_close f w1;
          r2 = (if err \<noteq> 0 then record_error err (data_close_failures_update Suc) r1 else r1)
      in (w2, r2))"

text \<open>
  One pass over the backends: the ordinary ones, or the owners of a lease. The virtual functions of a backend are arguments:
  \<open>owner\<close> is \<open>releasesTerminalLease\<close>, \<open>finish\<close> is \<open>terminalDrainFinished\<close>.
\<close>

fun finish_backends :: "('b \<Rightarrow> bool) \<Rightarrow> (bool \<Rightarrow> 'b \<Rightarrow> (int \<times> 'b) option) \<Rightarrow> bool \<Rightarrow> 'b list \<Rightarrow> terminal_result \<Rightarrow>
    ('b list \<times> terminal_result) option" where
  "finish_backends owner finish owners [] r = Some ([], r)"
| "finish_backends owner finish owners (b # bs) r =
     (if owner b \<noteq> owners
      then map_option (\<lambda>(bs1, r1). (b # bs1, r1)) (finish_backends owner finish owners bs r)
      else
        case finish (t_error r = 0) b of
          None \<Rightarrow> None
        | Some (err, b1) \<Rightarrow>
            map_option (\<lambda>(bs1, r1). (b1 # bs1, r1))
              (finish_backends owner finish owners bs
                (if err \<noteq> 0 then record_error err (backend_terminal_failures_update Suc) r else r)))"

definition finish_all_backends :: "('b \<Rightarrow> bool) \<Rightarrow> (bool \<Rightarrow> 'b \<Rightarrow> (int \<times> 'b) option) \<Rightarrow> 'b list \<Rightarrow> terminal_result \<Rightarrow>
    ('b list \<times> terminal_result) option" where
  "finish_all_backends owner finish bs r =
     (case finish_backends owner finish False bs r of
        None \<Rightarrow> None
      | Some (bs1, r1) \<Rightarrow> finish_backends owner finish True bs1 r1)"

record drain_system =
  files_of :: wasmfs
  backends :: "backend list"
  terminal :: terminal_state
  scoped_drain :: bool

text \<open>
  \<open>may_block\<close> holds on a thread that is neither the main thread of the runtime nor of the browser, \<open>in_operation\<close> on one that has
  entered WasmFS. The wait for the operations of other threads is over when the function goes on: the
  theory of operations is about it. \<open>libc_flush\<close> is what \<open>fflush(NULL)\<close> does: whether it fails, and with which \<open>errno\<close>.
\<close>

definition after_flush :: "(wasmfs \<Rightarrow> (bool \<times> int) \<times> wasmfs) \<Rightarrow> wasmfs \<Rightarrow> wasmfs \<times> terminal_result" where
  "after_flush libc_flush w =
     (let ((eof, errno'), w1) = libc_flush w
      in (w1, if eof then record_error (if errno' \<noteq> 0 then - errno' else - EIO) (libc_flush_failed_update Suc) no_terminal_result
              else no_terminal_result))"

definition close_all :: "wasmfs \<times> terminal_result \<Rightarrow> wasmfs \<times> terminal_result" where
  "close_all wr =
     (let (w1, r) = wr;
          (w2, closees) = detach_all w1
      in fold flush_and_close closees (w2, r\<lparr>data_file_states := length closees\<rparr>))"

definition terminal_drain ::
    "(wasmfs \<Rightarrow> (bool \<times> int) \<times> wasmfs) \<Rightarrow> worker_answers \<Rightarrow> u32 \<Rightarrow> bool \<Rightarrow> bool \<Rightarrow> drain_system \<Rightarrow>
     (int \<times> terminal_result \<times> drain_system) option" where
  "terminal_drain libc_flush wk t may_block in_operation s =
     (if \<not> may_block then Some (- EAGAIN, no_terminal_result, s)
      else if in_operation then Some (- EDEADLK, no_terminal_result, s)
      else if scoped_drain s \<or> terminal s = Drain then Some (- EBUSY, no_terminal_result, s)
      else if terminal s \<noteq> Run then Some (- ESHUTDOWN, no_terminal_result, s)
      else
        let (w, r) = close_all (after_flush libc_flush (files_of s))
        in case finish_all_backends releases_terminal_lease (finish_backend wk t) (backends s) r of
             None \<Rightarrow> None
           | Some (bs, r1) \<Rightarrow>
               Some (t_error r1, r1,
                 s\<lparr>files_of := w, backends := bs, terminal := (if t_error r1 = 0 then Drained else Drain_failed)\<rparr>))"

section \<open>The drain of one profile\<close>

record profile_result =
  p_error :: int
  detached_descriptors :: nat
  p_data_file_states :: nat
  p_libc_flush_failed :: nat
  p_data_flush_failures :: nat
  p_data_close_failures :: nat
  prior_close_failures :: nat
  lease_release_failures :: nat
  backend_retire_failures :: nat
  backend_sealed :: bool
  lease_released :: bool
  backend_retired :: bool

definition no_profile_result :: profile_result where
  "no_profile_result = \<lparr>p_error = 0, detached_descriptors = 0, p_data_file_states = 0, p_libc_flush_failed = 0,
     p_data_flush_failures = 0, p_data_close_failures = 0, prior_close_failures = 0, lease_release_failures = 0,
     backend_retire_failures = 0, backend_sealed = False, lease_released = False, backend_retired = False\<rparr>"

definition set_profile_error :: "int \<Rightarrow> profile_result \<Rightarrow> profile_result" where
  "set_profile_error err r = (if p_error r = 0 then r\<lparr>p_error := normalize_drain_error err\<rparr> else r)"

text \<open>\<open>recordProfileDrainError\<close>, which its callers reach with an error only.\<close>

definition record_profile_error :: "int \<Rightarrow> (profile_result \<Rightarrow> profile_result) \<Rightarrow> profile_result \<Rightarrow> profile_result" where
  "record_profile_error err count' r = (if err \<noteq> 0 then set_profile_error err (count' r) else r)"

definition p_flush_and_close :: "fid \<Rightarrow> wasmfs \<times> profile_result \<Rightarrow> wasmfs \<times> profile_result" where
  "p_flush_and_close f wr =
     (let (w, r) = wr;
          (w1, err) = data_flush f w;
          r1 = record_profile_error err (p_data_flush_failures_update Suc) r;
          (w2, err) = data_close f w1
      in (w2, record_profile_error err (p_data_close_failures_update Suc) r1))"

text \<open>From the sealing to the last step before the lease is given up.\<close>

definition profile_close_all ::
    "(wasmfs \<Rightarrow> (bool \<times> int) \<times> wasmfs) \<Rightarrow> backend_id \<Rightarrow> int \<Rightarrow> wasmfs \<Rightarrow> wasmfs \<times> profile_result" where
  "profile_close_all libc_flush bid prior w =
     (let r0 = record_profile_error prior (prior_close_failures_update Suc) (no_profile_result\<lparr>backend_sealed := True\<rparr>);
          ((eof, errno'), w1) = libc_flush w;
          r1 = (if eof then record_profile_error (if errno' \<noteq> 0 then - errno' else - EIO) (p_libc_flush_failed_update Suc) r0 else r0);
          (w2, closees, n) = detach_backend bid w1
      in fold p_flush_and_close closees (w2, r1\<lparr>detached_descriptors := n, p_data_file_states := length closees\<rparr>))"

definition profile_retire ::
    "worker_answers \<Rightarrow> u32 \<Rightarrow> profile_result \<Rightarrow> opfs_backend \<Rightarrow> (profile_result \<times> opfs_backend) option" where
  "profile_retire wk t r b =
     (case prepare_retirement wk (p_error r = 0) b of
        None \<Rightarrow> None
      | Some (err, b1) \<Rightarrow>
          let r1 = record_profile_error err (backend_retire_failures_update Suc) r;
              ((finish_error, released), b2) = finish_profile_drain wk t (p_error r1 = 0) b1
          in if \<not> released
             then let err = (if finish_error = 0 \<and> p_error r1 = 0 then - EIO else finish_error)
                  in Some (record_profile_error err (lease_release_failures_update Suc) r1, b2)
             else
               let r2 = record_profile_error finish_error (backend_retire_failures_update Suc) (r1\<lparr>lease_released := True\<rparr>);
                   (err, b3) = retire_profile_backend wk (finish_error = 0) b2
               in Some (if err \<noteq> 0 then record_profile_error err (backend_retire_failures_update Suc) r2
                        else if finish_error = 0 then r2\<lparr>backend_retired := True\<rparr> else r2, b3))"

text \<open>
  \<open>i\<close> is the number of the backend in the table, \<open>bid\<close> its number as a backend of files. First what the drain refuses, in
  the order of the checks.
\<close>

definition leased_backend :: "nat \<Rightarrow> drain_system \<Rightarrow> opfs_backend option" where
  "leased_backend i s =
     (if length (backends s) \<le> i then None
      else case backends s ! i of
             Plain \<Rightarrow> None
           | Opfs b \<Rightarrow> if is_leased_profile_backend (b_lease b) then Some b else None)"

definition profile_refusal :: "bool \<Rightarrow> bool \<Rightarrow> nat \<Rightarrow> backend_id \<Rightarrow> drain_system \<Rightarrow> int option" where
  "profile_refusal may_block in_operation i bid s =
     (if bid = NullBackend then Some (- EINVAL)
      else if leased_backend i s = None then Some (- ENOTSUP)
      else if \<not> may_block then Some (- EAGAIN)
      else if in_operation then Some (- EDEADLK)
      else if terminal s \<noteq> Run then Some (if terminal s = Drain then - EBUSY else - ESHUTDOWN)
      else if scoped_drain s then Some (- EBUSY)
      else None)"

definition drain_profile ::
    "(wasmfs \<Rightarrow> (bool \<times> int) \<times> wasmfs) \<Rightarrow> worker_answers \<Rightarrow> u32 \<Rightarrow> bool \<Rightarrow> bool \<Rightarrow> nat \<Rightarrow> backend_id \<Rightarrow> drain_system \<Rightarrow>
     (int \<times> profile_result \<times> drain_system) option" where
  "drain_profile libc_flush wk t may_block in_operation i bid s =
     (let refuse = (\<lambda>err. Some (normalize_drain_error err, set_profile_error err no_profile_result, s))
      in case profile_refusal may_block in_operation i bid s of
           Some err \<Rightarrow> refuse err
         | None \<Rightarrow>
             let b = the (leased_backend i s)
             in case begin_drain t (b_lease b) of
                  None \<Rightarrow> None
                | Some (begin_error, l) \<Rightarrow>
                    if begin_error \<noteq> 0 then refuse begin_error
                    else
                      let (w, r) = profile_close_all libc_flush bid (close_latch b) (files_of s)
                      in case profile_retire wk t r (b\<lparr>b_lease := l\<rparr>) of
                           None \<Rightarrow> None
                         | Some (r1, b1) \<Rightarrow>
                             Some (p_error r1, r1, s\<lparr>files_of := w, backends := (backends s)[i := Opfs b1]\<rparr>))"

section \<open>The hooks of a leased backend\<close>

text \<open>No other thread is inside an operation on the backend or about to drop one of its handles.\<close>

definition quiet_lease :: "lease \<Rightarrow> bool" where
  "quiet_lease l \<longleftrightarrow> active_operations l = 0 \<and> destructor_operations l = 0"

definition lease_gone :: "lease \<Rightarrow> bool" where
  "lease_gone l \<longleftrightarrow> phase l \<in> {Released, Retiring, Retired}"

text \<open>What the worker must answer before it is asked to release.\<close>

definition ready_to_release :: "worker_answers \<Rightarrow> bool" where
  "ready_to_release wk \<longleftrightarrow> fence_answer wk = 0 \<and> check_answer wk = (True, 0)"

lemmas hook_defs = terminal_drain_finished_def prepare_retirement_def finish_profile_drain_def retire_profile_backend_def
  begin_drain_def seal_def await_operations_def close_destructor_proxying_def close_gate_def finish_drain_def
  finish_scoped_drain_def end_drain_def begin_retirement_def finish_retirement_def log_call_def

lemma prepare_quiet:
  assumes "quiet_lease (b_lease b)"
  obtains err b' where "prepare_retirement wk check b = Some (err, b')" "phase (b_lease b') = phase (b_lease b)"
    "quiet_lease (b_lease b')" "err = 0 \<and> check \<Longrightarrow> ready_to_release wk"
  using assms that
  by (cases "check_answer wk"; cases "fst (check_answer wk)"; cases "fence_answer wk = 0"; cases check)
    (auto simp: prepare_retirement_def close_destructor_proxying_def close_gate_def quiet_lease_def
      log_call_def Let_def ready_to_release_def split: if_splits)

lemma finish_failed_phase:
  assumes "phase (b_lease b) = Sealing"
  obtains b' where "finish_profile_drain wk t False b = ((0, False), b')" "phase (b_lease b') = Failed"
  using assms that by (simp add: finish_profile_drain_def finish_drain_def end_drain_def log_call_def)

lemma finish_success_phase:
  assumes "phase (b_lease b) = Sealing" and "finish_profile_drain wk t True b = ((err, released), b')"
  shows "phase (b_lease b') = (if released then Released else Failed)"
  using assms
  by (auto simp: finish_profile_drain_def finish_scoped_drain_def end_drain_def log_call_def Let_def split: prod.splits if_splits)

lemma retire_phase:
  assumes "phase (b_lease b) = Released" and "retire_profile_backend wk ok b = (err, b')"
  shows "phase (b_lease b') = (if err = 0 \<and> ok then Retired else Retiring)"
  using assms
  by (auto simp: retire_profile_backend_def begin_retirement_def finish_retirement_def log_call_def Let_def split: if_splits)

text \<open>A quiet, active lease: the finalizer returns, and it releases the lease only when nothing has failed before.\<close>

lemma finalizer_of_active:
  assumes act: "phase (b_lease b) = Active" and q: "quiet_lease (b_lease b)"
  obtains r b' where "terminal_drain_finished wk t ok b = Some (r, b')"
    "phase (b_lease b') \<in> {Failed, Retiring, Retired}" "ok \<and> r = 0 \<longleftrightarrow> phase (b_lease b') = Retired"
    "lease_gone (b_lease b') \<longrightarrow> ok \<and> close_latch b = 0 \<and> ready_to_release wk"
proof -
  define l where "l = (b_lease b)\<lparr>phase := Sealing, drain_state := (drain_state (b_lease b))(t := True)\<rparr>"
  have bd: "begin_drain t (b_lease b) = Some (0, l)"
    using act q by (simp add: begin_drain_def seal_def await_operations_def quiet_lease_def l_def)
  define b1 where "b1 = b\<lparr>b_lease := l\<rparr>"
  have b1: "phase (b_lease b1) = Sealing" "quiet_lease (b_lease b1)" "close_latch b1 = close_latch b"
    using q by (simp_all add: b1_def l_def quiet_lease_def)
  define first where "first = (if ok then close_latch b1 else 0)"
  define clean where "clean = (ok \<and> first = 0)"
  obtain e2 b2 where p: "prepare_retirement wk clean b1 = Some (e2, b2)" "phase (b_lease b2) = Sealing"
      "e2 = 0 \<and> clean \<Longrightarrow> ready_to_release wk"
    using prepare_quiet [OF b1(2), of wk clean] b1(1) by metis
  define first1 where "first1 = (if e2 \<noteq> 0 \<and> first = 0 then e2 else first)"
  define clean1 where "clean1 = (clean \<and> e2 = 0)"
  obtain e3 rel b3 where f: "finish_profile_drain wk t clean1 b2 = ((e3, rel), b3)" by (metis prod.collapse)
  define first2 where "first2 = (if e3 \<noteq> 0 \<and> first1 = 0 then e3 else first1)"
  have live: "\<not> has_incomplete_scoped_drain (b_lease b)" "has_live_lease (b_lease b)"
    using act by (simp_all add: has_incomplete_scoped_drain_def has_live_lease_def)
  have zero: "(0 :: int) = - ESHUTDOWN \<longleftrightarrow> False" by simp
  have tdf: "terminal_drain_finished wk t ok b =
      (if \<not> rel then Some (if first2 \<noteq> 0 then first2 else if clean1 then - EIO else 0, b3)
       else let (e4, b4) = retire_profile_backend wk (first2 = 0) b3
            in Some (if e4 \<noteq> 0 \<and> first2 = 0 then e4 else first2, b4))"
    by (simp only: terminal_drain_finished_def live bd zero option.case prod.case b1_def [symmetric] Let_def simp_thms if_False if_True
        first_def [symmetric] clean_def [symmetric] p(1) first1_def [symmetric] clean1_def [symmetric] f first2_def [symmetric])
  have phases: "phase (b_lease b3) = (if rel then Released else Failed) \<and> (rel \<longrightarrow> clean1)"
  proof (cases clean1)
    case True
    then show ?thesis using finish_success_phase p(2) f by simp
  next
    case False
    then show ?thesis using finish_failed_phase [OF p(2), of wk t] f by (metis (full_types) Pair_inject)
  qed
  have z: "clean1 \<Longrightarrow> first1 = 0 \<and> ok \<and> close_latch b = 0 \<and> ready_to_release wk"
    using p(3) by (auto simp: clean1_def clean_def first1_def first_def b1(3))
  show thesis
  proof (cases rel)
    case False
    show ?thesis
    proof (rule that)
      show "terminal_drain_finished wk t ok b = Some (if first2 \<noteq> 0 then first2 else if clean1 then - EIO else 0, b3)"
        using tdf False by simp
    qed (use phases False in \<open>auto simp: lease_gone_def clean1_def clean_def first2_def first1_def first_def split: if_splits\<close>)
  next
    case True
    obtain e4 b4 where r: "retire_profile_backend wk (first2 = 0) b3 = (e4, b4)" by fastforce
    have "phase (b_lease b4) = (if e4 = 0 \<and> first2 = 0 then Retired else Retiring)"
      using retire_phase [OF _ r] phases True by simp
    then show ?thesis using tdf True phases z r by (intro that [of "if e4 \<noteq> 0 \<and> first2 = 0 then e4 else first2" b4]) auto
  qed
qed

section \<open>Finishing the backends\<close>

lemma record_error_kept: "t_error r \<noteq> 0 \<Longrightarrow> t_error (record_error err (backend_terminal_failures_update Suc) r) = t_error r"
  by (simp add: record_error_def Let_def)

lemma record_error_set: "t_error (record_error err (backend_terminal_failures_update Suc) r) \<noteq> 0"
  by (simp add: record_error_def normalize_drain_error_def Let_def)

lemma pass_Cons:
  assumes "finish_backends owner finish owners (b # bs) r = Some (bs', r')"
  obtains b1 bs1 r1 where "bs' = b1 # bs1" "finish_backends owner finish owners bs r1 = Some (bs1, r')"
    "owner b \<noteq> owners \<and> b1 = b \<and> r1 = r \<or>
     owner b = owners \<and> (\<exists>err. finish (t_error r = 0) b = Some (err, b1) \<and>
       r1 = (if err \<noteq> 0 then record_error err (backend_terminal_failures_update Suc) r else r))"
  using assms that by (auto split: if_splits option.splits prod.splits)

text \<open>A pass that ends without an error has had none.\<close>

lemma pass_clean:
  assumes "finish_backends owner finish owners bs r = Some (bs', r')" and "t_error r' = 0"
  shows "r' = r \<and> list_all2 (\<lambda>b b'. if owner b = owners then finish True b = Some (0, b') else b' = b) bs bs'"
  using assms
proof (induction bs arbitrary: r bs')
  case (Cons b bs)
  obtain b1 bs1 r1 where p: "bs' = b1 # bs1" "finish_backends owner finish owners bs r1 = Some (bs1, r')"
    "owner b \<noteq> owners \<and> b1 = b \<and> r1 = r \<or>
     owner b = owners \<and> (\<exists>err. finish (t_error r = 0) b = Some (err, b1) \<and>
       r1 = (if err \<noteq> 0 then record_error err (backend_terminal_failures_update Suc) r else r))"
    by (rule pass_Cons [OF Cons.prems(1)])
  have ih: "r' = r1" "list_all2 (\<lambda>b b'. if owner b = owners then finish True b = Some (0, b') else b' = b) bs bs1"
    using Cons.IH [OF p(2) Cons.prems(2)] by auto
  then have "r1 = r \<and> (owner b = owners \<longrightarrow> finish True b = Some (0, b1))"
    using p(3) Cons.prems(2) record_error_set by (auto split: if_splits)
  then show ?case using ih p(1,3) by auto
qed simp

text \<open>
  What the terminal drain needs of its backends: one that is told of a failure keeps its lease, and one that does not
  claim to own a lease neither releases one nor begins to own one.
\<close>

locale terminal_backend =
  fixes owner :: "'b \<Rightarrow> bool" and finish :: "bool \<Rightarrow> 'b \<Rightarrow> (int \<times> 'b) option" and gone :: "'b \<Rightarrow> bool"
  assumes keeps_lease: "finish False b = Some (e, b') \<Longrightarrow> gone b' \<Longrightarrow> gone b"
    and ordinary: "\<not> owner b \<Longrightarrow> finish ok b = Some (e, b') \<Longrightarrow> gone b' = gone b \<and> \<not> owner b'"
begin

lemma failed_pass_keeps:
  assumes "finish_backends owner finish owners bs r = Some (bs', r')" and "t_error r \<noteq> 0"
  shows "list_all2 (\<lambda>b b'. gone b' \<longrightarrow> gone b) bs bs'"
  using assms
proof (induction bs arbitrary: r bs')
  case (Cons b bs)
  obtain b1 bs1 r1 where p: "bs' = b1 # bs1" "finish_backends owner finish owners bs r1 = Some (bs1, r')"
    "owner b \<noteq> owners \<and> b1 = b \<and> r1 = r \<or>
     owner b = owners \<and> (\<exists>err. finish (t_error r = 0) b = Some (err, b1) \<and>
       r1 = (if err \<noteq> 0 then record_error err (backend_terminal_failures_update Suc) r else r))"
    by (rule pass_Cons [OF Cons.prems(1)])
  then have e: "t_error r1 = t_error r" "b1 = b \<or> (\<exists>err. finish False b = Some (err, b1))"
    using Cons.prems(2) by (auto simp: record_error_kept)
  have "gone b1 \<longrightarrow> gone b" using e(2) keeps_lease by blast
  then show ?case using Cons.IH [OF p(2)] p(1) e(1) Cons.prems(2) by simp
qed simp

lemma ordinary_pass:
  assumes "finish_backends owner finish False bs r = Some (bs', r')"
  shows "list_all2 (\<lambda>b b'. gone b' = gone b) bs bs'"
  using assms
proof (induction bs arbitrary: r bs')
  case (Cons b bs)
  obtain b1 bs1 r1 where p: "bs' = b1 # bs1" "finish_backends owner finish False bs r1 = Some (bs1, r')"
    "owner b \<noteq> False \<and> b1 = b \<and> r1 = r \<or>
     owner b = False \<and> (\<exists>err. finish (t_error r = 0) b = Some (err, b1) \<and>
       r1 = (if err \<noteq> 0 then record_error err (backend_terminal_failures_update Suc) r else r))"
    by (rule pass_Cons [OF Cons.prems(1)])
  have "gone b1 = gone b" using p(3) ordinary by blast
  then show ?case using Cons.IH [OF p(2)] p(1) by simp
qed simp

text \<open>A lease that the drain releases is released after everything else has succeeded.\<close>

lemma release_last:
  assumes "finish_all_backends owner finish bs r = Some (bs', r')"
    and "i < length bs" and "gone (bs' ! i)" and "\<not> gone (bs ! i)"
  shows "\<exists>bs1. finish_backends owner finish False bs r = Some (bs1, r) \<and> t_error r = 0"
proof -
  obtain bs1 r1 where p1: "finish_backends owner finish False bs r = Some (bs1, r1)"
    and p2: "finish_backends owner finish True bs1 r1 = Some (bs', r')"
    using assms(1) by (auto simp: finish_all_backends_def split: option.splits prod.splits)
  have o: "length bs1 = length bs" "gone (bs1 ! i) = gone (bs ! i)"
    using ordinary_pass [OF p1] assms(2) by (auto simp: list_all2_conv_all_nth)
  have ok: "t_error r1 = 0"
  proof (rule ccontr)
    assume "t_error r1 \<noteq> 0"
    then have "gone (bs' ! i) \<longrightarrow> gone (bs1 ! i)"
      using failed_pass_keeps [OF p2] assms(2) o(1) by (auto simp: list_all2_conv_all_nth)
    then show False using assms(3,4) o(2) by blast
  qed
  have "r1 = r" using pass_clean [OF p1 ok] by simp
  with ok p1 show ?thesis by blast
qed

end


definition backend_gone :: "backend \<Rightarrow> bool" where
  "backend_gone b = (case b of Plain \<Rightarrow> False | Opfs o' \<Rightarrow> lease_gone (b_lease o'))"

lemma ordinary_finish: "\<not> releases_terminal_lease b \<Longrightarrow> finish_backend wk t ok b = Some (0, b)"
  by (cases b; cases "phase (b_lease (case b of Opfs o' \<Rightarrow> o'))")
    (auto simp: releases_terminal_lease_def needs_terminal_lease_finalizer_def finish_backend_def terminal_drain_finished_def
      has_incomplete_scoped_drain_def has_live_lease_def)

lemma finalizer_told_failure:
  assumes "terminal_drain_finished wk t False b = Some (e, b')" and "lease_gone (b_lease b')"
  shows "lease_gone (b_lease b)"
proof (cases "phase (b_lease b) = Active")
  case True
  obtain l where l: "begin_drain t (b_lease b) = Some (0, l)" "phase l = Sealing"
    using assms(1) True
    by (auto simp: terminal_drain_finished_def has_incomplete_scoped_drain_def has_live_lease_def begin_drain_def seal_def
        await_operations_def split: if_splits)
  obtain err b2 where p: "prepare_retirement wk False (b\<lparr>b_lease := l\<rparr>) = Some (err, b2)" "phase (b_lease b2) = Sealing"
    using assms(1) True l
    by (auto simp: terminal_drain_finished_def has_incomplete_scoped_drain_def has_live_lease_def prepare_retirement_def
        close_destructor_proxying_def close_gate_def log_call_def Let_def split: option.splits if_splits)
  obtain b3 where f: "finish_profile_drain wk t False b2 = ((0, False), b3)" "phase (b_lease b3) = Failed"
    using finish_failed_phase [OF p(2)] by blast
  have "b' = b3"
    using assms(1) True l p f
    by (auto simp: terminal_drain_finished_def has_incomplete_scoped_drain_def has_live_lease_def Let_def)
  then show ?thesis using assms(2) f(2) by (simp add: lease_gone_def)
next
  case False
  then show ?thesis
    using assms
    by (cases "phase (b_lease b)")
      (auto simp: terminal_drain_finished_def has_incomplete_scoped_drain_def has_live_lease_def begin_drain_def seal_def lease_gone_def)
qed

interpretation leases: terminal_backend releases_terminal_lease "finish_backend wk t" backend_gone for wk t
proof
  fix b b' :: backend and e
  assume "finish_backend wk t False b = Some (e, b')" "backend_gone b'"
  then show "backend_gone b"
    using finalizer_told_failure
    by (cases b) (auto simp: finish_backend_def backend_gone_def)
next
  fix b b' :: backend and ok e
  assume "\<not> releases_terminal_lease b" "finish_backend wk t ok b = Some (e, b')"
  then show "backend_gone b' = backend_gone b \<and> \<not> releases_terminal_lease b'" using ordinary_finish by simp
qed

lemma first_pass: "finish_backends releases_terminal_lease (finish_backend wk t) False bs r = Some (bs, r)"
  by (induction bs) (auto simp: ordinary_finish)

text \<open>An owner of a lease: its finalizer returns, and succeeds only if it hands the lease over in full.\<close>

definition settled :: "backend \<Rightarrow> bool" where
  "settled b = (case b of Plain \<Rightarrow> True | Opfs o' \<Rightarrow> phase (b_lease o') = Active \<longrightarrow> quiet_lease (b_lease o'))"

lemma owner_finish:
  assumes "releases_terminal_lease b" and "settled b"
  obtains e b' where "finish_backend wk t ok b = Some (e, b')"
    "ok \<and> e = 0 \<Longrightarrow> \<exists>o'. b' = Opfs o' \<and> phase (b_lease o') = Retired"
    "\<And>o'. b = Opfs o' \<Longrightarrow> has_incomplete_scoped_drain (b_lease o') \<Longrightarrow> e \<noteq> 0"
proof (cases b)
  case Plain
  then show ?thesis using assms(1) by (simp add: releases_terminal_lease_def)
next
  case (Opfs o')
  show ?thesis
  proof (cases "phase (b_lease o') = Active")
    case True
    then have "quiet_lease (b_lease o')" using assms(2) Opfs by (simp add: settled_def)
    from finalizer_of_active [OF True this, of wk t ok] obtain e b' where
      f: "terminal_drain_finished wk t ok o' = Some (e, b')" "ok \<and> e = 0 \<longleftrightarrow> phase (b_lease b') = Retired" by blast
    show ?thesis
      by (rule that [of e "Opfs b'"]) (use f True Opfs in \<open>auto simp: finish_backend_def has_incomplete_scoped_drain_def\<close>)
  next
    case False
    obtain e where e: "e = - EBUSY \<or> e = - ESHUTDOWN" "terminal_drain_finished wk t ok o' = Some (e, o')"
      using False assms(1) Opfs
      by (cases "phase (b_lease o')") (auto simp: releases_terminal_lease_def needs_terminal_lease_finalizer_def
          terminal_drain_finished_def has_incomplete_scoped_drain_def has_live_lease_def begin_drain_def seal_def)
    show ?thesis
      by (rule that [of e "Opfs o'"]) (use e Opfs in \<open>auto simp: finish_backend_def\<close>)
  qed
qed


section \<open>The result counts what failed\<close>

definition clean_result :: "terminal_result \<Rightarrow> bool" where
  "clean_result r \<longleftrightarrow> libc_flush_failed r = 0 \<and> data_flush_failures r = 0 \<and> data_close_failures r = 0 \<and>
     backend_terminal_failures r = 0"

definition result_inv :: "terminal_result \<Rightarrow> bool" where
  "result_inv r \<longleftrightarrow> (t_error r = 0 \<longleftrightarrow> clean_result r) \<and> t_error r \<le> 0"

lemma record_error_inv:
  assumes "result_inv r"
  shows "result_inv (record_error err (data_flush_failures_update Suc) r)"
    "result_inv (record_error err (data_close_failures_update Suc) r)"
    "result_inv (record_error err (backend_terminal_failures_update Suc) r)"
    "result_inv (record_error err (libc_flush_failed_update Suc) r)"
  using assms by (auto simp: result_inv_def clean_result_def record_error_def normalize_drain_error_def Let_def)

lemma flush_and_close_effect:
  assumes "flush_and_close f (w, r) = (w', r')"
  shows "result_inv r \<Longrightarrow> result_inv r'" "opened w' = (opened w)(f := opened w f - 1)" "get_entry w' = get_entry w"
  using assms
  by (auto simp: flush_and_close_def data_flush_def data_close_def on_fs_def get_entry_def fun_eq_iff Let_def intro: record_error_inv
      split: if_splits)

lemma close_fold_effect:
  assumes "fold flush_and_close fs (w, r) = (w', r')"
  shows "(result_inv r \<longrightarrow> result_inv r') \<and> (\<forall>f. opened w' f = opened w f - int (count_list fs f)) \<and> get_entry w' = get_entry w"
  using assms
proof (induction fs arbitrary: w r)
  case (Cons f fs)
  obtain w1 r1 where s: "flush_and_close f (w, r) = (w1, r1)" by fastforce
  show ?case using Cons s flush_and_close_effect [OF s] by auto
qed simp

lemma pass_counters:
  assumes "finish_backends owner finish owners bs r = Some (bs', r')"
  shows "libc_flush_failed r' = libc_flush_failed r \<and> data_flush_failures r' = data_flush_failures r \<and>
    data_close_failures r' = data_close_failures r \<and> data_file_states r' = data_file_states r"
  using assms
proof (induction bs arbitrary: r bs')
  case (Cons b bs)
  obtain b1 bs1 r1 where p: "bs' = b1 # bs1" "finish_backends owner finish owners bs r1 = Some (bs1, r')"
    "owner b \<noteq> owners \<and> b1 = b \<and> r1 = r \<or>
     owner b = owners \<and> (\<exists>err. finish (t_error r = 0) b = Some (err, b1) \<and>
       r1 = (if err \<noteq> 0 then record_error err (backend_terminal_failures_update Suc) r else r))"
    by (rule pass_Cons [OF Cons.prems(1)])
  then show ?case using Cons.IH [OF p(2)] by (auto simp: record_error_def Let_def)
qed simp



text \<open>
  What the drains must do to the files \<open>fs\<close> that they have detached: flush each, then close it. \<open>failures\<close> counts
  the files for which the backend answers with an error.
\<close>

definition failures :: "wasmfs \<Rightarrow> (fid \<Rightarrow> int) \<Rightarrow> fid list \<Rightarrow> nat" where
  "failures w answers fs = length (filter (\<lambda>f. backend_answer w answers f \<noteq> 0) fs)"

lemma failures_simps [simp]:
  "failures w answers [] = 0"
  "failures w answers (f # fs) = (if backend_answer w answers f \<noteq> 0 then 1 else 0) + failures w answers fs"
  by (simp_all add: failures_def)

lemma set_content_device:
  "is_device s f \<Longrightarrow> is_device (set_content f (Device d) s) g = is_device s g"
  by (auto simp: is_device_def set_content_def update_def split: option.splits content.splits)

lemma flush_device: "is_device (file_flush f s) g = is_device s g"
proof (cases "files s f")
  case None
  have "is_device (set_content f c (s\<lparr>console := out\<rparr>)) g = is_device s g" for c out
    using None by (auto simp: is_device_def set_content_def update_def split: option.splits)
  then show ?thesis
    by (auto simp: file_flush_def file_write_def device_write_def split: content.splits device.splits prod.splits)
next
  case (Some n)
  have console: "is_device (s\<lparr>console := out\<rparr>) h = is_device s h" for out h by (simp add: is_device_def)
  show ?thesis
  proof (cases "content n")
    case (Device d)
    then have "is_device s f" by (simp add: is_device_def Some)
    then show ?thesis
      using Device Some set_content_device [of "s\<lparr>console := out\<rparr>" f _ g for out]
      by (cases d) (auto simp: file_flush_def file_write_def device_write_def console split: prod.splits)
  qed (simp_all add: file_flush_def Some)
qed

lemma flushed_answers:
  assumes "fsys w' = file_flush f (fsys w)"
  shows "backend_answer w' answers g = backend_answer w answers g" "failures w' answers fs = failures w answers fs"
  by (simp_all add: backend_answer_def assms flush_device failures_def)

lemma record_error_counts [simp]:
  "data_flush_failures (record_error err (data_flush_failures_update Suc) r) = Suc (data_flush_failures r)"
  "data_close_failures (record_error err (data_flush_failures_update Suc) r) = data_close_failures r"
  "libc_flush_failed (record_error err (data_flush_failures_update Suc) r) = libc_flush_failed r"
  "data_file_states (record_error err (data_flush_failures_update Suc) r) = data_file_states r"
  "data_flush_failures (record_error err (data_close_failures_update Suc) r) = data_flush_failures r"
  "data_close_failures (record_error err (data_close_failures_update Suc) r) = Suc (data_close_failures r)"
  "libc_flush_failed (record_error err (data_close_failures_update Suc) r) = libc_flush_failed r"
  "data_file_states (record_error err (data_close_failures_update Suc) r) = data_file_states r"
  "data_flush_failures (record_error err (libc_flush_failed_update Suc) r) = data_flush_failures r"
  "data_close_failures (record_error err (libc_flush_failed_update Suc) r) = data_close_failures r"
  "libc_flush_failed (record_error err (libc_flush_failed_update Suc) r) = Suc (libc_flush_failed r)"
  by (simp_all add: record_error_def Let_def)



section \<open>What the terminal drain achieves\<close>





text \<open>
  The terminal drain releases a lease only after every stream has been flushed and every file flushed and closed
  without an error.
\<close>

theorem lease_released_last:
  assumes "terminal_drain libc_flush wk t may_block in_op s = Some (r, res, s')"
    and "i < length (backends s)" and "backend_gone (backends s' ! i)" and "\<not> backend_gone (backends s ! i)"
  shows "libc_flush_failed res = 0 \<and> data_flush_failures res = 0 \<and> data_close_failures res = 0"
proof -
  obtain w1 r1 where a: "after_flush libc_flush (files_of s) = (w1, r1)" by fastforce
  obtain w2 r2 where c: "close_all (w1, r1) = (w2, r2)" by fastforce
  have all: "finish_all_backends releases_terminal_lease (finish_backend wk t) (backends s) r2 = Some (backends s', res)"
    using assms a c by (auto simp: terminal_drain_def split: if_splits option.splits)
  have n: "result_inv no_terminal_result" by (simp add: result_inv_def clean_result_def no_terminal_result_def)
  have "result_inv r1"
    using a n record_error_inv(4) [OF n] by (auto simp: after_flush_def Let_def split: prod.splits if_splits)
  then have "result_inv r2"
    using c close_fold_effect by (fastforce simp: close_all_def result_inv_def clean_result_def split: prod.splits)
  moreover have "t_error r2 = 0" using leases.release_last [OF all assms(2-4)] by blast
  ultimately have "clean_result r2" by (simp add: result_inv_def)
  moreover have "libc_flush_failed res = libc_flush_failed r2 \<and> data_flush_failures res = data_flush_failures r2 \<and>
      data_close_failures res = data_close_failures r2"
    using all pass_counters by (simp add: finish_all_backends_def first_pass) blast
  ultimately show ?thesis by (simp add: clean_result_def)
qed

text \<open>
  A handoff of a profile that has not been completed stays visible: every terminal drain after it reports an
  error.
\<close>

theorem incomplete_handoff_reported:
  assumes "terminal_drain libc_flush wk t may_block in_op s = Some (r, res, s')"
    and "Opfs b \<in> set (backends s)" and "has_incomplete_scoped_drain (b_lease b)"
  shows "r \<noteq> 0"
proof
  assume z: "r = 0"
  obtain w1 r1 where a: "after_flush libc_flush (files_of s) = (w1, r1)" by fastforce
  obtain w2 r2 where c: "close_all (w1, r1) = (w2, r2)" by fastforce
  have p: "finish_backends releases_terminal_lease (finish_backend wk t) True (backends s) r2 = Some (backends s', res)"
    and "t_error res = 0"
    using assms(1) a c z by (auto simp: terminal_drain_def finish_all_backends_def first_pass split: if_splits option.splits)
  then have "list_all2 (\<lambda>b b'. if releases_terminal_lease b = True then finish_backend wk t True b = Some (0, b') else b' = b)
      (backends s) (backends s')" using pass_clean by blast
  moreover obtain i where i: "i < length (backends s)" "backends s ! i = Opfs b" using assms(2) by (auto simp: in_set_conv_nth)
  moreover have o: "releases_terminal_lease (Opfs b)" "settled (Opfs b)"
    using assms(3) by (auto simp: releases_terminal_lease_def needs_terminal_lease_finalizer_def has_incomplete_scoped_drain_def settled_def)
  ultimately have "finish_backend wk t True (Opfs b) = Some (0, backends s' ! i)" by (auto simp: list_all2_conv_all_nth)
  moreover obtain e b' where "finish_backend wk t True (Opfs b) = Some (e, b')" "e \<noteq> 0"
    using owner_finish [OF o, of wk t True] assms(3) by metis
  ultimately show False by simp
qed


section \<open>What the drain of a profile achieves\<close>

definition flags :: "profile_result \<Rightarrow> bool \<times> bool \<times> bool" where
  "flags r = (backend_sealed r, lease_released r, backend_retired r)"

lemma set_profile_error_simps [simp]:
  "flags (set_profile_error err r) = flags r"
  "p_error (set_profile_error err r) = (if p_error r = 0 then normalize_drain_error err else p_error r)"
  by (simp_all add: set_profile_error_def flags_def)

lemma normalize_nonzero [simp]: "normalize_drain_error err \<noteq> 0"
  by (simp add: normalize_drain_error_def)

lemma record_profile_error_keeps:
  assumes "\<And>r. flags (count' r) = flags r \<and> p_error (count' r) = p_error r"
  shows "flags (record_profile_error err count' r) = flags r"
    "p_error (record_profile_error err count' r) = (if p_error r = 0 \<and> err \<noteq> 0 then normalize_drain_error err else p_error r)"
  using assms by (simp_all add: record_profile_error_def)

lemma profile_counters [simp]:
  "flags (p_libc_flush_failed_update g r) = flags r" "flags (p_data_flush_failures_update g r) = flags r"
  "flags (p_data_close_failures_update g r) = flags r" "flags (prior_close_failures_update g r) = flags r"
  "flags (lease_release_failures_update g r) = flags r" "flags (backend_retire_failures_update g r) = flags r"
  "flags (r\<lparr>detached_descriptors := n, p_data_file_states := k\<rparr>) = flags r"
  by (simp_all add: flags_def)

lemmas record_keeps [simp] =
  record_profile_error_keeps [of "p_libc_flush_failed_update Suc", simplified]
  record_profile_error_keeps [of "p_data_flush_failures_update Suc", simplified]
  record_profile_error_keeps [of "p_data_close_failures_update Suc", simplified]
  record_profile_error_keeps [of "prior_close_failures_update Suc", simplified]
  record_profile_error_keeps [of "lease_release_failures_update Suc", simplified]
  record_profile_error_keeps [of "backend_retire_failures_update Suc", simplified]

lemma p_flush_and_close_counts:
  assumes "p_flush_and_close f (w, r) = (w', r')"
  shows "fsys w' = file_flush f (fsys w)" "flush_error w' = flush_error w" "close_error w' = close_error w"
    "p_data_flush_failures r' = p_data_flush_failures r + failures w (flush_error w) [f]"
    "p_data_close_failures r' = p_data_close_failures r + failures w (close_error w) [f]"
    "p_libc_flush_failed r' = p_libc_flush_failed r" "prior_close_failures r' = prior_close_failures r"
    "p_data_file_states r' = p_data_file_states r" "detached_descriptors r' = detached_descriptors r"
    "p_error r' = 0 \<longleftrightarrow> p_error r = 0 \<and> failures w (flush_error w) [f] = 0 \<and> failures w (close_error w) [f] = 0"
  using assms flushed_answers [of "on_fs (file_flush f) w" f w]
  by (auto simp: p_flush_and_close_def data_flush_def data_close_def on_fs_def record_profile_error_def set_profile_error_def Let_def
      split: if_splits)

lemma p_close_fold_counts:
  assumes "fold p_flush_and_close fs (w, r) = (w', r')"
  shows "fsys w' = fold file_flush fs (fsys w) \<and>
    p_data_flush_failures r' = p_data_flush_failures r + failures w (flush_error w) fs \<and>
    p_data_close_failures r' = p_data_close_failures r + failures w (close_error w) fs \<and>
    p_libc_flush_failed r' = p_libc_flush_failed r \<and> prior_close_failures r' = prior_close_failures r \<and>
    p_data_file_states r' = p_data_file_states r \<and> detached_descriptors r' = detached_descriptors r \<and>
    (p_error r' = 0 \<longleftrightarrow> p_error r = 0 \<and> failures w (flush_error w) fs = 0 \<and> failures w (close_error w) fs = 0)"
  using assms
proof (induction fs arbitrary: w r)
  case (Cons f fs)
  obtain w1 r1 where s: "p_flush_and_close f (w, r) = (w1, r1)" by fastforce
  note E = p_flush_and_close_counts [OF s]
  show ?case using Cons.IH [of w1 r1] Cons.prems s E flushed_answers [OF E(1)] by auto
qed simp

text \<open>What the result of a drain must say of the files, and when the drain is clean.\<close>

definition files_reported ::
    "(wasmfs \<Rightarrow> (bool \<times> int) \<times> wasmfs) \<Rightarrow> backend_id \<Rightarrow> int \<Rightarrow> wasmfs \<Rightarrow> wasmfs \<Rightarrow> profile_result \<Rightarrow> bool" where
  "files_reported libc_flush bid prior w w' r \<longleftrightarrow>
     (let ((eof, _), w1) = libc_flush w; (w2, closees, n) = detach_backend bid w1
      in fsys w' = fold file_flush closees (fsys w2) \<and>
         detached_descriptors r = n \<and> p_data_file_states r = length closees \<and>
         p_libc_flush_failed r = (if eof then 1 else 0) \<and> prior_close_failures r = (if prior \<noteq> 0 then 1 else 0) \<and>
         p_data_flush_failures r = failures w2 (flush_error w2) closees \<and>
         p_data_close_failures r = failures w2 (close_error w2) closees)"

definition files_clean :: "profile_result \<Rightarrow> bool" where
  "files_clean r \<longleftrightarrow> p_libc_flush_failed r = 0 \<and> prior_close_failures r = 0 \<and> p_data_flush_failures r = 0 \<and> p_data_close_failures r = 0"

lemma profile_close_reported:
  assumes "profile_close_all libc_flush bid prior w = (w', r)"
  shows "files_reported libc_flush bid prior w w' r \<and> (p_error r = 0 \<longleftrightarrow> files_clean r)"
proof -
  define r0 where "r0 = record_profile_error prior (prior_close_failures_update Suc) (no_profile_result\<lparr>backend_sealed := True\<rparr>)"
  obtain eof e w1 where l: "libc_flush w = ((eof, e), w1)" by (metis prod.collapse)
  define r1 where "r1 = (if eof then record_profile_error (if e \<noteq> 0 then - e else - EIO) (p_libc_flush_failed_update Suc) r0 else r0)"
  obtain w2 closees n where d: "detach_backend bid w1 = (w2, closees, n)" by (metis prod.collapse)
  have f: "fold p_flush_and_close closees (w2, r1\<lparr>detached_descriptors := n, p_data_file_states := length closees\<rparr>) = (w', r)"
    using assms by (simp only: profile_close_all_def Let_def l prod.case d r0_def [symmetric] r1_def [symmetric])
  have "p_data_flush_failures r1 = 0 \<and> p_data_close_failures r1 = 0 \<and> p_libc_flush_failed r1 = (if eof then 1 else 0) \<and>
      prior_close_failures r1 = (if prior \<noteq> 0 then 1 else 0) \<and> (p_error r1 = 0 \<longleftrightarrow> \<not> eof \<and> prior = 0)"
    by (simp add: r1_def r0_def record_profile_error_def set_profile_error_def no_profile_result_def)
  then show ?thesis
    using p_close_fold_counts [OF f] l d by (auto simp: files_reported_def files_clean_def)
qed

definition same_files :: "profile_result \<Rightarrow> profile_result \<Rightarrow> bool" where
  "same_files r r' \<longleftrightarrow> detached_descriptors r' = detached_descriptors r \<and> p_data_file_states r' = p_data_file_states r \<and>
     p_libc_flush_failed r' = p_libc_flush_failed r \<and> prior_close_failures r' = prior_close_failures r \<and>
     p_data_flush_failures r' = p_data_flush_failures r \<and> p_data_close_failures r' = p_data_close_failures r"

lemma same_files_record [simp]:
  "same_files r (record_profile_error err (backend_retire_failures_update Suc) r') = same_files r r'"
  "same_files r (record_profile_error err (lease_release_failures_update Suc) r') = same_files r r'"
  "same_files r (r'\<lparr>lease_released := x\<rparr>) = same_files r r'" "same_files r (r'\<lparr>backend_retired := x\<rparr>) = same_files r r'"
  "same_files r r"
  by (simp_all add: same_files_def record_profile_error_def set_profile_error_def)

lemma profile_retire_same_files: "profile_retire wk t r b = Some (r', b') \<Longrightarrow> same_files r r'"
proof -
  assume run: "profile_retire wk t r b = Some (r', b')"
  obtain err b1 where p: "prepare_retirement wk (p_error r = 0) b = Some (err, b1)"
    using run by (auto simp: profile_retire_def split: option.splits)
  define r1 where "r1 = record_profile_error err (backend_retire_failures_update Suc) r"
  obtain fe rel b2 where f: "finish_profile_drain wk t (p_error r1 = 0) b1 = ((fe, rel), b2)" by (metis prod.collapse)
  define r2 where "r2 = record_profile_error fe (backend_retire_failures_update Suc) (r1\<lparr>lease_released := True\<rparr>)"
  obtain e b3 where q: "retire_profile_backend wk (fe = 0) b2 = (e, b3)" by fastforce
  have "profile_retire wk t r b =
     (if \<not> rel then Some (record_profile_error (if fe = 0 \<and> p_error r1 = 0 then - EIO else fe) (lease_release_failures_update Suc) r1, b2)
      else Some (if e \<noteq> 0 then record_profile_error e (backend_retire_failures_update Suc) r2
                 else if fe = 0 then r2\<lparr>backend_retired := True\<rparr> else r2, b3))"
    by (simp only: profile_retire_def p option.case prod.case Let_def r1_def [symmetric] f r2_def [symmetric] q)
  moreover have "same_files r r1" "same_files r r2" by (simp_all add: r1_def r2_def)
  ultimately show "same_files r r'" using run by (simp split: if_splits)
qed

lemma same_files_reported:
  "same_files r r' \<Longrightarrow> files_reported libc_flush bid prior w w' r' = files_reported libc_flush bid prior w w' r"
  "same_files r r' \<Longrightarrow> files_clean r' = files_clean r"
  by (simp_all add: same_files_def files_reported_def files_clean_def Let_def split_beta)

lemma p_close_fold_flags: "fold p_flush_and_close fs (w, r) = (w', r') \<Longrightarrow> flags r' = flags r"
proof (induction fs arbitrary: w r)
  case (Cons f fs)
  obtain w1 r1 where s: "p_flush_and_close f (w, r) = (w1, r1)" by fastforce
  then have "flags r1 = flags r" by (auto simp: p_flush_and_close_def split: prod.splits)
  then show ?case using Cons s by simp
qed simp

lemma profile_close_flags: "profile_close_all libc_flush bid prior w = (w', r) \<Longrightarrow> flags r = (True, False, False)"
proof -
  assume a: "profile_close_all libc_flush bid prior w = (w', r)"
  have z: "flags (no_profile_result\<lparr>backend_sealed := True\<rparr>) = (True, False, False)"
    by (simp add: flags_def no_profile_result_def)
  show ?thesis
    using a z by (auto simp: profile_close_all_def Let_def split: prod.splits if_splits dest!: p_close_fold_flags)
qed

lemma prepare_phase:
  assumes "prepare_retirement wk check b = Some (err, b')"
  shows "phase (b_lease b') = phase (b_lease b)"
  using assms
  by (auto simp: prepare_retirement_def close_destructor_proxying_def close_gate_def log_call_def Let_def
      split: option.splits if_splits)

lemma profile_retire_outcome:
  assumes "profile_retire wk t r b = Some (r', b')" and "phase (b_lease b) = Sealing" and "flags r = (True, False, False)"
  shows "backend_sealed r' \<and> (backend_retired r' \<longrightarrow> lease_released r') \<and> (p_error r' = 0 \<longleftrightarrow> backend_retired r') \<and>
    (lease_released r' \<longrightarrow> p_error r = 0) \<and>
    phase (b_lease b') = (if backend_retired r' then Retired else if lease_released r' then Retiring else Failed)"
proof -
  obtain err b1 where p: "prepare_retirement wk (p_error r = 0) b = Some (err, b1)"
    using assms(1) by (auto simp: profile_retire_def split: option.splits)
  then have ph: "phase (b_lease b1) = Sealing" using prepare_phase assms(2) by metis
  define r1 where "r1 = record_profile_error err (backend_retire_failures_update Suc) r"
  have r1: "flags r1 = (True, False, False)" "p_error r1 = 0 \<Longrightarrow> p_error r = 0" using assms(3) by (auto simp: r1_def split: if_splits)
  obtain fe rel b2 where f: "finish_profile_drain wk t (p_error r1 = 0) b1 = ((fe, rel), b2)" by (metis prod.collapse)
  have F: "phase (b_lease b2) = (if rel then Released else Failed) \<and> (rel \<longrightarrow> p_error r1 = 0)"
  proof (cases "p_error r1 = 0")
    case True
    then show ?thesis using finish_success_phase [OF ph] f by simp
  next
    case False
    then show ?thesis using finish_failed_phase [OF ph, of wk t] f by (metis (full_types) Pair_inject)
  qed
  define r2 where "r2 = record_profile_error fe (backend_retire_failures_update Suc) (r1\<lparr>lease_released := True\<rparr>)"
  have eq: "profile_retire wk t r b =
     (if \<not> rel then Some (record_profile_error (if fe = 0 \<and> p_error r1 = 0 then - EIO else fe) (lease_release_failures_update Suc) r1, b2)
      else let (e, b3) = retire_profile_backend wk (fe = 0) b2
           in Some (if e \<noteq> 0 then record_profile_error e (backend_retire_failures_update Suc) r2
                    else if fe = 0 then r2\<lparr>backend_retired := True\<rparr> else r2, b3))"
    by (simp only: profile_retire_def p option.case prod.case Let_def r1_def [symmetric] f r2_def [symmetric])
  show ?thesis
  proof (cases rel)
    case False
    then have "r' = record_profile_error (if fe = 0 \<and> p_error r1 = 0 then - EIO else fe) (lease_release_failures_update Suc) r1" "b' = b2"
      using assms(1) eq by simp_all
    moreover from this have "flags r' = (True, False, False)" "p_error r' \<noteq> 0" using r1(1) by simp_all
    ultimately show ?thesis using F False by (simp add: flags_def)
  next
    case True
    obtain e b3 where q: "retire_profile_backend wk (fe = 0) b2 = (e, b3)" by fastforce
    have P: "phase (b_lease b3) = (if e = 0 \<and> fe = 0 then Retired else Retiring)" using retire_phase [OF _ q] F True by simp
    have "flags (r1\<lparr>lease_released := True\<rparr>) = (True, True, False)" using r1(1) by (simp add: flags_def)
    then have r2: "flags r2 = (True, True, False)" "p_error r2 = 0 \<longleftrightarrow> fe = 0"
      using F True by (simp_all add: r2_def)
    have R: "r' = (if e \<noteq> 0 then record_profile_error e (backend_retire_failures_update Suc) r2
          else if fe = 0 then r2\<lparr>backend_retired := True\<rparr> else r2)" "b' = b3"
      using assms(1) eq q True by simp_all
    have "flags r' = (True, True, e = 0 \<and> fe = 0) \<and> (p_error r' = 0 \<longleftrightarrow> e = 0 \<and> fe = 0)"
      using r2 by (cases "e = 0"; cases "fe = 0") (simp_all add: R(1), auto simp: flags_def)
    then show ?thesis using r1(2) P F True R(2) by (auto simp: flags_def)
  qed
qed

text \<open>
  Claim C21. The result of a profile drain says what has happened. Once it has sealed the backend, the result tells how many files of the backend were
  detached and counts the flushes and closes that failed, the failure of libc's flush and an error of an earlier close; the
  lease is released only if none of these has failed, and the backend is retired only if the lease was released. Zero means the whole
  handoff: released and the worker retired. A refused drain changes nothing; a drain that has sealed the backend leaves it
  unusable, whatever its result.
\<close>

theorem profile_drain_outcome:
  assumes "drain_profile libc_flush wk t may_block in_op i bid s = Some (r, res, s')"
  shows "r = p_error res \<and> (r = 0 \<longleftrightarrow> backend_retired res) \<and> (backend_retired res \<longrightarrow> lease_released res) \<and>
    (lease_released res \<longrightarrow> backend_sealed res \<and> files_clean res) \<and> (\<not> backend_sealed res \<longrightarrow> s' = s \<and> r \<noteq> 0) \<and>
    (backend_sealed res \<longrightarrow> terminal s' = Run \<and>
      (\<exists>b0. leased_backend i s = Some b0 \<and> files_reported libc_flush bid (close_latch b0) (files_of s) (files_of s') res) \<and>
      (\<exists>b. backends s' = (backends s)[i := Opfs b] \<and> phase (b_lease b) =
        (if backend_retired res then Retired else if lease_released res then Retiring else Failed)))"
proof -
  have fail: ?thesis if "Some (normalize_drain_error err, set_profile_error err no_profile_result, s) = Some (r, res, s')" for err
    using that by (auto simp: set_profile_error_def no_profile_result_def)
  show ?thesis
  proof (cases "\<exists>err. Some (normalize_drain_error err, set_profile_error err no_profile_result, s) = Some (r, res, s')")
    case True
    then show ?thesis using fail by blast
  next
    case False
    then have none: "profile_refusal may_block in_op i bid s = None"
      using assms by (auto simp: drain_profile_def split: option.splits)
    obtain b where b: "leased_backend i s = Some b" "terminal s = Run"
      using none by (auto simp: profile_refusal_def split: if_splits)
    obtain e l where l: "begin_drain t (b_lease b) = Some (e, l)"
      using assms none b(1) by (auto simp: drain_profile_def Let_def split: option.splits)
    have e: "e = 0" using False assms none b(1) l by (auto simp: drain_profile_def Let_def split: if_splits)
    obtain w r0 where c: "profile_close_all libc_flush bid (close_latch b) (files_of s) = (w, r0)" by fastforce
    obtain b1 where u: "profile_retire wk t r0 (b\<lparr>b_lease := l\<rparr>) = Some (res, b1)" "r = p_error res"
        "s' = s\<lparr>files_of := w, backends := (backends s)[i := Opfs b1]\<rparr>"
      using assms none b(1) l e c by (auto simp: drain_profile_def split: option.splits)
    have "phase l = Sealing"
      using l e by (auto simp: begin_drain_def seal_def await_operations_def split: if_splits)
    then have "phase (b_lease (b\<lparr>b_lease := l\<rparr>)) = Sealing" by simp
    note O = profile_retire_outcome [OF u(1) this profile_close_flags [OF c]]
    have F: "files_reported libc_flush bid (close_latch b) (files_of s) w res" "p_error r0 = 0 \<longleftrightarrow> files_clean res"
      using profile_close_reported [OF c] same_files_reported [OF profile_retire_same_files [OF u(1)]] by simp_all
    have "\<exists>b0. leased_backend i s = Some b0 \<and> files_reported libc_flush bid (close_latch b0) (files_of s) (files_of s') res"
      using b(1) F(1) u(3) by simp
    then show ?thesis using O F(2) u b(2) by auto
  qed
qed


section \<open>Examples\<close>

definition demo_worker :: worker_answers where
  "demo_worker = \<lparr>fence_answer = 0, check_answer = (True, 0), transaction_answer = (True, True, 0), join_answer = 0\<rparr>"

definition demo_backend :: opfs_backend where
  "demo_backend = \<lparr>b_lease = acquired_lease new_lease, worker_log = [], close_latch = 0\<rparr>"

definition demo_drain :: drain_system where
  "demo_drain = \<lparr>files_of = init_wasmfs, backends = [Plain, Opfs demo_backend], terminal = Run, scoped_drain = False\<rparr>"

definition quiet_flush :: "wasmfs \<Rightarrow> (bool \<times> int) \<times> wasmfs" where
  "quiet_flush w = ((False, 0), w)"


text \<open>A program without descriptors.\<close>

definition demo_closed :: drain_system where
  "demo_closed = demo_drain\<lparr>files_of := init_wasmfs\<lparr>table := []\<rparr>\<rparr>"

definition demo_retired :: opfs_backend where
  "demo_retired = \<lparr>b_lease = (acquired_lease new_lease)\<lparr>phase := Retired, destructor_closed := True\<rparr>,
     worker_log = [Fence, Check_resources, Release_and_retire, Heartbeat_stopped, Join_worker], close_latch = 0\<rparr>"

lemma demo_lease_fields:
  "b_lease demo_backend = \<lparr>phase = Active, active_operations = 0, destructor_operations = 0, destructor_closed = False,
     drain_state = (\<lambda>_. False), external = (\<lambda>_. 0), operation_asleep = False, destructor_asleep = False\<rparr>"
  by (simp add: demo_backend_def acquired_lease_def new_lease_def)

lemma off_again: "(\<lambda>_. False)(t := False) = (\<lambda>_. False)"
  by auto

lemma demo_retires:
  "terminal_drain_finished demo_worker 5 True demo_backend = Some (0, demo_retired)"
  by (simp add: terminal_drain_finished_def has_incomplete_scoped_drain_def has_live_lease_def demo_lease_fields
      begin_drain_def seal_def await_operations_def prepare_retirement_def close_destructor_proxying_def close_gate_def
      finish_profile_drain_def finish_scoped_drain_def end_drain_def retire_profile_backend_def begin_retirement_def
      finish_retirement_def log_call_def demo_worker_def Let_def off_again)
    (simp add: demo_backend_def demo_retired_def acquired_lease_def new_lease_def)

lemma demo_terminal_run:
  "terminal_drain quiet_flush demo_worker 5 True False demo_closed = Some (0, no_terminal_result,
     demo_closed\<lparr>backends := [Plain, Opfs demo_retired], terminal := Drained\<rparr>)"
proof -
  have o: "releases_terminal_lease (Opfs demo_backend)"
    by (simp add: releases_terminal_lease_def needs_terminal_lease_finalizer_def demo_lease_fields)
  have p: "\<not> releases_terminal_lease Plain" by (simp add: releases_terminal_lease_def)
  have "finish_backend demo_worker 5 True (Opfs demo_backend) = Some (0, Opfs demo_retired)"
    using demo_retires by (simp add: finish_backend_def)
  then have "finish_all_backends releases_terminal_lease (finish_backend demo_worker 5) [Plain, Opfs demo_backend] no_terminal_result =
      Some ([Plain, Opfs demo_retired], no_terminal_result)"
    using o p unfolding finish_all_backends_def first_pass option.case prod.case
    by simp (simp add: no_terminal_result_def)
  then show ?thesis
    by (simp add: terminal_drain_def demo_closed_def demo_drain_def after_flush_def quiet_flush_def close_all_def detach_all_def)
      (simp add: no_terminal_result_def)
qed

theorem lease_released_last_witness:
  "backend_gone (Opfs demo_retired) \<and> data_close_failures no_terminal_result = 0"
proof -
  have "backend_gone (Opfs demo_retired)" "\<not> backend_gone (Opfs demo_backend)"
    by (simp_all add: backend_gone_def lease_gone_def demo_retired_def demo_lease_fields)
  then show ?thesis
    using lease_released_last [OF demo_terminal_run, of 1] by (simp add: demo_closed_def demo_drain_def)
qed

definition demo_stuck :: opfs_backend where
  "demo_stuck = demo_backend\<lparr>b_lease := (b_lease demo_backend)\<lparr>phase := Failed\<rparr>\<rparr>"

lemma demo_stuck_run:
  "terminal_drain quiet_flush demo_worker 5 True False (demo_closed\<lparr>backends := [Opfs demo_stuck]\<rparr>) =
    Some (- ESHUTDOWN, no_terminal_result\<lparr>t_error := - ESHUTDOWN, backend_terminal_failures := 1\<rparr>,
      demo_closed\<lparr>backends := [Opfs demo_stuck], terminal := Drain_failed\<rparr>)"
proof -
  have o: "releases_terminal_lease (Opfs demo_stuck)"
    by (simp add: releases_terminal_lease_def needs_terminal_lease_finalizer_def demo_stuck_def)
  have "finish_backend demo_worker 5 True (Opfs demo_stuck) = Some (- ESHUTDOWN, Opfs demo_stuck)"
    by (simp add: finish_backend_def terminal_drain_finished_def has_incomplete_scoped_drain_def demo_stuck_def)
  then have "finish_all_backends releases_terminal_lease (finish_backend demo_worker 5) [Opfs demo_stuck] no_terminal_result =
      Some ([Opfs demo_stuck], no_terminal_result\<lparr>t_error := - ESHUTDOWN, backend_terminal_failures := 1\<rparr>)"
    using o unfolding finish_all_backends_def first_pass option.case prod.case
    by simp (simp add: no_terminal_result_def record_error_def normalize_drain_error_def Let_def)
  then show ?thesis
    by (simp add: terminal_drain_def demo_closed_def demo_drain_def after_flush_def quiet_flush_def close_all_def detach_all_def)
      (simp add: no_terminal_result_def)
qed

theorem incomplete_handoff_reported_witness: "- ESHUTDOWN \<noteq> 0 \<and> has_incomplete_scoped_drain (b_lease demo_stuck)"
  using incomplete_handoff_reported [OF demo_stuck_run, of demo_stuck]
  by (simp add: has_incomplete_scoped_drain_def demo_stuck_def)

lemma demo_profile_run:
  "drain_profile quiet_flush demo_worker 5 True False 1 9 demo_closed =
    Some (0, no_profile_result\<lparr>backend_sealed := True, lease_released := True, backend_retired := True\<rparr>,
      demo_closed\<lparr>backends := [Plain, Opfs demo_retired]\<rparr>)"
proof -
  have l: "leased_backend 1 demo_closed = Some demo_backend"
    by (simp add: leased_backend_def demo_closed_def demo_drain_def is_leased_profile_backend_def demo_lease_fields)
  have n: "profile_refusal True False 1 9 demo_closed = None"
    using l by (simp add: profile_refusal_def) (simp add: demo_closed_def demo_drain_def)
  have c: "profile_close_all quiet_flush 9 (close_latch demo_backend) (files_of demo_closed) =
      (files_of demo_closed, no_profile_result\<lparr>backend_sealed := True\<rparr>)"
    by (simp add: profile_close_all_def quiet_flush_def detach_backend_def demo_closed_def demo_backend_def record_profile_error_def
        no_profile_result_def)
  define l1 where "l1 = (b_lease demo_backend)\<lparr>phase := Sealing, drain_state := (\<lambda>_. False)(5 := True)\<rparr>"
  have b: "begin_drain 5 (b_lease demo_backend) = Some (0, l1)"
    by (simp add: begin_drain_def seal_def await_operations_def demo_lease_fields l1_def)
  have r: "profile_retire demo_worker 5 (no_profile_result\<lparr>backend_sealed := True\<rparr>) (demo_backend\<lparr>b_lease := l1\<rparr>) =
      Some (no_profile_result\<lparr>backend_sealed := True, lease_released := True, backend_retired := True\<rparr>, demo_retired)"
    by (simp add: profile_retire_def prepare_retirement_def close_destructor_proxying_def close_gate_def
        finish_profile_drain_def finish_scoped_drain_def end_drain_def retire_profile_backend_def begin_retirement_def
        finish_retirement_def log_call_def demo_worker_def Let_def off_again record_profile_error_def l1_def demo_lease_fields
        no_profile_result_def)
      (simp add: demo_backend_def demo_retired_def acquired_lease_def new_lease_def)
  show ?thesis
    using l n c b r by (simp add: drain_profile_def) (simp add: demo_closed_def demo_drain_def no_profile_result_def)
qed

theorem profile_drain_outcome_witness:
  "backend_retired (no_profile_result\<lparr>backend_sealed := True, lease_released := True, backend_retired := True\<rparr>) \<and>
    (\<exists>b. [Plain, Opfs demo_retired] = [Plain, Opfs b] \<and> phase (b_lease b) = Retired)"
  using profile_drain_outcome [OF demo_profile_run] by (simp add: demo_closed_def demo_drain_def)

end
