(* ===== verification/Opfs_File.thy ===== *)
theory Opfs_File
  imports Wasmfs_Lease "HOL-Library.Char_ord"
begin

text \<open>
  Files in the origin private file system: \<open>OpenState\<close>, \<open>TerminalCloseState\<close> and \<open>OPFSFile\<close> of
  \<open>wasmfs/backends/opfs_backend.cpp\<close>, and the check of lease names. What the worker in the browser answers is a parameter;
  the lists \<open>live_files\<close> and \<open>live_handles\<close> record which of its objects it has been asked for and not told to drop.
\<close>

section \<open>State\<close>

datatype open_kind = Not_open | Access | Blob | FailedAccessClose

datatype handle = Access_handle int | Blob_handle int

record opfs_file =
  file_id :: int
  dir_id :: int
  file_name :: string
  attached :: bool
  kind :: open_kind
  handle_id :: int
  open_count :: nat
  live_files :: "int list"
  live_handles :: "handle list"

text \<open>
  The files of one backend share its \<open>TerminalCloseState\<close>: \<open>first_close_error\<close> is the latch, which the drain of the backend reads.
\<close>

record opfs_system =
  first_close_error :: int
  file_at :: "nat \<Rightarrow> opfs_file"

text \<open>The answers of the worker to the calls that a function makes.\<close>

record opfs_answers =
  js_acquire_file :: int
  js_open_access :: int
  js_open_blob :: int
  js_close_access :: int
  js_move_file :: int
  js_get_size :: int
  js_set_size :: int
  js_read :: int
  js_write :: int
  js_flush :: int

text \<open>An access mode other than these three does not reach the backend.\<close>

datatype access_mode = Read_only | Write_only | Read_write

definition kMaxProfileLeaseNameLength :: nat where "kMaxProfileLeaseNameLength = 128"

definition in_range :: "char \<Rightarrow> char \<Rightarrow> char \<Rightarrow> bool" where
  "in_range lo hi c \<longleftrightarrow> lo \<le> c \<and> c \<le> hi"

definition lease_name_char :: "char \<Rightarrow> bool" where
  "lease_name_char c \<longleftrightarrow>
     in_range (CHR ''a'') (CHR ''z'') c \<or> in_range (CHR ''A'') (CHR ''Z'') c \<or> in_range (CHR ''0'') (CHR ''9'') c \<or>
     c \<in> {CHR ''.'', CHR ''-'', CHR ''_''}"

text \<open>The loop over a name that ends with a zero byte; \<open>i\<close> is the index of the first character of the list.\<close>

fun lease_name_loop :: "nat \<Rightarrow> string \<Rightarrow> bool" where
  "lease_name_loop i [] = (i \<noteq> 0)"
| "lease_name_loop i (c # cs) =
     (if i = kMaxProfileLeaseNameLength then False
      else if \<not> lease_name_char c then False else lease_name_loop (Suc i) cs)"

definition is_valid_profile_lease_name :: "string option \<Rightarrow> bool" where
  "is_valid_profile_lease_name name = (case name of None \<Rightarrow> False | Some cs \<Rightarrow> lease_name_loop 0 cs)"

section \<open>Handles\<close>

text \<open>The latch after a compare-and-exchange with 0.\<close>

definition record_failed_access_close :: "int \<Rightarrow> int \<Rightarrow> int" where
  "record_failed_access_close err first =
     (let err1 = (if 0 \<le> err then - EIO else err) in if first = 0 then err1 else first)"

definition ensure_file_id :: "opfs_answers \<Rightarrow> opfs_file \<Rightarrow> int \<times> opfs_file" where
  "ensure_file_id js f =
     (if 0 \<le> file_id f then (0, f)
      else if \<not> attached f then (- ENOENT, f)
      else
        let n = js_acquire_file js
        in if n < 0 then (n, f) else (0, f\<lparr>file_id := n, live_files := n # live_files f\<rparr>))"

definition release_file_id_if_idle :: "opfs_file \<Rightarrow> opfs_file" where
  "release_file_id_if_idle f =
     (if kind f \<noteq> Not_open \<or> file_id f < 0 then f
      else f\<lparr>live_files := remove1 (file_id f) (live_files f), file_id := - 1\<rparr>)"

text \<open>\<open>OpenState::open\<close> and \<open>OpenState::close\<close>; the counter is a \<open>size_t\<close>.\<close>

definition open_state_open :: "opfs_answers \<Rightarrow> access_mode \<Rightarrow> opfs_file \<Rightarrow> int \<times> opfs_file" where
  "open_state_open js mode f =
     (if kind f = FailedAccessClose then (- EIO, f)
      else if kind f = Not_open then
        (if mode = Read_only
         then let i = js_open_blob js
              in if i < 0 then (i, f\<lparr>handle_id := i\<rparr>)
                 else (0, f\<lparr>handle_id := i, kind := Blob, live_handles := Blob_handle i # live_handles f, open_count := open_count f + 1\<rparr>)
         else let i = js_open_access js
              in if i < 0 then (i, f\<lparr>handle_id := i\<rparr>)
                 else (0, f\<lparr>handle_id := i, kind := Access, live_handles := Access_handle i # live_handles f, open_count := open_count f + 1\<rparr>))
      else if kind f = Blob \<and> mode \<noteq> Read_only then
        (let i = js_open_access js
         in if i < 0 then (i, f)
            else (0, f\<lparr>handle_id := i, kind := Access,
                       live_handles := remove1 (Blob_handle (handle_id f)) (Access_handle i # live_handles f),
                       open_count := open_count f + 1\<rparr>))
      else (0, f\<lparr>open_count := open_count f + 1\<rparr>))"

definition open_state_close :: "opfs_answers \<Rightarrow> opfs_file \<Rightarrow> (int \<times> opfs_file) option" where
  "open_state_close js f =
     (let n = (if open_count f = 0 then 2 ^ 32 - 1 else open_count f - 1);
          f1 = f\<lparr>open_count := n\<rparr>
      in if n \<noteq> 0 then Some (0, f1)
         else (case kind f of
                 Access \<Rightarrow>
                   let err = js_close_access js
                   in if err \<noteq> 0 then Some (err, f1\<lparr>kind := FailedAccessClose\<rparr>)
                      else Some (0, f1\<lparr>kind := Not_open, handle_id := - 1,
                                       live_handles := remove1 (Access_handle (handle_id f)) (live_handles f)\<rparr>)
               | Blob \<Rightarrow> Some (0, f1\<lparr>kind := Not_open, handle_id := - 1,
                                     live_handles := remove1 (Blob_handle (handle_id f)) (live_handles f)\<rparr>)
               | _ \<Rightarrow> None))"

section \<open>The operations of a file\<close>

text \<open>
  Each begins with an \<open>InternalOperation\<close>, which lasts until it returns: \<open>adm\<close> is its error. \<^const>\<open>None\<close> is an
  assertion that fails.
\<close>

definition opfs_open :: "int \<Rightarrow> opfs_answers \<Rightarrow> access_mode \<Rightarrow> opfs_file \<Rightarrow> int \<times> opfs_file" where
  "opfs_open adm js mode f =
     (if adm \<noteq> 0 then (adm, f)
      else if kind f = FailedAccessClose then (- EIO, f)
      else
        let (err, f1) = ensure_file_id js f
        in if err \<noteq> 0 then (err, f1)
           else let (err, f2) = open_state_open js mode f1 in (err, release_file_id_if_idle f2))"

definition opfs_close :: "int \<Rightarrow> opfs_answers \<Rightarrow> int \<Rightarrow> opfs_file \<Rightarrow> (int \<times> int \<times> opfs_file) option" where
  "opfs_close adm js first f =
     (if adm \<noteq> 0 then Some (adm, first, f)
      else case open_state_close js f of
             None \<Rightarrow> None
           | Some (err, f1) \<Rightarrow>
               let first1 = (if err \<noteq> 0 then record_failed_access_close err first else first)
               in Some (err, first1, release_file_id_if_idle f1))"

definition opfs_move_to :: "int \<Rightarrow> opfs_answers \<Rightarrow> int \<Rightarrow> string \<Rightarrow> opfs_file \<Rightarrow> int \<times> opfs_file" where
  "opfs_move_to adm js d name f =
     (if adm \<noteq> 0 then (adm, f)
      else if kind f = FailedAccessClose then (- EIO, f)
      else
        let (err, f1) = ensure_file_id js f
        in if err \<noteq> 0 then (err, f1)
           else
             let err = js_move_file js;
                 f2 = (if err = 0 then f1\<lparr>dir_id := d, file_name := name\<rparr> else f1)
             in (err, release_file_id_if_idle f2))"

definition opfs_get_size :: "int \<Rightarrow> opfs_answers \<Rightarrow> opfs_file \<Rightarrow> int \<times> opfs_file" where
  "opfs_get_size adm js f =
     (if adm \<noteq> 0 then (adm, f)
      else case kind f of
             Not_open \<Rightarrow>
               (let (err, f1) = ensure_file_id js f
                in if err \<noteq> 0 then (err, f1) else (js_get_size js, release_file_id_if_idle f1))
           | FailedAccessClose \<Rightarrow> (- EIO, f)
           | _ \<Rightarrow> (js_get_size js, f))"

definition opfs_set_size :: "int \<Rightarrow> opfs_answers \<Rightarrow> opfs_file \<Rightarrow> int \<times> opfs_file" where
  "opfs_set_size adm js f =
     (if adm \<noteq> 0 then (adm, f)
      else case kind f of
             Access \<Rightarrow> (js_set_size js, f)
           | Not_open \<Rightarrow>
               (let (err, f1) = ensure_file_id js f
                in if err \<noteq> 0 then (err, f1) else (js_set_size js, release_file_id_if_idle f1))
           | _ \<Rightarrow> (- EIO, f))"

definition opfs_read :: "int \<Rightarrow> opfs_answers \<Rightarrow> opfs_file \<Rightarrow> (int \<times> opfs_file) option" where
  "opfs_read adm js f =
     (if adm \<noteq> 0 then Some (adm, f)
      else case kind f of
             FailedAccessClose \<Rightarrow> Some (- EIO, f) | Not_open \<Rightarrow> None
           | _ \<Rightarrow> if open_count f = 0 \<or> handle_id f < 0 then None else Some (js_read js, f))"

definition opfs_write :: "int \<Rightarrow> opfs_answers \<Rightarrow> opfs_file \<Rightarrow> (int \<times> opfs_file) option" where
  "opfs_write adm js f =
     (if adm \<noteq> 0 then Some (adm, f)
      else if kind f = FailedAccessClose then Some (- EIO, f)
      else if kind f \<noteq> Access \<or> open_count f = 0 \<or> handle_id f < 0 then None
      else Some (js_write js, f))"

definition opfs_flush :: "int \<Rightarrow> opfs_answers \<Rightarrow> opfs_file \<Rightarrow> int \<times> opfs_file" where
  "opfs_flush adm js f =
     (if adm \<noteq> 0 then (adm, f)
      else case kind f of Access \<Rightarrow> (js_flush js, f) | FailedAccessClose \<Rightarrow> (- EIO, f) | _ \<Rightarrow> (0, f))"

definition new_opfs_file :: "int \<Rightarrow> string \<Rightarrow> opfs_file" where
  "new_opfs_file d name = \<lparr>file_id = - 1, dir_id = d, file_name = name, attached = True, kind = Not_open, handle_id = - 1,
     open_count = 0, live_files = [], live_handles = []\<rparr>"

section \<open>Every handle is accounted for\<close>

text \<open>
  The calls that WasmFS makes on a file, whatever the worker answers and whether or not the operation is admitted.
  A file is closed as often as it has been opened, as the file table guarantees; it may be
  unlinked at any time. A close is admitted: it runs in an operation or in the drain. The first and third
  arguments are the latch before and after.
\<close>

inductive file_step :: "int \<Rightarrow> opfs_file \<Rightarrow> int \<Rightarrow> opfs_file \<Rightarrow> bool" where
  "opfs_open adm js mode f = (r, f') \<Longrightarrow> file_step c f c f'"
| "0 < open_count f \<Longrightarrow> opfs_close 0 js c f = Some (r, c', f') \<Longrightarrow> file_step c f c' f'"
| "opfs_move_to adm js d name f = (r, f') \<Longrightarrow> file_step c f c f'"
| "opfs_get_size adm js f = (r, f') \<Longrightarrow> file_step c f c f'"
| "opfs_set_size adm js f = (r, f') \<Longrightarrow> file_step c f c f'"
| "opfs_flush adm js f = (r, f') \<Longrightarrow> file_step c f c f'"
| "file_step c f c (f\<lparr>attached := False\<rparr>)"

text \<open>Any file of the backend makes a step; the files that exist are new at the start.\<close>

inductive opfs_step :: "opfs_system \<Rightarrow> opfs_system \<Rightarrow> bool" where
  on_file: "file_step (first_close_error s) (file_at s i) c f \<Longrightarrow>
    opfs_step s (s\<lparr>first_close_error := c, file_at := (file_at s)(i := f)\<rparr>)"

definition opfs_start :: "opfs_system \<Rightarrow> bool" where
  "opfs_start s \<longleftrightarrow> first_close_error s = 0 \<and> (\<forall>i. \<exists>d name. file_at s i = new_opfs_file d name)"

definition handles_of :: "opfs_file \<Rightarrow> handle list" where
  "handles_of f = (case kind f of
      Not_open \<Rightarrow> [] | Blob \<Rightarrow> [Blob_handle (handle_id f)] | _ \<Rightarrow> [Access_handle (handle_id f)])"

definition opfs_file_inv :: "opfs_file \<Rightarrow> bool" where
  "opfs_file_inv f \<longleftrightarrow>
     live_handles f = handles_of f \<and>
     live_files f = (if kind f = Not_open then [] else [file_id f]) \<and>
     (kind f = Not_open \<longleftrightarrow> file_id f < 0) \<and>
     (0 < open_count f \<longleftrightarrow> kind f \<in> {Access, Blob}) \<and>
     (kind f \<in> {Access, Blob} \<longrightarrow> 0 \<le> handle_id f)"

lemmas opfs_defs = opfs_open_def opfs_close_def opfs_move_to_def opfs_get_size_def opfs_set_size_def opfs_flush_def
  ensure_file_id_def release_file_id_if_idle_def open_state_open_def open_state_close_def record_failed_access_close_def

lemma file_step_inv:
  assumes "file_step c f c' f'" and "opfs_file_inv f"
  shows "opfs_file_inv f'" "c \<le> 0 \<Longrightarrow> c' \<le> 0" "c \<noteq> 0 \<Longrightarrow> c' = c"
    "kind f' = FailedAccessClose \<Longrightarrow> kind f = FailedAccessClose \<or> c' \<noteq> 0"
proof -
  have "opfs_file_inv f' \<and> (c \<le> 0 \<longrightarrow> c' \<le> 0) \<and> (c \<noteq> 0 \<longrightarrow> c' = c) \<and>
      (kind f' = FailedAccessClose \<longrightarrow> kind f = FailedAccessClose \<or> c' \<noteq> 0)"
    using assms(1)
  proof cases
    case (1 adm js mode r)
    then show ?thesis using assms(2)
      by (cases "kind f") (auto simp: opfs_file_inv_def handles_of_def opfs_defs Let_def split: if_splits)
  next
    case (2 js r)
    then show ?thesis using assms(2)
      by (cases "kind f") (auto simp: opfs_file_inv_def handles_of_def opfs_defs Let_def split: if_splits)
  next
    case (3 adm js d name r)
    then show ?thesis using assms(2)
      by (cases "kind f") (auto simp: opfs_file_inv_def handles_of_def opfs_defs Let_def split: if_splits)
  next
    case (4 adm js r)
    then show ?thesis using assms(2)
      by (cases "kind f") (auto simp: opfs_file_inv_def handles_of_def opfs_defs Let_def split: if_splits)
  next
    case (5 adm js r)
    then show ?thesis using assms(2)
      by (cases "kind f") (auto simp: opfs_file_inv_def handles_of_def opfs_defs Let_def split: if_splits)
  next
    case (6 adm js r)
    then show ?thesis using assms(2)
      by (cases "kind f") (auto simp: opfs_file_inv_def handles_of_def opfs_defs Let_def split: if_splits)
  next
    case 7
    then show ?thesis using assms(2) by (cases "kind f") (simp_all add: opfs_file_inv_def handles_of_def)
  qed
  then show "opfs_file_inv f'" "c \<le> 0 \<Longrightarrow> c' \<le> 0" "c \<noteq> 0 \<Longrightarrow> c' = c"
    "kind f' = FailedAccessClose \<Longrightarrow> kind f = FailedAccessClose \<or> c' \<noteq> 0" by blast+
qed

definition opfs_inv :: "opfs_system \<Rightarrow> bool" where
  "opfs_inv s \<longleftrightarrow> (\<forall>i. opfs_file_inv (file_at s i)) \<and> first_close_error s \<le> 0 \<and>
     ((\<exists>i. kind (file_at s i) = FailedAccessClose) \<longrightarrow> first_close_error s < 0)"

lemma opfs_step_inv:
  assumes "opfs_step s s'" and inv: "opfs_inv s"
  shows "opfs_inv s'"
  using assms(1)
proof cases
  case (on_file i c f)
  have "opfs_file_inv (file_at s i)" using inv by (simp add: opfs_inv_def)
  note F = file_step_inv [OF on_file(2) this]
  have le: "c \<le> 0" using F(2) inv by (simp add: opfs_inv_def)
  have "c < 0" if "kind (file_at s' j) = FailedAccessClose" for j
  proof (cases "j = i \<and> kind (file_at s i) \<noteq> FailedAccessClose")
    case True
    then show ?thesis using F(4) le that by (simp add: on_file(1))
  next
    case False
    then have "\<exists>k. kind (file_at s k) = FailedAccessClose" using that by (auto simp: on_file(1) split: if_splits)
    then have "first_close_error s < 0" using inv by (simp add: opfs_inv_def)
    then show ?thesis using F(3) by simp
  qed
  then have "(\<exists>j. kind (file_at s' j) = FailedAccessClose) \<longrightarrow> c < 0" by blast
  moreover have "first_close_error s' = c" by (simp add: on_file(1))
  moreover have "opfs_file_inv (file_at s' j)" for j using inv F(1) by (simp add: opfs_inv_def on_file(1))
  moreover have "first_close_error s' \<le> 0" using le by (simp add: on_file(1))
  ultimately show ?thesis unfolding opfs_inv_def by metis
qed

lemma opfs_reachable_inv:
  assumes "opfs_start s0" and "opfs_step\<^sup>*\<^sup>* s0 s"
  shows "opfs_inv s"
  using assms(2)
proof (induction rule: rtranclp_induct)
  case base
  have "opfs_file_inv (new_opfs_file d name) \<and> kind (new_opfs_file d name) = Not_open" for d name
    by (simp add: opfs_file_inv_def new_opfs_file_def handles_of_def)
  then show ?case using assms(1) by (simp add: opfs_inv_def opfs_start_def) (metis open_kind.distinct(5))
qed (rule opfs_step_inv)

text \<open>
  Claim C22. Whatever is called on the files of a backend and whatever the worker answers, the worker holds for each file exactly the
  handle that it is open with, and a file handle only while it is open: a closed file keeps nothing alive, apart from
  the access handle whose close has failed.
\<close>

theorem opfs_handles_accounted:
  assumes "opfs_start s0" and "opfs_step\<^sup>*\<^sup>* s0 s" and "f = file_at s i"
  shows "live_handles f = handles_of f \<and> live_files f = (if kind f = Not_open then [] else [file_id f]) \<and>
    (0 < open_count f \<longleftrightarrow> kind f \<in> {Access, Blob}) \<and>
    (open_count f = 0 \<longrightarrow> live_files f = [] \<and> live_handles f = [] \<or> kind f = FailedAccessClose) \<and>
    (0 < open_count f \<longrightarrow> opfs_read 0 js f \<noteq> None)"
proof -
  have "opfs_file_inv f" using opfs_reachable_inv [OF assms(1,2)] by (simp add: opfs_inv_def assms(3))
  then show ?thesis by (cases "kind f") (auto simp: opfs_file_inv_def handles_of_def opfs_read_def)
qed

lemma quarantine_step:
  assumes "file_step c f c' f'" and "kind f = FailedAccessClose" and "open_count f = 0"
  shows "f' = f \<or> f' = f\<lparr>attached := False\<rparr>"
  using assms(1)
  by cases (use assms(2,3) in \<open>auto simp: opfs_open_def opfs_move_to_def opfs_get_size_def opfs_set_size_def
    opfs_flush_def split: if_splits\<close>)

text \<open>
  Claim C23. A file whose access handle could not be closed is quarantined for good, whatever is done with it and with the other files
  of the backend: each of its operations, open, read, write, flush, move and the two for its size, gives \<open>EIO\<close> without asking the worker and
  changes nothing, its handle stays accounted for, and the first error of a close stays in the latch that the drain reads.
\<close>

theorem failed_close_quarantines:
  assumes "opfs_start s0" and "opfs_step\<^sup>*\<^sup>* s0 s" and "kind (file_at s i) = FailedAccessClose"
    and "opfs_step\<^sup>*\<^sup>* s s'" and "f = file_at s' i"
  shows "kind f = FailedAccessClose \<and> first_close_error s' = first_close_error s \<and> first_close_error s < 0 \<and>
    live_handles f = live_handles (file_at s i) \<and>
    opfs_open 0 js mode f = (- EIO, f) \<and> opfs_read 0 js f = Some (- EIO, f) \<and> opfs_write 0 js f = Some (- EIO, f) \<and>
    opfs_flush 0 js f = (- EIO, f) \<and> opfs_move_to 0 js d n f = (- EIO, f) \<and>
    opfs_get_size 0 js f = (- EIO, f) \<and> opfs_set_size 0 js f = (- EIO, f)"
proof -
  have inv: "opfs_inv s" by (rule opfs_reachable_inv [OF assms(1,2)])
  have neg: "first_close_error s < 0" using inv assms(3) by (auto simp: opfs_inv_def)
  have closed: "open_count (file_at s i) = 0"
    using inv assms(3) by (auto simp: opfs_inv_def opfs_file_inv_def dest!: spec [of _ i])
  have "opfs_inv s' \<and> kind (file_at s' i) = FailedAccessClose \<and> first_close_error s' = first_close_error s \<and>
      open_count (file_at s' i) = 0 \<and> live_handles (file_at s' i) = live_handles (file_at s i)"
    using assms(4)
  proof (induction rule: rtranclp_induct)
    case base
    then show ?case using inv assms(3) closed by blast
  next
    case (step t t')
    have t': "opfs_inv t'" using opfs_step_inv step(2,3) by blast
    from step(2) show ?case
    proof cases
      case (on_file j c g)
      have "opfs_file_inv (file_at t j)" using step(3) by (simp add: opfs_inv_def)
      then have "c = first_close_error t" using file_step_inv(3) [OF on_file(2)] step(3) neg by simp
      moreover have "g = file_at t i \<or> g = (file_at t i)\<lparr>attached := False\<rparr>" if "j = i"
        using quarantine_step on_file(2) step(3) that by blast
      ultimately show ?thesis using step(3) t' by (auto simp: on_file(1))
    qed
  qed
  then show ?thesis using neg assms(5)
    by (simp add: opfs_open_def opfs_write_def opfs_flush_def opfs_move_to_def opfs_read_def opfs_get_size_def opfs_set_size_def)
qed

text \<open>
  A lease name is valid exactly if it has 1 to 128 characters, all letters, digits, dots, dashes or underscores.
\<close>

theorem lease_name_valid:
  "is_valid_profile_lease_name (Some cs) \<longleftrightarrow>
     cs \<noteq> [] \<and> length cs \<le> 128 \<and> list_all lease_name_char cs"
proof -
  have "lease_name_loop i cs \<longleftrightarrow> (i \<noteq> 0 \<or> cs \<noteq> []) \<and> i + length cs \<le> 128 \<and> list_all lease_name_char cs" if "i \<le> 128" for i
    using that by (induction cs arbitrary: i) (auto simp: kMaxProfileLeaseNameLength_def)
  then show ?thesis by (simp add: is_valid_profile_lease_name_def)
qed


section \<open>Examples\<close>

text \<open>A file is opened for writing, and closing its access handle fails.\<close>

definition demo_answers :: opfs_answers where
  "demo_answers = \<lparr>js_acquire_file = 4, js_open_access = 7, js_open_blob = 8, js_close_access = - EIO, js_move_file = 0,
     js_get_size = 0, js_set_size = 0, js_read = 0, js_write = 0, js_flush = 0\<rparr>"

definition demo_opened :: opfs_file where
  "demo_opened = (new_opfs_file 1 ''a'')\<lparr>file_id := 4, kind := Access, handle_id := 7, open_count := 1,
     live_files := [4], live_handles := [Access_handle 7]\<rparr>"

definition demo_poisoned :: opfs_file where
  "demo_poisoned = demo_opened\<lparr>kind := FailedAccessClose, open_count := 0\<rparr>"

text \<open>A backend whose files are all new, but for file 3, which is \<open>f\<close>; \<open>c\<close> is the latch.\<close>

definition demo_system :: "int \<Rightarrow> opfs_file \<Rightarrow> opfs_system" where
  "demo_system c f = \<lparr>first_close_error = c, file_at = (\<lambda>_. new_opfs_file 1 ''a'')(3 := f)\<rparr>"

lemma demo_opfs_step: "file_step c f c' f' \<Longrightarrow> opfs_step (demo_system c f) (demo_system c' f')"
  using on_file [of "demo_system c f" 3 c' f'] by (simp add: demo_system_def)

lemma demo_start: "opfs_start (demo_system 0 (new_opfs_file 1 ''a''))"
  by (auto simp: opfs_start_def demo_system_def)

lemma demo_opfs_steps:
  "opfs_step\<^sup>*\<^sup>* (demo_system 0 (new_opfs_file 1 ''a'')) (demo_system 0 demo_opened)"
  "opfs_step\<^sup>*\<^sup>* (demo_system 0 (new_opfs_file 1 ''a'')) (demo_system (- EIO) demo_poisoned)"
proof -
  have "opfs_open 0 demo_answers Write_only (new_opfs_file 1 ''a'') = (0, demo_opened)"
    by (simp add: opfs_defs new_opfs_file_def demo_opened_def demo_answers_def Let_def)
  then have o: "opfs_step (demo_system 0 (new_opfs_file 1 ''a'')) (demo_system 0 demo_opened)"
    by (intro demo_opfs_step file_step.intros(1))
  then show "opfs_step\<^sup>*\<^sup>* (demo_system 0 (new_opfs_file 1 ''a'')) (demo_system 0 demo_opened)" by blast
  have "opfs_close 0 demo_answers 0 demo_opened = Some (- EIO, - EIO, demo_poisoned)"
    by (simp add: opfs_defs new_opfs_file_def demo_opened_def demo_poisoned_def demo_answers_def Let_def)
  then have "file_step 0 demo_opened (- EIO) demo_poisoned"
    by (rule file_step.intros(2) [rotated]) (simp add: demo_opened_def)
  then have "opfs_step (demo_system 0 demo_opened) (demo_system (- EIO) demo_poisoned)" by (rule demo_opfs_step)
  then show "opfs_step\<^sup>*\<^sup>* (demo_system 0 (new_opfs_file 1 ''a'')) (demo_system (- EIO) demo_poisoned)"
    using o by (meson converse_rtranclp_into_rtranclp rtranclp.rtrancl_refl)
qed

theorem opfs_handles_accounted_witness:
  "live_handles demo_opened = [Access_handle 7] \<and> live_files demo_opened = [4]"
proof -
  have "demo_opened = file_at (demo_system 0 demo_opened) 3" by (simp add: demo_system_def)
  from opfs_handles_accounted [OF demo_start demo_opfs_steps(1) this]
  show ?thesis by (simp add: demo_opened_def handles_of_def)
qed

theorem failed_close_quarantines_witness:
  "opfs_open 0 demo_answers Read_only demo_poisoned = (- EIO, demo_poisoned) \<and>
   opfs_read 0 demo_answers demo_poisoned = Some (- EIO, demo_poisoned)"
proof -
  have p: "kind (file_at (demo_system (- EIO) demo_poisoned) 3) = FailedAccessClose"
    "demo_poisoned = file_at (demo_system (- EIO) demo_poisoned) 3"
    by (simp_all add: demo_system_def demo_poisoned_def)
  from failed_close_quarantines [OF demo_start demo_opfs_steps(2) p(1) rtranclp.rtrancl_refl p(2), where js = demo_answers and mode = Read_only]
  show ?thesis by simp
qed

end
