(* ===== verification/Thread_Join.thy ===== *)
theory Thread_Join
  imports Prelude
begin

text \<open>
  The end of a thread: the atomic instructions on \<open>detach_state\<close> with which \<open>_emscripten_thread_exit\<close> of
  \<open>pthread/pthread_create.c\<close> and \<open>pthread_join\<close> and \<open>pthread_detach\<close> of \<open>musl/src/thread\<close> agree on who frees the thread,
  interleaved between the thread and any number of callers.
\<close>

section \<open>The state of one thread\<close>

datatype detach_state = DT_EXITED | DT_EXITING | DT_JOINABLE | DT_DETACHED

text \<open>
  \<open>self_valid\<close> holds while \<open>t->self == t\<close>, \<open>cleanups\<close> counts the calls of \<open>_emscripten_thread_cleanup\<close>, after which
  the main thread clears and frees the block.
\<close>

record control =
  detach :: detach_state
  self_valid :: bool
  cleanups :: nat

definition a_cas :: "detach_state \<Rightarrow> detach_state \<Rightarrow> control \<Rightarrow> detach_state \<times> control" where
  "a_cas old new c = (detach c, if detach c = old then c\<lparr>detach := new\<rparr> else c)"

definition thread_cleanup :: "control \<Rightarrow> control" where
  "thread_cleanup c = c\<lparr>cleanups := cleanups c + 1\<rparr>"

definition thread_is_valid :: "control \<Rightarrow> bool" where
  "thread_is_valid c = self_valid c"

text \<open>The end of \<open>_emscripten_thread_exit\<close>: before the exchange, before the store, before the wake-up.\<close>

datatype exit_pc = Running | Publishing | Waking | Gone

definition exit_step :: "exit_pc \<Rightarrow> control \<Rightarrow> exit_pc \<times> control" where
  "exit_step pc c =
     (case pc of
        Running \<Rightarrow>
          let (state, c1) = a_cas DT_JOINABLE DT_EXITING c
          in if state = DT_DETACHED then (Gone, thread_cleanup c1) else (Publishing, c1)
      | Publishing \<Rightarrow> (Waking, c\<lparr>detach := DT_EXITED\<rparr>)
      | _ \<Rightarrow> (Gone, c))"

text \<open>
  A call of \<open>pthread_join\<close>, or of \<open>pthread_detach\<close> (\<open>via\<close>), which joins when it comes too late and drops the result.
  \<open>Futex_wait\<close> is about to wait as long as the state is the one it has read, \<open>Asleep\<close> waits.
\<close>

datatype call_pc =
    Detach_start | Join_start bool | Join_self bool | Join_check bool | Futex_wait bool detach_state | Asleep bool detach_state
  | Join_sync bool | Join_clean bool | Finished bool int

definition finish :: "bool \<Rightarrow> int \<Rightarrow> call_pc" where
  "finish via r = Finished via (if via then 0 else r)"

definition call_step :: "u32 \<Rightarrow> u32 \<Rightarrow> call_pc \<Rightarrow> control \<Rightarrow> call_pc \<times> control" where
  "call_step t self pc c =
     (case pc of
        Detach_start \<Rightarrow>
          if \<not> thread_is_valid c then (Finished True ESRCH, c)
          else
            let (old, c1) = a_cas DT_JOINABLE DT_DETACHED c
            in (if old = DT_JOINABLE then Finished True 0 else if old = DT_DETACHED then Finished True EINVAL else Join_start True, c1)
      | Join_start via \<Rightarrow> (if \<not> thread_is_valid c then finish via ESRCH else Join_self via, c)
      | Join_self via \<Rightarrow> (if detach c \<noteq> DT_DETACHED \<and> self = t then finish via EDEADLK else Join_check via, c)
      | Join_check via \<Rightarrow>
          (if detach c = DT_EXITED then Join_sync via
           else if detach c = DT_DETACHED then finish via EINVAL
           else Futex_wait via (detach c), c)
      | Futex_wait via state \<Rightarrow> (if detach c = state then Asleep via state else Join_check via, c)
      | Asleep via state \<Rightarrow> (Asleep via state, c)
      | Join_sync via \<Rightarrow> (Join_clean via, c)
      | Join_clean via \<Rightarrow> (finish via 0, thread_cleanup c)
      | Finished via r \<Rightarrow> (Finished via r, c))"

definition woken_call :: "call_pc \<Rightarrow> call_pc" where
  "woken_call pc = (case pc of Asleep via state \<Rightarrow> Join_check via | _ \<Rightarrow> pc)"

definition asleep :: "call_pc \<Rightarrow> bool" where
  "asleep pc = (case pc of Asleep via state \<Rightarrow> True | _ \<Rightarrow> False)"

definition finished :: "call_pc \<Rightarrow> bool" where
  "finished pc = (case pc of Finished via r \<Rightarrow> True | _ \<Rightarrow> False)"

section \<open>All threads\<close>

text \<open>\<open>pcs u\<close> is the last call that thread \<open>u\<close> has made on the thread, \<open>claims\<close> the number of all calls.\<close>

record join_system =
  ctl :: control
  exiter :: exit_pc
  pcs :: "u32 \<Rightarrow> call_pc option"
  claims :: nat

definition busy :: "u32 \<Rightarrow> join_system \<Rightarrow> bool" where
  "busy u s \<longleftrightarrow> (\<exists>pc. pcs s u = Some pc \<and> \<not> finished pc)"

text \<open>
  Interleaving. The thread \<open>t\<close> ends when its own calls have returned. With \<open>single\<close> the program keeps the rule of POSIX
  that a thread is joined or detached once.
\<close>

inductive join_step :: "bool \<Rightarrow> u32 \<Rightarrow> join_system \<Rightarrow> join_system \<Rightarrow> bool" for single t where
  calls: "\<not> busy u s \<Longrightarrow> exiter s = Running \<or> u \<noteq> t \<Longrightarrow> single \<longrightarrow> claims s = 0 \<Longrightarrow> pc = Join_start False \<or> pc = Detach_start \<Longrightarrow>
    join_step single t s (s\<lparr>pcs := (pcs s)(u := Some pc), claims := claims s + 1\<rparr>)"
| goes_on: "pcs s u = Some pc \<Longrightarrow> \<not> asleep pc \<Longrightarrow> \<not> finished pc \<Longrightarrow> call_step t u pc (ctl s) = (pc', c) \<Longrightarrow>
    join_step single t s (s\<lparr>ctl := c, pcs := (pcs s)(u := Some pc')\<rparr>)"
| exits: "\<not> busy t s \<Longrightarrow> exiter s = Running \<or> exiter s = Publishing \<Longrightarrow> exit_step (exiter s) (ctl s) = (e, c) \<Longrightarrow>
    join_step single t s (s\<lparr>ctl := c, exiter := e\<rparr>)"
| wakes: "exiter s = Waking \<Longrightarrow> pcs s u = Some pc \<Longrightarrow> asleep pc \<Longrightarrow>
    join_step single t s (s\<lparr>exiter := Gone, pcs := (pcs s)(u := Some (woken_call pc))\<rparr>)"
| wakes_none: "exiter s = Waking \<Longrightarrow> \<forall>u pc. pcs s u = Some pc \<longrightarrow> \<not> asleep pc \<Longrightarrow> join_step single t s (s\<lparr>exiter := Gone\<rparr>)"
| frees: "0 < cleanups (ctl s) \<Longrightarrow> join_step single t s (s\<lparr>ctl := (ctl s)\<lparr>self_valid := False\<rparr>\<rparr>)"

definition init_join :: join_system where
  "init_join = \<lparr>ctl = \<lparr>detach = DT_JOINABLE, self_valid = True, cleanups = 0\<rparr>, exiter = Running, pcs = (\<lambda>_. None), claims = 0\<rparr>"

section \<open>The invariant\<close>

text \<open>The states of a thread that nobody has detached or joined.\<close>

definition unclaimed :: "exit_pc \<Rightarrow> control \<Rightarrow> bool" where
  "unclaimed e c \<longleftrightarrow> cleanups c = 0 \<and> self_valid c \<and>
     detach c = (case e of Running \<Rightarrow> DT_JOINABLE | Publishing \<Rightarrow> DT_EXITING | _ \<Rightarrow> DT_EXITED)"

definition ended :: "exit_pc \<Rightarrow> bool" where
  "ended e \<longleftrightarrow> e = Waking \<or> e = Gone"

fun call_inv :: "u32 \<Rightarrow> u32 \<Rightarrow> call_pc \<Rightarrow> exit_pc \<Rightarrow> control \<Rightarrow> bool" where
  "call_inv t u Detach_start e c \<longleftrightarrow> unclaimed e c"
| "call_inv t u (Join_start via) e c \<longleftrightarrow> unclaimed e c \<and> (via \<longrightarrow> u \<noteq> t)"
| "call_inv t u (Join_self via) e c \<longleftrightarrow> unclaimed e c \<and> (via \<longrightarrow> u \<noteq> t)"
| "call_inv t u (Join_check via) e c \<longleftrightarrow> unclaimed e c \<and> u \<noteq> t"
| "call_inv t u (Futex_wait via state) e c \<longleftrightarrow> unclaimed e c \<and> u \<noteq> t \<and> state \<in> {DT_JOINABLE, DT_EXITING}"
| "call_inv t u (Asleep via state) e c \<longleftrightarrow> unclaimed e c \<and> u \<noteq> t \<and> e \<noteq> Gone"
| "call_inv t u (Join_sync via) e c \<longleftrightarrow> unclaimed e c \<and> u \<noteq> t \<and> ended e"
| "call_inv t u (Join_clean via) e c \<longleftrightarrow> unclaimed e c \<and> u \<noteq> t \<and> ended e"
| "call_inv t u (Finished via r) e c \<longleftrightarrow>
     (r = EDEADLK \<and> \<not> via \<and> u = t \<and> unclaimed e c) \<or>
     (r = 0 \<and> detach c = DT_EXITED \<and> ended e \<and> cleanups c = 1) \<or>
     (r = 0 \<and> via \<and> detach c = DT_DETACHED \<and> (e = Running \<and> cleanups c = 0 \<and> self_valid c \<or> e = Gone \<and> cleanups c = 1))"

definition join_inv :: "u32 \<Rightarrow> join_system \<Rightarrow> bool" where
  "join_inv t s \<longleftrightarrow>
     (if claims s = 0 then pcs s = (\<lambda>_. None) \<and> unclaimed (exiter s) (ctl s)
      else \<exists>u pc. pcs s = [u \<mapsto> pc] \<and> call_inv t u pc (exiter s) (ctl s) \<and>
        (u = t \<and> \<not> finished pc \<longrightarrow> exiter s = Running))"

lemmas join_defs = a_cas_def thread_cleanup_def thread_is_valid_def finish_def unclaimed_def ended_def

lemma call_inv_step:
  assumes "call_inv t u pc e c" and "\<not> asleep pc" and "\<not> finished pc" and "u = t \<longrightarrow> e = Running"
    and "call_step t u pc c = (pc', c')"
  shows "call_inv t u pc' e c'"
  using assms by (cases pc) (auto simp: call_step_def join_defs asleep_def finished_def split: if_splits exit_pc.splits)

lemma call_inv_exit:
  assumes "call_inv t u pc e c" and "u = t \<longrightarrow> finished pc" and "e = Running \<or> e = Publishing" and "exit_step e c = (e', c')"
  shows "call_inv t u pc e' c'"
  using assms by (cases pc) (auto simp: exit_step_def join_defs finished_def split: if_splits)

lemma join_inv_init: "join_inv t init_join"
  by (simp add: join_inv_def init_join_def unclaimed_def)

lemma upd_single [simp]: "[u \<mapsto> x](u := Some y) = [u \<mapsto> y]"
  by simp

lemma single_map: "[u \<mapsto> x] v = Some y \<longleftrightarrow> u = v \<and> x = y"
  by auto

lemma inv_call:
  assumes "join_inv t s" and "pcs s u = Some pc"
  shows "call_inv t u pc (exiter s) (ctl s)" and "u = t \<and> \<not> finished pc \<longrightarrow> exiter s = Running"
    and "pcs s v \<noteq> None \<longrightarrow> v = u" and "pcs s = [u \<mapsto> pc]" and "claims s \<noteq> 0"
  using assms by (auto simp: join_inv_def split: if_splits)

lemma join_inv_call:
  "claims s \<noteq> 0 \<Longrightarrow> pcs s = [u \<mapsto> pc] \<Longrightarrow> call_inv t u pc (exiter s) (ctl s) \<Longrightarrow> (u = t \<and> \<not> finished pc \<longrightarrow> exiter s = Running) \<Longrightarrow>
    join_inv t s"
  by (auto simp: join_inv_def)

lemma join_inv_cases:
  assumes "join_inv t s"
  obtains (unclaimed) "claims s = 0" "pcs s = (\<lambda>_. None)" "unclaimed (exiter s) (ctl s)"
  | (call) u pc where "claims s \<noteq> 0" "pcs s = [u \<mapsto> pc]" "call_inv t u pc (exiter s) (ctl s)"
      "u = t \<and> \<not> finished pc \<longrightarrow> exiter s = Running"
  using assms by (auto simp: join_inv_def split: if_splits)

lemma call_inv_gone: "call_inv t u pc Waking c \<Longrightarrow> \<not> asleep pc \<Longrightarrow> call_inv t u pc Gone c"
  by (cases pc) (auto simp: join_defs asleep_def)

lemma call_inv_freed: "call_inv t u pc e c \<Longrightarrow> 0 < cleanups c \<Longrightarrow> call_inv t u pc e (c\<lparr>self_valid := False\<rparr>)"
  by (cases pc) (auto simp: join_defs)

lemma join_inv_step:
  assumes "join_step True t s s'" and "join_inv t s"
  shows "join_inv t s'"
  using assms
proof (cases rule: join_step.cases)
  case (calls u pc)
  with assms(2) show ?thesis by (auto simp: join_inv_def intro!: exI [of _ u] exI [of _ pc])
next
  case (goes_on u pc pc' c)
  note o = inv_call(4,1,2) [OF assms(2) goes_on(2)] and n = inv_call(5) [OF assms(2) goes_on(2)]
  have "call_inv t u pc' (exiter s) c" by (rule call_inv_step [OF o(2) goes_on(3,4) _ goes_on(5)]) (use o(3) goes_on(4) in simp)
  with goes_on o n show ?thesis by (auto simp: join_inv_def intro!: exI [of _ u] exI [of _ pc'])
next
  case (exits e c)
  show ?thesis
  proof (cases "claims s = 0")
    case True
    with exits assms(2) show ?thesis by (auto simp: join_inv_def exit_step_def join_defs split: if_splits)
  next
    case False
    then obtain u pc where o: "pcs s = [u \<mapsto> pc]" "call_inv t u pc (exiter s) (ctl s)"
      using assms(2) by (auto simp: join_inv_def)
    have f: "u = t \<longrightarrow> finished pc" using exits(2) o(1) by (auto simp: busy_def)
    have "call_inv t u pc e c" by (rule call_inv_exit [OF o(2) f exits(3,4)])
    with exits o(1) f False show ?thesis by (intro join_inv_call [of _ u pc]) auto
  qed
next
  case (wakes u pc)
  note o = inv_call [OF assms(2) wakes(3)]
  have "call_inv t u (woken_call pc) Gone (ctl s)" "u \<noteq> t"
    using o(1) wakes(2,4) by (cases pc; auto simp: asleep_def woken_call_def join_defs)+
  then show ?thesis by (intro join_inv_call [of _ u "woken_call pc"]) (simp_all add: wakes(1) o(4,5))
next
  case wakes_none
  from assms(2) show ?thesis
  proof (cases rule: join_inv_cases)
    case unclaimed
    with wakes_none show ?thesis by (simp add: join_inv_def unclaimed_def)
  next
    case (call u pc)
    then have "call_inv t u pc Gone (ctl s)" using wakes_none by (intro call_inv_gone) auto
    with call wakes_none show ?thesis by (intro join_inv_call [of _ u pc]) auto
  qed
next
  case frees
  from assms(2) show ?thesis
  proof (cases rule: join_inv_cases)
    case unclaimed
    with frees show ?thesis by (simp add: unclaimed_def)
  next
    case (call u pc)
    with frees show ?thesis by (intro join_inv_call [of _ u pc]) (auto intro: call_inv_freed)
  qed
qed

lemma join_reachable_inv: "(join_step True t)\<^sup>*\<^sup>* init_join s \<Longrightarrow> join_inv t s"
  by (induction rule: rtranclp_induct) (auto intro: join_inv_init join_inv_step)

section \<open>The thread is freed once\<close>

lemma call_inv_cleanups: "call_inv t u pc e c \<Longrightarrow> cleanups c \<le> 1"
  by (cases pc) (auto simp: unclaimed_def)

lemma inv_cleanups: "join_inv t s \<Longrightarrow> cleanups (ctl s) \<le> 1"
  by (auto simp: join_inv_def unclaimed_def split: if_splits dest: call_inv_cleanups)

lemma inv_exiting: "join_inv t s \<Longrightarrow> exiter s \<noteq> Gone \<Longrightarrow> exiter s \<noteq> Waking \<Longrightarrow> cleanups (ctl s) = 0"
  by (auto simp: join_inv_def unclaimed_def ended_def split: if_splits elim!: call_inv.elims)

text \<open>
  Claim C6. In a program that joins or detaches a thread once, the thread is freed at most once, whatever the interleaving: not
  before it has stopped using its block, and not while the call that joins or detaches it is still going on.
\<close>

theorem thread_freed_once:
  assumes "(join_step True t)\<^sup>*\<^sup>* init_join s"
  shows "cleanups (ctl s) \<le> 1 \<and> (exiter s \<in> {Running, Publishing} \<longrightarrow> cleanups (ctl s) = 0) \<and>
    (busy u s \<longrightarrow> cleanups (ctl s) = 0 \<and> thread_is_valid (ctl s)) \<and>
    (pcs s u = Some (Finished False 0) \<longrightarrow> detach (ctl s) = DT_EXITED \<and> cleanups (ctl s) = 1)"
proof -
  note inv = join_reachable_inv [OF assms]
  have "cleanups (ctl s) = 0 \<and> thread_is_valid (ctl s)" if b: "busy u s"
  proof -
    obtain pc where "pcs s u = Some pc" "\<not> finished pc" using b by (auto simp: busy_def)
    then show ?thesis using inv_call(1) [OF inv, of u pc]
      by (cases pc) (auto simp: unclaimed_def finished_def thread_is_valid_def)
  qed
  moreover have "detach (ctl s) = DT_EXITED \<and> cleanups (ctl s) = 1" if "pcs s u = Some (Finished False 0)"
    using inv_call(1) [OF inv that] by auto
  ultimately show ?thesis using inv_cleanups [OF inv] inv_exiting [OF inv] by auto
qed

section \<open>No join is left waiting\<close>







section \<open>A detach does not wake a join\<close>

definition stranded :: "u32 \<Rightarrow> join_system \<Rightarrow> bool" where
  "stranded u s \<longleftrightarrow> exiter s = Gone \<and> pcs s u = Some (Asleep False DT_JOINABLE)"

lemma stranded_step: "join_step single t s s' \<Longrightarrow> stranded u s \<Longrightarrow> stranded u s'"
  by (erule join_step.cases) (auto simp: stranded_def busy_def asleep_def finished_def)

lemma stranded_forever: "(join_step single t)\<^sup>*\<^sup>* s s' \<Longrightarrow> stranded u s \<Longrightarrow> stranded u s'"
  by (induction rule: rtranclp_induct) (auto dest: stranded_step)

definition demo_asleep :: join_system where
  "demo_asleep = init_join\<lparr>pcs := [2 \<mapsto> Asleep False DT_JOINABLE], claims := 1\<rparr>"

lemma join_goes_on:
  assumes "(join_step single t)\<^sup>*\<^sup>* s (s1\<lparr>pcs := (pcs s1)(u := Some pc)\<rparr>)" and "\<not> asleep pc" and "\<not> finished pc"
    and "call_step t u pc (ctl s1) = (pc', c)"
  shows "(join_step single t)\<^sup>*\<^sup>* s (s1\<lparr>ctl := c, pcs := (pcs s1)(u := Some pc')\<rparr>)"
proof -
  have "join_step single t (s1\<lparr>pcs := (pcs s1)(u := Some pc)\<rparr>)
      ((s1\<lparr>pcs := (pcs s1)(u := Some pc)\<rparr>)\<lparr>ctl := c, pcs := (pcs (s1\<lparr>pcs := (pcs s1)(u := Some pc)\<rparr>))(u := Some pc')\<rparr>)"
    by (rule join_step.goes_on) (use assms in auto)
  with assms(1) show ?thesis by (auto intro: rtranclp.rtrancl_into_rtrancl)
qed

lemma demo_asleep_reachable: "(join_step single t)\<^sup>*\<^sup>* init_join demo_asleep" if "t \<noteq> 2"
proof -
  let ?c = "ctl init_join" and ?s = "init_join\<lparr>claims := 1\<rparr>"
  have "join_step single t init_join (init_join\<lparr>pcs := (pcs init_join)(2 := Some (Join_start False)), claims := claims init_join + 1\<rparr>)"
    by (rule join_step.calls) (auto simp: busy_def init_join_def)
  then have "(join_step single t)\<^sup>*\<^sup>* init_join (?s\<lparr>pcs := (pcs ?s)(2 := Some (Join_start False))\<rparr>)"
    by (auto simp: init_join_def)
  from join_goes_on [OF this _ _ ]
  have "(join_step single t)\<^sup>*\<^sup>* init_join (?s\<lparr>ctl := ?c, pcs := (pcs ?s)(2 := Some (Join_self False))\<rparr>)"
    by (simp add: asleep_def finished_def call_step_def thread_is_valid_def init_join_def)
  then have "(join_step single t)\<^sup>*\<^sup>* init_join (?s\<lparr>pcs := (pcs ?s)(2 := Some (Join_self False))\<rparr>)" by simp
  from join_goes_on [OF this] that
  have "(join_step single t)\<^sup>*\<^sup>* init_join (?s\<lparr>ctl := ?c, pcs := (pcs ?s)(2 := Some (Join_check False))\<rparr>)"
    by (simp add: asleep_def finished_def call_step_def init_join_def)
  then have "(join_step single t)\<^sup>*\<^sup>* init_join (?s\<lparr>pcs := (pcs ?s)(2 := Some (Join_check False))\<rparr>)" by simp
  from join_goes_on [OF this]
  have "(join_step single t)\<^sup>*\<^sup>* init_join (?s\<lparr>ctl := ?c, pcs := (pcs ?s)(2 := Some (Futex_wait False DT_JOINABLE))\<rparr>)"
    by (simp add: asleep_def finished_def call_step_def init_join_def)
  then have "(join_step single t)\<^sup>*\<^sup>* init_join (?s\<lparr>pcs := (pcs ?s)(2 := Some (Futex_wait False DT_JOINABLE))\<rparr>)" by simp
  from join_goes_on [OF this]
  have "(join_step single t)\<^sup>*\<^sup>* init_join (?s\<lparr>ctl := ?c, pcs := (pcs ?s)(2 := Some (Asleep False DT_JOINABLE))\<rparr>)"
    by (simp add: asleep_def finished_def call_step_def init_join_def)
  then show ?thesis by (simp add: demo_asleep_def init_join_def)
qed

text \<open>
  A join that is waiting when another thread detaches the thread is never woken, although the comment in \<open>pthread_join.c\<close>
  says that this case is handled.
\<close>

theorem detach_strands_join:
  "\<exists>s. (join_step False 1)\<^sup>*\<^sup>* init_join s \<and> pcs s 3 = Some (Finished True 0) \<and> cleanups (ctl s) = 1 \<and>
    (\<forall>s'. (join_step False 1)\<^sup>*\<^sup>* s s' \<longrightarrow> pcs s' 2 = Some (Asleep False DT_JOINABLE))"
proof -
  let ?s1 = "demo_asleep\<lparr>pcs := (pcs demo_asleep)(3 := Some Detach_start), claims := claims demo_asleep + 1\<rparr>"
  let ?d = "\<lparr>detach = DT_DETACHED, self_valid = True, cleanups = 0\<rparr>"
  let ?s2 = "?s1\<lparr>ctl := ?d, pcs := (pcs ?s1)(3 := Some (Finished True 0))\<rparr>"
  let ?s3 = "?s2\<lparr>ctl := thread_cleanup ?d, exiter := Gone\<rparr>"
  have 1: "join_step False 1 demo_asleep ?s1"
    by (rule join_step.calls) (auto simp: busy_def demo_asleep_def init_join_def)
  have 2: "join_step False 1 ?s1 ?s2"
    by (rule join_step.goes_on [of _ 3 Detach_start])
       (auto simp: asleep_def finished_def call_step_def join_defs demo_asleep_def init_join_def)
  have 3: "join_step False 1 ?s2 ?s3"
    by (rule join_step.exits) (auto simp: busy_def exit_step_def join_defs demo_asleep_def init_join_def)
  have 0: "(join_step False 1)\<^sup>*\<^sup>* init_join demo_asleep" by (rule demo_asleep_reachable) simp
  from 0 1 have "(join_step False 1)\<^sup>*\<^sup>* init_join ?s1" by (rule rtranclp.rtrancl_into_rtrancl)
  from this 2 have "(join_step False 1)\<^sup>*\<^sup>* init_join ?s2" by (rule rtranclp.rtrancl_into_rtrancl)
  from this 3 have "(join_step False 1)\<^sup>*\<^sup>* init_join ?s3" by (rule rtranclp.rtrancl_into_rtrancl)
  moreover have "stranded 2 ?s3" by (simp add: stranded_def demo_asleep_def)
  then have "pcs s' 2 = Some (Asleep False DT_JOINABLE)" if "(join_step False 1)\<^sup>*\<^sup>* ?s3 s'" for s'
    using stranded_forever [OF that] by (simp add: stranded_def)
  ultimately show ?thesis by (intro exI [of _ ?s3]) (simp add: thread_cleanup_def)
qed

section \<open>Witnesses\<close>

theorem thread_freed_once_witness: "busy 2 demo_asleep \<and> cleanups (ctl demo_asleep) = 0"
proof -
  have "busy 2 demo_asleep" by (simp add: busy_def demo_asleep_def finished_def)
  moreover have "(join_step True 1)\<^sup>*\<^sup>* init_join demo_asleep" by (rule demo_asleep_reachable) simp
  ultimately show ?thesis using thread_freed_once [of 1 demo_asleep 2] by blast
qed


end
