(* ===== verification/Threads.thy ===== *)
theory Threads
  imports Thread_Join "HOL-Library.Monad_Syntax"
begin

text \<open>
  Threads: \<open>pthread/pthread_create.c\<close> with the block of a thread, the ring of all threads, cleanup handlers and the exit of a
  thread, and the thread-specific data of \<open>musl/src/thread/pthread_key_create.c\<close>. Cleanup handlers and destructors
  are a parameter. \<^const>\<open>None\<close> is a wait for another thread or a loop that does not end.
\<close>

section \<open>The block of a thread\<close>

text \<open>What the compiler and the linker decide, and the attributes of a new thread.\<close>

record build =
  sizeof_pthread :: u32
  wasm_tls_size :: u32
  wasm_tls_align :: u32
  pthread_tsd_size :: u32
  default_stacksize :: u32

record thread_attr =
  a_stacksize :: u32
  a_stackaddr :: u32
  a_detach :: bool

definition STACK_ALIGN :: u32 where "STACK_ALIGN = 16"

definition TSD_ALIGN :: u32 where "TSD_ALIGN = 4"

definition ROUND_UP :: "u32 \<Rightarrow> u32 \<Rightarrow> u32" where
  "ROUND_UP x alignment = (x + alignment - 1) AND - alignment"

definition zero_size :: "build \<Rightarrow> u32" where
  "zero_size b =
     (let size = sizeof_pthread b;
          size = (if wasm_tls_size b \<noteq> 0 then size + (wasm_tls_size b + wasm_tls_align b - 1) else size)
      in size + (pthread_tsd_size b + TSD_ALIGN - 1))"

definition stack_bytes :: "build \<Rightarrow> thread_attr \<Rightarrow> u32" where
  "stack_bytes b a = (if a_stacksize a = 0 then default_stacksize b else a_stacksize a)"

definition block_size :: "build \<Rightarrow> thread_attr \<Rightarrow> u32" where
  "block_size b a = (if a_stackaddr a = 0 then zero_size b + (stack_bytes b a + STACK_ALIGN - 1) else zero_size b)"

record layout =
  tls_at :: u32
  tsd_at :: u32
  stack_at :: u32
  end_at :: u32

definition layout_of :: "build \<Rightarrow> thread_attr \<Rightarrow> u32 \<Rightarrow> layout" where
  "layout_of b a block =
     (let offset = block + sizeof_pthread b;
          (tls, offset) = (if wasm_tls_size b \<noteq> 0
            then let offset = ROUND_UP offset (wasm_tls_align b) in (offset, offset + wasm_tls_size b) else (0, offset));
          (tsd, offset) = (if pthread_tsd_size b \<noteq> 0
            then let offset = ROUND_UP offset TSD_ALIGN in (offset, offset + pthread_tsd_size b) else (0, offset));
          (stack, offset) = (if a_stackaddr a \<noteq> 0 then (a_stackaddr a, offset)
            else let offset = ROUND_UP (offset + stack_bytes b a) STACK_ALIGN in (offset, offset))
      in \<lparr>tls_at = tls, tsd_at = tsd, stack_at = stack, end_at = offset\<rparr>)"

section \<open>State\<close>

text \<open>The list of robust mutexes ends in the field \<open>head\<close> of the thread; otherwise it points to the link of a mutex.\<close>

datatype robust_ptr = Robust_null | Robust_head | Robust_mutex u32

record robust_mutex =
  m_lock :: u32
  m_waiters :: int
  m_next :: robust_ptr

record pthread_struct =
  p_self :: u32
  p_prev :: u32
  p_next :: u32
  p_tid :: u32
  p_detach :: detach_state
  p_canceldisable :: bool
  p_cancelasync :: bool
  p_tsd_used :: bool
  p_map_base :: u32
  p_map_size :: u32
  p_stack :: u32
  p_stack_size :: u32
  p_result :: u32
  p_cancelbuf :: u32
  p_tsd :: u32
  p_tls_base :: u32
  p_robust :: robust_ptr

record ptcb =
  cb_f :: u32
  cb_x :: u32
  cb_next :: u32

text \<open>A slot of the table \<open>keys\<close>: null, the sentinel \<open>nodtor\<close>, or a destructor.\<close>

datatype dtor = Null_dtor | Nodtor | Dtor u32

datatype call =
    Mailbox_init u32 | Mailbox_shutdown u32 | Create_js u32 | Handler u32 u32 | Destructor u32 u32 | Wake_mutex u32
  | Exit_program | Clear_thread_state | Thread_cleanup u32 | Wake_joiner u32 | Free_block u32

text \<open>\<open>tsd_data\<close> holds the arrays of values, by their address; \<open>user\<close> is the state of the program itself.\<close>

record world =
  threads :: "u32 \<Rightarrow> pthread_struct"
  tsd_data :: "u32 \<Rightarrow> u32 list"
  ptcbs :: "u32 \<Rightarrow> ptcb"
  mutexes :: "u32 \<Rightarrow> robust_mutex"
  keys :: "dtor list"
  next_key :: nat
  thread_list_lock :: u32
  tl_lock_count :: nat
  threads_minus_1 :: int
  need_locks :: bool
  next_tid :: u32
  calls :: "call list"
  user :: nat

definition log_call :: "call \<Rightarrow> world \<Rightarrow> world" where
  "log_call c w = w\<lparr>calls := calls w @ [c]\<rparr>"

definition upd_thread :: "u32 \<Rightarrow> (pthread_struct \<Rightarrow> pthread_struct) \<Rightarrow> world \<Rightarrow> world" where
  "upd_thread t f w = w\<lparr>threads := (threads w)(t := f (threads w t))\<rparr>"

definition PTHREAD_KEYS_MAX :: nat where "PTHREAD_KEYS_MAX = 128"


text \<open>A block that has been filled with zeros; \<^const>\<open>DT_EXITED\<close> is 0.\<close>

definition zero_pthread :: pthread_struct where
  "zero_pthread = \<lparr>p_self = 0, p_prev = 0, p_next = 0, p_tid = 0, p_detach = DT_EXITED, p_canceldisable = False,
     p_cancelasync = False, p_tsd_used = False, p_map_base = 0, p_map_size = 0, p_stack = 0, p_stack_size = 0, p_result = 0,
     p_cancelbuf = 0, p_tsd = 0, p_tls_base = 0, p_robust = Robust_null\<rparr>"

section \<open>The lock and the ring of threads\<close>

definition tl_lock :: "u32 \<Rightarrow> world \<Rightarrow> world option" where
  "tl_lock self w =
     (let tid = p_tid (threads w self)
      in if thread_list_lock w = tid then Some (w\<lparr>tl_lock_count := tl_lock_count w + 1\<rparr>)
         else if thread_list_lock w = 0 then Some (w\<lparr>thread_list_lock := tid\<rparr>)
         else None)"

definition tl_unlock :: "world \<Rightarrow> world" where
  "tl_unlock w =
     (if tl_lock_count w \<noteq> 0 then w\<lparr>tl_lock_count := tl_lock_count w - 1\<rparr> else w\<lparr>thread_list_lock := 0\<rparr>)"

definition link_after :: "u32 \<Rightarrow> u32 \<Rightarrow> world \<Rightarrow> world" where
  "link_after self new w =
     (let w = upd_thread new (p_next_update (\<lambda>_. p_next (threads w self))) w;
          w = upd_thread new (p_prev_update (\<lambda>_. self)) w;
          w = upd_thread (p_next (threads w new)) (p_prev_update (\<lambda>_. new)) w
      in upd_thread (p_prev (threads w new)) (p_next_update (\<lambda>_. new)) w)"

definition unlink_thread :: "u32 \<Rightarrow> world \<Rightarrow> world" where
  "unlink_thread t w =
     (let w = upd_thread (p_next (threads w t)) (p_prev_update (\<lambda>_. p_prev (threads w t))) w;
          w = upd_thread (p_prev (threads w t)) (p_next_update (\<lambda>_. p_next (threads w t))) w
      in upd_thread t (\<lambda>p. p\<lparr>p_next := t, p_prev := t\<rparr>) w)"

section \<open>Creating a thread\<close>

definition get_next_tid :: "u32 \<Rightarrow> world \<Rightarrow> u32 \<times> world" where
  "get_next_tid pid w =
     (let w = (if next_tid w = 0 then w\<lparr>next_tid := pid + 1\<rparr> else w)
      in (next_tid w, w\<lparr>next_tid := next_tid w + 1\<rparr>))"

definition new_pthread :: "build \<Rightarrow> thread_attr \<Rightarrow> u32 \<Rightarrow> u32 \<Rightarrow> pthread_struct" where
  "new_pthread b a block tid =
     (let l = layout_of b a block
      in zero_pthread\<lparr>p_map_base := block, p_map_size := block_size b a, p_self := block, p_tid := tid, p_robust := Robust_head,
           p_detach := (if a_detach a then DT_DETACHED else DT_JOINABLE), p_stack_size := stack_bytes b a,
           p_tls_base := tls_at l, p_tsd := tsd_at l, p_stack := stack_at l\<rparr>)"

text \<open>From the linking of the new thread on; \<open>rtn\<close> is what \<open>__pthread_create_js\<close> returns.\<close>

definition start_thread :: "u32 \<Rightarrow> int \<Rightarrow> u32 \<Rightarrow> world \<Rightarrow> ((int \<times> u32) \<times> world) option" where
  "start_thread block rtn self w = do {
     w \<leftarrow> tl_lock self w;
     let w = tl_unlock (link_after self block w);
     let w = (if threads_minus_1 w = 0 then w\<lparr>need_locks := True\<rparr> else w);
     let w = log_call (Create_js block) (w\<lparr>threads_minus_1 := threads_minus_1 w + 1\<rparr>);
     if rtn \<noteq> 0 then do {
       let w = w\<lparr>threads_minus_1 := threads_minus_1 w - 1\<rparr>;
       let w = (if threads_minus_1 w = 0 then w\<lparr>need_locks := False\<rparr> else w);
       w \<leftarrow> tl_lock self w;
       Some ((rtn, 0), tl_unlock (unlink_thread block w))
     } else Some ((0, block), w)
   }"

text \<open>
  \<open>block\<close> is what the allocator returns, \<open>pid\<close> the process number. The result is the error and the value stored
  through \<open>res\<close>.
\<close>

definition pthread_create ::
    "build \<Rightarrow> thread_attr \<Rightarrow> u32 \<Rightarrow> u32 \<Rightarrow> int \<Rightarrow> u32 \<Rightarrow> world \<Rightarrow> ((int \<times> u32) \<times> world) option" where
  "pthread_create b a pid block rtn self w =
     (let (tid, w) = get_next_tid pid w;
          new = new_pthread b a block tid;
          w = w\<lparr>threads := (threads w)(block := new),
                tsd_data := (if pthread_tsd_size b \<noteq> 0 then (tsd_data w)(p_tsd new := replicate PTHREAD_KEYS_MAX 0) else tsd_data w)\<rparr>
      in start_thread block rtn self (log_call (Mailbox_init block) w))"

definition thread_free_data :: "u32 \<Rightarrow> world \<Rightarrow> world" where
  "thread_free_data t w =
     (let block = p_map_base (threads w t)
      in log_call (Free_block block) (w\<lparr>threads := (threads w)(block := zero_pthread)\<rparr>))"

section \<open>Cleanup handlers\<close>

definition do_cleanup_push :: "u32 \<Rightarrow> u32 \<Rightarrow> world \<Rightarrow> world" where
  "do_cleanup_push cb self w =
     upd_thread self (p_cancelbuf_update (\<lambda>_. cb))
       (w\<lparr>ptcbs := (ptcbs w)(cb := (ptcbs w cb)\<lparr>cb_next := p_cancelbuf (threads w self)\<rparr>)\<rparr>)"

definition do_cleanup_pop :: "u32 \<Rightarrow> u32 \<Rightarrow> world \<Rightarrow> world" where
  "do_cleanup_pop cb self w = upd_thread self (p_cancelbuf_update (\<lambda>_. cb_next (ptcbs w cb))) w"


section \<open>Thread-specific data\<close>

partial_function (option) key_loop :: "dtor list \<Rightarrow> nat \<Rightarrow> nat \<Rightarrow> nat option option" where
  "key_loop ks first j =
     (if ks ! j = Null_dtor then Some (Some j)
      else
        let j = (j + 1) mod PTHREAD_KEYS_MAX
        in if j \<noteq> first then key_loop ks first j else Some None)"

text \<open>\<open>tsd_main\<close> is the address of \<open>__pthread_tsd_main\<close>. The result is the error and the key.\<close>

definition key_create :: "u32 \<Rightarrow> dtor \<Rightarrow> u32 \<Rightarrow> world \<Rightarrow> ((int \<times> nat) \<times> world) option" where
  "key_create tsd_main dt self w =
     (let w = (if p_tsd (threads w self) = 0 then upd_thread self (p_tsd_update (\<lambda>_. tsd_main)) w else w);
          dt = (if dt = Null_dtor then Nodtor else dt)
      in case key_loop (keys w) (next_key w) (next_key w) of
           None \<Rightarrow> None
         | Some (Some j) \<Rightarrow> Some ((0, j), w\<lparr>next_key := j, keys := (keys w)[j := dt]\<rparr>)
         | Some None \<Rightarrow> Some ((EAGAIN, 0), w))"

definition set_tsd :: "u32 \<Rightarrow> nat \<Rightarrow> u32 \<Rightarrow> world \<Rightarrow> world" where
  "set_tsd t k x w =
     (let a = p_tsd (threads w t) in w\<lparr>tsd_data := (tsd_data w)(a := (tsd_data w a)[k := x])\<rparr>)"

definition getspecific :: "nat \<Rightarrow> u32 \<Rightarrow> world \<Rightarrow> u32" where
  "getspecific k self w = tsd_data w (p_tsd (threads w self)) ! k"


partial_function (option) clear_key :: "nat \<Rightarrow> u32 \<Rightarrow> u32 \<Rightarrow> world \<Rightarrow> world option" where
  "clear_key k self td w =
     (let w = set_tsd td k 0 w;
          td = p_next (threads w td)
      in if td \<noteq> self then clear_key k self td w else Some w)"

definition key_delete :: "nat \<Rightarrow> u32 \<Rightarrow> world \<Rightarrow> world option" where
  "key_delete k self w = do {
     w \<leftarrow> tl_lock self w;
     w \<leftarrow> clear_key k self self w;
     let w = tl_unlock w;
     Some (w\<lparr>keys := (keys w)[k := Null_dtor]\<rparr>)
   }"




section \<open>The exit of a thread\<close>


text \<open>The last part, which races with a join or a detach; here it is one step.\<close>

definition publish_exit :: "u32 \<Rightarrow> world \<Rightarrow> world" where
  "publish_exit self w =
     (let state = p_detach (threads w self);
          w = (if state = DT_JOINABLE then upd_thread self (p_detach_update (\<lambda>_. DT_EXITING)) w else w)
      in if state = DT_DETACHED then log_call (Thread_cleanup self) w
         else log_call (Wake_joiner self) (upd_thread self (p_detach_update (\<lambda>_. DT_EXITED)) w))"


section \<open>The parts of the block\<close>

lemma ROUND_UP_exp: "ROUND_UP x (2 ^ k) = align_up x (2 ^ k)"
  by (simp add: ROUND_UP_def align_up_def minus_eq_not_minus_1 algebra_simps)

lemma ROUND_UP_bounds:
  assumes "unat x + 2 ^ k \<le> 2 ^ 32" and "k < 32"
  shows "unat x \<le> unat (ROUND_UP x (2 ^ k))" and "unat (ROUND_UP x (2 ^ k)) \<le> unat x + (2 ^ k - 1)"
    and "2 ^ k dvd unat (ROUND_UP x (2 ^ k))"
proof -
  define n where "n = unat x + (2 ^ k - 1)"
  have pos: "(0::nat) < 2 ^ k" by simp
  have sum: "unat (x + mask k) = n"
    unfolding n_def using assms(1) pos unat_mask_u32 [OF assms(2)] by (subst unat_add_small) auto
  have u: "unat (ROUND_UP x (2 ^ k)) = n div 2 ^ k * 2 ^ k"
    unfolding ROUND_UP_exp align_up_exp unat_align_down sum by (rule minus_mod_eq_div_mult)
  show "2 ^ k dvd unat (ROUND_UP x (2 ^ k))" unfolding u by simp
  have "n mod 2 ^ k \<le> 2 ^ k - 1" using mod_less_divisor [OF pos, of n] by linarith
  moreover have "n div 2 ^ k * 2 ^ k + n mod 2 ^ k = n" by (rule div_mult_mod_eq)
  ultimately show "unat x \<le> unat (ROUND_UP x (2 ^ k))" "unat (ROUND_UP x (2 ^ k)) \<le> unat x + (2 ^ k - 1)"
    unfolding u n_def by linarith+
qed

definition block_needs :: "build \<Rightarrow> thread_attr \<Rightarrow> nat" where
  "block_needs b a = unat (sizeof_pthread b) + (unat (wasm_tls_size b) + (unat (wasm_tls_align b) - 1)) +
     (unat (pthread_tsd_size b) + 3) + (unat (stack_bytes b a) + 15)"

text \<open>
  Claim C11. The block of a new thread has room for its parts: they follow each other without overlap, aligned, inside
  the block, and the part that is cleared holds everything but the stack.
\<close>

theorem thread_layout_fits:
  assumes "unat block + block_needs b a < 2 ^ 32" and "wasm_tls_align b = 2 ^ k" and "k < 32"
    and "wasm_tls_size b \<noteq> 0" and "pthread_tsd_size b \<noteq> 0" and "a_stackaddr a = 0"
  shows "unat block + unat (sizeof_pthread b) \<le> unat (tls_at (layout_of b a block)) \<and>
    2 ^ k dvd unat (tls_at (layout_of b a block)) \<and>
    unat (tls_at (layout_of b a block)) + unat (wasm_tls_size b) \<le> unat (tsd_at (layout_of b a block)) \<and>
    4 dvd unat (tsd_at (layout_of b a block)) \<and>
    unat (tsd_at (layout_of b a block)) + unat (pthread_tsd_size b) \<le> unat block + unat (zero_size b) \<and>
    unat (tsd_at (layout_of b a block)) + unat (pthread_tsd_size b) + unat (stack_bytes b a) \<le> unat (stack_at (layout_of b a block)) \<and>
    16 dvd unat (stack_at (layout_of b a block)) \<and>
    unat (stack_at (layout_of b a block)) \<le> unat block + unat (block_size b a)"
proof -
  have al: "unat (wasm_tls_align b) = 2 ^ k" using assms(2,3) by (simp add: unat_exp_u32)
  note room = assms(1) [unfolded block_needs_def al]
  define o1 where "o1 = block + sizeof_pthread b"
  define tls where "tls = ROUND_UP o1 (2 ^ k)"
  define o2 where "o2 = tls + wasm_tls_size b"
  define tsd where "tsd = ROUND_UP o2 (2 ^ 2)"
  define o3 where "o3 = tsd + pthread_tsd_size b"
  define o4 where "o4 = o3 + stack_bytes b a"
  define stack where "stack = ROUND_UP o4 (2 ^ 4)"
  have L: "layout_of b a block = \<lparr>tls_at = tls, tsd_at = tsd, stack_at = stack, end_at = stack\<rparr>"
    using assms(2,4-6) by (simp add: layout_of_def Let_def STACK_ALIGN_def TSD_ALIGN_def o1_def tls_def o2_def tsd_def o3_def o4_def stack_def)
  have 1: "unat o1 = unat block + unat (sizeof_pthread b)" unfolding o1_def using room by (intro unat_add_small) linarith
  have k: "(1::nat) \<le> 2 ^ k" by simp
  have "unat o1 + 2 ^ k \<le> 2 ^ 32" using room 1 k by linarith
  note T = ROUND_UP_bounds [OF this assms(3), folded tls_def]
  have 2: "unat o2 = unat tls + unat (wasm_tls_size b)"
    unfolding o2_def using room T(2) 1 k by (intro unat_add_small) linarith
  have "unat o2 + 4 \<le> 2 ^ 32" using room 1 2 T(2) k by linarith
  then have "unat o2 + 2 ^ 2 \<le> 2 ^ 32" by simp
  note D = ROUND_UP_bounds [OF this, folded tsd_def, simplified]
  have 3: "unat o3 = unat tsd + unat (pthread_tsd_size b)"
    unfolding o3_def using room T(2) D(2) 1 2 k by (intro unat_add_small) linarith
  have 4: "unat o4 = unat o3 + unat (stack_bytes b a)"
    unfolding o4_def using room T(2) D(2) 1 2 3 k by (intro unat_add_small) linarith
  have "unat o4 + 16 \<le> 2 ^ 32" using room 1 2 3 4 T(2) D(2) k by linarith
  then have "unat o4 + 2 ^ 4 \<le> 2 ^ 32" by simp
  note S = ROUND_UP_bounds [OF this, folded stack_def, simplified]
  have tls_part: "unat (wasm_tls_size b + wasm_tls_align b - 1) = unat (wasm_tls_size b) + (2 ^ k - 1)"
  proof -
    have a: "unat (wasm_tls_size b + wasm_tls_align b) = unat (wasm_tls_size b) + 2 ^ k"
      using al room k by (subst unat_add_small) linarith+
    then have "1 \<le> unat (wasm_tls_size b + wasm_tls_align b)" using k by linarith
    then have "1 \<le> wasm_tls_size b + wasm_tls_align b" by (simp add: word_le_nat_alt)
    then show ?thesis using a k by (subst unat_sub) simp_all
  qed
  have Z: "unat (zero_size b) = unat (sizeof_pthread b) + (unat (wasm_tls_size b) + (2 ^ k - 1)) + (unat (pthread_tsd_size b) + 3)"
  proof -
    have "unat (pthread_tsd_size b + TSD_ALIGN - 1) = unat (pthread_tsd_size b) + 3"
      using room k unat_add_small [of 3 "pthread_tsd_size b"] by (simp add: TSD_ALIGN_def)
    moreover have "unat (sizeof_pthread b + (wasm_tls_size b + wasm_tls_align b - 1)) =
        unat (sizeof_pthread b) + (unat (wasm_tls_size b) + (2 ^ k - 1))"
      using room k tls_part by (subst unat_add_small) linarith+
    ultimately show ?thesis
      using room k assms(4) by (simp only: zero_size_def Let_def if_True simp_thms not_False_eq_True) (subst unat_add_small; linarith)
  qed
  have B: "unat (block_size b a) = unat (zero_size b) + (unat (stack_bytes b a) + 15)"
  proof -
    have "unat (stack_bytes b a + STACK_ALIGN - 1) = unat (stack_bytes b a) + 15"
      using room k unat_add_small [of 15 "stack_bytes b a"] by (simp add: STACK_ALIGN_def)
    then show ?thesis
      using room k assms(6) Z by (simp only: block_size_def if_True simp_thms) (subst unat_add_small; linarith)
  qed
  show ?thesis
    unfolding L layout.simps using T D S 1 2 3 4 Z B by (intro conjI) linarith+
qed

text \<open>
  The assertion that follows the layout asks for one byte more than the parts need: it fails for a stack size that leaves no
  slack.
\<close>

definition demo_build :: build where
  "demo_build = \<lparr>sizeof_pthread = 180, wasm_tls_size = 1, wasm_tls_align = 1, pthread_tsd_size = 512, default_stacksize = 65536\<rparr>"

lemma end_assertion_too_strict:
  "end_at (layout_of demo_build \<lparr>a_stacksize = 65545, a_stackaddr = 0, a_detach = False\<rparr> 16) =
     16 + block_size demo_build \<lparr>a_stacksize = 65545, a_stackaddr = 0, a_detach = False\<rparr>"
  by (simp add: layout_of_def block_size_def zero_size_def stack_bytes_def demo_build_def ROUND_UP_def STACK_ALIGN_def TSD_ALIGN_def Let_def)

theorem thread_layout_fits_witness:
  "unat (stack_at (layout_of demo_build \<lparr>a_stacksize = 0, a_stackaddr = 0, a_detach = False\<rparr> 16)) \<le>
     16 + unat (block_size demo_build \<lparr>a_stacksize = 0, a_stackaddr = 0, a_detach = False\<rparr>)"
  using thread_layout_fits [of 16 demo_build "\<lparr>a_stacksize = 0, a_stackaddr = 0, a_detach = False\<rparr>" 0]
  by (simp add: block_needs_def demo_build_def stack_bytes_def)

section \<open>The ring of threads\<close>

fun links :: "(u32 \<Rightarrow> pthread_struct) \<Rightarrow> u32 list \<Rightarrow> bool" where
  "links th (x # y # zs) \<longleftrightarrow> p_next (th x) = y \<and> p_prev (th y) = x \<and> links th (y # zs)"
| "links th _ = True"

text \<open>The threads of the program, from one of them on, in the order of their links.\<close>

definition ring :: "world \<Rightarrow> u32 list \<Rightarrow> bool" where
  "ring w ts \<longleftrightarrow> ts \<noteq> [] \<and> distinct ts \<and> links (threads w) (ts @ [hd ts])"

lemma links_append: "links th (xs @ y # ys) \<longleftrightarrow> links th (xs @ [y]) \<and> links th (y # ys)"
  by (induction th xs rule: links.induct) (auto simp: neq_Nil_conv Cons_eq_append_conv split: list.splits)

lemma links_frame:
  assumes "\<And>x. x \<in> set (butlast xs) \<Longrightarrow> p_next (th' x) = p_next (th x)" and "\<And>x. x \<in> set (tl xs) \<Longrightarrow> p_prev (th' x) = p_prev (th x)"
  shows "links th' xs = links th xs"
  using assms by (induction th xs rule: links.induct) auto

lemma ring_rotate: "ring w (x # xs) \<longleftrightarrow> ring w (xs @ [x])"
proof (cases xs)
  case (Cons y ys)
  then show ?thesis
    using links_append [of "threads w" "y # ys" x "[y]"] by (auto simp: ring_def)
qed simp

lemma threads_upd_thread: "threads (upd_thread t f w) = (threads w)(t := f (threads w t))"
  by (simp add: upd_thread_def)

lemma ring_link_after:
  assumes "ring w (self # ts)" and "new \<notin> set (self # ts)"
  shows "ring (link_after self new w) (self # new # ts)"
proof -
  obtain y ys where y: "ts @ [self] = y # ys" by (cases "ts @ [self]") auto
  have d: "distinct (y # ys)" "set (y # ys) = insert self (set ts)" using assms(1) unfolding y [symmetric] by (auto simp: ring_def)
  have l: "p_next (threads w self) = y" "links (threads w) (y # ys)" using assms(1) y by (auto simp: ring_def)
  have b: "butlast (y # ys) = ts" by (simp flip: y)
  let ?th = "threads (link_after self new w)"
  have th: "p_next (?th self) = new" "p_next (?th new) = y" "p_prev (?th new) = self" "p_prev (?th y) = new"
    "\<And>x. x \<noteq> self \<Longrightarrow> x \<noteq> new \<Longrightarrow> p_next (?th x) = p_next (threads w x)"
    "\<And>x. x \<noteq> y \<Longrightarrow> x \<noteq> new \<Longrightarrow> p_prev (?th x) = p_prev (threads w x)"
    using assms d l by (auto simp: link_after_def threads_upd_thread Let_def)
  have "links ?th (y # ys) = links (threads w) (y # ys)"
  proof (rule links_frame)
    show "p_next (?th x) = p_next (threads w x)" if "x \<in> set (butlast (y # ys))" for x
      using that assms unfolding b by (intro th(5)) (auto simp: ring_def)
    show "p_prev (?th x) = p_prev (threads w x)" if "x \<in> set (tl (y # ys))" for x
      using that assms(2) d by (intro th(6)) auto
  qed
  with l th y assms show ?thesis by (auto simp: ring_def)
qed

lemma in_set_tlD: "x \<in> set (tl xs) \<Longrightarrow> x \<in> set xs"
  by (cases xs) auto

lemma ring_unlink:
  assumes "ring w (self # ts)" and "ts \<noteq> []"
  shows "ring (unlink_thread self w) ts"
proof -
  obtain us z where z: "ts = us @ [z]" using assms(2) by (cases ts rule: rev_cases) auto
  define y where "y = hd ts"
  have ne: "tl ts = tl (us @ [z])" "y \<notin> set (tl ts)" "self \<notin> set ts" "distinct ts" "z \<notin> set us" "y \<in> set ts"
    using assms unfolding y_def z by (cases us; auto simp: ring_def)+
  obtain rest where r: "ts = y # rest" using assms(2) y_def by (cases ts) auto
  have l0: "links (threads w) (self # ts @ [self])" using assms(1) by (simp add: ring_def)
  then have "p_next (threads w self) = y" "links (threads w) (ts @ [self])" by (simp_all add: r)
  then have l1: "p_next (threads w self) = y" "links (threads w) (us @ z # [self])" unfolding z by simp_all
  then have l: "links (threads w) (us @ [z])" "p_prev (threads w self) = z" using links_append [of "threads w" us z "[self]"] by auto
  let ?th = "threads (unlink_thread self w)"
  have th: "p_next (?th z) = y" "p_prev (?th y) = z" "\<And>x. x \<noteq> self \<Longrightarrow> x \<noteq> z \<Longrightarrow> p_next (?th x) = p_next (threads w x)"
    "\<And>x. x \<noteq> self \<Longrightarrow> x \<noteq> y \<Longrightarrow> p_prev (?th x) = p_prev (threads w x)"
    using l1(1) l(2) ne z by (auto simp: unlink_thread_def threads_upd_thread Let_def)
  have "links ?th (us @ [z]) = links (threads w) (us @ [z])"
  proof (rule links_frame)
    show "p_next (?th x) = p_next (threads w x)" if "x \<in> set (butlast (us @ [z]))" for x
      using that ne z by (intro th(3)) auto
    show "p_prev (?th x) = p_prev (threads w x)" if "x \<in> set (tl (us @ [z]))" for x
      using that ne z by (intro th(4)) (auto dest: in_set_tlD)
  qed
  then have "links ?th (us @ z # [y])" using l th links_append [of ?th us z "[y]"] by simp
  moreover have "ts @ [hd ts] = us @ z # [y]" by (simp add: y_def) (simp add: z)
  ultimately have "links ?th (ts @ [hd ts])" by (simp only:)
  with assms(2) ne(4) show ?thesis by (simp add: ring_def)
qed

lemmas create_defs = upd_thread_def log_call_def tl_unlock_def

lemma p_tid_links:
  "p_tid (threads (link_after self new w) t) = p_tid (threads w t)" "p_tid (threads (unlink_thread self w) t) = p_tid (threads w t)"
  by (simp_all add: link_after_def unlink_thread_def upd_thread_def Let_def)

lemma link_after_frame [simp]:
  "thread_list_lock (link_after self new w) = thread_list_lock w" "tl_lock_count (link_after self new w) = tl_lock_count w"
  "threads_minus_1 (link_after self new w) = threads_minus_1 w" "calls (link_after self new w) = calls w"
  "need_locks (link_after self new w) = need_locks w" "tsd_data (link_after self new w) = tsd_data w"
  by (simp_all add: link_after_def upd_thread_def Let_def)

lemma unlink_thread_frame [simp]:
  "thread_list_lock (unlink_thread t w) = thread_list_lock w" "tl_lock_count (unlink_thread t w) = tl_lock_count w"
  "threads_minus_1 (unlink_thread t w) = threads_minus_1 w" "calls (unlink_thread t w) = calls w"
  "need_locks (unlink_thread t w) = need_locks w" "tsd_data (unlink_thread t w) = tsd_data w"
  by (simp_all add: unlink_thread_def upd_thread_def Let_def)

lemma ring_frame:
  assumes "\<And>x. x \<in> set ts \<Longrightarrow> p_next (threads w' x) = p_next (threads w x) \<and> p_prev (threads w' x) = p_prev (threads w x)"
  shows "ring w' ts = ring w ts"
proof -
  have "links (threads w') (ts @ [hd ts]) = links (threads w) (ts @ [hd ts])" if "ts \<noteq> []"
    using assms that by (intro links_frame) (auto dest: in_set_tlD)
  then show ?thesis by (auto simp: ring_def)
qed

lemma ring_same_threads: "threads w' = threads w \<Longrightarrow> ring w' ts = ring w ts"
  by (rule ring_frame) simp

lemma link_commutes:
  "link_after s n (w\<lparr>thread_list_lock := l\<rparr>) = (link_after s n w)\<lparr>thread_list_lock := l\<rparr>"
  by (simp add: link_after_def upd_thread_def Let_def)

lemma unlink_commutes:
  "unlink_thread s (w\<lparr>thread_list_lock := l\<rparr>) = (unlink_thread s w)\<lparr>thread_list_lock := l\<rparr>"
  "unlink_thread s (w\<lparr>need_locks := x\<rparr>) = (unlink_thread s w)\<lparr>need_locks := x\<rparr>"
  "unlink_thread s (w\<lparr>threads_minus_1 := n\<rparr>) = (unlink_thread s w)\<lparr>threads_minus_1 := n\<rparr>"
  "unlink_thread s (w\<lparr>calls := cs\<rparr>) = (unlink_thread s w)\<lparr>calls := cs\<rparr>"
  by (simp_all add: unlink_thread_def upd_thread_def Let_def)

lemma ring_commutes:
  "ring (w\<lparr>thread_list_lock := l\<rparr>) ts = ring w ts" "ring (w\<lparr>need_locks := x\<rparr>) ts = ring w ts"
  "ring (w\<lparr>threads_minus_1 := n\<rparr>) ts = ring w ts" "ring (w\<lparr>calls := cs\<rparr>) ts = ring w ts"
  by (simp_all add: ring_def)

text \<open>The new thread, as the caller of \<open>pthread_create\<close> finds it.\<close>

definition created :: "build \<Rightarrow> thread_attr \<Rightarrow> u32 \<Rightarrow> world \<Rightarrow> bool" where
  "created b a t w \<longleftrightarrow> p_self (threads w t) = t \<and> p_map_base (threads w t) = t \<and> p_cancelbuf (threads w t) = 0 \<and>
     p_detach (threads w t) = (if a_detach a then DT_DETACHED else DT_JOINABLE) \<and> \<not> p_tsd_used (threads w t) \<and>
     (pthread_tsd_size b \<noteq> 0 \<longrightarrow> tsd_data w (p_tsd (threads w t)) = replicate PTHREAD_KEYS_MAX 0)"

text \<open>
  Claim C9. Creating a thread puts it into the ring after its creator, joinable or detached as asked and with all
  thread-specific data null. When the worker cannot be started the ring and the counters are as before and no thread is returned; the
  block is not freed.
\<close>

theorem create_links_thread:
  assumes "ring w (self # ts)" and "block \<notin> set (self # ts)" and "thread_list_lock w = 0" and "tl_lock_count w = 0"
    and "p_tid (threads w self) \<noteq> 0"
  shows "\<exists>w'. pthread_create b a pid block rtn self w = Some (if rtn = 0 then (0, block) else (rtn, 0), w') \<and>
    ring w' (if rtn = 0 then self # block # ts else self # ts) \<and> thread_list_lock w' = 0 \<and>
    threads_minus_1 w' = (if rtn = 0 then threads_minus_1 w + 1 else threads_minus_1 w) \<and>
    (rtn = 0 \<longrightarrow> created b a block w') \<and> calls w' = calls w @ [Mailbox_init block, Create_js block]"
proof -
  define w1 where "w1 = log_call (Mailbox_init block) ((snd (get_next_tid pid w))\<lparr>threads := (threads w)(block := new_pthread b a block (fst (get_next_tid pid w))),
    tsd_data := (if pthread_tsd_size b \<noteq> 0
      then (tsd_data w)(p_tsd (new_pthread b a block (fst (get_next_tid pid w))) := replicate PTHREAD_KEYS_MAX 0) else tsd_data w)\<rparr>)"
  have f1: "thread_list_lock w1 = 0" "tl_lock_count w1 = 0" "threads_minus_1 w1 = threads_minus_1 w" "calls w1 = calls w @ [Mailbox_init block]"
    "p_tid (threads w1 self) \<noteq> 0"
    using assms by (auto simp: w1_def log_call_def get_next_tid_def Let_def)
  have r1: "ring w1 (self # ts)"
    using assms(1,2) by (subst ring_frame [where w = w]) (auto simp: w1_def log_call_def)
  define w2 where "w2 = link_after self block w1"
  have r2: "ring w2 (self # block # ts)" unfolding w2_def by (rule ring_link_after [OF r1 assms(2)])
  have lock: "tl_lock self w1 = Some (w1\<lparr>thread_list_lock := p_tid (threads w1 self)\<rparr>)"
    using f1 by (simp add: tl_lock_def)
  have tid: "p_tid (threads w1 self) = p_tid (threads w self)" using assms(2) by (auto simp: w1_def log_call_def get_next_tid_def Let_def)
  have new: "created b a block w2"
    using assms(2) unfolding w2_def created_def link_after_def w1_def
    by (auto simp: upd_thread_def log_call_def new_pthread_def zero_pthread_def Let_def)
  have unl: "ring (unlink_thread block w2) (self # ts)"
  proof -
    have "ring w2 (block # ts @ [self])" using r2 ring_rotate [of w2 self "block # ts"] by simp
    from ring_unlink [OF this] show ?thesis using ring_rotate [of "unlink_thread block w2" self ts] by simp
  qed
  have "pthread_create b a pid block rtn self w = start_thread block rtn self w1"
    unfolding pthread_create_def w1_def by (simp add: Let_def case_prod_beta get_next_tid_def)
  moreover have "threads_minus_1 w2 = threads_minus_1 w" "calls w2 = calls w @ [Mailbox_init block]" "p_tid (threads w2 self) \<noteq> 0"
    "tl_lock_count w2 = 0" "thread_list_lock w2 = 0"
    using f1 by (simp_all add: w2_def p_tid_links)
  ultimately show ?thesis using f1 r2 unl new
    by (simp add: start_thread_def Let_def tl_lock_def tl_unlock_def log_call_def p_tid_links link_commutes unlink_commutes
        ring_commutes created_def flip: w2_def)
qed

section \<open>Keys\<close>

lemma key_loop_finds:
  assumes "length ks = PTHREAD_KEYS_MAX" and "n < PTHREAD_KEYS_MAX" and "first < PTHREAD_KEYS_MAX"
    and "\<forall>i<n. ks ! ((first + i) mod PTHREAD_KEYS_MAX) \<noteq> Null_dtor"
  shows "\<exists>r. key_loop ks first ((first + n) mod PTHREAD_KEYS_MAX) = Some r \<and>
    (case r of Some j \<Rightarrow> j < PTHREAD_KEYS_MAX \<and> ks ! j = Null_dtor
     | None \<Rightarrow> \<forall>i<PTHREAD_KEYS_MAX. ks ! ((first + i) mod PTHREAD_KEYS_MAX) \<noteq> Null_dtor)"
  using assms(2,4)
proof (induction "PTHREAD_KEYS_MAX - n" arbitrary: n)
  case 0
  then show ?case by simp
next
  case (Suc d)
  let ?j = "(first + n) mod PTHREAD_KEYS_MAX"
  have pos: "0 < PTHREAD_KEYS_MAX" by (simp add: PTHREAD_KEYS_MAX_def)
  show ?case
  proof (cases "ks ! ?j = Null_dtor")
    case True
    then show ?thesis by (subst key_loop.simps) (simp add: pos)
  next
    case False
    have next_j: "(?j + 1) mod PTHREAD_KEYS_MAX = (first + Suc n) mod PTHREAD_KEYS_MAX" by (simp add: mod_Suc_eq)
    have all: "\<forall>i<Suc n. ks ! ((first + i) mod PTHREAD_KEYS_MAX) \<noteq> Null_dtor" using Suc.prems(2) False by (auto simp: less_Suc_eq)
    show ?thesis
    proof (cases "Suc n = PTHREAD_KEYS_MAX")
      case True
      then have "(first + Suc n) mod PTHREAD_KEYS_MAX = first" using assms(3) by simp
      with False next_j all True show ?thesis by (subst key_loop.simps) (simp add: Let_def)
    next
      case ne: False
      then have lt: "Suc n < PTHREAD_KEYS_MAX" using Suc.prems(1) by simp
      have "(first + Suc n) mod PTHREAD_KEYS_MAX \<noteq> first"
      proof (cases "first + Suc n < PTHREAD_KEYS_MAX")
        case False
        then have "(first + Suc n) mod PTHREAD_KEYS_MAX = first + Suc n - PTHREAD_KEYS_MAX"
          using lt assms(3) by (simp add: le_mod_geq)
        with lt False show ?thesis by simp
      qed simp
      then have "key_loop ks first ?j = key_loop ks first ((first + Suc n) mod PTHREAD_KEYS_MAX)"
        using False next_j by (subst key_loop.simps) (simp add: Let_def)
      with Suc.hyps(1) [of "Suc n"] Suc.hyps(2) lt all show ?thesis by simp
    qed
  qed
qed

text \<open>
  The table of keys and the arrays of the threads in the ring. A slot that is free is null in every thread.
\<close>

definition key_inv :: "world \<Rightarrow> u32 list \<Rightarrow> bool" where
  "key_inv w ts \<longleftrightarrow> ring w ts \<and> length (keys w) = PTHREAD_KEYS_MAX \<and> next_key w < PTHREAD_KEYS_MAX \<and>
     inj_on (\<lambda>t. p_tsd (threads w t)) (set ts) \<and>
     (\<forall>t\<in>set ts. p_tsd (threads w t) \<noteq> 0 \<and> length (tsd_data w (p_tsd (threads w t))) = PTHREAD_KEYS_MAX \<and>
       (\<forall>k<PTHREAD_KEYS_MAX. keys w ! k = Null_dtor \<longrightarrow> getspecific k t w = 0))"

lemma getspecific_set_tsd:
  "k < length (tsd_data w (p_tsd (threads w u))) \<Longrightarrow> getspecific j t (set_tsd u k x w) =
     (if p_tsd (threads w t) = p_tsd (threads w u) \<and> j = k then x else getspecific j t w)"
  by (auto simp: getspecific_def set_tsd_def Let_def)

lemma set_tsd_frame [simp]:
  "threads (set_tsd t k x w) = threads w" "keys (set_tsd t k x w) = keys w" "next_key (set_tsd t k x w) = next_key w"
  "calls (set_tsd t k x w) = calls w" "thread_list_lock (set_tsd t k x w) = thread_list_lock w"
  "tl_lock_count (set_tsd t k x w) = tl_lock_count w" "length (tsd_data (set_tsd t k x w) a) = length (tsd_data w a)"
  by (simp_all add: set_tsd_def Let_def)

lemma clear_key_ring:
  assumes "links (threads w) (td # rest @ [self])" and "self \<notin> set rest"
  shows "clear_key k self td w = Some (fold (\<lambda>t. set_tsd t k 0) (td # rest) w)"
  using assms
proof (induction rest arbitrary: td w)
  case Nil
  then show ?case by (subst clear_key.simps) (simp add: Let_def)
next
  case (Cons t rest)
  then have "p_next (threads w td) = t" "t \<noteq> self" by auto
  then have "clear_key k self td w = clear_key k self t (set_tsd td k 0 w)" by (subst clear_key.simps) (simp add: Let_def)
  with Cons show ?case by simp
qed

lemma clear_all:
  assumes "distinct ts" and "inj_on (\<lambda>t. p_tsd (threads w t)) (set ts)" and "k < PTHREAD_KEYS_MAX"
    and "\<forall>t\<in>set ts. length (tsd_data w (p_tsd (threads w t))) = PTHREAD_KEYS_MAX"
    and "us = fold (\<lambda>t. set_tsd t k 0) ts w"
  shows "threads us = threads w \<and> keys us = keys w \<and> next_key us = next_key w \<and> thread_list_lock us = thread_list_lock w \<and>
    tl_lock_count us = tl_lock_count w \<and> (\<forall>a. length (tsd_data us a) = length (tsd_data w a)) \<and>
    (\<forall>t\<in>set ts. \<forall>j. getspecific j t us = (if j = k then 0 else getspecific j t w))"
proof -
  have *: "threads (fold (\<lambda>t. set_tsd t k 0) xs w) = threads w \<and> keys (fold (\<lambda>t. set_tsd t k 0) xs w) = keys w \<and>
      next_key (fold (\<lambda>t. set_tsd t k 0) xs w) = next_key w \<and>
      thread_list_lock (fold (\<lambda>t. set_tsd t k 0) xs w) = thread_list_lock w \<and>
      tl_lock_count (fold (\<lambda>t. set_tsd t k 0) xs w) = tl_lock_count w \<and>
      (\<forall>a. length (tsd_data (fold (\<lambda>t. set_tsd t k 0) xs w) a) = length (tsd_data w a)) \<and>
      (\<forall>t\<in>set ts. \<forall>j. getspecific j t (fold (\<lambda>t. set_tsd t k 0) xs w) = (if t \<in> set xs \<and> j = k then 0 else getspecific j t w))"
    if "set xs \<subseteq> set ts" for xs
    using that
  proof (induction xs rule: rev_induct)
    case (snoc x xs)
    then have IH: "threads (fold (\<lambda>t. set_tsd t k 0) xs w) = threads w"
        "\<forall>a. length (tsd_data (fold (\<lambda>t. set_tsd t k 0) xs w) a) = length (tsd_data w a)"
        "\<forall>t\<in>set ts. \<forall>j. getspecific j t (fold (\<lambda>t. set_tsd t k 0) xs w) = (if t \<in> set xs \<and> j = k then 0 else getspecific j t w)"
      by auto
    have "getspecific j t (set_tsd x k 0 (fold (\<lambda>t. set_tsd t k 0) xs w)) = (if t \<in> set (xs @ [x]) \<and> j = k then 0 else getspecific j t w)"
      if "t \<in> set ts" for t j
      using that snoc.prems assms(2-4) IH by (subst getspecific_set_tsd) (auto simp: inj_on_def)
    with snoc show ?case by simp
  qed simp
  from * [of ts] assms(5) show ?thesis by simp
qed

lemma key_delete_clears:
  assumes inv: "key_inv w (self # ts)" and k: "k < PTHREAD_KEYS_MAX"
    and lock: "thread_list_lock w = 0" "tl_lock_count w = 0" "p_tid (threads w self) \<noteq> 0"
  shows "\<exists>w'. key_delete k self w = Some w' \<and> key_inv w' (self # ts) \<and> keys w' = (keys w)[k := Null_dtor] \<and>
    thread_list_lock w' = 0 \<and>
    (\<forall>t\<in>set (self # ts). \<forall>j. getspecific j t w' = (if j = k then 0 else getspecific j t w))"
proof -
  define w1 where "w1 = w\<lparr>thread_list_lock := p_tid (threads w self)\<rparr>"
  define w2 where "w2 = fold (\<lambda>t. set_tsd t k 0) (self # ts) w1"
  have l: "tl_lock self w = Some w1" using lock by (simp add: tl_lock_def w1_def)
  have c: "clear_key k self self w1 = Some w2"
    unfolding w2_def using inv by (intro clear_key_ring) (auto simp: key_inv_def ring_def w1_def)
  have g: "getspecific j t w1 = getspecific j t w" for j t by (simp add: w1_def getspecific_def)
  have all: "threads w2 = threads w1 \<and> keys w2 = keys w1 \<and> next_key w2 = next_key w1 \<and> thread_list_lock w2 = thread_list_lock w1 \<and>
    tl_lock_count w2 = tl_lock_count w1 \<and> (\<forall>a. length (tsd_data w2 a) = length (tsd_data w1 a)) \<and>
    (\<forall>t\<in>set (self # ts). \<forall>j. getspecific j t w2 = (if j = k then 0 else getspecific j t w1))"
    by (rule clear_all [OF _ _ k _ w2_def]) (use inv in \<open>auto simp: key_inv_def ring_def w1_def\<close>)
  let ?w = "(tl_unlock w2)\<lparr>keys := (keys (tl_unlock w2))[k := Null_dtor]\<rparr>"
  have fr: "threads ?w = threads w" "keys ?w = (keys w)[k := Null_dtor]" "next_key ?w = next_key w" "tsd_data ?w = tsd_data w2"
    "thread_list_lock ?w = 0" "\<And>a. length (tsd_data w2 a) = length (tsd_data w a)"
    using all lock by (simp_all add: tl_unlock_def w1_def)
  have get: "getspecific j t ?w = (if j = k then 0 else getspecific j t w)" if "t \<in> set (self # ts)" for j t
  proof -
    have "getspecific j t ?w = getspecific j t w2" by (simp add: getspecific_def tl_unlock_def)
    also have "\<dots> = (if j = k then 0 else getspecific j t w1)" using all that by blast
    finally show ?thesis by (simp add: g)
  qed
  have "key_inv ?w (self # ts)"
    unfolding key_inv_def fr(1,3,4,6) unfolding fr(2)
    using inv get ring_same_threads [OF fr(1)] by (simp add: key_inv_def nth_list_update)
  then show ?thesis using l c fr(2,5) get by (simp add: key_delete_def)
qed

text \<open>
  Claim C10. A new key is null in every thread, also when its slot has been used before: creating a key gives a free slot or fails
  if there is none, deleting one returns and clears its slot in all threads, and both keep the free slots null.
\<close>

theorem fresh_key_is_null:
  assumes "key_inv w (self # ts)" and "thread_list_lock w = 0" and "tl_lock_count w = 0" and "p_tid (threads w self) \<noteq> 0"
  shows "(\<exists>err k w'. key_create tsd_main dt self w = Some ((err, k), w') \<and> key_inv w' (self # ts) \<and>
      (err = 0 \<longrightarrow> k < PTHREAD_KEYS_MAX \<and> keys w ! k = Null_dtor \<and> keys w' ! k \<noteq> Null_dtor \<and>
        (\<forall>t\<in>set (self # ts). getspecific k t w' = 0)) \<and>
      (err \<noteq> 0 \<longrightarrow> err = EAGAIN \<and> w' = w \<and> (\<forall>k<PTHREAD_KEYS_MAX. keys w ! k \<noteq> Null_dtor))) \<and>
    (k < PTHREAD_KEYS_MAX \<longrightarrow> (\<exists>w'. key_delete k self w = Some w' \<and> key_inv w' (self # ts) \<and> keys w' ! k = Null_dtor \<and>
      (\<forall>t\<in>set (self # ts). \<forall>j. j \<noteq> k \<longrightarrow> getspecific j t w' = getspecific j t w)))"
proof -
  note inv = assms(1) [unfolded key_inv_def]
  have len: "length (keys w) = PTHREAD_KEYS_MAX" and nk: "next_key w < PTHREAD_KEYS_MAX" using inv by auto
  have pos: "0 < PTHREAD_KEYS_MAX" by (simp add: PTHREAD_KEYS_MAX_def)
  obtain r where r: "key_loop (keys w) (next_key w) (next_key w) = Some r"
    "case r of Some j \<Rightarrow> j < PTHREAD_KEYS_MAX \<and> keys w ! j = Null_dtor
     | None \<Rightarrow> \<forall>i<PTHREAD_KEYS_MAX. keys w ! ((next_key w + i) mod PTHREAD_KEYS_MAX) \<noteq> Null_dtor"
    using key_loop_finds [OF len pos nk] nk by auto
  have own: "p_tsd (threads w self) \<noteq> 0" using inv by simp
  have create: "\<exists>err k w'. key_create tsd_main dt self w = Some ((err, k), w') \<and> key_inv w' (self # ts) \<and>
      (err = 0 \<longrightarrow> k < PTHREAD_KEYS_MAX \<and> keys w ! k = Null_dtor \<and> keys w' ! k \<noteq> Null_dtor \<and>
        (\<forall>t\<in>set (self # ts). getspecific k t w' = 0)) \<and>
      (err \<noteq> 0 \<longrightarrow> err = EAGAIN \<and> w' = w \<and> (\<forall>k<PTHREAD_KEYS_MAX. keys w ! k \<noteq> Null_dtor))"
  proof (cases r)
    case (Some j)
    define d where "d = (if dt = Null_dtor then Nodtor else dt)"
    have d: "d \<noteq> Null_dtor" by (simp add: d_def)
    let ?w = "w\<lparr>next_key := j, keys := (keys w)[j := d]\<rparr>"
    have j: "j < PTHREAD_KEYS_MAX" "keys w ! j = Null_dtor" using r(2) Some by auto
    have g: "getspecific k t ?w = getspecific k t w" for k t by (simp add: getspecific_def)
    have "key_inv ?w (self # ts)"
      using assms(1) j(1) d ring_same_threads [of ?w w] by (auto simp: key_inv_def g nth_list_update)
    moreover have "\<forall>t\<in>set (self # ts). getspecific j t ?w = 0" unfolding g using inv j by blast
    moreover have "key_create tsd_main dt self w = Some ((0, j), ?w)"
      using r(1) Some own by (simp add: key_create_def flip: d_def)
    moreover have "keys ?w ! j \<noteq> Null_dtor" using j len d by simp
    ultimately have "key_create tsd_main dt self w = Some ((0, j), ?w) \<and> key_inv ?w (self # ts) \<and>
      (j < PTHREAD_KEYS_MAX \<and> keys w ! j = Null_dtor \<and> keys ?w ! j \<noteq> Null_dtor \<and> (\<forall>t\<in>set (self # ts). getspecific j t ?w = 0))"
      using j by blast
    then show ?thesis by - (rule exI [of _ 0], rule exI [of _ j], rule exI [of _ ?w], simp only: simp_thms, elim conjE, assumption)
  next
    case None
    have "keys w ! k \<noteq> Null_dtor" if "k < PTHREAD_KEYS_MAX" for k
    proof -
      let ?i = "(k + (PTHREAD_KEYS_MAX - next_key w)) mod PTHREAD_KEYS_MAX"
      have eq: "(next_key w + ?i) mod PTHREAD_KEYS_MAX = k" using that nk by (simp add: mod_add_right_eq)
      have "\<forall>i<PTHREAD_KEYS_MAX. keys w ! ((next_key w + i) mod PTHREAD_KEYS_MAX) \<noteq> Null_dtor" using r(2) None by simp
      moreover have "?i < PTHREAD_KEYS_MAX" using pos by simp
      ultimately have "keys w ! ((next_key w + ?i) mod PTHREAD_KEYS_MAX) \<noteq> Null_dtor" by blast
      then show ?thesis unfolding eq .
    qed
    moreover have "key_create tsd_main dt self w = Some ((EAGAIN, 0), w)" using r(1) None own by (simp add: key_create_def)
    ultimately show ?thesis using assms(1) by auto
  qed
  have "\<exists>w'. key_delete k self w = Some w' \<and> key_inv w' (self # ts) \<and> keys w' ! k = Null_dtor \<and>
      (\<forall>t\<in>set (self # ts). \<forall>j. j \<noteq> k \<longrightarrow> getspecific j t w' = getspecific j t w)" if k: "k < PTHREAD_KEYS_MAX"
  proof -
    obtain w' where "key_delete k self w = Some w'" "key_inv w' (self # ts)" "keys w' = (keys w)[k := Null_dtor]"
      "\<forall>t\<in>set (self # ts). \<forall>j. getspecific j t w' = (if j = k then 0 else getspecific j t w)"
      using key_delete_clears [OF assms(1) k assms(2-4)] by blast
    then show ?thesis using k len by auto
  qed
  with create show ?thesis by blast
qed

section \<open>Handlers and destructors at the exit\<close>














text \<open>The robust mutexes that the thread holds.\<close>

fun robust_chain :: "world \<Rightarrow> robust_ptr \<Rightarrow> u32 list \<Rightarrow> bool" where
  "robust_chain w p [] \<longleftrightarrow> (\<forall>m. p \<noteq> Robust_mutex m)"
| "robust_chain w p (m # ms) \<longleftrightarrow> p = Robust_mutex m \<and> robust_chain w (m_next (mutexes w m)) ms"





section \<open>The exit of a thread\<close>








subsection \<open>Handlers and destructors that set thread-specific data again\<close>

text \<open>
  Between two calls of the library the exiting thread is in the ring with others, the lock of the ring is free and its robust mutexes are
  a list.
\<close>

definition intact :: "u32 \<Rightarrow> world \<Rightarrow> bool" where
  "intact self w \<longleftrightarrow> (\<exists>ts. ring w (self # ts) \<and> ts \<noteq> []) \<and> (\<exists>ms. robust_chain w (p_robust (threads w self)) ms \<and> distinct ms) \<and>
     thread_list_lock w = 0 \<and> tl_lock_count w = 0 \<and> p_tid (threads w self) \<noteq> 0 \<and> p_detach (threads w self) \<in> {DT_JOINABLE, DT_DETACHED}"

text \<open>
  What a handler or destructor keeps, as a program does that only calls the library: it may create, detach and join other threads,
  take and release robust mutexes, create and delete keys, and set thread-specific data of its own thread again, in which case
  \<open>pthread_setspecific\<close> sets \<open>tsd_used\<close>. Its pushes and pops of handlers are balanced, and it does not end the thread itself.
\<close>

definition exit_frame :: "u32 \<Rightarrow> world \<Rightarrow> world \<Rightarrow> bool" where
  "exit_frame self w w' \<longleftrightarrow> (intact self w \<longrightarrow> intact self w') \<and>
     p_tsd (threads w' self) = p_tsd (threads w self) \<and> p_result (threads w' self) = p_result (threads w self) \<and>
     length (tsd_data w' (p_tsd (threads w self))) = length (tsd_data w (p_tsd (threads w self)))"



lemma exit_frame_refl [simp]: "exit_frame self w w"
  by (simp add: exit_frame_def)














text \<open>The last part of the exit is the run of the machine in the theory of joining.\<close>

definition control_of :: "u32 \<Rightarrow> world \<Rightarrow> control" where
  "control_of t w = \<lparr>detach = p_detach (threads w t), self_valid = (p_self (threads w t) = t),
     cleanups = count_list (calls w) (Thread_cleanup t)\<rparr>"

lemma publish_exit_refines:
  assumes "exit_step Running (control_of t w) = (e1, c1)" and "exit_step e1 c1 = (e2, c2)" and "exit_step e2 c2 = (e3, c3)"
  shows "e3 = Gone \<and> c3 = control_of t (publish_exit t w)"
  using assms
  by (cases "p_detach (threads w t)")
     (auto simp: exit_step_def a_cas_def thread_cleanup_def control_of_def publish_exit_def upd_thread_def log_call_def Let_def)

section \<open>Witnesses\<close>

definition demo_world :: world where
  "demo_world = \<lparr>threads = (\<lambda>_. zero_pthread)
       (16 := zero_pthread\<lparr>p_self := 16, p_next := 16, p_prev := 16, p_tid := 42, p_detach := DT_JOINABLE, p_tsd := 1000\<rparr>),
     tsd_data = (\<lambda>_. replicate PTHREAD_KEYS_MAX 0), ptcbs = (\<lambda>_. \<lparr>cb_f = 7, cb_x = 8, cb_next = 0\<rparr>),
     mutexes = (\<lambda>_. \<lparr>m_lock = 43, m_waiters = 1, m_next = Robust_head\<rparr>), keys = replicate PTHREAD_KEYS_MAX Null_dtor, next_key = 0,
     thread_list_lock = 0, tl_lock_count = 0, threads_minus_1 = 0, need_locks = False, next_tid = 43, calls = [], user = 0\<rparr>"


lemma demo_thread_ring: "ring demo_world [16]"
  by (simp add: ring_def demo_world_def zero_pthread_def)

theorem create_links_thread_witness:
  "\<exists>w'. pthread_create demo_build \<lparr>a_stacksize = 0, a_stackaddr = 0, a_detach = False\<rparr> 42 32 0 16 demo_world = Some ((0, 32), w') \<and>
    ring w' [16, 32]"
  using create_links_thread [OF demo_thread_ring, of 32 demo_build "\<lparr>a_stacksize = 0, a_stackaddr = 0, a_detach = False\<rparr>" 42 0]
  by (auto simp: demo_world_def)

theorem fresh_key_is_null_witness:
  "\<exists>w'. key_delete 3 16 demo_world = Some w' \<and> key_inv w' [16]"
proof -
  have "key_inv demo_world [16]"
    using demo_thread_ring by (simp add: key_inv_def demo_world_def getspecific_def PTHREAD_KEYS_MAX_def zero_pthread_def)
  then show ?thesis using fresh_key_is_null [of demo_world 16 "[]" 0 Null_dtor 3]
    by (auto simp: demo_world_def PTHREAD_KEYS_MAX_def)
qed


end
